(* ===== verification/Thresh_Prelude.thy ===== *)
theory Thresh_Prelude
  imports Main "HOL-Library.AList" "HOL-Library.Multiset" "HOL-Library.List_Lexorder"
    "HOL-Library.Char_ord"
begin

text \<open>
  Shared vocabulary of the development.

  \<^item> A JavaScript \<open>Map\<close> is an association list with distinct keys in insertion order:
    \<open>js_get\<close>, \<open>js_set\<close> (replace in place, else append at the end), \<open>js_delete\<close>, \<open>js_has\<close>.
    The library's \<open>AList\<close> operations have exactly these semantics.
  \<^item> An \<open>Array.prototype.sort\<close> call with a comparator is \<open>js_sort le\<close>, a stable sort; the locale
    \<open>js_order\<close> holds what every such call in the code relies on.
  \<^item> Errors thrown by the code are values: an operation that may throw returns \<open>'e + 'a\<close>
    (\<open>Inl\<close> the error).
  \<^item> Numbers printed by template strings are \<open>show_nat\<close> / \<open>show_int\<close>.
\<close>

named_theorems js_map_simps \<open>rewrite rules for insertion-ordered maps\<close>
named_theorems thresh_defs \<open>definitions unfolded together by the component proofs\<close>

section \<open>Insertion-ordered maps\<close>

type_synonym ('k, 'v) js_map = "('k \<times> 'v) list"

abbreviation js_get :: "('k, 'v) js_map \<Rightarrow> 'k \<Rightarrow> 'v option" where
  "js_get m k \<equiv> map_of m k"

abbreviation js_set :: "'k \<Rightarrow> 'v \<Rightarrow> ('k, 'v) js_map \<Rightarrow> ('k, 'v) js_map" where
  "js_set k v m \<equiv> AList.update k v m"

abbreviation js_delete :: "'k \<Rightarrow> ('k, 'v) js_map \<Rightarrow> ('k, 'v) js_map" where
  "js_delete k m \<equiv> AList.delete k m"

abbreviation js_has :: "('k, 'v) js_map \<Rightarrow> 'k \<Rightarrow> bool" where
  "js_has m k \<equiv> map_of m k \<noteq> None"

abbreviation js_keys :: "('k, 'v) js_map \<Rightarrow> 'k list" where
  "js_keys m \<equiv> map fst m"

abbreviation js_values :: "('k, 'v) js_map \<Rightarrow> 'v list" where
  "js_values m \<equiv> map snd m"

definition js_wf :: "('k, 'v) js_map \<Rightarrow> bool" where
  "js_wf m \<longleftrightarrow> distinct (map fst m)"

lemma js_wf_empty [simp]: "js_wf []"
  by (simp add: js_wf_def)

lemma js_wf_set [simp]: "js_wf m \<Longrightarrow> js_wf (js_set k v m)"
  by (simp add: js_wf_def distinct_update)

lemma js_wf_delete [simp]: "js_wf m \<Longrightarrow> js_wf (js_delete k m)"
  by (simp add: js_wf_def distinct_delete)

lemma js_wf_filter [simp]: "js_wf m \<Longrightarrow> js_wf (filter P m)"
  by (simp add: js_wf_def distinct_map_filter)

lemma js_get_set [js_map_simps]:
  "js_get (js_set k v m) k' = (if k' = k then Some v else js_get m k')"
  by (simp add: update_conv')

lemma js_get_delete [js_map_simps]:
  "js_get (js_delete k m) k' = (if k' = k then None else js_get m k')"
  by (simp add: delete_conv')

lemma js_get_filter [js_map_simps]:
  "js_wf m \<Longrightarrow> js_get (filter P m) k =
     (case js_get m k of None \<Rightarrow> None | Some v \<Rightarrow> if P (k, v) then Some v else None)"
proof (induction m)
  case Nil
  then show ?case by simp
next
  case (Cons p m)
  have wf: "js_wf m" and notin: "fst p \<notin> fst ` set m"
    using Cons.prems by (auto simp: js_wf_def)
  from notin have "map_of m (fst p) = None"
    by (simp add: map_of_eq_None_iff)
  with Cons.IH [OF wf] show ?case
    by (cases p) (auto split: option.splits)
qed

lemma js_get_mem: "js_wf m \<Longrightarrow> js_get m k = Some v \<longleftrightarrow> (k, v) \<in> set m"
  by (simp add: js_wf_def)

lemma js_get_memD: "js_get m k = Some v \<Longrightarrow> (k, v) \<in> set m"
  by (rule map_of_SomeD)

lemma js_set_mem:
  "js_wf m \<Longrightarrow> p \<in> set (js_set k v m) \<longleftrightarrow> p = (k, v) \<or> p \<in> set m \<and> fst p \<noteq> k"
proof -
  assume wf: "js_wf m"
  have "p \<in> set (js_set k v m) \<longleftrightarrow> js_get (js_set k v m) (fst p) = Some (snd p)"
    by (simp add: js_get_mem wf)
  also have "\<dots> \<longleftrightarrow> (if fst p = k then snd p = v else (fst p, snd p) \<in> set m)"
    using js_get_mem [OF wf, of "fst p" "snd p"] by (auto simp: js_get_set)
  also have "\<dots> \<longleftrightarrow> p = (k, v) \<or> p \<in> set m \<and> fst p \<noteq> k"
    by (cases p) auto
  finally show ?thesis .
qed

lemma js_delete_mem: "p \<in> set (js_delete k m) \<longleftrightarrow> p \<in> set m \<and> fst p \<noteq> k"
  by (auto simp: AList.delete_eq)

lemma js_values_set: "snd ` set (js_set k v m) \<subseteq> insert v (snd ` set m)"
  by (induction m) auto

lemma js_values_delete: "snd ` set (js_delete k m) \<subseteq> snd ` set m"
  by (auto simp: AList.delete_eq)

lemma js_get_append:
  "js_get (m @ m') k = (case js_get m k of None \<Rightarrow> js_get m' k | Some v \<Rightarrow> Some v)"
  by (simp add: map_add_def split: option.splits)

lemma js_set_fresh: "js_get m k = None \<Longrightarrow> js_set k v m = m @ [(k, v)]"
  by (induction m) (auto split: if_splits)

lemma length_js_set:
  "length (js_set k v m) = (if js_has m k then length m else Suc (length m))"
  by (induction m) auto

lemma js_keys_set: "js_has m k \<Longrightarrow> map fst (js_set k v m) = map fst m"
  by (induction m) (auto split: if_splits)

lemma js_map_eqI:
  assumes "js_wf a" "map fst a = map fst b" "\<And>k. js_get a k = js_get b k"
  shows "a = b"
proof -
  have "snd (a ! i) = snd (b ! i)" if "i < length a" for i
  proof -
    have l: "length b = length a" using assms(2) by (metis length_map)
    have k: "fst (a ! i) = fst (b ! i)" using assms(2) that l by (metis nth_map)
    have "js_get a (fst (a ! i)) = Some (snd (a ! i))"
      using assms(1) that by (simp add: js_get_mem)
    moreover have "js_wf b" using assms(1,2) by (simp add: js_wf_def)
    then have "js_get b (fst (b ! i)) = Some (snd (b ! i))"
      using that l by (simp add: js_get_mem)
    ultimately show ?thesis using assms(3) k by (metis option.inject)
  qed
  with assms(2) show ?thesis by (metis (no_types, lifting) length_map nth_equalityI nth_map prod_eq_iff)
qed

section \<open>Stable sorting with a comparator\<close>

fun js_insort :: "('a \<Rightarrow> 'a \<Rightarrow> bool) \<Rightarrow> 'a \<Rightarrow> 'a list \<Rightarrow> 'a list" where
  "js_insort le x [] = [x]"
| "js_insort le x (y # ys) = (if le x y then x # y # ys else y # js_insort le x ys)"

definition js_sort :: "('a \<Rightarrow> 'a \<Rightarrow> bool) \<Rightarrow> 'a list \<Rightarrow> 'a list" where
  "js_sort le xs = foldr (js_insort le) xs []"

lemma js_sort_simps [simp]:
  "js_sort le [] = []"
  "js_sort le (x # xs) = js_insort le x (js_sort le xs)"
  by (simp_all add: js_sort_def)

lemma mset_js_insort [simp]: "mset (js_insort le x xs) = add_mset x (mset xs)"
  by (induction xs) auto

lemma mset_js_sort [simp]: "mset (js_sort le xs) = mset xs"
  by (induction xs) auto

lemma set_js_insort [simp]: "set (js_insort le x xs) = insert x (set xs)"
  by (induction xs) auto

lemma set_js_sort [simp]: "set (js_sort le xs) = set xs"
  by (induction xs) auto

lemma length_js_insort [simp]: "length (js_insort le x xs) = Suc (length xs)"
  by (induction xs) auto

lemma length_js_sort [simp]: "length (js_sort le xs) = length xs"
  by (induction xs) auto

lemma distinct_js_sort [simp]: "distinct (js_sort le xs) = distinct xs"
  by (metis mset_eq_imp_distinct_iff mset_js_sort)

lemma js_sort_Nil_iff [simp]: "js_sort le xs = [] \<longleftrightarrow> xs = []"
  by (metis length_0_conv length_js_sort)

text \<open>What a comparator must satisfy for the code's sorts to be meaningful.\<close>

locale js_order =
  fixes le :: "'a \<Rightarrow> 'a \<Rightarrow> bool"
  assumes le_total: "le x y \<or> le y x"
    and le_trans: "le x y \<Longrightarrow> le y z \<Longrightarrow> le x z"
begin

lemma le_refl: "le x x"
  using le_total by blast

lemma insort_sorted: "sorted_wrt le xs \<Longrightarrow> sorted_wrt le (js_insort le x xs)"
proof (induction xs)
  case Nil
  then show ?case by simp
next
  case (Cons y ys)
  then show ?case
    using le_total [of x y] by (auto dest: le_trans)
qed

lemma sort_sorted: "sorted_wrt le (js_sort le xs)"
  by (induction xs) (auto intro: insort_sorted)

lemma sort_id: "sorted_wrt le xs \<Longrightarrow> js_sort le xs = xs"
proof (induction xs)
  case Nil
  then show ?case by simp
next
  case (Cons x xs)
  then show ?case by (cases xs) auto
qed

end

locale js_linear_order = js_order +
  assumes le_antisym: "le x y \<Longrightarrow> le y x \<Longrightarrow> x = y"
begin

lemma sorted_unique:
  "sorted_wrt le xs \<Longrightarrow> sorted_wrt le ys \<Longrightarrow> mset xs = mset ys \<Longrightarrow> xs = ys"
proof (induction xs arbitrary: ys)
  case Nil
  then show ?case by simp
next
  case (Cons x xs)
  obtain y ys' where ys: "ys = y # ys'"
    using Cons.prems(3) by (cases ys) auto
  have "x \<in> set ys" and "y \<in> set (x # xs)"
    using Cons.prems(3) by (metis list.set_intros(1) mset_eq_setD, metis list.set_intros(1) mset_eq_setD ys)
  then have "x = y"
    using Cons.prems(1,2) ys by (auto intro: le_antisym)
  moreover have "mset xs = mset ys'"
    using Cons.prems(3) ys \<open>x = y\<close> by simp
  ultimately show ?case
    using Cons.IH Cons.prems(1,2) ys by auto
qed

text \<open>The result of the sort is a function of the multiset: the input order is irrelevant.\<close>

lemma sort_perm: "mset xs = mset ys \<Longrightarrow> js_sort le xs = js_sort le ys"
  by (rule sorted_unique) (auto intro: sort_sorted)

end

section \<open>Numbers in template strings\<close>

definition digit_char :: "nat \<Rightarrow> char" where
  "digit_char d = char_of (48 + d)"

fun show_nat :: "nat \<Rightarrow> string" where
  "show_nat n = (if n < 10 then [digit_char n] else show_nat (n div 10) @ [digit_char (n mod 10)])"

declare show_nat.simps [simp del]

definition show_int :: "int \<Rightarrow> string" where
  "show_int i = (if i < 0 then CHR ''-'' # show_nat (nat (- i)) else show_nat (nat i))"

definition is_digit :: "char \<Rightarrow> bool" where
  "is_digit c \<longleftrightarrow> 48 \<le> (of_char c :: nat) \<and> (of_char c :: nat) \<le> 57"

definition digit_val :: "char \<Rightarrow> nat" where
  "digit_val c = of_char c - 48"

definition read_nat :: "string \<Rightarrow> nat" where
  "read_nat s = foldl (\<lambda>acc c. 10 * acc + digit_val c) 0 s"

lemma digit_char_digit [simp]: "d < 10 \<Longrightarrow> is_digit (digit_char d)"
  by (simp add: is_digit_def digit_char_def of_char_of take_bit_eq_mod)

lemma digit_val_char [simp]: "d < 10 \<Longrightarrow> digit_val (digit_char d) = d"
  by (simp add: digit_val_def digit_char_def of_char_of take_bit_eq_mod)

lemma show_nat_digits: "c \<in> set (show_nat n) \<Longrightarrow> is_digit c"
proof (induction n rule: show_nat.induct)
  case (1 n)
  then show ?case
    by (subst (asm) (2) show_nat.simps) (auto split: if_splits)
qed

lemma show_nat_ne [simp]: "show_nat n \<noteq> []"
  by (subst show_nat.simps) simp

lemma read_show_nat [simp]: "read_nat (show_nat n) = n"
proof (induction n rule: show_nat.induct)
  case (1 n)
  show ?case
  proof (cases "n < 10")
    case True
    then show ?thesis by (subst show_nat.simps) (simp add: read_nat_def)
  next
    case False
    with 1 have "read_nat (show_nat (n div 10)) = n div 10" by simp
    with False show ?thesis by (subst show_nat.simps) (simp add: read_nat_def)
  qed
qed

lemma show_nat_inj [simp]: "show_nat m = show_nat n \<longleftrightarrow> m = n"
  by (metis read_show_nat)

section \<open>Searching lists\<close>

lemma find_mem: "find P xs = Some x \<Longrightarrow> x \<in> set xs \<and> P x"
  by (auto simp: find_Some_iff)

end
