(* ===== verification/Hashing.thy ===== *)
theory Hashing
  imports Thresh_Prelude "HOL-Library.Word"
begin

text \<open>
  \<^verbatim>\<open>packages/core/src/hash.ts\<close> and \<^verbatim>\<open>packages/core/src/hash-ring.ts\<close>: the stable 32-bit hash
  every silo uses for ring positions, and the half-open, possibly wrapping hash ranges.

  \<open>Math.imul\<close> is multiplication of 32-bit words, \<open>>>>\<close> is \<open>drop_bit\<close>, \<open>^=\<close> is \<open>XOR\<close>; the final
  \<open>>>> 0\<close> reads the word as an unsigned number, which is \<open>uint\<close>. A string is a list of
  characters whose code units (\<open>charCodeAt\<close>) are below 256; \<open>stableHash32_units\<close> is the
  function on arbitrary 16-bit code units.
\<close>

unbundle bit_operations_syntax

definition fnv_step :: "32 word \<Rightarrow> 16 word \<Rightarrow> 32 word" where
  "fnv_step h c = (h XOR ucast c) * 0x01000193"

definition xorshift :: "nat \<Rightarrow> 32 word \<Rightarrow> 32 word" where
  "xorshift n h = h XOR drop_bit n h"

definition fmix32 :: "32 word \<Rightarrow> 32 word" where
  "fmix32 h = xorshift 16 (xorshift 13 (xorshift 16 h * 0x85ebca6b) * 0xc2b2ae35)"

definition stableHash32_units :: "16 word list \<Rightarrow> 32 word" where
  "stableHash32_units s = fmix32 (foldl fnv_step 0x811c9dc5 s)"

definition stableHash32 :: "string \<Rightarrow> int" where
  "stableHash32 s = uint (stableHash32_units (map of_char s))"

type_synonym hash_range = "int \<times> int"

definition isHashInRange :: "int \<Rightarrow> int \<Rightarrow> int \<Rightarrow> bool" where
  "isHashInRange hash b e =
     (if b \<le> e then hash \<ge> b \<and> hash < e else hash \<ge> b \<or> hash < e)"

definition isHashInRanges :: "int \<Rightarrow> hash_range list \<Rightarrow> bool" where
  "isHashInRanges hash ranges = list_ex (\<lambda>(b, e). isHashInRange hash b e) ranges"

lemma stableHash32_bound: "0 \<le> stableHash32 s \<and> stableHash32 s < 2 ^ 32"
  using uint_lt2p [of "stableHash32_units (map of_char s)"] by (simp add: stableHash32_def)

text \<open>
  The finalizer and every FNV step are bijections of the 32-bit words: no information is lost
  after the string has been absorbed, and two strings that differ in one position of otherwise
  equal text never collide before the finalizer.
\<close>

lemma word_mult_inverse:
  fixes a b x :: "32 word"
  assumes "a * b = 1"
  shows "(x * a) * b = x"
  by (simp add: mult.assoc assms)

lemma xor_drop_bit_16_inv:
  fixes h :: "32 word"
  shows "(h XOR drop_bit 16 h) XOR drop_bit 16 (h XOR drop_bit 16 h) = h"
proof -
  have "drop_bit 16 (drop_bit 16 h) = 0"
    by (rule bit_word_eqI) (auto simp: bit_drop_bit_eq dest: bit_imp_le_length)
  then show ?thesis
    by (simp add: drop_bit_xor xor.assoc)
qed

lemma xor_drop_bit_13_inv:
  fixes h :: "32 word"
  defines "g \<equiv> h XOR drop_bit 13 h"
  shows "g XOR drop_bit 13 g XOR drop_bit 26 g = h"
proof -
  have z: "drop_bit 39 h = 0"
    by (rule bit_word_eqI) (auto simp: bit_drop_bit_eq dest: bit_imp_le_length)
  have "drop_bit 26 g = drop_bit 26 h"
    by (simp add: g_def drop_bit_xor drop_bit_drop_bit z)
  moreover have "drop_bit 13 g = drop_bit 13 h XOR drop_bit 26 h"
    by (simp add: g_def drop_bit_xor drop_bit_drop_bit)
  ultimately show ?thesis
    by (simp add: g_def xor.assoc)
qed

lemma inj_mult_odd:
  fixes a b :: "32 word"
  assumes "a * b = 1"
  shows "x * a = y * a \<longleftrightarrow> x = y"
  by (metis assms word_mult_inverse)

lemma inj_xor_drop_bit_16:
  "xorshift 16 x = xorshift 16 y \<longleftrightarrow> x = y"
  unfolding xorshift_def by (metis xor_drop_bit_16_inv)

lemma inj_xor_drop_bit_13:
  "xorshift 13 x = xorshift 13 y \<longleftrightarrow> x = y"
  unfolding xorshift_def by (metis xor_drop_bit_13_inv)

lemma mult_inverses:
  "(0x85ebca6b :: 32 word) * 0xa5cb9243 = 1"
  "(0xc2b2ae35 :: 32 word) * 0x7ed1b41d = 1"
  "(0x01000193 :: 32 word) * 0x359c449b = 1"
  by simp_all

lemmas fmix32_inj_rules =
  inj_xor_drop_bit_16 inj_xor_drop_bit_13
  inj_mult_odd [OF mult_inverses(1)] inj_mult_odd [OF mult_inverses(2)]

lemma fmix32_inj: "fmix32 x = fmix32 y \<longleftrightarrow> x = y"
  by (simp only: fmix32_def fmix32_inj_rules)

lemma xor_cancel_right: "a XOR c = b XOR c \<longleftrightarrow> a = b" for a b c :: "32 word"
proof
  assume "a XOR c = b XOR c"
  then have "(a XOR c) XOR c = (b XOR c) XOR c" by simp
  then show "a = b" by (simp add: xor.assoc)
qed simp

lemma fnv_step_inj_state: "fnv_step h c = fnv_step k c \<longleftrightarrow> h = k"
  by (simp add: fnv_step_def inj_mult_odd [OF mult_inverses(3)] xor_cancel_right)

lemma ucast_16_32_inj: "(ucast c :: 32 word) = ucast d \<longleftrightarrow> c = d" for c d :: "16 word"
proof
  assume eq: "(ucast c :: 32 word) = ucast d"
  show "c = d"
  proof (rule bit_word_eqI)
    fix n assume "n < LENGTH(16)"
    moreover have "bit (ucast c :: 32 word) n = bit (ucast d :: 32 word) n"
      by (simp only: eq)
    ultimately show "bit c n = bit d n" by (simp add: bit_ucast_iff)
  qed
qed simp

lemma fnv_step_inj_char: "fnv_step h c = fnv_step h d \<longleftrightarrow> c = d"
  by (simp add: fnv_step_def inj_mult_odd [OF mult_inverses(3)] xor.commute [of h]
      xor_cancel_right ucast_16_32_inj)

end
