(* ===== verification/Identity.thy ===== *)
theory Identity
  imports Hashing
begin

text \<open>
  The identity types of \<^verbatim>\<open>packages/core/src\<close>: \<^verbatim>\<open>guid.ts\<close>, \<^verbatim>\<open>grain-key.ts\<close>, \<^verbatim>\<open>grain-id.ts\<close>,
  \<^verbatim>\<open>silo-address.ts\<close>, \<^verbatim>\<open>grain-address.ts\<close>, \<^verbatim>\<open>membership.ts\<close>. The main facts: key and grain-id
  strings parse back to the value they print, and \<open>SiloAddress.compare\<close> is a total order (an
  instance of the library's \<open>linorder\<close>) whose zero is \<open>equals\<close>.
\<close>

section \<open>Guids and integers as text\<close>

datatype id_error =
    InvalidGuid string
  | InvalidBigInt string
  | InvalidCompoundKey string
  | BlankExtension string
  | InvalidGrainId string

datatype guid = Guid (guid_value: string)

definition is_hex :: "char \<Rightarrow> bool" where
  "is_hex c \<longleftrightarrow> is_digit c
     \<or> (97 \<le> (of_char c :: nat) \<and> (of_char c :: nat) \<le> 102)
     \<or> (65 \<le> (of_char c :: nat) \<and> (of_char c :: nat) \<le> 70)"

definition to_lower :: "char \<Rightarrow> char" where
  "to_lower c = (if 65 \<le> (of_char c :: nat) \<and> (of_char c :: nat) \<le> 90
                 then char_of ((of_char c :: nat) + 32) else c)"

definition is_uuid :: "string \<Rightarrow> bool" where
  "is_uuid s \<longleftrightarrow> length s = 36 \<and>
     list_all (\<lambda>i. if i \<in> {8, 13, 18, 23} then s ! i = CHR ''-'' else is_hex (s ! i)) [0..<36]"

definition Guid_parse :: "string \<Rightarrow> id_error + guid" where
  "Guid_parse s = (if is_uuid s then Inr (Guid (map to_lower s)) else Inl (InvalidGuid s))"

text \<open>
  \<open>BigInt(s)\<close> of a string: surrounding whitespace is dropped, the empty text is 0, then an
  optionally signed decimal or an unsigned hexadecimal, octal or binary literal.
\<close>

definition is_space :: "char \<Rightarrow> bool" where
  "is_space c \<longleftrightarrow> (of_char c :: nat) \<in> {9, 10, 11, 12, 13, 32, 160}"

definition trim :: "string \<Rightarrow> string" where
  "trim s = rev (dropWhile is_space (rev (dropWhile is_space s)))"

definition radix_val :: "char \<Rightarrow> nat" where
  "radix_val c = (let n = (of_char c :: nat) in
     if is_digit c then n - 48 else if 97 \<le> n then n - 97 + 10 else n - 65 + 10)"

definition read_radix :: "nat \<Rightarrow> string \<Rightarrow> int option" where
  "read_radix r s = (if s \<noteq> [] \<and> list_all (\<lambda>c. is_hex c \<and> radix_val c < r) s
     then Some (int (foldl (\<lambda>acc c. r * acc + radix_val c) 0 s)) else None)"

definition read_dec :: "string \<Rightarrow> nat option" where
  "read_dec s = (if s \<noteq> [] \<and> list_all is_digit s then Some (read_nat s) else None)"

definition BigInt_of :: "string \<Rightarrow> int option" where
  "BigInt_of s0 = (case trim s0 of
       [] \<Rightarrow> Some 0
     | c # cs \<Rightarrow>
         if c = CHR ''-'' then map_option (\<lambda>n. - int n) (read_dec cs)
         else if c = CHR ''+'' then map_option int (read_dec cs)
         else (case cs of
             x # ds \<Rightarrow>
               if c = CHR ''0'' \<and> x \<in> set ''xX'' then read_radix 16 ds
               else if c = CHR ''0'' \<and> x \<in> set ''oO'' then read_radix 8 ds
               else if c = CHR ''0'' \<and> x \<in> set ''bB'' then read_radix 2 ds
               else map_option int (read_dec (c # cs))
           | [] \<Rightarrow> map_option int (read_dec (c # cs))))"

section \<open>Grain keys\<close>

datatype grain_key =
    KString string
  | KInteger int
  | KGuid guid
  | KGuidCompound guid string
  | KIntegerCompound int string

datatype grain_key_kind =
  StringKind | IntegerKind | GuidKind | GuidCompoundKind | IntegerCompoundKind

fun keyKindOf :: "grain_key \<Rightarrow> grain_key_kind" where
  "keyKindOf (KString _) = StringKind"
| "keyKindOf (KInteger _) = IntegerKind"
| "keyKindOf (KGuidCompound _ _) = GuidCompoundKind"
| "keyKindOf (KIntegerCompound _ _) = IntegerCompoundKind"
| "keyKindOf (KGuid _) = GuidKind"

fun keyToString :: "grain_key \<Rightarrow> string" where
  "keyToString (KString s) = s"
| "keyToString (KInteger i) = show_int i"
| "keyToString (KGuid g) = guid_value g"
| "keyToString (KGuidCompound g e) = guid_value g @ ''+'' @ e"
| "keyToString (KIntegerCompound i e) = show_int i @ ''+'' @ e"

text \<open>The \<open>CompoundKey\<close> constructor refuses a blank extension.\<close>

definition newCompoundKey :: "('p \<Rightarrow> string \<Rightarrow> grain_key) \<Rightarrow> 'p \<Rightarrow> string \<Rightarrow> id_error + grain_key" where
  "newCompoundKey mk primary ext =
     (if trim ext = [] then Inl (BlankExtension ext) else Inr (mk primary ext))"

definition index_of :: "char \<Rightarrow> string \<Rightarrow> nat option" where
  "index_of c s = (let pre = takeWhile (\<lambda>x. x \<noteq> c) s in
     if length pre < length s then Some (length pre) else None)"

definition parseKey :: "grain_key_kind \<Rightarrow> string \<Rightarrow> id_error + grain_key" where
  "parseKey kind s = (case kind of
       StringKind \<Rightarrow> Inr (KString s)
     | IntegerKind \<Rightarrow> (case BigInt_of s of None \<Rightarrow> Inl (InvalidBigInt s) | Some i \<Rightarrow> Inr (KInteger i))
     | GuidKind \<Rightarrow> (case Guid_parse s of Inl e \<Rightarrow> Inl e | Inr g \<Rightarrow> Inr (KGuid g))
     | _ \<Rightarrow> (case index_of (CHR ''+'') s of
           None \<Rightarrow> Inl (InvalidCompoundKey s)
         | Some sep \<Rightarrow>
             (let primary = take sep s; extension = drop (sep + 1) s in
              if kind = GuidCompoundKind
              then (case Guid_parse primary of Inl e \<Rightarrow> Inl e
                    | Inr g \<Rightarrow> newCompoundKey KGuidCompound g extension)
              else (case BigInt_of primary of None \<Rightarrow> Inl (InvalidBigInt primary)
                    | Some i \<Rightarrow> newCompoundKey KIntegerCompound i extension))))"

section \<open>Grain ids\<close>

datatype grain_id = GrainId (gtype: string) (gkey: grain_key)

definition grain_id_toString :: "grain_id \<Rightarrow> string" where
  "grain_id_toString g = gtype g @ ''/'' @ keyToString (gkey g)"

definition grain_id_parse :: "string \<Rightarrow> grain_key_kind \<Rightarrow> id_error + grain_id" where
  "grain_id_parse s kind = (case index_of (CHR ''/'') s of
       None \<Rightarrow> Inl (InvalidGrainId s)
     | Some slash \<Rightarrow> (case parseKey kind (drop (slash + 1) s) of
           Inl e \<Rightarrow> Inl e
         | Inr k \<Rightarrow> Inr (GrainId (take slash s) k)))"

definition grain_id_equals :: "grain_id \<Rightarrow> grain_id \<Rightarrow> bool" where
  "grain_id_equals a b \<longleftrightarrow>
     keyKindOf (gkey a) = keyKindOf (gkey b) \<and> grain_id_toString a = grain_id_toString b"

definition getUniformHashCode :: "grain_id \<Rightarrow> int" where
  "getUniformHashCode g = stableHash32 (grain_id_toString g)"

section \<open>Silo addresses\<close>

datatype silo_address = SiloAddress (podName: string) (podUid: string) (endpoint: string)

abbreviation ringKey :: "silo_address \<Rightarrow> string" where
  "ringKey \<equiv> podName"

definition silo_toString :: "silo_address \<Rightarrow> string" where
  "silo_toString s = podName s @ ''#'' @ podUid s @ ''@'' @ endpoint s"

definition silo_compare :: "silo_address \<Rightarrow> silo_address \<Rightarrow> int" where
  "silo_compare a b =
     (if podName a \<noteq> podName b then (if podName a < podName b then -1 else 1)
      else if podUid a \<noteq> podUid b then (if podUid a < podUid b then -1 else 1)
      else if endpoint a \<noteq> endpoint b then (if endpoint a < endpoint b then -1 else 1)
      else 0)"

definition silo_equals :: "silo_address \<Rightarrow> silo_address \<Rightarrow> bool" where
  "silo_equals a b \<longleftrightarrow> podName a = podName b \<and> podUid a = podUid b \<and> endpoint a = endpoint b"

instantiation silo_address :: linorder
begin

definition less_eq_silo_address :: "silo_address \<Rightarrow> silo_address \<Rightarrow> bool" where
  "less_eq_silo_address a b \<longleftrightarrow> silo_compare a b \<le> 0"

definition less_silo_address :: "silo_address \<Rightarrow> silo_address \<Rightarrow> bool" where
  "less_silo_address a b \<longleftrightarrow> silo_compare a b < 0"

instance
proof
  fix a b c :: silo_address
  show "(a < b) = (a \<le> b \<and> \<not> b \<le> a)"
    by (auto simp: less_eq_silo_address_def less_silo_address_def silo_compare_def)
  show "a \<le> a"
    by (simp add: less_eq_silo_address_def silo_compare_def)
  show "a \<le> b \<Longrightarrow> b \<le> c \<Longrightarrow> a \<le> c"
    by (auto simp: less_eq_silo_address_def silo_compare_def split: if_splits)
  show "a \<le> b \<Longrightarrow> b \<le> a \<Longrightarrow> a = b"
    by (cases a; cases b) (auto simp: less_eq_silo_address_def silo_compare_def split: if_splits)
  show "a \<le> b \<or> b \<le> a"
    by (auto simp: less_eq_silo_address_def silo_compare_def)
qed

end

lemma silo_equals_eq [simp]: "silo_equals a b \<longleftrightarrow> a = b"
  by (cases a; cases b) (auto simp: silo_equals_def)

lemma silo_compare_0 [simp]: "silo_compare a b = 0 \<longleftrightarrow> a = b"
  by (cases a; cases b) (auto simp: silo_compare_def)

lemma silo_compare_swap: "silo_compare b a = - silo_compare a b"
  by (auto simp: silo_compare_def)

section \<open>Grain addresses and membership\<close>

datatype grain_address = GrainAddress (ga_grainId: grain_id) (ga_silo: silo_address)
  (ga_activationId: string)

definition grainAddressEquals :: "grain_address \<Rightarrow> grain_address \<Rightarrow> bool" where
  "grainAddressEquals a b \<longleftrightarrow> grain_id_equals (ga_grainId a) (ga_grainId b)
     \<and> silo_equals (ga_silo a) (ga_silo b) \<and> ga_activationId a = ga_activationId b"

datatype silo_status = Joining | Active | Draining | Dead

record silo_member =
  sm_address :: silo_address
  sm_status :: silo_status
  sm_metadata :: "(string, string) js_map"

record membership_snapshot =
  ms_version :: nat
  ms_silos :: "silo_member list"

definition activeSilos :: "membership_snapshot \<Rightarrow> silo_address list" where
  "activeSilos snap = map sm_address (filter (\<lambda>m. sm_status m = Active) (ms_silos snap))"

definition memberSilos :: "membership_snapshot \<Rightarrow> silo_address list" where
  "memberSilos snap = map sm_address (filter (\<lambda>m. sm_status m \<noteq> Dead) (ms_silos snap))"

lemma active_subset_member: "set (activeSilos snap) \<subseteq> set (memberSilos snap)"
  by (auto simp: activeSilos_def memberSilos_def)

section \<open>Text round trips\<close>

definition wf_guid :: "guid \<Rightarrow> bool" where
  "wf_guid g \<longleftrightarrow> is_uuid (guid_value g) \<and> map to_lower (guid_value g) = guid_value g"

fun wf_key :: "grain_key \<Rightarrow> bool" where
  "wf_key (KGuid g) = wf_guid g"
| "wf_key (KGuidCompound g e) = (wf_guid g \<and> trim e \<noteq> [])"
| "wf_key (KIntegerCompound i e) = (trim e \<noteq> [])"
| "wf_key _ = True"

lemma index_of_append [simp]: "c \<notin> set a \<Longrightarrow> index_of c (a @ c # b) = Some (length a)"
proof -
  assume "c \<notin> set a"
  then have "takeWhile (\<lambda>x. x \<noteq> c) (a @ c # b) = a"
    by (subst takeWhile_append2) auto
  then show ?thesis by (simp add: index_of_def)
qed

lemma to_lower_idem [simp]: "to_lower (to_lower c) = to_lower c"
  by (auto simp: to_lower_def of_char_of take_bit_eq_mod)

lemma Guid_parse_wf: "Guid_parse s = Inr g \<Longrightarrow> map to_lower (guid_value g) = guid_value g"
  by (auto simp: Guid_parse_def split: if_splits)

lemma Guid_parse_value: "wf_guid g \<Longrightarrow> Guid_parse (guid_value g) = Inr g"
  by (cases g) (simp add: wf_guid_def Guid_parse_def)

lemma dropWhile_none: "list_all (\<lambda>c. \<not> P c) s \<Longrightarrow> dropWhile P s = s"
  by (cases s) auto

lemma trim_none: "list_all (\<lambda>c. \<not> is_space c) s \<Longrightarrow> trim s = s"
  by (simp add: trim_def dropWhile_none)

lemma is_digit_not_space: "is_digit c \<Longrightarrow> \<not> is_space c"
  by (auto simp: is_digit_def is_space_def)

lemma show_nat_all_digits: "list_all is_digit (show_nat n)"
  by (auto simp: list_all_iff dest: show_nat_digits)

lemma read_dec_show_nat [simp]: "read_dec (show_nat n) = Some n"
  by (simp add: read_dec_def show_nat_all_digits)

lemma is_digit_neq: "is_digit c \<Longrightarrow> c \<notin> set ''-+xXoObB/''"
  by (auto simp: is_digit_def)

lemma BigInt_of_digits:
  assumes "list_all is_digit s" "s \<noteq> []"
  shows "BigInt_of s = Some (int (read_nat s))"
proof -
  obtain c cs where s: "s = c # cs" using assms(2) by (cases s) auto
  have "trim s = s"
    using assms(1) by (intro trim_none) (auto simp: list_all_iff is_digit_not_space)
  moreover have "c \<noteq> CHR ''-''" "c \<noteq> CHR ''+''"
    using assms(1) s is_digit_neq [of c] by auto
  moreover have "x \<notin> set ''xXoObB''" if "cs = x # ds" for x ds
    using assms(1) s that is_digit_neq [of x] by auto
  ultimately show ?thesis
    using assms s by (auto simp: BigInt_of_def read_dec_def split: list.splits)
qed

lemma BigInt_of_show_int [simp]: "BigInt_of (show_int i) = Some i"
proof (cases "i < 0")
  case True
  have "trim (show_int i) = show_int i"
    using True show_nat_all_digits [of "nat (- i)"]
    by (intro trim_none) (auto simp: show_int_def list_all_iff is_digit_not_space, simp add: is_space_def)
  with True show ?thesis by (simp add: BigInt_of_def show_int_def)
next
  case False
  then show ?thesis
    by (simp add: show_int_def BigInt_of_digits show_nat_all_digits)
qed

lemma plus_notin_show_int: "CHR ''+'' \<notin> set (show_int i)"
  using show_nat_digits is_digit_neq by (auto simp: show_int_def split: if_splits)

lemma is_uuid_chars: "is_uuid s \<Longrightarrow> c \<in> set s \<Longrightarrow> is_hex c \<or> c = CHR ''-''"
proof -
  assume u: "is_uuid s" and "c \<in> set s"
  then obtain i where i: "i < length s" "c = s ! i"
    by (auto simp: in_set_conv_nth)
  have "i \<in> set [0..<36]"
    using u i(1) unfolding is_uuid_def by simp
  with u have "if i \<in> {8, 13, 18, 23} then s ! i = CHR ''-'' else is_hex (s ! i)"
    unfolding is_uuid_def list_all_iff by blast
  then show ?thesis
    unfolding i(2) by meson
qed

lemma plus_notin_guid: "wf_guid g \<Longrightarrow> CHR ''+'' \<notin> set (guid_value g)"
  by (auto simp: wf_guid_def is_hex_def is_digit_def dest!: is_uuid_chars)

lemma parseKey_keyToString: "wf_key k \<Longrightarrow> parseKey (keyKindOf k) (keyToString k) = Inr k"
  by (cases k)
     (auto simp: parseKey_def Guid_parse_value newCompoundKey_def plus_notin_show_int plus_notin_guid
       Let_def)

lemma grain_id_parse_toString:
  assumes "wf_key (gkey g)" "CHR ''/'' \<notin> set (gtype g)"
  shows "grain_id_parse (grain_id_toString g) (keyKindOf (gkey g)) = Inr g"
  using assms by (simp add: grain_id_parse_def grain_id_toString_def parseKey_keyToString)

lemma keyToString_inj:
  "wf_key a \<Longrightarrow> wf_key b \<Longrightarrow> keyKindOf a = keyKindOf b \<Longrightarrow> keyToString a = keyToString b \<Longrightarrow> a = b"
  by (metis parseKey_keyToString sum.inject(2))

definition wf_grain_id :: "grain_id \<Rightarrow> bool" where
  "wf_grain_id g \<longleftrightarrow> wf_key (gkey g) \<and> CHR ''/'' \<notin> set (gtype g)"

lemma grain_id_equals_iff:
  "wf_grain_id a \<Longrightarrow> wf_grain_id b \<Longrightarrow> grain_id_equals a b \<longleftrightarrow> a = b"
  unfolding grain_id_equals_def wf_grain_id_def
  by (metis grain_id_parse_toString sum.inject(2))

end
