(* ===== verification/Hash_Ring.thy ===== *)
theory Hash_Ring
  imports Identity
begin

text \<open>
  \<^verbatim>\<open>packages/directory/src/consistent-hash-ring.ts\<close>: the ring over the live silo set. Each silo
  contributes \<open>vnodes\<close> virtual nodes at \<open>stableHash32(podName#v)\<close>; nodes are sorted by hash and,
  on equal hashes, by \<open>SiloAddress.compare\<close>. \<open>owner\<close> finds the first node at or after a hash by
  binary search; \<open>rangesFor\<close> lists the arcs from a silo's nodes to their successors.

  Shown: the binary search equals the linear scan; the ring is a function of the multiset of
  silos; a departing silo moves only its own hashes; the arcs tile the hash space exactly once
  as soon as two nodes differ in hash; the arc holder and the directory owner of a hash are
  neighbouring nodes, not the same node.
\<close>

datatype ring_node = RingNode (rn_hash: int) (rn_silo: silo_address)

record hash_ring =
  hr_nodes :: "ring_node list"
  hr_members :: "silo_address list"

datatype ring_error = EmptyRing

definition DEFAULT_VNODES :: nat where
  "DEFAULT_VNODES = 100"

definition node_compare :: "ring_node \<Rightarrow> ring_node \<Rightarrow> int" where
  "node_compare a b = (let d = rn_hash a - rn_hash b in
     if d \<noteq> 0 then d else silo_compare (rn_silo a) (rn_silo b))"

definition node_le :: "ring_node \<Rightarrow> ring_node \<Rightarrow> bool" where
  "node_le a b \<longleftrightarrow> node_compare a b \<le> 0"

definition silo_vnodes :: "nat \<Rightarrow> silo_address \<Rightarrow> ring_node list" where
  "silo_vnodes vnodes silo =
     map (\<lambda>v. RingNode (stableHash32 (ringKey silo @ ''#'' @ show_nat v)) silo) [0..<vnodes]"

definition newRing :: "silo_address list \<Rightarrow> nat \<Rightarrow> hash_ring" where
  "newRing silos vnodes =
     \<lparr> hr_nodes = js_sort node_le (concat (map (silo_vnodes vnodes) silos)), hr_members = silos \<rparr>"

definition ring_isEmpty :: "hash_ring \<Rightarrow> bool" where
  "ring_isEmpty r \<longleftrightarrow> length (hr_nodes r) = 0"

function firstAtOrAfter_loop :: "ring_node list \<Rightarrow> int \<Rightarrow> nat \<Rightarrow> nat \<Rightarrow> nat" where
  "firstAtOrAfter_loop nodes hash lo hi =
     (if lo < hi then
        (let mid = (lo + hi) div 2 in
         if rn_hash (nodes ! mid) < hash then firstAtOrAfter_loop nodes hash (mid + 1) hi
         else firstAtOrAfter_loop nodes hash lo mid)
      else lo)"
  by pat_completeness auto
termination
  by (relation "measure (\<lambda>(_, _, lo, hi). hi - lo)") auto

declare firstAtOrAfter_loop.simps [simp del]

definition firstAtOrAfter :: "hash_ring \<Rightarrow> int \<Rightarrow> nat" where
  "firstAtOrAfter r hash = firstAtOrAfter_loop (hr_nodes r) hash 0 (length (hr_nodes r))"

definition ring_owner :: "hash_ring \<Rightarrow> int \<Rightarrow> ring_error + silo_address" where
  "ring_owner r hash =
     (if length (hr_nodes r) = 0 then Inl EmptyRing
      else Inr (rn_silo (hr_nodes r ! (firstAtOrAfter r hash mod length (hr_nodes r)))))"

definition ring_ownerOf :: "hash_ring \<Rightarrow> grain_id \<Rightarrow> ring_error + silo_address" where
  "ring_ownerOf r g = ring_owner r (getUniformHashCode g)"

definition node_arc :: "ring_node list \<Rightarrow> nat \<Rightarrow> hash_range" where
  "node_arc nodes i = (rn_hash (nodes ! i), rn_hash (nodes ! ((i + 1) mod length nodes)))"

definition rangesFor :: "hash_ring \<Rightarrow> silo_address \<Rightarrow> hash_range list" where
  "rangesFor r silo = (let nodes = hr_nodes r in
     map (node_arc nodes) (filter (\<lambda>i. silo_equals (rn_silo (nodes ! i)) silo) [0..<length nodes]))"

section \<open>The node order\<close>

lemma node_le_iff: "node_le a b \<longleftrightarrow> rn_hash a < rn_hash b
    \<or> rn_hash a = rn_hash b \<and> rn_silo a \<le> rn_silo b"
  by (auto simp: node_le_def node_compare_def Let_def less_eq_silo_address_def)

interpretation node_order: js_linear_order node_le
  by unfold_locales (auto simp: node_le_iff ring_node.expand)

definition sorted_nodes :: "ring_node list \<Rightarrow> bool" where
  "sorted_nodes nodes \<longleftrightarrow> sorted (map rn_hash nodes)"

lemma newRing_sorted: "sorted_nodes (hr_nodes (newRing silos v))"
proof -
  have "sorted_wrt node_le (hr_nodes (newRing silos v))"
    by (simp add: newRing_def node_order.sort_sorted)
  then have "sorted_wrt (\<lambda>a b. rn_hash a \<le> rn_hash b) (hr_nodes (newRing silos v))"
    by (rule sorted_wrt_mono_rel [rotated]) (auto simp: node_le_iff)
  then show ?thesis by (simp add: sorted_nodes_def sorted_wrt_map)
qed

lemma sorted_nodesD: "sorted_nodes nodes \<Longrightarrow> i \<le> j \<Longrightarrow> j < length nodes
    \<Longrightarrow> rn_hash (nodes ! i) \<le> rn_hash (nodes ! j)"
  by (auto simp: sorted_nodes_def sorted_iff_nth_mono)

lemma newRing_members: "n \<in> set (hr_nodes (newRing silos v)) \<Longrightarrow> rn_silo n \<in> set silos"
  by (auto simp: newRing_def silo_vnodes_def)

lemma length_newRing: "length (hr_nodes (newRing silos v)) = v * length silos"
proof -
  have "sum_list (map (length \<circ> silo_vnodes v) silos) = v * length silos"
    by (induction silos) (auto simp: silo_vnodes_def)
  then show ?thesis by (simp add: newRing_def length_concat)
qed

section \<open>Binary search\<close>

text \<open>\<open>count_below\<close> is the linear scan the binary search replaces.\<close>

definition count_below :: "ring_node list \<Rightarrow> int \<Rightarrow> nat" where
  "count_below nodes hash = length (takeWhile (\<lambda>n. rn_hash n < hash) nodes)"

lemma count_below_le: "count_below nodes hash \<le> length nodes"
  by (simp add: count_below_def length_takeWhile_le)

lemma count_below_before: "i < count_below nodes hash \<Longrightarrow> rn_hash (nodes ! i) < hash"
  unfolding count_below_def using nth_length_takeWhile set_takeWhileD
  by (metis nth_mem takeWhile_nth)

lemma count_below_at:
  "count_below nodes hash < length nodes \<Longrightarrow> \<not> rn_hash (nodes ! count_below nodes hash) < hash"
  unfolding count_below_def using nth_length_takeWhile by fastforce

lemma count_below_unique:
  assumes "sorted_nodes nodes" "k \<le> length nodes"
    "\<And>i. i < k \<Longrightarrow> rn_hash (nodes ! i) < hash"
    "k < length nodes \<Longrightarrow> \<not> rn_hash (nodes ! k) < hash"
  shows "k = count_below nodes hash"
proof (rule antisym)
  show "k \<le> count_below nodes hash"
  proof (rule ccontr)
    assume "\<not> k \<le> count_below nodes hash"
    then have "count_below nodes hash < k" by simp
    then have "rn_hash (nodes ! count_below nodes hash) < hash" by (rule assms(3))
    then show False
      using count_below_at [of nodes hash] \<open>count_below nodes hash < k\<close> assms(2) by simp
  qed
next
  show "count_below nodes hash \<le> k"
  proof (rule ccontr)
    assume "\<not> count_below nodes hash \<le> k"
    then show False
      using assms(4) count_below_before [of k nodes hash] count_below_le [of nodes hash] by auto
  qed
qed

lemma firstAtOrAfter_loop_eq:
  assumes "sorted_nodes nodes" "lo \<le> count_below nodes hash" "count_below nodes hash \<le> hi"
    "hi \<le> length nodes"
  shows "firstAtOrAfter_loop nodes hash lo hi = count_below nodes hash"
  using assms
proof (induction nodes hash lo hi rule: firstAtOrAfter_loop.induct)
  case (1 nodes hash lo hi)
  show ?case
  proof (cases "lo < hi")
    case False
    with "1.prems" show ?thesis by (simp add: firstAtOrAfter_loop.simps)
  next
    case True
    define mid where "mid = (lo + hi) div 2"
    have mid: "lo \<le> mid" "mid < hi" using True by (auto simp: mid_def)
    show ?thesis
    proof (cases "rn_hash (nodes ! mid) < hash")
      case less: True
      have "mid < count_below nodes hash"
      proof (rule ccontr)
        assume "\<not> mid < count_below nodes hash"
        then have "rn_hash (nodes ! count_below nodes hash) \<le> rn_hash (nodes ! mid)"
          using "1.prems" mid by (intro sorted_nodesD) auto
        with less count_below_at [of nodes hash] "1.prems" mid \<open>\<not> mid < _\<close> show False by auto
      qed
      with "1.IH"(1) [OF True mid_def less] "1.prems" True less show ?thesis
        by (subst firstAtOrAfter_loop.simps) (simp add: mid_def [symmetric] Let_def)
    next
      case ge: False
      have "count_below nodes hash \<le> mid"
        using ge count_below_before [of mid nodes hash] by (meson not_le)
      with "1.IH"(2) [OF True mid_def ge] "1.prems" True ge mid show ?thesis
        by (subst firstAtOrAfter_loop.simps) (simp add: mid_def [symmetric] Let_def)
    qed
  qed
qed

lemma firstAtOrAfter_eq: "sorted_nodes (hr_nodes r) \<Longrightarrow> firstAtOrAfter r hash = count_below (hr_nodes r) hash"
  by (simp add: firstAtOrAfter_def firstAtOrAfter_loop_eq count_below_le)

section \<open>The owner of a hash\<close>

text \<open>The reference definition: the first node clockwise, wrapping to the first node.\<close>

definition succ_node :: "ring_node list \<Rightarrow> int \<Rightarrow> ring_node" where
  "succ_node nodes hash =
     (case filter (\<lambda>n. hash \<le> rn_hash n) nodes of n # _ \<Rightarrow> n | [] \<Rightarrow> hd nodes)"

lemma filter_ge_dropWhile:
  "sorted_nodes nodes \<Longrightarrow>
     filter (\<lambda>n. hash \<le> rn_hash n) nodes = dropWhile (\<lambda>n. rn_hash n < hash) nodes"
proof (induction nodes)
  case Nil
  then show ?case by simp
next
  case (Cons n ns)
  show ?case
  proof (cases "rn_hash n < hash")
    case True
    with Cons show ?thesis by (simp add: sorted_nodes_def)
  next
    case False
    with Cons.prems have "filter (\<lambda>n. hash \<le> rn_hash n) ns = ns"
      by (auto simp: sorted_nodes_def filter_id_conv)
    with False show ?thesis by simp
  qed
qed

lemma succ_node_nth:
  assumes "sorted_nodes nodes" "nodes \<noteq> []"
  shows "succ_node nodes hash = nodes ! (count_below nodes hash mod length nodes)"
proof (cases "count_below nodes hash < length nodes")
  case True
  have "dropWhile (\<lambda>n. rn_hash n < hash) nodes = drop (count_below nodes hash) nodes"
    by (simp add: dropWhile_eq_drop count_below_def)
  also have "\<dots> = nodes ! count_below nodes hash # drop (Suc (count_below nodes hash)) nodes"
    using True by (simp add: Cons_nth_drop_Suc)
  finally show ?thesis
    using assms True by (simp add: succ_node_def filter_ge_dropWhile)
next
  case False
  then have eq: "count_below nodes hash = length nodes"
    using count_below_le [of nodes hash] by simp
  have "dropWhile (\<lambda>n. rn_hash n < hash) nodes = drop (count_below nodes hash) nodes"
    by (simp add: dropWhile_eq_drop count_below_def)
  then have "filter (\<lambda>n. hash \<le> rn_hash n) nodes = []"
    using assms(1) eq by (simp only: filter_ge_dropWhile) simp
  with assms eq show ?thesis
    by (simp only: succ_node_def list.case) (simp add: hd_conv_nth)
qed

lemma ring_owner_succ:
  assumes "sorted_nodes (hr_nodes r)" "hr_nodes r \<noteq> []"
  shows "ring_owner r hash = Inr (rn_silo (succ_node (hr_nodes r) hash))"
  using assms by (simp add: ring_owner_def firstAtOrAfter_eq succ_node_nth)

lemma succ_node_mem: "nodes \<noteq> [] \<Longrightarrow> succ_node nodes hash \<in> set nodes"
proof -
  assume ne: "nodes \<noteq> []"
  show ?thesis
  proof (cases "filter (\<lambda>n. hash \<le> rn_hash n) nodes")
    case Nil
    with ne show ?thesis by (simp add: succ_node_def)
  next
    case (Cons a list)
    then have "a \<in> set (filter (\<lambda>n. hash \<le> rn_hash n) nodes)" by simp
    then have "a \<in> set nodes" by (simp only: filter_set [symmetric]) simp
    with Cons show ?thesis by (simp add: succ_node_def)
  qed
qed

lemma succ_node_filter:
  assumes "nodes \<noteq> []" "P (succ_node nodes hash)"
  shows "succ_node (filter P nodes) hash = succ_node nodes hash"
proof (cases "filter (\<lambda>n. hash \<le> rn_hash n) nodes")
  case Nil
  then have "filter (\<lambda>n. hash \<le> rn_hash n) (filter P nodes) = []"
    by (simp add: filter_empty_conv)
  moreover have "hd (filter P nodes) = hd nodes"
    using assms Nil by (cases nodes) (auto simp: succ_node_def)
  ultimately show ?thesis
    by (simp only: succ_node_def Nil list.case)
next
  case (Cons n ns)
  then have "filter P (filter (\<lambda>n. hash \<le> rn_hash n) nodes) = n # filter P ns"
    using assms by (simp add: succ_node_def)
  then have "filter (\<lambda>n. hash \<le> rn_hash n) (filter P nodes) = n # filter P ns"
    by (simp add: conj_commute)
  with Cons show ?thesis by (simp only: succ_node_def list.case)
qed

lemma newRing_filter:
  "hr_nodes (newRing (filter P silos) v) = filter (\<lambda>n. P (rn_silo n)) (hr_nodes (newRing silos v))"
proof -
  have "filter (\<lambda>n. P (rn_silo n)) (concat (map (silo_vnodes v) silos))
      = concat (map (silo_vnodes v) (filter P silos))"
    by (induction silos) (auto simp: silo_vnodes_def filter_map filter_empty_conv filter_id_conv)
  then have "mset (concat (map (silo_vnodes v) (filter P silos)))
      = mset (filter (\<lambda>n. P (rn_silo n)) (concat (map (silo_vnodes v) silos)))"
    by simp
  then have "mset (js_sort node_le (concat (map (silo_vnodes v) (filter P silos))))
      = mset (filter (\<lambda>n. P (rn_silo n)) (js_sort node_le (concat (map (silo_vnodes v) silos))))"
    by (simp only: mset_js_sort mset_filter)
  then show ?thesis
    by (simp add: newRing_def)
       (rule node_order.sorted_unique, auto intro: node_order.sort_sorted sorted_wrt_filter)
qed

section \<open>Arcs\<close>

text \<open>The node whose arc holds a hash: the last node at or below it, wrapping to the last node.\<close>

definition two_hashes :: "ring_node list \<Rightarrow> bool" where
  "two_hashes nodes \<longleftrightarrow> nodes \<noteq> [] \<and> rn_hash (hd nodes) < rn_hash (last nodes)"

definition arc_index :: "ring_node list \<Rightarrow> int \<Rightarrow> nat" where
  "arc_index nodes hash =
     (let k = count_below nodes (hash + 1) in if k = 0 then length nodes - 1 else k - 1)"

lemma arc_holds_iff:
  assumes sorted: "sorted_nodes nodes" and two: "two_hashes nodes"
    and i: "i < length nodes"
  shows "(case node_arc nodes i of (b, e) \<Rightarrow> isHashInRange hash b e) \<longleftrightarrow> i = arc_index nodes hash"
proof -
  let ?n = "length nodes" and ?h = "\<lambda>j. rn_hash (nodes ! j)"
  define k where "k = count_below nodes (hash + 1)"
  have ne: "nodes \<noteq> []" using i by auto
  have two': "?h 0 < ?h (?n - 1)"
    using two by (auto simp: two_hashes_def hd_conv_nth last_conv_nth)
  have kn: "k \<le> ?n" by (simp add: k_def count_below_le)
  have below: "?h j \<le> hash" if "j < k" for j
    using that count_below_before [of j nodes "hash + 1"] by (simp add: k_def)
  have above: "hash < ?h j" if "k \<le> j" "j < ?n" for j
  proof -
    have "hash < ?h k"
      using that count_below_at [of nodes "hash + 1"] by (auto simp: k_def)
    also have "?h k \<le> ?h j" using that sorted by (intro sorted_nodesD) auto
    finally show ?thesis .
  qed
  have iff: "?h j \<le> hash \<longleftrightarrow> j < k" if "j < ?n" for j
    using below above that by (meson not_le)
  show ?thesis
  proof (cases "i + 1 < ?n")
    case True
    have "?h i \<le> ?h (i + 1)" using True sorted by (intro sorted_nodesD) auto
    with True have "(case node_arc nodes i of (b, e) \<Rightarrow> isHashInRange hash b e)
        \<longleftrightarrow> ?h i \<le> hash \<and> \<not> ?h (i + 1) \<le> hash"
      by (auto simp: node_arc_def isHashInRange_def)
    also have "\<dots> \<longleftrightarrow> i < k \<and> \<not> i + 1 < k"
      using iff [OF i] iff [OF True] by simp
    also have "\<dots> \<longleftrightarrow> i = arc_index nodes hash"
      using True kn by (auto simp: arc_index_def Let_def k_def [symmetric])
    finally show ?thesis .
  next
    case False
    then have last: "i = ?n - 1" using i by simp
    then have "i + 1 = ?n" using i by simp
    then have mod0: "(i + 1) mod ?n = 0" by simp
    have "(case node_arc nodes i of (b, e) \<Rightarrow> isHashInRange hash b e)
        \<longleftrightarrow> ?h i \<le> hash \<or> \<not> ?h 0 \<le> hash"
      using two' last mod0 by (auto simp: node_arc_def isHashInRange_def)
    also have "\<dots> \<longleftrightarrow> i < k \<or> \<not> 0 < k"
      using iff [OF i] iff [of 0] ne by simp
    also have "\<dots> \<longleftrightarrow> i = arc_index nodes hash"
      using last kn i by (auto simp: arc_index_def Let_def k_def [symmetric])
    finally show ?thesis .
  qed
qed

lemma arc_index_lt: "nodes \<noteq> [] \<Longrightarrow> arc_index nodes hash < length nodes"
  using count_below_le [of nodes "hash + 1"] by (auto simp: arc_index_def Let_def)

lemma rangesFor_holds_iff:
  assumes "sorted_nodes (hr_nodes r)" "two_hashes (hr_nodes r)"
  shows "isHashInRanges hash (rangesFor r silo)
    \<longleftrightarrow> rn_silo (hr_nodes r ! arc_index (hr_nodes r) hash) = silo"
proof -
  have ne: "hr_nodes r \<noteq> []" using assms(2) by (simp add: two_hashes_def)
  have "isHashInRanges hash (rangesFor r silo) \<longleftrightarrow>
      (\<exists>i < length (hr_nodes r). rn_silo (hr_nodes r ! i) = silo
         \<and> (case node_arc (hr_nodes r) i of (b, e) \<Rightarrow> isHashInRange hash b e))"
    by (auto simp: isHashInRanges_def rangesFor_def list_ex_iff Let_def)
  also have "\<dots> \<longleftrightarrow> (\<exists>i < length (hr_nodes r). rn_silo (hr_nodes r ! i) = silo
         \<and> i = arc_index (hr_nodes r) hash)"
    by (simp only: arc_holds_iff [OF assms] cong: conj_cong)
  also have "\<dots> \<longleftrightarrow> rn_silo (hr_nodes r ! arc_index (hr_nodes r) hash) = silo"
    using arc_index_lt [OF ne] by simp
  finally show ?thesis .
qed

text \<open>The node that holds a hash's arc and the node that owns the hash are neighbours.\<close>

lemma owner_follows_arc:
  assumes "sorted_nodes nodes" "nodes \<noteq> []" "hash \<notin> rn_hash ` set nodes"
  shows "succ_node nodes hash = nodes ! ((arc_index nodes hash + 1) mod length nodes)"
proof -
  have "count_below nodes hash = count_below nodes (hash + 1)"
  proof (rule count_below_unique [OF assms(1) count_below_le])
    fix i assume i: "i < count_below nodes hash"
    show "rn_hash (nodes ! i) < hash + 1"
      using count_below_before [OF i] by simp
  next
    assume lt: "count_below nodes hash < length nodes"
    then have "nodes ! count_below nodes hash \<in> set nodes" by simp
    with assms(3) have "rn_hash (nodes ! count_below nodes hash) \<noteq> hash" by (metis image_eqI)
    with count_below_at [OF lt] show "\<not> rn_hash (nodes ! count_below nodes hash) < hash + 1"
      by simp
  qed
  then show ?thesis
    using assms by (auto simp: succ_node_nth arc_index_def Let_def)
qed

lemma mset_concat_map_cong:
  assumes "mset xs = mset ys"
  shows "mset (concat (map f xs)) = mset (concat (map f ys))"
proof -
  have eq: "mset (concat (map f zs)) = sum_mset (image_mset (\<lambda>z. mset (f z)) (mset zs))" for zs
    by (induction zs) simp_all
  show ?thesis by (simp only: eq assms)
qed

section \<open>Properties of the ring\<close>

text \<open>C5: On a ring with at least one silo and one virtual node per silo, \<open>owner\<close> never throws: its
  binary search returns the silo of the first node clockwise of the hash (the linear reference
  scan), and that silo is one of the members the ring was built from.\<close>

theorem ring_owner_is_successor:
  assumes "silos \<noteq> []" "0 < vnodes"
  shows "ring_owner (newRing silos vnodes) hash
      = Inr (rn_silo (succ_node (hr_nodes (newRing silos vnodes)) hash))
    \<and> rn_silo (succ_node (hr_nodes (newRing silos vnodes)) hash) \<in> set silos"
proof -
  have "length (hr_nodes (newRing silos vnodes)) \<noteq> 0"
    using assms by (simp add: length_newRing)
  then have ne: "hr_nodes (newRing silos vnodes) \<noteq> []" by auto
  show ?thesis
    using ring_owner_succ [OF newRing_sorted ne] newRing_members [OF succ_node_mem [OF ne]] by blast
qed

theorem ring_owner_is_successor_witness:
  "ring_owner (newRing [SiloAddress ''a'' ''1'' ''e'', SiloAddress ''b'' ''2'' ''f''] 1) 3000000000
     = Inr (SiloAddress ''b'' ''2'' ''f'')"
proof -
  have "rn_silo (succ_node (hr_nodes (newRing [SiloAddress ''a'' ''1'' ''e'', SiloAddress ''b'' ''2'' ''f''] 1))
      3000000000) = SiloAddress ''b'' ''2'' ''f''"
    by code_simp
  then show ?thesis
    using ring_owner_is_successor [of "[SiloAddress ''a'' ''1'' ''e'', SiloAddress ''b'' ''2'' ''f'']" 1
        3000000000] by simp
qed

text \<open>The ring is a function of the membership view as a multiset: two silos that iterate the
  same view in different orders build the same node list, and so agree on every owner and on
  every silo's arcs, without coordination.\<close>

theorem ring_view_agreement:
  assumes "mset silos = mset silos'"
  shows "hr_nodes (newRing silos vnodes) = hr_nodes (newRing silos' vnodes)
    \<and> ring_owner (newRing silos vnodes) = ring_owner (newRing silos' vnodes)
    \<and> rangesFor (newRing silos vnodes) = rangesFor (newRing silos' vnodes)"
proof -
  have "mset (concat (map (silo_vnodes vnodes) silos)) = mset (concat (map (silo_vnodes vnodes) silos'))"
    by (rule mset_concat_map_cong [OF assms])
  from node_order.sort_perm [OF this]
  have "hr_nodes (newRing silos vnodes) = hr_nodes (newRing silos' vnodes)"
    by (simp only: newRing_def hash_ring.select_convs)
  then show ?thesis
    unfolding fun_eq_iff ring_owner_def firstAtOrAfter_def rangesFor_def by metis
qed

theorem ring_view_agreement_witness:
  "ring_owner (newRing [SiloAddress ''a'' ''1'' ''e'', SiloAddress ''a'' ''2'' ''f''] 3)
     = ring_owner (newRing [SiloAddress ''a'' ''2'' ''f'', SiloAddress ''a'' ''1'' ''e''] 3)"
  using ring_view_agreement [of "[SiloAddress ''a'' ''1'' ''e'', SiloAddress ''a'' ''2'' ''f'']"
      "[SiloAddress ''a'' ''2'' ''f'', SiloAddress ''a'' ''1'' ''e'']" 3]
  by (simp add: add_mset_commute)

text \<open>C32: A departure reshuffles only what the departed silo owned: a hash owned by another silo
  keeps its owner when the ring is rebuilt without the departed one.\<close>

theorem ring_departure_minimal:
  assumes "ring_owner (newRing silos vnodes) hash = Inr own" "own \<noteq> gone"
  shows "ring_owner (newRing (filter (\<lambda>s. s \<noteq> gone) silos) vnodes) hash = Inr own"
proof -
  let ?N = "hr_nodes (newRing silos vnodes)"
  let ?P = "\<lambda>n. rn_silo n \<noteq> gone"
  have ne: "?N \<noteq> []" using assms(1) by (auto simp: ring_owner_def split: if_splits)
  have own: "rn_silo (succ_node ?N hash) = own"
    using assms(1) ring_owner_succ [OF newRing_sorted ne] by simp
  then have P: "?P (succ_node ?N hash)" using assms(2) by simp
  have nodes: "hr_nodes (newRing (filter (\<lambda>s. s \<noteq> gone) silos) vnodes) = filter ?P ?N"
    by (rule newRing_filter)
  have "succ_node ?N hash \<in> set (filter ?P ?N)" using succ_node_mem [OF ne] P by simp
  then have "hr_nodes (newRing (filter (\<lambda>s. s \<noteq> gone) silos) vnodes) \<noteq> []"
    unfolding nodes by (metis empty_iff empty_set)
  from ring_owner_succ [OF newRing_sorted this, of hash] show ?thesis
    unfolding nodes succ_node_filter [of ?N ?P, OF ne P] own .
qed

theorem ring_departure_minimal_witness:
  "ring_owner (newRing (filter (\<lambda>s. s \<noteq> SiloAddress ''a'' ''1'' ''e'')
      [SiloAddress ''a'' ''1'' ''e'', SiloAddress ''b'' ''2'' ''f'']) 1) 3000000000
    = Inr (SiloAddress ''b'' ''2'' ''f'')"
proof (rule ring_departure_minimal)
  show "ring_owner (newRing [SiloAddress ''a'' ''1'' ''e'', SiloAddress ''b'' ''2'' ''f''] 1) 3000000000
    = Inr (SiloAddress ''b'' ''2'' ''f'')"
    by code_simp
  show "SiloAddress ''b'' ''2'' ''f'' \<noteq> SiloAddress ''a'' ''1'' ''e''" by simp
qed

text \<open>As soon as two virtual nodes sit at different hashes, the arcs returned by \<open>rangesFor\<close> tile
  the hash space exactly once: every hash lies in the arcs of exactly one silo, and that silo is
  a member. This is what lets each silo fire only its own reminders.\<close>

theorem ring_arcs_tile:
  assumes "two_hashes (hr_nodes (newRing silos vnodes))"
  shows "\<exists>!silo. silo \<in> set silos \<and> isHashInRanges hash (rangesFor (newRing silos vnodes) silo)"
proof -
  let ?N = "hr_nodes (newRing silos vnodes)"
  have "?N \<noteq> []" using assms by (simp add: two_hashes_def)
  then have "rn_silo (?N ! arc_index ?N hash) \<in> set silos"
    by (intro newRing_members [where v = vnodes]) (simp add: arc_index_lt)
  then show ?thesis
    using rangesFor_holds_iff [OF newRing_sorted assms] by auto
qed

theorem ring_arcs_tile_witness:
  "\<exists>!silo. silo \<in> set [SiloAddress ''a'' ''1'' ''e'', SiloAddress ''b'' ''2'' ''f'']
     \<and> isHashInRanges 42 (rangesFor (newRing [SiloAddress ''a'' ''1'' ''e'', SiloAddress ''b'' ''2'' ''f''] 1) silo)"
proof (rule ring_arcs_tile)
  show "two_hashes (hr_nodes (newRing [SiloAddress ''a'' ''1'' ''e'', SiloAddress ''b'' ''2'' ''f''] 1))"
    by code_simp
qed

text \<open>\<open>rangesFor\<close> and \<open>owner\<close> assign a hash that is not itself a node position to different nodes:
  the arc is held by the last node at or before the hash, while \<open>owner\<close> is the node after it. So
  a silo's \<open>rangesFor\<close> are not the hashes for which it is the \<open>owner\<close>.\<close>

theorem ring_range_holder_precedes_owner:
  assumes "two_hashes (hr_nodes (newRing silos vnodes))"
    and "hash \<notin> rn_hash ` set (hr_nodes (newRing silos vnodes))"
  shows "\<exists>i < length (hr_nodes (newRing silos vnodes)).
      isHashInRanges hash (rangesFor (newRing silos vnodes) (rn_silo (hr_nodes (newRing silos vnodes) ! i)))
    \<and> ring_owner (newRing silos vnodes) hash
        = Inr (rn_silo (hr_nodes (newRing silos vnodes) ! ((i + 1) mod length (hr_nodes (newRing silos vnodes)))))"
proof -
  let ?N = "hr_nodes (newRing silos vnodes)"
  have ne: "?N \<noteq> []" using assms(1) by (simp add: two_hashes_def)
  show ?thesis
  proof (intro exI [of _ "arc_index ?N hash"] conjI)
    show "arc_index ?N hash < length ?N" by (rule arc_index_lt [OF ne])
    show "isHashInRanges hash (rangesFor (newRing silos vnodes) (rn_silo (?N ! arc_index ?N hash)))"
      by (simp add: rangesFor_holds_iff [OF newRing_sorted assms(1)])
    show "ring_owner (newRing silos vnodes) hash
        = Inr (rn_silo (?N ! ((arc_index ?N hash + 1) mod length ?N)))"
      by (simp only: ring_owner_succ [OF newRing_sorted ne] owner_follows_arc [OF newRing_sorted ne assms(2)])
  qed
qed

theorem ring_range_holder_precedes_owner_witness:
  "\<exists>i < length (hr_nodes (newRing [SiloAddress ''a'' ''1'' ''e'', SiloAddress ''b'' ''2'' ''f''] 1)).
      isHashInRanges 42 (rangesFor (newRing [SiloAddress ''a'' ''1'' ''e'', SiloAddress ''b'' ''2'' ''f''] 1)
        (rn_silo (hr_nodes (newRing [SiloAddress ''a'' ''1'' ''e'', SiloAddress ''b'' ''2'' ''f''] 1) ! i)))
    \<and> ring_owner (newRing [SiloAddress ''a'' ''1'' ''e'', SiloAddress ''b'' ''2'' ''f''] 1) 42
        = Inr (rn_silo (hr_nodes (newRing [SiloAddress ''a'' ''1'' ''e'', SiloAddress ''b'' ''2'' ''f''] 1)
            ! ((i + 1) mod length (hr_nodes (newRing [SiloAddress ''a'' ''1'' ''e'', SiloAddress ''b'' ''2'' ''f''] 1)))))"
proof (rule ring_range_holder_precedes_owner)
  show "two_hashes (hr_nodes (newRing [SiloAddress ''a'' ''1'' ''e'', SiloAddress ''b'' ''2'' ''f''] 1))"
    by code_simp
  show "42 \<notin> rn_hash ` set (hr_nodes (newRing [SiloAddress ''a'' ''1'' ''e'', SiloAddress ''b'' ''2'' ''f''] 1))"
    by code_simp
qed

text \<open>On a ring of a single virtual node the only arc runs from the node to itself, which
  \<open>isHashInRange\<close> reads as empty: no hash at all is in the silo's ranges, so a single-node ring
  assigns no reminder to anybody.\<close>

theorem ring_single_node_owns_nothing:
  "\<not> isHashInRanges hash (rangesFor (newRing [silo] 1) silo')"
  by (auto simp: rangesFor_def newRing_def silo_vnodes_def node_arc_def isHashInRanges_def
      isHashInRange_def Let_def list_ex_iff)

end
