(* ===== verification/Grain_Directory.thy ===== *)
theory Grain_Directory
  imports Hash_Ring
begin

text \<open>
  \<^verbatim>\<open>packages/directory/src\<close>: the partition a silo holds (\<^verbatim>\<open>local-directory-partition.ts\<close>), the
  location cache (\<^verbatim>\<open>location-cache.ts\<close>) and the routing of directory operations to the owning
  silo (\<^verbatim>\<open>distributed-grain-directory.ts\<close>).

  The partition is the map from a grain id's string form to its address; the liveness callback
  \<open>isSiloLive\<close> is an argument, since its answers follow the membership view. The contract of the
  compare-and-set registration is the locale \<open>cas_directory\<close>, interpreted on the partition.
  \<open>route\<close> runs against an environment (the ring callback, the recovery barrier, the peer, the
  refresh) that may change at every await; it is an explicit state argument.
\<close>

section \<open>The local partition\<close>

record directory_partition =
  dp_entries :: "(string, grain_address) js_map"

definition newPartition :: directory_partition where
  "newPartition = \<lparr> dp_entries = [] \<rparr>"

type_synonym liveness = "silo_address \<Rightarrow> bool"

abbreviation address_key :: "grain_address \<Rightarrow> string" where
  "address_key a \<equiv> grain_id_toString (ga_grainId a)"

definition dp_size :: "directory_partition \<Rightarrow> nat" where
  "dp_size p = length (dp_entries p)"

definition dp_lookup :: "liveness \<Rightarrow> directory_partition \<Rightarrow> grain_id \<Rightarrow> grain_address option" where
  "dp_lookup isSiloLive p grainId =
     (case js_get (dp_entries p) (grain_id_toString grainId) of
        None \<Rightarrow> None
      | Some existing \<Rightarrow> if isSiloLive (ga_silo existing) then Some existing else None)"

definition dp_register ::
  "liveness \<Rightarrow> directory_partition \<Rightarrow> grain_address \<Rightarrow> grain_address option
     \<Rightarrow> directory_partition \<times> grain_address" where
  "dp_register isSiloLive p addr previous =
     (let key = address_key addr;
          stored = p\<lparr> dp_entries := js_set key addr (dp_entries p) \<rparr>
      in case js_get (dp_entries p) key of
           None \<Rightarrow> (stored, addr)
         | Some existing \<Rightarrow>
             if \<not> isSiloLive (ga_silo existing) then (stored, addr)
             else (case previous of
                 Some prev \<Rightarrow> if grainAddressEquals existing prev then (stored, addr) else (p, existing)
               | None \<Rightarrow> (p, existing)))"

definition dp_unregister :: "directory_partition \<Rightarrow> grain_address \<Rightarrow> directory_partition" where
  "dp_unregister p addr =
     (case js_get (dp_entries p) (address_key addr) of
        None \<Rightarrow> p
      | Some existing \<Rightarrow>
          if grainAddressEquals existing addr
          then p\<lparr> dp_entries := js_delete (address_key addr) (dp_entries p) \<rparr> else p)"

text \<open>Deleting the current key while iterating a JavaScript \<open>Map\<close> visits every other entry once.\<close>

definition dp_unregisterSilo :: "directory_partition \<Rightarrow> silo_address \<Rightarrow> directory_partition" where
  "dp_unregisterSilo p silo =
     p\<lparr> dp_entries := filter (\<lambda>(key, entry). \<not> silo_equals (ga_silo entry) silo) (dp_entries p) \<rparr>"

datatype drain_decision = Keep | Drop | Handoff

definition dp_drain ::
  "directory_partition \<Rightarrow> (grain_address \<Rightarrow> drain_decision)
     \<Rightarrow> directory_partition \<times> grain_address list" where
  "dp_drain p classify =
     (p\<lparr> dp_entries := filter (\<lambda>(key, entry). classify entry = Keep) (dp_entries p) \<rparr>,
      filter (\<lambda>entry. classify entry = Handoff) (js_values (dp_entries p)))"

fun dp_acceptHandoff ::
  "liveness \<Rightarrow> directory_partition \<Rightarrow> grain_address list \<Rightarrow> (grain_address \<Rightarrow> bool)
     \<Rightarrow> directory_partition" where
  "dp_acceptHandoff isSiloLive p [] isOwnedHere = p"
| "dp_acceptHandoff isSiloLive p (entry # entries) isOwnedHere =
     (if \<not> isOwnedHere entry then dp_acceptHandoff isSiloLive p entries isOwnedHere
      else dp_acceptHandoff isSiloLive (fst (dp_register isSiloLive p entry None)) entries isOwnedHere)"

definition dp_entriesIn :: "directory_partition \<Rightarrow> (grain_address \<Rightarrow> bool) \<Rightarrow> grain_address list" where
  "dp_entriesIn p predicate = filter predicate (js_values (dp_entries p))"

section \<open>The compare-and-set contract\<close>

text \<open>
  What the activation layer relies on: the winner of a registration is the entry stored for the
  key; an absent or dangling entry is replaced; a live entry is replaced only by a caller that
  names it exactly; other keys are untouched.
\<close>

fun register_race ::
  "('d \<Rightarrow> grain_address \<Rightarrow> grain_address option \<Rightarrow> 'd \<times> grain_address)
     \<Rightarrow> 'd \<Rightarrow> grain_address list \<Rightarrow> 'd \<times> grain_address list" where
  "register_race register d [] = (d, [])"
| "register_race register d (a # as) =
     (let (d1, w) = register d a None; (d2, ws) = register_race register d1 as in (d2, w # ws))"

locale cas_directory =
  fixes entry :: "'d \<Rightarrow> string \<Rightarrow> grain_address option"
    and live :: liveness
    and register :: "'d \<Rightarrow> grain_address \<Rightarrow> grain_address option \<Rightarrow> 'd \<times> grain_address"
  assumes stored: "entry (fst (register d a prev)) (address_key a) = Some (snd (register d a prev))"
    and frame: "k \<noteq> address_key a \<Longrightarrow> entry (fst (register d a prev)) k = entry d k"
    and wins_absent: "entry d (address_key a) = None \<Longrightarrow> snd (register d a prev) = a"
    and wins_dangling:
      "entry d (address_key a) = Some e \<Longrightarrow> \<not> live (ga_silo e) \<Longrightarrow> snd (register d a prev) = a"
    and loses: "entry d (address_key a) = Some e \<Longrightarrow> live (ga_silo e) \<Longrightarrow> snd (register d a None) = e"
begin

lemma race_settled:
  assumes "entry d k = Some e" "live (ga_silo e)" "\<forall>a \<in> set as. address_key a = k"
  shows "set (snd (register_race register d as)) \<subseteq> {e} \<and> entry (fst (register_race register d as)) k = Some e"
  using assms
proof (induction as arbitrary: d)
  case Nil
  then show ?case by simp
next
  case (Cons a as)
  have key: "address_key a = k" using Cons.prems(3) by simp
  have w: "snd (register d a None) = e"
    using loses [of d a e] Cons.prems(1,2) key by simp
  moreover have "entry (fst (register d a None)) k = Some e"
    using stored [of d a None] w key by simp
  ultimately show ?case
    using Cons.IH [of "fst (register d a None)"] Cons.prems by (auto simp: case_prod_beta Let_def)
qed

text \<open>Concurrent first activations of one grain converge on the first registrant.\<close>

lemma race_converges:
  assumes "entry d k = None" "\<forall>a \<in> set (a # as). address_key a = k" "live (ga_silo a)"
  shows "set (snd (register_race register d (a # as))) = {a} \<and> entry (fst (register_race register d (a # as))) k = Some a"
proof -
  have w: "snd (register d a None) = a"
    using assms wins_absent [of d a None] by simp
  then have "entry (fst (register d a None)) k = Some a"
    using stored [of d a None] assms(2) by simp
  from race_settled [OF this assms(3), of as] w assms(2) show ?thesis
    by (auto simp: case_prod_beta Let_def)
qed

end

lemma dp_register_cases:
  "dp_register live p a prev =
     (if (case js_get (dp_entries p) (address_key a) of
            None \<Rightarrow> True
          | Some e \<Rightarrow> \<not> live (ga_silo e) \<or> (\<exists>q. prev = Some q \<and> grainAddressEquals e q))
      then (p\<lparr> dp_entries := js_set (address_key a) a (dp_entries p) \<rparr>, a)
      else (p, the (js_get (dp_entries p) (address_key a))))"
  by (auto simp: dp_register_def Let_def split: option.splits)

definition dp_entry :: "directory_partition \<Rightarrow> string \<Rightarrow> grain_address option" where
  "dp_entry p k = js_get (dp_entries p) k"

interpretation dp_cas: cas_directory dp_entry live "dp_register live" for live
  by unfold_locales
     (auto simp: dp_register_cases dp_entry_def js_map_simps split: option.splits)

section \<open>The partition invariant\<close>

definition dp_inv :: "directory_partition \<Rightarrow> bool" where
  "dp_inv p \<longleftrightarrow> js_wf (dp_entries p) \<and> (\<forall>(k, a) \<in> set (dp_entries p). k = address_key a)"

lemma dp_entry_newPartition [simp]: "dp_entry newPartition k = None"
  by (simp add: dp_entry_def newPartition_def)

lemma dp_inv_new: "dp_inv newPartition"
  by (simp add: dp_inv_def newPartition_def)

lemma dp_inv_register: "dp_inv p \<Longrightarrow> dp_inv (fst (dp_register live p a prev))"
  by (auto simp: dp_inv_def dp_register_cases js_set_mem)

lemma dp_inv_unregister: "dp_inv p \<Longrightarrow> dp_inv (dp_unregister p a)"
  by (auto simp: dp_inv_def dp_unregister_def js_delete_mem split: option.splits)

lemma dp_inv_unregisterSilo: "dp_inv p \<Longrightarrow> dp_inv (dp_unregisterSilo p s)"
  by (auto simp: dp_inv_def dp_unregisterSilo_def)

lemma dp_inv_drain: "dp_inv p \<Longrightarrow> dp_inv (fst (dp_drain p c))"
  by (auto simp: dp_inv_def dp_drain_def)

lemma dp_inv_acceptHandoff: "dp_inv p \<Longrightarrow> dp_inv (dp_acceptHandoff live p es owned)"
  by (induction es arbitrary: p) (auto intro: dp_inv_register)

lemma dp_entry_mem: "dp_inv p \<Longrightarrow> dp_entry p k = Some a \<longleftrightarrow> (k, a) \<in> set (dp_entries p)"
  by (simp add: dp_inv_def dp_entry_def js_get_mem)

lemma dp_entry_key: "dp_inv p \<Longrightarrow> dp_entry p k = Some a \<Longrightarrow> address_key a = k"
  by (auto simp: dp_entry_mem dp_inv_def)

lemma dp_values_mem:
  assumes "dp_inv p"
  shows "a \<in> set (js_values (dp_entries p)) \<longleftrightarrow> dp_entry p (address_key a) = Some a"
proof -
  have "a \<in> set (js_values (dp_entries p)) \<longleftrightarrow> (\<exists>k. (k, a) \<in> set (dp_entries p))"
    by force
  also have "\<dots> \<longleftrightarrow> (address_key a, a) \<in> set (dp_entries p)"
    using assms unfolding dp_inv_def by auto
  finally show ?thesis by (simp only: dp_entry_mem [OF assms])
qed

section \<open>The location cache\<close>

record location_cache =
  lc_cache :: "(string, grain_address) js_map"
  lc_hits :: nat
  lc_misses :: nat

definition newLocationCache :: location_cache where
  "newLocationCache = \<lparr> lc_cache = [], lc_hits = 0, lc_misses = 0 \<rparr>"

definition lc_stats :: "location_cache \<Rightarrow> nat \<times> nat \<times> nat" where
  "lc_stats c = (lc_hits c, lc_misses c, length (lc_cache c))"

definition lc_get :: "location_cache \<Rightarrow> grain_id \<Rightarrow> location_cache \<times> grain_address option" where
  "lc_get c grainId =
     (case js_get (lc_cache c) (grain_id_toString grainId) of
        None \<Rightarrow> (c\<lparr> lc_misses := lc_misses c + 1 \<rparr>, None)
      | Some entry \<Rightarrow> (c\<lparr> lc_hits := lc_hits c + 1 \<rparr>, Some entry))"

definition lc_put :: "location_cache \<Rightarrow> grain_address \<Rightarrow> location_cache" where
  "lc_put c addr = c\<lparr> lc_cache := js_set (address_key addr) addr (lc_cache c) \<rparr>"

definition lc_invalidate :: "location_cache \<Rightarrow> grain_id \<Rightarrow> silo_address option \<Rightarrow> location_cache" where
  "lc_invalidate c grainId staleSilo =
     (let key = grain_id_toString grainId in
      if (case staleSilo of None \<Rightarrow> False
          | Some s \<Rightarrow> (case js_get (lc_cache c) key of
                None \<Rightarrow> True | Some e \<Rightarrow> \<not> silo_equals (ga_silo e) s))
      then c else c\<lparr> lc_cache := js_delete key (lc_cache c) \<rparr>)"

definition lc_invalidateSilo :: "location_cache \<Rightarrow> silo_address \<Rightarrow> location_cache" where
  "lc_invalidateSilo c silo =
     c\<lparr> lc_cache := filter (\<lambda>(key, entry). \<not> silo_equals (ga_silo entry) silo) (lc_cache c) \<rparr>"

definition lc_clear :: "location_cache \<Rightarrow> location_cache" where
  "lc_clear c = c\<lparr> lc_cache := [] \<rparr>"

section \<open>Routing to the owner\<close>

datatype rejection_kind =
    SiloDraining | UnknownTarget | Overloaded | Deserialization | NoActivation | NoCandidates
  | StaleView | SiloUnavailable

datatype dir_error = RejectionError string rejection_kind | OtherError string

definition MAX_STALE_RETRIES :: nat where
  "MAX_STALE_RETRIES = 5"

datatype directory_locality = LocalAccess | RemoteAccess

text \<open>
  The closures a \<open>DistributedGrainDirectory\<close> is built with, over an environment state \<open>'w\<close>: reading
  the ring, waiting for range recovery (which may throw), advancing the view.
\<close>

record 'w directory_env =
  de_local :: silo_address
  de_ring :: "'w \<Rightarrow> hash_ring"
  de_onOwnedAccess :: "grain_id \<Rightarrow> 'w \<Rightarrow> 'w \<times> dir_error option"
  de_refresh :: "'w \<Rightarrow> 'w"

definition isStaleView :: "dir_error \<Rightarrow> bool" where
  "isStaleView err = (case err of RejectionError _ kind \<Rightarrow> kind = StaleView | OtherError _ \<Rightarrow> False)"

definition ownsHere :: "'w directory_env \<Rightarrow> grain_id \<Rightarrow> 'w \<Rightarrow> bool" where
  "ownsHere env grainId w \<longleftrightarrow> \<not> ring_isEmpty (de_ring env w)
     \<and> (case ring_ownerOf (de_ring env w) grainId of
          Inl _ \<Rightarrow> False | Inr s \<Rightarrow> silo_equals s (de_local env))"

function route_loop ::
  "'w directory_env \<Rightarrow> grain_id \<Rightarrow> ('w \<Rightarrow> 'w \<times> 'a) \<Rightarrow> (silo_address \<Rightarrow> 'w \<Rightarrow> 'w \<times> (dir_error + 'a))
     \<Rightarrow> (directory_locality \<Rightarrow> 'w \<Rightarrow> 'w) \<Rightarrow> nat \<Rightarrow> 'w \<Rightarrow> 'w \<times> (dir_error + 'a)" where
  "route_loop env grainId onOwned onRemote rec attempt w =
     (if ring_isEmpty (de_ring env w)
      then (w, Inl (RejectionError ''no active silos to resolve a directory owner'' StaleView))
      else case ring_ownerOf (de_ring env w) grainId of
        Inl _ \<Rightarrow> (w, Inl (OtherError ''cannot resolve owner on an empty ring''))
      | Inr owner \<Rightarrow>
          if silo_equals owner (de_local env) then
            (case de_onOwnedAccess env grainId w of
               (w1, Some err) \<Rightarrow> (w1, Inl err)
             | (w1, None) \<Rightarrow>
                 if ownsHere env grainId w1 then
                   (case onOwned (rec LocalAccess w1) of (w2, r) \<Rightarrow> (w2, Inr r))
                 else if MAX_STALE_RETRIES \<le> attempt then
                   (w1, Inl (RejectionError ''directory ownership moved during the wait'' StaleView))
                 else route_loop env grainId onOwned onRemote rec (attempt + 1) (de_refresh env w1))
          else
            (case onRemote owner (rec RemoteAccess w) of
               (w1, Inr r) \<Rightarrow> (w1, Inr r)
             | (w1, Inl err) \<Rightarrow>
                 if MAX_STALE_RETRIES \<le> attempt \<or> \<not> isStaleView err then (w1, Inl err)
                 else route_loop env grainId onOwned onRemote rec (attempt + 1) (de_refresh env w1)))"
  by pat_completeness auto
termination
  by (relation "measure (\<lambda>(_, _, _, _, _, attempt, _). MAX_STALE_RETRIES - attempt)") auto

declare route_loop.simps [simp del]

definition dd_route where
  "dd_route env grainId onOwned onRemote rec w = route_loop env grainId onOwned onRemote rec 0 w"

text \<open>
  The four operations. The environment also holds this silo's partition and its liveness view; the
  peer operations are the transport's, so they are arguments.
\<close>

record 'w directory_ports =
  dq_partition :: "'w \<Rightarrow> directory_partition"
  dq_setPartition :: "directory_partition \<Rightarrow> 'w \<Rightarrow> 'w"
  dq_live :: "'w \<Rightarrow> liveness"
  dq_peerLookup :: "silo_address \<Rightarrow> grain_id \<Rightarrow> 'w \<Rightarrow> 'w \<times> (dir_error + grain_address option)"
  dq_peerRegister ::
    "silo_address \<Rightarrow> grain_address \<Rightarrow> grain_address option \<Rightarrow> 'w \<Rightarrow> 'w \<times> (dir_error + grain_address)"
  dq_peerUnregister :: "silo_address \<Rightarrow> grain_address \<Rightarrow> 'w \<Rightarrow> 'w \<times> (dir_error + unit)"
  dq_recordLookup :: "directory_locality \<Rightarrow> 'w \<Rightarrow> 'w"
  dq_recordRegistration :: "directory_locality \<Rightarrow> 'w \<Rightarrow> 'w"

definition dd_lookup where
  "dd_lookup env ports grainId w =
     dd_route env grainId
       (\<lambda>v. (v, dp_lookup (dq_live ports v) (dq_partition ports v) grainId))
       (\<lambda>owner. dq_peerLookup ports owner grainId) (dq_recordLookup ports) w"

definition dd_register where
  "dd_register env ports addr previous w =
     dd_route env (ga_grainId addr)
       (\<lambda>v. case dp_register (dq_live ports v) (dq_partition ports v) addr previous of
              (p, winner) \<Rightarrow> (dq_setPartition ports p v, winner))
       (\<lambda>owner. dq_peerRegister ports owner addr previous) (dq_recordRegistration ports) w"

definition dd_unregister where
  "dd_unregister env ports addr w =
     dd_route env (ga_grainId addr)
       (\<lambda>v. (dq_setPartition ports (dp_unregister (dq_partition ports v) addr) v, ()))
       (\<lambda>owner. dq_peerUnregister ports owner addr) (\<lambda>_ v. v) w"

definition dd_unregisterSilo :: "'w directory_ports \<Rightarrow> silo_address \<Rightarrow> 'w \<Rightarrow> 'w" where
  "dd_unregisterSilo ports silo w =
     dq_setPartition ports (dp_unregisterSilo (dq_partition ports w) silo) w"

section \<open>Reachable partitions\<close>

text \<open>Every way the code changes a partition, under whatever liveness view holds at that moment.\<close>

inductive dp_step :: "directory_partition \<Rightarrow> directory_partition \<Rightarrow> bool" where
  step_register: "dp_step p (fst (dp_register live p a prev))"
| step_unregister: "dp_step p (dp_unregister p a)"
| step_unregisterSilo: "dp_step p (dp_unregisterSilo p silo)"
| step_drain: "dp_step p (fst (dp_drain p classify))"
| step_acceptHandoff: "dp_step p (dp_acceptHandoff live p es owned)"

inductive dp_reachable :: "directory_partition \<Rightarrow> bool" where
  reach_new: "dp_reachable newPartition"
| reach_step: "dp_reachable p \<Longrightarrow> dp_step p q \<Longrightarrow> dp_reachable q"

lemma dp_step_inv: "dp_step p q \<Longrightarrow> dp_inv p \<Longrightarrow> dp_inv q"
  by (induction rule: dp_step.induct)
     (auto intro: dp_inv_register dp_inv_unregister dp_inv_unregisterSilo dp_inv_drain dp_inv_acceptHandoff)

lemma dp_reachable_inv: "dp_reachable p \<Longrightarrow> dp_inv p"
  by (induction rule: dp_reachable.induct) (auto intro: dp_inv_new dp_step_inv)

lemma dp_accept_keeps_live:
  assumes "dp_entry p k = Some e" "live (ga_silo e)"
  shows "dp_entry (dp_acceptHandoff live p es owned) k = Some e"
  using assms
proof (induction es arbitrary: p)
  case Nil
  then show ?case by simp
next
  case (Cons x xs)
  have "dp_entry (fst (dp_register live p x None)) k = Some e"
    using Cons.prems dp_cas.frame [of k x live p None] dp_cas.stored [of live p x None]
      dp_cas.loses [of p x e live] by (cases "k = address_key x") auto
  with Cons show ?case by simp
qed

lemma dp_accept_adopts:
  assumes "e \<in> set es" "owned e" "live (ga_silo e)"
    and "dp_entry p (address_key e) = None"
    and "\<And>x. x \<in> set es \<Longrightarrow> address_key x = address_key e \<Longrightarrow> x = e"
  shows "dp_entry (dp_acceptHandoff live p es owned) (address_key e) = Some e"
  using assms
proof (induction es arbitrary: p)
  case Nil
  then show ?case by simp
next
  case (Cons x xs)
  show ?case
  proof (cases "x = e")
    case True
    have "dp_entry (fst (dp_register live p e None)) (address_key e) = Some e"
      using dp_cas.stored [of live p e None] dp_cas.wins_absent [of p e live None] Cons.prems(4) by simp
    with True Cons.prems show ?thesis by (simp add: dp_accept_keeps_live)
  next
    case False
    then have "address_key e \<noteq> address_key x" using Cons.prems(5) [of x] by auto
    then have "dp_entry (fst (dp_register live p x None)) (address_key e) = None"
      using dp_cas.frame [of "address_key e" x live p None] Cons.prems(4) by simp
    with False Cons show ?thesis by simp
  qed
qed

lemma dp_drain_handoff_mem:
  assumes "dp_inv p"
  shows "a \<in> set (snd (dp_drain p classify)) \<longleftrightarrow>
    dp_entry p (address_key a) = Some a \<and> classify a = Handoff"
  using dp_values_mem [OF assms, of a] by (auto simp: dp_drain_def)

lemma dp_drain_entry:
  assumes "dp_inv p"
  shows "dp_entry (fst (dp_drain p classify)) k =
    (case dp_entry p k of None \<Rightarrow> None | Some a \<Rightarrow> if classify a = Keep then Some a else None)"
  using assms by (auto simp: dp_inv_def dp_drain_def dp_entry_def js_get_filter split: option.splits)

lemma route_loop_cong:
  assumes "\<And>w. ownsHere env g w \<Longrightarrow> f (rec LocalAccess w) = f' (rec LocalAccess w)"
  shows "route_loop env g f onRemote rec n w = route_loop env g f' onRemote rec n w"
proof (induction "MAX_STALE_RETRIES - n" arbitrary: n w rule: less_induct)
  case less
  have "route_loop env g f onRemote rec (n + 1) v = route_loop env g f' onRemote rec (n + 1) v"
    if "\<not> MAX_STALE_RETRIES \<le> n" for v
    using that by (intro less) simp
  then show ?case
    by (subst (1 2) route_loop.simps)
       (auto simp: assms split: prod.splits option.splits sum.splits)
qed

section \<open>Properties of the directory\<close>

text \<open>However many activations of one grain race to register without naming a predecessor,
  starting from no entry, all are answered with the first registrant's address, provided its silo
  is live, and that address is the one stored. This is the single-activation guarantee of the
  compare-and-set registration.\<close>

theorem directory_race_converges:
  assumes "dp_entry p k = None" "\<forall>a \<in> set (a # as). address_key a = k" "live (ga_silo a)"
  shows "set (snd (register_race (dp_register live) p (a # as))) = {a}
    \<and> dp_entry (fst (register_race (dp_register live) p (a # as))) k = Some a"
  using assms by (rule dp_cas.race_converges)

theorem directory_race_converges_witness:
  "let g = GrainId ''Counter'' (KInteger 1);
       a = GrainAddress g (SiloAddress ''s0'' ''u0'' ''e0'') ''act-a'';
       b = GrainAddress g (SiloAddress ''s1'' ''u1'' ''e1'') ''act-b''
   in set (snd (register_race (dp_register (\<lambda>_. True)) newPartition [a, b])) = {a}"
  using directory_race_converges [of newPartition
      "address_key (GrainAddress (GrainId ''Counter'' (KInteger 1)) (SiloAddress ''s0'' ''u0'' ''e0'') ''act-a'')"
      "GrainAddress (GrainId ''Counter'' (KInteger 1)) (SiloAddress ''s0'' ''u0'' ''e0'') ''act-a''"
      "[GrainAddress (GrainId ''Counter'' (KInteger 1)) (SiloAddress ''s1'' ''u1'' ''e1'') ''act-b'']"
      "\<lambda>_. True"]
  by (simp add: dp_entry_def newPartition_def)

text \<open>C9: In every reachable partition the entry stored under a key belongs to the grain with that
  id string and no key occurs twice; so a lookup returns only an address registered for the
  grain asked about, hosted by a silo that is live now.\<close>

theorem directory_lookup_sound:
  assumes "dp_reachable p" "dp_lookup live p g = Some a"
  shows "address_key a = grain_id_toString g \<and> live (ga_silo a) \<and> distinct (js_keys (dp_entries p))"
proof -
  have inv: "dp_inv p" using assms(1) by (rule dp_reachable_inv)
  have "dp_entry p (grain_id_toString g) = Some a \<and> live (ga_silo a)"
    using assms(2) by (auto simp: dp_lookup_def dp_entry_def split: option.splits if_splits)
  then show ?thesis
    using dp_entry_key [OF inv] inv by (auto simp: dp_inv_def js_wf_def)
qed

theorem directory_lookup_sound_witness:
  "let a = GrainAddress (GrainId ''Counter'' (KString ''x'')) (SiloAddress ''s0'' ''u0'' ''e0'') ''act-a''
   in address_key a = grain_id_toString (GrainId ''Counter'' (KString ''x''))"
proof -
  let ?a = "GrainAddress (GrainId ''Counter'' (KString ''x'')) (SiloAddress ''s0'' ''u0'' ''e0'') ''act-a''"
  let ?p = "fst (dp_register (\<lambda>_. True) newPartition ?a None)"
  have "dp_reachable ?p" by (rule reach_step [OF reach_new step_register])
  moreover have "dp_lookup (\<lambda>_. True) ?p (GrainId ''Counter'' (KString ''x'')) = Some ?a"
    by code_simp
  ultimately show ?thesis using directory_lookup_sound [of ?p "\<lambda>_. True"] by (simp add: Let_def)
qed

text \<open>\<open>unregister\<close> removes an entry only when it is exactly the address given (same grain, silo and
  activation), and never touches another key: a late unregister of a replaced activation cannot
  remove its successor.\<close>

theorem directory_unregister_exact:
  "dp_entry (dp_unregister p a) k =
     (if k = address_key a \<and> (\<exists>e. dp_entry p k = Some e \<and> grainAddressEquals e a)
      then None else dp_entry p k)"
  by (auto simp: dp_unregister_def dp_entry_def js_map_simps split: option.splits)

text \<open>C35: A ring change loses no live registration. Draining a reachable partition keeps exactly the
  entries classified \<open>keep\<close>; and every entry classified \<open>handoff\<close> that the successor owns, whose silo is live
  and for which the successor has no entry of its own, is found at the successor after
  \<open>acceptHandoff\<close>; while a live entry the successor already had is never overwritten.\<close>

theorem directory_handoff_preserves:
  assumes "dp_reachable p"
    and "dp_entry p k = Some e" "classify e = Handoff" "owned e" "live (ga_silo e)"
  shows "dp_entry (fst (dp_drain p classify)) k = None
    \<and> (let q' = dp_acceptHandoff live q (snd (dp_drain p classify)) owned in
        (dp_entry q k = None \<longrightarrow> dp_entry q' k = Some e)
      \<and> (\<forall>f. dp_entry q k = Some f \<and> live (ga_silo f) \<longrightarrow> dp_entry q' k = Some f))"
proof -
  have inv: "dp_inv p" using assms(1) by (rule dp_reachable_inv)
  have key: "address_key e = k" using dp_entry_key [OF inv assms(2)] .
  have mem: "e \<in> set (snd (dp_drain p classify))"
    using dp_drain_handoff_mem [OF inv] assms(2,3) key by simp
  have uniq: "x = e" if "x \<in> set (snd (dp_drain p classify))" "address_key x = address_key e" for x
    using that dp_drain_handoff_mem [OF inv] assms(2) key by auto
  have "dp_entry q k = None \<Longrightarrow> dp_entry (dp_acceptHandoff live q (snd (dp_drain p classify)) owned) k = Some e"
    using dp_accept_adopts [of e _ owned live q, OF mem assms(4,5) _ uniq] key by simp
  moreover have "dp_entry (fst (dp_drain p classify)) k = None"
    using dp_drain_entry [OF inv] assms(2,3) by simp
  ultimately show ?thesis
    using dp_accept_keeps_live by (simp add: Let_def)
qed

theorem directory_handoff_preserves_witness:
  "let a = GrainAddress (GrainId ''Counter'' (KString ''x'')) (SiloAddress ''s0'' ''u0'' ''e0'') ''act-a'';
       p = fst (dp_register (\<lambda>_. True) newPartition a None)
   in dp_entry (dp_acceptHandoff (\<lambda>_. True) newPartition (snd (dp_drain p (\<lambda>_. Handoff))) (\<lambda>_. True))
        (address_key a) = Some a"
proof -
  let ?a = "GrainAddress (GrainId ''Counter'' (KString ''x'')) (SiloAddress ''s0'' ''u0'' ''e0'') ''act-a''"
  let ?p = "fst (dp_register (\<lambda>_. True) newPartition ?a None)"
  have "dp_reachable ?p" by (rule reach_step [OF reach_new step_register])
  moreover have "dp_entry ?p (address_key ?a) = Some ?a" by code_simp
  ultimately show ?thesis
    using directory_handoff_preserves [of ?p "address_key ?a" ?a "\<lambda>_. Handoff" "\<lambda>_. True" "\<lambda>_. True"
        newPartition]
    by (simp add: Let_def dp_entry_newPartition)
qed

text \<open>C10: A routed operation touches the local partition only in a state in which the current ring
  assigns the grain to this silo, re-checked after the recovery barrier: two partition actions
  that agree on all such states give the same routed operation, whatever the environment does
  in between.\<close>

theorem route_owned_only_when_owner:
  assumes "\<And>w. ownsHere env g w \<Longrightarrow> f (rec LocalAccess w) = f' (rec LocalAccess w)"
  shows "dd_route env g f onRemote rec w = dd_route env g f' onRemote rec w"
  unfolding dd_route_def using assms by (rule route_loop_cong)

theorem route_owned_only_when_owner_witness:
  "dd_route \<lparr> de_local = SiloAddress ''z'' ''1'' ''e'', de_ring = (\<lambda>_. newRing [SiloAddress ''a'' ''1'' ''e''] 1),
       de_onOwnedAccess = (\<lambda>_ v. (v, None)), de_refresh = (\<lambda>v. v) \<rparr>
     (GrainId ''T'' (KString ''k'')) (\<lambda>v. (v + 1, ())) (\<lambda>_ v. (v, Inr ())) (\<lambda>_ v. v) (0 :: nat)
   = dd_route \<lparr> de_local = SiloAddress ''z'' ''1'' ''e'', de_ring = (\<lambda>_. newRing [SiloAddress ''a'' ''1'' ''e''] 1),
       de_onOwnedAccess = (\<lambda>_ v. (v, None)), de_refresh = (\<lambda>v. v) \<rparr>
     (GrainId ''T'' (KString ''k'')) (\<lambda>v. (v, ())) (\<lambda>_ v. (v, Inr ())) (\<lambda>_ v. v) 0"
proof (rule route_owned_only_when_owner)
  fix w :: nat
  have "\<not> ownsHere \<lparr> de_local = SiloAddress ''z'' ''1'' ''e'', de_ring = (\<lambda>_. newRing [SiloAddress ''a'' ''1'' ''e''] 1),
       de_onOwnedAccess = (\<lambda>_ v. (v, None)), de_refresh = (\<lambda>v. v) \<rparr> (GrainId ''T'' (KString ''k'')) w"
    by (simp add: ownsHere_def ring_ownerOf_def ring_owner_def newRing_def silo_vnodes_def)
  moreover assume "ownsHere \<lparr> de_local = SiloAddress ''z'' ''1'' ''e'', de_ring = (\<lambda>_. newRing [SiloAddress ''a'' ''1'' ''e''] 1),
       de_onOwnedAccess = (\<lambda>_ v. (v, None)), de_refresh = (\<lambda>v. v) \<rparr> (GrainId ''T'' (KString ''k'')) w"
  ultimately show "((w :: nat) + 1, ()) = (w, ())" by simp
qed

text \<open>On a view with active silos that does not move, an operation owned here runs on the
  partition right after the recovery barrier (whose error, if any, is passed on), and an
  operation owned elsewhere is the owner's answer, error included, except that a \<open>staleView\<close>
  refusal refreshes the view and tries again.\<close>

theorem route_stable_view:
  assumes ring: "\<And>v. de_ring env v = newRing silos vnodes" and ne: "silos \<noteq> []" "0 < vnodes"
    and own: "ring_ownerOf (newRing silos vnodes) g = Inr owner"
  shows "dd_route env g onOwned onRemote rec w =
    (if owner = de_local env then
       (case de_onOwnedAccess env g w of
          (w1, Some err) \<Rightarrow> (w1, Inl err)
        | (w1, None) \<Rightarrow> (case onOwned (rec LocalAccess w1) of (w2, r) \<Rightarrow> (w2, Inr r)))
     else (case onRemote owner (rec RemoteAccess w) of
          (w1, Inr r) \<Rightarrow> (w1, Inr r)
        | (w1, Inl err) \<Rightarrow>
            if isStaleView err then route_loop env g onOwned onRemote rec 1 (de_refresh env w1)
            else (w1, Inl err)))"
proof -
  have "\<not> ring_isEmpty (newRing silos vnodes)"
    using ne by (simp add: ring_isEmpty_def length_newRing)
  with own ring show ?thesis
    by (auto simp: dd_route_def route_loop.simps [of env g onOwned onRemote rec 0] ownsHere_def
        MAX_STALE_RETRIES_def split: prod.splits option.splits sum.splits)
qed

theorem route_stable_view_witness:
  "dd_route \<lparr> de_local = SiloAddress ''a'' ''1'' ''e'', de_ring = (\<lambda>_. newRing [SiloAddress ''a'' ''1'' ''e''] 1),
       de_onOwnedAccess = (\<lambda>_ v. (v, None)), de_refresh = (\<lambda>v. v) \<rparr>
     (GrainId ''T'' (KString ''k'')) (\<lambda>v. (v + 1, ''done'')) (\<lambda>_ v. (v, Inr ''remote'')) (\<lambda>_ v. v) (0 :: nat)
   = (1, Inr ''done'')"
proof -
  have "ring_ownerOf (newRing [SiloAddress ''a'' ''1'' ''e''] 1) (GrainId ''T'' (KString ''k''))
      = Inr (SiloAddress ''a'' ''1'' ''e'')"
    by (simp add: ring_ownerOf_def ring_owner_def newRing_def silo_vnodes_def)
  from route_stable_view [OF _ _ _ this, of "\<lparr> de_local = SiloAddress ''a'' ''1'' ''e'',
      de_ring = (\<lambda>_. newRing [SiloAddress ''a'' ''1'' ''e''] 1),
      de_onOwnedAccess = (\<lambda>_ v. (v, None)), de_refresh = (\<lambda>v. v) \<rparr>" "\<lambda>v. (v + 1, ''done'')"
      "\<lambda>_ v. (v, Inr ''remote'')" "\<lambda>_ v. v" "0 :: nat"]
  show ?thesis by simp
qed

end
