(* ===== verification/RW_Lock.thy ===== *)
theory RW_Lock
  imports Thresh_Prelude
begin

text \<open>
  \<^verbatim>\<open>packages/transactions/src/reader-writer-lock.ts\<close>: the timestamp-ordered reader-writer lock with
  wait-die. The lock's methods are synchronous; the promise \<open>enter\<close> returns is modelled by its
  immediate outcome (granted, rejected, or waiting under a ticket), and the later settlement of a
  waiting promise by the list of \<open>settlement\<close>s each operation emits. A waiter's timer is a
  \<open>timeout\<close> step on its ticket, possible at any moment while a deadline is armed.

  Shown: exclusion of holders, unique tickets and "no waiter is left grantable" are invariants of
  every reachable lock; \<open>pump\<close> terminates; waiting is decided by wait-die at entry. Two
  behaviours that contradict the class comment are proved on concrete runs: a younger
  transaction can be left waiting for an older holder (so a cycle over two locks can form), and
  granting a queued read to a transaction whose queued write was just granted downgrades it.
\<close>

datatype lock_mode = ReadMode | WriteMode

datatype lock_error = TransactionAbortedError string string | TransactionLockUpgradeError string

record holder =
  hd_txn :: string
  hd_priority :: int
  hd_mode :: lock_mode

record waiter =
  wt_ticket :: nat
  wt_txn :: string
  wt_priority :: int
  wt_mode :: lock_mode
  wt_timer :: "int option"

record rw_lock =
  lk_holders :: "(string, holder) js_map"
  lk_waiters :: "waiter list"
  lk_next :: nat

datatype enter_outcome = Granted | Rejected lock_error | Waiting nat

datatype settlement = Resolve nat | Reject nat lock_error

definition newLock :: rw_lock where
  "newLock = \<lparr> lk_holders = [], lk_waiters = [], lk_next = 0 \<rparr>"

definition isOlder :: "int \<times> string \<Rightarrow> int \<times> string \<Rightarrow> bool" where
  "isOlder a b = (if fst a \<noteq> fst b then fst a < fst b else snd a < snd b)"

abbreviation holder_rank :: "holder \<Rightarrow> int \<times> string" where
  "holder_rank h \<equiv> (hd_priority h, hd_txn h)"

abbreviation waiter_rank :: "waiter \<Rightarrow> int \<times> string" where
  "waiter_rank w \<equiv> (wt_priority w, wt_txn w)"

definition conflictingHolders :: "rw_lock \<Rightarrow> string \<Rightarrow> lock_mode \<Rightarrow> holder list" where
  "conflictingHolders l txn mode =
     map snd (filter (\<lambda>(id, h). id \<noteq> txn \<and> (mode = WriteMode \<or> hd_mode h = WriteMode)) (lk_holders l))"

definition blockOrDie ::
  "rw_lock \<Rightarrow> string \<Rightarrow> int \<Rightarrow> lock_mode \<Rightarrow> int option \<Rightarrow> bool \<Rightarrow> rw_lock \<times> enter_outcome" where
  "blockOrDie l txn priority mode deadline isUpgrade =
     (let conflicts = conflictingHolders l txn mode;
          olderThanAll = list_all (\<lambda>h. isOlder (priority, txn) (holder_rank h)) conflicts
      in if \<not> olderThanAll
         then (l, Rejected (if isUpgrade then TransactionLockUpgradeError txn
                  else TransactionAbortedError txn ''wait-die: younger than a lock holder''))
         else (l\<lparr> lk_waiters := lk_waiters l @
                    [\<lparr> wt_ticket = lk_next l, wt_txn = txn, wt_priority = priority, wt_mode = mode,
                       wt_timer = deadline \<rparr>],
                  lk_next := lk_next l + 1 \<rparr>, Waiting (lk_next l)))"

definition enter ::
  "rw_lock \<Rightarrow> string \<Rightarrow> int \<Rightarrow> lock_mode \<Rightarrow> int option \<Rightarrow> rw_lock \<times> enter_outcome" where
  "enter l txn priority mode deadline =
     (case js_get (lk_holders l) txn of
        Some held \<Rightarrow>
          if mode = WriteMode \<and> hd_mode held = ReadMode then
            (if 0 < length (conflictingHolders l txn WriteMode)
             then blockOrDie l txn priority WriteMode deadline True
             else (l\<lparr> lk_holders := js_set txn (held\<lparr> hd_mode := WriteMode \<rparr>) (lk_holders l) \<rparr>, Granted))
          else (l, Granted)
      | None \<Rightarrow>
          if length (conflictingHolders l txn mode) = 0
          then (l\<lparr> lk_holders := js_set txn
                     \<lparr> hd_txn = txn, hd_priority = priority, hd_mode = mode \<rparr> (lk_holders l) \<rparr>, Granted)
          else blockOrDie l txn priority mode deadline False)"

text \<open>The grant of one waiter inside \<open>pump\<close>: hold, leave the queue, resolve.\<close>

definition grant :: "rw_lock \<Rightarrow> waiter \<Rightarrow> rw_lock" where
  "grant l w = l\<lparr> lk_holders := js_set (wt_txn w)
      \<lparr> hd_txn = wt_txn w, hd_priority = wt_priority w, hd_mode = wt_mode w \<rparr> (lk_holders l),
     lk_waiters := remove1 w (lk_waiters l) \<rparr>"

fun pump_pass :: "rw_lock \<Rightarrow> waiter list \<Rightarrow> rw_lock \<times> settlement list" where
  "pump_pass l [] = (l, [])"
| "pump_pass l (w # queued) =
     (if length (conflictingHolders l (wt_txn w) (wt_mode w)) = 0
      then (case pump_pass (grant l w) queued of (l', evs) \<Rightarrow> (l', Resolve (wt_ticket w) # evs))
      else pump_pass l queued)"

definition waiter_le :: "waiter \<Rightarrow> waiter \<Rightarrow> bool" where
  "waiter_le a b \<longleftrightarrow> \<not> isOlder (waiter_rank b) (waiter_rank a)"

lemma pump_pass_length: "length (lk_waiters (fst (pump_pass l qs))) \<le> length (lk_waiters l)"
proof (induction l qs rule: pump_pass.induct)
  case (2 l w queued)
  then show ?case
    by (auto simp: grant_def length_remove1 split: prod.splits if_splits)
qed simp

lemma pump_pass_shrinks:
  "mset queued \<subseteq># mset (lk_waiters l) \<Longrightarrow> snd (pump_pass l queued) \<noteq> []
    \<Longrightarrow> length (lk_waiters (fst (pump_pass l queued))) < length (lk_waiters l)"
proof -
  assume "mset queued \<subseteq># mset (lk_waiters l)" "snd (pump_pass l queued) \<noteq> []"
  then show ?thesis
  proof (induction l queued rule: pump_pass.induct)
    case (1 l)
    then show ?case by simp
  next
    case (2 l w queued)
    show ?case
    proof (cases "length (conflictingHolders l (wt_txn w) (wt_mode w)) = 0")
      case True
      have "w \<in> set (lk_waiters l)"
        using "2.prems"(1) by (metis insert_subset_eq_iff mset.simps(2) set_mset_mset)
      then have "length (lk_waiters (grant l w)) < length (lk_waiters l)"
        by (auto simp: grant_def length_remove1 dest: length_pos_if_in_set)
      with pump_pass_length [of "grant l w" queued] True show ?thesis
        by (auto split: prod.splits)
    next
      case False
      with 2 show ?thesis
        by (auto dest: mset_subset_eq_insertD simp: subset_mset.less_imp_le)
    qed
  qed
qed

function pump :: "rw_lock \<Rightarrow> rw_lock \<times> settlement list" where
  "pump l =
     (let (l', evs) = pump_pass l (js_sort waiter_le (lk_waiters l)) in
      if evs = [] then (l', []) else (let (l'', evs') = pump l' in (l'', evs @ evs')))"
  by pat_completeness auto
termination
proof (relation "measure (\<lambda>l. length (lk_waiters l))", goal_cases)
  case 1
  then show ?case by simp
next
  case (2 l p l' evs)
  then show ?case
    using pump_pass_shrinks [of "js_sort waiter_le (lk_waiters l)" l] by (auto dest: sym)
qed

declare pump.simps [simp del]

definition release :: "rw_lock \<Rightarrow> string \<Rightarrow> rw_lock \<times> settlement list" where
  "release l txn =
     (let l1 = l\<lparr> lk_holders := js_delete txn (lk_holders l),
                  lk_waiters := filter (\<lambda>w. wt_txn w \<noteq> txn) (lk_waiters l) \<rparr>;
          rejected = map (\<lambda>w. Reject (wt_ticket w)
                       (TransactionAbortedError txn ''lock released while waiting''))
                     (rev (filter (\<lambda>w. wt_txn w = txn) (lk_waiters l)));
          (l2, evs) = pump l1
      in (l2, rejected @ evs))"

text \<open>The callback of a waiter's timer: a no-op unless the waiter is still queued.\<close>

definition lock_timeout :: "rw_lock \<Rightarrow> nat \<Rightarrow> rw_lock \<times> settlement list" where
  "lock_timeout l ticket =
     (case find (\<lambda>w. wt_ticket w = ticket \<and> wt_timer w \<noteq> None) (lk_waiters l) of
        None \<Rightarrow> (l, [])
      | Some w \<Rightarrow> (l\<lparr> lk_waiters := remove1 w (lk_waiters l) \<rparr>,
                   [Reject ticket (TransactionAbortedError (wt_txn w) ''lock acquisition deadline exceeded'')]))"

section \<open>Invariants of the lock\<close>

lemma isOlder_irrefl [simp]: "\<not> isOlder a a"
  by (simp add: isOlder_def)

lemma isOlder_total: "a \<noteq> b \<Longrightarrow> isOlder a b \<or> isOlder b a"
  by (auto simp: isOlder_def prod_eq_iff)

lemma isOlder_trans: "isOlder a b \<Longrightarrow> isOlder b c \<Longrightarrow> isOlder a c"
  by (auto simp: isOlder_def split: if_splits)

interpretation waiter_order: js_order waiter_le
  by unfold_locales (auto simp: waiter_le_def isOlder_def split: if_splits)

definition lock_wf :: "rw_lock \<Rightarrow> bool" where
  "lock_wf l \<longleftrightarrow> js_wf (lk_holders l) \<and> (\<forall>(id, h) \<in> set (lk_holders l). hd_txn h = id)
     \<and> distinct (map wt_ticket (lk_waiters l)) \<and> (\<forall>w \<in> set (lk_waiters l). wt_ticket w < lk_next l)"

definition exclusive :: "rw_lock \<Rightarrow> bool" where
  "exclusive l \<longleftrightarrow> (\<forall>(i, h) \<in> set (lk_holders l). \<forall>(j, k) \<in> set (lk_holders l).
     i \<noteq> j \<longrightarrow> hd_mode h = ReadMode)"

definition none_grantable :: "rw_lock \<Rightarrow> bool" where
  "none_grantable l \<longleftrightarrow> (\<forall>w \<in> set (lk_waiters l). conflictingHolders l (wt_txn w) (wt_mode w) \<noteq> [])"

lemma lock_mode_cases [simp]:
  "x \<noteq> WriteMode \<longleftrightarrow> x = ReadMode" "x \<noteq> ReadMode \<longleftrightarrow> x = WriteMode"
  by (cases x; simp)+

lemma conflicting_Nil:
  "conflictingHolders l txn mode = [] \<longleftrightarrow>
     (\<forall>(id, h) \<in> set (lk_holders l). id \<noteq> txn \<longrightarrow> mode = ReadMode \<and> hd_mode h = ReadMode)"
  by (auto simp: conflictingHolders_def filter_empty_conv)

lemma conflicting_waiters [simp]:
  "conflictingHolders (l\<lparr> lk_waiters := ws \<rparr>) = conflictingHolders l"
  "conflictingHolders (l\<lparr> lk_next := n \<rparr>) = conflictingHolders l"
  by (auto simp: conflictingHolders_def fun_eq_iff)

lemma exclusive_hold:
  assumes "exclusive l" "js_wf (lk_holders l)" "conflictingHolders l txn mode = []" "hd_mode h = mode"
  shows "exclusive (l\<lparr> lk_holders := js_set txn h (lk_holders l) \<rparr>)"
  using assms unfolding exclusive_def conflicting_Nil
  by (auto simp: js_set_mem)

lemma lock_wf_hold:
  "lock_wf l \<Longrightarrow> hd_txn h = txn \<Longrightarrow> lock_wf (l\<lparr> lk_holders := js_set txn h (lk_holders l) \<rparr>)"
  by (auto simp: lock_wf_def js_set_mem)

lemma conflicting_hold_mono:
  assumes "js_wf (lk_holders l)" "conflictingHolders l txn mode \<noteq> []"
    and "\<And>h'. js_get (lk_holders l) t = Some h' \<Longrightarrow> hd_mode h' = WriteMode \<Longrightarrow> hd_mode h = WriteMode"
  shows "conflictingHolders (l\<lparr> lk_holders := js_set t h (lk_holders l) \<rparr>) txn mode \<noteq> []"
proof -
  from assms(2) obtain id k where k: "(id, k) \<in> set (lk_holders l)" "id \<noteq> txn"
    "mode = WriteMode \<or> hd_mode k = WriteMode"
    by (fastforce simp: conflictingHolders_def filter_empty_conv)
  show ?thesis
  proof (cases "id = t")
    case True
    then have "js_get (lk_holders l) t = Some k"
      using k(1) assms(1) by (simp add: js_get_mem)
    with k(3) assms(3) have "mode = WriteMode \<or> hd_mode h = WriteMode" by blast
    moreover have "(t, h) \<in> set (js_set t h (lk_holders l))"
      using assms(1) by (simp add: js_set_mem)
    ultimately show ?thesis
      using k(2) True unfolding conflicting_Nil by fastforce
  next
    case False
    with k(1) assms(1) have "(id, k) \<in> set (js_set t h (lk_holders l))"
      by (simp add: js_set_mem)
    with k(2,3) show ?thesis
      unfolding conflicting_Nil by fastforce
  qed
qed

section \<open>Preservation\<close>

definition lock_safe :: "rw_lock \<Rightarrow> bool" where
  "lock_safe l \<longleftrightarrow> lock_wf l \<and> exclusive l"

lemma lock_safe_waiters:
  assumes "lock_safe l" "distinct (map wt_ticket ws)" "\<forall>w \<in> set ws. wt_ticket w < n"
  shows "lock_safe (l\<lparr> lk_waiters := ws, lk_next := n \<rparr>)"
  using assms by (auto simp: lock_safe_def lock_wf_def exclusive_def)

lemma lock_safe_drop:
  assumes "lock_safe l" "distinct (map wt_ticket ws)" "set ws \<subseteq> set (lk_waiters l)"
  shows "lock_safe (l\<lparr> lk_waiters := ws \<rparr>)"
  using assms by (auto simp: lock_safe_def lock_wf_def exclusive_def)

lemma distinct_tickets_remove1: "distinct (map f xs) \<Longrightarrow> distinct (map f (remove1 x xs))"
  by (metis distinct_map distinct_remove1 inj_on_subset set_remove1_subset)

lemma lock_safe_grant:
  assumes "lock_safe l" "conflictingHolders l (wt_txn w) (wt_mode w) = []"
  shows "lock_safe (grant l w)"
proof -
  let ?h = "\<lparr> hd_txn = wt_txn w, hd_priority = wt_priority w, hd_mode = wt_mode w \<rparr>"
  have "lock_safe (l\<lparr> lk_holders := js_set (wt_txn w) ?h (lk_holders l) \<rparr>)"
    using assms exclusive_hold [of l "wt_txn w" "wt_mode w" ?h] lock_wf_hold [of l ?h "wt_txn w"]
    by (simp add: lock_safe_def lock_wf_def)
  from lock_safe_drop [OF this, of "remove1 w (lk_waiters l)"] assms(1) show ?thesis
    by (simp add: grant_def lock_safe_def lock_wf_def distinct_tickets_remove1 set_remove1_subset)
qed

lemma lock_safe_pump_pass: "lock_safe l \<Longrightarrow> lock_safe (fst (pump_pass l qs))"
  by (induction l qs rule: pump_pass.induct) (auto simp: lock_safe_grant split: prod.splits)

lemma lock_safe_pump: "lock_safe l \<Longrightarrow> lock_safe (fst (pump l))"
proof (induction l rule: pump.induct)
  case (1 l)
  then show ?case
    using lock_safe_pump_pass [of l "js_sort waiter_le (lk_waiters l)"]
    by (subst pump.simps) (auto simp: Let_def split: prod.splits)
qed

lemma pump_pass_idle:
  "snd (pump_pass l qs) = [] \<Longrightarrow> fst (pump_pass l qs) = l
     \<and> (\<forall>w \<in> set qs. conflictingHolders l (wt_txn w) (wt_mode w) \<noteq> [])"
  by (induction l qs rule: pump_pass.induct) (auto split: prod.splits if_splits)

lemma none_grantable_pump: "none_grantable (fst (pump l))"
proof (induction l rule: pump.induct)
  case (1 l)
  show ?case
    using 1 pump_pass_idle [of l "js_sort waiter_le (lk_waiters l)"]
    by (subst pump.simps) (auto simp: Let_def none_grantable_def split: prod.splits)
qed

lemma lock_safe_release: "lock_safe l \<Longrightarrow> lock_safe (fst (release l txn))"
proof -
  assume safe: "lock_safe l"
  let ?l1 = "l\<lparr> lk_holders := js_delete txn (lk_holders l),
               lk_waiters := filter (\<lambda>w. wt_txn w \<noteq> txn) (lk_waiters l) \<rparr>"
  have "lock_safe ?l1"
    using safe unfolding lock_safe_def lock_wf_def exclusive_def
    by (fastforce simp: js_delete_mem distinct_map_filter)
  then have "lock_safe (fst (pump ?l1))" by (rule lock_safe_pump)
  then show ?thesis by (simp add: release_def Let_def case_prod_beta)
qed

lemma none_grantable_release: "none_grantable (fst (release l txn))"
  using none_grantable_pump by (simp add: release_def Let_def case_prod_beta)

lemma lock_safe_timeout: "lock_safe l \<Longrightarrow> lock_safe (fst (lock_timeout l t))"
  using lock_safe_drop [of l "remove1 w (lk_waiters l)" for w]
  by (auto simp: lock_timeout_def lock_safe_def lock_wf_def distinct_tickets_remove1 set_remove1_subset
      split: option.splits)

lemma lock_safe_enter: "lock_safe l \<Longrightarrow> lock_safe (fst (enter l txn p m d))"
proof -
  assume safe: "lock_safe l"
  have hold: "lock_safe (l\<lparr> lk_holders := js_set txn h (lk_holders l) \<rparr>)"
    if "conflictingHolders l txn (hd_mode h) = []" "hd_txn h = txn" for h
    using safe that exclusive_hold [of l txn "hd_mode h" h] lock_wf_hold [of l h txn]
    by (simp add: lock_safe_def lock_wf_def)
  have block: "lock_safe (fst (blockOrDie l txn p m' d u))" for m' u
  proof -
    let ?w = "\<lparr> wt_ticket = lk_next l, wt_txn = txn, wt_priority = p, wt_mode = m', wt_timer = d \<rparr>"
    from safe have "distinct (map wt_ticket (lk_waiters l @ [?w]))"
      "\<forall>w \<in> set (lk_waiters l @ [?w]). wt_ticket w < lk_next l + 1"
      by (auto simp: lock_safe_def lock_wf_def)
    with safe show ?thesis
      using lock_safe_waiters [of l "lk_waiters l @ [?w]" "lk_next l + 1"]
      by (simp add: blockOrDie_def Let_def)
  qed
  have "hd_txn h = txn" if "js_get (lk_holders l) txn = Some h" for h
    using safe js_get_memD [OF that] by (auto simp: lock_safe_def lock_wf_def)
  with safe hold block show ?thesis
    by (auto simp: enter_def split: option.splits)
qed

lemma none_grantable_hold:
  assumes "none_grantable l" "js_wf (lk_holders l)"
    and "\<And>h'. js_get (lk_holders l) t = Some h' \<Longrightarrow> hd_mode h' = WriteMode \<Longrightarrow> hd_mode h = WriteMode"
  shows "none_grantable (l\<lparr> lk_holders := js_set t h (lk_holders l) \<rparr>)"
  using assms conflicting_hold_mono [of l _ _ t h] by (simp add: none_grantable_def)

lemma none_grantable_enter:
  assumes "none_grantable l" "lock_safe l"
  shows "none_grantable (fst (enter l txn p m d))"
proof -
  have block: "none_grantable (fst (blockOrDie l txn p m' d u))" if "conflictingHolders l txn m' \<noteq> []" for m' u
    using assms(1) that by (auto simp: blockOrDie_def Let_def none_grantable_def)
  have wf: "js_wf (lk_holders l)"
    using assms(2) by (simp add: lock_safe_def lock_wf_def)
  show ?thesis
  proof (cases "js_get (lk_holders l) txn")
    case None
    then show ?thesis
      using block none_grantable_hold [OF assms(1) wf, of txn] by (simp add: enter_def)
  next
    case (Some held)
    then show ?thesis
      using assms(1) block none_grantable_hold [OF assms(1) wf, of txn "held\<lparr> hd_mode := WriteMode \<rparr>"]
      by (simp add: enter_def)
  qed
qed

lemma none_grantable_timeout: "none_grantable l \<Longrightarrow> none_grantable (fst (lock_timeout l t))"
  by (auto simp: lock_timeout_def none_grantable_def dest: notin_set_remove1 split: option.splits)

section \<open>Reachable locks\<close>

datatype lock_op = EnterOp string int lock_mode "int option" | ReleaseOp string | TimeoutOp nat

text \<open>One public step of the lock and the promises it settles.\<close>

definition lock_run :: "rw_lock \<Rightarrow> lock_op \<Rightarrow> rw_lock" where
  "lock_run l op = (case op of
      EnterOp t p m d \<Rightarrow> fst (enter l t p m d)
    | ReleaseOp t \<Rightarrow> fst (release l t)
    | TimeoutOp k \<Rightarrow> fst (lock_timeout l k))"

inductive lock_reachable :: "rw_lock \<Rightarrow> bool" where
  start: "lock_reachable newLock"
| step: "lock_reachable l \<Longrightarrow> lock_reachable (lock_run l op)"

lemma lock_reachable_inv: "lock_reachable l \<Longrightarrow> lock_safe l \<and> none_grantable l"
proof (induction rule: lock_reachable.induct)
  case start
  then show ?case
    by (simp add: newLock_def lock_safe_def lock_wf_def exclusive_def none_grantable_def)
next
  case (step l op)
  then show ?case
    by (cases op) (auto simp: lock_run_def lock_safe_enter lock_safe_release lock_safe_timeout
        none_grantable_enter none_grantable_release none_grantable_timeout)
qed

lemma lock_reachable_fold: "lock_reachable l \<Longrightarrow> lock_reachable (foldl lock_run l ops)"
  by (induction ops arbitrary: l) (auto intro: lock_reachable.step)

definition waits_for :: "rw_lock \<Rightarrow> string \<Rightarrow> string \<Rightarrow> bool" where
  "waits_for l t t' \<longleftrightarrow> list_ex (\<lambda>w. wt_txn w = t \<and>
     list_ex (\<lambda>h. hd_txn h = t') (conflictingHolders l t (wt_mode w))) (lk_waiters l)"

text \<open>C3: Mutual exclusion. In every lock reached by any sequence of \<open>enter\<close>, \<open>release\<close> and deadline
  expiries, two different transactions hold the lock together only if both hold it for reading.\<close>

theorem lock_exclusion:
  assumes "lock_reachable l" "(i, h) \<in> set (lk_holders l)" "(j, k) \<in> set (lk_holders l)" "i \<noteq> j"
  shows "hd_mode h = ReadMode \<and> hd_mode k = ReadMode"
proof -
  from lock_reachable_inv [OF assms(1)] have "exclusive l" by (simp add: lock_safe_def)
  then have "\<lbrakk>(a, x) \<in> set (lk_holders l); (b, y) \<in> set (lk_holders l); a \<noteq> b\<rbrakk> \<Longrightarrow> hd_mode x = ReadMode" for a b x y
    unfolding exclusive_def by blast
  with assms(2-4) show ?thesis by metis
qed

definition two_readers :: rw_lock where
  "two_readers = foldl lock_run newLock [EnterOp ''a'' 1 ReadMode None, EnterOp ''b'' 2 ReadMode None]"

lemma two_readers_reachable: "lock_reachable two_readers"
  unfolding two_readers_def by (intro lock_reachable_fold lock_reachable.start)

lemma two_readers_holders:
  "lk_holders two_readers =
     [(''a'', \<lparr> hd_txn = ''a'', hd_priority = 1, hd_mode = ReadMode \<rparr>),
      (''b'', \<lparr> hd_txn = ''b'', hd_priority = 2, hd_mode = ReadMode \<rparr>)]"
  by (simp add: two_readers_def lock_run_def enter_def newLock_def conflictingHolders_def)

theorem lock_exclusion_witness:
  "hd_mode (snd (lk_holders two_readers ! 0)) = ReadMode \<and> hd_mode (snd (lk_holders two_readers ! 1)) = ReadMode"
  using lock_exclusion [of two_readers "''a''" "snd (lk_holders two_readers ! 0)" "''b''"
      "snd (lk_holders two_readers ! 1)"] two_readers_reachable
  by (simp add: two_readers_holders)

text \<open>C34: No lost wake-up. In every reachable lock each queued waiter conflicts with some current holder:
  a request that could be granted is never left in the queue.\<close>

theorem lock_no_lost_wakeup:
  assumes "lock_reachable l" "w \<in> set (lk_waiters l)"
  shows "\<exists>(id, h) \<in> set (lk_holders l). id \<noteq> wt_txn w \<and> (wt_mode w = WriteMode \<or> hd_mode h = WriteMode)"
proof -
  from lock_reachable_inv [OF assms(1)] assms(2)
  have "conflictingHolders l (wt_txn w) (wt_mode w) \<noteq> []" by (simp add: none_grantable_def)
  then show ?thesis by (fastforce simp: conflictingHolders_def filter_empty_conv)
qed

definition older_waits :: rw_lock where
  "older_waits = foldl lock_run newLock [EnterOp ''b'' 2 WriteMode None, EnterOp ''a'' 1 ReadMode None]"

lemma older_waits_reachable: "lock_reachable older_waits"
  unfolding older_waits_def by (intro lock_reachable_fold lock_reachable.start)

lemma older_waits_waiters:
  "lk_waiters older_waits =
     [\<lparr> wt_ticket = 0, wt_txn = ''a'', wt_priority = 1, wt_mode = ReadMode, wt_timer = None \<rparr>]"
  by (simp add: older_waits_def lock_run_def enter_def blockOrDie_def newLock_def conflictingHolders_def
      isOlder_def Let_def)

theorem lock_no_lost_wakeup_witness:
  "\<exists>(id, h) \<in> set (lk_holders older_waits). id \<noteq> ''a'' \<and> (ReadMode = WriteMode \<or> hd_mode h = WriteMode)"
  using lock_no_lost_wakeup [OF older_waits_reachable, of "hd (lk_waiters older_waits)"]
  by (simp add: older_waits_waiters)

text \<open>Wait-die at entry. A request that conflicts with holders (and is not already covered by the
  transaction's own hold) queues exactly when it is older than every conflicting holder; otherwise it is
  rejected at once, the lock unchanged, with the upgrade error iff the transaction already holds the lock.\<close>

theorem enter_wait_die:
  assumes "conflictingHolders l t m \<noteq> []"
    and "js_get (lk_holders l) t = None \<or>
      (m = WriteMode \<and> (\<exists>held. js_get (lk_holders l) t = Some held \<and> hd_mode held = ReadMode))"
  shows "if \<forall>h \<in> set (conflictingHolders l t m). isOlder (p, t) (hd_priority h, hd_txn h)
         then snd (enter l t p m d) = Waiting (lk_next l) \<and> lk_holders (fst (enter l t p m d)) = lk_holders l
              \<and> lk_waiters (fst (enter l t p m d)) = lk_waiters l @
                   [\<lparr> wt_ticket = lk_next l, wt_txn = t, wt_priority = p, wt_mode = m, wt_timer = d \<rparr>]
         else enter l t p m d = (l, Rejected (if js_has (lk_holders l) t then TransactionLockUpgradeError t
                  else TransactionAbortedError t ''wait-die: younger than a lock holder''))"
  using assms by (auto simp: enter_def blockOrDie_def Let_def list_all_iff)

theorem enter_wait_die_witness:
  "snd (enter (fst (enter newLock ''b'' 2 WriteMode None)) ''a'' 1 ReadMode None) = Waiting 0"
  using enter_wait_die [of "fst (enter newLock ''b'' 2 WriteMode None)" "''a''" ReadMode 1 None]
  by (simp add: enter_def newLock_def conflictingHolders_def isOlder_def)

definition cycle_lock_A :: rw_lock where
  "cycle_lock_A = foldl lock_run newLock
     [EnterOp ''h'' 9 WriteMode None, EnterOp ''y'' 5 WriteMode None, EnterOp ''o'' 3 WriteMode None,
      ReleaseOp ''h'']"

definition cycle_lock_B :: rw_lock where
  "cycle_lock_B = foldl lock_run newLock [EnterOp ''y'' 5 WriteMode None, EnterOp ''o'' 3 WriteMode None]"

text \<open>A wait cycle can form. Two reachable locks exist in which two transactions wait for each other:
  the older one waits for the younger on one lock, as wait-die allows, while the younger one, queued behind
  a holder that has since left, is still waiting for the older one that was granted first.\<close>

lemma lock_wait_cycle:
  "\<exists>A B. lock_reachable A \<and> lock_reachable B \<and> waits_for A ''y'' ''o'' \<and> waits_for B ''o'' ''y''"
proof -
  have "waits_for cycle_lock_A ''y'' ''o''"
    by (simp add: cycle_lock_A_def waits_for_def lock_run_def enter_def blockOrDie_def newLock_def release_def
        conflictingHolders_def isOlder_def Let_def pump.simps waiter_le_def grant_def)
  moreover have "waits_for cycle_lock_B ''o'' ''y''"
    by (simp add: cycle_lock_B_def waits_for_def lock_run_def enter_def blockOrDie_def newLock_def
        conflictingHolders_def isOlder_def Let_def)
  ultimately show ?thesis
    using lock_reachable_fold [OF lock_reachable.start] unfolding cycle_lock_A_def cycle_lock_B_def by blast
qed

definition downgraded :: "rw_lock \<times> settlement list" where
  "downgraded = release (foldl lock_run newLock
     [EnterOp ''h'' 9 WriteMode None, EnterOp ''o'' 3 WriteMode None, EnterOp ''o'' 3 ReadMode None]) ''h''"

text \<open>A granted write can be downgraded. A transaction that queued a write and then a read on the same
  lock has both granted by one release; afterwards it is recorded as a reader and another transaction is
  admitted to read beside it, although the write was granted and never given back.\<close>

lemma lock_grant_downgrades:
  "snd downgraded = [Resolve 0, Resolve 1]
   \<and> js_get (lk_holders (fst downgraded)) ''o'' = Some \<lparr> hd_txn = ''o'', hd_priority = 3, hd_mode = ReadMode \<rparr>
   \<and> snd (enter (fst downgraded) ''r'' 7 ReadMode None) = Granted"
  by (simp add: downgraded_def lock_run_def enter_def blockOrDie_def newLock_def release_def
      conflictingHolders_def isOlder_def Let_def pump.simps waiter_le_def grant_def)

end
