(* ===== verification/Transactional_Storage.thy ===== *)
theory Transactional_Storage
  imports Identity RW_Lock
begin

text \<open>
  Durable storage of transactional state: the record kept per grain state and the delta of one \<open>store\<close>
  call (\<^verbatim>\<open>transactions/src/transactional-storage-apply.ts\<close>), the in-memory provider with its etag
  check (\<^verbatim>\<open>transactions/src/memory-transactional-storage.ts\<close>) and the shared contracts of
  \<^verbatim>\<open>core/src/transactional-storage.ts\<close> and \<^verbatim>\<open>core/src/transaction-info.ts\<close>.

  The clone through the value codec is the identity on values of HOL. An absent
  committed state is \<open>None\<close>. Numbers are \<open>int\<close>.

  Shown: the pending list stays sorted with unique sequence ids; what each delta does to the committed
  version and to every pending record; the etag check is a compare-and-swap, so of two writers that loaded
  the same version at most one succeeds.
\<close>

section \<open>Records\<close>

record participant_id =
  pi_grainId :: grain_id
  pi_stateName :: string

definition participantKey :: "participant_id \<Rightarrow> string" where
  "participantKey pid = grain_id_toString (pi_grainId pid) @ ''/'' @ pi_stateName pid"

record 'a pending_state =
  pd_sequenceId :: int
  pd_transactionId :: string
  pd_timeStamp :: int
  pd_manager :: "participant_id option"
  pd_state :: 'a

record commit_record =
  cr_timeStamp :: int
  cr_writeParticipants :: "string list"

record tx_metadata =
  md_timeStamp :: int
  md_commitRecords :: "(string, commit_record) js_map"

record 'a stored_record =
  sr_committedState :: "'a option"
  sr_committedSequenceId :: int
  sr_metadata :: tx_metadata
  sr_pendingStates :: "'a pending_state list"

definition EMPTY_METADATA :: tx_metadata where
  "EMPTY_METADATA = \<lparr> md_timeStamp = 0, md_commitRecords = [] \<rparr>"

definition emptyRecord :: "'a stored_record" where
  "emptyRecord = \<lparr> sr_committedState = None, sr_committedSequenceId = 0, sr_metadata = EMPTY_METADATA,
                   sr_pendingStates = [] \<rparr>"

section \<open>One store call\<close>

text \<open>\<open>findIndex\<close> on the sequence id, then replace at that index or push.\<close>

fun stagePending :: "'a pending_state list \<Rightarrow> 'a pending_state \<Rightarrow> 'a pending_state list" where
  "stagePending [] p = [p]"
| "stagePending (q # qs) p = (if pd_sequenceId q = pd_sequenceId p then p # qs else q # stagePending qs p)"

definition seq_le :: "'a pending_state \<Rightarrow> 'a pending_state \<Rightarrow> bool" where
  "seq_le a b \<longleftrightarrow> pd_sequenceId a - pd_sequenceId b \<le> 0"

definition promoteOne :: "int \<Rightarrow> 'a stored_record \<Rightarrow> 'a pending_state \<Rightarrow> 'a stored_record" where
  "promoteOne upTo r p = (if pd_sequenceId p \<le> upTo
     then r\<lparr> sr_committedState := Some (pd_state p), sr_committedSequenceId := pd_sequenceId p \<rparr> else r)"

definition applyStore ::
  "'a stored_record \<Rightarrow> tx_metadata \<Rightarrow> 'a pending_state list \<Rightarrow> int option \<Rightarrow> int option \<Rightarrow> 'a stored_record" where
  "applyStore r metadata statesToPrepare commitUpTo abortAfter =
     (let r1 = r\<lparr> sr_pendingStates := js_sort seq_le (foldl stagePending (sr_pendingStates r) statesToPrepare) \<rparr>;
          r2 = (case commitUpTo of None \<Rightarrow> r1
                | Some n \<Rightarrow> (foldl (promoteOne n) r1 (sr_pendingStates r1))
                     \<lparr> sr_pendingStates := filter (\<lambda>p. pd_sequenceId p > n) (sr_pendingStates r1) \<rparr>);
          r3 = (case abortAfter of None \<Rightarrow> r2
                | Some n \<Rightarrow> r2\<lparr> sr_pendingStates := filter (\<lambda>p. pd_sequenceId p \<le> n) (sr_pendingStates r2) \<rparr>)
      in r3\<lparr> sr_metadata := metadata \<rparr>)"

section \<open>The in-memory provider\<close>

datatype tx_error =
    InconsistentStateError string "string option" "string option"
  | NoTransactionInScope
  | TransactionAlreadyResolvedError string
  | TransactionReadOnlyViolatedError string
  | TxLockError lock_error
  | CommitOperationFailed string
  | RouteFailed string

record 'a tx_entry =
  te_etag :: string
  te_record :: "'a stored_record"

record 'a tx_storage =
  st_entries :: "(string, 'a tx_entry) js_map"
  st_etagCounter :: nat

definition newTxStorage :: "'a tx_storage" where
  "newTxStorage = \<lparr> st_entries = [], st_etagCounter = 0 \<rparr>"

record 'a load_response =
  lr_etag :: "string option"
  lr_record :: "'a stored_record"

definition tx_load :: "'a tx_storage \<Rightarrow> participant_id \<Rightarrow> 'a load_response" where
  "tx_load s pid = (case js_get (st_entries s) (participantKey pid) of
       None \<Rightarrow> \<lparr> lr_etag = None, lr_record = emptyRecord \<rparr>
     | Some e \<Rightarrow> \<lparr> lr_etag = Some (te_etag e), lr_record = te_record e \<rparr>)"

definition tx_store ::
  "'a tx_storage \<Rightarrow> participant_id \<Rightarrow> string option \<Rightarrow> tx_metadata \<Rightarrow> 'a pending_state list
     \<Rightarrow> int option \<Rightarrow> int option \<Rightarrow> tx_error + ('a tx_storage \<times> string)" where
  "tx_store s pid expectedETag metadata statesToPrepare commitUpTo abortAfter =
     (let key = participantKey pid;
          entry = js_get (st_entries s) key;
          etag0 = map_option te_etag entry
      in if etag0 \<noteq> expectedETag
         then Inl (InconsistentStateError (''transactional store etag conflict for '' @ key) expectedETag etag0)
         else (let r = (case entry of None \<Rightarrow> emptyRecord | Some e \<Rightarrow> te_record e);
                   n = Suc (st_etagCounter s);
                   etag = show_nat n
               in Inr (\<lparr> st_entries = js_set key \<lparr> te_etag = etag,
                           te_record = applyStore r metadata statesToPrepare commitUpTo abortAfter \<rparr> (st_entries s),
                         st_etagCounter = n \<rparr>, etag)))"

section \<open>Laws of a store call\<close>

definition pendings_wf :: "'a pending_state list \<Rightarrow> bool" where
  "pendings_wf ps \<longleftrightarrow> sorted_wrt (\<lambda>a b. pd_sequenceId a < pd_sequenceId b) ps"

interpretation seq_order: js_order seq_le
  by unfold_locales (auto simp: seq_le_def)

lemma pendings_wf_filter [simp]: "pendings_wf ps \<Longrightarrow> pendings_wf (filter P ps)"
  by (simp add: pendings_wf_def sorted_wrt_filter)

lemma pendings_wf_distinct: "pendings_wf ps \<Longrightarrow> distinct (map pd_sequenceId ps)"
  unfolding pendings_wf_def by (induction ps) auto

lemma stagePending_set:
  "distinct (map pd_sequenceId ps) \<Longrightarrow>
     set (stagePending ps p) = insert p {q \<in> set ps. pd_sequenceId q \<noteq> pd_sequenceId p}"
proof (induction ps)
  case (Cons q qs)
  show ?case
  proof (cases "pd_sequenceId q = pd_sequenceId p")
    case True
    then have "\<forall>x \<in> set qs. pd_sequenceId x \<noteq> pd_sequenceId p"
      using Cons.prems by (metis distinct.simps(2) image_eqI list.simps(9) set_map)
    with True show ?thesis by auto
  next
    case False
    with Cons show ?thesis by auto
  qed
qed simp

lemma stagePending_ids: "pd_sequenceId ` set (stagePending ps p) = insert (pd_sequenceId p) (pd_sequenceId ` set ps)"
proof (induction ps)
  case (Cons q qs)
  then show ?case by (cases "pd_sequenceId q = pd_sequenceId p") (simp_all add: insert_commute)
qed simp

lemma stagePending_distinct: "distinct (map pd_sequenceId ps) \<Longrightarrow> distinct (map pd_sequenceId (stagePending ps p))"
proof (induction ps)
  case (Cons q qs)
  then show ?case using stagePending_ids [of qs p] by auto
qed simp

lemma stage_all_distinct:
  "distinct (map pd_sequenceId ps) \<Longrightarrow> distinct (map pd_sequenceId (foldl stagePending ps new))"
  by (induction new arbitrary: ps) (auto simp: stagePending_distinct)

lemma seq_le_strict:
  "distinct (map pd_sequenceId ps) \<Longrightarrow> sorted_wrt seq_le ps \<Longrightarrow> pendings_wf ps"
  unfolding pendings_wf_def by (induction ps) (auto simp: seq_le_def order_less_le)

lemma sorted_stage_wf: "distinct (map pd_sequenceId ps) \<Longrightarrow> pendings_wf (js_sort seq_le ps)"
  by (rule seq_le_strict) (simp_all add: distinct_map seq_order.sort_sorted)

lemma pendings_wf_sort_id [simp]: "pendings_wf ps \<Longrightarrow> js_sort seq_le ps = ps"
  by (rule seq_order.sort_id)
     (auto simp: pendings_wf_def seq_le_def elim!: sorted_wrt_mono_rel [rotated])

lemma promote_none: "\<forall>p \<in> set ps. n < pd_sequenceId p \<Longrightarrow> foldl (promoteOne n) r ps = r"
  by (induction ps arbitrary: r) (auto simp: promoteOne_def)

lemma promote_last:
  "p \<in> set ps \<Longrightarrow> pd_sequenceId p \<le> n \<Longrightarrow> pendings_wf ps
     \<Longrightarrow> \<forall>q \<in> set ps. pd_sequenceId q \<le> n \<longrightarrow> pd_sequenceId q \<le> pd_sequenceId p
     \<Longrightarrow> foldl (promoteOne n) r ps =
         r\<lparr> sr_committedState := Some (pd_state p), sr_committedSequenceId := pd_sequenceId p \<rparr>"
proof (induction ps arbitrary: r)
  case (Cons q qs)
  have wf: "pendings_wf qs" and above: "\<forall>x \<in> set qs. pd_sequenceId q < pd_sequenceId x"
    using Cons.prems(3) by (auto simp: pendings_wf_def)
  show ?case
  proof (cases "p = q")
    case True
    with above Cons.prems(2,4) have "\<forall>x \<in> set qs. n < pd_sequenceId x"
      by (metis leD linorder_not_le list.set_intros(2))
    with True Cons.prems(2) show ?thesis
      by (simp add: promote_none) (simp add: promoteOne_def)
  next
    case False
    then have "p \<in> set qs" using Cons.prems(1) by simp
    moreover have "foldl (promoteOne n) (promoteOne n r q) qs =
       (promoteOne n r q)\<lparr> sr_committedState := Some (pd_state p), sr_committedSequenceId := pd_sequenceId p \<rparr>"
      using Cons.IH [OF \<open>p \<in> set qs\<close> Cons.prems(2) wf] Cons.prems(4) by simp
    ultimately show ?thesis by simp (simp add: promoteOne_def)
  qed
qed simp

lemma promote_pendings [simp]: "sr_pendingStates (foldl (promoteOne n) r ps) = sr_pendingStates r"
  by (induction ps arbitrary: r) (auto simp: promoteOne_def)

lemma applyStore_wf:
  "pendings_wf (sr_pendingStates r) \<Longrightarrow> pendings_wf (sr_pendingStates (applyStore r md prep cu aa))"
  by (auto simp: applyStore_def Let_def pendings_wf_distinct stage_all_distinct sorted_stage_wf split: option.splits)

lemma applyStore_metadata [simp]: "sr_metadata (applyStore r md prep cu aa) = md"
  by (simp add: applyStore_def Let_def)

text \<open>The three kinds of call the resource makes: stage one record, promote up to an id, drop above an id.\<close>

lemma applyStore_prepare:
  assumes "pendings_wf (sr_pendingStates r)"
  shows "sr_committedState (applyStore r md [p] None None) = sr_committedState r"
    "sr_committedSequenceId (applyStore r md [p] None None) = sr_committedSequenceId r"
    "set (sr_pendingStates (applyStore r md [p] None None)) =
       insert p {q \<in> set (sr_pendingStates r). pd_sequenceId q \<noteq> pd_sequenceId p}"
  using assms by (auto simp: applyStore_def stagePending_set pendings_wf_distinct)

lemma applyStore_commit:
  assumes "pendings_wf (sr_pendingStates r)" "p \<in> set (sr_pendingStates r)" "pd_sequenceId p = n"
  shows "sr_committedState (applyStore r md [] (Some n) None) = Some (pd_state p)"
    "sr_committedSequenceId (applyStore r md [] (Some n) None) = n"
    "sr_pendingStates (applyStore r md [] (Some n) None) = filter (\<lambda>q. pd_sequenceId q > n) (sr_pendingStates r)"
  using assms promote_last [of p "sr_pendingStates r" n r] by (simp_all add: applyStore_def)

lemma applyStore_commit_absent:
  assumes "pendings_wf (sr_pendingStates r)" "\<forall>q \<in> set (sr_pendingStates r). n < pd_sequenceId q"
  shows "applyStore r md [] (Some n) None = r\<lparr> sr_metadata := md \<rparr>"
  using assms promote_none [of "sr_pendingStates r" n r] by (simp add: applyStore_def)

lemma applyStore_abort:
  assumes "pendings_wf (sr_pendingStates r)"
  shows "applyStore r md [] None (Some n) =
     r\<lparr> sr_pendingStates := filter (\<lambda>q. pd_sequenceId q \<le> n) (sr_pendingStates r), sr_metadata := md \<rparr>"
  using assms by (simp add: applyStore_def)

lemma applyStore_metadata_only:
  "pendings_wf (sr_pendingStates r) \<Longrightarrow> applyStore r md [] None None = r\<lparr> sr_metadata := md \<rparr>"
  by (simp add: applyStore_def)

section \<open>Properties of the provider\<close>

text \<open>Etags in the store were issued by the counter.\<close>

definition storage_wf :: "'a tx_storage \<Rightarrow> bool" where
  "storage_wf s \<longleftrightarrow> (\<forall>k e. js_get (st_entries s) k = Some e \<longrightarrow>
     (\<exists>n \<le> st_etagCounter s. te_etag e = show_nat n) \<and> pendings_wf (sr_pendingStates (te_record e)))"

lemma storage_wf_new: "storage_wf newTxStorage"
  by (simp add: storage_wf_def newTxStorage_def)

lemma storage_wf_store:
  assumes "storage_wf s" "tx_store s pid et md prep cu aa = Inr (s', et')"
  shows "storage_wf s'"
proof -
  have "pendings_wf (sr_pendingStates (case js_get (st_entries s) (participantKey pid) of
      None \<Rightarrow> emptyRecord | Some e \<Rightarrow> te_record e))"
    using assms(1) by (auto simp: storage_wf_def emptyRecord_def pendings_wf_def split: option.splits)
  then show ?thesis
    using assms by (fastforce simp: storage_wf_def tx_store_def Let_def js_get_set applyStore_wf
        intro: le_SucI split: if_splits)
qed

lemma load_record_wf: "storage_wf s \<Longrightarrow> pendings_wf (sr_pendingStates (lr_record (tx_load s pid)))"
  by (auto simp: storage_wf_def tx_load_def emptyRecord_def pendings_wf_def split: option.splits)

lemma tx_store_ok_iff:
  "(\<exists>s' et'. tx_store s pid et md prep cu aa = Inr (s', et')) \<longleftrightarrow> et = lr_etag (tx_load s pid)"
  by (auto simp: tx_store_def tx_load_def Let_def split: option.splits)

lemma tx_load_after_store:
  assumes "tx_store s pid et md prep cu aa = Inr (s', et')"
  shows "tx_load s' pid = \<lparr> lr_etag = Some et', lr_record = applyStore (lr_record (tx_load s pid)) md prep cu aa \<rparr>"
    "participantKey pid' \<noteq> participantKey pid \<Longrightarrow> tx_load s' pid' = tx_load s pid'"
  using assms by (auto simp: tx_store_def tx_load_def Let_def js_get_set split: if_splits option.splits)

lemma tx_store_etag_fresh:
  assumes "storage_wf s" "tx_store s pid et md prep cu aa = Inr (s', et')"
  shows "Some et' \<noteq> lr_etag (tx_load s pid')"
  using assms by (fastforce simp: tx_store_def tx_load_def storage_wf_def Let_def split: if_splits option.splits)

text \<open>Successful stores by anyone, to any state.\<close>

inductive tx_stores :: "'a tx_storage \<Rightarrow> 'a tx_storage \<Rightarrow> bool" where
  none: "tx_stores s s"
| more: "tx_stores s s' \<Longrightarrow> tx_store s' pid et md prep cu aa = Inr (s'', et') \<Longrightarrow> tx_stores s s''"

lemma tx_stores_wf: "tx_stores s s' \<Longrightarrow> storage_wf s \<Longrightarrow> storage_wf s'"
  by (induction rule: tx_stores.induct) (auto intro: storage_wf_store)

lemma tx_stores_etag_above:
  assumes "tx_stores s1 s2" "lr_etag (tx_load s1 pid) = Some (show_nat m)" "n < m" "n < st_etagCounter s1"
  shows "n < st_etagCounter s2 \<and> (\<exists>m > n. lr_etag (tx_load s2 pid) = Some (show_nat m))"
  using assms
proof (induction rule: tx_stores.induct)
  case none
  then show ?case by auto
next
  case (more s s' pid' et md prep cu aa s'' et')
  from more.hyps(2) have et': "et' = show_nat (st_etagCounter s'')" "st_etagCounter s'' = Suc (st_etagCounter s')"
    by (auto simp: tx_store_def Let_def split: if_splits)
  show ?case
  proof (cases "participantKey pid = participantKey pid'")
    case True
    then have "lr_etag (tx_load s'' pid) = Some et'"
      using tx_load_after_store(1) [OF more.hyps(2)] by (simp add: tx_load_def)
    then show ?thesis using more et' by auto
  next
    case False
    then show ?thesis
      using more et' tx_load_after_store(2) [OF more.hyps(2)] by auto
  qed
qed

text \<open>C31: Optimistic concurrency of the transactional store. Once somebody has stored a state, every
  later store of that state with the etag it was loaded with before fails with an inconsistent-state
  error, whatever else was stored in between: of two activations that loaded the same version at most one
  can write.\<close>

theorem tx_stale_writer_rejected:
  assumes "storage_wf s" "tx_store s pid et md prep cu aa = Inr (s1, et1)" "tx_stores s1 s2"
  shows "\<exists>msg actual. tx_store s2 pid (lr_etag (tx_load s pid)) md' prep' cu' aa' =
           Inl (InconsistentStateError msg (lr_etag (tx_load s pid)) actual)"
proof -
  let ?n = "st_etagCounter s"
  from assms(2) have "et1 = show_nat (Suc ?n)" "st_etagCounter s1 = Suc ?n"
    by (auto simp: tx_store_def Let_def split: if_splits)
  with tx_stores_etag_above [OF assms(3), of pid "Suc ?n" ?n] tx_load_after_store(1) [OF assms(2)]
  obtain m where m: "m > ?n" "lr_etag (tx_load s2 pid) = Some (show_nat m)" by auto
  have "lr_etag (tx_load s pid) \<noteq> Some (show_nat m)"
    using assms(1) m(1) by (fastforce simp: storage_wf_def tx_load_def split: option.splits)
  with m(2) show ?thesis
    by (auto simp: tx_store_def tx_load_def Let_def split: option.splits)
qed

definition demo_pid :: participant_id where
  "demo_pid = \<lparr> pi_grainId = GrainId ''acct'' (KString ''k''), pi_stateName = ''balance'' \<rparr>"

definition demo_store1 :: "int tx_storage" where
  "demo_store1 = \<lparr> st_entries = [(participantKey demo_pid, \<lparr> te_etag = show_nat 1, te_record = applyStore emptyRecord EMPTY_METADATA [] None None \<rparr>)],
     st_etagCounter = 1 \<rparr>"

theorem tx_stale_writer_rejected_witness:
  "\<exists>msg actual. tx_store demo_store1 demo_pid None EMPTY_METADATA [] None None =
     Inl (InconsistentStateError msg None actual)"
  using tx_stale_writer_rejected [OF storage_wf_new, of demo_pid None EMPTY_METADATA "[]" None None
      demo_store1 "show_nat 1" demo_store1 EMPTY_METADATA "[]" None None]
  by (simp add: tx_stores.none tx_store_def newTxStorage_def tx_load_def demo_store1_def)

text \<open>One store call, exactly. On a record whose pending list is sorted by unique ids, staging a record
  replaces only the record with the same id; promoting an id that is staged makes that record's state the
  committed one and keeps exactly the records above it; dropping above an id keeps exactly the rest; and
  neither staging nor dropping touches the committed version.\<close>

theorem applyStore_exact:
  assumes "pendings_wf (sr_pendingStates r)"
  shows "sr_committedState (applyStore r md [p] None None) = sr_committedState r
      \<and> set (sr_pendingStates (applyStore r md [p] None None)) =
          insert p {q \<in> set (sr_pendingStates r). pd_sequenceId q \<noteq> pd_sequenceId p}
      \<and> (q \<in> set (sr_pendingStates r) \<longrightarrow>
          (let r' = applyStore r md [] (Some (pd_sequenceId q)) None in
             sr_committedState r' = Some (pd_state q) \<and> sr_committedSequenceId r' = pd_sequenceId q
             \<and> sr_pendingStates r' = filter (\<lambda>x. pd_sequenceId x > pd_sequenceId q) (sr_pendingStates r)))
      \<and> (let r' = applyStore r md [] None (Some n) in
             sr_committedState r' = sr_committedState r
             \<and> sr_pendingStates r' = filter (\<lambda>x. pd_sequenceId x \<le> n) (sr_pendingStates r))"
  using assms by (simp add: applyStore_prepare applyStore_commit applyStore_abort Let_def)

definition demo_pending :: "int \<Rightarrow> int pending_state" where
  "demo_pending n = \<lparr> pd_sequenceId = n, pd_transactionId = ''t'', pd_timeStamp = n, pd_manager = None, pd_state = 10 * n \<rparr>"

theorem applyStore_exact_witness:
  "sr_committedState (applyStore (emptyRecord\<lparr> sr_pendingStates := [demo_pending 1, demo_pending 2] \<rparr>)
      EMPTY_METADATA [] (Some 2) None) = Some 20"
  using applyStore_exact [of "emptyRecord\<lparr> sr_pendingStates := [demo_pending 1, demo_pending 2] \<rparr>"
      EMPTY_METADATA "demo_pending 3" "demo_pending 2" 0]
  by (simp add: pendings_wf_def demo_pending_def Let_def)

end
