(* ===== verification/Transactional_State.thy ===== *)
theory Transactional_State
  imports Transactional_Storage
begin

text \<open>
  One transactional state of a grain (\<^verbatim>\<open>transactions/src/transactional-state-impl.ts\<close>) over the in-memory
  provider: activation load and recovery, the read and update paths under the wait-die lock, the
  participant's half of two-phase commit, and the confirmation worker that retries in-doubt records.
  The ambient transaction (\<^verbatim>\<open>core/src/transaction-info.ts\<close>) is a record passed in and returned.

  An operation that awaits the lock either continues at once or is suspended under the ticket of the lock;
  \<open>performRead_granted\<close> and \<open>performUpdate_granted\<close> are the continuations run when the ticket resolves.
  A thrown error is a value beside the state the code leaves behind. The status query to another silo
  (\<open>resolveStatus\<close>) is an argument; its \<open>None\<close> is an unreachable manager. Callbacks of \<open>performUpdate\<close>
  mutate the draft in place, so they are functions from the draft to the new draft and a result.

  Each operation is one atomic step, from its call to its result. In the code every \<open>storeState\<close> is awaited, and a
  confirmation pass may overlap a prepare, commit or abort of the same activation: two stores then carry one etag and
  the later one fails. Those overlaps are not modelled, and no claim says that an operation cannot conflict.
\<close>

section \<open>The ambient transaction\<close>

datatype participant_object = StateParticipant | CommitterParticipant

definition isTransactionManager :: "participant_object \<Rightarrow> bool" where
  "isTransactionManager p = (case p of StateParticipant \<Rightarrow> True | CommitterParticipant \<Rightarrow> False)"

record access_counter =
  ac_reads :: nat
  ac_writes :: nat

record enlisted_participant =
  en_id :: participant_id
  en_local :: "participant_object option"
  en_access :: access_counter

datatype transaction_status = StActive | StResolving | StCommitted | StAborted

record transaction_info =
  ti_id :: string
  ti_timeStamp :: int
  ti_readOnly :: bool
  ti_participants :: "(string, enlisted_participant) js_map"
  ti_status :: "transaction_status option"
  ti_pendingCalls :: int

definition isResolved :: "transaction_info \<Rightarrow> bool" where
  "isResolved info \<longleftrightarrow> ti_status info \<noteq> None \<and> ti_status info \<noteq> Some StActive"

definition forkTransaction :: "transaction_info \<Rightarrow> transaction_info" where
  "forkTransaction info = info\<lparr> ti_pendingCalls := ti_pendingCalls info + 1 \<rparr>"

definition requireTransaction :: "transaction_info option \<Rightarrow> tx_error + transaction_info" where
  "requireTransaction current = (case current of
      None \<Rightarrow> Inl NoTransactionInScope
    | Some tx \<Rightarrow> if isResolved tx then Inl (TransactionAlreadyResolvedError (ti_id tx)) else Inr tx)"

definition enlist ::
  "participant_id \<Rightarrow> participant_object \<Rightarrow> nat \<Rightarrow> nat \<Rightarrow> transaction_info \<Rightarrow> transaction_info" where
  "enlist pid obj reads writes tx = tx\<lparr> ti_participants :=
     (case js_get (ti_participants tx) (participantKey pid) of
        None \<Rightarrow> js_set (participantKey pid) \<lparr> en_id = pid, en_local = Some obj,
                  en_access = \<lparr> ac_reads = reads, ac_writes = writes \<rparr> \<rparr> (ti_participants tx)
      | Some e \<Rightarrow> js_set (participantKey pid)
                  (e\<lparr> en_access := \<lparr> ac_reads = ac_reads (en_access e) + reads,
                                      ac_writes = ac_writes (en_access e) + writes \<rparr> \<rparr>) (ti_participants tx)) \<rparr>"

section \<open>State of the resource\<close>

record 'a tentative =
  tn_transactionId :: string
  tn_value :: 'a
  tn_sequenceId :: int
  tn_timeStamp :: int
  tn_prepared :: bool

record transactions_options =
  op_lockTimeoutMs :: int
  op_confirmationIntervalMs :: int
  op_confirmationMaxIntervalMs :: int

definition defaultTransactionsOptions :: transactions_options where
  "defaultTransactionsOptions = \<lparr> op_lockTimeoutMs = 30000, op_confirmationIntervalMs = 1000,
      op_confirmationMaxIntervalMs = 60000 \<rparr>"

record 'a tx_state =
  ts_pid :: participant_id
  ts_options :: transactions_options
  ts_initial :: 'a
  ts_lock :: rw_lock
  ts_committed :: 'a
  ts_committedSequenceId :: int
  ts_highWater :: int
  ts_etag :: "string option"
  ts_metadata :: tx_metadata
  ts_tentative :: "'a tentative option"
  ts_inDoubt :: "(string, 'a pending_state) js_map"
  ts_confirmationTimer :: "int option"
  ts_confirmationDelayMs :: int

type_synonym 'a tx_world = "'a tx_storage \<times> 'a tx_state"
type_synonym resolve_status = "participant_id \<Rightarrow> string \<Rightarrow> bool option"

definition newTransactionalState :: "participant_id \<Rightarrow> 'a \<Rightarrow> transactions_options \<Rightarrow> 'a tx_state" where
  "newTransactionalState pid initial opts = \<lparr> ts_pid = pid, ts_options = opts, ts_initial = initial,
     ts_lock = newLock, ts_committed = initial, ts_committedSequenceId = 0, ts_highWater = 0, ts_etag = None,
     ts_metadata = EMPTY_METADATA, ts_tentative = None, ts_inDoubt = [], ts_confirmationTimer = None,
     ts_confirmationDelayMs = 0 \<rparr>"

definition storeState ::
  "'a tx_world \<Rightarrow> 'a pending_state list \<Rightarrow> int option \<Rightarrow> int option \<Rightarrow> tx_metadata \<Rightarrow> tx_error + 'a tx_world" where
  "storeState w statesToPrepare commitUpTo abortAfter metadata =
     (case tx_store (fst w) (ts_pid (snd w)) (ts_etag (snd w)) metadata statesToPrepare commitUpTo abortAfter of
        Inl e \<Rightarrow> Inl e
      | Inr (s', etag) \<Rightarrow> Inr (s', (snd w)\<lparr> ts_etag := Some etag \<rparr>))"

definition nextSequenceId :: "'a tx_state \<Rightarrow> int" where
  "nextSequenceId ts = max (ts_committedSequenceId ts) (ts_highWater ts) + 1"

definition status :: "'a tx_state \<Rightarrow> string \<Rightarrow> bool" where
  "status ts transactionId \<longleftrightarrow> js_has (md_commitRecords (ts_metadata ts)) transactionId"

section \<open>Recovery\<close>

definition isSelfManager :: "'a tx_state \<Rightarrow> participant_id option \<Rightarrow> bool" where
  "isSelfManager ts manager = (case manager of None \<Rightarrow> False
     | Some m \<Rightarrow> grain_id_equals (pi_grainId m) (pi_grainId (ts_pid ts)) \<and> pi_stateName m = pi_stateName (ts_pid ts))"

text \<open>The verdict on one record: \<open>None\<close> when its manager cannot be reached.\<close>

definition resolveVerdict :: "resolve_status \<Rightarrow> 'a tx_state \<Rightarrow> 'a pending_state \<Rightarrow> bool option" where
  "resolveVerdict resolveStatus ts pending =
     (let isSelf = isSelfManager ts (pd_manager pending) in
      case pd_manager pending of
        Some m \<Rightarrow> if \<not> isSelf then resolveStatus m (pd_transactionId pending)
                  else Some (status ts (pd_transactionId pending))
      | None \<Rightarrow> Some False)"

definition forget :: "'a pending_state \<Rightarrow> 'a tx_state \<Rightarrow> 'a tx_state" where
  "forget pending ts = ts\<lparr> ts_inDoubt := js_delete (pd_transactionId pending) (ts_inDoubt ts) \<rparr>"

definition resolveOne ::
  "resolve_status \<Rightarrow> 'a tx_world \<Rightarrow> 'a pending_state \<Rightarrow> 'a tx_world \<times> (tx_error + bool)" where
  "resolveOne resolveStatus w pending =
     (let ts = snd w in
      case resolveVerdict resolveStatus ts pending of
        None \<Rightarrow> ((fst w, ts\<lparr> ts_inDoubt := js_set (pd_transactionId pending) pending (ts_inDoubt ts) \<rparr>), Inr False)
      | Some True \<Rightarrow>
          if pd_sequenceId pending > ts_committedSequenceId ts then
            (case storeState w [] (Some (pd_sequenceId pending)) None (ts_metadata ts) of
               Inl e \<Rightarrow> (w, Inl e)
             | Inr (s', ts') \<Rightarrow>
                 ((s', forget pending (ts'\<lparr> ts_committed := pd_state pending,
                                           ts_committedSequenceId := pd_sequenceId pending \<rparr>)), Inr True))
          else ((fst w, forget pending ts), Inr True)
      | Some False \<Rightarrow>
          (case storeState w [] None (Some (pd_sequenceId pending - 1)) (ts_metadata ts) of
             Inl e \<Rightarrow> (w, Inl e)
           | Inr (s', ts') \<Rightarrow> ((s', forget pending ts'), Inr True)))"

fun resolveEach ::
  "resolve_status \<Rightarrow> 'a tx_world \<Rightarrow> 'a pending_state list \<Rightarrow> 'a tx_world \<times> (tx_error + unit)" where
  "resolveEach rs w [] = (w, Inr ())"
| "resolveEach rs w (p # ps) =
     (case resolveOne rs w p of (w', Inl e) \<Rightarrow> (w', Inl e) | (w', Inr _) \<Rightarrow> resolveEach rs w' ps)"

definition scheduleConfirmationWorker :: "'a tx_state \<Rightarrow> 'a tx_state" where
  "scheduleConfirmationWorker ts =
     (if ts_confirmationTimer ts \<noteq> None then ts
      else (let delay = min (op_confirmationMaxIntervalMs (ts_options ts))
                  (if ts_confirmationDelayMs ts = 0 then op_confirmationIntervalMs (ts_options ts)
                   else ts_confirmationDelayMs ts * 2)
            in ts\<lparr> ts_confirmationDelayMs := delay, ts_confirmationTimer := Some delay \<rparr>))"

definition recover ::
  "resolve_status option \<Rightarrow> 'a tx_world \<Rightarrow> 'a pending_state list \<Rightarrow> 'a tx_world \<times> (tx_error + unit)" where
  "recover resolveStatus w pendingStates =
     (case resolveStatus of None \<Rightarrow> (w, Inr ())
      | Some rs \<Rightarrow> (case resolveEach rs w pendingStates of
           (w', Inl e) \<Rightarrow> (w', Inl e)
         | (w', Inr _) \<Rightarrow>
             if 0 < length (ts_inDoubt (snd w')) then ((fst w', scheduleConfirmationWorker (snd w')), Inr ())
             else (w', Inr ())))"

text \<open>The timer callback together with \<open>runConfirmationPass\<close>; errors of the pass are swallowed.\<close>

definition runConfirmationPass :: "resolve_status \<Rightarrow> 'a tx_world \<Rightarrow> 'a tx_world" where
  "runConfirmationPass rs w0 =
     (let w = (fst w0, (snd w0)\<lparr> ts_confirmationTimer := None \<rparr>);
          w' = fst (resolveEach rs w (js_values (ts_inDoubt (snd w))))
      in if 0 < length (ts_inDoubt (snd w')) then (fst w', scheduleConfirmationWorker (snd w'))
         else (fst w', (snd w')\<lparr> ts_confirmationDelayMs := 0 \<rparr>))"

definition ts_load ::
  "resolve_status option \<Rightarrow> 'a tx_storage \<Rightarrow> 'a tx_state \<Rightarrow> 'a tx_world \<times> (tx_error + unit)" where
  "ts_load resolveStatus s ts =
     (let response = tx_load s (ts_pid ts); r = lr_record response;
          ts1 = ts\<lparr> ts_etag := lr_etag response, ts_committedSequenceId := sr_committedSequenceId r,
                    ts_metadata := sr_metadata r,
                    ts_highWater := foldl (\<lambda>hw p. max hw (pd_sequenceId p)) (ts_highWater ts) (sr_pendingStates r),
                    ts_committed := (if sr_committedSequenceId r = 0 then ts_initial ts
                                     else (case sr_committedState r of Some v \<Rightarrow> v | None \<Rightarrow> ts_initial ts)) \<rparr>
      in if 0 < length (sr_pendingStates r) then recover resolveStatus (s, ts1) (sr_pendingStates r)
         else ((s, ts1), Inr ()))"

definition ts_unload :: "'a tx_state \<Rightarrow> 'a tx_state" where
  "ts_unload ts = ts\<lparr> ts_confirmationTimer := None, ts_confirmationDelayMs := 0 \<rparr>"

section \<open>Reads and updates\<close>

datatype 'r call_result = Returned 'r | Threw tx_error | Suspended nat

definition ts_view :: "'a tx_state \<Rightarrow> string \<Rightarrow> 'a" where
  "ts_view ts txId = (case ts_tentative ts of
     Some tn \<Rightarrow> if tn_transactionId tn = txId then tn_value tn else ts_committed ts
   | None \<Rightarrow> ts_committed ts)"

definition performRead_granted ::
  "'a tx_state \<Rightarrow> transaction_info \<Rightarrow> ('a \<Rightarrow> 'r) \<Rightarrow> transaction_info \<times> 'r" where
  "performRead_granted ts tx read = (enlist (ts_pid ts) StateParticipant 1 0 tx, read (ts_view ts (ti_id tx)))"

definition performRead ::
  "'a tx_state \<Rightarrow> transaction_info option \<Rightarrow> bool \<Rightarrow> ('a \<Rightarrow> 'r)
     \<Rightarrow> 'a tx_state \<times> transaction_info option \<times> 'r call_result" where
  "performRead ts current useExclusive read =
     (case requireTransaction current of
        Inl e \<Rightarrow> (ts, current, Threw e)
      | Inr tx \<Rightarrow>
          (case enter (ts_lock ts) (ti_id tx) (ti_timeStamp tx) (if useExclusive then WriteMode else ReadMode)
                  (Some (op_lockTimeoutMs (ts_options ts))) of
             (l, Rejected e) \<Rightarrow> (ts\<lparr> ts_lock := l \<rparr>, current, Threw (TxLockError e))
           | (l, Waiting k) \<Rightarrow> (ts\<lparr> ts_lock := l \<rparr>, current, Suspended k)
           | (l, Granted) \<Rightarrow> (let ts' = ts\<lparr> ts_lock := l \<rparr>; (tx', r) = performRead_granted ts' tx read
                              in (ts', Some tx', Returned r))))"

definition performUpdate_granted ::
  "'a tx_state \<Rightarrow> transaction_info \<Rightarrow> ('a \<Rightarrow> 'a \<times> 'r) \<Rightarrow> 'a tx_state \<times> transaction_info \<times> 'r" where
  "performUpdate_granted ts tx update =
     (let tx' = enlist (ts_pid ts) StateParticipant 0 1 tx;
          fresh = (let sequenceId = nextSequenceId ts in
                   (ts\<lparr> ts_highWater := sequenceId \<rparr>,
                    \<lparr> tn_transactionId = ti_id tx, tn_value = ts_committed ts, tn_sequenceId = sequenceId,
                       tn_timeStamp = ti_timeStamp tx, tn_prepared = False \<rparr>));
          (ts1, draft) = (case ts_tentative ts of
              Some tn \<Rightarrow> if tn_transactionId tn = ti_id tx then (ts, tn) else fresh
            | None \<Rightarrow> fresh);
          (v, r) = update (tn_value draft)
      in (ts1\<lparr> ts_tentative := Some (draft\<lparr> tn_value := v \<rparr>) \<rparr>, tx', r))"

definition performUpdate ::
  "'a tx_state \<Rightarrow> transaction_info option \<Rightarrow> ('a \<Rightarrow> 'a \<times> 'r)
     \<Rightarrow> 'a tx_state \<times> transaction_info option \<times> 'r call_result" where
  "performUpdate ts current update =
     (case requireTransaction current of
        Inl e \<Rightarrow> (ts, current, Threw e)
      | Inr tx \<Rightarrow>
          if ti_readOnly tx then (ts, current, Threw (TransactionReadOnlyViolatedError (ti_id tx)))
          else (case enter (ts_lock ts) (ti_id tx) (ti_timeStamp tx) WriteMode
                       (Some (op_lockTimeoutMs (ts_options ts))) of
             (l, Rejected e) \<Rightarrow> (ts\<lparr> ts_lock := l \<rparr>, current, Threw (TxLockError e))
           | (l, Waiting k) \<Rightarrow> (ts\<lparr> ts_lock := l \<rparr>, current, Suspended k)
           | (l, Granted) \<Rightarrow> (let (ts', tx', r) = performUpdate_granted (ts\<lparr> ts_lock := l \<rparr>) tx update
                              in (ts', Some tx', Returned r))))"

section \<open>The participant's half of two-phase commit\<close>

definition pendingOf :: "string \<Rightarrow> int \<Rightarrow> participant_id \<Rightarrow> 'a tentative \<Rightarrow> 'a pending_state" where
  "pendingOf transactionId timeStamp manager tn = \<lparr> pd_sequenceId = tn_sequenceId tn, pd_transactionId = transactionId,
     pd_timeStamp = timeStamp, pd_manager = Some manager, pd_state = tn_value tn \<rparr>"

definition ts_prepare ::
  "'a tx_world \<Rightarrow> string \<Rightarrow> int \<Rightarrow> participant_id \<Rightarrow> 'a tx_world \<times> (tx_error + bool)" where
  "ts_prepare w transactionId timeStamp manager =
     (case ts_tentative (snd w) of
        None \<Rightarrow> (w, Inr True)
      | Some tn \<Rightarrow>
          if tn_transactionId tn \<noteq> transactionId then (w, Inr True)
          else (case storeState w [pendingOf transactionId timeStamp manager tn] None None (ts_metadata (snd w)) of
                  Inl e \<Rightarrow> (w, Inl e)
                | Inr (s', ts') \<Rightarrow> ((s', ts'\<lparr> ts_tentative := Some (tn\<lparr> tn_prepared := True \<rparr>) \<rparr>), Inr True)))"

definition ts_recordCommit ::
  "'a tx_world \<Rightarrow> string \<Rightarrow> int \<Rightarrow> participant_id list \<Rightarrow> 'a tx_world \<times> (tx_error + unit)" where
  "ts_recordCommit w transactionId timeStamp writeParticipants =
     (let md = ts_metadata (snd w);
          metadata = \<lparr> md_timeStamp = max (md_timeStamp md) timeStamp,
             md_commitRecords = js_set transactionId \<lparr> cr_timeStamp = timeStamp,
                cr_writeParticipants = map participantKey writeParticipants \<rparr> (md_commitRecords md) \<rparr>
      in case storeState w [] None None metadata of
           Inl e \<Rightarrow> (w, Inl e)
         | Inr (s', ts') \<Rightarrow> ((s', ts'\<lparr> ts_metadata := metadata \<rparr>), Inr ()))"

definition releaseLock :: "string \<Rightarrow> 'a tx_world \<Rightarrow> 'a tx_world \<times> settlement list" where
  "releaseLock transactionId w = (let (l, evs) = release (ts_lock (snd w)) transactionId
     in ((fst w, (snd w)\<lparr> ts_lock := l \<rparr>), evs))"

definition ts_commit :: "'a tx_world \<Rightarrow> string \<Rightarrow> 'a tx_world \<times> settlement list \<times> (tx_error + unit)" where
  "ts_commit w transactionId =
     (let (w', r) = (case ts_tentative (snd w) of
            None \<Rightarrow> (w, Inr ())
          | Some tn \<Rightarrow>
              if tn_transactionId tn \<noteq> transactionId then (w, Inr ())
              else (case storeState w [] (Some (tn_sequenceId tn)) None (ts_metadata (snd w)) of
                      Inl e \<Rightarrow> (w, Inl e)
                    | Inr (s', ts') \<Rightarrow>
                        ((s', ts'\<lparr> ts_committed := tn_value tn, ts_committedSequenceId := tn_sequenceId tn,
                                   ts_tentative := None \<rparr>), Inr ())));
          (w'', evs) = releaseLock transactionId w'
      in (w'', evs, r))"

definition ts_abort :: "'a tx_world \<Rightarrow> string \<Rightarrow> 'a tx_world \<times> settlement list \<times> (tx_error + unit)" where
  "ts_abort w transactionId =
     (let (w', r) = (case ts_tentative (snd w) of
            None \<Rightarrow> (w, Inr ())
          | Some tn \<Rightarrow>
              if tn_transactionId tn \<noteq> transactionId then (w, Inr ())
              else if tn_prepared tn then
                (case storeState w [] None (Some (tn_sequenceId tn - 1)) (ts_metadata (snd w)) of
                   Inl e \<Rightarrow> (w, Inl e)
                 | Inr (s', ts') \<Rightarrow> ((s', ts'\<lparr> ts_tentative := None \<rparr>), Inr ()))
              else ((fst w, (snd w)\<lparr> ts_tentative := None \<rparr>), Inr ()));
          (w'', evs) = releaseLock transactionId w'
      in (w'', evs, r))"

section \<open>Invariant of a live activation\<close>

definition durable :: "'a tx_world \<Rightarrow> 'a stored_record" where
  "durable w = lr_record (tx_load (fst w) (ts_pid (snd w)))"

definition ts_sync :: "'a tx_world \<Rightarrow> bool" where
  "ts_sync w \<longleftrightarrow> storage_wf (fst w) \<and> ts_etag (snd w) = lr_etag (tx_load (fst w) (ts_pid (snd w)))"

text \<open>Ids: durable pending records lie above the durable committed version and at or below the high-water
  mark; the draft owns the mark; in-doubt records lie below the draft.\<close>

definition doubtful :: "'a tx_state \<Rightarrow> 'a pending_state set" where
  "doubtful ts = set (js_values (ts_inDoubt ts))"

definition ids_ok :: "'a stored_record \<Rightarrow> 'a tx_state \<Rightarrow> bool" where
  "ids_ok r ts \<longleftrightarrow> (\<forall>p \<in> set (sr_pendingStates r). sr_committedSequenceId r < pd_sequenceId p
        \<and> pd_sequenceId p \<le> ts_highWater ts)
     \<and> (\<forall>tn. ts_tentative ts = Some tn \<longrightarrow> tn_sequenceId tn = ts_highWater ts \<and> ts_committedSequenceId ts < tn_sequenceId tn
            \<and> (\<forall>p \<in> doubtful ts. pd_sequenceId p < tn_sequenceId tn))
     \<and> (\<forall>p \<in> doubtful ts. pd_sequenceId p \<le> ts_highWater ts)
     \<and> 0 \<le> sr_committedSequenceId r \<and> sr_committedSequenceId r \<le> ts_committedSequenceId ts"

definition ts_inv :: "'a tx_world \<Rightarrow> bool" where
  "ts_inv w \<longleftrightarrow> ts_sync w \<and> ts_metadata (snd w) = sr_metadata (durable w)
     \<and> ids_ok (durable w) (snd w)"

text \<open>The committed version in memory is the durable one.\<close>

definition loadedValue :: "'a \<Rightarrow> 'a stored_record \<Rightarrow> 'a" where
  "loadedValue initial r = (if sr_committedSequenceId r = 0 then initial
     else (case sr_committedState r of Some v \<Rightarrow> v | None \<Rightarrow> initial))"

definition ts_agree :: "'a tx_world \<Rightarrow> bool" where
  "ts_agree w \<longleftrightarrow> ts_committedSequenceId (snd w) = sr_committedSequenceId (durable w)
     \<and> ts_committed (snd w) = loadedValue (ts_initial (snd w)) (durable w)"

lemma durable_wf: "ts_sync w \<Longrightarrow> pendings_wf (sr_pendingStates (durable w))"
  by (simp add: ts_sync_def durable_def load_record_wf)

lemma storeState_ok:
  assumes "ts_sync w"
  obtains s' et where "storeState w prep cu aa md = Inr (s', (snd w)\<lparr> ts_etag := Some et \<rparr>)" "storage_wf s'"
    "tx_load s' (ts_pid (snd w)) = \<lparr> lr_etag = Some et, lr_record = applyStore (durable w) md prep cu aa \<rparr>"
proof -
  let ?st = "tx_store (fst w) (ts_pid (snd w)) (ts_etag (snd w)) md prep cu aa"
  obtain s' et where st: "?st = Inr (s', et)"
    using assms tx_store_ok_iff [of "fst w" "ts_pid (snd w)" "ts_etag (snd w)" md prep cu aa]
    by (auto simp: ts_sync_def)
  moreover have "storage_wf s'"
    using assms storage_wf_store [OF _ st] by (simp add: ts_sync_def)
  ultimately show thesis
    using that tx_load_after_store(1) [OF st] by (simp add: storeState_def durable_def)
qed

lemma foldl_max_ge: "(hw :: int) \<le> foldl (\<lambda>h p. max h (f p)) hw ps \<and> (\<forall>p \<in> set ps. f p \<le> foldl (\<lambda>h p. max h (f p)) hw ps)"
proof (induction ps arbitrary: hw)
  case (Cons p ps)
  from Cons [of "max hw (f p)"] show ?case by auto
qed simp

lemma applyStore_seq_mono:
  assumes "pendings_wf (sr_pendingStates r)" "\<forall>p \<in> set (sr_pendingStates r). sr_committedSequenceId r < pd_sequenceId p"
  shows "sr_committedSequenceId r \<le> sr_committedSequenceId (applyStore r md [] (Some n) None)
    \<and> (sr_committedSequenceId (applyStore r md [] (Some n) None) \<le> max n (sr_committedSequenceId r))
    \<and> sr_pendingStates (applyStore r md [] (Some n) None) = filter (\<lambda>q. pd_sequenceId q > n) (sr_pendingStates r)"
proof -
  have "sr_committedSequenceId x \<le> sr_committedSequenceId (foldl (promoteOne n) x ps) \<and>
        sr_committedSequenceId (foldl (promoteOne n) x ps) \<le> max n (sr_committedSequenceId x)"
    if "pendings_wf ps" "\<forall>p \<in> set ps. sr_committedSequenceId x < pd_sequenceId p"
    for ps and x :: "'a stored_record"
    using that
  proof (induction ps arbitrary: x)
    case (Cons p ps)
    have "sr_committedSequenceId (promoteOne n x p) \<le> max n (sr_committedSequenceId x)"
      "sr_committedSequenceId x \<le> sr_committedSequenceId (promoteOne n x p)"
      "\<forall>q \<in> set ps. sr_committedSequenceId (promoteOne n x p) < pd_sequenceId q"
      using Cons.prems by (auto simp: promoteOne_def pendings_wf_def)
    with Cons.IH [of "promoteOne n x p"] Cons.prems show ?case
      by (auto simp: pendings_wf_def)
  qed simp
  from this [of "sr_pendingStates r" r] assms show ?thesis
    by (simp add: applyStore_def)
qed

lemma ts_invI:
  assumes "tx_load s' (ts_pid ts') = \<lparr> lr_etag = ts_etag ts', lr_record = r \<rparr>" "storage_wf s'"
    "ts_metadata ts' = sr_metadata r" "ids_ok r ts'"
  shows "ts_inv (s', ts')"
  using assms by (simp add: ts_inv_def ts_sync_def durable_def)

lemma doubtful_forget: "doubtful (forget p ts) \<subseteq> doubtful ts"
  using js_values_delete [of "pd_transactionId p" "ts_inDoubt ts"] by (simp add: doubtful_def forget_def)

lemma doubtful_set: "doubtful (ts\<lparr> ts_inDoubt := js_set k p (ts_inDoubt ts) \<rparr>) \<subseteq> insert p (doubtful ts)"
  using js_values_set [of k p "ts_inDoubt ts"] by (simp add: doubtful_def)

lemma doubtful_other [simp]:
  "doubtful (ts\<lparr> ts_etag := e \<rparr>) = doubtful ts" "doubtful (ts\<lparr> ts_committed := v \<rparr>) = doubtful ts"
  "doubtful (ts\<lparr> ts_committedSequenceId := n \<rparr>) = doubtful ts" "doubtful (ts\<lparr> ts_tentative := t \<rparr>) = doubtful ts"
  "doubtful (ts\<lparr> ts_highWater := n \<rparr>) = doubtful ts" "doubtful (ts\<lparr> ts_metadata := m \<rparr>) = doubtful ts"
  "doubtful (ts\<lparr> ts_lock := l \<rparr>) = doubtful ts" "doubtful (ts\<lparr> ts_confirmationTimer := c \<rparr>) = doubtful ts"
  "doubtful (ts\<lparr> ts_confirmationDelayMs := d \<rparr>) = doubtful ts"
  by (simp_all add: doubtful_def)

lemma forget_fields [simp]:
  "ts_pid (forget p ts) = ts_pid ts" "ts_etag (forget p ts) = ts_etag ts"
  "ts_metadata (forget p ts) = ts_metadata ts" "ts_tentative (forget p ts) = ts_tentative ts"
  "ts_highWater (forget p ts) = ts_highWater ts" "ts_committed (forget p ts) = ts_committed ts"
  "ts_committedSequenceId (forget p ts) = ts_committedSequenceId ts" "ts_initial (forget p ts) = ts_initial ts"
  "ts_options (forget p ts) = ts_options ts" "ts_confirmationTimer (forget p ts) = ts_confirmationTimer ts"
  "ts_confirmationDelayMs (forget p ts) = ts_confirmationDelayMs ts"
  by (simp_all add: forget_def)

lemma ids_ok_forget: "ids_ok r ts \<Longrightarrow> ids_ok r (forget p ts)"
  using doubtful_forget [of p ts] unfolding ids_ok_def forget_fields by blast

lemma ids_ok_etag [simp]: "ids_ok r (ts\<lparr> ts_etag := e \<rparr>) = ids_ok r ts"
  by (simp add: ids_ok_def)

lemma ids_ok_doubt:
  assumes "ids_ok r ts" "pd_sequenceId p \<le> ts_highWater ts"
    "\<forall>tn. ts_tentative ts = Some tn \<longrightarrow> pd_sequenceId p < tn_sequenceId tn"
  shows "ids_ok r (ts\<lparr> ts_inDoubt := js_set k p (ts_inDoubt ts) \<rparr>)"
proof -
  have "\<forall>q \<in> doubtful (ts\<lparr> ts_inDoubt := js_set k p (ts_inDoubt ts) \<rparr>). q = p \<or> q \<in> doubtful ts"
    using doubtful_set [of k p ts] by blast
  with assms show ?thesis by (fastforce simp: ids_ok_def)
qed

lemma ids_ok_promote:
  assumes "ids_ok r ts" "pendings_wf (sr_pendingStates r)" "ts_committedSequenceId ts < n"
    "\<forall>tn. ts_tentative ts = Some tn \<longrightarrow> n < tn_sequenceId tn"
  shows "ids_ok (applyStore r md [] (Some n) None) (ts\<lparr> ts_committed := v, ts_committedSequenceId := n \<rparr>)"
  using assms applyStore_seq_mono [of r md n] unfolding ids_ok_def by auto

lemma ids_ok_drop:
  "ids_ok r ts \<Longrightarrow> pendings_wf (sr_pendingStates r) \<Longrightarrow> ids_ok (applyStore r md [] None (Some n)) ts"
  unfolding ids_ok_def by (auto simp: applyStore_abort)

text \<open>Recovery of one record keeps the invariant and never fails under it.\<close>

lemma resolveOne_inv:
  assumes inv: "ts_inv w" and low: "pd_sequenceId p \<le> ts_highWater (snd w)"
    and below: "\<forall>tn. ts_tentative (snd w) = Some tn \<longrightarrow> pd_sequenceId p < tn_sequenceId tn"
  shows "\<exists>w' b. resolveOne rs w p = (w', Inr b) \<and> ts_inv w' \<and> ts_tentative (snd w') = ts_tentative (snd w)
    \<and> ts_highWater (snd w') = ts_highWater (snd w)"
proof -
  obtain s ts where w: "w = (s, ts)" by (cases w)
  have sync: "ts_sync w" and ids: "ids_ok (durable w) ts" and md: "ts_metadata ts = sr_metadata (durable w)"
    using inv w by (simp_all add: ts_inv_def)
  note wf = durable_wf [OF sync]
  have load: "tx_load s (ts_pid ts) = \<lparr> lr_etag = ts_etag ts, lr_record = durable w \<rparr>"
    using sync w by (simp add: ts_sync_def durable_def)
  show ?thesis
  proof (cases "resolveVerdict rs ts p")
    case None
    have "ts_inv (s, ts\<lparr> ts_inDoubt := js_set (pd_transactionId p) p (ts_inDoubt ts) \<rparr>)"
      using load md sync w low below ids ids_ok_doubt [of "durable w" ts p]
      by (intro ts_invI [where r = "durable w"]) (auto simp: ts_sync_def)
    with None w show ?thesis by (auto simp: resolveOne_def)
  next
    case (Some committed)
    show ?thesis
    proof (cases "committed \<and> pd_sequenceId p > ts_committedSequenceId ts")
      case True
      obtain s' et where st: "storeState w [] (Some (pd_sequenceId p)) None (ts_metadata ts) = Inr (s', ts\<lparr> ts_etag := Some et \<rparr>)"
        and s': "storage_wf s'" "tx_load s' (ts_pid ts) =
          \<lparr> lr_etag = Some et, lr_record = applyStore (durable w) (ts_metadata ts) [] (Some (pd_sequenceId p)) None \<rparr>"
        using storeState_ok [OF sync, of "[]" "Some (pd_sequenceId p)" None "ts_metadata ts"] w by auto
      let ?ts = "forget p (ts\<lparr> ts_etag := Some et, ts_committed := pd_state p, ts_committedSequenceId := pd_sequenceId p \<rparr>)"
      have "ids_ok (applyStore (durable w) (ts_metadata ts) [] (Some (pd_sequenceId p)) None) ?ts"
        using ids_ok_promote [of "durable w" "ts\<lparr> ts_etag := Some et \<rparr>" "pd_sequenceId p"] ids wf True below w
        by (intro ids_ok_forget) simp
      then have "ts_inv (s', ?ts)"
        using s' by (intro ts_invI) auto
      with st Some True w show ?thesis by (auto simp: resolveOne_def)
    next
      case False
      show ?thesis
      proof (cases committed)
        case True
        have "ts_inv (s, forget p ts)"
          using load md sync w ids by (intro ts_invI [where r = "durable w"]) (auto simp: ts_sync_def ids_ok_forget)
        with True False Some w show ?thesis by (auto simp: resolveOne_def)
      next
        case False
        obtain s' et where st: "storeState w [] None (Some (pd_sequenceId p - 1)) (ts_metadata ts) = Inr (s', ts\<lparr> ts_etag := Some et \<rparr>)"
          and s': "storage_wf s'" "tx_load s' (ts_pid ts) =
            \<lparr> lr_etag = Some et, lr_record = applyStore (durable w) (ts_metadata ts) [] None (Some (pd_sequenceId p - 1)) \<rparr>"
          using storeState_ok [OF sync, of "[]" None "Some (pd_sequenceId p - 1)" "ts_metadata ts"] w by auto
        have "ts_inv (s', forget p (ts\<lparr> ts_etag := Some et \<rparr>))"
          using s' ids wf by (intro ts_invI) (auto intro!: ids_ok_forget simp: ids_ok_drop)
        with False st Some w show ?thesis by (auto simp: resolveOne_def)
      qed
    qed
  qed
qed

lemma resolveEach_inv:
  assumes "ts_inv w" "\<forall>p \<in> set ps. pd_sequenceId p \<le> ts_highWater (snd w)"
    "\<forall>p \<in> set ps. \<forall>tn. ts_tentative (snd w) = Some tn \<longrightarrow> pd_sequenceId p < tn_sequenceId tn"
  shows "\<exists>w'. resolveEach rs w ps = (w', Inr ()) \<and> ts_inv w'"
  using assms
proof (induction ps arbitrary: w)
  case (Cons p ps)
  obtain w' b where w': "resolveOne rs w p = (w', Inr b)" "ts_inv w'"
    "ts_tentative (snd w') = ts_tentative (snd w)" "ts_highWater (snd w') = ts_highWater (snd w)"
    using resolveOne_inv [of w p rs] Cons.prems by auto
  with Cons.IH [of w'] Cons.prems show ?case by simp
qed simp

lemma ts_inv_timer [simp]:
  "ts_inv (s, ts\<lparr> ts_confirmationTimer := c \<rparr>) = ts_inv (s, ts)"
  "ts_inv (s, ts\<lparr> ts_confirmationDelayMs := d \<rparr>) = ts_inv (s, ts)"
  "ts_inv (s, ts\<lparr> ts_lock := l \<rparr>) = ts_inv (s, ts)"
  by (simp_all add: ts_inv_def ts_sync_def durable_def ids_ok_def)

lemma ts_inv_schedule [simp]: "ts_inv (s, scheduleConfirmationWorker ts) = ts_inv (s, ts)"
  by (simp add: scheduleConfirmationWorker_def Let_def)

lemma confirmation_inv:
  assumes "ts_inv w" shows "ts_inv (runConfirmationPass rs w)"
proof -
  let ?w = "(fst w, (snd w)\<lparr> ts_confirmationTimer := None \<rparr>)"
  have "\<forall>p \<in> set (js_values (ts_inDoubt (snd w))). pd_sequenceId p \<le> ts_highWater (snd w)
      \<and> (\<forall>tn. ts_tentative (snd w) = Some tn \<longrightarrow> pd_sequenceId p < tn_sequenceId tn)"
    using assms unfolding ts_inv_def ids_ok_def doubtful_def by blast
  moreover have "ts_inv ?w" using assms by simp
  ultimately obtain w' where "resolveEach rs ?w (js_values (ts_inDoubt (snd ?w))) = (w', Inr ())" "ts_inv w'"
    using resolveEach_inv [of ?w "js_values (ts_inDoubt (snd ?w))" rs] by fastforce
  then show ?thesis by (cases w') (simp add: runConfirmationPass_def Let_def)
qed

text \<open>A stored record as the resource leaves it: pending ids above the committed one.\<close>

definition record_ids :: "'a stored_record \<Rightarrow> bool" where
  "record_ids r \<longleftrightarrow> 0 \<le> sr_committedSequenceId r \<and> (\<forall>p \<in> set (sr_pendingStates r). sr_committedSequenceId r < pd_sequenceId p)"

lemma load_inv:
  assumes "storage_wf s" "record_ids (lr_record (tx_load s pid))"
  shows "\<exists>w. ts_load rs s (newTransactionalState pid initial opts) = (w, Inr ()) \<and> ts_inv w"
proof -
  let ?r = "lr_record (tx_load s pid)"
  let ?ts = "(newTransactionalState pid initial opts)\<lparr> ts_etag := lr_etag (tx_load s pid),
     ts_committedSequenceId := sr_committedSequenceId ?r, ts_metadata := sr_metadata ?r,
     ts_highWater := foldl (\<lambda>hw p. max hw (pd_sequenceId p)) 0 (sr_pendingStates ?r),
     ts_committed := loadedValue initial ?r \<rparr>"
  have hw: "\<forall>p \<in> set (sr_pendingStates ?r). pd_sequenceId p \<le> foldl (\<lambda>hw p. max hw (pd_sequenceId p)) 0 (sr_pendingStates ?r)"
    using foldl_max_ge [of 0 pd_sequenceId] by blast
  have inv: "ts_inv (s, ?ts)"
    using assms hw by (intro ts_invI [where r = ?r])
      (auto simp: newTransactionalState_def ids_ok_def doubtful_def record_ids_def)
  have eq: "ts_load rs s (newTransactionalState pid initial opts) =
      (if 0 < length (sr_pendingStates ?r) then recover rs (s, ?ts) (sr_pendingStates ?r) else ((s, ?ts), Inr ()))"
    by (simp add: ts_load_def Let_def newTransactionalState_def loadedValue_def cong: option.case_cong)
  have "\<exists>w. recover rs (s, ?ts) (sr_pendingStates ?r) = (w, Inr ()) \<and> ts_inv w"
  proof (cases rs)
    case None
    with inv show ?thesis by (simp add: recover_def)
  next
    case (Some f)
    obtain w where "resolveEach f (s, ?ts) (sr_pendingStates ?r) = (w, Inr ())" "ts_inv w"
      using resolveEach_inv [OF inv, of "sr_pendingStates ?r" f] hw by (auto simp: newTransactionalState_def)
    with Some show ?thesis by (cases w) (simp add: recover_def)
  qed
  with inv eq show ?thesis by auto
qed

lemma performUpdate_granted_inv:
  assumes "ts_inv (s, ts)"
  shows "ts_inv (s, fst (performUpdate_granted ts tx f))"
proof (cases "\<exists>tn. ts_tentative ts = Some tn \<and> tn_transactionId tn = ti_id tx")
  case True
  then show ?thesis
    using assms by (auto simp: performUpdate_granted_def Let_def ts_inv_def ts_sync_def durable_def ids_ok_def
        split: prod.splits)
next
  case False
  then have "fst (performUpdate_granted ts tx f) = ts\<lparr> ts_highWater := nextSequenceId ts, ts_tentative := Some
      \<lparr> tn_transactionId = ti_id tx, tn_value = fst (f (ts_committed ts)), tn_sequenceId = nextSequenceId ts,
         tn_timeStamp = ti_timeStamp tx, tn_prepared = False \<rparr> \<rparr>"
    by (auto simp: performUpdate_granted_def Let_def split: prod.splits option.splits)
  then show ?thesis
    using assms by (fastforce simp: ts_inv_def ts_sync_def durable_def ids_ok_def nextSequenceId_def)
qed

lemma performUpdate_inv: "ts_inv (s, ts) \<Longrightarrow> ts_inv (s, fst (performUpdate ts cur f))"
  using performUpdate_granted_inv [of s "ts\<lparr> ts_lock := l \<rparr>" for l]
  by (auto simp: performUpdate_def case_prod_beta split: sum.splits enter_outcome.splits)

lemma performRead_inv: "ts_inv (s, ts) \<Longrightarrow> ts_inv (s, fst (performRead ts cur x f))"
  by (auto simp: performRead_def Let_def split: sum.splits prod.splits enter_outcome.splits)

lemma prepare_effect:
  assumes inv: "ts_inv (s, ts)" and tn: "ts_tentative ts = Some tn" "tn_transactionId tn = t"
  obtains s' et where
    "ts_prepare (s, ts) t stamp m =
       ((s', ts\<lparr> ts_etag := Some et, ts_tentative := Some (tn\<lparr> tn_prepared := True \<rparr>) \<rparr>), Inr True)"
    "storage_wf s'"
    "tx_load s' (ts_pid ts) = \<lparr> lr_etag = Some et,
       lr_record = applyStore (durable (s, ts)) (ts_metadata ts) [pendingOf t stamp m tn] None None \<rparr>"
proof -
  have "ts_sync (s, ts)" using inv by (simp add: ts_inv_def)
  then obtain s' et where
    "storeState (s, ts) [pendingOf t stamp m tn] None None (ts_metadata ts) = Inr (s', ts\<lparr> ts_etag := Some et \<rparr>)"
    "storage_wf s'" "tx_load s' (ts_pid ts) = \<lparr> lr_etag = Some et,
       lr_record = applyStore (durable (s, ts)) (ts_metadata ts) [pendingOf t stamp m tn] None None \<rparr>"
    using storeState_ok [of "(s, ts)" "[pendingOf t stamp m tn]" None None "ts_metadata ts"] by auto
  with that tn show thesis by (simp add: ts_prepare_def)
qed

lemma ids_ok_stage:
  assumes "ids_ok r ts" "pendings_wf (sr_pendingStates r)" "ts_tentative ts = Some tn"
  shows "ids_ok (applyStore r md [pendingOf t stamp m tn] None None) (ts\<lparr> ts_tentative := Some (tn\<lparr> tn_prepared := b \<rparr>) \<rparr>)"
  using assms by (auto simp: ids_ok_def applyStore_prepare pendingOf_def)

lemma prepare_inv:
  assumes "ts_inv (s, ts)"
  shows "ts_inv (fst (ts_prepare (s, ts) t stamp m)) \<and> snd (ts_prepare (s, ts) t stamp m) = Inr True"
proof (cases "\<exists>tn. ts_tentative ts = Some tn \<and> tn_transactionId tn = t")
  case True
  then obtain tn where tn: "ts_tentative ts = Some tn" "tn_transactionId tn = t" by blast
  obtain s' et where p: "ts_prepare (s, ts) t stamp m =
       ((s', ts\<lparr> ts_etag := Some et, ts_tentative := Some (tn\<lparr> tn_prepared := True \<rparr>) \<rparr>), Inr True)"
    and s': "storage_wf s'" "tx_load s' (ts_pid ts) = \<lparr> lr_etag = Some et,
       lr_record = applyStore (durable (s, ts)) (ts_metadata ts) [pendingOf t stamp m tn] None None \<rparr>"
    by (rule prepare_effect [OF assms tn])
  have "ids_ok (durable (s, ts)) (ts\<lparr> ts_etag := Some et \<rparr>)" "pendings_wf (sr_pendingStates (durable (s, ts)))"
    using assms by (simp_all add: ts_inv_def durable_wf)
  from ids_ok_stage [OF this] tn(1) s' have
    "ts_inv (s', ts\<lparr> ts_etag := Some et, ts_tentative := Some (tn\<lparr> tn_prepared := True \<rparr>) \<rparr>)"
    by (intro ts_invI) auto
  with p show ?thesis by simp
next
  case False
  then show ?thesis using assms by (auto simp: ts_prepare_def split: option.splits)
qed

lemma recordCommit_inv:
  assumes "ts_inv (s, ts)"
  shows "ts_inv (fst (ts_recordCommit (s, ts) t stamp ws)) \<and> snd (ts_recordCommit (s, ts) t stamp ws) = Inr ()
    \<and> status (snd (fst (ts_recordCommit (s, ts) t stamp ws))) t
    \<and> sr_metadata (durable (fst (ts_recordCommit (s, ts) t stamp ws))) =
        ts_metadata (snd (fst (ts_recordCommit (s, ts) t stamp ws)))"
proof -
  let ?md = "\<lparr> md_timeStamp = max (md_timeStamp (ts_metadata ts)) stamp,
     md_commitRecords = js_set t \<lparr> cr_timeStamp = stamp, cr_writeParticipants = map participantKey ws \<rparr>
        (md_commitRecords (ts_metadata ts)) \<rparr>"
  have sync: "ts_sync (s, ts)" and ids: "ids_ok (durable (s, ts)) ts" using assms by (simp_all add: ts_inv_def)
  obtain s' et where st: "storeState (s, ts) [] None None ?md = Inr (s', ts\<lparr> ts_etag := Some et \<rparr>)"
    and s': "storage_wf s'" "tx_load s' (ts_pid ts) =
      \<lparr> lr_etag = Some et, lr_record = applyStore (durable (s, ts)) ?md [] None None \<rparr>"
    using storeState_ok [OF sync, of "[]" None None ?md] by auto
  have "ts_inv (s', ts\<lparr> ts_etag := Some et, ts_metadata := ?md \<rparr>)"
    using s' ids durable_wf [OF sync] by (intro ts_invI) (auto simp: applyStore_metadata_only ids_ok_def)
  with st s' show ?thesis
    by (simp add: ts_recordCommit_def Let_def status_def js_get_set durable_def)
qed

lemma releaseLock_simps:
  "fst (fst (releaseLock t w)) = fst w"
  "snd (fst (releaseLock t w)) = (snd w)\<lparr> ts_lock := fst (release (ts_lock (snd w)) t) \<rparr>"
  by (simp_all add: releaseLock_def Let_def case_prod_beta)

lemma ts_inv_release: "ts_inv w \<Longrightarrow> ts_inv (fst (releaseLock t w))"
  by (cases w) (simp add: releaseLock_def case_prod_beta)

text \<open>Committing and aborting a transaction that owns the draft, up to the release of the lock.\<close>

lemma commit_effect:
  assumes inv: "ts_inv (s, ts)" and tn: "ts_tentative ts = Some tn" "tn_transactionId tn = t"
  obtains s' et where
    "fst (ts_commit (s, ts) t) = (s', ts\<lparr> ts_etag := Some et, ts_committed := tn_value tn,
        ts_committedSequenceId := tn_sequenceId tn, ts_tentative := None, ts_lock := fst (release (ts_lock ts) t) \<rparr>)"
    "snd (snd (ts_commit (s, ts) t)) = Inr ()" "storage_wf s'"
    "tx_load s' (ts_pid ts) = \<lparr> lr_etag = Some et,
       lr_record = applyStore (durable (s, ts)) (ts_metadata ts) [] (Some (tn_sequenceId tn)) None \<rparr>"
proof -
  have "ts_sync (s, ts)" using inv by (simp add: ts_inv_def)
  then obtain s' et where
    "storeState (s, ts) [] (Some (tn_sequenceId tn)) None (ts_metadata ts) = Inr (s', ts\<lparr> ts_etag := Some et \<rparr>)"
    "storage_wf s'" "tx_load s' (ts_pid ts) = \<lparr> lr_etag = Some et,
       lr_record = applyStore (durable (s, ts)) (ts_metadata ts) [] (Some (tn_sequenceId tn)) None \<rparr>"
    using storeState_ok [of "(s, ts)" "[]" "Some (tn_sequenceId tn)" None "ts_metadata ts"] by auto
  with that tn show thesis by (simp add: ts_commit_def releaseLock_def case_prod_beta)
qed

lemma abort_effect:
  assumes inv: "ts_inv (s, ts)" and tn: "ts_tentative ts = Some tn" "tn_transactionId tn = t" "tn_prepared tn"
  obtains s' et where
    "fst (ts_abort (s, ts) t) = (s', ts\<lparr> ts_etag := Some et, ts_tentative := None,
        ts_lock := fst (release (ts_lock ts) t) \<rparr>)"
    "snd (snd (ts_abort (s, ts) t)) = Inr ()" "storage_wf s'"
    "tx_load s' (ts_pid ts) = \<lparr> lr_etag = Some et,
       lr_record = applyStore (durable (s, ts)) (ts_metadata ts) [] None (Some (tn_sequenceId tn - 1)) \<rparr>"
proof -
  have "ts_sync (s, ts)" using inv by (simp add: ts_inv_def)
  then obtain s' et where
    "storeState (s, ts) [] None (Some (tn_sequenceId tn - 1)) (ts_metadata ts) = Inr (s', ts\<lparr> ts_etag := Some et \<rparr>)"
    "storage_wf s'" "tx_load s' (ts_pid ts) = \<lparr> lr_etag = Some et,
       lr_record = applyStore (durable (s, ts)) (ts_metadata ts) [] None (Some (tn_sequenceId tn - 1)) \<rparr>"
    using storeState_ok [of "(s, ts)" "[]" None "Some (tn_sequenceId tn - 1)" "ts_metadata ts"] by auto
  with that tn show thesis by (simp add: ts_abort_def releaseLock_def case_prod_beta)
qed

lemma commit_inv:
  assumes inv: "ts_inv (s, ts)"
  shows "ts_inv (fst (ts_commit (s, ts) t)) \<and> snd (snd (ts_commit (s, ts) t)) = Inr ()"
proof (cases "\<exists>tn. ts_tentative ts = Some tn \<and> tn_transactionId tn = t")
  case True
  then obtain tn where tn: "ts_tentative ts = Some tn" "tn_transactionId tn = t" by blast
  have ids: "ids_ok (durable (s, ts)) ts" and wf: "pendings_wf (sr_pendingStates (durable (s, ts)))"
    using inv by (simp_all add: ts_inv_def durable_wf)
  have "ids_ok (durable (s, ts)) (ts\<lparr> ts_tentative := None \<rparr>)" "ts_committedSequenceId ts < tn_sequenceId tn"
    using ids tn by (simp_all add: ids_ok_def)
  then have ids': "ids_ok (applyStore (durable (s, ts)) (ts_metadata ts) [] (Some (tn_sequenceId tn)) None)
      (ts\<lparr> ts_tentative := None, ts_committed := tn_value tn, ts_committedSequenceId := tn_sequenceId tn \<rparr>)"
    using wf by (intro ids_ok_promote) auto
  obtain s' et where c: "fst (ts_commit (s, ts) t) = (s', ts\<lparr> ts_etag := Some et, ts_committed := tn_value tn,
        ts_committedSequenceId := tn_sequenceId tn, ts_tentative := None, ts_lock := fst (release (ts_lock ts) t) \<rparr>)"
      "snd (snd (ts_commit (s, ts) t)) = Inr ()" "storage_wf s'"
      "tx_load s' (ts_pid ts) = \<lparr> lr_etag = Some et,
       lr_record = applyStore (durable (s, ts)) (ts_metadata ts) [] (Some (tn_sequenceId tn)) None \<rparr>"
    by (rule commit_effect [OF inv tn])
  have "ts_inv (fst (ts_commit (s, ts) t))"
    unfolding c(1) using c(3,4) ids' by (intro ts_invI) (auto simp: ids_ok_def)
  with c(2) show ?thesis by simp
next
  case False
  then show ?thesis using inv
    by (auto simp: ts_commit_def releaseLock_def case_prod_beta split: option.splits)
qed

lemma abort_inv:
  assumes inv: "ts_inv (s, ts)"
  shows "ts_inv (fst (ts_abort (s, ts) t)) \<and> snd (snd (ts_abort (s, ts) t)) = Inr ()"
proof (cases "\<exists>tn. ts_tentative ts = Some tn \<and> tn_transactionId tn = t \<and> tn_prepared tn")
  case True
  then obtain tn where tn: "ts_tentative ts = Some tn" "tn_transactionId tn = t" "tn_prepared tn" by blast
  have ids: "ids_ok (durable (s, ts)) ts" and wf: "pendings_wf (sr_pendingStates (durable (s, ts)))"
    using inv by (simp_all add: ts_inv_def durable_wf)
  obtain s' et where a: "fst (ts_abort (s, ts) t) = (s', ts\<lparr> ts_etag := Some et, ts_tentative := None,
        ts_lock := fst (release (ts_lock ts) t) \<rparr>)"
      "snd (snd (ts_abort (s, ts) t)) = Inr ()" "storage_wf s'"
      "tx_load s' (ts_pid ts) = \<lparr> lr_etag = Some et,
       lr_record = applyStore (durable (s, ts)) (ts_metadata ts) [] None (Some (tn_sequenceId tn - 1)) \<rparr>"
    by (rule abort_effect [OF inv tn])
  have "ts_inv (fst (ts_abort (s, ts) t))"
    unfolding a(1) using a(3,4) ids_ok_drop [OF ids wf] by (intro ts_invI) (auto simp: ids_ok_def)
  with a(2) show ?thesis by simp
next
  case False
  have "ts_inv (s, ts\<lparr> ts_tentative := None, ts_lock := l \<rparr>)" for l
    using inv by (simp add: ts_inv_def ts_sync_def durable_def ids_ok_def)
  with False show ?thesis using inv
    by (auto simp: ts_abort_def releaseLock_def case_prod_beta split: option.splits)
qed

text \<open>The state between the two phases.\<close>

lemma prepare_then:
  assumes inv: "ts_inv (s, ts)" and tn: "ts_tentative ts = Some tn" "tn_transactionId tn = t"
  obtains s1 ts1 where "fst (ts_prepare (s, ts) t stamp m) = (s1, ts1)" "ts_inv (s1, ts1)"
    "durable (s1, ts1) = applyStore (durable (s, ts)) (ts_metadata ts) [pendingOf t stamp m tn] None None"
    "ts_tentative ts1 = Some (tn\<lparr> tn_prepared := True \<rparr>)" "ts_pid ts1 = ts_pid ts"
    "ts_metadata ts1 = ts_metadata ts" "ts_committed ts1 = ts_committed ts"
proof -
  obtain s1 e1 where p: "ts_prepare (s, ts) t stamp m =
       ((s1, ts\<lparr> ts_etag := Some e1, ts_tentative := Some (tn\<lparr> tn_prepared := True \<rparr>) \<rparr>), Inr True)"
    and s1: "tx_load s1 (ts_pid ts) = \<lparr> lr_etag = Some e1,
       lr_record = applyStore (durable (s, ts)) (ts_metadata ts) [pendingOf t stamp m tn] None None \<rparr>"
    by (rule prepare_effect [OF inv tn])
  let ?ts1 = "ts\<lparr> ts_etag := Some e1, ts_tentative := Some (tn\<lparr> tn_prepared := True \<rparr>) \<rparr>"
  have "ts_inv (s1, ?ts1)" using prepare_inv [OF inv, of t stamp m] p by simp
  with that [of s1 ?ts1] p s1 show thesis by (simp add: durable_def)
qed

section \<open>Runs of one activation\<close>

datatype 'a ts_op =
    OpRead "transaction_info option" bool
  | OpUpdate "transaction_info option" "'a \<Rightarrow> 'a"
  | OpUpdateGranted transaction_info "'a \<Rightarrow> 'a"
  | OpPrepare string int participant_id
  | OpRecordCommit string int "participant_id list"
  | OpCommit string
  | OpAbort string
  | OpConfirm resolve_status
  | OpLockTimeout nat

definition ts_run :: "'a tx_world \<Rightarrow> 'a ts_op \<Rightarrow> 'a tx_world" where
  "ts_run w op = (case op of
      OpRead cur x \<Rightarrow> (fst w, fst (performRead (snd w) cur x id))
    | OpUpdate cur f \<Rightarrow> (fst w, fst (performUpdate (snd w) cur (\<lambda>v. (f v, ()))))
    | OpUpdateGranted tx f \<Rightarrow> (fst w, fst (performUpdate_granted (snd w) tx (\<lambda>v. (f v, ()))))
    | OpPrepare t stamp m \<Rightarrow> fst (ts_prepare w t stamp m)
    | OpRecordCommit t stamp ws \<Rightarrow> fst (ts_recordCommit w t stamp ws)
    | OpCommit t \<Rightarrow> fst (ts_commit w t)
    | OpAbort t \<Rightarrow> fst (ts_abort w t)
    | OpConfirm rs \<Rightarrow> runConfirmationPass rs w
    | OpLockTimeout k \<Rightarrow> (fst w, (snd w)\<lparr> ts_lock := fst (lock_timeout (ts_lock (snd w)) k) \<rparr>))"

inductive ts_reachable :: "'a tx_world \<Rightarrow> bool" where
  activate: "storage_wf s \<Longrightarrow> record_ids (lr_record (tx_load s pid)) \<Longrightarrow>
     ts_reachable (fst (ts_load rs s (newTransactionalState pid initial opts)))"
| step: "ts_reachable w \<Longrightarrow> ts_reachable (ts_run w op)"

lemma ts_reachable_inv: "ts_reachable w \<Longrightarrow> ts_inv w"
proof (induction rule: ts_reachable.induct)
  case (activate s pid rs initial opts)
  then show ?case using load_inv [of s pid rs initial opts] by auto
next
  case (step w op)
  obtain s ts where w: "w = (s, ts)" by (cases w)
  with step.IH show ?case
    by (cases op) (simp_all add: ts_run_def performRead_inv performUpdate_inv performUpdate_granted_inv prepare_inv
        recordCommit_inv commit_inv abort_inv confirmation_inv)
qed

definition demo_state :: "int tx_world" where
  "demo_state = fst (ts_load None newTxStorage (newTransactionalState demo_pid 0 defaultTransactionsOptions))"

lemma demo_reachable: "ts_reachable demo_state"
  unfolding demo_state_def
  by (rule ts_reachable.activate)
     (simp_all add: storage_wf_new, simp add: newTxStorage_def tx_load_def emptyRecord_def record_ids_def)

definition demo_tx :: "string \<Rightarrow> int \<Rightarrow> transaction_info" where
  "demo_tx t n = \<lparr> ti_id = t, ti_timeStamp = n, ti_readOnly = False, ti_participants = [], ti_status = Some StActive,
     ti_pendingCalls = 0 \<rparr>"

definition demo_updated :: "int tx_world" where
  "demo_updated = ts_run demo_state (OpUpdate (Some (demo_tx ''t'' 1)) (\<lambda>v. v + 7))"

lemma demo_updated_reachable: "ts_reachable demo_updated"
  unfolding demo_updated_def by (rule ts_reachable.step [OF demo_reachable])

lemma demo_updated_draft:
  "ts_tentative (snd demo_updated) = Some \<lparr> tn_transactionId = ''t'', tn_value = 7, tn_sequenceId = 1, tn_timeStamp = 1,
     tn_prepared = False \<rparr>"
  by (simp add: demo_updated_def demo_state_def ts_run_def performUpdate_def requireTransaction_def isResolved_def
      demo_tx_def enter_def newLock_def conflictingHolders_def performUpdate_granted_def ts_load_def tx_load_def
      newTxStorage_def newTransactionalState_def nextSequenceId_def emptyRecord_def Let_def)

text \<open>C36: An abort is exact. In every reachable activation, preparing and then aborting the transaction that
  owns the draft leaves the committed version untouched in memory and in the store and removes from the
  store exactly the record staged under the draft's id.\<close>

theorem tx_abort_exact:
  assumes "ts_reachable w" "ts_tentative (snd w) = Some tn" "tn_transactionId tn = t"
  shows "let w2 = fst (ts_abort (fst (ts_prepare w t stamp m)) t) in
         ts_committed (snd w2) = ts_committed (snd w) \<and> ts_tentative (snd w2) = None
         \<and> sr_committedState (durable w2) = sr_committedState (durable w)
         \<and> set (sr_pendingStates (durable w2)) = {q \<in> set (sr_pendingStates (durable w)). pd_sequenceId q \<noteq> tn_sequenceId tn}"
proof -
  obtain s ts where w: "w = (s, ts)" by (cases w)
  have inv: "ts_inv (s, ts)" using ts_reachable_inv [OF assms(1)] by (simp add: w)
  have tn: "ts_tentative ts = Some tn" using assms(2) w by simp
  let ?r = "durable (s, ts)" and ?p = "pendingOf t stamp m tn"
  have wf: "pendings_wf (sr_pendingStates ?r)" and ids: "ids_ok ?r ts"
    using inv by (simp_all add: ts_inv_def durable_wf)
  obtain s1 ts1 where p: "fst (ts_prepare (s, ts) t stamp m) = (s1, ts1)" "ts_inv (s1, ts1)"
    "durable (s1, ts1) = applyStore ?r (ts_metadata ts) [?p] None None"
    "ts_tentative ts1 = Some (tn\<lparr> tn_prepared := True \<rparr>)" "ts_pid ts1 = ts_pid ts" "ts_metadata ts1 = ts_metadata ts"
    "ts_committed ts1 = ts_committed ts"
    by (rule prepare_then [OF inv tn assms(3)])
  let ?r1 = "durable (s1, ts1)"
  have tn1: "tn_transactionId (tn\<lparr> tn_prepared := True \<rparr>) = t" "tn_prepared (tn\<lparr> tn_prepared := True \<rparr>)"
    using assms(3) by simp_all
  let ?r2 = "applyStore ?r1 (ts_metadata ts1) [] None (Some (tn_sequenceId (tn\<lparr> tn_prepared := True \<rparr>) - 1))"
  obtain s2 e2 where a: "fst (ts_abort (s1, ts1) t) =
        (s2, ts1\<lparr> ts_etag := Some e2, ts_tentative := None, ts_lock := fst (release (ts_lock ts1) t) \<rparr>)"
    and s2: "tx_load s2 (ts_pid ts1) = \<lparr> lr_etag = Some e2, lr_record = ?r2 \<rparr>"
    by (rule abort_effect [OF p(2) p(4) tn1])
  have wf1: "pendings_wf (sr_pendingStates ?r1)" using wf by (simp add: p(3) applyStore_wf)
  have below: "\<forall>q \<in> set (sr_pendingStates ?r). pd_sequenceId q \<le> tn_sequenceId tn"
    using ids tn by (auto simp: ids_ok_def)
  have "set (sr_pendingStates ?r1) = insert ?p {q \<in> set (sr_pendingStates ?r). pd_sequenceId q \<noteq> pd_sequenceId ?p}"
    using applyStore_prepare(3) [OF wf] by (simp add: p(3))
  then have "set (sr_pendingStates ?r2) = {q \<in> set (sr_pendingStates ?r). pd_sequenceId q \<noteq> tn_sequenceId tn}"
    using below by (fastforce simp: applyStore_abort [OF wf1] pendingOf_def)
  moreover have "sr_committedState ?r2 = sr_committedState ?r"
    by (simp add: applyStore_abort [OF wf1]) (simp add: p(3) applyStore_prepare(1) [OF wf])
  ultimately show ?thesis
    using a p(1,5,7) s2 by (simp add: w durable_def)
qed

theorem tx_abort_exact_witness:
  "ts_committed (snd (fst (ts_abort (fst (ts_prepare demo_updated ''t'' 1 demo_pid)) ''t''))) = ts_committed (snd demo_updated)"
  using tx_abort_exact [OF demo_updated_reachable demo_updated_draft, of "''t''" 1 demo_pid] by (simp add: Let_def)

section \<open>Recovery on activation\<close>

definition recovering :: "'a tx_storage \<Rightarrow> participant_id \<Rightarrow> 'a \<Rightarrow> transactions_options \<Rightarrow> resolve_status \<Rightarrow> 'a tx_world" where
  "recovering s pid initial opts rs = fst (ts_load (Some rs) s (newTransactionalState pid initial opts))"

text \<open>C37: Recovery of an in-doubt record. When the store holds exactly one pending record, whose transaction another
  participant manages, activation asks that manager: if it committed, the record's state becomes the
  committed version in memory and in the store and nothing stays pending; if not, the record is dropped and
  the committed version is the one stored before; if the manager cannot be reached, the record stays
  pending, is remembered as in doubt, and a retry is armed. The claim says nothing of a store with several
  pending records, which recovery does not resolve one by one (\<open>tx_recovery_of_two_records\<close>).\<close>

theorem tx_recover_in_doubt:
  assumes "storage_wf s" "record_ids (lr_record (tx_load s pid))" "sr_pendingStates (lr_record (tx_load s pid)) = [p]"
    and "pd_manager p = Some m" "\<not> (grain_id_equals (pi_grainId m) (pi_grainId pid) \<and> pi_stateName m = pi_stateName pid)"
  shows "let w = recovering s pid initial opts rs; before = loadedValue initial (lr_record (tx_load s pid)) in
    (case rs m (pd_transactionId p) of
       Some True \<Rightarrow> ts_committed (snd w) = pd_state p \<and> sr_committedState (durable w) = Some (pd_state p)
                     \<and> sr_pendingStates (durable w) = []
     | Some False \<Rightarrow> ts_committed (snd w) = before \<and> loadedValue initial (durable w) = before
                     \<and> sr_pendingStates (durable w) = []
     | None \<Rightarrow> ts_committed (snd w) = before \<and> durable w = lr_record (tx_load s pid)
                 \<and> js_get (ts_inDoubt (snd w)) (pd_transactionId p) = Some p
                 \<and> ts_confirmationTimer (snd w) \<noteq> None)"
proof -
  let ?r = "lr_record (tx_load s pid)"
  define ts where "ts = (newTransactionalState pid initial opts)\<lparr> ts_etag := lr_etag (tx_load s pid),
     ts_committedSequenceId := sr_committedSequenceId ?r, ts_metadata := sr_metadata ?r,
     ts_highWater := max 0 (pd_sequenceId p), ts_committed := loadedValue initial ?r \<rparr>"
  have flds: "ts_pid ts = pid" "ts_committedSequenceId ts = sr_committedSequenceId ?r" "ts_metadata ts = sr_metadata ?r"
    "ts_inDoubt ts = []" "ts_confirmationTimer ts = None" "ts_committed ts = loadedValue initial ?r"
    by (simp_all add: ts_def newTransactionalState_def)
  have w: "recovering s pid initial opts rs = fst (recover (Some rs) (s, ts) [p])"
    using assms(3) by (simp add: recovering_def ts_load_def newTransactionalState_def loadedValue_def ts_def
        Let_def cong: option.case_cong)
  have sync: "ts_sync (s, ts)" and d: "durable (s, ts) = ?r"
    using assms(1) flds(1) by (simp_all add: ts_sync_def durable_def ts_def newTransactionalState_def)
  have wf: "pendings_wf (sr_pendingStates ?r)" using durable_wf [OF sync] d by simp
  have notself: "\<not> isSelfManager ts (Some m)"
    using assms(5) by (simp add: isSelfManager_def flds)
  have verdict: "resolveVerdict rs ts p = rs m (pd_transactionId p)"
    using notself assms(4) by (simp add: resolveVerdict_def Let_def)
  have above: "sr_committedSequenceId ?r < pd_sequenceId p" using assms(2,3) by (simp add: record_ids_def)
  show ?thesis
  proof (cases "rs m (pd_transactionId p)")
    case None
    then have "resolveOne rs (s, ts) p = ((s, ts\<lparr> ts_inDoubt := [(pd_transactionId p, p)] \<rparr>), Inr False)"
      using verdict by (simp add: resolveOne_def flds)
    with None w d flds show ?thesis
      by (simp add: recover_def scheduleConfirmationWorker_def durable_def Let_def)
  next
    case (Some b)
    show ?thesis
    proof (cases b)
      case True
      obtain s' et where st: "storeState (s, ts) [] (Some (pd_sequenceId p)) None (ts_metadata ts) = Inr (s', ts\<lparr> ts_etag := Some et \<rparr>)"
        and s': "tx_load s' pid = \<lparr> lr_etag = Some et, lr_record = applyStore ?r (ts_metadata ts) [] (Some (pd_sequenceId p)) None \<rparr>"
        by (rule storeState_ok [OF sync, unfolded snd_conv d flds(1)])
      then have "resolveOne rs (s, ts) p = ((s', forget p (ts\<lparr> ts_etag := Some et, ts_committed := pd_state p,
           ts_committedSequenceId := pd_sequenceId p \<rparr>)), Inr True)"
        using verdict Some True above flds by (simp add: resolveOne_def)
      with Some True w flds s' applyStore_commit [OF wf, of p "pd_sequenceId p" "ts_metadata ts"] assms(3)
      show ?thesis by (simp add: recover_def durable_def forget_def)
    next
      case False
      obtain s' et where st: "storeState (s, ts) [] None (Some (pd_sequenceId p - 1)) (ts_metadata ts) = Inr (s', ts\<lparr> ts_etag := Some et \<rparr>)"
        and s': "tx_load s' pid = \<lparr> lr_etag = Some et, lr_record = applyStore ?r (ts_metadata ts) [] None (Some (pd_sequenceId p - 1)) \<rparr>"
        by (rule storeState_ok [OF sync, unfolded snd_conv d flds(1)])
      then have "resolveOne rs (s, ts) p = ((s', forget p (ts\<lparr> ts_etag := Some et \<rparr>)), Inr True)"
        using verdict Some False flds by (simp add: resolveOne_def)
      with Some False w flds s' applyStore_abort [OF wf, of "ts_metadata ts" "pd_sequenceId p - 1"] assms(3)
      show ?thesis by (simp add: recover_def durable_def forget_def loadedValue_def)
    qed
  qed
qed

definition other_pid :: participant_id where
  "other_pid = \<lparr> pi_grainId = GrainId ''acct'' (KString ''o''), pi_stateName = ''balance'' \<rparr>"

definition in_doubt_record :: "int pending_state" where
  "in_doubt_record = \<lparr> pd_sequenceId = 1, pd_transactionId = ''t1'', pd_timeStamp = 1, pd_manager = Some other_pid, pd_state = 5 \<rparr>"

definition in_doubt_storage :: "int tx_storage" where
  "in_doubt_storage = \<lparr> st_entries = [(participantKey demo_pid, \<lparr> te_etag = show_nat 1,
      te_record = emptyRecord\<lparr> sr_pendingStates := [in_doubt_record] \<rparr> \<rparr>)], st_etagCounter = 1 \<rparr>"

lemma in_doubt_load: "lr_record (tx_load in_doubt_storage demo_pid) = emptyRecord\<lparr> sr_pendingStates := [in_doubt_record] \<rparr>"
  by (simp add: tx_load_def in_doubt_storage_def)

lemma in_doubt_ok:
  "storage_wf in_doubt_storage" "record_ids (lr_record (tx_load in_doubt_storage demo_pid))"
  by (auto simp: storage_wf_def in_doubt_storage_def pendings_wf_def record_ids_def tx_load_def emptyRecord_def
      in_doubt_record_def)

lemma other_not_self:
  "\<not> (grain_id_equals (pi_grainId other_pid) (pi_grainId demo_pid) \<and> pi_stateName other_pid = pi_stateName demo_pid)"
  by (simp add: other_pid_def demo_pid_def grain_id_equals_def grain_id_toString_def)

theorem tx_recover_in_doubt_witness:
  "ts_committed (snd (recovering in_doubt_storage demo_pid 0 defaultTransactionsOptions (\<lambda>_ _. Some True))) = 5"
  using tx_recover_in_doubt [OF in_doubt_ok, of in_doubt_record other_pid 0 defaultTransactionsOptions
      "\<lambda>_ _. Some True"] other_not_self
  by (simp add: in_doubt_load in_doubt_record_def Let_def)

text \<open>Two pending records. Aborting the first drops the second too, since everything above a sequence id is dropped: when
  the second has committed, its value is the committed one in memory and is not in the store. Committing the second
  removes the first from the store, although its manager could not be reached and it is still remembered as in doubt.\<close>

definition two_in_doubt_storage :: "int tx_storage" where
  "two_in_doubt_storage = \<lparr> st_entries = [(participantKey demo_pid, \<lparr> te_etag = show_nat 1,
      te_record = emptyRecord\<lparr> sr_pendingStates := [in_doubt_record,
        \<lparr> pd_sequenceId = 2, pd_transactionId = ''t2'', pd_timeStamp = 2, pd_manager = Some other_pid, pd_state = 9 \<rparr>] \<rparr> \<rparr>)],
      st_etagCounter = 1 \<rparr>"

lemma tx_recovery_of_two_records:
  "let w = recovering two_in_doubt_storage demo_pid 0 defaultTransactionsOptions (\<lambda>_ t. Some (t = ''t2'')) in
     ts_committed (snd w) = 9 \<and> sr_committedState (durable w) = None \<and> sr_pendingStates (durable w) = []"
  "let w = recovering two_in_doubt_storage demo_pid 0 defaultTransactionsOptions (\<lambda>_ t. if t = ''t2'' then Some True else None) in
     js_get (ts_inDoubt (snd w)) ''t1'' = Some in_doubt_record \<and> sr_committedState (durable w) = Some 9 \<and> sr_pendingStates (durable w) = []"
  by code_simp+

definition lost_write_run :: "int tx_world" where
  "lost_write_run = foldl ts_run (recovering in_doubt_storage demo_pid 0 defaultTransactionsOptions (\<lambda>_ _. None))
     [OpUpdate (Some (demo_tx ''t2'' 2)) (\<lambda>v. v + 7), OpPrepare ''t2'' 2 demo_pid, OpRecordCommit ''t2'' 2 [demo_pid],
      OpConfirm (\<lambda>_ _. Some False), OpCommit ''t2'']"

text \<open>A committed write can be lost. A record in doubt, resolved to abort by the confirmation worker while
  a later transaction is already prepared, drops that later transaction's staged record too. The later
  transaction has its commit recorded durably and its commit succeeds, in memory its value is the committed
  one, yet the store never holds it and the next activation loads the old value.\<close>

lemma tx_resolution_drops_later_write:
  "status (snd lost_write_run) ''t2'' \<and> ts_committed (snd lost_write_run) = 7
   \<and> (let reloaded = ts_load None (fst lost_write_run) (newTransactionalState demo_pid 0 defaultTransactionsOptions)
      in snd reloaded = Inr () \<and> status (snd (fst reloaded)) ''t2'' \<and> ts_committed (snd (fst reloaded)) = 0)"
  by code_simp

section \<open>Backoff of the confirmation worker\<close>

text \<open>In-doubt records as the code keeps them: keyed by their transaction and managed elsewhere.\<close>

definition doubt_keyed :: "'a tx_state \<Rightarrow> bool" where
  "doubt_keyed ts \<longleftrightarrow> js_wf (ts_inDoubt ts) \<and> (\<forall>(k, p) \<in> set (ts_inDoubt ts). k = pd_transactionId p
     \<and> (\<exists>m. pd_manager p = Some m \<and> \<not> isSelfManager ts (Some m)))"

lemma js_set_same: "js_get m k = Some v \<Longrightarrow> js_set k v m = m"
  by (induction m) (auto split: if_splits)

lemma resolveEach_unreachable:
  assumes "doubt_keyed ts" "set ps \<subseteq> set (js_values (ts_inDoubt ts))"
  shows "resolveEach (\<lambda>_ _. None) (s, ts) ps = ((s, ts), Inr ())"
  using assms(2)
proof (induction ps)
  case (Cons p ps)
  then obtain k where k: "(k, p) \<in> set (ts_inDoubt ts)" by auto
  with assms(1) have "js_get (ts_inDoubt ts) (pd_transactionId p) = Some p"
    unfolding doubt_keyed_def using js_get_mem by fastforce
  moreover have "resolveVerdict (\<lambda>_ _. None) ts p = None"
    using assms(1) k unfolding doubt_keyed_def resolveVerdict_def by (auto simp: Let_def)
  ultimately have "resolveOne (\<lambda>_ _. None) (s, ts) p = ((s, ts), Inr False)"
    by (simp add: resolveOne_def js_set_same)
  with Cons show ?case by simp
qed simp

definition nextDelay :: "'a tx_state \<Rightarrow> int" where
  "nextDelay ts = min (op_confirmationMaxIntervalMs (ts_options ts))
     (if ts_confirmationDelayMs ts = 0 then op_confirmationIntervalMs (ts_options ts) else ts_confirmationDelayMs ts * 2)"

lemma pass_unreachable:
  assumes "doubt_keyed ts" "ts_inDoubt ts \<noteq> []"
  shows "runConfirmationPass (\<lambda>_ _. None) (s, ts) =
    (s, ts\<lparr> ts_confirmationDelayMs := nextDelay ts, ts_confirmationTimer := Some (nextDelay ts) \<rparr>)"
proof -
  have "doubt_keyed (ts\<lparr> ts_confirmationTimer := None \<rparr>)"
    using assms(1) by (simp add: doubt_keyed_def isSelfManager_def cong: option.case_cong)
  from resolveEach_unreachable [OF this, of "js_values (ts_inDoubt ts)" s] assms(2) show ?thesis
    by (simp add: runConfirmationPass_def scheduleConfirmationWorker_def nextDelay_def Let_def)
qed

lemma backoff_double:
  fixes b M :: int
  assumes "0 < b" "b \<le> M"
  shows "min M (min M (b * 2 ^ k) * 2) = min M (b * 2 ^ Suc k)" "min M (b * 2 ^ k) \<noteq> 0"
proof -
  have "0 < b * 2 ^ k" using assms(1) by simp
  with assms show "min M (min M (b * 2 ^ k) * 2) = min M (b * 2 ^ Suc k)" "min M (b * 2 ^ k) \<noteq> 0"
    by (auto simp: min_def)
qed

text \<open>Backoff. While every manager stays unreachable the worker re-arms itself after each pass, no record
  in doubt is lost, the store is not touched, and after \<open>k\<close> passes the delay is the base interval doubled
  \<open>k\<close> times, capped at the configured maximum.\<close>

theorem confirmation_backoff:
  assumes "doubt_keyed (snd w)" "ts_inDoubt (snd w) \<noteq> []"
    and "0 < op_confirmationIntervalMs (ts_options (snd w))"
    and "op_confirmationIntervalMs (ts_options (snd w)) \<le> op_confirmationMaxIntervalMs (ts_options (snd w))"
    and "ts_confirmationDelayMs (snd w) = op_confirmationIntervalMs (ts_options (snd w))"
  shows "let w' = (runConfirmationPass (\<lambda>_ _. None) ^^ k) w in
     fst w' = fst w \<and> ts_inDoubt (snd w') = ts_inDoubt (snd w)
     \<and> ts_confirmationDelayMs (snd w') = min (op_confirmationMaxIntervalMs (ts_options (snd w)))
          (op_confirmationIntervalMs (ts_options (snd w)) * 2 ^ k)
     \<and> (0 < k \<longrightarrow> ts_confirmationTimer (snd w') = Some (ts_confirmationDelayMs (snd w')))"
proof -
  have "\<exists>c. (runConfirmationPass (\<lambda>_ _. None) ^^ k) w = (fst w, (snd w)\<lparr> ts_confirmationDelayMs :=
       min (op_confirmationMaxIntervalMs (ts_options (snd w))) (op_confirmationIntervalMs (ts_options (snd w)) * 2 ^ k),
       ts_confirmationTimer := c \<rparr>) \<and> (0 < k \<longrightarrow> c = Some (min (op_confirmationMaxIntervalMs (ts_options (snd w)))
       (op_confirmationIntervalMs (ts_options (snd w)) * 2 ^ k)))"
  proof (induction k)
    case 0
    then show ?case using assms(3-5) by (cases w) (auto intro: exI [of _ "ts_confirmationTimer (snd w)"])
  next
    case (Suc k)
    then obtain c where IH: "(runConfirmationPass (\<lambda>_ _. None) ^^ k) w = (fst w, (snd w)\<lparr> ts_confirmationDelayMs :=
       min (op_confirmationMaxIntervalMs (ts_options (snd w))) (op_confirmationIntervalMs (ts_options (snd w)) * 2 ^ k),
       ts_confirmationTimer := c \<rparr>)" by blast
    have "doubt_keyed ((snd w)\<lparr> ts_confirmationDelayMs := d, ts_confirmationTimer := c \<rparr>)" for d
      using assms(1) by (simp add: doubt_keyed_def isSelfManager_def cong: option.case_cong)
    with assms(2) show ?case
      using backoff_double [OF assms(3,4), of k]
      by (simp add: IH pass_unreachable) (simp add: nextDelay_def)
  qed
  then show ?thesis using assms(4,5) by (cases k) auto
qed

theorem confirmation_backoff_witness:
  "ts_confirmationDelayMs (snd ((runConfirmationPass (\<lambda>_ _. None) ^^ 2)
     (recovering in_doubt_storage demo_pid 0 defaultTransactionsOptions (\<lambda>_ _. None)))) = 4000"
proof -
  let ?w = "recovering in_doubt_storage demo_pid 0 defaultTransactionsOptions (\<lambda>_ _. None)"
  have "ts_inDoubt (snd ?w) = [(''t1'', in_doubt_record)]" "ts_options (snd ?w) = defaultTransactionsOptions"
    "ts_confirmationDelayMs (snd ?w) = 1000" "ts_pid (snd ?w) = demo_pid"
    by code_simp+
  then show ?thesis
    using confirmation_backoff [of ?w 2] other_not_self
    by (simp add: doubt_keyed_def js_wf_def isSelfManager_def in_doubt_record_def defaultTransactionsOptions_def Let_def)
qed

end
