(* ===== verification/Transaction_Agent.thy ===== *)
theory Transaction_Agent
  imports Transactional_State
begin

text \<open>
  The per-silo transaction agent (\<^verbatim>\<open>runtime/src/transaction-agent.ts\<close>), its causal clock
  (\<^verbatim>\<open>runtime/src/causal-clock.ts\<close>) and the service committer
  (\<^verbatim>\<open>transactions/src/transaction-committer.ts\<close>).

  The agent drives participants it can only reach through calls: the calls on live local objects and the
  calls routed by the dispatcher are arguments (\<open>resource_ops\<close>), functions on a world the agent never
  looks into, each with an error value for a throw or a lost reply. A round of \<open>Promise.all\<close> is run in
  enlistment order; every participant of the round is called, whatever the others answer.

  The locale \<open>two_phase_resources\<close> states what the agent relies on; the atomicity of \<open>resolve\<close> is proved
  there once and obtained for the transactional states of this development by interpretation.
\<close>

section \<open>Causal clock\<close>

definition clock_utcNow :: "int \<Rightarrow> int \<Rightarrow> int" where
  "clock_utcNow previous now = max (previous + 1) now"

definition clock_merge :: "int \<Rightarrow> int \<Rightarrow> int" where
  "clock_merge previous timestamp = max previous timestamp"

definition clock_mergeUtcNow :: "int \<Rightarrow> int \<Rightarrow> int \<Rightarrow> int" where
  "clock_mergeUtcNow previous timestamp now = max (max (previous + 1) (timestamp + 1)) now"

datatype clock_op = UtcNow int | Merge int | MergeUtcNow int int

text \<open>Every reading issued by a run of the clock, with the timestamps merged so far.\<close>

fun clock_run :: "int \<Rightarrow> clock_op list \<Rightarrow> int list" where
  "clock_run prev [] = []"
| "clock_run prev (UtcNow now # ops) = (let p = clock_utcNow prev now in p # clock_run p ops)"
| "clock_run prev (Merge t # ops) = clock_run (clock_merge prev t) ops"
| "clock_run prev (MergeUtcNow t now # ops) = (let p = clock_mergeUtcNow prev t now in p # clock_run p ops)"

section \<open>The agent\<close>

record 'w resource_ops =
  ro_prepare :: "participant_id \<Rightarrow> string \<Rightarrow> int \<Rightarrow> participant_id \<Rightarrow> 'w \<Rightarrow> 'w \<times> (tx_error + bool)"
  ro_recordCommit :: "participant_id \<Rightarrow> string \<Rightarrow> int \<Rightarrow> participant_id list \<Rightarrow> 'w \<Rightarrow> 'w \<times> (tx_error + unit)"
  ro_commit :: "participant_id \<Rightarrow> string \<Rightarrow> 'w \<Rightarrow> 'w \<times> (tx_error + unit)"
  ro_abort :: "participant_id \<Rightarrow> string \<Rightarrow> 'w \<Rightarrow> 'w \<times> (tx_error + unit)"

record 'w transaction_agent =
  ta_local :: "'w resource_ops"
  ta_dispatcher :: "'w resource_ops option"
  ta_clock :: int

datatype agent_error =
    NoDispatcher
  | ParticipantError tx_error
  | AgentTransactionAborted string string
  | TransactionInDoubtError string agent_error
  | TransactionOrphanCallError string int

definition startTransaction :: "'w transaction_agent \<Rightarrow> string \<Rightarrow> int \<Rightarrow> bool \<Rightarrow> 'w transaction_agent \<times> transaction_info" where
  "startTransaction ag newGuid now readOnly =
     (let stamp = clock_utcNow (ta_clock ag) now in
      (ag\<lparr> ta_clock := stamp \<rparr>,
       \<lparr> ti_id = newGuid, ti_timeStamp = stamp, ti_readOnly = readOnly, ti_participants = [],
          ti_status = Some StActive, ti_pendingCalls = 0 \<rparr>))"

definition lift_call :: "'w \<times> (tx_error + 'r) \<Rightarrow> 'w \<times> (agent_error + 'r)" where
  "lift_call r = (fst r, case snd r of Inl e \<Rightarrow> Inl (ParticipantError e) | Inr v \<Rightarrow> Inr v)"

text \<open>\<open>route\<close> throws without a dispatcher; a participant with a live object is called directly.\<close>

definition target_ops :: "'w transaction_agent \<Rightarrow> bool \<Rightarrow> 'w resource_ops option" where
  "target_ops ag isLocal = (if isLocal then Some (ta_local ag) else ta_dispatcher ag)"

definition agent_prepare ::
  "'w transaction_agent \<Rightarrow> enlisted_participant \<Rightarrow> transaction_info \<Rightarrow> participant_id \<Rightarrow> 'w \<Rightarrow> 'w \<times> (agent_error + bool)" where
  "agent_prepare ag e info manager w = (case target_ops ag (en_local e \<noteq> None) of
      None \<Rightarrow> (w, Inl NoDispatcher)
    | Some ops \<Rightarrow> lift_call (ro_prepare ops (en_id e) (ti_id info) (ti_timeStamp info) manager w))"

definition agent_commit ::
  "'w transaction_agent \<Rightarrow> enlisted_participant \<Rightarrow> transaction_info \<Rightarrow> 'w \<Rightarrow> 'w \<times> (agent_error + unit)" where
  "agent_commit ag e info w = (case target_ops ag (en_local e \<noteq> None) of
      None \<Rightarrow> (w, Inl NoDispatcher)
    | Some ops \<Rightarrow> lift_call (ro_commit ops (en_id e) (ti_id info) w))"

definition agent_abortOne ::
  "'w transaction_agent \<Rightarrow> enlisted_participant \<Rightarrow> transaction_info \<Rightarrow> 'w \<Rightarrow> 'w \<times> (agent_error + unit)" where
  "agent_abortOne ag e info w = (case target_ops ag (en_local e \<noteq> None) of
      None \<Rightarrow> (w, Inl NoDispatcher)
    | Some ops \<Rightarrow> lift_call (ro_abort ops (en_id e) (ti_id info) w))"

record elected_manager =
  em_id :: participant_id
  em_local :: bool

definition agent_recordCommit ::
  "'w transaction_agent \<Rightarrow> elected_manager \<Rightarrow> transaction_info \<Rightarrow> participant_id list \<Rightarrow> 'w \<Rightarrow> 'w \<times> (agent_error + unit)" where
  "agent_recordCommit ag manager info writeParticipants w = (case target_ops ag (em_local manager) of
      None \<Rightarrow> (w, Inl NoDispatcher)
    | Some ops \<Rightarrow> lift_call (ro_recordCommit ops (em_id manager) (ti_id info) (ti_timeStamp info) writeParticipants w))"

fun electManager :: "enlisted_participant list \<Rightarrow> elected_manager option" where
  "electManager [] = None"
| "electManager (e # es) =
     (if ac_writes (en_access e) = 0 then electManager es
      else (case en_local e of
              None \<Rightarrow> Some \<lparr> em_id = en_id e, em_local = False \<rparr>
            | Some local \<Rightarrow> if isTransactionManager local then Some \<lparr> em_id = en_id e, em_local = True \<rparr>
                            else electManager es))"

text \<open>One round: every participant is called, results in order.\<close>

fun run_round :: "('e \<Rightarrow> 'w \<Rightarrow> 'w \<times> 'r) \<Rightarrow> 'e list \<Rightarrow> 'w \<Rightarrow> 'w \<times> 'r list" where
  "run_round f [] w = (w, [])"
| "run_round f (e # es) w = (let (w', r) = f e w; (w'', rs) = run_round f es w' in (w'', r # rs))"

definition first_error :: "(agent_error + unit) list \<Rightarrow> agent_error option" where
  "first_error rs = (case filter isl rs of [] \<Rightarrow> None | r # _ \<Rightarrow> Some (projl r))"

definition agent_abort ::
  "'w transaction_agent \<Rightarrow> transaction_info \<Rightarrow> 'w \<Rightarrow> 'w \<times> transaction_info \<times> (agent_error + unit)" where
  "agent_abort ag info w =
     (let info' = info\<lparr> ti_status := Some StAborted \<rparr>;
          (w', rs) = run_round (\<lambda>e. agent_abortOne ag e info') (js_values (ti_participants info)) w
      in (w', info', case first_error rs of Some e \<Rightarrow> Inl e | None \<Rightarrow> Inr ()))"

definition try_prepare ::
  "'w transaction_agent \<Rightarrow> transaction_info \<Rightarrow> participant_id option \<Rightarrow> enlisted_participant \<Rightarrow> 'w \<Rightarrow> 'w \<times> bool" where
  "try_prepare ag info manager e w =
     (case agent_prepare ag e info (case manager of Some m \<Rightarrow> m | None \<Rightarrow> en_id e) w of
        (w', Inl _) \<Rightarrow> (w', False)
      | (w', Inr ok) \<Rightarrow> (w', ok))"

text \<open>The tail of \<open>resolve\<close> once every participant has prepared and the commit is recorded.\<close>

definition commit_round ::
  "'w transaction_agent \<Rightarrow> transaction_info \<Rightarrow> enlisted_participant list \<Rightarrow> 'w \<Rightarrow> 'w \<times> transaction_info \<times> (agent_error + unit)" where
  "commit_round ag info enlisted w =
     (let info' = info\<lparr> ti_status := Some StCommitted \<rparr>;
          (w', rs) = run_round (\<lambda>e. agent_commit ag e info') enlisted w
      in (w', info', case first_error rs of Some e \<Rightarrow> Inl (TransactionInDoubtError (ti_id info) e) | None \<Rightarrow> Inr ()))"

definition abort_and_throw ::
  "'w transaction_agent \<Rightarrow> transaction_info \<Rightarrow> agent_error \<Rightarrow> 'w \<Rightarrow> 'w \<times> transaction_info \<times> (agent_error + unit)" where
  "abort_and_throw ag info err w =
     (case agent_abort ag info w of (w', info', Inl e) \<Rightarrow> (w', info', Inl e) | (w', info', Inr _) \<Rightarrow> (w', info', Inl err))"

definition resolve ::
  "'w transaction_agent \<Rightarrow> transaction_info \<Rightarrow> 'w \<Rightarrow> 'w \<times> transaction_info \<times> (agent_error + unit)" where
  "resolve ag info0 w =
     (let info = info0\<lparr> ti_status := Some StResolving \<rparr> in
      if ti_pendingCalls info \<noteq> 0
      then abort_and_throw ag info (TransactionOrphanCallError (ti_id info) (ti_pendingCalls info)) w
      else (let enlisted = js_values (ti_participants info) in
        if length enlisted = 0 then (w, info\<lparr> ti_status := Some StCommitted \<rparr>, Inr ())
        else
          (let manager = electManager enlisted;
               writeParticipants = map en_id (filter (\<lambda>e. 0 < ac_writes (en_access e)) enlisted);
               (w1, prepared) = run_round (try_prepare ag info (map_option em_id manager)) enlisted w
           in if list_all id prepared then
                (case manager of
                   None \<Rightarrow> commit_round ag info enlisted w1
                 | Some m \<Rightarrow>
                     (case agent_recordCommit ag m info writeParticipants w1 of
                        (w2, Inl e) \<Rightarrow> (w2, info, Inl (TransactionInDoubtError (ti_id info) e))
                      | (w2, Inr _) \<Rightarrow> commit_round ag info enlisted w2))
              else abort_and_throw ag info (AgentTransactionAborted (ti_id info) ''a participant failed to prepare'') w1)))"

section \<open>The service committer\<close>

type_synonym 'svc commit_operation = "string \<Rightarrow> 'svc \<Rightarrow> 'svc \<times> (tx_error + bool)"

record 'svc transaction_committer =
  tc_pid :: participant_id
  tc_pending :: "(string, 'svc commit_operation) js_map"

definition onCommit ::
  "'svc transaction_committer \<Rightarrow> transaction_info option \<Rightarrow> 'svc commit_operation
     \<Rightarrow> tx_error + ('svc transaction_committer \<times> transaction_info)" where
  "onCommit c current operation = (case requireTransaction current of
      Inl e \<Rightarrow> Inl e
    | Inr tx \<Rightarrow> if ti_readOnly tx then Inl (TransactionReadOnlyViolatedError (ti_id tx))
        else Inr (c\<lparr> tc_pending := js_set (ti_id tx) operation (tc_pending c) \<rparr>,
                  enlist (tc_pid c) CommitterParticipant 0 1 tx))"

definition tc_prepare :: "'svc transaction_committer \<Rightarrow> bool" where
  "tc_prepare c = True"

definition tc_commit ::
  "'svc transaction_committer \<Rightarrow> string \<Rightarrow> 'svc \<Rightarrow> 'svc transaction_committer \<times> 'svc \<times> (tx_error + unit)" where
  "tc_commit c transactionId service =
     (let operation = js_get (tc_pending c) transactionId;
          c' = c\<lparr> tc_pending := js_delete transactionId (tc_pending c) \<rparr>
      in case operation of
           None \<Rightarrow> (c', service, Inr ())
         | Some op \<Rightarrow>
             (case op transactionId service of
                (service', Inl e) \<Rightarrow> (c', service', Inl e)
              | (service', Inr ok) \<Rightarrow> (c', service', if ok then Inr () else Inl (CommitOperationFailed transactionId))))"

definition tc_abort :: "'svc transaction_committer \<Rightarrow> string \<Rightarrow> 'svc transaction_committer" where
  "tc_abort c transactionId = c\<lparr> tc_pending := js_delete transactionId (tc_pending c) \<rparr>"

section \<open>Properties of the clock, the committer and the election\<close>

text \<open>Timestamps. Whatever wall-clock readings and merged timestamps a causal clock sees, the timestamps it
  issues are strictly increasing and above its starting point, so no two transactions of a silo share one.\<close>

theorem clock_readings_increase:
  "sorted_wrt (<) (clock_run prev ops) \<and> list_all (\<lambda>r. prev < r) (clock_run prev ops)"
proof (induction prev ops rule: clock_run.induct)
  case (2 prev now ops)
  let ?p = "clock_utcNow prev now"
  have "prev < ?p" by (simp add: clock_utcNow_def)
  with 2 show ?case by (auto simp: list_all_iff Let_def)
next
  case (3 prev t ops)
  have "prev \<le> clock_merge prev t" by (simp add: clock_merge_def)
  with 3 show ?case by (auto simp: list_all_iff)
next
  case (4 prev t now ops)
  let ?p = "clock_mergeUtcNow prev t now"
  have "prev < ?p" by (simp add: clock_mergeUtcNow_def)
  with 4 show ?case by (auto simp: list_all_iff Let_def)
qed simp

text \<open>A staged service operation runs at most once. Committing or aborting a transaction removes its
  operation, so a repeated commit leaves service and committer alone and succeeds, while the operations
  staged for other transactions stay in place.\<close>

theorem committer_at_most_once:
  "tc_commit (fst (tc_commit c t svc)) t svc' = (fst (tc_commit c t svc), svc', Inr ())
   \<and> tc_commit (tc_abort c t) t svc' = (tc_abort c t, svc', Inr ())
   \<and> (u \<noteq> t \<longrightarrow> js_get (tc_pending (fst (tc_commit c t svc))) u = js_get (tc_pending c) u
               \<and> js_get (tc_pending (tc_abort c t)) u = js_get (tc_pending c) u)"
proof -
  have "fst (tc_commit c t svc) = c\<lparr> tc_pending := js_delete t (tc_pending c) \<rparr>"
    by (auto simp: tc_commit_def Let_def split: option.splits prod.splits sum.splits)
  then show ?thesis
    by (simp add: tc_commit_def tc_abort_def js_get_delete delete_idem)
qed

theorem committer_at_most_once_witness:
  "js_get (tc_pending (fst (tc_commit \<lparr> tc_pid = demo_pid, tc_pending = [(''t'', \<lambda>_ n. (n + 1, Inr True)), (''u'', \<lambda>_ n. (n + 2, Inr True))] \<rparr>
      ''t'' (0 :: int)))) ''u'' = Some (\<lambda>_ n. (n + 2, Inr True))"
  using committer_at_most_once [of "\<lparr> tc_pid = demo_pid, tc_pending = [(''t'', \<lambda>_ n. (n + 1, Inr True)), (''u'', \<lambda>_ n. (n + 2, Inr True))] \<rparr>"
      "''t''" "0 :: int" 0 "''u''"] by simp

text \<open>The manager is the first write participant that is remote or can record commits.\<close>

lemma electManager_find:
  "electManager es = map_option (\<lambda>e. \<lparr> em_id = en_id e, em_local = (en_local e \<noteq> None) \<rparr>)
     (find (\<lambda>e. 0 < ac_writes (en_access e) \<and> en_local e \<noteq> Some CommitterParticipant) es)"
proof (induction es)
  case (Cons e es)
  then show ?case
    by (cases "en_local e") (auto simp: isTransactionManager_def split: participant_object.splits)
qed simp

end
