(* ===== verification/Transaction_Atomicity.thy ===== *)
theory Transaction_Atomicity
  imports Transaction_Agent
begin

text \<open>
  What the agent relies on of its participants, as the locale \<open>two_phase_resources\<close>, the atomicity of
  \<open>resolve\<close> proved under it, and the transactional states of a cluster as an interpretation: many states
  over one store, where each single call of the protocol has its own fate: it arrives and is answered, it is
  lost, or it takes effect and its reply is lost. One participant may answer the prepare and lose the commit,
  so partial commits and in-doubt outcomes arise.
\<close>

section \<open>The contract of a participant\<close>

text \<open>\<open>val w k\<close> is the durable value of participant \<open>k\<close>, \<open>draft w k t\<close> the value it would have once
  transaction \<open>t\<close> is committed, \<open>staged w k t\<close> says that the draft is durably prepared, and
  \<open>decided w k t\<close> that \<open>k\<close> holds a durable commit record of \<open>t\<close>. A call that fails may still have taken
  effect.\<close>

locale two_phase_resources =
  fixes ag :: "'w transaction_agent"
    and ok :: "'w \<Rightarrow> bool"
    and val :: "'w \<Rightarrow> string \<Rightarrow> 'v"
    and draft :: "'w \<Rightarrow> string \<Rightarrow> string \<Rightarrow> 'v"
    and staged :: "'w \<Rightarrow> string \<Rightarrow> string \<Rightarrow> bool"
    and decided :: "'w \<Rightarrow> string \<Rightarrow> string \<Rightarrow> bool"
  assumes prepare_law:
      "\<lbrakk> target_ops ag b = Some ops; ok w; ro_prepare ops pid t stamp m w = (w', p) \<rbrakk> \<Longrightarrow>
        ok w' \<and> val w' = val w \<and> (\<forall>k. draft w' k t = draft w k t)
        \<and> (p = Inr True \<longrightarrow> staged w' (participantKey pid) t)
        \<and> (\<forall>k. k \<noteq> participantKey pid \<longrightarrow> staged w k t \<longrightarrow> staged w' k t)
        \<and> (\<forall>k. decided w' k t = decided w k t)"
    and record_law:
      "\<lbrakk> target_ops ag b = Some ops; ok w; ro_recordCommit ops pid t stamp ws w = (w', r) \<rbrakk> \<Longrightarrow>
        ok w' \<and> val w' = val w \<and> (\<forall>k. draft w' k t = draft w k t) \<and> (\<forall>k. staged w k t \<longrightarrow> staged w' k t)
        \<and> (r = Inr () \<longrightarrow> decided w' (participantKey pid) t)"
    and commit_law:
      "\<lbrakk> target_ops ag b = Some ops; ok w; staged w (participantKey pid) t; ro_commit ops pid t w = (w', r) \<rbrakk> \<Longrightarrow>
        ok w' \<and> (r = Inr () \<longrightarrow> val w' (participantKey pid) = draft w (participantKey pid) t)
        \<and> (val w' (participantKey pid) = draft w (participantKey pid) t
            \<or> val w' (participantKey pid) = val w (participantKey pid)
              \<and> draft w' (participantKey pid) t = draft w (participantKey pid) t \<and> staged w' (participantKey pid) t)
        \<and> (\<forall>k. k \<noteq> participantKey pid \<longrightarrow> val w' k = val w k \<and> draft w' k t = draft w k t \<and> (staged w k t \<longrightarrow> staged w' k t))
        \<and> (\<forall>k. decided w' k t = decided w k t)"
    and abort_law:
      "\<lbrakk> target_ops ag b = Some ops; ok w; ro_abort ops pid t w = (w', r) \<rbrakk> \<Longrightarrow>
        ok w' \<and> val w' = val w \<and> (\<forall>k. decided w' k t = decided w k t)"
begin

abbreviation ekey :: "enlisted_participant \<Rightarrow> string" where
  "ekey e \<equiv> participantKey (en_id e)"

lemma try_prepare_law:
  assumes "ok w" "try_prepare ag info m e w = (w', p)"
  shows "ok w' \<and> val w' = val w \<and> (\<forall>k. draft w' k (ti_id info) = draft w k (ti_id info))
    \<and> (p \<longrightarrow> staged w' (ekey e) (ti_id info))
    \<and> (\<forall>k. k \<noteq> ekey e \<longrightarrow> staged w k (ti_id info) \<longrightarrow> staged w' k (ti_id info))
    \<and> (\<forall>k. decided w' k (ti_id info) = decided w k (ti_id info))"
proof (cases "target_ops ag (en_local e \<noteq> None)")
  case None
  then show ?thesis using assms by (auto simp: try_prepare_def agent_prepare_def)
next
  case (Some ops)
  let ?m = "case m of Some m \<Rightarrow> m | None \<Rightarrow> en_id e"
  obtain w1 r where r: "ro_prepare ops (en_id e) (ti_id info) (ti_timeStamp info) ?m w = (w1, r)" by force
  from prepare_law [OF Some assms(1) r] assms(2) Some r show ?thesis
    by (cases r) (auto simp: try_prepare_def agent_prepare_def lift_call_def)
qed

lemma prepare_round:
  assumes "ok w" "distinct (map ekey es)" "run_round (try_prepare ag info m) es w = (w', ps)"
  shows "ok w' \<and> val w' = val w \<and> (\<forall>k. draft w' k (ti_id info) = draft w k (ti_id info)) \<and> length ps = length es
    \<and> (list_all id ps \<longrightarrow> (\<forall>e \<in> set es. staged w' (ekey e) (ti_id info)))
    \<and> (\<forall>k. k \<notin> ekey ` set es \<longrightarrow> staged w k (ti_id info) \<longrightarrow> staged w' k (ti_id info))
    \<and> (\<forall>k. decided w' k (ti_id info) = decided w k (ti_id info))"
  using assms
proof (induction es arbitrary: w ps)
  case (Cons e es)
  obtain w1 p where p: "try_prepare ag info m e w = (w1, p)" by force
  obtain ps' where ps': "run_round (try_prepare ag info m) es w1 = (w', ps')" "ps = p # ps'"
    using Cons.prems(3) p by (auto simp: Let_def split: prod.splits)
  note one = try_prepare_law [OF Cons.prems(1) p]
  have notin: "ekey e \<notin> ekey ` set es" and dist: "distinct (map ekey es)"
    using Cons.prems(2) by auto
  note IH = Cons.IH [OF conjunct1 [OF one] dist ps'(1)]
  have "staged w' k (ti_id info)" if "k \<notin> ekey ` set (e # es)" "staged w k (ti_id info)" for k
    using IH one that by simp
  moreover have "staged w' (ekey x) (ti_id info)" if "list_all id ps" "x \<in> set (e # es)" for x
    using IH one that notin ps'(2) by (auto simp: id_def)
  ultimately show ?case using IH one ps'(2) by (simp add: id_def)
qed simp

text \<open>What became of participant \<open>k\<close> between \<open>w\<close> and \<open>w'\<close>: the draft was applied, or nothing changed and the
  draft is still staged.\<close>

definition applied_or_staged :: "'w \<Rightarrow> 'w \<Rightarrow> string \<Rightarrow> string \<Rightarrow> bool" where
  "applied_or_staged w w' t k \<longleftrightarrow> val w' k = draft w k t \<or>
     val w' k = val w k \<and> draft w' k t = draft w k t \<and> staged w' k t"

lemma agent_commit_law:
  assumes "ok w" "staged w (ekey e) (ti_id info)" "agent_commit ag e info w = (w', r)"
  shows "ok w' \<and> (r = Inr () \<longrightarrow> val w' (ekey e) = draft w (ekey e) (ti_id info))
    \<and> applied_or_staged w w' (ti_id info) (ekey e)
    \<and> (\<forall>k. k \<noteq> ekey e \<longrightarrow> val w' k = val w k \<and> draft w' k (ti_id info) = draft w k (ti_id info)
          \<and> (staged w k (ti_id info) \<longrightarrow> staged w' k (ti_id info)))
    \<and> (\<forall>k. decided w' k (ti_id info) = decided w k (ti_id info))"
proof (cases "target_ops ag (en_local e \<noteq> None)")
  case None
  then show ?thesis using assms by (auto simp: agent_commit_def applied_or_staged_def)
next
  case (Some ops)
  obtain w1 r1 where r1: "ro_commit ops (en_id e) (ti_id info) w = (w1, r1)" by force
  have eq: "w' = w1" "r = Inr () \<longleftrightarrow> r1 = Inr ()"
    using assms(3) Some r1 by (auto simp: agent_commit_def lift_call_def split: sum.splits)
  from commit_law [OF Some assms(1,2) r1] show ?thesis
    unfolding eq applied_or_staged_def by simp
qed

lemma commit_round_law:
  assumes "ok w" "distinct (map ekey es)" "\<forall>e \<in> set es. staged w (ekey e) (ti_id info)"
    "run_round (\<lambda>e. agent_commit ag e info) es w = (w', rs)"
  shows "(\<forall>e \<in> set es. applied_or_staged w w' (ti_id info) (ekey e))
    \<and> (first_error rs = None \<longrightarrow> (\<forall>e \<in> set es. val w' (ekey e) = draft w (ekey e) (ti_id info)))
    \<and> (\<forall>k. k \<notin> ekey ` set es \<longrightarrow> val w' k = val w k \<and> draft w' k (ti_id info) = draft w k (ti_id info)
          \<and> (staged w k (ti_id info) \<longrightarrow> staged w' k (ti_id info)))
    \<and> (\<forall>k. decided w' k (ti_id info) = decided w k (ti_id info))"
  using assms
proof (induction es arbitrary: w rs)
  case (Cons e es)
  obtain w1 r where r: "agent_commit ag e info w = (w1, r)" by force
  obtain rs' where rs': "run_round (\<lambda>e. agent_commit ag e info) es w1 = (w', rs')" "rs = r # rs'"
    using Cons.prems(4) r by (auto simp: Let_def split: prod.splits)
  from Cons.prems(3) have "staged w (ekey e) (ti_id info)" by simp
  note one = agent_commit_law [OF Cons.prems(1) this r]
  have notin: "ekey e \<notin> ekey ` set es" and dist: "distinct (map ekey es)"
    using Cons.prems(2) by auto
  have same: "\<forall>x \<in> set es. val w1 (ekey x) = val w (ekey x) \<and> draft w1 (ekey x) (ti_id info) = draft w (ekey x) (ti_id info)
      \<and> staged w1 (ekey x) (ti_id info)"
    using one Cons.prems(3) notin by (metis image_eqI list.set_intros(2))
  then have "\<forall>x \<in> set es. staged w1 (ekey x) (ti_id info)" by blast
  note IH = Cons.IH [OF conjunct1 [OF one] dist this rs'(1)]
  have ferr: "first_error rs = None \<longleftrightarrow> r = Inr () \<and> first_error rs' = None"
    using rs'(2) by (cases r) (auto simp: first_error_def)
  have tail: "val w' (ekey e) = val w1 (ekey e)" "draft w' (ekey e) (ti_id info) = draft w1 (ekey e) (ti_id info)"
    "staged w1 (ekey e) (ti_id info) \<longrightarrow> staged w' (ekey e) (ti_id info)"
    using IH notin by simp_all
  have here: "applied_or_staged w w' (ti_id info) (ekey e)"
    using one tail unfolding applied_or_staged_def by auto
  have rest: "\<forall>x \<in> set es. applied_or_staged w w' (ti_id info) (ekey x)"
    using IH same unfolding applied_or_staged_def by simp
  have applied: "first_error rs = None \<longrightarrow> (\<forall>x \<in> set (e # es). val w' (ekey x) = draft w (ekey x) (ti_id info))"
    using IH same one tail ferr by simp
  have out: "val w' k = val w k \<and> draft w' k (ti_id info) = draft w k (ti_id info)
      \<and> (staged w k (ti_id info) \<longrightarrow> staged w' k (ti_id info))" if "k \<notin> ekey ` set (e # es)" for k
    using IH one that by simp
  have "\<forall>k. decided w' k (ti_id info) = decided w k (ti_id info)" using IH one by simp
  with here rest applied out show ?case by simp
qed simp

lemma abort_round_law:
  assumes "ok w" "run_round (\<lambda>e. agent_abortOne ag e info) es w = (w', rs)"
  shows "ok w' \<and> val w' = val w \<and> (\<forall>k. decided w' k (ti_id info) = decided w k (ti_id info))"
  using assms
proof (induction es arbitrary: w rs)
  case (Cons e es)
  obtain w1 r where r: "agent_abortOne ag e info w = (w1, r)" by force
  obtain rs' where rs': "run_round (\<lambda>e. agent_abortOne ag e info) es w1 = (w', rs')"
    using Cons.prems(2) r by (auto simp: Let_def split: prod.splits)
  have "ok w1 \<and> val w1 = val w \<and> (\<forall>k. decided w1 k (ti_id info) = decided w k (ti_id info))"
  proof (cases "target_ops ag (en_local e \<noteq> None)")
    case None
    then show ?thesis using Cons.prems(1) r by (auto simp: agent_abortOne_def)
  next
    case (Some ops)
    obtain w2 r2 where r2: "ro_abort ops (en_id e) (ti_id info) w = (w2, r2)" by force
    from abort_law [OF Some Cons.prems(1) r2] r Some r2 show ?thesis
      by (auto simp: agent_abortOne_def lift_call_def)
  qed
  with Cons.IH [of w1 rs'] rs' show ?case by simp
qed simp

lemma abort_and_throw_law:
  assumes "ok w" "abort_and_throw ag info err w = (w', info', r)"
  shows "val w' = val w \<and> ti_status info' = Some StAborted \<and> isl r
    \<and> (\<forall>k. decided w' k (ti_id info) = decided w k (ti_id info))"
proof -
  let ?info = "info\<lparr> ti_status := Some StAborted \<rparr>"
  obtain w1 rs where r: "run_round (\<lambda>e. agent_abortOne ag e ?info) (js_values (ti_participants info)) w = (w1, rs)"
    by force
  from abort_round_law [OF assms(1) r] assms(2) r show ?thesis
    by (auto simp: abort_and_throw_def agent_abort_def Let_def split: option.splits sum.splits)
qed

lemma commit_tail_law:
  assumes "ok w" "distinct (map ekey es)" "\<forall>e \<in> set es. staged w (ekey e) (ti_id info)"
    "commit_round ag info es w = (w', info', r)"
  shows "(\<forall>e \<in> set es. applied_or_staged w w' (ti_id info) (ekey e)) \<and> ti_status info' = Some StCommitted
    \<and> (r = Inr () \<longrightarrow> (\<forall>e \<in> set es. val w' (ekey e) = draft w (ekey e) (ti_id info)))
    \<and> (\<forall>k. k \<notin> ekey ` set es \<longrightarrow> val w' k = val w k)
    \<and> (\<forall>k. decided w' k (ti_id info) = decided w k (ti_id info))
    \<and> (isl r \<longrightarrow> (\<exists>c. r = Inl (TransactionInDoubtError (ti_id info) c)))"
proof -
  let ?info = "info\<lparr> ti_status := Some StCommitted \<rparr>"
  obtain w1 rs where r: "run_round (\<lambda>e. agent_commit ag e ?info) es w = (w1, rs)" by force
  have "\<forall>e \<in> set es. staged w (ekey e) (ti_id ?info)" using assms(3) by simp
  note law = commit_round_law [OF assms(1,2) this r]
  from assms(4) r have eq: "w' = w1" "info' = ?info"
    "r = (case first_error rs of Some e \<Rightarrow> Inl (TransactionInDoubtError (ti_id info) e) | None \<Rightarrow> Inr ())"
    by (auto simp: commit_round_def)
  then show ?thesis using law by (auto split: option.splits)
qed

text \<open>The outcome of \<open>resolve\<close>, by the status it leaves.\<close>

definition resolve_outcome ::
  "transaction_info \<Rightarrow> 'w \<Rightarrow> 'w \<Rightarrow> transaction_info \<Rightarrow> (agent_error + unit) \<Rightarrow> bool" where
  "resolve_outcome info w w' info' r \<longleftrightarrow>
     (let es = js_values (ti_participants info); t = ti_id info in
      (\<forall>k. k \<notin> ekey ` set es \<longrightarrow> val w' k = val w k)
      \<and> (ti_status info' = Some StCommitted \<and> (r = Inr () \<or> (\<exists>c. r = Inl (TransactionInDoubtError t c)))
           \<and> (r = Inr () \<longrightarrow> (\<forall>e \<in> set es. val w' (ekey e) = draft w (ekey e) t))
           \<and> (\<forall>e \<in> set es. applied_or_staged w w' t (ekey e))
           \<and> (\<forall>m. electManager es = Some m \<longrightarrow> decided w' (participantKey (em_id m)) t)
         \<or> ti_status info' = Some StAborted \<and> isl r \<and> val w' = val w \<and> (\<forall>k. decided w' k t = decided w k t)
         \<or> ti_status info' = Some StResolving \<and> (\<exists>c. r = Inl (TransactionInDoubtError t c)) \<and> val w' = val w
           \<and> (\<forall>e \<in> set es. draft w' (ekey e) t = draft w (ekey e) t \<and> staged w' (ekey e) t)))"

lemma resolve_atomic:
  assumes "ok w" "distinct (map ekey (js_values (ti_participants info)))" "resolve ag info w = (w', info', r)"
  shows "resolve_outcome info w w' info' r"
proof -
  let ?info = "info\<lparr> ti_status := Some StResolving \<rparr>"
  let ?es = "js_values (ti_participants info)"
  let ?mgr = "electManager ?es"
  let ?ws = "map en_id (filter (\<lambda>e. 0 < ac_writes (en_access e)) ?es)"
  obtain w1 ps where prep: "run_round (try_prepare ag ?info (map_option em_id ?mgr)) ?es w = (w1, ps)" by force
  note P = prepare_round [OF assms(1,2) prep, simplified]
  have aborted: ?thesis if "abort_and_throw ag ?info err w0 = (w', info', r)" "ok w0" "val w0 = val w"
    "\<forall>k. decided w0 k (ti_id info) = decided w k (ti_id info)" for err w0
    using abort_and_throw_law [OF that(2,1)] that(3,4) by (simp add: resolve_outcome_def)
  have committed: ?thesis if c: "commit_round ag ?info ?es w0 = (w', info', r)" "ok w0" "val w0 = val w"
    "\<forall>k. draft w0 k (ti_id info) = draft w k (ti_id info)" "\<forall>e \<in> set ?es. staged w0 (ekey e) (ti_id info)"
    "\<forall>m. ?mgr = Some m \<longrightarrow> decided w0 (participantKey (em_id m)) (ti_id info)" for w0
  proof -
    have "\<forall>e \<in> set ?es. staged w0 (ekey e) (ti_id ?info)" using c(5) by simp
    from commit_tail_law [OF c(2) assms(2) this c(1)] c(3,4,6) show ?thesis
      by (cases r) (simp_all add: resolve_outcome_def applied_or_staged_def)
  qed
  consider (orphan) "ti_pendingCalls info \<noteq> 0" | (empty) "ti_pendingCalls info = 0" "?es = []"
    | (veto) "ti_pendingCalls info = 0" "?es \<noteq> []" "\<not> list_all id ps"
    | (go) "ti_pendingCalls info = 0" "?es \<noteq> []" "list_all id ps" by blast
  then show ?thesis
  proof cases
    case orphan
    then show ?thesis using assms(1,3) by (intro aborted) (auto simp: resolve_def Let_def)
  next
    case empty
    then show ?thesis using assms(3) by (auto simp: resolve_def resolve_outcome_def Let_def)
  next
    case veto
    then show ?thesis using assms(3) prep P by (intro aborted [of _ w1]) (auto simp: resolve_def Let_def)
  next
    case go
    show ?thesis
    proof (cases ?mgr)
      case None
      then show ?thesis using go assms(3) prep P by (intro committed [of w1]) (auto simp: resolve_def Let_def)
    next
      case (Some m)
      obtain w2 q where q: "agent_recordCommit ag m ?info ?ws w1 = (w2, q)" by force
      have R: "ok w2 \<and> val w2 = val w1 \<and> (\<forall>k. draft w2 k (ti_id info) = draft w1 k (ti_id info))
          \<and> (\<forall>k. staged w1 k (ti_id info) \<longrightarrow> staged w2 k (ti_id info))
          \<and> (q = Inr () \<longrightarrow> decided w2 (participantKey (em_id m)) (ti_id info))"
      proof (cases "target_ops ag (em_local m)")
        case None
        then show ?thesis using q P by (auto simp: agent_recordCommit_def)
      next
        case (Some ops)
        obtain w3 q3 where q3: "ro_recordCommit ops (em_id m) (ti_id info) (ti_timeStamp info) ?ws w1 = (w3, q3)" by force
        from record_law [OF Some _ q3] P q q3 Some show ?thesis by (auto simp: agent_recordCommit_def lift_call_def split: sum.splits)
      qed
      show ?thesis
      proof (cases q)
        case (Inl e)
        then have "w' = w2" "info' = ?info" "r = Inl (TransactionInDoubtError (ti_id info) e)"
          using go Some assms(3) prep q by (simp_all add: resolve_def Let_def)
        then show ?thesis using go P R by (simp add: resolve_outcome_def Let_def)
      next
        case (Inr u)
        then show ?thesis using go Some assms(3) prep q P R by (intro committed [of w2]) (auto simp: resolve_def Let_def)
      qed
    qed
  qed
qed

end

section \<open>Transactional states as participants\<close>

text \<open>The states of a cluster over one store. Each call of the protocol, told apart by its kind and its
  participant, has a fate: it is answered, it is lost before it takes effect (so is a call to a participant
  that is not hosted), or it takes effect and the reply is lost, which the caller cannot tell from the
  former.\<close>

record 'a cluster_world =
  cw_storage :: "'a tx_storage"
  cw_states :: "(string, 'a tx_state) js_map"

datatype call_fate = Answered | CallLost | ReplyLost

datatype call_kind = PrepareCall | RecordCall | CommitCall | AbortCall

type_synonym call_fates = "call_kind \<Rightarrow> string \<Rightarrow> call_fate"

definition on_state ::
  "call_fate \<Rightarrow> ('a tx_world \<Rightarrow> 'a tx_world \<times> (tx_error + 'r)) \<Rightarrow> participant_id \<Rightarrow> 'a cluster_world
     \<Rightarrow> 'a cluster_world \<times> (tx_error + 'r)" where
  "on_state fate f pid w =
     (case js_get (cw_states w) (participantKey pid) of
        None \<Rightarrow> (w, Inl (RouteFailed (participantKey pid)))
      | Some ts \<Rightarrow>
          if fate = CallLost then (w, Inl (RouteFailed (participantKey pid)))
          else (case f (cw_storage w, ts) of ((s', ts'), r) \<Rightarrow>
                  (\<lparr> cw_storage = s', cw_states = js_set (participantKey pid) ts' (cw_states w) \<rparr>,
                   if fate = ReplyLost then Inl (RouteFailed (participantKey pid)) else r)))"

definition state_ops :: "call_fates \<Rightarrow> 'a cluster_world resource_ops" where
  "state_ops fate = \<lparr>
     ro_prepare = (\<lambda>pid t stamp m. on_state (fate PrepareCall (participantKey pid)) (\<lambda>w. ts_prepare w t stamp m) pid),
     ro_recordCommit = (\<lambda>pid t stamp ws. on_state (fate RecordCall (participantKey pid)) (\<lambda>w. ts_recordCommit w t stamp ws) pid),
     ro_commit = (\<lambda>pid t. on_state (fate CommitCall (participantKey pid)) (\<lambda>w. case ts_commit w t of (w', _, r) \<Rightarrow> (w', r)) pid),
     ro_abort = (\<lambda>pid t. on_state (fate AbortCall (participantKey pid)) (\<lambda>w. case ts_abort w t of (w', _, r) \<Rightarrow> (w', r)) pid) \<rparr>"

text \<open>An agent whose calls on local objects and whose routed calls have fates of their own; with no dispatcher
  every routed call throws.\<close>

definition state_agent :: "call_fates \<Rightarrow> call_fates option \<Rightarrow> int \<Rightarrow> 'a cluster_world transaction_agent" where
  "state_agent localFate routedFate clock =
     \<lparr> ta_local = state_ops localFate, ta_dispatcher = map_option state_ops routedFate, ta_clock = clock \<rparr>"

definition cw_ok :: "'a cluster_world \<Rightarrow> bool" where
  "cw_ok w \<longleftrightarrow> (\<forall>k ts. js_get (cw_states w) k = Some ts \<longrightarrow> participantKey (ts_pid ts) = k \<and> ts_inv (cw_storage w, ts))"

definition ts_val :: "'a tx_world \<Rightarrow> 'a" where
  "ts_val w = loadedValue (ts_initial (snd w)) (durable w)"

definition ts_draft :: "string \<Rightarrow> 'a tx_world \<Rightarrow> 'a" where
  "ts_draft t w = (case ts_tentative (snd w) of
     Some tn \<Rightarrow> if tn_transactionId tn = t then tn_value tn else ts_val w | None \<Rightarrow> ts_val w)"

definition ts_staged :: "string \<Rightarrow> 'a tx_world \<Rightarrow> bool" where
  "ts_staged t w \<longleftrightarrow> (\<forall>tn. ts_tentative (snd w) = Some tn \<longrightarrow> tn_transactionId tn = t
     \<longrightarrow> (\<exists>p \<in> set (sr_pendingStates (durable w)). pd_sequenceId p = tn_sequenceId tn \<and> pd_state p = tn_value tn))"

definition cw_val :: "'a cluster_world \<Rightarrow> string \<Rightarrow> 'a option" where
  "cw_val w k = map_option (\<lambda>ts. ts_val (cw_storage w, ts)) (js_get (cw_states w) k)"

definition cw_draft :: "'a cluster_world \<Rightarrow> string \<Rightarrow> string \<Rightarrow> 'a option" where
  "cw_draft w k t = map_option (\<lambda>ts. ts_draft t (cw_storage w, ts)) (js_get (cw_states w) k)"

definition cw_staged :: "'a cluster_world \<Rightarrow> string \<Rightarrow> string \<Rightarrow> bool" where
  "cw_staged w k t \<longleftrightarrow> (\<forall>ts. js_get (cw_states w) k = Some ts \<longrightarrow> ts_staged t (cw_storage w, ts))"

text \<open>The durable commit record of \<open>t\<close>, the atomic commit point when its manager holds it.\<close>

definition ts_decided :: "string \<Rightarrow> 'a tx_world \<Rightarrow> bool" where
  "ts_decided t w \<longleftrightarrow> js_has (md_commitRecords (sr_metadata (durable w))) t"

definition cw_decided :: "'a cluster_world \<Rightarrow> string \<Rightarrow> string \<Rightarrow> bool" where
  "cw_decided w k t \<longleftrightarrow> (\<exists>ts. js_get (cw_states w) k = Some ts \<and> ts_decided t (cw_storage w, ts))"

text \<open>What a call on one state must guarantee for the rest of the cluster to be unaffected.\<close>

definition frame :: "'a tx_storage \<Rightarrow> 'a tx_state \<Rightarrow> 'a tx_world \<Rightarrow> bool" where
  "frame s ts w' \<longleftrightarrow> ts_inv w' \<and> ts_pid (snd w') = ts_pid ts \<and> ts_initial (snd w') = ts_initial ts \<and> storage_wf (fst w') \<and>
     (\<forall>pid. participantKey pid \<noteq> participantKey (ts_pid ts) \<longrightarrow> tx_load (fst w') pid = tx_load s pid)"

lemma storeState_frame:
  assumes "storeState (s, ts) prep cu aa md = Inr (s', ts')"
  shows "ts_pid ts' = ts_pid ts \<and> ts_initial ts' = ts_initial ts \<and> (storage_wf s \<longrightarrow> storage_wf s') \<and>
    (\<forall>pid. participantKey pid \<noteq> participantKey (ts_pid ts) \<longrightarrow> tx_load s' pid = tx_load s pid)"
  using assms tx_load_after_store(2) storage_wf_store
  by (fastforce simp: storeState_def split: sum.splits)

text \<open>Every operation of a state makes at most one store call.\<close>

definition stored_from :: "'a tx_storage \<Rightarrow> 'a tx_state \<Rightarrow> 'a tx_world \<Rightarrow> bool" where
  "stored_from s ts w' \<longleftrightarrow> ts_pid (snd w') = ts_pid ts \<and> ts_initial (snd w') = ts_initial ts \<and>
     (fst w' = s \<or> (\<exists>ts1 prep cu aa md. storeState (s, ts) prep cu aa md = Inr (fst w', ts1)))"

lemma stored_same: "ts_pid ts' = ts_pid ts \<Longrightarrow> ts_initial ts' = ts_initial ts \<Longrightarrow> stored_from s ts (s, ts')"
  by (simp add: stored_from_def)

lemma stored_step:
  "storeState (s, ts) prep cu aa md = Inr (s1, ts1) \<Longrightarrow> ts_pid ts' = ts_pid ts1 \<Longrightarrow> ts_initial ts' = ts_initial ts1
     \<Longrightarrow> stored_from s ts (s1, ts')"
  using storeState_frame [of s ts prep cu aa md s1 ts1] unfolding stored_from_def by auto

lemma frame_stored: "ts_inv (s, ts) \<Longrightarrow> ts_inv w' \<Longrightarrow> stored_from s ts w' \<Longrightarrow> frame s ts w'"
  unfolding frame_def stored_from_def
  by (cases w') (auto simp: ts_inv_def ts_sync_def dest!: storeState_frame)

lemma prepare_frame: "ts_inv (s, ts) \<Longrightarrow> frame s ts (fst (ts_prepare (s, ts) t stamp m))"
proof (rule frame_stored)
  show "stored_from s ts (fst (ts_prepare (s, ts) t stamp m))"
    by (auto simp: ts_prepare_def intro: stored_same stored_step split: option.splits sum.splits)
qed (simp_all add: prepare_inv)

lemma record_frame: "ts_inv (s, ts) \<Longrightarrow> frame s ts (fst (ts_recordCommit (s, ts) t stamp ws))"
proof (rule frame_stored)
  show "stored_from s ts (fst (ts_recordCommit (s, ts) t stamp ws))"
    by (auto simp: ts_recordCommit_def Let_def intro: stored_same stored_step split: option.splits sum.splits)
qed (simp_all add: recordCommit_inv)

lemma commit_frame: "ts_inv (s, ts) \<Longrightarrow> frame s ts (fst (ts_commit (s, ts) t))"
proof (rule frame_stored)
  show "stored_from s ts (fst (ts_commit (s, ts) t))"
    by (auto simp: ts_commit_def Let_def releaseLock_def case_prod_beta intro: stored_same stored_step
        split: option.splits sum.splits)
qed (simp_all add: commit_inv)

lemma abort_frame: "ts_inv (s, ts) \<Longrightarrow> frame s ts (fst (ts_abort (s, ts) t))"
proof (rule frame_stored)
  show "stored_from s ts (fst (ts_abort (s, ts) t))"
    by (auto simp: ts_abort_def Let_def releaseLock_def case_prod_beta intro: stored_same stored_step
        split: option.splits sum.splits)
qed (simp_all add: abort_inv)

lemmas ts_view_defs = ts_val_def ts_draft_def ts_staged_def ts_decided_def durable_def

lemma prepare_local:
  assumes inv: "ts_inv (s, ts)"
  shows "ts_val (fst (ts_prepare (s, ts) t stamp m)) = ts_val (s, ts)
    \<and> ts_draft t (fst (ts_prepare (s, ts) t stamp m)) = ts_draft t (s, ts)
    \<and> ts_staged t (fst (ts_prepare (s, ts) t stamp m))"
proof (cases "\<exists>tn. ts_tentative ts = Some tn \<and> tn_transactionId tn = t")
  case True
  then obtain tn where tn: "ts_tentative ts = Some tn" "tn_transactionId tn = t" by blast
  have wf: "pendings_wf (sr_pendingStates (durable (s, ts)))" using inv by (simp add: ts_inv_def durable_wf)
  obtain s' et where p: "ts_prepare (s, ts) t stamp m =
       ((s', ts\<lparr> ts_etag := Some et, ts_tentative := Some (tn\<lparr> tn_prepared := True \<rparr>) \<rparr>), Inr True)"
    and s': "tx_load s' (ts_pid ts) = \<lparr> lr_etag = Some et,
       lr_record = applyStore (durable (s, ts)) (ts_metadata ts) [pendingOf t stamp m tn] None None \<rparr>"
    by (rule prepare_effect [OF inv tn])
  from applyStore_prepare [OF wf, of "ts_metadata ts" "pendingOf t stamp m tn"] p s' tn show ?thesis
    by (simp add: ts_view_defs loadedValue_def pendingOf_def)
next
  case False
  then show ?thesis by (auto simp: ts_prepare_def ts_view_defs split: option.splits)
qed

lemma record_local:
  assumes inv: "ts_inv (s, ts)"
  shows "ts_val (fst (ts_recordCommit (s, ts) t stamp ws)) = ts_val (s, ts)
    \<and> ts_draft u (fst (ts_recordCommit (s, ts) t stamp ws)) = ts_draft u (s, ts)
    \<and> ts_staged u (fst (ts_recordCommit (s, ts) t stamp ws)) = ts_staged u (s, ts)"
proof -
  let ?md = "\<lparr> md_timeStamp = max (md_timeStamp (ts_metadata ts)) stamp,
     md_commitRecords = js_set t \<lparr> cr_timeStamp = stamp, cr_writeParticipants = map participantKey ws \<rparr>
        (md_commitRecords (ts_metadata ts)) \<rparr>"
  have sync: "ts_sync (s, ts)" using inv by (simp add: ts_inv_def)
  obtain s' et where st: "storeState (s, ts) [] None None ?md = Inr (s', ts\<lparr> ts_etag := Some et \<rparr>)"
    and s': "tx_load s' (ts_pid ts) = \<lparr> lr_etag = Some et, lr_record = applyStore (durable (s, ts)) ?md [] None None \<rparr>"
    by (rule storeState_ok [OF sync, unfolded snd_conv])
  from applyStore_metadata_only [OF durable_wf [OF sync], of ?md] s' have d:
    "lr_record (tx_load s' (ts_pid ts)) = (durable (s, ts))\<lparr> sr_metadata := ?md \<rparr>" by simp
  have "ts_recordCommit (s, ts) t stamp ws = ((s', ts\<lparr> ts_etag := Some et, ts_metadata := ?md \<rparr>), Inr ())"
    using st by (simp add: ts_recordCommit_def Let_def)
  with d show ?thesis by (cases "ts_tentative ts") (simp_all add: ts_view_defs loadedValue_def)
qed

lemma commit_local:
  assumes inv: "ts_inv (s, ts)" and staged: "ts_staged t (s, ts)"
  shows "ts_val (fst (ts_commit (s, ts) t)) = ts_draft t (s, ts) \<and> snd (snd (ts_commit (s, ts) t)) = Inr ()"
proof (cases "\<exists>tn. ts_tentative ts = Some tn \<and> tn_transactionId tn = t")
  case True
  then obtain tn where tn: "ts_tentative ts = Some tn" "tn_transactionId tn = t" by blast
  have wf: "pendings_wf (sr_pendingStates (durable (s, ts)))" and ids: "ids_ok (durable (s, ts)) ts"
    using inv by (simp_all add: ts_inv_def durable_wf)
  obtain p where p: "p \<in> set (sr_pendingStates (durable (s, ts)))" "pd_sequenceId p = tn_sequenceId tn" "pd_state p = tn_value tn"
    using staged tn by (auto simp: ts_staged_def)
  have nz: "tn_sequenceId tn \<noteq> 0" using ids tn(1) by (auto simp: ids_ok_def)
  obtain s' et where c: "fst (ts_commit (s, ts) t) = (s', ts\<lparr> ts_etag := Some et, ts_committed := tn_value tn,
        ts_committedSequenceId := tn_sequenceId tn, ts_tentative := None, ts_lock := fst (release (ts_lock ts) t) \<rparr>)"
      "snd (snd (ts_commit (s, ts) t)) = Inr ()"
      "tx_load s' (ts_pid ts) = \<lparr> lr_etag = Some et,
       lr_record = applyStore (durable (s, ts)) (ts_metadata ts) [] (Some (tn_sequenceId tn)) None \<rparr>"
    by (rule commit_effect [OF inv tn])
  from applyStore_commit [OF wf p(1,2), of "ts_metadata ts"] c tn p(3) nz show ?thesis
    by (simp add: ts_view_defs loadedValue_def)
next
  case False
  then have "fst (ts_commit (s, ts) t) = (s, ts\<lparr> ts_lock := fst (release (ts_lock ts) t) \<rparr>)"
    "snd (snd (ts_commit (s, ts) t)) = Inr ()"
    by (auto simp: ts_commit_def releaseLock_def case_prod_beta split: option.splits)
  with False show ?thesis by (auto simp: ts_view_defs split: option.splits)
qed

lemma abort_local:
  assumes inv: "ts_inv (s, ts)"
  shows "ts_val (fst (ts_abort (s, ts) t)) = ts_val (s, ts)"
proof (cases "\<exists>tn. ts_tentative ts = Some tn \<and> tn_transactionId tn = t \<and> tn_prepared tn")
  case True
  then obtain tn where tn: "ts_tentative ts = Some tn" "tn_transactionId tn = t" "tn_prepared tn" by blast
  have wf: "pendings_wf (sr_pendingStates (durable (s, ts)))" using inv by (simp add: ts_inv_def durable_wf)
  obtain s' et where a: "fst (ts_abort (s, ts) t) = (s', ts\<lparr> ts_etag := Some et, ts_tentative := None,
        ts_lock := fst (release (ts_lock ts) t) \<rparr>)"
      "tx_load s' (ts_pid ts) = \<lparr> lr_etag = Some et,
       lr_record = applyStore (durable (s, ts)) (ts_metadata ts) [] None (Some (tn_sequenceId tn - 1)) \<rparr>"
    by (rule abort_effect [OF inv tn])
  from applyStore_abort [OF wf, of "ts_metadata ts" "tn_sequenceId tn - 1"] a show ?thesis
    by (simp add: ts_view_defs loadedValue_def)
next
  case False
  then show ?thesis
    by (auto simp: ts_abort_def releaseLock_def case_prod_beta ts_view_defs split: option.splits)
qed

text \<open>Only \<open>ts_recordCommit\<close> changes the commit records: the invariant ties the durable metadata to the one in
  memory, which the other calls leave alone.\<close>

lemma decided_metadata: "ts_inv w \<Longrightarrow> ts_decided t w = status (snd w) t"
  by (simp add: ts_inv_def ts_decided_def status_def)

lemma storeState_metadata: "storeState (s, ts) prep cu aa md = Inr (s', ts') \<Longrightarrow> ts_metadata ts' = ts_metadata ts"
  by (auto simp: storeState_def split: sum.splits)

lemma calls_keep_metadata:
  "ts_metadata (snd (fst (ts_prepare (s, ts) t stamp m))) = ts_metadata ts"
  "ts_metadata (snd (fst (ts_commit (s, ts) t))) = ts_metadata ts"
  "ts_metadata (snd (fst (ts_abort (s, ts) t))) = ts_metadata ts"
  by (auto simp: ts_prepare_def ts_commit_def ts_abort_def Let_def releaseLock_def case_prod_beta storeState_metadata
      split: option.splits sum.splits)

lemma calls_keep_decided:
  assumes "ts_inv (s, ts)"
  shows "ts_decided u (fst (ts_prepare (s, ts) t stamp m)) = ts_decided u (s, ts)"
    "ts_decided u (fst (ts_commit (s, ts) t)) = ts_decided u (s, ts)"
    "ts_decided u (fst (ts_abort (s, ts) t)) = ts_decided u (s, ts)"
  using assms prepare_inv [OF assms, of t stamp m] commit_inv [OF assms, of t] abort_inv [OF assms, of t]
  by (simp_all add: decided_metadata status_def calls_keep_metadata)

lemma record_decides: "ts_inv (s, ts) \<Longrightarrow> ts_decided t (fst (ts_recordCommit (s, ts) t stamp ws))"
  using recordCommit_inv [of s ts t stamp ws] decided_metadata by blast

lemma on_state_cases:
  assumes "on_state fate f pid w = (w', r)"
  obtains "w' = w" "isl r"
  | ts where "js_get (cw_states w) (participantKey pid) = Some ts"
      "w' = \<lparr> cw_storage = fst (fst (f (cw_storage w, ts))),
              cw_states = js_set (participantKey pid) (snd (fst (f (cw_storage w, ts)))) (cw_states w) \<rparr>"
      "isl r \<or> r = snd (f (cw_storage w, ts))"
proof (cases "js_get (cw_states w) (participantKey pid)")
  case None
  then show ?thesis using assms that(1) by (auto simp: on_state_def)
next
  case (Some ts)
  then show ?thesis
    using assms that by (auto simp: on_state_def case_prod_beta split: if_splits)
qed

text \<open>A framed call on one state leaves every other participant's view alone.\<close>

lemma on_state_frame:
  assumes ok: "cw_ok w" and fr: "\<And>s ts. ts_inv (s, ts) \<Longrightarrow> frame s ts (fst (f (s, ts)))"
    and call: "on_state fate f pid w = (w', r)"
  shows "cw_ok w' \<and> (\<forall>k. k \<noteq> participantKey pid \<longrightarrow>
     cw_val w' k = cw_val w k \<and> (\<forall>t. cw_draft w' k t = cw_draft w k t \<and> cw_staged w' k t = cw_staged w k t
       \<and> cw_decided w' k t = cw_decided w k t))"
proof -
  let ?k = "participantKey pid" and ?s = "cw_storage w"
  consider (idle) "w' = w"
    | (run) ts s' ts' where "js_get (cw_states w) ?k = Some ts" "fst (f (?s, ts)) = (s', ts')"
        "w' = \<lparr> cw_storage = s', cw_states = js_set ?k ts' (cw_states w) \<rparr>"
    by (rule on_state_cases [OF call]) (metis prod.collapse)+
  then show ?thesis
  proof cases
    case idle
    with ok show ?thesis by simp
  next
    case run
    have inv: "ts_inv (?s, ts)" and pid: "participantKey (ts_pid ts) = ?k" using ok run(1) by (simp_all add: cw_ok_def)
    from fr [OF inv] run(2) have F: "ts_inv (s', ts')" "ts_pid ts' = ts_pid ts" "storage_wf s'"
      "\<forall>q. participantKey q \<noteq> ?k \<longrightarrow> tx_load s' q = tx_load ?s q"
      by (simp_all add: frame_def pid)
    have other: "js_get (cw_states w') k = js_get (cw_states w) k" if "k \<noteq> ?k" for k
      using run(3) that by (simp add: js_get_set)
    have load: "tx_load s' (ts_pid x) = tx_load ?s (ts_pid x)" if "js_get (cw_states w) k = Some x" "k \<noteq> ?k" for k x
      using ok that F(4) by (simp add: cw_ok_def)
    have "cw_ok w'"
      unfolding cw_ok_def
    proof (intro allI impI)
      fix k x assume x: "js_get (cw_states w') k = Some x"
      show "participantKey (ts_pid x) = k \<and> ts_inv (cw_storage w', x)"
      proof (cases "k = ?k")
        case True
        with x run(3) F(1,2) pid show ?thesis by (simp add: js_get_set)
      next
        case False
        with x other have x': "js_get (cw_states w) k = Some x" by simp
        with ok have "participantKey (ts_pid x) = k" "ts_inv (?s, x)" by (simp_all add: cw_ok_def)
        with load [OF x' False] F(3) run(3) show ?thesis by (simp add: ts_inv_def ts_sync_def durable_def)
      qed
    qed
    moreover have "ts_val (s', x) = ts_val (?s, x) \<and> ts_draft t (s', x) = ts_draft t (?s, x) \<and> ts_staged t (s', x) = ts_staged t (?s, x)
      \<and> ts_decided t (s', x) = ts_decided t (?s, x)"
      if "js_get (cw_states w) k = Some x" "k \<noteq> ?k" for k x t
      using load [OF that] by (cases "ts_tentative x") (simp_all add: ts_view_defs)
    moreover have "cw_storage w' = s'" using run(3) by simp
    ultimately have "cw_val w' k = cw_val w k \<and> cw_draft w' k t = cw_draft w k t \<and> cw_staged w' k t = cw_staged w k t
      \<and> cw_decided w' k t = cw_decided w k t"
      if "k \<noteq> ?k" for k t
      using other [OF that] that
      by (cases "js_get (cw_states w) k") (simp_all add: cw_val_def cw_draft_def cw_staged_def cw_decided_def)
    with \<open>cw_ok w'\<close> show ?thesis by blast
  qed
qed

lemma state_agent_ops: "target_ops (state_agent dl dr clk) b = Some ops \<Longrightarrow> \<exists>fate. ops = state_ops fate"
  by (auto simp: target_ops_def state_agent_def split: if_splits)

lemma cw_views_set:
  "cw_val \<lparr> cw_storage = s', cw_states = js_set k ts' m \<rparr> k = Some (ts_val (s', ts'))"
  "cw_draft \<lparr> cw_storage = s', cw_states = js_set k ts' m \<rparr> k t = Some (ts_draft t (s', ts'))"
  "cw_staged \<lparr> cw_storage = s', cw_states = js_set k ts' m \<rparr> k t = ts_staged t (s', ts')"
  "cw_decided \<lparr> cw_storage = s', cw_states = js_set k ts' m \<rparr> k t = ts_decided t (s', ts')"
  by (simp_all add: cw_val_def cw_draft_def cw_staged_def cw_decided_def js_get_set)

lemma cw_views_at:
  assumes "js_get (cw_states w) k = Some ts"
  shows "cw_val w k = Some (ts_val (cw_storage w, ts))" "cw_draft w k t = Some (ts_draft t (cw_storage w, ts))"
    "cw_staged w k t = ts_staged t (cw_storage w, ts)" "cw_decided w k t = ts_decided t (cw_storage w, ts)"
  using assms by (simp_all add: cw_val_def cw_draft_def cw_staged_def cw_decided_def)

lemma cw_ok_at: "cw_ok w \<Longrightarrow> js_get (cw_states w) k = Some ts \<Longrightarrow> ts_inv (cw_storage w, ts)"
  by (simp add: cw_ok_def)

lemma state_prepare_law:
  assumes "cw_ok w" "ro_prepare (state_ops fate) pid t stamp m w = (w', p)"
  shows "cw_ok w' \<and> cw_val w' = cw_val w \<and> (\<forall>k. cw_draft w' k t = cw_draft w k t)
    \<and> (p = Inr True \<longrightarrow> cw_staged w' (participantKey pid) t)
    \<and> (\<forall>k. k \<noteq> participantKey pid \<longrightarrow> cw_staged w k t \<longrightarrow> cw_staged w' k t)
    \<and> (\<forall>k. cw_decided w' k t = cw_decided w k t)"
proof -
  let ?k = "participantKey pid" and ?f = "\<lambda>w. ts_prepare w t stamp m"
  have call: "on_state (fate PrepareCall ?k) ?f pid w = (w', p)" using assms(2) by (simp add: state_ops_def)
  note other = on_state_frame [OF assms(1) prepare_frame call]
  have here: "cw_val w' ?k = cw_val w ?k \<and> cw_draft w' ?k t = cw_draft w ?k t \<and> (p = Inr True \<longrightarrow> cw_staged w' ?k t)
      \<and> cw_decided w' ?k t = cw_decided w ?k t"
  proof (cases rule: on_state_cases [OF call])
    case (2 ts)
    note inv = cw_ok_at [OF assms(1) 2(1)]
    from prepare_local [OF inv, of t stamp m] calls_keep_decided(1) [OF inv, of t t stamp m] show ?thesis
      unfolding 2(2) by (simp add: cw_views_set cw_views_at [OF 2(1)])
  qed auto
  have "cw_val w' = cw_val w" using other here by (intro ext) metis
  moreover have "\<forall>k. cw_draft w' k t = cw_draft w k t" using other here by metis
  moreover have "\<forall>k. cw_decided w' k t = cw_decided w k t" using other here by metis
  ultimately show ?thesis using other here by blast
qed

lemma state_record_law:
  assumes "cw_ok w" "ro_recordCommit (state_ops fate) pid t stamp ws w = (w', r)"
  shows "cw_ok w' \<and> cw_val w' = cw_val w \<and> (\<forall>k. cw_draft w' k t = cw_draft w k t)
    \<and> (\<forall>k. cw_staged w k t \<longrightarrow> cw_staged w' k t) \<and> (r = Inr () \<longrightarrow> cw_decided w' (participantKey pid) t)"
proof -
  let ?k = "participantKey pid" and ?f = "\<lambda>w. ts_recordCommit w t stamp ws"
  have call: "on_state (fate RecordCall ?k) ?f pid w = (w', r)" using assms(2) by (simp add: state_ops_def)
  note other = on_state_frame [OF assms(1) record_frame call]
  have here: "cw_val w' ?k = cw_val w ?k \<and> cw_draft w' ?k t = cw_draft w ?k t \<and> (cw_staged w ?k t \<longrightarrow> cw_staged w' ?k t)
      \<and> (r = Inr () \<longrightarrow> cw_decided w' ?k t)"
  proof (cases rule: on_state_cases [OF call])
    case (2 ts)
    note inv = cw_ok_at [OF assms(1) 2(1)]
    from record_local [OF inv, of t stamp ws t] record_decides [OF inv, of t stamp ws] show ?thesis
      unfolding 2(2) by (simp add: cw_views_set cw_views_at [OF 2(1)])
  qed auto
  have "cw_val w' = cw_val w" using other here by (intro ext) metis
  moreover have "\<forall>k. cw_draft w' k t = cw_draft w k t" using other here by metis
  moreover have "\<forall>k. cw_staged w k t \<longrightarrow> cw_staged w' k t" using other here by metis
  ultimately show ?thesis using other here by blast
qed

lemma state_commit_law:
  assumes "cw_ok w" "cw_staged w (participantKey pid) t" "ro_commit (state_ops fate) pid t w = (w', r)"
  shows "cw_ok w' \<and> (r = Inr () \<longrightarrow> cw_val w' (participantKey pid) = cw_draft w (participantKey pid) t)
    \<and> (cw_val w' (participantKey pid) = cw_draft w (participantKey pid) t
        \<or> cw_val w' (participantKey pid) = cw_val w (participantKey pid)
          \<and> cw_draft w' (participantKey pid) t = cw_draft w (participantKey pid) t \<and> cw_staged w' (participantKey pid) t)
    \<and> (\<forall>k. k \<noteq> participantKey pid \<longrightarrow> cw_val w' k = cw_val w k \<and> cw_draft w' k t = cw_draft w k t
        \<and> (cw_staged w k t \<longrightarrow> cw_staged w' k t))
    \<and> (\<forall>k. cw_decided w' k t = cw_decided w k t)"
proof -
  let ?k = "participantKey pid" and ?f = "\<lambda>w. case ts_commit w t of (w', _, r) \<Rightarrow> (w', r)"
  have call: "on_state (fate CommitCall ?k) ?f pid w = (w', r)" using assms(3) by (simp add: state_ops_def)
  have f: "fst (?f x) = fst (ts_commit x t)" for x :: "'a tx_world"
    by (simp add: case_prod_beta)
  have "frame s ts (fst (?f (s, ts)))" if "ts_inv (s, ts)" for s :: "'a tx_storage" and ts
    using commit_frame [OF that] by (simp add: f)
  note other = on_state_frame [OF assms(1) this call]
  have here: "(cw_val w' ?k = cw_draft w ?k t \<or> w' = w \<and> isl r) \<and> cw_decided w' ?k t = cw_decided w ?k t"
  proof (cases rule: on_state_cases [OF call])
    case (2 ts)
    note inv = cw_ok_at [OF assms(1) 2(1)]
    from assms(2) 2(1) have "ts_staged t (cw_storage w, ts)" by (simp add: cw_staged_def)
    from commit_local [OF inv this] calls_keep_decided(2) [OF inv, of t t] show ?thesis
      unfolding 2(2) f by (simp add: cw_views_set cw_views_at [OF 2(1)])
  qed auto
  have "\<forall>k. cw_decided w' k t = cw_decided w k t" using other here by metis
  with other here assms(2) show ?thesis by (cases r) auto
qed

lemma state_abort_law:
  assumes "cw_ok w" "ro_abort (state_ops fate) pid t w = (w', r)"
  shows "cw_ok w' \<and> cw_val w' = cw_val w \<and> (\<forall>k. cw_decided w' k t = cw_decided w k t)"
proof -
  let ?k = "participantKey pid" and ?f = "\<lambda>w. case ts_abort w t of (w', _, r) \<Rightarrow> (w', r)"
  have call: "on_state (fate AbortCall ?k) ?f pid w = (w', r)" using assms(2) by (simp add: state_ops_def)
  have f: "fst (?f x) = fst (ts_abort x t)" for x :: "'a tx_world" by (simp add: case_prod_beta)
  have "frame s ts (fst (?f (s, ts)))" if "ts_inv (s, ts)" for s :: "'a tx_storage" and ts
    using abort_frame [OF that] by (simp add: f)
  note other = on_state_frame [OF assms(1) this call]
  have here: "cw_val w' ?k = cw_val w ?k \<and> cw_decided w' ?k t = cw_decided w ?k t"
  proof (cases rule: on_state_cases [OF call])
    case (2 ts)
    note inv = cw_ok_at [OF assms(1) 2(1)]
    from abort_local [OF inv, of t] calls_keep_decided(3) [OF inv, of t t] show ?thesis
      unfolding 2(2) f by (simp add: cw_views_set cw_views_at [OF 2(1)])
  qed auto
  have "cw_val w' = cw_val w" using other here by (intro ext) metis
  moreover have "\<forall>k. cw_decided w' k t = cw_decided w k t" using other here by metis
  ultimately show ?thesis using other by blast
qed

interpretation tx_states: two_phase_resources "state_agent dl dr clk" cw_ok cw_val cw_draft cw_staged cw_decided
  for dl dr clk
proof (unfold_locales, goal_cases)
  case (1 b ops w pid t stamp m w' p)
  then obtain fate where "ops = state_ops fate" using state_agent_ops by blast
  with 1 show ?case using state_prepare_law [of w fate pid t stamp m w' p] by blast
next
  case (2 b ops w pid t stamp ws w' r)
  then obtain fate where "ops = state_ops fate" using state_agent_ops by blast
  with 2 show ?case using state_record_law [of w fate pid t stamp ws w' r] by blast
next
  case (3 b ops w pid t w' r)
  then obtain fate where "ops = state_ops fate" using state_agent_ops by blast
  with 3 show ?case using state_commit_law [of w pid t fate w' r] by blast
next
  case (4 b ops w pid t w' r)
  then obtain fate where "ops = state_ops fate" using state_agent_ops by blast
  with 4 show ?case using state_abort_law [of w fate pid t w' r] by blast
qed

text \<open>The values of an enlisted state before and after: the draft was applied, or nothing changed and the
  draft is still durably staged.\<close>

definition cw_applied_or_staged :: "'a cluster_world \<Rightarrow> 'a cluster_world \<Rightarrow> string \<Rightarrow> string \<Rightarrow> bool" where
  "cw_applied_or_staged w w' t k \<longleftrightarrow> cw_val w' k = cw_draft w k t \<or>
     cw_val w' k = cw_val w k \<and> cw_draft w' k t = cw_draft w k t \<and> cw_staged w' k t"

text \<open>C1: Atomic commitment under lost calls and lost replies. The participants are transactional states that
  stay activated while \<open>resolve\<close> runs, no other transaction's call lands on them meanwhile, and each call of
  the protocol (the prepare, the commit record, the commit or the abort of each participant, separately) is
  answered, is lost without effect, or takes effect with its reply lost. Then no state outside the
  enlisted ones changes, and \<open>resolve\<close> ends in one of three ways. Committed: the elected manager durably
  holds the commit record, and every enlisted state either holds the value drafted for it or is unchanged
  with that draft still durably staged; when \<open>resolve\<close> returns, all of them hold their drafted value, and
  otherwise it throws the in-doubt error. Aborted: it throws, no durable value changed and no commit record
  was written anywhere. Still resolving, because the commit record was not acknowledged: it throws the
  in-doubt error, no durable value changed and every enlisted state keeps its draft durably staged.\<close>

theorem transaction_atomic:
  assumes "cw_ok w" "distinct (map (\<lambda>e. participantKey (en_id e)) (js_values (ti_participants info)))"
    and "resolve (state_agent dl dr clk) info w = (w', info', r)"
  shows "let es = js_values (ti_participants info); t = ti_id info; key = (\<lambda>e. participantKey (en_id e)) in
      (\<forall>k. k \<notin> key ` set es \<longrightarrow> cw_val w' k = cw_val w k)
      \<and> (ti_status info' = Some StCommitted \<and> (r = Inr () \<or> (\<exists>c. r = Inl (TransactionInDoubtError t c)))
           \<and> (r = Inr () \<longrightarrow> (\<forall>e \<in> set es. cw_val w' (key e) = cw_draft w (key e) t))
           \<and> (\<forall>e \<in> set es. cw_applied_or_staged w w' t (key e))
           \<and> (\<forall>m. electManager es = Some m \<longrightarrow> cw_decided w' (participantKey (em_id m)) t)
         \<or> ti_status info' = Some StAborted \<and> isl r \<and> cw_val w' = cw_val w
           \<and> (\<forall>k. cw_decided w' k t = cw_decided w k t)
         \<or> ti_status info' = Some StResolving \<and> (\<exists>c. r = Inl (TransactionInDoubtError t c)) \<and> cw_val w' = cw_val w
           \<and> (\<forall>e \<in> set es. cw_draft w' (key e) t = cw_draft w (key e) t \<and> cw_staged w' (key e) t))"
  using tx_states.resolve_atomic [OF assms]
  unfolding tx_states.resolve_outcome_def tx_states.applied_or_staged_def cw_applied_or_staged_def Let_def .

definition demo_other :: "int tx_world" where
  "demo_other = ts_run (fst (ts_load None newTxStorage (newTransactionalState other_pid 0 defaultTransactionsOptions)))
     (OpUpdate (Some (demo_tx ''t'' 1)) (\<lambda>v. v + 9))"

definition demo_cluster :: "int cluster_world" where
  "demo_cluster = \<lparr> cw_storage = newTxStorage,
     cw_states = [(participantKey demo_pid, snd demo_updated), (participantKey other_pid, snd demo_other)] \<rparr>"

definition demo_info :: transaction_info where
  "demo_info = enlist other_pid StateParticipant 0 1 (enlist demo_pid StateParticipant 0 1 (demo_tx ''t'' 1))"

definition demo_fates :: call_fates where
  "demo_fates = (\<lambda>kind k. if kind = CommitCall \<and> k = participantKey other_pid then CallLost else Answered)"

definition demo_agent :: "int cluster_world transaction_agent" where
  "demo_agent = state_agent demo_fates None 0"

lemma demo_other_reachable: "ts_reachable demo_other"
  unfolding demo_other_def
  by (intro ts_reachable.step ts_reachable.activate)
     (simp_all add: storage_wf_new, simp add: newTxStorage_def tx_load_def emptyRecord_def record_ids_def)

lemma demo_cluster_ok: "cw_ok demo_cluster"
proof -
  have "fst demo_updated = newTxStorage" "fst demo_other = newTxStorage" by code_simp+
  then have "ts_inv (newTxStorage, snd demo_updated)" "ts_inv (newTxStorage, snd demo_other)"
    using ts_reachable_inv [OF demo_updated_reachable] ts_reachable_inv [OF demo_other_reachable]
    by (metis prod.collapse)+
  moreover have "ts_pid (snd demo_updated) = demo_pid" "ts_pid (snd demo_other) = other_pid" by code_simp+
  ultimately show ?thesis by (auto simp: cw_ok_def demo_cluster_def split: if_splits)
qed

text \<open>Both states prepare and the commit is recorded, then the second state's commit is lost.\<close>

theorem transaction_atomic_witness:
  "let w' = fst (resolve demo_agent demo_info demo_cluster) in
   cw_val w' (participantKey demo_pid) = Some 7 \<and> cw_val w' (participantKey other_pid) = Some 0
   \<and> cw_draft w' (participantKey other_pid) ''t'' = Some 9 \<and> cw_staged w' (participantKey other_pid) ''t''
   \<and> cw_decided w' (participantKey demo_pid) ''t''"
proof -
  let ?es = "js_values (ti_participants demo_info)"
  obtain w' info' r where res: "resolve demo_agent demo_info demo_cluster = (w', info', r)" by (metis prod.collapse)
  have "ti_status (fst (snd (resolve demo_agent demo_info demo_cluster))) = Some StCommitted"
    "cw_val (fst (resolve demo_agent demo_info demo_cluster)) (participantKey demo_pid) = Some 7"
    "cw_val (fst (resolve demo_agent demo_info demo_cluster)) (participantKey other_pid) = Some 0" by code_simp+
  with res have st: "ti_status info' = Some StCommitted" "cw_val w' (participantKey demo_pid) = Some 7"
    "cw_val w' (participantKey other_pid) = Some 0" by simp_all
  have es: "length ?es = 2" "en_id (?es ! 1) = other_pid" "ti_id demo_info = ''t''"
    "electManager ?es = Some \<lparr> em_id = demo_pid, em_local = True \<rparr>" by code_simp+
  have dist: "distinct (map (\<lambda>e. participantKey (en_id e)) ?es)" by code_simp
  have d: "cw_draft demo_cluster (participantKey other_pid) ''t'' = Some 9" by code_simp
  from transaction_atomic [OF demo_cluster_ok dist res [unfolded demo_agent_def]] st(1)
  have "\<forall>e \<in> set ?es. cw_applied_or_staged demo_cluster w' (ti_id demo_info) (participantKey (en_id e))"
    "cw_decided w' (participantKey demo_pid) ''t''" by (simp_all add: Let_def es(3,4))
  moreover have "?es ! 1 \<in> set ?es" using es(1) by (metis nth_mem one_less_numeral_iff semiring_norm(76))
  ultimately show ?thesis using res st d es(2,3) unfolding cw_applied_or_staged_def Let_def by force
qed

end
