(* ===== verification/Turn_Scheduler.thy ===== *)
theory Turn_Scheduler
  imports Thresh_Prelude
begin

text \<open>
  \<^verbatim>\<open>runtime/src/turn-scheduler.ts\<close>: the per-activation scheduler of turns. A promise returned by
  \<open>schedule\<close> is a ticket; what happens to it later is the list of events each operation emits (started,
  rejected). A running turn ends by the step \<open>complete\<close>, at any moment the environment chooses; the
  stuck-turn watchdog is the step \<open>watchdog\<close>, and the firing of a cancellation signal the step
  \<open>fire_signal\<close>. Warnings written to the logger have no state and are left out.

  Shown: no turn that could be admitted ever waits; the shortcut that stops \<open>pump\<close> early never changes its
  result; the bounded queue; the first-turn barrier; for a plain grain turns run one at a time in arrival
  order; what a stuck activation does. One divergence from the comments is proved on a run: an exclusive
  turn is started while a read-only turn is still running.
\<close>

datatype turn_error = LimitExceeded string nat nat | GrainCallAborted | StuckRejection string

record 'v turn =
  tu_alwaysInterleave :: bool
  tu_readOnly :: bool
  tu_reentrancyId :: "string option"
  tu_method :: "string option"
  tu_args :: "'v list option"

text \<open>A queued turn and a running turn, both named by the ticket of their promise.\<close>

record 'v queued_turn =
  qt_ticket :: nat
  qt_turn :: "'v turn"

record 'v running_turn =
  rt_ticket :: nat
  rt_turn :: "'v turn"
  rt_overdue :: bool
  rt_isFirst :: bool

record 'v scheduler_options =
  so_reentrant :: bool
  so_barrierFirstTurn :: bool
  so_hardLimit :: "nat option"
  so_maxRequestProcessingTimeMs :: "int option"
  so_onStuck :: "('v turn \<Rightarrow> string) option"

record 'v scheduler =
  sc_options :: "'v scheduler_options"
  sc_mayInterleave :: "(string \<Rightarrow> 'v list \<Rightarrow> bool) option"
  sc_queue :: "'v queued_turn list"
  sc_queuedAlwaysInterleave :: nat
  sc_queuedReadOnly :: nat
  sc_running :: "'v running_turn list"
  sc_blocking :: "'v running_turn option"
  sc_sections :: "(string, nat) js_map"
  sc_firstTurnSeen :: bool
  sc_firstTurnSettled :: bool
  sc_stuck :: "string option"
  sc_fired :: "nat list"
  sc_next :: nat

datatype turn_event = Started nat | RejectedTurn nat turn_error

definition newScheduler :: "'v scheduler_options \<Rightarrow> (string \<Rightarrow> 'v list \<Rightarrow> bool) option \<Rightarrow> 'v scheduler" where
  "newScheduler opts pred = \<lparr> sc_options = opts, sc_mayInterleave = pred, sc_queue = [], sc_queuedAlwaysInterleave = 0,
     sc_queuedReadOnly = 0, sc_running = [], sc_blocking = None, sc_sections = [], sc_firstTurnSeen = False,
     sc_firstTurnSettled = False, sc_stuck = None, sc_fired = [], sc_next = 0 \<rparr>"

definition sc_busy :: "'v scheduler \<Rightarrow> bool" where
  "sc_busy s \<longleftrightarrow> 0 < length (sc_running s) \<or> 0 < length (sc_queue s)"

definition sc_load :: "'v scheduler \<Rightarrow> nat" where
  "sc_load s = length (sc_running s) + length (sc_queue s)"

definition matchesMayInterleave :: "(string \<Rightarrow> 'v list \<Rightarrow> bool) \<Rightarrow> string option \<Rightarrow> 'v list option \<Rightarrow> bool" where
  "matchesMayInterleave pred method args = (case method of None \<Rightarrow> False
     | Some m \<Rightarrow> pred m (case args of Some a \<Rightarrow> a | None \<Rightarrow> []))"

definition mayAdmit :: "'v scheduler \<Rightarrow> 'v turn \<Rightarrow> bool" where
  "mayAdmit s t =
     (if length (sc_running s) = 0 then True
      else if so_barrierFirstTurn (sc_options s) \<and> \<not> sc_firstTurnSettled s then False
      else if so_reentrant (sc_options s) then True
      else if tu_alwaysInterleave t then True
      else (case sc_blocking s of
              None \<Rightarrow> True
            | Some b \<Rightarrow>
                if tu_readOnly t \<and> tu_readOnly (rt_turn b) then True
                else if (case tu_reentrancyId t of None \<Rightarrow> False | Some rid \<Rightarrow> js_has (sc_sections s) rid) then True
                else (case sc_mayInterleave s of
                        None \<Rightarrow> False
                      | Some pred \<Rightarrow> matchesMayInterleave pred (tu_method t) (tu_args t)
                          \<or> matchesMayInterleave pred (tu_method (rt_turn b)) (tu_args (rt_turn b)))))"

definition noQueuedTurnAdmissible :: "'v scheduler \<Rightarrow> bool" where
  "noQueuedTurnAdmissible s =
     (if length (sc_running s) = 0 then False
      else if so_barrierFirstTurn (sc_options s) \<and> \<not> sc_firstTurnSettled s then True
      else if so_reentrant (sc_options s) then False
      else (case sc_blocking s of
              None \<Rightarrow> False
            | Some b \<Rightarrow>
                if 0 < sc_queuedAlwaysInterleave s then False
                else if tu_readOnly (rt_turn b) \<and> 0 < sc_queuedReadOnly s then False
                else length (sc_sections s) = 0 \<and> sc_mayInterleave s = None))"

definition sc_start :: "'v scheduler \<Rightarrow> 'v queued_turn \<Rightarrow> 'v scheduler \<times> turn_event list" where
  "sc_start s item =
     (if qt_ticket item \<in> set (sc_fired s) then (s, [RejectedTurn (qt_ticket item) GrainCallAborted])
      else
        (let running = \<lparr> rt_ticket = qt_ticket item, rt_turn = qt_turn item, rt_overdue = False,
                         rt_isFirst = (\<not> sc_firstTurnSeen s) \<rparr>
         in (s\<lparr> sc_firstTurnSeen := True, sc_running := sc_running s @ [running],
                sc_blocking := (if sc_blocking s = None \<and> \<not> tu_alwaysInterleave (qt_turn item) then Some running
                                else sc_blocking s) \<rparr>,
             [Started (qt_ticket item)])))"

definition enqueue :: "'v scheduler \<Rightarrow> 'v queued_turn \<Rightarrow> 'v scheduler" where
  "enqueue s item = s\<lparr> sc_queue := sc_queue s @ [item],
     sc_queuedAlwaysInterleave := sc_queuedAlwaysInterleave s + (if tu_alwaysInterleave (qt_turn item) then 1 else 0),
     sc_queuedReadOnly := sc_queuedReadOnly s + (if tu_readOnly (qt_turn item) then 1 else 0) \<rparr>"

definition dequeueAt :: "'v scheduler \<Rightarrow> nat \<Rightarrow> 'v scheduler \<times> 'v queued_turn" where
  "dequeueAt s i =
     (let item = sc_queue s ! i in
      (s\<lparr> sc_queue := take i (sc_queue s) @ drop (Suc i) (sc_queue s),
          sc_queuedAlwaysInterleave := sc_queuedAlwaysInterleave s - (if tu_alwaysInterleave (qt_turn item) then 1 else 0),
          sc_queuedReadOnly := sc_queuedReadOnly s - (if tu_readOnly (qt_turn item) then 1 else 0) \<rparr>, item))"

lemma start_queue [simp]: "sc_queue (fst (sc_start s item)) = sc_queue s"
  by (simp add: sc_start_def Let_def)

lemma length_dequeue: "i < length (sc_queue s) \<Longrightarrow> length (sc_queue (fst (dequeueAt s i))) = length (sc_queue s) - 1"
  by (auto simp: dequeueAt_def Let_def)

text \<open>One admission of the scan: take the item out of the queue, then start it.\<close>

definition admitAt :: "'v scheduler \<Rightarrow> nat \<Rightarrow> 'v scheduler \<times> turn_event list" where
  "admitAt s i = sc_start (fst (dequeueAt s i)) (snd (dequeueAt s i))"

lemma length_admit: "i < length (sc_queue s) \<Longrightarrow> length (sc_queue (fst (admitAt s i))) = length (sc_queue s) - 1"
  by (simp add: admitAt_def length_dequeue)

function sc_pump_from :: "'v scheduler \<Rightarrow> nat \<Rightarrow> 'v scheduler \<times> turn_event list" where
  "sc_pump_from s i =
     (if i < length (sc_queue s) then
        (if noQueuedTurnAdmissible s then (s, [])
         else if mayAdmit s (qt_turn (sc_queue s ! i)) then
           (fst (sc_pump_from (fst (admitAt s i)) i), snd (admitAt s i) @ snd (sc_pump_from (fst (admitAt s i)) i))
         else sc_pump_from s (Suc i))
      else (s, []))"
  by pat_completeness auto
termination
  by (relation "measure (\<lambda>(s, i). length (sc_queue s) - i)") (simp_all add: length_admit)

declare sc_pump_from.simps [simp del]

definition sc_pump :: "'v scheduler \<Rightarrow> 'v scheduler \<times> turn_event list" where
  "sc_pump s = sc_pump_from s 0"

definition deactivateIfStuck :: "'v scheduler \<Rightarrow> 'v scheduler \<times> turn_event list" where
  "deactivateIfStuck s =
     (case so_onStuck (sc_options s) of
        None \<Rightarrow> (s, [])
      | Some onStuck \<Rightarrow>
          if sc_stuck s \<noteq> None then (s, [])
          else (case sc_blocking s of
                  None \<Rightarrow> (s, [])
                | Some b \<Rightarrow>
                    if \<not> rt_overdue b \<or> length (sc_queue s) = 0 then (s, [])
                    else (let rejection = onStuck (rt_turn b) in
                          (s\<lparr> sc_stuck := Some rejection, sc_queue := [], sc_queuedAlwaysInterleave := 0,
                              sc_queuedReadOnly := 0 \<rparr>,
                           map (\<lambda>item. RejectedTurn (qt_ticket item) (StuckRejection rejection)) (sc_queue s)))))"

definition schedule :: "'v scheduler \<Rightarrow> 'v turn \<Rightarrow> 'v scheduler \<times> turn_event list" where
  "schedule s0 turn =
     (let ticket = sc_next s0; s = s0\<lparr> sc_next := Suc ticket \<rparr>; item = \<lparr> qt_ticket = ticket, qt_turn = turn \<rparr> in
      case sc_stuck s of
        Some rejection \<Rightarrow> (s, [RejectedTurn ticket (StuckRejection rejection)])
      | None \<Rightarrow>
          if (case so_hardLimit (sc_options s) of None \<Rightarrow> False | Some h \<Rightarrow> h \<le> length (sc_queue s))
          then (s, [RejectedTurn ticket (LimitExceeded ''MaxEnqueuedRequestsHardLimit'' (length (sc_queue s))
                      (the (so_hardLimit (sc_options s))))])
          else if mayAdmit s turn then sc_start s item
          else deactivateIfStuck (enqueue s item))"

text \<open>The \<open>finally\<close> of a started turn.\<close>

definition complete :: "'v scheduler \<Rightarrow> nat \<Rightarrow> 'v scheduler \<times> turn_event list" where
  "complete s ticket =
     (case find (\<lambda>r. rt_ticket r = ticket) (sc_running s) of
        None \<Rightarrow> (s, [])
      | Some running \<Rightarrow>
          sc_pump (s\<lparr> sc_running := filter (\<lambda>r. rt_ticket r \<noteq> ticket) (sc_running s),
                      sc_blocking := (case sc_blocking s of
                          Some b \<Rightarrow> if rt_ticket b = ticket then None else Some b | None \<Rightarrow> None),
                      sc_firstTurnSettled := (sc_firstTurnSettled s \<or> rt_isFirst running) \<rparr>))"

text \<open>The watchdog's timer of one running turn; the blocking turn is one object with its entry in \<open>running\<close>.\<close>

definition watchdog :: "'v scheduler \<Rightarrow> nat \<Rightarrow> 'v scheduler \<times> turn_event list" where
  "watchdog s ticket =
     (if so_maxRequestProcessingTimeMs (sc_options s) = None then (s, [])
      else (case sc_blocking s of
              None \<Rightarrow> (s, [])
            | Some b \<Rightarrow>
                if rt_ticket b \<noteq> ticket then (s, [])
                else (let s1 = s\<lparr> sc_blocking := Some (b\<lparr> rt_overdue := True \<rparr>),
                                  sc_running := map (\<lambda>r. if rt_ticket r = ticket then r\<lparr> rt_overdue := True \<rparr> else r)
                                                  (sc_running s) \<rparr>
                      in if 0 < length (sc_queue s1) then deactivateIfStuck s1 else (s1, []))))"

definition setMayInterleave :: "'v scheduler \<Rightarrow> (string \<Rightarrow> 'v list \<Rightarrow> bool) option \<Rightarrow> 'v scheduler \<times> turn_event list" where
  "setMayInterleave s pred = sc_pump (s\<lparr> sc_mayInterleave := pred \<rparr>)"

definition enterReentrantSection :: "'v scheduler \<Rightarrow> string \<Rightarrow> 'v scheduler \<times> turn_event list" where
  "enterReentrantSection s rid =
     sc_pump (s\<lparr> sc_sections := js_set rid ((case js_get (sc_sections s) rid of Some n \<Rightarrow> n | None \<Rightarrow> 0) + 1) (sc_sections s) \<rparr>)"

definition exitReentrantSection :: "'v scheduler \<Rightarrow> string \<Rightarrow> 'v scheduler" where
  "exitReentrantSection s rid =
     (let next = int (case js_get (sc_sections s) rid of Some n \<Rightarrow> n | None \<Rightarrow> 0) - 1 in
      if next \<le> 0 then s\<lparr> sc_sections := js_delete rid (sc_sections s) \<rparr>
      else s\<lparr> sc_sections := js_set rid (nat next) (sc_sections s) \<rparr>)"

definition fire_signal :: "'v scheduler \<Rightarrow> nat \<Rightarrow> 'v scheduler" where
  "fire_signal s ticket = s\<lparr> sc_fired := ticket # sc_fired s \<rparr>"

section \<open>Invariant\<close>

definition sc_core :: "'v scheduler \<Rightarrow> bool" where
  "sc_core s \<longleftrightarrow>
     sc_queuedAlwaysInterleave s = length (filter (\<lambda>q. tu_alwaysInterleave (qt_turn q)) (sc_queue s))
   \<and> sc_queuedReadOnly s = length (filter (\<lambda>q. tu_readOnly (qt_turn q)) (sc_queue s))
   \<and> (\<forall>b. sc_blocking s = Some b \<longrightarrow> b \<in> set (sc_running s) \<and> \<not> tu_alwaysInterleave (rt_turn b))
   \<and> distinct (map rt_ticket (sc_running s) @ map qt_ticket (sc_queue s))
   \<and> (\<forall>n \<in> set (map rt_ticket (sc_running s) @ map qt_ticket (sc_queue s)). n < sc_next s)
   \<and> (sc_firstTurnSeen s \<and> \<not> sc_firstTurnSettled s \<longrightarrow> (\<exists>r \<in> set (sc_running s). rt_isFirst r))
   \<and> (so_barrierFirstTurn (sc_options s) \<and> \<not> sc_firstTurnSettled s \<longrightarrow> length (sc_running s) \<le> 1)
   \<and> (sc_stuck s \<noteq> None \<longrightarrow> sc_queue s = [])
   \<and> (\<forall>h. so_hardLimit (sc_options s) = Some h \<longrightarrow> length (sc_queue s) \<le> h)"

definition sc_idle :: "'v scheduler \<Rightarrow> bool" where
  "sc_idle s \<longleftrightarrow> (\<forall>q \<in> set (sc_queue s). \<not> mayAdmit s (qt_turn q))"

definition fresh_item :: "'v scheduler \<Rightarrow> 'v queued_turn \<Rightarrow> bool" where
  "fresh_item s item \<longleftrightarrow> qt_ticket item < sc_next s
     \<and> qt_ticket item \<notin> set (map rt_ticket (sc_running s) @ map qt_ticket (sc_queue s))"

lemma mayAdmit_queue [simp]:
  "mayAdmit (s\<lparr> sc_queue := q \<rparr>) t = mayAdmit s t" "mayAdmit (s\<lparr> sc_queuedAlwaysInterleave := a \<rparr>) t = mayAdmit s t"
  "mayAdmit (s\<lparr> sc_queuedReadOnly := b \<rparr>) t = mayAdmit s t" "mayAdmit (s\<lparr> sc_next := n \<rparr>) t = mayAdmit s t"
  "mayAdmit (s\<lparr> sc_stuck := x \<rparr>) t = mayAdmit s t" "mayAdmit (s\<lparr> sc_fired := f \<rparr>) t = mayAdmit s t"
  by (simp_all add: mayAdmit_def cong: option.case_cong if_cong)

lemma start_core:
  assumes "sc_core s" "fresh_item s item" "mayAdmit s (qt_turn item)"
  shows "sc_core (fst (sc_start s item))"
proof (cases "qt_ticket item \<in> set (sc_fired s)")
  case True
  with assms(1) show ?thesis by (simp add: sc_start_def)
next
  case False
  have "sc_running s = []" if "so_barrierFirstTurn (sc_options s)" "\<not> sc_firstTurnSettled s"
    using assms(3) that by (simp add: mayAdmit_def split: if_splits)
  with False assms(1,2) show ?thesis
    by (auto simp: sc_core_def sc_start_def fresh_item_def Let_def)
qed

lemma dequeue_split:
  assumes "i < length (sc_queue s)"
  obtains pre x post where "sc_queue s = pre @ x # post" "length pre = i" "snd (dequeueAt s i) = x"
    "sc_queue (fst (dequeueAt s i)) = pre @ post"
proof -
  have "sc_queue s = take i (sc_queue s) @ sc_queue s ! i # drop (Suc i) (sc_queue s)"
    using assms by (rule id_take_nth_drop)
  moreover have "length (take i (sc_queue s)) = i" using assms by simp
  ultimately show thesis
    using that [of "take i (sc_queue s)" "sc_queue s ! i" "drop (Suc i) (sc_queue s)"] by (simp add: dequeueAt_def Let_def)
qed

lemma dequeue_core:
  assumes "sc_core s" "i < length (sc_queue s)"
  shows "sc_core (fst (dequeueAt s i)) \<and> fresh_item (fst (dequeueAt s i)) (snd (dequeueAt s i))
    \<and> mayAdmit (fst (dequeueAt s i)) t = mayAdmit s t"
proof -
  obtain pre x post where q: "sc_queue s = pre @ x # post" "snd (dequeueAt s i) = x"
    "sc_queue (fst (dequeueAt s i)) = pre @ post" "length pre = i"
    using dequeue_split [OF assms(2)] by metis
  then have "fst (dequeueAt s i) = s\<lparr> sc_queue := pre @ post,
      sc_queuedAlwaysInterleave := sc_queuedAlwaysInterleave s - (if tu_alwaysInterleave (qt_turn x) then 1 else 0),
      sc_queuedReadOnly := sc_queuedReadOnly s - (if tu_readOnly (qt_turn x) then 1 else 0) \<rparr>"
    by (simp add: dequeueAt_def Let_def)
  with assms(1) q(1,2) show ?thesis
    unfolding sc_core_def fresh_item_def by auto
qed

lemma admit_core:
  assumes "sc_core s" "i < length (sc_queue s)" "mayAdmit s (qt_turn (sc_queue s ! i))"
  shows "sc_core (fst (admitAt s i))"
proof -
  have "snd (dequeueAt s i) = sc_queue s ! i" by (simp add: dequeueAt_def Let_def)
  with dequeue_core [OF assms(1,2)] assms(3) show ?thesis
    unfolding admitAt_def by (intro start_core) simp_all
qed

text \<open>Starting an admissible turn never makes a waiting, inadmissible one admissible.\<close>

lemma start_narrows:
  assumes "mayAdmit s t" "\<not> mayAdmit s t'"
  shows "\<not> mayAdmit (fst (sc_start s item)) t'"
proof -
  from assms obtain b where "sc_blocking s = Some b" "sc_running s \<noteq> []"
    by (auto simp: mayAdmit_def split: if_splits option.splits)
  then have "mayAdmit (fst (sc_start s item)) t' = mayAdmit s t'"
    by (simp add: sc_start_def Let_def mayAdmit_def cong: option.case_cong if_cong)
  with assms(2) show ?thesis by simp
qed

lemma admit_narrows:
  assumes "sc_core s" "i < length (sc_queue s)" "mayAdmit s t" "\<not> mayAdmit s t'"
  shows "\<not> mayAdmit (fst (admitAt s i)) t'"
  unfolding admitAt_def using start_narrows [of "fst (dequeueAt s i)" t t'] dequeue_core [OF assms(1,2)] assms(3,4) by simp

text \<open>The shortcut of \<open>pump\<close> is sound: it fires only when the scan would admit nothing.\<close>

lemma noQueued_sound:
  assumes "sc_core s" "noQueuedTurnAdmissible s" "q \<in> set (sc_queue s)"
  shows "\<not> mayAdmit s (qt_turn q)"
proof -
  have "tu_alwaysInterleave (qt_turn q) \<Longrightarrow> 0 < sc_queuedAlwaysInterleave s"
    "tu_readOnly (qt_turn q) \<Longrightarrow> 0 < sc_queuedReadOnly s"
    using assms(1,3) by (auto simp: sc_core_def filter_empty_conv)
  with assms(2) show ?thesis
    by (auto simp: noQueuedTurnAdmissible_def mayAdmit_def split: if_splits option.splits)
qed

lemma pump_establishes:
  assumes "sc_core s" "\<forall>j < i. j < length (sc_queue s) \<longrightarrow> \<not> mayAdmit s (qt_turn (sc_queue s ! j))"
  shows "sc_core (fst (sc_pump_from s i)) \<and> sc_idle (fst (sc_pump_from s i))"
  using assms
proof (induction s i rule: sc_pump_from.induct)
  case (1 s i)
  show ?case
  proof (cases "i < length (sc_queue s) \<and> \<not> noQueuedTurnAdmissible s")
    case False
    then have "fst (sc_pump_from s i) = s" by (subst sc_pump_from.simps) auto
    moreover have "sc_idle s"
      using False "1.prems" noQueued_sound [OF "1.prems"(1)] by (force simp: sc_idle_def in_set_conv_nth)
    ultimately show ?thesis using "1.prems"(1) by simp
  next
    case True
    then have i: "i < length (sc_queue s)" and go: "\<not> noQueuedTurnAdmissible s" by auto
    show ?thesis
    proof (cases "mayAdmit s (qt_turn (sc_queue s ! i))")
      case adm: True
      obtain pre x post where q: "sc_queue s = pre @ x # post" "length pre = i" "sc_queue (fst (dequeueAt s i)) = pre @ post"
        using dequeue_split [OF i] by metis
      have "sc_queue (fst (admitAt s i)) = pre @ post" using q(3) by (simp add: admitAt_def)
      moreover have "\<not> mayAdmit (fst (admitAt s i)) (qt_turn ((pre @ post) ! j))" if "j < i" for j
        using admit_narrows [OF "1.prems"(1) i adm] "1.prems"(2) that q(1,2) i by (simp add: nth_append)
      ultimately show ?thesis
        using "1.IH"(1) [OF i go adm] admit_core [OF "1.prems"(1) i adm] i go adm
        by (subst (1 2) sc_pump_from.simps) simp
    next
      case False
      then show ?thesis
        using "1.IH"(3) [OF i go False] "1.prems" i go
        by (subst (1 2) sc_pump_from.simps) (simp add: less_Suc_eq)
    qed
  qed
qed

lemma pump_ok: "sc_core s \<Longrightarrow> sc_core (fst (sc_pump s)) \<and> sc_idle (fst (sc_pump s))"
  unfolding sc_pump_def by (rule pump_establishes) simp_all

section \<open>Every operation keeps the invariant\<close>

lemma deactivate_ok:
  "sc_core s \<Longrightarrow> sc_idle s \<Longrightarrow> sc_core (fst (deactivateIfStuck s)) \<and> sc_idle (fst (deactivateIfStuck s))"
  by (auto simp: deactivateIfStuck_def Let_def sc_core_def sc_idle_def split: option.splits)

lemma core_next: "sc_core s \<Longrightarrow> sc_core (s\<lparr> sc_next := Suc (sc_next s) \<rparr>)"
  unfolding sc_core_def by (auto intro: less_SucI)

lemma start_idle: "mayAdmit s t \<Longrightarrow> sc_idle s \<Longrightarrow> sc_idle (fst (sc_start s item))"
  using start_narrows by (fastforce simp: sc_idle_def)

lemma enqueue_ok:
  assumes "sc_core s" "sc_idle s" "fresh_item s item" "\<not> mayAdmit s (qt_turn item)" "sc_stuck s = None"
    and "\<forall>h. so_hardLimit (sc_options s) = Some h \<longrightarrow> length (sc_queue s) < h"
  shows "sc_core (enqueue s item) \<and> sc_idle (enqueue s item)"
proof
  show "sc_idle (enqueue s item)" using assms(2,4) by (auto simp: sc_idle_def enqueue_def)
  show "sc_core (enqueue s item)" using assms(1,3,5,6) unfolding sc_core_def fresh_item_def enqueue_def by (auto simp: Suc_leI)
qed

lemma schedule_ok:
  assumes "sc_core s0" "sc_idle s0"
  shows "sc_core (fst (schedule s0 t)) \<and> sc_idle (fst (schedule s0 t))"
proof -
  let ?s = "s0\<lparr> sc_next := Suc (sc_next s0) \<rparr>" and ?item = "\<lparr> qt_ticket = sc_next s0, qt_turn = t \<rparr>"
  have core: "sc_core ?s" and idle: "sc_idle ?s"
    using assms core_next by (auto simp: sc_idle_def)
  have fresh: "fresh_item ?s ?item" using assms(1) unfolding sc_core_def fresh_item_def by force
  show ?thesis
  proof (cases "sc_stuck s0 \<noteq> None \<or> (case so_hardLimit (sc_options s0) of None \<Rightarrow> False | Some h \<Rightarrow> h \<le> length (sc_queue s0))")
    case True
    with core idle show ?thesis by (auto simp: schedule_def Let_def split: option.splits)
  next
    case False
    then have lim: "sc_stuck ?s = None" "\<forall>h. so_hardLimit (sc_options ?s) = Some h \<longrightarrow> length (sc_queue ?s) < h"
      by (auto split: option.splits)
    show ?thesis
    proof (cases "mayAdmit ?s t")
      case True
      then have "schedule s0 t = sc_start ?s ?item"
        using False by (cases "so_hardLimit (sc_options s0)") (simp_all add: schedule_def Let_def)
      then show ?thesis using start_core [OF core fresh] start_idle [of ?s t ?item] True idle by simp
    next
      case no: False
      then have "schedule s0 t = deactivateIfStuck (enqueue ?s ?item)"
        using False by (cases "so_hardLimit (sc_options s0)") (simp_all add: schedule_def Let_def)
      then show ?thesis using enqueue_ok [OF core idle fresh _ lim] no deactivate_ok [of "enqueue ?s ?item"] by simp
    qed
  qed
qed

lemma distinct_ticket_eq:
  "distinct (map rt_ticket rs) \<Longrightarrow> a \<in> set rs \<Longrightarrow> b \<in> set rs \<Longrightarrow> rt_ticket a = rt_ticket b \<Longrightarrow> a = b"
  by (metis distinct_map inj_onD)

text \<open>The scheduler after the running turn \<open>r\<close> has left, before it pumps.\<close>

definition leave :: "'v running_turn \<Rightarrow> 'v scheduler \<Rightarrow> 'v scheduler" where
  "leave r s = s\<lparr> sc_running := filter (\<lambda>x. rt_ticket x \<noteq> rt_ticket r) (sc_running s),
     sc_blocking := (case sc_blocking s of Some b \<Rightarrow> if rt_ticket b = rt_ticket r then None else Some b | None \<Rightarrow> None),
     sc_firstTurnSettled := (sc_firstTurnSettled s \<or> rt_isFirst r) \<rparr>"

lemma complete_leave:
  "complete s k = (s, []) \<and> (\<forall>r \<in> set (sc_running s). rt_ticket r \<noteq> k)
   \<or> (\<exists>r \<in> set (sc_running s). rt_ticket r = k \<and> complete s k = sc_pump (leave r s))"
proof (cases "find (\<lambda>r. rt_ticket r = k) (sc_running s)")
  case None
  then have "\<forall>r \<in> set (sc_running s). rt_ticket r \<noteq> k" by (auto simp: find_None_iff)
  moreover have "complete s k = (s, [])" using None by (simp add: complete_def)
  ultimately show ?thesis by blast
next
  case (Some r)
  then have "r \<in> set (sc_running s)" "rt_ticket r = k" by (auto simp: find_Some_iff)
  with Some show ?thesis by (auto simp: complete_def leave_def)
qed

lemma leave_core:
  assumes "sc_core s" "r \<in> set (sc_running s)"
  shows "sc_core (leave r s)"
proof -
  have dist: "distinct (map rt_ticket (sc_running s))" using assms(1) by (simp add: sc_core_def)
  have first: "\<exists>x \<in> set (sc_running s). rt_ticket x \<noteq> rt_ticket r \<and> rt_isFirst x"
    if "sc_firstTurnSeen s" "\<not> sc_firstTurnSettled s" "\<not> rt_isFirst r"
    using assms(1) that distinct_ticket_eq [OF dist _ assms(2)] unfolding sc_core_def by metis
  show ?thesis
    using assms(1) first unfolding sc_core_def leave_def
    by (auto simp: distinct_map_filter split: option.splits if_splits
        intro: le_trans [OF length_filter_le])
qed

lemma complete_ok:
  assumes "sc_core s" "sc_idle s"
  shows "sc_core (fst (complete s k)) \<and> sc_idle (fst (complete s k))"
proof (cases "complete s k = (s, [])")
  case True
  with assms show ?thesis by simp
next
  case False
  then obtain r where "r \<in> set (sc_running s)" "complete s k = sc_pump (leave r s)"
    using complete_leave [of s k] by blast
  with pump_ok [OF leave_core [OF assms(1)]] show ?thesis by simp
qed

lemma watchdog_ok:
  assumes "sc_core s" "sc_idle s"
  shows "sc_core (fst (watchdog s k)) \<and> sc_idle (fst (watchdog s k))"
proof (cases "\<exists>b. sc_blocking s = Some b \<and> rt_ticket b = k \<and> so_maxRequestProcessingTimeMs (sc_options s) \<noteq> None")
  case True
  then obtain b where b: "sc_blocking s = Some b" "rt_ticket b = k" "so_maxRequestProcessingTimeMs (sc_options s) \<noteq> None" by blast
  let ?mark = "\<lambda>r. if rt_ticket r = k then r\<lparr> rt_overdue := True \<rparr> else r"
  let ?s = "s\<lparr> sc_blocking := Some (b\<lparr> rt_overdue := True \<rparr>), sc_running := map ?mark (sc_running s) \<rparr>"
  have mark: "rt_ticket (?mark r) = rt_ticket r" "rt_isFirst (?mark r) = rt_isFirst r" for r by simp_all
  have tick: "map rt_ticket (map ?mark (sc_running s)) = map rt_ticket (sc_running s)" by (simp add: mark)
  have "b \<in> set (sc_running s)" "\<not> tu_alwaysInterleave (rt_turn b)" using assms(1) b(1) by (simp_all add: sc_core_def)
  then have blk: "b\<lparr> rt_overdue := True \<rparr> \<in> set (map ?mark (sc_running s))" "\<not> tu_alwaysInterleave (rt_turn (b\<lparr> rt_overdue := True \<rparr>))"
    using b(2) by (auto intro!: image_eqI [of _ _ b])
  have first: "(\<exists>r \<in> set (sc_running s). rt_isFirst r) \<Longrightarrow> (\<exists>r \<in> set (map ?mark (sc_running s)). rt_isFirst r)"
    by (metis (no_types, lifting) image_eqI list.set_map mark(2))
  have flds: "sc_running ?s = map ?mark (sc_running s)" "sc_blocking ?s = Some (b\<lparr> rt_overdue := True \<rparr>)"
    "sc_queue ?s = sc_queue s" "sc_options ?s = sc_options s" "sc_queuedAlwaysInterleave ?s = sc_queuedAlwaysInterleave s"
    "sc_queuedReadOnly ?s = sc_queuedReadOnly s" "sc_firstTurnSeen ?s = sc_firstTurnSeen s" "sc_next ?s = sc_next s"
    "sc_firstTurnSettled ?s = sc_firstTurnSettled s" "sc_stuck ?s = sc_stuck s" by simp_all
  have "sc_core ?s"
    using assms(1) blk first unfolding sc_core_def flds tick length_map by blast
  moreover have "sc_idle ?s"
    using assms(2) b(1) by (simp add: sc_idle_def mayAdmit_def cong: option.case_cong if_cong)
  ultimately show ?thesis
    using b deactivate_ok [of ?s] by (auto simp: watchdog_def Let_def)
next
  case False
  with assms show ?thesis by (auto simp: watchdog_def split: option.splits)
qed

lemma exit_ok:
  assumes "sc_core s" "sc_idle s"
  shows "sc_core (exitReentrantSection s rid) \<and> sc_idle (exitReentrantSection s rid)"
proof
  let ?s = "exitReentrantSection s rid"
  have fld: "sc_running ?s = sc_running s" "sc_queue ?s = sc_queue s" "sc_options ?s = sc_options s"
    "sc_blocking ?s = sc_blocking s" "sc_firstTurnSettled ?s = sc_firstTurnSettled s" "sc_mayInterleave ?s = sc_mayInterleave s"
    "sc_queuedAlwaysInterleave ?s = sc_queuedAlwaysInterleave s" "sc_queuedReadOnly ?s = sc_queuedReadOnly s"
    "sc_firstTurnSeen ?s = sc_firstTurnSeen s" "sc_stuck ?s = sc_stuck s" "sc_next ?s = sc_next s"
    by (simp_all add: exitReentrantSection_def Let_def)
  have "js_get (sc_sections s) x = None \<Longrightarrow> js_get (sc_sections ?s) x = None" for x
    by (auto simp: exitReentrantSection_def Let_def js_get_set js_get_delete split: if_splits option.splits)
  then have "mayAdmit ?s t \<Longrightarrow> mayAdmit s t" for t
    by (auto simp: mayAdmit_def fld split: if_splits option.splits)
  then show "sc_idle ?s" using assms(2) fld(2) by (auto simp: sc_idle_def)
  show "sc_core ?s" using assms(1) by (simp add: sc_core_def fld)
qed

section \<open>Runs\<close>

datatype 'v sched_op =
    OpSchedule "'v turn"
  | OpComplete nat
  | OpWatchdog nat
  | OpSetMayInterleave "(string \<Rightarrow> 'v list \<Rightarrow> bool) option"
  | OpEnter string
  | OpExit string
  | OpFire nat

definition sched_step :: "'v scheduler \<Rightarrow> 'v sched_op \<Rightarrow> 'v scheduler \<times> turn_event list" where
  "sched_step s op = (case op of
      OpSchedule t \<Rightarrow> schedule s t
    | OpComplete k \<Rightarrow> complete s k
    | OpWatchdog k \<Rightarrow> watchdog s k
    | OpSetMayInterleave p \<Rightarrow> setMayInterleave s p
    | OpEnter rid \<Rightarrow> enterReentrantSection s rid
    | OpExit rid \<Rightarrow> (exitReentrantSection s rid, [])
    | OpFire k \<Rightarrow> (fire_signal s k, []))"

inductive sched_reachable :: "'v scheduler \<Rightarrow> bool" where
  start: "sched_reachable (newScheduler opts pred)"
| step: "sched_reachable s \<Longrightarrow> sched_reachable (fst (sched_step s op))"

lemma sched_reachable_inv: "sched_reachable s \<Longrightarrow> sc_core s \<and> sc_idle s"
proof (induction rule: sched_reachable.induct)
  case (start opts pred)
  then show ?case by (simp add: newScheduler_def sc_core_def sc_idle_def)
next
  case (step s op)
  have sec: "sc_core (s\<lparr> sc_sections := m \<rparr>)" and may: "sc_core (s\<lparr> sc_mayInterleave := p \<rparr>)" and
    fire: "sc_core (fire_signal s k) \<and> sc_idle (fire_signal s k)" for m p k
    using step.IH by (simp_all add: sc_core_def sc_idle_def fire_signal_def)
  show ?case
    using step.IH pump_ok [OF sec] pump_ok [OF may] fire
    by (cases op) (simp_all add: sched_step_def schedule_ok complete_ok watchdog_ok exit_ok setMayInterleave_def
        enterReentrantSection_def)
qed

lemma sched_reachable_fold: "sched_reachable s \<Longrightarrow> sched_reachable (foldl (\<lambda>s op. fst (sched_step s op)) s ops)"
  by (induction ops arbitrary: s) (auto intro: sched_reachable.step)

text \<open>C33: No admissible turn waits. In every reachable scheduler each queued turn is refused by the admission
  rule in the current state, and some turn is running: completion of a running turn, a widened predicate or
  an opened reentrant section never leaves behind a turn that could run.\<close>

theorem no_admissible_turn_waits:
  assumes "sched_reachable s" "q \<in> set (sc_queue s)"
  shows "\<not> mayAdmit s (qt_turn q) \<and> sc_running s \<noteq> []"
proof -
  have "\<not> mayAdmit s (qt_turn q)"
    using sched_reachable_inv [OF assms(1)] assms(2) by (simp add: sc_idle_def)
  then show ?thesis by (auto simp: mayAdmit_def)
qed

definition plain_turn :: "unit turn" where
  "plain_turn = \<lparr> tu_alwaysInterleave = False, tu_readOnly = False, tu_reentrancyId = None, tu_method = None, tu_args = None \<rparr>"

definition read_turn :: "unit turn" where
  "read_turn = plain_turn\<lparr> tu_readOnly := True \<rparr>"

definition plain_options :: "unit scheduler_options" where
  "plain_options = \<lparr> so_reentrant = False, so_barrierFirstTurn = True, so_hardLimit = Some 2,
     so_maxRequestProcessingTimeMs = Some 1000, so_onStuck = Some (\<lambda>_. ''stuck'') \<rparr>"

definition two_scheduled :: "unit scheduler" where
  "two_scheduled = foldl (\<lambda>s op. fst (sched_step s op)) (newScheduler plain_options None) [OpSchedule plain_turn, OpSchedule plain_turn]"

lemma two_scheduled_reachable: "sched_reachable two_scheduled"
  unfolding two_scheduled_def by (intro sched_reachable_fold sched_reachable.start)

lemma two_scheduled_queue: "sc_queue two_scheduled = [\<lparr> qt_ticket = 1, qt_turn = plain_turn \<rparr>]"
  by code_simp

theorem no_admissible_turn_waits_witness: "\<not> mayAdmit two_scheduled plain_turn \<and> sc_running two_scheduled \<noteq> []"
  using no_admissible_turn_waits [OF two_scheduled_reachable, of "\<lparr> qt_ticket = 1, qt_turn = plain_turn \<rparr>"]
  by (simp add: two_scheduled_queue)

text \<open>The scan of \<open>pump\<close> without its shortcut.\<close>

function pump_ref_from :: "'v scheduler \<Rightarrow> nat \<Rightarrow> 'v scheduler \<times> turn_event list" where
  "pump_ref_from s i =
     (if i < length (sc_queue s) then
        (if mayAdmit s (qt_turn (sc_queue s ! i)) then
           (fst (pump_ref_from (fst (admitAt s i)) i), snd (admitAt s i) @ snd (pump_ref_from (fst (admitAt s i)) i))
         else pump_ref_from s (Suc i))
      else (s, []))"
  by pat_completeness auto
termination
  by (relation "measure (\<lambda>(s, i). length (sc_queue s) - i)") (simp_all add: length_admit)

declare pump_ref_from.simps [simp del]

lemma pump_ref_idle: "sc_idle s \<Longrightarrow> pump_ref_from s i = (s, [])"
proof (induction s i rule: pump_ref_from.induct)
  case (1 s i)
  then show ?case by (subst pump_ref_from.simps) (simp add: sc_idle_def)
qed

lemma pump_with_shortcut:
  assumes "sc_core s"
  shows "sc_pump_from s i = pump_ref_from s i"
  using assms
proof (induction s i rule: sc_pump_from.induct)
  case (1 s i)
  show ?case
  proof (cases "i < length (sc_queue s)")
    case i: True
    show ?thesis
    proof (cases "noQueuedTurnAdmissible s")
      case True
      with noQueued_sound [OF "1.prems"] have "sc_idle s" by (simp add: sc_idle_def)
      with i True show ?thesis by (subst sc_pump_from.simps) (simp add: pump_ref_idle)
    next
      case go: False
      show ?thesis
      proof (cases "mayAdmit s (qt_turn (sc_queue s ! i))")
        case True
        with "1.IH"(1) [OF i go True] admit_core [OF "1.prems" i True] i go show ?thesis
          by (subst sc_pump_from.simps, subst pump_ref_from.simps) simp
      next
        case False
        with "1.IH"(3) [OF i go False "1.prems"] i go show ?thesis
          by (subst sc_pump_from.simps, subst pump_ref_from.simps) simp
      qed
    qed
  next
    case False
    then show ?thesis by (subst sc_pump_from.simps, subst pump_ref_from.simps) simp
  qed
qed

text \<open>C40: The shortcut is exact. On every scheduler with consistent counters, \<open>pump\<close> with its early exit
  produces the same state and the same events as the full scan of the queue.\<close>

theorem pump_shortcut_exact:
  assumes "sc_core s"
  shows "sc_pump_from s i = pump_ref_from s i"
  using assms by (rule pump_with_shortcut)

theorem pump_shortcut_exact_witness: "sc_pump_from two_scheduled 0 = pump_ref_from two_scheduled 0"
  using pump_shortcut_exact sched_reachable_inv [OF two_scheduled_reachable] by blast

text \<open>Bounded queue and first-turn barrier. In every reachable scheduler the queue never exceeds the hard
  limit, and with the first-turn barrier at most one turn runs until the first turn has settled.\<close>

theorem scheduler_bounds:
  assumes "sched_reachable s"
  shows "(\<forall>h. so_hardLimit (sc_options s) = Some h \<longrightarrow> length (sc_queue s) \<le> h)
    \<and> (so_barrierFirstTurn (sc_options s) \<and> \<not> sc_firstTurnSettled s \<longrightarrow> length (sc_running s) \<le> 1)"
  using sched_reachable_inv [OF assms] unfolding sc_core_def by blast

theorem scheduler_bounds_witness: "length (sc_running two_scheduled) \<le> 1"
proof -
  have "so_barrierFirstTurn (sc_options two_scheduled) \<and> \<not> sc_firstTurnSettled two_scheduled" by code_simp
  with scheduler_bounds [OF two_scheduled_reachable] show ?thesis by blast
qed

text \<open>A stuck activation. Once the activation has been judged stuck its queue is empty and every turn
  scheduled from then on is rejected with the stuck rejection, nothing being started or queued.\<close>

theorem stuck_rejects_everything:
  assumes "sched_reachable s" "sc_stuck s = Some rejection"
  shows "sc_queue s = [] \<and> snd (schedule s t) = [RejectedTurn (sc_next s) (StuckRejection rejection)]
    \<and> sc_queue (fst (schedule s t)) = [] \<and> sc_running (fst (schedule s t)) = sc_running s"
  using sched_reachable_inv [OF assms(1)] assms(2) by (simp add: sc_core_def schedule_def Let_def)

definition stuck_sched :: "unit scheduler" where
  "stuck_sched = foldl (\<lambda>s op. fst (sched_step s op)) (newScheduler plain_options None)
     [OpSchedule plain_turn, OpWatchdog 0, OpSchedule plain_turn]"

theorem stuck_rejects_everything_witness:
  "snd (schedule stuck_sched plain_turn) = [RejectedTurn 2 (StuckRejection ''stuck'')]"
proof -
  have "sched_reachable stuck_sched"
    unfolding stuck_sched_def by (intro sched_reachable_fold sched_reachable.start)
  moreover have "sc_stuck stuck_sched = Some ''stuck''" "sc_next stuck_sched = 2" by code_simp+
  ultimately show ?thesis using stuck_rejects_everything [of stuck_sched "''stuck''" plain_turn] by simp
qed

definition overlap_sched :: "unit scheduler" where
  "overlap_sched = foldl (\<lambda>s op. fst (sched_step s op)) (newScheduler plain_options None)
     [OpSchedule plain_turn, OpComplete 0, OpSchedule read_turn, OpSchedule read_turn, OpSchedule plain_turn, OpComplete 1]"

text \<open>An exclusive turn can overlap a read-only one. On a grain without any reentrancy option, two
  read-only turns run together and an exclusive turn waits; when the first of the two completes, the
  exclusive turn is started although the second read-only turn is still running.\<close>

theorem exclusive_turn_overlaps_reader:
  "map rt_turn (sc_running overlap_sched) = [read_turn, plain_turn] \<and> sc_queue overlap_sched = []
   \<and> sched_reachable overlap_sched"
proof -
  have "map rt_turn (sc_running overlap_sched) = [read_turn, plain_turn]" "sc_queue overlap_sched = []" by code_simp+
  moreover have "sched_reachable overlap_sched"
    unfolding overlap_sched_def by (intro sched_reachable_fold sched_reachable.start)
  ultimately show ?thesis by simp
qed

section \<open>Plain grains: one turn at a time, in arrival order\<close>

definition isPlain :: "'v turn \<Rightarrow> bool" where
  "isPlain t \<longleftrightarrow> \<not> tu_alwaysInterleave t \<and> \<not> tu_readOnly t \<and> tu_reentrancyId t = None"

fun plain_op :: "'v sched_op \<Rightarrow> bool" where
  "plain_op (OpSchedule t) = isPlain t"
| "plain_op (OpComplete k) = True"
| "plain_op (OpWatchdog k) = True"
| "plain_op (OpFire k) = True"
| "plain_op op = False"

fun started :: "turn_event list \<Rightarrow> nat list" where
  "started [] = []"
| "started (Started n # evs) = n # started evs"
| "started (RejectedTurn n e # evs) = started evs"

lemma started_append [simp]: "started (xs @ ys) = started xs @ started ys"
  by (induction xs rule: started.induct) auto

fun run_log :: "'v scheduler \<Rightarrow> 'v sched_op list \<Rightarrow> 'v scheduler \<times> nat list" where
  "run_log s [] = (s, [])"
| "run_log s (op # ops) = (case sched_step s op of (s', evs) \<Rightarrow> case run_log s' ops of (s'', ns) \<Rightarrow> (s'', started evs @ ns))"

definition plain_sched :: "'v scheduler \<Rightarrow> bool" where
  "plain_sched s \<longleftrightarrow> \<not> so_reentrant (sc_options s) \<and> sc_mayInterleave s = None \<and> sc_sections s = []
     \<and> (\<forall>q \<in> set (sc_queue s). isPlain (qt_turn q)) \<and> sorted_wrt (<) (map qt_ticket (sc_queue s))
     \<and> (sc_running s = [] \<and> sc_blocking s = None \<or>
        (\<exists>r. sc_running s = [r] \<and> sc_blocking s = Some r \<and> isPlain (rt_turn r)))"

lemma plain_blocked:
  "plain_sched s \<Longrightarrow> sc_running s \<noteq> [] \<Longrightarrow> isPlain t \<Longrightarrow> \<not> mayAdmit s t"
  by (auto simp: plain_sched_def mayAdmit_def isPlain_def)

lemma mayAdmit_first: "sc_running s = [] \<Longrightarrow> mayAdmit s t"
  by (simp add: mayAdmit_def)

lemma pump_idle_noop: "sc_core s \<Longrightarrow> sc_idle s \<Longrightarrow> sc_pump_from s i = (s, [])"
  by (simp add: pump_with_shortcut pump_ref_idle)

text \<open>Pumping an idle plain grain starts the first waiting turn whose signal has not fired.\<close>

lemma plain_pump:
  assumes "sc_core s" "plain_sched s" "sc_running s = []" "sc_queue s = qs"
  shows "plain_sched (fst (sc_pump_from s 0))
    \<and> (\<exists>pre. qs = pre @ sc_queue (fst (sc_pump_from s 0))
        \<and> (started (snd (sc_pump_from s 0)) = [] \<or>
            (pre \<noteq> [] \<and> started (snd (sc_pump_from s 0)) = [qt_ticket (last pre)])))
    \<and> sc_next (fst (sc_pump_from s 0)) = sc_next s"
  using assms
proof (induction qs arbitrary: s)
  case Nil
  then have "sc_pump_from s 0 = (s, [])" by (subst sc_pump_from.simps) simp
  with Nil show ?case by simp
next
  case (Cons q qs)
  have i: "0 < length (sc_queue s)" and adm: "mayAdmit s (qt_turn (sc_queue s ! 0))" and go: "\<not> noQueuedTurnAdmissible s"
    using Cons.prems by (auto simp: mayAdmit_def noQueuedTurnAdmissible_def)
  have pump: "sc_pump_from s 0 = (fst (sc_pump_from (fst (admitAt s 0)) 0), snd (admitAt s 0) @ snd (sc_pump_from (fst (admitAt s 0)) 0))"
    using i adm go by (subst sc_pump_from.simps) simp
  note core = admit_core [OF Cons.prems(1) i adm]
  have blk: "sc_blocking s = None" using Cons.prems(2,3) by (auto simp: plain_sched_def)
  have plain_q: "isPlain (qt_turn q)" using Cons.prems(2,4) by (auto simp: plain_sched_def)
  show ?case
  proof (cases "qt_ticket q \<in> set (sc_fired s)")
    case True
    then have a: "sc_queue (fst (admitAt s 0)) = qs" "sc_running (fst (admitAt s 0)) = []" "started (snd (admitAt s 0)) = []"
      "plain_sched (fst (admitAt s 0))" "sc_next (fst (admitAt s 0)) = sc_next s"
      using Cons.prems by (auto simp: admitAt_def dequeueAt_def sc_start_def Let_def plain_sched_def)
    from Cons.IH [OF core a(4,2,1)] obtain pre where
      "qs = pre @ sc_queue (fst (sc_pump_from s 0))"
      "started (snd (sc_pump_from s 0)) = [] \<or> (pre \<noteq> [] \<and> started (snd (sc_pump_from s 0)) = [qt_ticket (last pre)])"
      "plain_sched (fst (sc_pump_from s 0))" "sc_next (fst (sc_pump_from s 0)) = sc_next s"
      by (auto simp: pump a(3,5))
    then show ?thesis by (intro conjI exI [of _ "q # pre"]) auto
  next
    case False
    then have a: "sc_queue (fst (admitAt s 0)) = qs" "started (snd (admitAt s 0)) = [qt_ticket q]"
      "plain_sched (fst (admitAt s 0))" "sc_running (fst (admitAt s 0)) \<noteq> []" "sc_next (fst (admitAt s 0)) = sc_next s"
      using Cons.prems blk plain_q
      by (auto simp: admitAt_def dequeueAt_def sc_start_def Let_def plain_sched_def isPlain_def)
    have "sc_idle (fst (admitAt s 0))"
      using plain_blocked [OF a(3,4)] a(3) by (auto simp: sc_idle_def plain_sched_def)
    from pump_idle_noop [OF core this] a show ?thesis
      by (intro conjI exI [of _ "[q]"]) (auto simp: pump)
  qed
qed

text \<open>All started tickets lie below everything still waiting and below the next ticket.\<close>

definition log_ok :: "'v scheduler \<Rightarrow> nat list \<Rightarrow> bool" where
  "log_ok s ns \<longleftrightarrow> sorted_wrt (<) ns \<and> (\<forall>n \<in> set ns. n < sc_next s \<and> (\<forall>q \<in> set (sc_queue s). n < qt_ticket q))"

lemma started_rejected [simp]: "started (map (\<lambda>item. RejectedTurn (f item) e) qs) = []"
  by (induction qs) auto

lemma plain_deactivate:
  "plain_sched s \<Longrightarrow> log_ok s ns \<Longrightarrow>
     plain_sched (fst (deactivateIfStuck s)) \<and> log_ok (fst (deactivateIfStuck s)) (ns @ started (snd (deactivateIfStuck s)))"
  by (auto simp: deactivateIfStuck_def Let_def plain_sched_def log_ok_def split: option.splits)

lemma schedule_shape:
  "(\<exists>e. schedule s t = (s\<lparr> sc_next := Suc (sc_next s) \<rparr>, [RejectedTurn (sc_next s) e]))
   \<or> mayAdmit s t \<and> schedule s t = sc_start (s\<lparr> sc_next := Suc (sc_next s) \<rparr>) \<lparr> qt_ticket = sc_next s, qt_turn = t \<rparr>
   \<or> \<not> mayAdmit s t \<and> schedule s t =
        deactivateIfStuck (enqueue (s\<lparr> sc_next := Suc (sc_next s) \<rparr>) \<lparr> qt_ticket = sc_next s, qt_turn = t \<rparr>)"
proof (cases "sc_stuck s")
  case None
  then show ?thesis
    by (cases "so_hardLimit (sc_options s)"; cases "mayAdmit s t") (simp_all add: schedule_def Let_def)
next
  case (Some e)
  then show ?thesis by (simp add: schedule_def Let_def)
qed

lemma plain_schedule:
  assumes "sc_core s" "sc_idle s" "plain_sched s" "isPlain t" "log_ok s ns"
  shows "plain_sched (fst (schedule s t)) \<and> log_ok (fst (schedule s t)) (ns @ started (snd (schedule s t)))"
proof -
  have below: "\<forall>q \<in> set (sc_queue s). qt_ticket q < sc_next s" using assms(1) by (auto simp: sc_core_def)
  have empty: "sc_queue s = []" if "sc_running s = []"
  proof (rule ccontr)
    assume "sc_queue s \<noteq> []"
    then have "hd (sc_queue s) \<in> set (sc_queue s)" by simp
    with assms(2) that show False by (auto simp: sc_idle_def mayAdmit_def)
  qed
  have adm: "mayAdmit (s\<lparr> sc_next := n \<rparr>) t \<longleftrightarrow> sc_running s = []" for n
    using plain_blocked [OF assms(3) _ assms(4)] mayAdmit_first by auto
  have stuckq: "sc_stuck s \<noteq> None \<Longrightarrow> sc_queue s = []" using assms(1) by (simp add: sc_core_def)
  let ?s = "s\<lparr> sc_next := Suc (sc_next s) \<rparr>" and ?item = "\<lparr> qt_ticket = sc_next s, qt_turn = t \<rparr>"
  have base: "plain_sched ?s" "log_ok ?s ns" using assms(3,5) by (auto simp: plain_sched_def log_ok_def less_SucI)
  consider (reject) e where "schedule s t = (?s, [RejectedTurn (sc_next s) e])"
    | (start) "sc_running s = []" "schedule s t = sc_start ?s ?item"
    | (wait) "sc_running s \<noteq> []" "schedule s t = deactivateIfStuck (enqueue ?s ?item)"
    using adm schedule_shape [of s t] by auto
  then show ?thesis
  proof cases
    case reject
    with base show ?thesis by simp
  next
    case start
    have "sc_blocking s = None" using assms(3) start(1) by (auto simp: plain_sched_def)
    with start empty base assms(3,4,5) show ?thesis
      by (auto simp: sc_start_def Let_def plain_sched_def log_ok_def sorted_wrt_append isPlain_def less_SucI)
  next
    case wait
    have enq: "plain_sched (enqueue ?s ?item)" "log_ok (enqueue ?s ?item) ns"
      using base below assms(4,5) by (auto simp: enqueue_def plain_sched_def log_ok_def sorted_wrt_append)
    with wait show ?thesis by (simp add: plain_deactivate)
  qed
qed

lemma plain_complete:
  assumes "sc_core s" "sc_idle s" "plain_sched s" "log_ok s ns"
  shows "plain_sched (fst (complete s k)) \<and> log_ok (fst (complete s k)) (ns @ started (snd (complete s k)))"
proof (cases "\<exists>r. sc_running s = [r] \<and> rt_ticket r = k")
  case True
  then obtain r where r: "sc_running s = [r]" "rt_ticket r = k" by blast
  then have blk: "sc_blocking s = Some r" using assms(3) by (auto simp: plain_sched_def)
  let ?s = "s\<lparr> sc_running := [], sc_blocking := None, sc_firstTurnSettled := (sc_firstTurnSettled s \<or> rt_isFirst r) \<rparr>"
  have c: "complete s k = sc_pump_from ?s 0" using r blk by (simp add: complete_def sc_pump_def)
  have "sc_core ?s" using assms(1) r by (auto simp: sc_core_def)
  moreover have "plain_sched ?s" using assms(3) by (simp add: plain_sched_def)
  ultimately obtain pre where
    P: "plain_sched (fst (complete s k))" "sc_queue s = pre @ sc_queue (fst (complete s k))"
      "started (snd (complete s k)) = [] \<or> (pre \<noteq> [] \<and> started (snd (complete s k)) = [qt_ticket (last pre)])"
      "sc_next (fst (complete s k)) = sc_next s"
    using plain_pump [of ?s "sc_queue s"] unfolding c by auto
  have sorted: "sorted_wrt (<) (map qt_ticket (sc_queue s))" and below: "\<forall>q \<in> set (sc_queue s). qt_ticket q < sc_next s"
    using assms(1,3) by (auto simp: plain_sched_def sc_core_def)
  have "log_ok (fst (complete s k)) (ns @ started (snd (complete s k)))"
  proof (cases "pre = []")
    case True
    with P assms(4) show ?thesis by (auto simp: log_ok_def)
  next
    case False
    then have "last pre \<in> set (sc_queue s)" using P(2) by (metis Un_iff last_in_set set_append)
    moreover have "\<forall>q \<in> set (sc_queue (fst (complete s k))). qt_ticket (last pre) < qt_ticket q"
      using sorted False unfolding P(2) by (auto simp: sorted_wrt_append)
    moreover have "set (sc_queue (fst (complete s k))) \<subseteq> set (sc_queue s)" using P(2) by auto
    ultimately show ?thesis
      using P(3,4) assms(4) below by (auto simp: log_ok_def sorted_wrt_append subset_iff)
  qed
  with P(1) show ?thesis by simp
next
  case False
  then have "find (\<lambda>r. rt_ticket r = k) (sc_running s) = None" using assms(3) by (auto simp: plain_sched_def)
  with assms(3,4) show ?thesis by (simp add: complete_def)
qed

lemma plain_watchdog:
  assumes "plain_sched s" "log_ok s ns"
  shows "plain_sched (fst (watchdog s k)) \<and> log_ok (fst (watchdog s k)) (ns @ started (snd (watchdog s k)))"
proof (cases "\<exists>b. sc_blocking s = Some b \<and> rt_ticket b = k \<and> so_maxRequestProcessingTimeMs (sc_options s) \<noteq> None")
  case True
  then obtain b where b: "sc_blocking s = Some b" "rt_ticket b = k" "so_maxRequestProcessingTimeMs (sc_options s) \<noteq> None" by blast
  let ?s = "s\<lparr> sc_blocking := Some (b\<lparr> rt_overdue := True \<rparr>),
     sc_running := map (\<lambda>r. if rt_ticket r = k then r\<lparr> rt_overdue := True \<rparr> else r) (sc_running s) \<rparr>"
  have "plain_sched ?s" "log_ok ?s ns" using assms b by (auto simp: plain_sched_def log_ok_def)
  with b show ?thesis using plain_deactivate [of ?s ns] by (auto simp: watchdog_def Let_def)
next
  case False
  with assms show ?thesis by (auto simp: watchdog_def split: option.splits)
qed

lemma plain_step:
  assumes "sc_core s" "sc_idle s" "plain_sched s" "log_ok s ns" "plain_op op"
  shows "plain_sched (fst (sched_step s op)) \<and> log_ok (fst (sched_step s op)) (ns @ started (snd (sched_step s op)))"
proof (cases op)
  case (OpFire k)
  then show ?thesis using assms by (simp add: sched_step_def fire_signal_def plain_sched_def log_ok_def)
qed (use assms in \<open>simp_all add: sched_step_def plain_schedule plain_complete plain_watchdog\<close>)

lemma plain_run:
  assumes "sched_reachable s" "plain_sched s" "log_ok s ns" "list_all plain_op ops"
  shows "plain_sched (fst (run_log s ops)) \<and> log_ok (fst (run_log s ops)) (ns @ snd (run_log s ops))"
  using assms
proof (induction ops arbitrary: s ns)
  case (Cons op ops)
  obtain s' evs where st: "sched_step s op = (s', evs)" by force
  have inv: "sc_core s \<and> sc_idle s" by (rule sched_reachable_inv [OF Cons.prems(1)])
  have "sched_reachable s'" using sched_reachable.step [OF Cons.prems(1), of op] st by simp
  with Cons.IH [of s' "ns @ started evs"] plain_step [of s ns op] inv Cons.prems st show ?case
    by (auto simp: case_prod_beta)
qed simp

text \<open>C8: Plain grains are single-threaded and fair. On a grain without reentrancy options whose turns are
  neither read-only nor interleaving, at most one turn runs at any time and turns are started exactly in the
  order in which they arrived, whatever completions, watchdogs and cancellations happen in between.\<close>

theorem plain_grain_fifo:
  assumes "\<not> so_reentrant opts" "list_all plain_op ops"
  shows "length (sc_running (fst (run_log (newScheduler opts None) ops))) \<le> 1
    \<and> sorted_wrt (<) (snd (run_log (newScheduler opts None) ops))"
proof -
  have "plain_sched (newScheduler opts None)" "log_ok (newScheduler opts None) []"
    using assms(1) by (simp_all add: plain_sched_def log_ok_def newScheduler_def)
  from plain_run [OF sched_reachable.start this assms(2)] show ?thesis
    by (auto simp: plain_sched_def log_ok_def)
qed

theorem plain_grain_fifo_witness:
  "sorted_wrt (<) (snd (run_log (newScheduler plain_options None)
     [OpSchedule plain_turn, OpSchedule plain_turn, OpComplete 0, OpSchedule plain_turn, OpComplete 1]))"
  using plain_grain_fifo [of plain_options "[OpSchedule plain_turn, OpSchedule plain_turn, OpComplete 0,
      OpSchedule plain_turn, OpComplete 1]"]
  by (simp add: plain_options_def isPlain_def plain_turn_def)

end
