(* ===== verification/Journaling.thy ===== *)
theory Journaling
  imports Identity
begin

text \<open>
  The journaling substrate: the in-memory journal store with its version check
  (\<^verbatim>\<open>journaling/src/memory-journal-storage.ts\<close>) and the per-grain manager of one append-only log shared
  by the grain's durable structures (\<^verbatim>\<open>journaling/src/state-machine-manager-impl.ts\<close>).

  The manager knows a structure only through the interface \<open>DurableStateMachine\<close>
  (\<^verbatim>\<open>core/src/durable-state-machine.ts\<close>): its three operations are the record \<open>machine_ops\<close>, and the
  contract the interface's comments state is the locale \<open>durable_machine\<close>. Every frame goes through the value
  codec: the fourth component \<open>mo_wire\<close> is what \<open>deserializeValue (serializeValue p)\<close> makes of a payload \<open>p\<close>. An
  entry of the modelled log is a frame as it is read back, so the codec is applied where the code serializes.
  A payload is stable when the codec carries it unchanged; the theorems are about stable payloads.

  Shown under the contract: replaying the log in a fresh activation rebuilds exactly the live state of every
  registered structure and the buffered data of every unregistered one, through any sequence of appends,
  compactions and re-activations; a stale manager cannot write; a structure that is unregistered for fewer
  compactions than the grace period is resurrected in full.
\<close>

section \<open>In-memory journal storage\<close>

datatype journal_error =
    JournalInconsistent string "nat option" "nat option"
  | DuplicateMachine string
  | UnknownMachine string

record 'e journal_log =
  jl_entries :: "'e list"
  jl_version :: nat

type_synonym 'e journal_storage = "(string, 'e journal_log) js_map"

record 'e journal_segment =
  sg_entries :: "'e list"
  sg_version :: "nat option"

definition journal_key :: "string \<Rightarrow> grain_id \<Rightarrow> string" where
  "journal_key logName grainId = grain_id_toString grainId @ ''/'' @ logName"

definition js_read :: "'e journal_storage \<Rightarrow> string \<Rightarrow> grain_id \<Rightarrow> 'e journal_segment" where
  "js_read s logName grainId = (case js_get s (journal_key logName grainId) of
      None \<Rightarrow> \<lparr> sg_entries = [], sg_version = None \<rparr>
    | Some l \<Rightarrow> \<lparr> sg_entries = jl_entries l, sg_version = Some (jl_version l) \<rparr>)"

definition checkVersion :: "string \<Rightarrow> grain_id \<Rightarrow> nat option \<Rightarrow> nat option \<Rightarrow> journal_error + unit" where
  "checkVersion logName grainId stored expected =
     (if stored \<noteq> expected
      then Inl (JournalInconsistent (''journal version conflict on '' @ logName @ '' for '' @ grain_id_toString grainId)
                  expected stored)
      else Inr ())"

definition js_append ::
  "'e journal_storage \<Rightarrow> string \<Rightarrow> grain_id \<Rightarrow> 'e list \<Rightarrow> nat option \<Rightarrow> journal_error + ('e journal_storage \<times> nat)" where
  "js_append s logName grainId entries expectedVersion =
     (let key = journal_key logName grainId; log = js_get s key in
      case checkVersion logName grainId (map_option jl_version log) expectedVersion of
        Inl e \<Rightarrow> Inl e
      | Inr _ \<Rightarrow>
          (let old = (case log of Some l \<Rightarrow> l | None \<Rightarrow> \<lparr> jl_entries = [], jl_version = 0 \<rparr>);
               new = \<lparr> jl_entries = jl_entries old @ entries, jl_version = jl_version old + 1 \<rparr>
           in Inr (js_set key new s, jl_version new)))"

definition js_replace ::
  "'e journal_storage \<Rightarrow> string \<Rightarrow> grain_id \<Rightarrow> 'e list \<Rightarrow> nat option \<Rightarrow> journal_error + ('e journal_storage \<times> nat)" where
  "js_replace s logName grainId entries expectedVersion =
     (let key = journal_key logName grainId; log = js_get s key in
      case checkVersion logName grainId (map_option jl_version log) expectedVersion of
        Inl e \<Rightarrow> Inl e
      | Inr _ \<Rightarrow>
          (let version = (case log of Some l \<Rightarrow> jl_version l | None \<Rightarrow> 0) + 1
           in Inr (js_set key \<lparr> jl_entries = entries, jl_version = version \<rparr> s, version)))"

definition js_clear :: "'e journal_storage \<Rightarrow> string \<Rightarrow> grain_id \<Rightarrow> 'e journal_storage" where
  "js_clear s logName grainId = js_delete (journal_key logName grainId) s"

section \<open>The state-machine manager\<close>

record ('m, 'p) machine_ops =
  mo_reset :: "'m \<Rightarrow> 'm"
  mo_apply :: "'m \<Rightarrow> 'p \<Rightarrow> 'm"
  mo_snapshot :: "'m \<Rightarrow> 'p"
  mo_wire :: "'p \<Rightarrow> 'p"

datatype 'p log_envelope =
    OpFrame (env_m: string) 'p
  | SnapFrame (env_m: string) 'p
  | VesselFrame (env_m: string) nat "'p list"

record 'p retirement_record =
  rr_ops :: "'p list"
  rr_compactionsSinceOrphaned :: nat

record ('m, 'p) machine_manager =
  mm_logName :: string
  mm_grainId :: grain_id
  mm_snapshotThreshold :: nat
  mm_retirementGrace :: nat
  mm_machines :: "(string, 'm) js_map"
  mm_retiring :: "(string, 'p retirement_record) js_map"
  mm_version :: "nat option"
  mm_liveEntryCount :: nat

definition newManager :: "string \<Rightarrow> grain_id \<Rightarrow> nat option \<Rightarrow> nat option \<Rightarrow> ('m, 'p) machine_manager" where
  "newManager logName grainId threshold grace = \<lparr> mm_logName = logName, mm_grainId = grainId,
     mm_snapshotThreshold = (case threshold of Some t \<Rightarrow> t | None \<Rightarrow> 100),
     mm_retirementGrace = (case grace of Some g \<Rightarrow> g | None \<Rightarrow> 2),
     mm_machines = [], mm_retiring = [], mm_version = None, mm_liveEntryCount = 0 \<rparr>"

definition mm_register ::
  "('m, 'p) machine_manager \<Rightarrow> string \<Rightarrow> 'm \<Rightarrow> journal_error + ('m, 'p) machine_manager" where
  "mm_register mgr name machine =
     (if js_has (mm_machines mgr) name then Inl (DuplicateMachine name)
      else Inr (mgr\<lparr> mm_machines := js_set name machine (mm_machines mgr) \<rparr>))"

text \<open>One entry of the replay loop.\<close>

definition replay_entry ::
  "('m, 'p) machine_ops \<Rightarrow> ('m, 'p) machine_manager \<Rightarrow> 'p log_envelope \<Rightarrow> ('m, 'p) machine_manager" where
  "replay_entry ops mgr env =
     (case js_get (mm_machines mgr) (env_m env) of
        Some machine \<Rightarrow>
          (let machine' = (case env of
               VesselFrame _ _ ps \<Rightarrow> foldl (mo_apply ops) machine ps
             | OpFrame _ p \<Rightarrow> mo_apply ops machine p
             | SnapFrame _ p \<Rightarrow> mo_apply ops machine p)
           in mgr\<lparr> mm_machines := js_set (env_m env) machine' (mm_machines mgr) \<rparr>)
      | None \<Rightarrow>
          (let buffer = (\<lambda>p. let record = (case js_get (mm_retiring mgr) (env_m env) of
                  Some r \<Rightarrow> r | None \<Rightarrow> \<lparr> rr_ops = [], rr_compactionsSinceOrphaned = 0 \<rparr>)
                in record\<lparr> rr_ops := rr_ops record @ [p] \<rparr>);
               record' = (case env of
                  VesselFrame _ cnt ps \<Rightarrow> \<lparr> rr_ops = ps, rr_compactionsSinceOrphaned = cnt \<rparr>
                | OpFrame _ p \<Rightarrow> buffer p
                | SnapFrame _ p \<Rightarrow> buffer p)
           in mgr\<lparr> mm_retiring := js_set (env_m env) record' (mm_retiring mgr) \<rparr>))"

definition mm_replay ::
  "('m, 'p) machine_ops \<Rightarrow> 'p log_envelope journal_storage \<Rightarrow> ('m, 'p) machine_manager \<Rightarrow> ('m, 'p) machine_manager" where
  "mm_replay ops s mgr =
     (let segment = js_read s (mm_logName mgr) (mm_grainId mgr);
          mgr1 = mgr\<lparr> mm_version := sg_version segment, mm_liveEntryCount := length (sg_entries segment), mm_retiring := [],
                      mm_machines := map (\<lambda>(n, m). (n, mo_reset ops m)) (mm_machines mgr) \<rparr>
      in foldl (replay_entry ops) mgr1 (sg_entries segment))"

text \<open>The frames of a compaction and the retirement bookkeeping it implies.\<close>

definition nextRetiring :: "('m, 'p) machine_manager \<Rightarrow> (string \<times> 'p retirement_record) list" where
  "nextRetiring mgr =
     map (\<lambda>(n, r). (n, r\<lparr> rr_compactionsSinceOrphaned := rr_compactionsSinceOrphaned r + 1 \<rparr>))
       (filter (\<lambda>(n, r). \<not> mm_retirementGrace mgr \<le> rr_compactionsSinceOrphaned r + 1) (mm_retiring mgr))"

definition compactFrames :: "('m, 'p) machine_ops \<Rightarrow> ('m, 'p) machine_manager \<Rightarrow> 'p log_envelope list" where
  "compactFrames ops mgr = map (\<lambda>(n, m). SnapFrame n (mo_wire ops (mo_snapshot ops m))) (mm_machines mgr)
     @ map (\<lambda>(n, r). VesselFrame n (rr_compactionsSinceOrphaned r) (map (mo_wire ops) (rr_ops r))) (nextRetiring mgr)"

definition mm_compact ::
  "('m, 'p) machine_ops \<Rightarrow> 'p log_envelope journal_storage \<times> ('m, 'p) machine_manager
     \<Rightarrow> journal_error + ('p log_envelope journal_storage \<times> ('m, 'p) machine_manager)" where
  "mm_compact ops w =
     (let mgr = snd w; frames = compactFrames ops mgr in
      case js_replace (fst w) (mm_logName mgr) (mm_grainId mgr) frames (mm_version mgr) of
        Inl e \<Rightarrow> Inl e
      | Inr (s', v) \<Rightarrow>
          Inr (s', mgr\<lparr> mm_version := Some v, mm_liveEntryCount := length frames, mm_retiring := nextRetiring mgr \<rparr>))"

definition mm_appendRange ::
  "('m, 'p) machine_ops \<Rightarrow> 'p log_envelope journal_storage \<times> ('m, 'p) machine_manager \<Rightarrow> string \<Rightarrow> 'p list
     \<Rightarrow> journal_error + ('p log_envelope journal_storage \<times> ('m, 'p) machine_manager)" where
  "mm_appendRange ops w machineName payloads =
     (let mgr = snd w in
      case js_get (mm_machines mgr) machineName of
        None \<Rightarrow> Inl (UnknownMachine machineName)
      | Some machine \<Rightarrow>
          if length payloads = 0 then Inr w
          else (case js_append (fst w) (mm_logName mgr) (mm_grainId mgr) (map (OpFrame machineName) (map (mo_wire ops) payloads)) (mm_version mgr) of
                  Inl e \<Rightarrow> Inl e
                | Inr (s', v) \<Rightarrow>
                    (let mgr' = mgr\<lparr> mm_version := Some v,
                           mm_machines := js_set machineName (foldl (mo_apply ops) machine payloads) (mm_machines mgr),
                           mm_liveEntryCount := mm_liveEntryCount mgr + length payloads \<rparr>
                     in if max (mm_snapshotThreshold mgr') (length (mm_machines mgr') + 1) \<le> mm_liveEntryCount mgr'
                        then (case mm_compact ops (s', mgr') of Inl _ \<Rightarrow> Inr (s', mgr') | Inr w' \<Rightarrow> Inr w')
                        else Inr (s', mgr'))))"

definition mm_append where
  "mm_append ops w machineName payload = mm_appendRange ops w machineName [payload]"

definition mm_clear ::
  "('m, 'p) machine_ops \<Rightarrow> 'p log_envelope journal_storage \<times> ('m, 'p) machine_manager
     \<Rightarrow> 'p log_envelope journal_storage \<times> ('m, 'p) machine_manager" where
  "mm_clear ops w = (js_clear (fst w) (mm_logName (snd w)) (mm_grainId (snd w)),
     (snd w)\<lparr> mm_version := None, mm_liveEntryCount := 0, mm_retiring := [],
              mm_machines := map (\<lambda>(n, m). (n, mo_reset ops m)) (mm_machines (snd w)) \<rparr>)"

section \<open>Laws of the store\<close>

lemma js_append_ok_iff:
  "(\<exists>s' v. js_append s n g es ev = Inr (s', v)) \<longleftrightarrow> ev = sg_version (js_read s n g)"
  by (auto simp: js_append_def js_read_def checkVersion_def Let_def split: option.splits)

lemma js_append_read:
  assumes "js_append s n g es ev = Inr (s', v)"
  shows "js_read s' n g = \<lparr> sg_entries = sg_entries (js_read s n g) @ es, sg_version = Some v \<rparr>"
  using assms by (auto simp: js_append_def js_read_def checkVersion_def Let_def js_get_set split: option.splits if_splits)

lemma js_replace_read:
  assumes "js_replace s n g es ev = Inr (s', v)"
  shows "js_read s' n g = \<lparr> sg_entries = es, sg_version = Some v \<rparr>"
  using assms by (auto simp: js_replace_def js_read_def checkVersion_def Let_def js_get_set split: option.splits if_splits)

lemma js_clear_read: "js_read (js_clear s n g) n g = \<lparr> sg_entries = [], sg_version = None \<rparr>"
  by (simp add: js_clear_def js_read_def js_get_delete)

section \<open>What a log replays to\<close>

fun frame_payloads :: "'p log_envelope \<Rightarrow> 'p list" where
  "frame_payloads (OpFrame _ p) = [p]"
| "frame_payloads (SnapFrame _ p) = [p]"
| "frame_payloads (VesselFrame _ _ ps) = ps"

definition machine_replay :: "('m, 'p) machine_ops \<Rightarrow> string \<Rightarrow> 'p log_envelope list \<Rightarrow> 'm \<Rightarrow> 'm" where
  "machine_replay ops n es m = foldl (\<lambda>m env. if env_m env = n then foldl (mo_apply ops) m (frame_payloads env) else m) m es"

fun retire_step :: "'p retirement_record option \<Rightarrow> 'p log_envelope \<Rightarrow> 'p retirement_record option" where
  "retire_step r (VesselFrame _ cnt ps) = Some \<lparr> rr_ops = ps, rr_compactionsSinceOrphaned = cnt \<rparr>"
| "retire_step None env = Some \<lparr> rr_ops = frame_payloads env, rr_compactionsSinceOrphaned = 0 \<rparr>"
| "retire_step (Some r) env = Some (r\<lparr> rr_ops := rr_ops r @ frame_payloads env \<rparr>)"

definition retire_replay ::
  "string \<Rightarrow> 'p log_envelope list \<Rightarrow> 'p retirement_record option \<Rightarrow> 'p retirement_record option" where
  "retire_replay n es r = foldl (\<lambda>r env. if env_m env = n then retire_step r env else r) r es"

lemma machine_replay_simps [simp]:
  "machine_replay ops n [] m = m"
  "machine_replay ops n (env # es) m =
     machine_replay ops n es (if env_m env = n then foldl (mo_apply ops) m (frame_payloads env) else m)"
  "machine_replay ops n (es @ fs) m = machine_replay ops n fs (machine_replay ops n es m)"
  by (simp_all add: machine_replay_def)

lemma retire_replay_simps [simp]:
  "retire_replay n [] r = r"
  "retire_replay n (env # es) r = retire_replay n es (if env_m env = n then retire_step r env else r)"
  "retire_replay n (es @ fs) r = retire_replay n fs (retire_replay n es r)"
  by (simp_all add: retire_replay_def)

lemma retire_step_some: "retire_step r env \<noteq> None"
  by (cases env; cases r) auto

lemma replay_entry_eq:
  "replay_entry ops mgr env = (case js_get (mm_machines mgr) (env_m env) of
      Some m \<Rightarrow> mgr\<lparr> mm_machines := js_set (env_m env) (foldl (mo_apply ops) m (frame_payloads env)) (mm_machines mgr) \<rparr>
    | None \<Rightarrow> mgr\<lparr> mm_retiring := js_set (env_m env) (the (retire_step (js_get (mm_retiring mgr) (env_m env)) env)) (mm_retiring mgr) \<rparr>)"
  by (cases env; cases "js_get (mm_retiring mgr) (env_m env)") (simp_all add: replay_entry_def Let_def split: option.split)

lemma replay_entry_machines:
  "js_get (mm_machines (replay_entry ops mgr env)) n =
     map_option (\<lambda>m. if env_m env = n then foldl (mo_apply ops) m (frame_payloads env) else m) (js_get (mm_machines mgr) n)"
  by (cases "js_get (mm_machines mgr) (env_m env)"; cases "env_m env = n"; cases "js_get (mm_machines mgr) n")
     (simp_all add: replay_entry_eq js_get_set)

lemma replay_entry_names: "map fst (mm_machines (replay_entry ops mgr env)) = map fst (mm_machines mgr)"
  by (cases "js_get (mm_machines mgr) (env_m env)") (simp_all add: replay_entry_eq js_keys_set)

lemma replay_entry_retiring:
  "js_get (mm_retiring (replay_entry ops mgr env)) n =
     (if env_m env = n \<and> js_get (mm_machines mgr) n = None then retire_step (js_get (mm_retiring mgr) n) env
      else js_get (mm_retiring mgr) n)"
  using retire_step_some [of "js_get (mm_retiring mgr) n" env]
  by (cases "js_get (mm_machines mgr) (env_m env)") (auto simp: replay_entry_eq js_get_set)

lemma replay_entry_wf: "js_wf (mm_retiring mgr) \<Longrightarrow> js_wf (mm_retiring (replay_entry ops mgr env))"
  by (auto simp: replay_entry_eq split: option.splits)

lemma replay_entry_other [simp]:
  "mm_version (replay_entry ops mgr env) = mm_version mgr" "mm_liveEntryCount (replay_entry ops mgr env) = mm_liveEntryCount mgr"
  "mm_logName (replay_entry ops mgr env) = mm_logName mgr" "mm_grainId (replay_entry ops mgr env) = mm_grainId mgr"
  "mm_retirementGrace (replay_entry ops mgr env) = mm_retirementGrace mgr"
  "mm_snapshotThreshold (replay_entry ops mgr env) = mm_snapshotThreshold mgr"
  by (auto simp: replay_entry_eq split: option.splits)

lemma replay_fold:
  "js_get (mm_machines (foldl (replay_entry ops) mgr es)) n = map_option (machine_replay ops n es) (js_get (mm_machines mgr) n)
   \<and> map fst (mm_machines (foldl (replay_entry ops) mgr es)) = map fst (mm_machines mgr)
   \<and> js_get (mm_retiring (foldl (replay_entry ops) mgr es)) n =
       (if js_get (mm_machines mgr) n = None then retire_replay n es (js_get (mm_retiring mgr) n) else js_get (mm_retiring mgr) n)
   \<and> (js_wf (mm_retiring mgr) \<longrightarrow> js_wf (mm_retiring (foldl (replay_entry ops) mgr es)))
   \<and> mm_version (foldl (replay_entry ops) mgr es) = mm_version mgr
   \<and> mm_liveEntryCount (foldl (replay_entry ops) mgr es) = mm_liveEntryCount mgr
   \<and> mm_logName (foldl (replay_entry ops) mgr es) = mm_logName mgr \<and> mm_grainId (foldl (replay_entry ops) mgr es) = mm_grainId mgr
   \<and> mm_retirementGrace (foldl (replay_entry ops) mgr es) = mm_retirementGrace mgr"
proof (induction es arbitrary: mgr)
  case Nil
  then show ?case by (cases "js_get (mm_machines mgr) n") auto
next
  case (Cons env es)
  show ?case
    using Cons.IH [of "replay_entry ops mgr env"]
    by (simp add: replay_entry_machines replay_entry_names replay_entry_retiring replay_entry_wf option.map_comp comp_def)
qed

lemma machine_replay_frames:
  assumes "js_wf xs" "\<And>k x. env_m (F k x) = k"
  shows "machine_replay ops n (map (\<lambda>(k, x). F k x) xs) m =
    (case js_get xs n of None \<Rightarrow> m | Some x \<Rightarrow> foldl (mo_apply ops) m (frame_payloads (F n x)))"
  using assms(1)
proof (induction xs arbitrary: m)
  case (Cons p xs)
  obtain k x where p: "p = (k, x)" by force
  have wf: "js_wf xs" "js_get xs k = None" using Cons.prems p by (auto simp: js_wf_def map_of_eq_None_iff)
  show ?case using Cons.IH [OF wf(1)] wf(2) by (cases "k = n") (simp_all add: p assms(2))
qed simp

lemma retire_replay_frames:
  assumes "js_wf xs" "\<And>k x. env_m (F k x) = k"
  shows "retire_replay n (map (\<lambda>(k, x). F k x) xs) r = (case js_get xs n of None \<Rightarrow> r | Some x \<Rightarrow> retire_step r (F n x))"
  using assms(1)
proof (induction xs arbitrary: r)
  case (Cons p xs)
  obtain k x where p: "p = (k, x)" by force
  have wf: "js_wf xs" "js_get xs k = None" using Cons.prems p by (auto simp: js_wf_def map_of_eq_None_iff)
  show ?case using Cons.IH [OF wf(1)] wf(2) by (cases "k = n") (simp_all add: p assms(2))
qed simp

lemma js_wf_map_values [simp]: "js_wf (map (\<lambda>(k, v). (k, f v)) m) = js_wf m"
  by (simp add: js_wf_def comp_def case_prod_beta)

lemma js_get_map_values: "js_get (map (\<lambda>(k, v). (k, f v)) m) n = map_option f (js_get m n)"
  by (simp add: map_of_map)

lemma nextRetiring_wf: "js_wf (mm_retiring mgr) \<Longrightarrow> js_wf (nextRetiring mgr)"
  by (simp add: nextRetiring_def)

lemma nextRetiring_get:
  assumes "js_wf (mm_retiring mgr)"
  shows "js_get (nextRetiring mgr) n = (case js_get (mm_retiring mgr) n of None \<Rightarrow> None
     | Some r \<Rightarrow> if mm_retirementGrace mgr \<le> rr_compactionsSinceOrphaned r + 1 then None
         else Some (r\<lparr> rr_compactionsSinceOrphaned := rr_compactionsSinceOrphaned r + 1 \<rparr>))"
  using assms by (simp add: nextRetiring_def js_get_map_values js_get_filter split: option.splits)

text \<open>All payloads of one name in a log, and logs in which a buffered frame of a name precedes its other frames,
  as the manager writes them.\<close>

definition payloads_of :: "string \<Rightarrow> 'p log_envelope list \<Rightarrow> 'p list" where
  "payloads_of n es = concat (map frame_payloads (filter (\<lambda>e. env_m e = n) es))"

fun is_vessel :: "'p log_envelope \<Rightarrow> bool" where
  "is_vessel (VesselFrame _ _ _) = True"
| "is_vessel _ = False"

definition vessels_first :: "string \<Rightarrow> 'p log_envelope list \<Rightarrow> bool" where
  "vessels_first n es \<longleftrightarrow> list_all (\<lambda>e. \<not> is_vessel e) (tl (filter (\<lambda>e. env_m e = n) es))"

lemma machine_replay_payloads: "machine_replay ops n es m = foldl (mo_apply ops) m (payloads_of n es)"
  by (induction es arbitrary: m) (simp_all add: payloads_of_def)

lemma retire_replay_filter: "retire_replay n es r = foldl retire_step r (filter (\<lambda>e. env_m e = n) es)"
  by (induction es arbitrary: r) simp_all

lemma retire_step_op: "\<not> is_vessel e \<Longrightarrow> retire_step (Some r) e = Some (r\<lparr> rr_ops := rr_ops r @ frame_payloads e \<rparr>)"
  by (cases e) auto

lemma retire_steps_ops:
  "list_all (\<lambda>e. \<not> is_vessel e) fs \<Longrightarrow> foldl retire_step (Some r) fs = Some (r\<lparr> rr_ops := rr_ops r @ concat (map frame_payloads fs) \<rparr>)"
  by (induction fs arbitrary: r) (auto simp: retire_step_op)

lemma retire_payloads:
  assumes "vessels_first n es" "retire_replay n es None = Some r"
  shows "rr_ops r = payloads_of n es"
proof (cases "filter (\<lambda>e. env_m e = n) es")
  case Nil
  with assms(2) show ?thesis by (simp add: retire_replay_filter)
next
  case (Cons f fs)
  moreover have "\<exists>c. retire_step None f = Some \<lparr> rr_ops = frame_payloads f, rr_compactionsSinceOrphaned = c \<rparr>"
    by (cases f) auto
  ultimately show ?thesis
    using assms by (auto simp: retire_replay_filter vessels_first_def payloads_of_def retire_steps_ops)
qed

lemma mm_compact_shape:
  assumes "mm_compact ops (s, mgr) = Inr (s', mgr')"
  obtains v where "js_replace s (mm_logName mgr) (mm_grainId mgr) (compactFrames ops mgr) (mm_version mgr) = Inr (s', v)"
    "mgr' = mgr\<lparr> mm_version := Some v, mm_liveEntryCount := length (compactFrames ops mgr), mm_retiring := nextRetiring mgr \<rparr>"
  using assms by (auto simp: mm_compact_def Let_def split: sum.splits)

section \<open>The contract of a durable structure\<close>

abbreviation stable :: "('m, 'p) machine_ops \<Rightarrow> 'p \<Rightarrow> bool" where
  "stable ops p \<equiv> mo_wire ops p = p"

definition stable_frames :: "('m, 'p) machine_ops \<Rightarrow> 'p log_envelope list \<Rightarrow> bool" where
  "stable_frames ops es \<longleftrightarrow> list_all (\<lambda>e. list_all (stable ops) (frame_payloads e)) es"

lemma stable_frames_simps [simp]:
  "stable_frames ops []" "stable_frames ops (e # es) \<longleftrightarrow> list_all (stable ops) (frame_payloads e) \<and> stable_frames ops es"
  "stable_frames ops (es @ fs) \<longleftrightarrow> stable_frames ops es \<and> stable_frames ops fs"
  "stable_frames ops (map (OpFrame n) ps) = list_all (stable ops) ps"
  by (auto simp: stable_frames_def list_all_iff)

lemma map_stable: "list_all (stable ops) ps \<Longrightarrow> map (mo_wire ops) ps = ps"
  by (induction ps) auto

lemma retire_replay_stable:
  "stable_frames ops es \<Longrightarrow> (\<And>x. r = Some x \<Longrightarrow> list_all (stable ops) (rr_ops x)) \<Longrightarrow> retire_replay n es r = Some x \<Longrightarrow>
   list_all (stable ops) (rr_ops x)"
proof (induction es arbitrary: r)
  case (Cons e es)
  have "list_all (stable ops) (rr_ops y)" if "(if env_m e = n then retire_step r e else r) = Some y" for y
    using that Cons.prems(1,2) by (cases e; cases r) (auto split: if_splits)
  with Cons.IH [of "if env_m e = n then retire_step r e else r"] Cons.prems(1,3) show ?case by simp
qed simp

locale durable_machine =
  fixes ops :: "('m, 'p) machine_ops"
    and ok :: "'m \<Rightarrow> bool"
  assumes reset_ok: "ok m \<Longrightarrow> ok (mo_reset ops m)"
    and apply_ok: "ok m \<Longrightarrow> stable ops p \<Longrightarrow> ok (mo_apply ops m p)"
    and snapshot_law: "ok m \<Longrightarrow> mo_apply ops (mo_reset ops m) (mo_snapshot ops m) = m"
    and snapshot_stable: "ok m \<Longrightarrow> stable ops (mo_snapshot ops m)"
    and reset_apply: "mo_reset ops (mo_apply ops m p) = mo_reset ops m"
    and reset_reset: "mo_reset ops (mo_reset ops m) = mo_reset ops m"
begin

text \<open>What every manager keeps, whatever the log holds: its structures are well-formed, its buffered data is stable
  and belongs to names it did not register.\<close>

definition sound :: "('m, 'p) machine_manager \<Rightarrow> bool" where
  "sound mgr \<longleftrightarrow> js_wf (mm_machines mgr) \<and> js_wf (mm_retiring mgr)
     \<and> (\<forall>n m. js_get (mm_machines mgr) n = Some m \<longrightarrow> ok m)
     \<and> (\<forall>n r. js_get (mm_retiring mgr) n = Some r \<longrightarrow> list_all (stable ops) (rr_ops r) \<and> js_get (mm_machines mgr) n = None)"

text \<open>The manager mirrors its log: replaying the log gives what it holds in memory.\<close>

definition live :: "'p log_envelope journal_storage \<times> ('m, 'p) machine_manager \<Rightarrow> bool" where
  "live w \<longleftrightarrow> (let mgr = snd w; seg = js_read (fst w) (mm_logName mgr) (mm_grainId mgr) in
     js_wf (mm_machines mgr) \<and> js_wf (mm_retiring mgr) \<and> mm_version mgr = sg_version seg
     \<and> stable_frames ops (sg_entries seg)
     \<and> mm_liveEntryCount mgr = length (sg_entries seg)
     \<and> (\<forall>n m. js_get (mm_machines mgr) n = Some m \<longrightarrow> ok m \<and> machine_replay ops n (sg_entries seg) (mo_reset ops m) = m)
     \<and> (\<forall>n. js_get (mm_retiring mgr) n =
          (if js_get (mm_machines mgr) n = None then retire_replay n (sg_entries seg) None else None)))"

lemma live_sound: "live (s, mgr) \<Longrightarrow> sound mgr"
  using retire_replay_stable [where r = None] by (auto simp: live_def sound_def Let_def split: if_splits)

text \<open>The frames a manager writes are stable, so the codec leaves no trace in them.\<close>

lemma nextRetiring_stable: "sound mgr \<Longrightarrow> (n, r) \<in> set (nextRetiring mgr) \<Longrightarrow> list_all (stable ops) (rr_ops r)"
  using js_get_mem [of "mm_retiring mgr"] by (fastforce simp: nextRetiring_def sound_def)

lemma compactFrames_plain:
  assumes "sound mgr"
  shows "compactFrames ops mgr = map (\<lambda>(n, m). SnapFrame n (mo_snapshot ops m)) (mm_machines mgr)
     @ map (\<lambda>(n, r). VesselFrame n (rr_compactionsSinceOrphaned r) (rr_ops r)) (nextRetiring mgr)"
    and "stable_frames ops (compactFrames ops mgr)"
proof -
  have m: "stable ops (mo_snapshot ops m)" if "(n, m) \<in> set (mm_machines mgr)" for n m
    using assms that js_get_mem [of "mm_machines mgr" n m] snapshot_stable unfolding sound_def by blast
  show "compactFrames ops mgr = map (\<lambda>(n, m). SnapFrame n (mo_snapshot ops m)) (mm_machines mgr)
     @ map (\<lambda>(n, r). VesselFrame n (rr_compactionsSinceOrphaned r) (rr_ops r)) (nextRetiring mgr)" (is "_ = ?fs")
    using m map_stable [OF nextRetiring_stable [OF assms]] by (auto simp: compactFrames_def)
  moreover have "stable_frames ops ?fs"
    using m nextRetiring_stable [OF assms] by (fastforce simp: stable_frames_def list_all_iff)
  ultimately show "stable_frames ops (compactFrames ops mgr)" by simp
qed

lemma apply_all_ok: "ok m \<Longrightarrow> list_all (stable ops) ps \<Longrightarrow> ok (foldl (mo_apply ops) m ps)"
  by (induction ps arbitrary: m) (auto simp: apply_ok)

lemma reset_apply_all: "mo_reset ops (foldl (mo_apply ops) m ps) = mo_reset ops m"
  by (induction ps arbitrary: m) (auto simp: reset_apply)

lemma machine_replay_ok: "ok m \<Longrightarrow> stable_frames ops es \<Longrightarrow> ok (machine_replay ops n es m)"
  by (induction es arbitrary: m) (auto simp: apply_all_ok)

lemma machine_replay_reset: "mo_reset ops (machine_replay ops n es m) = mo_reset ops m"
  by (induction es arbitrary: m) (auto simp: reset_apply_all)

lemma replay_live:
  assumes "js_wf (mm_machines mgr)" "\<forall>n m. js_get (mm_machines mgr) n = Some m \<longrightarrow> ok m"
    and "stable_frames ops (sg_entries (js_read s (mm_logName mgr) (mm_grainId mgr)))"
  shows "live (s, mm_replay ops s mgr)"
proof -
  let ?seg = "js_read s (mm_logName mgr) (mm_grainId mgr)"
  let ?m1 = "mgr\<lparr> mm_version := sg_version ?seg, mm_liveEntryCount := length (sg_entries ?seg), mm_retiring := [],
     mm_machines := map (\<lambda>(n, m). (n, mo_reset ops m)) (mm_machines mgr) \<rparr>"
  note F = replay_fold [of ops ?m1 "sg_entries ?seg"]
  have wf: "js_wf (mm_machines (mm_replay ops s mgr))"
    using F assms(1) by (simp add: mm_replay_def Let_def js_wf_def comp_def case_prod_beta)
  show ?thesis
    using F wf assms(2,3)
    by (auto simp: live_def mm_replay_def Let_def js_get_map_values machine_replay_ok reset_ok machine_replay_reset reset_reset)
qed

lemma append_only_live:
  assumes "live (s, mgr)" "js_get (mm_machines mgr) n = Some m" "list_all (stable ops) ps"
    and "js_append s (mm_logName mgr) (mm_grainId mgr) (map (OpFrame n) ps) (mm_version mgr) = Inr (s', v)"
  shows "live (s', mgr\<lparr> mm_version := Some v, mm_machines := js_set n (foldl (mo_apply ops) m ps) (mm_machines mgr),
           mm_liveEntryCount := mm_liveEntryCount mgr + length ps \<rparr>)"
proof -
  have same: "machine_replay ops n (map (OpFrame n) ps) x = foldl (mo_apply ops) x ps" for x
    by (induction ps arbitrary: x) auto
  have other: "k \<noteq> n \<Longrightarrow> machine_replay ops k (map (OpFrame n) ps) x = x"
    "k \<noteq> n \<Longrightarrow> retire_replay k (map (OpFrame n) ps) r = r" for k x r
    by (induction ps arbitrary: x r) auto
  show ?thesis
    using assms js_append_read [OF assms(4)]
    by (auto simp: live_def Let_def js_get_set same other apply_all_ok reset_apply_all)
qed

lemma compact_replay:
  assumes "live (s, mgr)"
  shows "machine_replay ops n (compactFrames ops mgr) m0 = (case js_get (mm_machines mgr) n of
      Some m \<Rightarrow> mo_apply ops m0 (mo_snapshot ops m)
    | None \<Rightarrow> (case js_get (nextRetiring mgr) n of None \<Rightarrow> m0 | Some r \<Rightarrow> foldl (mo_apply ops) m0 (rr_ops r)))"
proof -
  have wf: "js_wf (mm_machines mgr)" "js_wf (mm_retiring mgr)" using assms by (simp_all add: live_def Let_def)
  have "js_get (nextRetiring mgr) n = None" if "js_get (mm_machines mgr) n \<noteq> None"
    using assms that by (auto simp: nextRetiring_get [OF wf(2)] live_def Let_def)
  then show ?thesis
    by (auto simp: compactFrames_plain(1) [OF live_sound [OF assms]] machine_replay_frames wf(1) nextRetiring_wf [OF wf(2)]
        split: option.splits)
qed

lemma compact_shape:
  assumes "mm_compact ops (s, mgr) = Inr (s', mgr')"
  obtains v where "js_replace s (mm_logName mgr) (mm_grainId mgr) (compactFrames ops mgr) (mm_version mgr) = Inr (s', v)"
    "mgr' = mgr\<lparr> mm_version := Some v, mm_liveEntryCount := length (compactFrames ops mgr), mm_retiring := nextRetiring mgr \<rparr>"
  using mm_compact_shape [OF assms] by blast

lemma compact_live:
  assumes "live (s, mgr)" "mm_compact ops (s, mgr) = Inr (s', mgr')"
  shows "live (s', mgr') \<and> mm_machines mgr' = mm_machines mgr"
proof -
  let ?frames = "compactFrames ops mgr"
  obtain v where rep: "js_replace s (mm_logName mgr) (mm_grainId mgr) ?frames (mm_version mgr) = Inr (s', v)"
    and mgr': "mgr' = mgr\<lparr> mm_version := Some v, mm_liveEntryCount := length ?frames, mm_retiring := nextRetiring mgr \<rparr>"
    by (rule compact_shape [OF assms(2)])
  have wf: "js_wf (mm_machines mgr)" "js_wf (mm_retiring mgr)" using assms(1) by (simp_all add: live_def Let_def)
  note V = nextRetiring_wf [OF wf(2)]
  have unreg: "js_get (nextRetiring mgr) n = None" if "js_get (mm_machines mgr) n \<noteq> None" for n
    using assms(1) that by (auto simp: nextRetiring_get [OF wf(2)] live_def Let_def)
  have rr: "retire_replay n ?frames None = js_get (nextRetiring mgr) n" if "js_get (mm_machines mgr) n = None" for n
    using that by (simp add: compactFrames_plain(1) [OF live_sound [OF assms(1)]] retire_replay_frames wf(1) V
        split: option.splits)
  show ?thesis
    using assms(1) js_replace_read [OF rep] wf V unreg compact_replay [OF assms(1)] rr snapshot_law
      compactFrames_plain(2) [OF live_sound [OF assms(1)]]
    by (auto simp: live_def Let_def mgr')
qed

text \<open>The two outcomes of an accepted write.\<close>

lemma appendRange_shape:
  assumes "mm_appendRange ops (s, mgr) n ps = Inr (s', mgr')" "ps \<noteq> []" "list_all (stable ops) ps"
  obtains m s1 v mgr1 where "js_get (mm_machines mgr) n = Some m"
    "js_append s (mm_logName mgr) (mm_grainId mgr) (map (OpFrame n) ps) (mm_version mgr) = Inr (s1, v)"
    "mgr1 = mgr\<lparr> mm_version := Some v, mm_machines := js_set n (foldl (mo_apply ops) m ps) (mm_machines mgr),
           mm_liveEntryCount := mm_liveEntryCount mgr + length ps \<rparr>"
    "s' = s1 \<and> mgr' = mgr1 \<or> mm_compact ops (s1, mgr1) = Inr (s', mgr')"
proof -
  obtain m where m: "js_get (mm_machines mgr) n = Some m"
    using assms(1) by (auto simp: mm_appendRange_def Let_def split: option.splits)
  obtain s1 v where a: "js_append s (mm_logName mgr) (mm_grainId mgr) (map (OpFrame n) ps) (mm_version mgr) = Inr (s1, v)"
    using assms(1,2) m by (auto simp: mm_appendRange_def map_stable [OF assms(3)] Let_def simp del: map_map split: sum.splits)
  show thesis
    using assms(1,2) m a
    by (intro that [OF m a refl])
       (auto simp: mm_appendRange_def map_stable [OF assms(3)] Let_def simp del: map_map split: if_splits sum.splits)
qed

lemma appendRange_live:
  assumes "live w" "mm_appendRange ops w n ps = Inr w'" "list_all (stable ops) ps"
  shows "live w'"
proof (cases "ps = []")
  case True
  with assms show ?thesis by (auto simp: mm_appendRange_def Let_def split: option.splits)
next
  case False
  obtain s mgr s' mgr' where w: "w = (s, mgr)" "w' = (s', mgr')" by (cases w; cases w')
  obtain m s1 v mgr1 where sh: "js_get (mm_machines mgr) n = Some m"
    "js_append s (mm_logName mgr) (mm_grainId mgr) (map (OpFrame n) ps) (mm_version mgr) = Inr (s1, v)"
    "mgr1 = mgr\<lparr> mm_version := Some v, mm_machines := js_set n (foldl (mo_apply ops) m ps) (mm_machines mgr),
           mm_liveEntryCount := mm_liveEntryCount mgr + length ps \<rparr>"
    "s' = s1 \<and> mgr' = mgr1 \<or> mm_compact ops (s1, mgr1) = Inr (s', mgr')"
    by (rule appendRange_shape [OF assms(2) [unfolded w] False assms(3)])
  have L: "live (s1, mgr1)" using append_only_live [OF _ sh(1) assms(3) sh(2)] assms(1) w by (simp add: sh(3))
  then show ?thesis using sh(4) compact_live [OF L] w by auto
qed

lemma sound_write:
  assumes "sound mgr" "js_get (mm_machines mgr) n = Some m" "list_all (stable ops) ps"
  shows "sound (mgr\<lparr> mm_version := v, mm_machines := js_set n (foldl (mo_apply ops) m ps) (mm_machines mgr),
           mm_liveEntryCount := c \<rparr>)"
proof -
  have "js_get (mm_retiring mgr) n = None" using assms(1,2) by (cases "js_get (mm_retiring mgr) n") (auto simp: sound_def)
  with assms apply_all_ok [OF _ assms(3)] show ?thesis by (auto simp: sound_def js_get_set)
qed

lemma sound_compacted: "sound mgr \<Longrightarrow> sound (mgr\<lparr> mm_version := v, mm_liveEntryCount := c, mm_retiring := nextRetiring mgr \<rparr>)"
  by (auto simp: sound_def nextRetiring_wf nextRetiring_get split: option.splits if_splits)

lemma sound_cleared: "sound mgr \<Longrightarrow> sound (snd (mm_clear ops (s, mgr)))"
  by (auto simp: sound_def mm_clear_def js_get_map_values reset_ok)

lemma clear_fresh:
  assumes "sound mgr"
  shows "live (mm_clear ops (s, mgr))"
  using assms by (auto simp: sound_def live_def mm_clear_def Let_def js_clear_read js_get_map_values reset_ok reset_reset)

lemma clear_live: "live w \<Longrightarrow> live (mm_clear ops w)"
  by (auto simp: live_def mm_clear_def Let_def js_clear_read js_get_map_values reset_ok reset_reset)

text \<open>Replaying in a fresh activation with the same structures gives back the live state.\<close>

lemma reactivation_exact:
  assumes "live (s, mgr)" "mm_logName mgr0 = mm_logName mgr" "mm_grainId mgr0 = mm_grainId mgr"
    and "mm_machines mgr0 = map (\<lambda>(n, m). (n, mo_reset ops m)) (mm_machines mgr)"
  shows "let mgr' = mm_replay ops s mgr0 in mm_machines mgr' = mm_machines mgr \<and> mm_version mgr' = mm_version mgr
    \<and> mm_liveEntryCount mgr' = mm_liveEntryCount mgr \<and> (\<forall>n. js_get (mm_retiring mgr') n = js_get (mm_retiring mgr) n)"
proof -
  let ?seg = "js_read s (mm_logName mgr) (mm_grainId mgr)"
  let ?m1 = "mgr0\<lparr> mm_version := sg_version ?seg, mm_liveEntryCount := length (sg_entries ?seg), mm_retiring := [],
     mm_machines := map (\<lambda>(n, m). (n, mo_reset ops m)) (mm_machines mgr0) \<rparr>"
  note F = replay_fold [of ops ?m1 "sg_entries ?seg"]
  have L: "js_wf (mm_machines mgr)" "mm_version mgr = sg_version ?seg" "mm_liveEntryCount mgr = length (sg_entries ?seg)"
    "\<And>n m. js_get (mm_machines mgr) n = Some m \<Longrightarrow> machine_replay ops n (sg_entries ?seg) (mo_reset ops m) = m"
    "\<And>n. js_get (mm_retiring mgr) n = (if js_get (mm_machines mgr) n = None then retire_replay n (sg_entries ?seg) None else None)"
    using assms(1) by (simp_all add: live_def Let_def)
  have rep: "mm_replay ops s mgr0 = foldl (replay_entry ops) ?m1 (sg_entries ?seg)"
    using assms(2,3) by (simp add: mm_replay_def Let_def)
  have ms: "map (\<lambda>(n, m). (n, mo_reset ops m)) (mm_machines mgr0) = mm_machines mgr0"
    by (simp add: assms(4) case_prod_beta reset_reset)
  have get0: "js_get (mm_machines mgr0) n = map_option (mo_reset ops) (js_get (mm_machines mgr) n)" for n
    by (simp add: assms(4) js_get_map_values)
  have get: "js_get (mm_machines (mm_replay ops s mgr0)) n = js_get (mm_machines mgr) n" for n
    using F L(4) by (cases "js_get (mm_machines mgr) n") (simp_all add: rep ms get0)
  have keys: "map fst (mm_machines (mm_replay ops s mgr0)) = map fst (mm_machines mgr)"
    using F by (simp add: rep ms) (simp add: assms(4) comp_def case_prod_beta)
  have "mm_machines (mm_replay ops s mgr0) = mm_machines mgr"
    by (rule js_map_eqI) (use get keys L(1) in \<open>simp_all add: js_wf_def\<close>)
  moreover have "js_get (mm_retiring (mm_replay ops s mgr0)) n = js_get (mm_retiring mgr) n" for n
    using F L(5) by (simp add: rep ms get0)
  ultimately show ?thesis using F L(2,3) by (simp add: rep)
qed

text \<open>A structure that is not registered keeps its data through a compaction within its grace period.\<close>

lemma retirement_kept:
  assumes "live (s, mgr)" "js_get (mm_machines mgr) n = None"
    and "vessels_first n (sg_entries (js_read s (mm_logName mgr) (mm_grainId mgr)))"
    and "js_get (mm_retiring mgr) n = Some r" "rr_compactionsSinceOrphaned r + 1 < mm_retirementGrace mgr"
    and "mm_compact ops (s, mgr) = Inr (s', mgr')"
  shows "machine_replay ops n (sg_entries (js_read s' (mm_logName mgr) (mm_grainId mgr))) m0 =
         machine_replay ops n (sg_entries (js_read s (mm_logName mgr) (mm_grainId mgr))) m0"
proof -
  let ?E = "sg_entries (js_read s (mm_logName mgr) (mm_grainId mgr))"
  obtain v where rep: "js_replace s (mm_logName mgr) (mm_grainId mgr) (compactFrames ops mgr) (mm_version mgr) = Inr (s', v)"
    by (rule compact_shape [OF assms(6)])
  have wf: "js_wf (mm_retiring mgr)" and ret: "retire_replay n ?E None = Some r"
    using assms(1,2,4) by (auto simp: live_def Let_def)
  have "machine_replay ops n (compactFrames ops mgr) m0 = foldl (mo_apply ops) m0 (rr_ops r)"
    using assms(2,4,5) by (simp add: compact_replay [OF assms(1)] nextRetiring_get [OF wf])
  also have "\<dots> = machine_replay ops n ?E m0"
    using retire_payloads [OF assms(3) ret] by (simp add: machine_replay_payloads)
  finally show ?thesis using js_replace_read [OF rep] by simp
qed

end

end
