(* ===== verification/Durable_Structures.thy ===== *)
theory Durable_Structures
  imports Journaling
begin

text \<open>
  The five journalled structures of \<^verbatim>\<open>journaling/src/durable-*-impl.ts\<close>: value, dictionary, list, queue and
  set. Each is a state with the operation union of the source, \<open>reset\<close>, \<open>apply\<close> and \<open>snapshot\<close>, and the
  public methods as functions from the state to the operation they journal (\<open>None\<close>: nothing is written).
  Values are plain JavaScript values (\<open>jval\<close>); \<open>undefined\<close> is \<open>JUndefined\<close>. What the value codec makes of a
  value on its way through the log is the argument \<open>w\<close> (it drops \<open>undefined\<close> properties and keys that reach a
  prototype, for instance); an \<open>undefined\<close> in a slot of its own is tagged by the codec and comes back. An array written
  past its end is extended with \<open>undefined\<close>, as JavaScript does; a negative index of a plain assignment is
  not an element and leaves the array alone.

  Each structure is shown to satisfy the contract \<open>durable_machine\<close> of the manager, so the manager's
  theorems hold for a grain with any mix of them (\<open>durable\<close>, their sum).
\<close>

datatype jval =
    JUndefined
  | JNull
  | JBool bool
  | JNum int
  | JStr string
  | JArr "jval list"
  | JObj "(string \<times> jval) list"

text \<open>A value in a slot of an operation, after the codec \<open>w\<close>.\<close>

definition slot :: "(jval \<Rightarrow> jval) \<Rightarrow> jval \<Rightarrow> jval" where
  "slot w v = (if v = JUndefined then JUndefined else w v)"

abbreviation carried :: "(jval \<Rightarrow> jval) \<Rightarrow> jval \<Rightarrow> bool" where
  "carried w v \<equiv> slot w v = v"

lemma slot_undefined [simp]: "slot w JUndefined = JUndefined"
  by (simp add: slot_def)

lemma map_carried: "map (slot w) xs = xs \<longleftrightarrow> list_all (carried w) xs"
  by (induction xs) auto

section \<open>Value\<close>

datatype value_op = VSet jval | VClear

record durable_value =
  dv_current :: jval
  dv_present :: bool

definition newDurableValue :: durable_value where
  "newDurableValue = \<lparr> dv_current = JUndefined, dv_present = False \<rparr>"

definition dv_reset :: "durable_value \<Rightarrow> durable_value" where
  "dv_reset v = \<lparr> dv_current = JUndefined, dv_present = False \<rparr>"

fun dv_apply :: "durable_value \<Rightarrow> value_op \<Rightarrow> durable_value" where
  "dv_apply s (VSet v) = \<lparr> dv_current = v, dv_present = True \<rparr>"
| "dv_apply s VClear = \<lparr> dv_current = JUndefined, dv_present = False \<rparr>"

definition dv_snapshot :: "durable_value \<Rightarrow> value_op" where
  "dv_snapshot s = (if dv_present s then VSet (dv_current s) else VClear)"

definition dv_set :: "durable_value \<Rightarrow> jval \<Rightarrow> value_op option" where
  "dv_set s v = Some (VSet v)"

definition dv_clear :: "durable_value \<Rightarrow> value_op option" where
  "dv_clear s = Some VClear"

definition dv_ok :: "(jval \<Rightarrow> jval) \<Rightarrow> durable_value \<Rightarrow> bool" where
  "dv_ok w s \<longleftrightarrow> (\<not> dv_present s \<longrightarrow> dv_current s = JUndefined) \<and> carried w (dv_current s)"

fun value_wire :: "(jval \<Rightarrow> jval) \<Rightarrow> value_op \<Rightarrow> value_op" where
  "value_wire w (VSet v) = VSet (slot w v)"
| "value_wire w VClear = VClear"

definition value_ops :: "(jval \<Rightarrow> jval) \<Rightarrow> (durable_value, value_op) machine_ops" where
  "value_ops w = \<lparr> mo_reset = dv_reset, mo_apply = dv_apply, mo_snapshot = dv_snapshot, mo_wire = value_wire w \<rparr>"

interpretation durable_value: durable_machine "value_ops w" "dv_ok w" for w
proof (unfold_locales, goal_cases)
  case (2 m p)
  then show ?case by (cases p) (simp_all add: value_ops_def dv_ok_def)
next
  case (5 m p)
  then show ?case by (cases p) (simp_all add: value_ops_def dv_reset_def)
qed (simp_all add: value_ops_def dv_reset_def dv_snapshot_def dv_ok_def)

section \<open>Dictionary\<close>

datatype dict_op = DSet jval jval | DDel jval | DClear | DLoad "(jval \<times> jval) list"

type_synonym durable_dict = "(jval, jval) js_map"

definition dd_load :: "(jval \<times> jval) list \<Rightarrow> durable_dict" where
  "dd_load entries = foldl (\<lambda>m (k, v). js_set k v m) [] entries"

fun dd_apply :: "durable_dict \<Rightarrow> dict_op \<Rightarrow> durable_dict" where
  "dd_apply m (DSet k v) = js_set k v m"
| "dd_apply m (DDel k) = js_delete k m"
| "dd_apply m DClear = []"
| "dd_apply m (DLoad entries) = dd_load entries"

definition dd_reset :: "durable_dict \<Rightarrow> durable_dict" where
  "dd_reset m = []"

definition dd_snapshot :: "durable_dict \<Rightarrow> dict_op" where
  "dd_snapshot m = DLoad m"

definition dd_set :: "durable_dict \<Rightarrow> jval \<Rightarrow> jval \<Rightarrow> dict_op option" where
  "dd_set m k v = Some (DSet k v)"

definition dd_delete :: "durable_dict \<Rightarrow> jval \<Rightarrow> dict_op option" where
  "dd_delete m k = (if \<not> js_has m k then None else Some (DDel k))"

fun dict_wire :: "(jval \<Rightarrow> jval) \<Rightarrow> dict_op \<Rightarrow> dict_op" where
  "dict_wire w (DSet k v) = DSet (slot w k) (slot w v)"
| "dict_wire w (DDel k) = DDel (slot w k)"
| "dict_wire w DClear = DClear"
| "dict_wire w (DLoad entries) = DLoad (map (map_prod (slot w) (slot w)) entries)"

definition dict_ops :: "(jval \<Rightarrow> jval) \<Rightarrow> (durable_dict, dict_op) machine_ops" where
  "dict_ops w = \<lparr> mo_reset = dd_reset, mo_apply = dd_apply, mo_snapshot = dd_snapshot, mo_wire = dict_wire w \<rparr>"

definition dd_ok :: "(jval \<Rightarrow> jval) \<Rightarrow> durable_dict \<Rightarrow> bool" where
  "dd_ok w m \<longleftrightarrow> js_wf m \<and> (\<forall>(k, v) \<in> set m. carried w k \<and> carried w v)"

lemma dd_load_append: "js_wf (a @ b) \<Longrightarrow> foldl (\<lambda>m (k, v). js_set k v m) a b = a @ b"
proof (induction b arbitrary: a)
  case (Cons p b)
  obtain k v where p: "p = (k, v)" by force
  have "js_get a k = None" using Cons.prems p by (auto simp: js_wf_def map_of_eq_None_iff)
  then have "js_set k v a = a @ [(k, v)]" by (rule js_set_fresh)
  with Cons.IH [of "a @ [(k, v)]"] Cons.prems p show ?case by simp
qed simp

lemma dd_load_id: "js_wf m \<Longrightarrow> dd_load m = m"
  using dd_load_append [of "[]" m] by (simp add: dd_load_def)

lemma dd_load_wf: "js_wf (dd_load es)"
proof -
  have "js_wf a \<Longrightarrow> js_wf (foldl (\<lambda>m (k, v). js_set k v m) a es)" for a :: durable_dict
    by (induction es arbitrary: a) auto
  then show ?thesis by (simp add: dd_load_def)
qed

lemma map_carried_pairs:
  "map (map_prod (slot w) (slot w)) es = es \<longleftrightarrow> (\<forall>(k, v) \<in> set es. carried w k \<and> carried w v)"
  by (induction es) auto

lemma dd_ok_set: "dd_ok w m \<Longrightarrow> carried w k \<Longrightarrow> carried w v \<Longrightarrow> dd_ok w (js_set k v m)"
  by (auto simp: dd_ok_def js_set_mem)

lemma dd_ok_load:
  assumes "\<forall>(k, v) \<in> set es. carried w k \<and> carried w v"
  shows "dd_ok w (dd_load es)"
proof -
  have "dd_ok w a \<Longrightarrow> dd_ok w (foldl (\<lambda>m (k, v). js_set k v m) a es)" for a
    using assms by (induction es arbitrary: a) (auto simp: dd_ok_set)
  from this [of "[]"] show ?thesis by (simp add: dd_load_def) (simp add: dd_ok_def)
qed

interpretation durable_dict: durable_machine "dict_ops w" "dd_ok w" for w
proof (unfold_locales, goal_cases)
  case (2 m p)
  then show ?case
    by (cases p) (auto simp: dict_ops_def dd_ok_set dd_ok_load map_carried_pairs,
        auto simp: dd_ok_def dest: js_delete_mem [THEN iffD1])
next
  case (4 m)
  then show ?case by (simp add: dict_ops_def dd_snapshot_def map_carried_pairs dd_ok_def)
next
  case (5 m p)
  then show ?case by (cases p) (simp_all add: dict_ops_def dd_reset_def)
qed (simp_all add: dict_ops_def dd_reset_def dd_snapshot_def dd_load_id dd_ok_def)

section \<open>List\<close>

datatype list_op =
  LAdd jval | LSet int jval | LRemoveAt int | LInsert int jval | LClear | LLoad "jval list"

type_synonym durable_list = "jval list"

text \<open>The start index of \<open>Array.prototype.splice\<close>.\<close>

definition splice_start :: "jval list \<Rightarrow> int \<Rightarrow> nat" where
  "splice_start xs i = (if i < 0 then nat (max (int (length xs) + i) 0) else min (nat i) (length xs))"

definition js_assign :: "jval list \<Rightarrow> int \<Rightarrow> jval \<Rightarrow> jval list" where
  "js_assign xs i v =
     (if i < 0 then xs
      else if nat i < length xs then xs[nat i := v]
      else xs @ replicate (nat i - length xs) JUndefined @ [v])"

fun dl_apply :: "durable_list \<Rightarrow> list_op \<Rightarrow> durable_list" where
  "dl_apply xs (LAdd v) = xs @ [v]"
| "dl_apply xs (LSet i v) = js_assign xs i v"
| "dl_apply xs (LRemoveAt i) = take (splice_start xs i) xs @ drop (Suc (splice_start xs i)) xs"
| "dl_apply xs (LInsert i v) = take (splice_start xs i) xs @ v # drop (splice_start xs i) xs"
| "dl_apply xs LClear = []"
| "dl_apply xs (LLoad items) = items"

definition dl_reset :: "durable_list \<Rightarrow> durable_list" where
  "dl_reset xs = []"

definition dl_snapshot :: "durable_list \<Rightarrow> list_op" where
  "dl_snapshot xs = LLoad xs"

definition dl_get :: "durable_list \<Rightarrow> int \<Rightarrow> jval" where
  "dl_get xs i = (if 0 \<le> i \<and> nat i < length xs then xs ! nat i else JUndefined)"

definition dl_contains :: "durable_list \<Rightarrow> jval \<Rightarrow> bool" where
  "dl_contains xs v \<longleftrightarrow> v \<in> set xs"

text \<open>\<open>indexOf\<close>: the first position holding the value.\<close>

fun indexOf :: "jval \<Rightarrow> jval list \<Rightarrow> nat option" where
  "indexOf v [] = None"
| "indexOf v (x # xs) = (if x = v then Some 0 else map_option Suc (indexOf v xs))"

definition dl_remove :: "durable_list \<Rightarrow> jval \<Rightarrow> list_op option" where
  "dl_remove xs v = map_option (\<lambda>i. LRemoveAt (int i)) (indexOf v xs)"

fun list_wire :: "(jval \<Rightarrow> jval) \<Rightarrow> list_op \<Rightarrow> list_op" where
  "list_wire w (LAdd v) = LAdd (slot w v)"
| "list_wire w (LSet i v) = LSet i (slot w v)"
| "list_wire w (LRemoveAt i) = LRemoveAt i"
| "list_wire w (LInsert i v) = LInsert i (slot w v)"
| "list_wire w LClear = LClear"
| "list_wire w (LLoad items) = LLoad (map (slot w) items)"

definition list_ops :: "(jval \<Rightarrow> jval) \<Rightarrow> (durable_list, list_op) machine_ops" where
  "list_ops w = \<lparr> mo_reset = dl_reset, mo_apply = dl_apply, mo_snapshot = dl_snapshot, mo_wire = list_wire w \<rparr>"

lemma list_all_take_drop: "list_all P xs \<Longrightarrow> list_all P (take n xs) \<and> list_all P (drop n xs)"
  by (auto simp: list_all_iff dest: in_set_takeD in_set_dropD)

lemma list_all_assign: "list_all (carried w) xs \<Longrightarrow> carried w v \<Longrightarrow> list_all (carried w) (js_assign xs i v)"
  by (auto simp: js_assign_def list_all_iff dest!: set_update_subset_insert [THEN subsetD])

interpretation durable_list: durable_machine "list_ops w" "list_all (carried w)" for w
proof (unfold_locales, goal_cases)
  case (2 m p)
  then show ?case by (cases p) (simp_all add: list_ops_def list_all_assign list_all_take_drop map_carried)
next
  case (5 m p)
  then show ?case by (simp add: list_ops_def dl_reset_def)
qed (simp_all add: list_ops_def dl_reset_def dl_snapshot_def map_carried)

section \<open>Queue\<close>

datatype queue_op = QEnq jval | QDeq | QClear | QLoad "jval list"

type_synonym durable_queue = "jval list"

fun dq_apply :: "durable_queue \<Rightarrow> queue_op \<Rightarrow> durable_queue" where
  "dq_apply xs (QEnq v) = xs @ [v]"
| "dq_apply xs QDeq = tl xs"
| "dq_apply xs QClear = []"
| "dq_apply xs (QLoad items) = items"

definition dq_reset :: "durable_queue \<Rightarrow> durable_queue" where
  "dq_reset xs = []"

definition dq_snapshot :: "durable_queue \<Rightarrow> queue_op" where
  "dq_snapshot xs = QLoad xs"

definition dq_peek :: "durable_queue \<Rightarrow> jval" where
  "dq_peek xs = (case xs of [] \<Rightarrow> JUndefined | x # _ \<Rightarrow> x)"

definition dq_peekOrThrow :: "durable_queue \<Rightarrow> string + jval" where
  "dq_peekOrThrow xs = (case xs of [] \<Rightarrow> Inl ''Queue is empty.'' | x # _ \<Rightarrow> Inr x)"

definition dq_enqueue :: "durable_queue \<Rightarrow> jval \<Rightarrow> queue_op option" where
  "dq_enqueue xs v = Some (QEnq v)"

text \<open>The operation journalled and the value returned.\<close>

definition dq_dequeue :: "durable_queue \<Rightarrow> queue_op option \<times> jval" where
  "dq_dequeue xs = (case xs of [] \<Rightarrow> (None, JUndefined) | x # _ \<Rightarrow> (Some QDeq, x))"

definition dq_dequeueOrThrow :: "durable_queue \<Rightarrow> string + (queue_op option \<times> jval)" where
  "dq_dequeueOrThrow xs = (if length xs = 0 then Inl ''Queue is empty.'' else Inr (dq_dequeue xs))"

fun queue_wire :: "(jval \<Rightarrow> jval) \<Rightarrow> queue_op \<Rightarrow> queue_op" where
  "queue_wire w (QEnq v) = QEnq (slot w v)"
| "queue_wire w QDeq = QDeq"
| "queue_wire w QClear = QClear"
| "queue_wire w (QLoad items) = QLoad (map (slot w) items)"

definition queue_ops :: "(jval \<Rightarrow> jval) \<Rightarrow> (durable_queue, queue_op) machine_ops" where
  "queue_ops w = \<lparr> mo_reset = dq_reset, mo_apply = dq_apply, mo_snapshot = dq_snapshot, mo_wire = queue_wire w \<rparr>"

interpretation durable_queue: durable_machine "queue_ops w" "list_all (carried w)" for w
proof (unfold_locales, goal_cases)
  case (2 m p)
  then show ?case by (cases p; cases m) (simp_all add: queue_ops_def map_carried)
qed (simp_all add: queue_ops_def dq_reset_def dq_snapshot_def map_carried)

section \<open>Set\<close>

text \<open>Key order of \<open>Array.prototype.sort\<close> on strings, and property order of a JavaScript object: array indices
  in ascending order, then the other keys in insertion order.\<close>

definition key_le :: "string \<Rightarrow> string \<Rightarrow> bool" where
  "key_le a b \<longleftrightarrow> a \<le> b"

definition is_array_index :: "string \<Rightarrow> bool" where
  "is_array_index s \<longleftrightarrow> s \<noteq> [] \<and> list_all is_digit s \<and> (s = ''0'' \<or> hd s \<noteq> CHR ''0'') \<and> read_nat s < 4294967295"

definition own_order :: "(string \<times> 'a) list \<Rightarrow> (string \<times> 'a) list" where
  "own_order fs = js_sort (\<lambda>a b. read_nat (fst a) \<le> read_nat (fst b)) (filter (\<lambda>f. is_array_index (fst f)) fs)
     @ filter (\<lambda>f. \<not> is_array_index (fst f)) fs"

primrec canonicalize :: "jval \<Rightarrow> jval" where
  "canonicalize JUndefined = JUndefined"
| "canonicalize JNull = JNull"
| "canonicalize (JBool b) = JBool b"
| "canonicalize (JNum n) = JNum n"
| "canonicalize (JStr s) = JStr s"
| "canonicalize (JArr xs) = JArr (map canonicalize xs)"
| "canonicalize (JObj fs) =
     (let cs = map (map_prod id canonicalize) fs in
      JObj (map (\<lambda>k. (k, the (map_of cs k))) (js_sort key_le (map fst cs))))"

definition hex_digit :: "nat \<Rightarrow> char" where
  "hex_digit d = (if d < 10 then char_of (48 + d) else char_of (87 + d))"

definition escape_char :: "char \<Rightarrow> string" where
  "escape_char c = (let n = of_char c :: nat in
     if n = 34 then [char_of (92 :: nat), c]
     else if n = 92 then [char_of (92 :: nat), c]
     else if n = 8 then [char_of (92 :: nat), CHR ''b'']
     else if n = 12 then [char_of (92 :: nat), CHR ''f'']
     else if n = 10 then [char_of (92 :: nat), CHR ''n'']
     else if n = 13 then [char_of (92 :: nat), CHR ''r'']
     else if n = 9 then [char_of (92 :: nat), CHR ''t'']
     else if n < 32 then char_of (92 :: nat) # ''u00'' @ [hex_digit (n div 16), hex_digit (n mod 16)]
     else [c])"

definition json_string :: "string \<Rightarrow> string" where
  "json_string s = [char_of (34 :: nat)] @ concat (map escape_char s) @ [char_of (34 :: nat)]"

fun join_comma :: "string list \<Rightarrow> string" where
  "join_comma [] = []"
| "join_comma [x] = x"
| "join_comma (x # y # ys) = x @ '','' @ join_comma (y # ys)"

text \<open>\<open>JSON.stringify\<close>; \<open>None\<close> is its \<open>undefined\<close>, dropped in objects and printed as null in arrays.\<close>

primrec jsonStringify :: "jval \<Rightarrow> string option" where
  "jsonStringify JUndefined = None"
| "jsonStringify JNull = Some ''null''"
| "jsonStringify (JBool b) = Some (if b then ''true'' else ''false'')"
| "jsonStringify (JNum n) = Some (show_int n)"
| "jsonStringify (JStr s) = Some (json_string s)"
| "jsonStringify (JArr xs) =
     Some (''['' @ join_comma (map (\<lambda>r. case r of Some t \<Rightarrow> t | None \<Rightarrow> ''null'') (map jsonStringify xs)) @ '']'')"
| "jsonStringify (JObj fs) =
     Some (''{'' @ join_comma (concat (map (\<lambda>(k, r). case r of Some t \<Rightarrow> [json_string k @ '':'' @ t] | None \<Rightarrow> [])
        (own_order (map (map_prod id jsonStringify) fs)))) @ ''}'')"

definition structuralKey :: "jval \<Rightarrow> string" where
  "structuralKey v = (case v of
      JNull \<Rightarrow> ''null:null''
    | JUndefined \<Rightarrow> ''undefined:undefined''
    | JBool b \<Rightarrow> ''boolean:'' @ (if b then ''true'' else ''false'')
    | JNum n \<Rightarrow> ''number:'' @ show_int n
    | JStr s \<Rightarrow> ''string:'' @ s
    | _ \<Rightarrow> ''object:'' @ (case jsonStringify (canonicalize v) of Some t \<Rightarrow> t | None \<Rightarrow> ''undefined''))"

datatype set_op = SAdd jval | SDel jval | SClear | SLoad "jval list"

type_synonym durable_set = "(string, jval) js_map"

definition ds_load :: "jval list \<Rightarrow> durable_set" where
  "ds_load vs = foldl (\<lambda>m v. js_set (structuralKey v) v m) [] vs"

fun ds_apply :: "durable_set \<Rightarrow> set_op \<Rightarrow> durable_set" where
  "ds_apply m (SAdd v) = js_set (structuralKey v) v m"
| "ds_apply m (SDel v) = js_delete (structuralKey v) m"
| "ds_apply m SClear = []"
| "ds_apply m (SLoad vs) = ds_load vs"

definition ds_reset :: "durable_set \<Rightarrow> durable_set" where
  "ds_reset m = []"

definition ds_snapshot :: "durable_set \<Rightarrow> set_op" where
  "ds_snapshot m = SLoad (js_values m)"

definition ds_has :: "durable_set \<Rightarrow> jval \<Rightarrow> bool" where
  "ds_has m v \<longleftrightarrow> js_has m (structuralKey v)"

definition ds_add :: "durable_set \<Rightarrow> jval \<Rightarrow> set_op option" where
  "ds_add m v = (if js_has m (structuralKey v) then None else Some (SAdd v))"

definition ds_delete :: "durable_set \<Rightarrow> jval \<Rightarrow> set_op option" where
  "ds_delete m v = (if \<not> js_has m (structuralKey v) then None else Some (SDel v))"

fun set_wire :: "(jval \<Rightarrow> jval) \<Rightarrow> set_op \<Rightarrow> set_op" where
  "set_wire w (SAdd v) = SAdd (slot w v)"
| "set_wire w (SDel v) = SDel (slot w v)"
| "set_wire w SClear = SClear"
| "set_wire w (SLoad vs) = SLoad (map (slot w) vs)"

definition set_ops :: "(jval \<Rightarrow> jval) \<Rightarrow> (durable_set, set_op) machine_ops" where
  "set_ops w = \<lparr> mo_reset = ds_reset, mo_apply = ds_apply, mo_snapshot = ds_snapshot, mo_wire = set_wire w \<rparr>"

definition ds_ok :: "(jval \<Rightarrow> jval) \<Rightarrow> durable_set \<Rightarrow> bool" where
  "ds_ok w m \<longleftrightarrow> js_wf m \<and> list_all (\<lambda>(k, v). k = structuralKey v \<and> carried w v) m"

lemma ds_load_fold: "ds_load vs = foldl (\<lambda>m (k, v). js_set k v m) [] (map (\<lambda>v. (structuralKey v, v)) vs)"
  by (simp add: ds_load_def foldl_map)

lemma ds_ok_set: "ds_ok w m \<Longrightarrow> carried w v \<Longrightarrow> ds_ok w (js_set (structuralKey v) v m)"
  by (auto simp: ds_ok_def list_all_iff js_set_mem)

lemma ds_load_ok:
  assumes "list_all (carried w) vs"
  shows "ds_ok w (ds_load vs)"
proof -
  have "ds_ok w m \<Longrightarrow> ds_ok w (foldl (\<lambda>m v. js_set (structuralKey v) v m) m vs)" for m
    using assms by (induction vs arbitrary: m) (auto simp: ds_ok_set)
  from this [of "[]"] show ?thesis by (simp add: ds_load_def ds_ok_def)
qed

lemma ds_load_id: "ds_ok w m \<Longrightarrow> ds_load (js_values m) = m"
proof -
  assume ok: "ds_ok w m"
  then have "map (\<lambda>v. (structuralKey v, v)) (js_values m) = m"
    unfolding ds_ok_def by (induction m) (auto simp: js_wf_def)
  with ok show ?thesis using dd_load_append [of "[]" m] by (simp add: ds_load_fold ds_ok_def comp_def)
qed

interpretation durable_set: durable_machine "set_ops w" "ds_ok w" for w
proof (unfold_locales, goal_cases)
  case (1 m)
  then show ?case by (simp add: set_ops_def ds_reset_def ds_ok_def)
next
  case (2 m p)
  then show ?case
    by (cases p) (auto simp: set_ops_def ds_ok_set ds_load_ok map_carried,
        auto simp: ds_ok_def list_all_iff js_delete_mem)
next
  case (4 m)
  then show ?case by (auto simp: set_ops_def ds_snapshot_def map_carried ds_ok_def list_all_iff)
next
  case (5 m p)
  then show ?case by (cases p) (simp_all add: set_ops_def ds_reset_def)
qed (simp_all add: set_ops_def ds_reset_def ds_snapshot_def ds_load_id)

section \<open>A grain's structures\<close>

text \<open>A grain registers any mix of structures under their names. A name keeps its kind, so a payload always
  belongs to the structure it is applied to; the other combinations are left unchanged.\<close>

datatype durable =
  DurValue durable_value | DurDict durable_dict | DurList durable_list | DurQueue durable_queue | DurSet durable_set

datatype durable_op = OpV value_op | OpD dict_op | OpL list_op | OpQ queue_op | OpS set_op

fun dur_reset :: "durable \<Rightarrow> durable" where
  "dur_reset (DurValue s) = DurValue (dv_reset s)"
| "dur_reset (DurDict s) = DurDict (dd_reset s)"
| "dur_reset (DurList s) = DurList (dl_reset s)"
| "dur_reset (DurQueue s) = DurQueue (dq_reset s)"
| "dur_reset (DurSet s) = DurSet (ds_reset s)"

fun dur_apply :: "durable \<Rightarrow> durable_op \<Rightarrow> durable" where
  "dur_apply (DurValue s) (OpV p) = DurValue (dv_apply s p)"
| "dur_apply (DurDict s) (OpD p) = DurDict (dd_apply s p)"
| "dur_apply (DurList s) (OpL p) = DurList (dl_apply s p)"
| "dur_apply (DurQueue s) (OpQ p) = DurQueue (dq_apply s p)"
| "dur_apply (DurSet s) (OpS p) = DurSet (ds_apply s p)"
| "dur_apply m p = m"

fun dur_snapshot :: "durable \<Rightarrow> durable_op" where
  "dur_snapshot (DurValue s) = OpV (dv_snapshot s)"
| "dur_snapshot (DurDict s) = OpD (dd_snapshot s)"
| "dur_snapshot (DurList s) = OpL (dl_snapshot s)"
| "dur_snapshot (DurQueue s) = OpQ (dq_snapshot s)"
| "dur_snapshot (DurSet s) = OpS (ds_snapshot s)"

fun dur_ok :: "(jval \<Rightarrow> jval) \<Rightarrow> durable \<Rightarrow> bool" where
  "dur_ok w (DurValue s) = dv_ok w s"
| "dur_ok w (DurDict s) = dd_ok w s"
| "dur_ok w (DurList s) = list_all (carried w) s"
| "dur_ok w (DurQueue s) = list_all (carried w) s"
| "dur_ok w (DurSet s) = ds_ok w s"

fun dur_wire :: "(jval \<Rightarrow> jval) \<Rightarrow> durable_op \<Rightarrow> durable_op" where
  "dur_wire w (OpV p) = OpV (value_wire w p)"
| "dur_wire w (OpD p) = OpD (dict_wire w p)"
| "dur_wire w (OpL p) = OpL (list_wire w p)"
| "dur_wire w (OpQ p) = OpQ (queue_wire w p)"
| "dur_wire w (OpS p) = OpS (set_wire w p)"

definition durable_ops :: "(jval \<Rightarrow> jval) \<Rightarrow> (durable, durable_op) machine_ops" where
  "durable_ops w = \<lparr> mo_reset = dur_reset, mo_apply = dur_apply, mo_snapshot = dur_snapshot, mo_wire = dur_wire w \<rparr>"

lemmas five_structures =
  durable_value.reset_ok durable_value.apply_ok durable_value.snapshot_law durable_value.snapshot_stable durable_value.reset_apply
  durable_dict.reset_ok durable_dict.apply_ok durable_dict.snapshot_law durable_dict.snapshot_stable durable_dict.reset_apply
  durable_list.reset_ok durable_list.apply_ok durable_list.snapshot_law durable_list.snapshot_stable durable_list.reset_apply
  durable_queue.reset_ok durable_queue.apply_ok durable_queue.snapshot_law durable_queue.snapshot_stable durable_queue.reset_apply
  durable_set.reset_ok durable_set.apply_ok durable_set.snapshot_law durable_set.snapshot_stable durable_set.reset_apply

lemmas five_ops = value_ops_def dict_ops_def list_ops_def queue_ops_def set_ops_def

lemmas five_laws = five_structures [unfolded five_ops machine_ops.simps]

interpretation grain_structures: durable_machine "durable_ops w" "dur_ok w" for w
proof (unfold_locales, goal_cases)
  case (1 m)
  then show ?case by (cases m) (simp_all add: durable_ops_def five_laws)
next
  case (2 m p)
  then show ?case by (cases m; cases p) (simp_all add: durable_ops_def five_laws)
next
  case (3 m)
  then show ?case by (cases m) (auto simp: durable_ops_def intro: five_laws)
next
  case (4 m)
  then show ?case by (cases m) (auto simp: durable_ops_def intro: five_laws)
next
  case (5 m p)
  then show ?case by (cases m; cases p) (simp_all add: durable_ops_def five_laws)
next
  case (6 m)
  then show ?case
    by (cases m) (simp_all add: durable_ops_def dv_reset_def dd_reset_def dl_reset_def dq_reset_def ds_reset_def)
qed

end
