(* ===== verification/Journaled_Grain.thy ===== *)
theory Journaled_Grain
  imports Durable_Structures
begin

text \<open>
  Several activations of one grain over one journal: the step relation \<open>incarnations\<close> interleaves activations
  (replay), appends, compactions and clears of any number of managers that share the log, as competing silos do
  after a partition. The payloads written are those the codec \<open>w\<close> carries unchanged. A clear resets the version of
  the journal, so the managers of before it are kept apart: they go on calling, and may be accepted. Shown: from a
  manager that was activated since the last clear, or cleared the journal itself, a write is accepted only if its
  memory is what the log replays to; unregistered structures survive a compaction within the grace period. Two runs
  show where the code departs from its comments: the grace period of a structure does not start over, and
  \<open>clear\<close> lets a stale manager write again.
\<close>

type_synonym grain_log = "durable_op log_envelope journal_storage"
type_synonym grain_manager = "(durable, durable_op) machine_manager"

text \<open>A manager about to replay: its structures are registered, nothing is loaded.\<close>

definition registered :: "(jval \<Rightarrow> jval) \<Rightarrow> string \<Rightarrow> grain_id \<Rightarrow> grain_manager \<Rightarrow> bool" where
  "registered w ln g mgr \<longleftrightarrow> mm_logName mgr = ln \<and> mm_grainId mgr = g \<and> js_wf (mm_machines mgr)
     \<and> list_all (\<lambda>(n, m). dur_ok w m) (mm_machines mgr)"

text \<open>The log, the managers activated since the last clear (the one that cleared it included), and the managers of
  before.\<close>

inductive incarnations ::
  "(jval \<Rightarrow> jval) \<Rightarrow> string \<Rightarrow> grain_id \<Rightarrow> grain_log \<times> grain_manager list \<times> grain_manager list \<Rightarrow> bool"
  for w :: "jval \<Rightarrow> jval" and ln :: string and g :: grain_id where
  start: "js_read s ln g = \<lparr> sg_entries = [], sg_version = None \<rparr> \<Longrightarrow> incarnations w ln g (s, [], [])"
| activate: "incarnations w ln g (s, ms, old) \<Longrightarrow> registered w ln g mgr \<Longrightarrow>
    incarnations w ln g (s, ms @ [mm_replay (durable_ops w) s mgr], old)"
| append: "incarnations w ln g (s, ms, old) \<Longrightarrow> i < length ms \<Longrightarrow> list_all (stable (durable_ops w)) ps \<Longrightarrow>
    mm_appendRange (durable_ops w) (s, ms ! i) n ps = Inr (s', mgr) \<Longrightarrow> incarnations w ln g (s', ms[i := mgr], old)"
| compact: "incarnations w ln g (s, ms, old) \<Longrightarrow> i < length ms \<Longrightarrow> mm_compact (durable_ops w) (s, ms ! i) = Inr (s', mgr)
    \<Longrightarrow> incarnations w ln g (s', ms[i := mgr], old)"
| clear: "incarnations w ln g (s, ms, old) \<Longrightarrow> i < length ms \<Longrightarrow> mm_clear (durable_ops w) (s, ms ! i) = (s', mgr)
    \<Longrightarrow> incarnations w ln g (s', [mgr], take i ms @ drop (Suc i) ms @ old)"
| old_append: "incarnations w ln g (s, ms, old) \<Longrightarrow> i < length old \<Longrightarrow> list_all (stable (durable_ops w)) ps \<Longrightarrow>
    mm_appendRange (durable_ops w) (s, old ! i) n ps = Inr (s', mgr) \<Longrightarrow> incarnations w ln g (s', ms, old[i := mgr])"
| old_compact: "incarnations w ln g (s, ms, old) \<Longrightarrow> i < length old \<Longrightarrow> mm_compact (durable_ops w) (s, old ! i) = Inr (s', mgr)
    \<Longrightarrow> incarnations w ln g (s', ms, old[i := mgr])"
| old_clear: "incarnations w ln g (s, ms, old) \<Longrightarrow> i < length old \<Longrightarrow> mm_clear (durable_ops w) (s, old ! i) = (s', mgr)
    \<Longrightarrow> incarnations w ln g (s', [mgr], ms @ take i old @ drop (Suc i) old)"

lemma durable_ops_sel [simp]:
  "mo_reset (durable_ops w) = dur_reset" "mo_apply (durable_ops w) = dur_apply" "mo_snapshot (durable_ops w) = dur_snapshot"
  "mo_wire (durable_ops w) = dur_wire w"
  by (simp_all add: durable_ops_def)

section \<open>Versions and stale managers\<close>

fun older :: "nat option \<Rightarrow> nat option \<Rightarrow> bool" where
  "older _ None = False"
| "older None (Some v) = True"
| "older (Some u) (Some v) = (u < v)"

lemma older_trans: "older a b \<Longrightarrow> older b c \<Longrightarrow> older a c"
  by (cases a; cases b; cases c) auto

lemma older_irrefl: "\<not> older a a"
  by (cases a) auto

lemma js_append_version:
  "js_append s n g es ev = Inr (s', v) \<Longrightarrow> ev = sg_version (js_read s n g) \<and> older (sg_version (js_read s n g)) (Some v)"
  by (auto simp: js_append_def js_read_def checkVersion_def Let_def split: option.splits if_splits)

lemma js_replace_version:
  "js_replace s n g es ev = Inr (s', v) \<Longrightarrow> ev = sg_version (js_read s n g) \<and> older (sg_version (js_read s n g)) (Some v)"
  by (auto simp: js_replace_def js_read_def checkVersion_def Let_def split: option.splits if_splits)

lemma ops_no_vessel: "list_all (\<lambda>e. \<not> is_vessel e) (filter P (map (OpFrame n) ps))"
  by (auto simp: list_all_iff)

lemma list_all_tl: "list_all P xs \<Longrightarrow> list_all P (tl xs)"
  by (cases xs) auto

lemma vessels_first_append_ops: "vessels_first k es \<Longrightarrow> vessels_first k (es @ map (OpFrame n) ps)"
  using ops_no_vessel [of "\<lambda>e. env_m e = k" n ps] list_all_tl [OF ops_no_vessel [of "\<lambda>e. env_m e = k" n ps]]
  by (cases "filter (\<lambda>e. env_m e = k) es") (simp_all add: vessels_first_def del: filter_map)

lemma filter_single: "distinct (map f xs) \<Longrightarrow> length (filter (\<lambda>x. f x = k) xs) \<le> 1"
  by (induction xs) (auto simp: filter_empty_conv image_iff)

lemma compactFrames_vessels_first:
  assumes "grain_structures.sound w mgr"
  shows "vessels_first k (compactFrames (durable_ops w) mgr)"
proof -
  have wf: "js_wf (mm_machines mgr)" "js_wf (mm_retiring mgr)"
    and dis: "\<And>n. js_get (mm_retiring mgr) n \<noteq> None \<Longrightarrow> js_get (mm_machines mgr) n = None"
    using assms by (auto simp: grain_structures.sound_def)
  have "fst ` set (nextRetiring mgr) \<inter> fst ` set (mm_machines mgr) = {}"
  proof -
    have "js_get (nextRetiring mgr) n = None" if "js_get (mm_machines mgr) n \<noteq> None" for n
      using dis [of n] that by (auto simp: nextRetiring_get [OF wf(2)] split: option.splits)
    then show ?thesis by (force simp: map_of_eq_None_iff)
  qed
  then have "distinct (map env_m (compactFrames (durable_ops w) mgr))"
    using wf nextRetiring_wf [OF wf(2)] by (auto simp: compactFrames_def js_wf_def comp_def case_prod_beta)
  from filter_single [OF this, of k] show ?thesis
    by (cases "filter (\<lambda>e. env_m e = k) (compactFrames (durable_ops w) mgr)") (simp_all add: vessels_first_def)
qed

section \<open>What a manager's write does\<close>

text \<open>A log as managers write it, and a manager of this log.\<close>

definition log_ok :: "(jval \<Rightarrow> jval) \<Rightarrow> durable_op log_envelope list \<Rightarrow> bool" where
  "log_ok w es \<longleftrightarrow> stable_frames (durable_ops w) es \<and> (\<forall>k. vessels_first k es)"

definition manager_ok :: "(jval \<Rightarrow> jval) \<Rightarrow> string \<Rightarrow> grain_id \<Rightarrow> grain_manager \<Rightarrow> bool" where
  "manager_ok w ln g mgr \<longleftrightarrow> mm_logName mgr = ln \<and> mm_grainId mgr = g \<and> grain_structures.sound w mgr"

text \<open>An accepted write, of whichever manager, raises the version and leaves a log as managers write it.\<close>

lemma compact_any:
  assumes "mm_compact (durable_ops w) (s, mgr) = Inr (s', mgr')" "manager_ok w ln g mgr"
  shows "manager_ok w ln g mgr' \<and> log_ok w (sg_entries (js_read s' ln g))
    \<and> older (sg_version (js_read s ln g)) (sg_version (js_read s' ln g)) \<and> mm_version mgr = sg_version (js_read s ln g)"
proof -
  have n: "mm_logName mgr = ln" "mm_grainId mgr = g" and so: "grain_structures.sound w mgr"
    using assms(2) by (simp_all add: manager_ok_def)
  obtain v where r: "js_replace s ln g (compactFrames (durable_ops w) mgr) (mm_version mgr) = Inr (s', v)"
    and m': "mgr' = mgr\<lparr> mm_version := Some v, mm_liveEntryCount := length (compactFrames (durable_ops w) mgr),
       mm_retiring := nextRetiring mgr \<rparr>"
    by (rule mm_compact_shape [OF assms(1)]) (simp add: n)
  show ?thesis
    using js_replace_version [OF r] js_replace_read [OF r] grain_structures.compactFrames_plain(2) [OF so]
      compactFrames_vessels_first [OF so] grain_structures.sound_compacted [OF so] n
    by (simp add: manager_ok_def log_ok_def m')
qed

lemma append_any:
  assumes "mm_appendRange (durable_ops w) (s, mgr) n ps = Inr (s', mgr')" "ps \<noteq> []" "list_all (stable (durable_ops w)) ps"
    and "manager_ok w ln g mgr" "log_ok w (sg_entries (js_read s ln g))"
  shows "manager_ok w ln g mgr' \<and> log_ok w (sg_entries (js_read s' ln g))
    \<and> older (sg_version (js_read s ln g)) (sg_version (js_read s' ln g)) \<and> mm_version mgr = sg_version (js_read s ln g)
    \<and> (\<exists>m. js_get (mm_machines mgr) n = Some m \<and> mm_machines mgr' = js_set n (foldl dur_apply m ps) (mm_machines mgr))"
proof -
  have nm: "mm_logName mgr = ln" "mm_grainId mgr = g" and so: "grain_structures.sound w mgr"
    using assms(4) by (simp_all add: manager_ok_def)
  obtain m s1 v mgr1 where sh: "js_get (mm_machines mgr) n = Some m"
    "js_append s ln g (map (OpFrame n) ps) (mm_version mgr) = Inr (s1, v)"
    "mgr1 = mgr\<lparr> mm_version := Some v, mm_machines := js_set n (foldl dur_apply m ps) (mm_machines mgr),
           mm_liveEntryCount := mm_liveEntryCount mgr + length ps \<rparr>"
    "s' = s1 \<and> mgr' = mgr1 \<or> mm_compact (durable_ops w) (s1, mgr1) = Inr (s', mgr')"
    by (rule grain_structures.appendRange_shape [OF assms(1-3)]) (simp add: nm)
  note ver = js_append_version [OF sh(2)] and rd = js_append_read [OF sh(2)]
  have ok1: "manager_ok w ln g mgr1"
    using grain_structures.sound_write [OF so sh(1) assms(3)] nm by (simp add: manager_ok_def sh(3))
  have log1: "log_ok w (sg_entries (js_read s1 ln g))"
    using assms(3,5) by (simp add: log_ok_def rd vessels_first_append_ops)
  have mach: "mm_machines mgr' = js_set n (foldl dur_apply m ps) (mm_machines mgr)"
    using sh(3,4) by (auto elim!: mm_compact_shape)
  show ?thesis
  proof (cases "s' = s1 \<and> mgr' = mgr1")
    case True
    then show ?thesis using ok1 log1 ver rd sh(1) mach by simp
  next
    case False
    then have "mm_compact (durable_ops w) (s1, mgr1) = Inr (s', mgr')" using sh(4) by blast
    note C = compact_any [OF this ok1]
    have "older (sg_version (js_read s ln g)) (sg_version (js_read s' ln g))" using C ver rd older_trans by auto
    with C ver sh(1) mach show ?thesis by auto
  qed
qed

text \<open>A manager since the last clear mirrors the log or is behind it.\<close>

definition fenced :: "(jval \<Rightarrow> jval) \<Rightarrow> string \<Rightarrow> grain_id \<Rightarrow> grain_log \<Rightarrow> grain_manager \<Rightarrow> bool" where
  "fenced w ln g s mgr \<longleftrightarrow> manager_ok w ln g mgr
     \<and> (grain_structures.live w (s, mgr) \<or> older (mm_version mgr) (sg_version (js_read s ln g)))"

lemma fenced_current:
  "fenced w ln g s mgr \<Longrightarrow> mm_version mgr = sg_version (js_read s ln g) \<Longrightarrow> grain_structures.live w (s, mgr)"
  using older_irrefl by (auto simp: fenced_def)

lemma fenced_older:
  assumes "fenced w ln g s mgr" "older (sg_version (js_read s ln g)) (sg_version (js_read s' ln g))"
  shows "fenced w ln g s' mgr"
proof -
  have "mm_version mgr = sg_version (js_read s ln g) \<or> older (mm_version mgr) (sg_version (js_read s ln g))"
    using assms(1) by (auto simp: fenced_def manager_ok_def grain_structures.live_def Let_def)
  then show ?thesis using assms older_trans by (auto simp: fenced_def)
qed

lemma fenced_compact:
  assumes "fenced w ln g s mgr" "mm_compact (durable_ops w) (s, mgr) = Inr (s', mgr')"
  shows "grain_structures.live w (s, mgr) \<and> fenced w ln g s' mgr'"
proof -
  have ok: "manager_ok w ln g mgr" using assms(1) by (simp add: fenced_def)
  note C = compact_any [OF assms(2) ok]
  then have L: "grain_structures.live w (s, mgr)" using fenced_current [OF assms(1)] by simp
  with grain_structures.compact_live [OF L assms(2)] C show ?thesis by (simp add: fenced_def)
qed

lemma fenced_append:
  assumes "fenced w ln g s mgr" "mm_appendRange (durable_ops w) (s, mgr) n ps = Inr (s', mgr')" "ps \<noteq> []"
    "list_all (stable (durable_ops w)) ps" "log_ok w (sg_entries (js_read s ln g))"
  shows "grain_structures.live w (s, mgr) \<and> grain_structures.live w (s', mgr') \<and> fenced w ln g s' mgr'"
proof -
  have ok: "manager_ok w ln g mgr" using assms(1) by (simp add: fenced_def)
  note A = append_any [OF assms(2-4) ok assms(5)]
  then have L: "grain_structures.live w (s, mgr)" using fenced_current [OF assms(1)] by simp
  with grain_structures.appendRange_live [OF L assms(2,4)] A show ?thesis by (simp add: fenced_def)
qed

text \<open>The invariant of the interleaving.\<close>

definition journal_inv :: "(jval \<Rightarrow> jval) \<Rightarrow> string \<Rightarrow> grain_id \<Rightarrow> grain_log \<Rightarrow> grain_manager list \<Rightarrow> grain_manager list \<Rightarrow> bool" where
  "journal_inv w ln g s ms old \<longleftrightarrow> list_all (fenced w ln g s) ms \<and> list_all (manager_ok w ln g) old
     \<and> log_ok w (sg_entries (js_read s ln g))"

lemma list_all_update: "list_all P xs \<Longrightarrow> P x \<Longrightarrow> list_all P (xs[i := x])"
  by (auto simp: list_all_iff dest!: set_update_subset_insert [THEN subsetD])

lemma inv_write:
  assumes "journal_inv w ln g s ms old" "older (sg_version (js_read s ln g)) (sg_version (js_read s' ln g))"
    "log_ok w (sg_entries (js_read s' ln g))"
  shows "fenced w ln g s' mgr \<Longrightarrow> journal_inv w ln g s' (ms[i := mgr]) old"
    "manager_ok w ln g mgr \<Longrightarrow> journal_inv w ln g s' ms (old[i := mgr])"
proof -
  have "list_all (fenced w ln g s') ms"
    using assms(1,2) fenced_older by (auto simp: journal_inv_def list_all_iff)
  then show "fenced w ln g s' mgr \<Longrightarrow> journal_inv w ln g s' (ms[i := mgr]) old"
    "manager_ok w ln g mgr \<Longrightarrow> journal_inv w ln g s' ms (old[i := mgr])"
    using assms(1,3) by (simp_all add: journal_inv_def list_all_update)
qed

lemma inv_clear:
  assumes "manager_ok w ln g mgr" "mm_clear (durable_ops w) (s, mgr) = (s', mgr')" "list_all (manager_ok w ln g) old"
  shows "journal_inv w ln g s' [mgr'] old"
proof -
  have so: "grain_structures.sound w mgr" and n: "mm_logName mgr = ln" "mm_grainId mgr = g"
    using assms(1) by (simp_all add: manager_ok_def)
  have eq: "s' = js_clear s ln g" "mm_logName mgr' = ln" "mm_grainId mgr' = g"
    using assms(2) n by (auto simp: mm_clear_def)
  have "grain_structures.live w (s', mgr')" "grain_structures.sound w mgr'"
    using grain_structures.clear_fresh [OF so, of s] grain_structures.sound_cleared [OF so, of s] assms(2) by simp_all
  then show ?thesis
    using assms(3) eq by (simp add: journal_inv_def fenced_def manager_ok_def log_ok_def js_clear_read vessels_first_def)
qed

lemma replay_manager:
  assumes "registered w ln g mgr" "log_ok w (sg_entries (js_read s ln g))"
  shows "fenced w ln g s (mm_replay (durable_ops w) s mgr)"
proof -
  have n: "mm_logName mgr = ln" "mm_grainId mgr = g" using assms(1) by (simp_all add: registered_def)
  have L: "grain_structures.live w (s, mm_replay (durable_ops w) s mgr)"
    by (rule grain_structures.replay_live)
       (use assms n in \<open>auto simp: registered_def list_all_iff log_ok_def dest: js_get_memD\<close>)
  moreover have "mm_logName (mm_replay (durable_ops w) s mgr) = ln" "mm_grainId (mm_replay (durable_ops w) s mgr) = g"
    using n replay_fold [where ops = "durable_ops w"] by (simp_all add: mm_replay_def Let_def)
  ultimately show ?thesis using grain_structures.live_sound [OF L] by (simp add: fenced_def manager_ok_def)
qed

lemma append_nothing: "mm_appendRange ops (s, mgr) n [] = Inr (s', mgr') \<Longrightarrow> s' = s \<and> mgr' = mgr"
  by (auto simp: mm_appendRange_def Let_def split: option.splits)

lemma inv_append:
  assumes "journal_inv w ln g s ms old" "i < length ms" "list_all (stable (durable_ops w)) ps"
    "mm_appendRange (durable_ops w) (s, ms ! i) n ps = Inr (s', mgr)"
  shows "journal_inv w ln g s' (ms[i := mgr]) old"
proof (cases "ps = []")
  case True
  with assms show ?thesis using append_nothing by fastforce
next
  case False
  have F: "fenced w ln g s (ms ! i)" and L: "log_ok w (sg_entries (js_read s ln g))"
    using assms(1,2) by (simp_all add: journal_inv_def list_all_length)
  then have ok: "manager_ok w ln g (ms ! i)" by (simp add: fenced_def)
  show ?thesis
    using inv_write(1) [OF assms(1)] append_any [OF assms(4) False assms(3) ok L] fenced_append [OF F assms(4) False assms(3) L]
    by blast
qed

lemma inv_old_append:
  assumes "journal_inv w ln g s ms old" "i < length old" "list_all (stable (durable_ops w)) ps"
    "mm_appendRange (durable_ops w) (s, old ! i) n ps = Inr (s', mgr)"
  shows "journal_inv w ln g s' ms (old[i := mgr])"
proof (cases "ps = []")
  case True
  with assms show ?thesis using append_nothing by fastforce
next
  case False
  have ok: "manager_ok w ln g (old ! i)" and L: "log_ok w (sg_entries (js_read s ln g))"
    using assms(1,2) by (simp_all add: journal_inv_def list_all_length)
  show ?thesis using inv_write(2) [OF assms(1)] append_any [OF assms(4) False assms(3) ok L] by blast
qed

lemma incarnations_inv: "incarnations w ln g (s, ms, old) \<Longrightarrow> journal_inv w ln g s ms old"
proof (induction "(s, ms, old)" arbitrary: s ms old rule: incarnations.induct)
  case (start s)
  then show ?case by (simp add: journal_inv_def log_ok_def vessels_first_def)
next
  case (activate s ms old mgr)
  then show ?case using replay_manager [of w ln g mgr s] by (simp add: journal_inv_def)
next
  case (append s ms old i ps n s' mgr)
  show ?case by (rule inv_append [OF append.hyps(2-5)])
next
  case (compact s ms old i s' mgr)
  have F: "fenced w ln g s (ms ! i)" using compact.hyps(2,3) by (simp add: journal_inv_def list_all_length)
  then have ok: "manager_ok w ln g (ms ! i)" by (simp add: fenced_def)
  show ?case
    using inv_write(1) [OF compact.hyps(2)] compact_any [OF compact.hyps(4) ok] fenced_compact [OF F compact.hyps(4)] by blast
next
  case (clear s ms old i s' mgr)
  have ok: "list_all (manager_ok w ln g) ms" "list_all (manager_ok w ln g) old"
    using clear.hyps(2) by (auto simp: journal_inv_def fenced_def list_all_iff)
  then show ?case
    using clear.hyps(3) by (intro inv_clear [OF _ clear.hyps(4)]) (auto simp: list_all_iff dest: in_set_takeD in_set_dropD)
next
  case (old_append s ms old i ps n s' mgr)
  show ?case by (rule inv_old_append [OF old_append.hyps(2-5)])
next
  case (old_compact s ms old i s' mgr)
  have ok: "manager_ok w ln g (old ! i)" using old_compact.hyps(2,3) by (simp add: journal_inv_def list_all_length)
  show ?case using inv_write(2) [OF old_compact.hyps(2)] compact_any [OF old_compact.hyps(4) ok] by blast
next
  case (old_clear s ms old i s' mgr)
  have ok: "list_all (manager_ok w ln g) ms" "list_all (manager_ok w ln g) old"
    using old_clear.hyps(2) by (auto simp: journal_inv_def fenced_def list_all_iff)
  then show ?case
    using old_clear.hyps(3)
    by (intro inv_clear [OF _ old_clear.hyps(4)]) (auto simp: list_all_iff dest: in_set_takeD in_set_dropD)
qed

lemma incarnation_fenced: "incarnations w ln g (s, ms, old) \<Longrightarrow> mgr \<in> set ms \<Longrightarrow> fenced w ln g s mgr"
  using incarnations_inv [of w ln g s ms old] by (simp add: journal_inv_def list_all_iff)

lemma incarnation_log: "incarnations w ln g (s, ms, old) \<Longrightarrow> log_ok w (sg_entries (js_read s ln g))"
  using incarnations_inv [of w ln g s ms old] by (simp add: journal_inv_def)

section \<open>Properties\<close>

text \<open>The registration of a manager in its initial state, as a new activation makes it.\<close>

definition fresh_copy :: "grain_manager \<Rightarrow> grain_manager" where
  "fresh_copy mgr = (newManager (mm_logName mgr) (mm_grainId mgr) (Some (mm_snapshotThreshold mgr)) (Some (mm_retirementGrace mgr)))
     \<lparr> mm_machines := map (\<lambda>(n, m). (n, dur_reset m)) (mm_machines mgr) \<rparr>"

lemma replay_fresh_copy:
  assumes "grain_structures.live w (s, mgr)"
  shows "mm_machines (mm_replay (durable_ops w) s (fresh_copy mgr)) = mm_machines mgr
    \<and> mm_version (mm_replay (durable_ops w) s (fresh_copy mgr)) = mm_version mgr
    \<and> js_get (mm_retiring (mm_replay (durable_ops w) s (fresh_copy mgr))) n = js_get (mm_retiring mgr) n"
  using grain_structures.reactivation_exact [OF assms, of "fresh_copy mgr"]
  by (simp add: Let_def fresh_copy_def newManager_def)

text \<open>C6: Fencing of the journal. Activations of a grain, their writes of payloads that the codec carries unchanged,
  compactions and clears interleave anyhow over one journal, those of stale managers included. When a write is
  accepted from a manager that was activated since the journal was last cleared, or cleared it itself, that manager's
  structures were exactly what the log held, its payloads are applied in order, and a new activation replaying the
  log (compacted or not) rebuilds exactly the writer's structures, version and retired data. A manager from before
  the last clear is outside the claim: clearing resets the version, and it can be accepted again
  (\<open>clear_unfences_stale_manager\<close> below).\<close>

theorem journal_fenced:
  assumes "incarnations w ln g (s, ms, old)" "mgr \<in> set ms" "ps \<noteq> []" "list_all (stable (durable_ops w)) ps"
    and "mm_appendRange (durable_ops w) (s, mgr) n ps = Inr (s', mgr')"
  shows "mm_machines (mm_replay (durable_ops w) s (fresh_copy mgr)) = mm_machines mgr
    \<and> (\<exists>m. js_get (mm_machines mgr) n = Some m \<and> mm_machines mgr' = js_set n (foldl dur_apply m ps) (mm_machines mgr))
    \<and> mm_machines (mm_replay (durable_ops w) s' (fresh_copy mgr')) = mm_machines mgr'
    \<and> mm_version (mm_replay (durable_ops w) s' (fresh_copy mgr')) = mm_version mgr'
    \<and> (\<forall>k. js_get (mm_retiring (mm_replay (durable_ops w) s' (fresh_copy mgr'))) k = js_get (mm_retiring mgr') k)"
proof -
  have F: "fenced w ln g s mgr" and L: "log_ok w (sg_entries (js_read s ln g))"
    using incarnation_fenced [OF assms(1,2)] incarnation_log [OF assms(1)] by simp_all
  then have ok: "manager_ok w ln g mgr" by (simp add: fenced_def)
  note live = fenced_append [OF F assms(5,3,4) L]
  show ?thesis
    using append_any [OF assms(5,3,4) ok L] replay_fresh_copy [OF conjunct1 [OF live]]
      replay_fresh_copy [OF conjunct1 [OF conjunct2 [OF live]]] by simp
qed

text \<open>A codec for the concrete runs: object properties that are undefined or whose key reaches a prototype do not
  come back, everything else does.\<close>

primrec plain_codec :: "jval \<Rightarrow> jval" where
  "plain_codec JUndefined = JUndefined"
| "plain_codec JNull = JNull"
| "plain_codec (JBool b) = JBool b"
| "plain_codec (JNum n) = JNum n"
| "plain_codec (JStr x) = JStr x"
| "plain_codec (JArr xs) = JArr (map plain_codec xs)"
| "plain_codec (JObj fs) = JObj (filter (\<lambda>(k, v). v \<noteq> JUndefined \<and> k \<notin> {''__proto__'', ''constructor'', ''prototype''})
     (map (map_prod id plain_codec) fs))"

text \<open>A run for the concrete claims: activations of one grain that register the given list structures.\<close>

definition cartGrain :: grain_id where
  "cartGrain = GrainId ''Cart'' (KString ''c1'')"

definition activate_lists :: "grain_log \<Rightarrow> string list \<Rightarrow> grain_log \<times> grain_manager" where
  "activate_lists s names = (s, mm_replay (durable_ops plain_codec) s
     ((newManager ''log'' cartGrain None None)\<lparr> mm_machines := map (\<lambda>n. (n, DurList [])) names \<rparr>))"

lemma activate_lists_step:
  assumes "incarnations plain_codec ''log'' cartGrain (s, ms, old)" "distinct names"
  shows "incarnations plain_codec ''log'' cartGrain (s, ms @ [snd (activate_lists s names)], old)"
  unfolding activate_lists_def snd_conv
  by (rule incarnations.activate [OF assms(1)])
     (simp add: registered_def newManager_def js_wf_def comp_def assms(2) list_all_iff)

lemma incarnations_empty: "incarnations plain_codec ''log'' cartGrain ([], [], [])"
  by (rule incarnations.start) (simp add: js_read_def)

text \<open>A concrete use: two activations, the first of which appends twice.\<close>

definition first_write :: "grain_log \<times> grain_manager" where
  "first_write = projr (mm_append (durable_ops plain_codec) (activate_lists [] [''a'']) ''a'' (OpL (LAdd (JNum 1))))"

lemma first_write_ok: "mm_appendRange (durable_ops plain_codec) ([], snd (activate_lists [] [''a''])) ''a'' [OpL (LAdd (JNum 1))] = Inr first_write"
  by (simp add: first_write_def mm_append_def) code_simp

lemma first_write_reachable: "incarnations plain_codec ''log'' cartGrain (fst first_write, [snd first_write], [])"
proof -
  have "incarnations plain_codec ''log'' cartGrain ([], [] @ [snd (activate_lists [] [''a''])], [])"
    by (rule activate_lists_step [OF incarnations_empty]) simp
  from incarnations.append [OF this, of 0 "[OpL (LAdd (JNum 1))]" "''a''" "fst first_write" "snd first_write"] first_write_ok
  show ?thesis by (simp add: slot_def)
qed

text \<open>The journal is cleared by a second activation and the first manager is left over from before.\<close>

definition cleared :: "grain_log \<times> grain_manager" where
  "cleared = mm_clear (durable_ops plain_codec) (activate_lists (fst first_write) [''a''])"

lemma cleared_reachable: "incarnations plain_codec ''log'' cartGrain (fst cleared, [snd cleared], [snd first_write])"
proof -
  have "incarnations plain_codec ''log'' cartGrain
      (fst first_write, [snd first_write] @ [snd (activate_lists (fst first_write) [''a''])], [])"
    by (rule activate_lists_step [OF first_write_reachable]) simp
  from incarnations.clear [OF this, of 1 "fst cleared" "snd cleared"] show ?thesis
    by (simp add: cleared_def activate_lists_def)
qed

definition second_write :: "grain_log \<times> grain_manager" where
  "second_write = projr (mm_append (durable_ops plain_codec) cleared ''a'' (OpL (LInsert 0 (JStr ''x''))))"

theorem journal_fenced_witness:
  "mm_machines (mm_replay (durable_ops plain_codec) (fst second_write) (fresh_copy (snd second_write))) = mm_machines (snd second_write)
   \<and> mm_machines (snd second_write) = [(''a'', DurList [JStr ''x''])]"
proof -
  have w: "mm_appendRange (durable_ops plain_codec) (fst cleared, snd cleared) ''a'' [OpL (LInsert 0 (JStr ''x''))] =
      Inr (fst second_write, snd second_write)" by code_simp
  have "list_all (stable (durable_ops plain_codec)) [OpL (LInsert 0 (JStr ''x''))]" by (simp add: slot_def)
  note F = journal_fenced [OF cleared_reachable _ _ this w]
  have "mm_machines (mm_replay (durable_ops plain_codec) (fst second_write) (fresh_copy (snd second_write))) = mm_machines (snd second_write)"
    using F by simp
  moreover have "mm_machines (snd second_write) = [(''a'', DurList [JStr ''x''])]" by code_simp
  ultimately show ?thesis by blast
qed

text \<open>The data of a structure that no activation registers is kept through a compaction within its grace
  period: an activation that registers the name afterwards holds what it would have held before.\<close>

theorem retired_structure_resurrected:
  assumes "incarnations w ln g (s, ms, old)" "mgr \<in> set ms" "js_get (mm_retiring mgr) n = Some r"
    and "rr_compactionsSinceOrphaned r + 1 < mm_retirementGrace mgr" "mm_compact (durable_ops w) (s, mgr) = Inr (s', mgr')"
    and "registered w ln g mgr0"
  shows "js_get (mm_machines (mm_replay (durable_ops w) s' mgr0)) n = js_get (mm_machines (mm_replay (durable_ops w) s mgr0)) n"
proof -
  have F: "fenced w ln g s mgr" by (rule incarnation_fenced [OF assms(1,2)])
  then have n: "mm_logName mgr = ln" "mm_grainId mgr = g" by (auto simp: fenced_def manager_ok_def)
  have L: "grain_structures.live w (s, mgr)" using fenced_compact [OF F assms(5)] by simp
  have un: "js_get (mm_machines mgr) n = None" using L assms(3) by (auto simp: grain_structures.live_def Let_def split: if_splits)
  have v: "vessels_first n (sg_entries (js_read s (mm_logName mgr) (mm_grainId mgr)))"
    using incarnation_log [OF assms(1)] n by (simp add: log_ok_def)
  have "machine_replay (durable_ops w) n (sg_entries (js_read s' ln g)) m = machine_replay (durable_ops w) n (sg_entries (js_read s ln g)) m" for m
    using grain_structures.retirement_kept [OF L un v assms(3,4,5)] n by simp
  then show ?thesis
    using assms(6) replay_fold [where ops = "durable_ops w"]
    by (cases "js_get (mm_machines mgr0) n") (simp_all add: mm_replay_def Let_def registered_def js_get_map_values)
qed

definition first_compaction :: "grain_log \<times> grain_manager" where
  "first_compaction = projr (mm_compact (durable_ops plain_codec) (activate_lists (fst first_write) [''b'']))"

theorem retired_structure_resurrected_witness:
  "js_get (mm_machines (snd (activate_lists (fst first_compaction) [''a'', ''b'']))) ''a'' = Some (DurList [JNum 1])"
proof -
  let ?m = "snd (activate_lists (fst first_write) [''b''])"
  let ?fresh = "(newManager ''log'' cartGrain None None)\<lparr> mm_machines := map (\<lambda>n. (n, DurList [])) [''a'', ''b''] \<rparr> :: grain_manager"
  have I: "incarnations plain_codec ''log'' cartGrain (fst first_write, [snd first_write] @ [?m], [])"
    by (rule activate_lists_step [OF first_write_reachable]) simp
  have c: "mm_compact (durable_ops plain_codec) (fst first_write, ?m) = Inr (fst first_compaction, snd first_compaction)" by code_simp
  have r: "js_get (mm_retiring ?m) ''a'' = Some \<lparr> rr_ops = [OpL (LAdd (JNum 1))], rr_compactionsSinceOrphaned = 0 \<rparr>" by code_simp
  have g: "mm_retirementGrace ?m = 2" by code_simp
  have reg: "registered plain_codec ''log'' cartGrain ?fresh" by (simp add: registered_def newManager_def js_wf_def)
  have "js_get (mm_machines (mm_replay (durable_ops plain_codec) (fst first_compaction) ?fresh)) ''a'' = js_get (mm_machines (mm_replay (durable_ops plain_codec) (fst first_write) ?fresh)) ''a''"
    by (rule retired_structure_resurrected [OF I _ r _ c reg]) (simp_all add: g)
  also have "\<dots> = Some (DurList [JNum 1])" by code_simp
  finally show ?thesis by (simp add: activate_lists_def)
qed

text \<open>The grace period of a structure does not start over when it comes back: after one compaction without
  it, a re-registration that resurrects it and a write to it, the first compaction of a later activation
  without it purges its data, although two compactions is the configured grace.\<close>

theorem grace_not_restarted:
  "js_get (mm_machines (snd (activate_lists (fst first_compaction) [''a'', ''b'']))) ''a'' = Some (DurList [JNum 1])
   \<and> (case mm_append (durable_ops plain_codec) (activate_lists (fst first_compaction) [''a'', ''b'']) ''a'' (OpL (LAdd (JNum 2))) of
        Inl _ \<Rightarrow> False
      | Inr (s3, mgr3) \<Rightarrow> js_get (mm_machines mgr3) ''a'' = Some (DurList [JNum 1, JNum 2])
          \<and> (case mm_compact (durable_ops plain_codec) (activate_lists s3 [''b'']) of
                Inl _ \<Rightarrow> False
              | Inr (s4, mgr4) \<Rightarrow> js_get (mm_machines (snd (activate_lists s4 [''a'', ''b'']))) ''a'' = Some (DurList [])))"
  by code_simp

text \<open>Deleting a journal resets its version, so a manager left over from before the deletion can be current
  again by number: its write is accepted although its structures are not what the log holds.\<close>

theorem clear_unfences_stale_manager:
  "let (s2, mgr2) = mm_clear (durable_ops plain_codec) (activate_lists (fst first_write) [''a'']) in
   case mm_append (durable_ops plain_codec) (s2, mgr2) ''a'' (OpL (LAdd (JNum 2))) of Inl _ \<Rightarrow> False
   | Inr (s3, mgr3) \<Rightarrow> js_get (mm_machines mgr3) ''a'' = Some (DurList [JNum 2])
       \<and> (case mm_append (durable_ops plain_codec) (s3, snd first_write) ''a'' (OpL (LAdd (JNum 3))) of Inl _ \<Rightarrow> False
          | Inr (s4, mgr4) \<Rightarrow> js_get (mm_machines mgr4) ''a'' = Some (DurList [JNum 1, JNum 3])
              \<and> js_get (mm_machines (snd (activate_lists s4 [''a'']))) ''a'' = Some (DurList [JNum 2, JNum 3]))"
  by code_simp

end
