(* ===== verification/Log_View.thy ===== *)
theory Log_View
  imports Journaling
begin

text \<open>
  The view adaptor of an event-sourced grain over the journal
  (\<^verbatim>\<open>journaling/src/log-view-adaptor-impl.ts\<close>): confirmed and tentative views, the confirm loop with its
  group commit, and the conditional append with its retries. The adaptor is the machine registered as
  ''journal'' on the grain's manager of theory \<open>Journaling\<close>; the user's initial state and transition are the
  record \<open>view_fns\<close>, a parameter.

  The confirm loop awaits one storage append per pass. \<open>confirm_begin\<close> is the part before the await and
  \<open>confirm_end\<close> the part after it, so that submissions of interleaved turns fall between them. A storage call
  may fail with an error other than the version conflict; the write may then be lost or have landed
  (\<open>write_fault\<close>). A re-read (\<open>lv_resync\<close>), a clear and a conditional append are each one step: the theorems
  about them are for runs in which no confirm pass of another turn is in flight at the time. Reentrant grains can
  overlap them; the last section shows what then goes wrong. Events and states are values the codec carries
  unchanged.
\<close>

section \<open>The adaptor\<close>

datatype ('s, 'e) view_frame = EventFrame 'e | StateFrame 's "nat option"

record ('s, 'e) view_fns =
  vf_initial :: 's
  vf_transition :: "'s \<Rightarrow> 'e \<Rightarrow> 's"

record ('s, 'e) log_view =
  lv_confirmed :: 's
  lv_tentative :: 's
  lv_confirmedEvents :: "'e list"
  lv_version :: nat
  lv_pending :: "'e list"
  lv_unconfirmedCount :: int

definition newLogView :: "('s, 'e) view_fns \<Rightarrow> ('s, 'e) log_view" where
  "newLogView f = \<lparr> lv_confirmed = vf_initial f, lv_tentative = vf_initial f, lv_confirmedEvents = [], lv_version = 0,
     lv_pending = [], lv_unconfirmedCount = 0 \<rparr>"

definition lv_submit :: "('s, 'e) view_fns \<Rightarrow> 'e \<Rightarrow> ('s, 'e) log_view \<Rightarrow> ('s, 'e) log_view" where
  "lv_submit f event v = v\<lparr> lv_pending := lv_pending v @ [event], lv_unconfirmedCount := lv_unconfirmedCount v + 1,
     lv_tentative := vf_transition f (lv_tentative v) event \<rparr>"

definition lv_submitRange :: "('s, 'e) view_fns \<Rightarrow> 'e list \<Rightarrow> ('s, 'e) log_view \<Rightarrow> ('s, 'e) log_view" where
  "lv_submitRange f events v = foldl (\<lambda>v event. lv_submit f event v) v events"

definition lv_recompute :: "('s, 'e) view_fns \<Rightarrow> ('s, 'e) log_view \<Rightarrow> ('s, 'e) log_view" where
  "lv_recompute f v = v\<lparr> lv_tentative := foldl (vf_transition f) (lv_confirmed v) (lv_pending v) \<rparr>"

definition lv_reset :: "('s, 'e) view_fns \<Rightarrow> ('s, 'e) log_view \<Rightarrow> ('s, 'e) log_view" where
  "lv_reset f v = v\<lparr> lv_confirmed := vf_initial f, lv_confirmedEvents := [], lv_version := 0, lv_pending := [],
     lv_unconfirmedCount := 0, lv_tentative := vf_initial f \<rparr>"

fun lv_apply :: "('s, 'e) view_fns \<Rightarrow> ('s, 'e) log_view \<Rightarrow> ('s, 'e) view_frame \<Rightarrow> ('s, 'e) log_view" where
  "lv_apply f v (EventFrame e) = lv_recompute f
     (v\<lparr> lv_confirmed := vf_transition f (lv_confirmed v) e, lv_confirmedEvents := lv_confirmedEvents v @ [e],
         lv_version := lv_version v + 1 \<rparr>)"
| "lv_apply f v (StateFrame s ver) = lv_recompute f
     (v\<lparr> lv_confirmed := s, lv_confirmedEvents := [], lv_version := (case ver of Some n \<Rightarrow> n | None \<Rightarrow> 0) \<rparr>)"

definition lv_snapshot :: "('s, 'e) log_view \<Rightarrow> ('s, 'e) view_frame" where
  "lv_snapshot v = StateFrame (lv_confirmed v) (Some (lv_version v))"

definition view_ops :: "('s, 'e) view_fns \<Rightarrow> (('s, 'e) log_view, ('s, 'e) view_frame) machine_ops" where
  "view_ops f = \<lparr> mo_reset = lv_reset f, mo_apply = lv_apply f, mo_snapshot = lv_snapshot, mo_wire = (\<lambda>p. p) \<rparr>"

definition retrieveLogSegment :: "('s, 'e) log_view \<Rightarrow> int \<Rightarrow> int \<Rightarrow> string + 'e list" where
  "retrieveLogSegment v fromVersion toVersion =
     (let baseVersion = int (lv_version v) - int (length (lv_confirmedEvents v)) in
      if fromVersion < baseVersion \<or> toVersion < fromVersion \<or> int (lv_version v) < toVersion
      then Inl (''invalid range ['' @ show_int fromVersion @ '', '' @ show_int toVersion @ '']'')
      else Inr (take (nat (toVersion - fromVersion)) (drop (nat (fromVersion - baseVersion)) (lv_confirmedEvents v))))"

text \<open>\<open>lastIndexOf\<close> and \<open>splice\<close>: the last occurrence of an event leaves the queue.\<close>

definition remove_last :: "'e \<Rightarrow> 'e list \<Rightarrow> 'e list" where
  "remove_last e xs = rev (remove1 e (rev xs))"

definition lv_withdraw :: "('s, 'e) view_fns \<Rightarrow> 'e list \<Rightarrow> ('s, 'e) log_view \<Rightarrow> ('s, 'e) log_view" where
  "lv_withdraw f events v = lv_recompute f (foldl (\<lambda>v event.
     if event \<in> set (lv_pending v)
     then v\<lparr> lv_pending := remove_last event (lv_pending v), lv_unconfirmedCount := lv_unconfirmedCount v - 1 \<rparr>
     else v) v events)"

section \<open>The adaptor on its manager\<close>

abbreviation JOURNAL :: string where
  "JOURNAL \<equiv> ''journal''"

type_synonym ('s, 'e) view_world =
  "('s, 'e) view_frame log_envelope journal_storage \<times> (('s, 'e) log_view, ('s, 'e) view_frame) machine_manager"

definition view_of :: "('s, 'e) view_world \<Rightarrow> ('s, 'e) log_view" where
  "view_of w = the (js_get (mm_machines (snd w)) JOURNAL)"

definition on_view :: "(('s, 'e) log_view \<Rightarrow> ('s, 'e) log_view) \<Rightarrow> ('s, 'e) view_world \<Rightarrow> ('s, 'e) view_world" where
  "on_view g w = (fst w, (snd w)\<lparr> mm_machines := js_set JOURNAL (g (view_of w)) (mm_machines (snd w)) \<rparr>)"

datatype write_fault = NoFault | LostWrite | LandedWrite

datatype append_result = AppendOk | Conflict | WriteFailed

text \<open>The manager's append under a fault of the store: a lost write changes nothing; a landed one extends the
  log, but neither the manager's version nor the machine learns of it.\<close>

definition append_frames ::
  "('s, 'e) view_fns \<Rightarrow> write_fault \<Rightarrow> 'e list \<Rightarrow> ('s, 'e) view_world \<Rightarrow> ('s, 'e) view_world \<times> append_result" where
  "append_frames f fault batch w =
     (case fault of
        NoFault \<Rightarrow> (case mm_appendRange (view_ops f) w JOURNAL (map EventFrame batch) of
            Inl _ \<Rightarrow> (w, Conflict)
          | Inr w' \<Rightarrow> (w', AppendOk))
      | LostWrite \<Rightarrow> (w, WriteFailed)
      | LandedWrite \<Rightarrow>
          (case js_append (fst w) (mm_logName (snd w)) (mm_grainId (snd w)) (map (\<lambda>e. OpFrame JOURNAL (EventFrame e)) batch)
                  (mm_version (snd w)) of
             Inl _ \<Rightarrow> (w, Conflict)
           | Inr (s', _) \<Rightarrow> ((s', snd w), WriteFailed)))"

definition confirm_begin :: "('s, 'e) view_world \<Rightarrow> ('s, 'e) view_world \<times> 'e list" where
  "confirm_begin w = (on_view (\<lambda>v. v\<lparr> lv_pending := [] \<rparr>) w, lv_pending (view_of w))"

definition confirm_end ::
  "('s, 'e) view_fns \<Rightarrow> write_fault \<Rightarrow> 'e list \<Rightarrow> ('s, 'e) view_world \<Rightarrow> ('s, 'e) view_world \<times> append_result" where
  "confirm_end f fault batch w =
     (case append_frames f fault batch w of
        (w', AppendOk) \<Rightarrow>
          (on_view (\<lambda>v. v\<lparr> lv_unconfirmedCount := lv_unconfirmedCount v - int (length batch) \<rparr>) w', AppendOk)
      | (w', Conflict) \<Rightarrow>
          (on_view (\<lambda>v. lv_recompute f (v\<lparr> lv_unconfirmedCount := lv_unconfirmedCount v - int (length batch) \<rparr>)) w', Conflict)
      | (w', WriteFailed) \<Rightarrow> (on_view (\<lambda>v. v\<lparr> lv_pending := batch @ lv_pending v \<rparr>) w', WriteFailed))"

text \<open>The loop when no other turn runs meanwhile: one pass takes everything pending.\<close>

definition confirmSubmittedEntries ::
  "('s, 'e) view_fns \<Rightarrow> write_fault \<Rightarrow> ('s, 'e) view_world \<Rightarrow> ('s, 'e) view_world \<times> append_result" where
  "confirmSubmittedEntries f fault w =
     (if 0 < length (lv_pending (view_of w))
      then (let (w', batch) = confirm_begin w in confirm_end f fault batch w')
      else (w, AppendOk))"

definition lv_resync :: "('s, 'e) view_fns \<Rightarrow> ('s, 'e) view_world \<Rightarrow> ('s, 'e) view_world" where
  "lv_resync f w = (let pending = lv_pending (view_of w) in
     on_view (\<lambda>v. lv_recompute f (v\<lparr> lv_pending := pending, lv_unconfirmedCount := int (length pending) \<rparr>))
       (fst w, mm_replay (view_ops f) (fst w) (snd w)))"

definition MAX_APPEND_ATTEMPTS :: nat where
  "MAX_APPEND_ATTEMPTS = 5"

datatype try_result = Appended | NotAppended | Unreadable

text \<open>One list element per attempt: the fault of its write and whether the re-read after it succeeds. Attempts
  beyond the list meet a healthy store. The first argument counts the attempts left.\<close>

fun tryAppend_loop ::
  "nat \<Rightarrow> ('s, 'e) view_fns \<Rightarrow> 'e list \<Rightarrow> nat \<Rightarrow> (write_fault \<times> bool) list \<Rightarrow> ('s, 'e) view_world
     \<Rightarrow> ('s, 'e) view_world \<times> try_result" where
  "tryAppend_loop left f events landsAt faults w =
     (let (fault, readable) = (case faults of [] \<Rightarrow> (NoFault, True) | x # _ \<Rightarrow> x) in
      case confirmSubmittedEntries f fault w of
        (w1, AppendOk) \<Rightarrow> (w1, Appended)
      | (w1, Conflict) \<Rightarrow> (w1, NotAppended)
      | (w1, WriteFailed) \<Rightarrow>
          if \<not> readable then (on_view (lv_withdraw f events) w1, Unreadable)
          else (let w2 = lv_resync f w1 in
                if landsAt \<le> lv_version (view_of w2) then (on_view (lv_withdraw f events) w2, Appended)
                else (case left of
                        Suc (Suc n) \<Rightarrow> tryAppend_loop (Suc n) f events landsAt (tl faults) w2
                      | _ \<Rightarrow> (on_view (lv_withdraw f events) w2, NotAppended))))"

definition tryAppendRange ::
  "('s, 'e) view_fns \<Rightarrow> (write_fault \<times> bool) list \<Rightarrow> 'e list \<Rightarrow> ('s, 'e) view_world \<Rightarrow> ('s, 'e) view_world \<times> try_result" where
  "tryAppendRange f faults events w =
     (if length events = 0 then (w, Appended)
      else (let w1 = on_view (lv_submitRange f events) w;
                landsAt = lv_version (view_of w1) + length (lv_pending (view_of w1))
            in tryAppend_loop MAX_APPEND_ATTEMPTS f events landsAt faults w1))"

definition tryAppend where
  "tryAppend f faults event w = tryAppendRange f faults [event] w"

definition clearLog :: "('s, 'e) view_fns \<Rightarrow> ('s, 'e) view_world \<Rightarrow> ('s, 'e) view_world" where
  "clearLog f w = mm_clear (view_ops f) w"

section \<open>What a log says about the view\<close>

declare tryAppend_loop.simps [simp del]

fun frame_step :: "('s, 'e) view_fns \<Rightarrow> 's \<times> nat \<Rightarrow> ('s, 'e) view_frame \<Rightarrow> 's \<times> nat" where
  "frame_step f (s, n) (EventFrame e) = (vf_transition f s e, n + 1)"
| "frame_step f (s, n) (StateFrame s' ver) = (s', case ver of Some k \<Rightarrow> k | None \<Rightarrow> 0)"

definition log_denotes :: "('s, 'e) view_fns \<Rightarrow> ('s, 'e) view_frame log_envelope list \<Rightarrow> 's \<times> nat" where
  "log_denotes f es = foldl (frame_step f) (vf_initial f, 0) (payloads_of JOURNAL es)"

abbreviation log_of :: "('s, 'e) view_world \<Rightarrow> ('s, 'e) view_frame log_envelope journal_segment" where
  "log_of w \<equiv> js_read (fst w) (mm_logName (snd w)) (mm_grainId (snd w))"

abbreviation confirmed_part :: "('s, 'e) log_view \<Rightarrow> 's \<times> nat" where
  "confirmed_part v \<equiv> (lv_confirmed v, lv_version v)"

definition journal_only :: "('s, 'e) view_world \<Rightarrow> bool" where
  "journal_only w \<longleftrightarrow> mm_machines (snd w) = [(JOURNAL, view_of w)] \<and> js_wf (mm_retiring (snd w))
     \<and> js_get (mm_retiring (snd w)) JOURNAL = None"

definition synced :: "('s, 'e) view_fns \<Rightarrow> ('s, 'e) view_world \<Rightarrow> bool" where
  "synced f w \<longleftrightarrow> journal_only w \<and> mm_version (snd w) = sg_version (log_of w)
     \<and> log_denotes f (sg_entries (log_of w)) = confirmed_part (view_of w)"

text \<open>Everything raised but not confirmed is in the tentative view, in order: what is in flight, then the queue.\<close>

definition views_agree :: "('s, 'e) view_fns \<Rightarrow> 'e list \<Rightarrow> ('s, 'e) log_view \<Rightarrow> bool" where
  "views_agree f inflight v \<longleftrightarrow> lv_tentative v = foldl (vf_transition f) (lv_confirmed v) (inflight @ lv_pending v)
     \<and> lv_unconfirmedCount v = int (length inflight + length (lv_pending v))"

lemma view_ops_sel [simp]:
  "mo_reset (view_ops f) = lv_reset f" "mo_apply (view_ops f) = lv_apply f" "mo_snapshot (view_ops f) = lv_snapshot"
  "mo_wire (view_ops f) = (\<lambda>p. p)"
  by (simp_all add: view_ops_def)

lemma lv_recompute_sel [simp]:
  "lv_confirmed (lv_recompute f v) = lv_confirmed v" "lv_version (lv_recompute f v) = lv_version v"
  "lv_pending (lv_recompute f v) = lv_pending v" "lv_unconfirmedCount (lv_recompute f v) = lv_unconfirmedCount v"
  "lv_tentative (lv_recompute f v) = foldl (vf_transition f) (lv_confirmed v) (lv_pending v)"
  by (simp_all add: lv_recompute_def)

lemma lv_apply_sel [simp]:
  "lv_pending (lv_apply f v fr) = lv_pending v" "lv_unconfirmedCount (lv_apply f v fr) = lv_unconfirmedCount v"
  "confirmed_part (lv_apply f v fr) = frame_step f (confirmed_part v) fr"
  "lv_tentative (lv_apply f v fr) = foldl (vf_transition f) (lv_confirmed (lv_apply f v fr)) (lv_pending v)"
  by (cases fr; simp)+

lemma lv_apply_all:
  "lv_pending (foldl (lv_apply f) v frs) = lv_pending v \<and> lv_unconfirmedCount (foldl (lv_apply f) v frs) = lv_unconfirmedCount v
   \<and> confirmed_part (foldl (lv_apply f) v frs) = foldl (frame_step f) (confirmed_part v) frs
   \<and> (frs \<noteq> [] \<longrightarrow> lv_tentative (foldl (lv_apply f) v frs) =
        foldl (vf_transition f) (lv_confirmed (foldl (lv_apply f) v frs)) (lv_pending v))"
proof (induction frs rule: rev_induct)
  case (snoc fr frs)
  then show ?case using lv_apply_sel [of f "foldl (lv_apply f) v frs" fr] by simp
qed simp

lemma events_step: "foldl (frame_step f) (s, n) (map EventFrame es) = (foldl (vf_transition f) s es, n + length es)"
  by (induction es arbitrary: s n) auto

lemma lv_submitRange_sel:
  "lv_pending (lv_submitRange f es v) = lv_pending v @ es \<and> confirmed_part (lv_submitRange f es v) = confirmed_part v
   \<and> lv_tentative (lv_submitRange f es v) = foldl (vf_transition f) (lv_tentative v) es
   \<and> lv_unconfirmedCount (lv_submitRange f es v) = lv_unconfirmedCount v + int (length es)"
  unfolding lv_submitRange_def by (induction es arbitrary: v) (simp_all add: lv_submit_def)

lemma on_view_sel [simp]:
  "fst (on_view g w) = fst w" "view_of (on_view g w) = g (view_of w)"
  "mm_logName (snd (on_view g w)) = mm_logName (snd w)" "mm_grainId (snd (on_view g w)) = mm_grainId (snd w)"
  "mm_version (snd (on_view g w)) = mm_version (snd w)"
  by (simp_all add: on_view_def view_of_def js_get_set)

lemma journal_only_on_view [simp]: "journal_only w \<Longrightarrow> journal_only (on_view g w)"
proof -
  assume "journal_only w"
  moreover from this obtain v where "mm_machines (snd w) = [(JOURNAL, v)]" by (simp add: journal_only_def)
  ultimately show ?thesis by (simp add: journal_only_def on_view_def view_of_def)
qed

lemma synced_on_view: "synced f w \<Longrightarrow> confirmed_part (g (view_of w)) = confirmed_part (view_of w) \<Longrightarrow> synced f (on_view g w)"
  by (simp add: synced_def)

section \<open>The manager's calls on the view\<close>

lemma journal_append:
  assumes "journal_only w" "batch \<noteq> []" "mm_appendRange (view_ops f) w JOURNAL (map EventFrame batch) = Inr w'"
  shows "journal_only w' \<and> view_of w' = foldl (lv_apply f) (view_of w) (map EventFrame batch)"
proof -
  let ?v = "foldl (lv_apply f) (view_of w) (map EventFrame batch)"
  have m: "mm_machines (snd w) = [(JOURNAL, view_of w)]" using assms(1) by (simp add: journal_only_def)
  have nr: "js_wf (nextRetiring mgr) \<and> js_get (nextRetiring mgr) JOURNAL = None"
    if "mm_retiring mgr = mm_retiring (snd w)" for mgr :: "(('a, 'b) log_view, ('a, 'b) view_frame) machine_manager"
    using assms(1) that nextRetiring_get [of mgr JOURNAL] nextRetiring_wf [of mgr] by (simp add: journal_only_def)
  have "mm_machines (snd w') = [(JOURNAL, ?v)] \<and> js_wf (mm_retiring (snd w')) \<and> js_get (mm_retiring (snd w')) JOURNAL = None"
    using assms m nr by (auto simp: mm_appendRange_def Let_def mm_compact_def journal_only_def split: sum.splits if_splits)
  then show ?thesis by (simp add: journal_only_def view_of_def)
qed

lemma compact_denotes:
  assumes "mm_machines mgr = [(JOURNAL, v)]" "js_wf (mm_retiring mgr)" "js_get (mm_retiring mgr) JOURNAL = None"
  shows "log_denotes f (compactFrames (view_ops f) mgr) = confirmed_part v"
proof -
  have "js_get (nextRetiring mgr) JOURNAL = None" using nextRetiring_get [OF assms(2)] assms(3) by simp
  then have "filter (\<lambda>e. env_m e = JOURNAL) (map (\<lambda>(n, r). VesselFrame n (rr_compactionsSinceOrphaned r) (rr_ops r)) (nextRetiring mgr)) = []"
    by (auto simp: filter_empty_conv map_of_eq_None_iff image_iff)
  then show ?thesis by (simp add: log_denotes_def payloads_of_def compactFrames_def assms(1) lv_snapshot_def)
qed

lemma log_denotes_append:
  fixes f :: "('s, 'e) view_fns"
  shows "log_denotes f (es @ map (\<lambda>e. OpFrame JOURNAL (EventFrame e)) batch) =
     (let (s, n) = log_denotes f es in (foldl (vf_transition f) s batch, n + length batch))"
proof -
  have "payloads_of JOURNAL (map (\<lambda>e. OpFrame JOURNAL (EventFrame e)) batch) = (map EventFrame batch :: ('s, 'e) view_frame list)"
    by (induction batch) (simp_all add: payloads_of_def)
  moreover have "payloads_of JOURNAL (a @ b) = payloads_of JOURNAL a @ payloads_of JOURNAL b" for a b :: "('s, 'e) view_frame log_envelope list"
    by (simp add: payloads_of_def)
  ultimately show ?thesis by (cases "log_denotes f es") (simp add: log_denotes_def events_step)
qed

lemma landed_synced:
  assumes "synced f w" "js_append (fst w) (mm_logName (snd w)) (mm_grainId (snd w))
      (map (\<lambda>e. OpFrame JOURNAL (EventFrame e)) batch) (mm_version (snd w)) = Inr (s', v)"
  shows "log_denotes f (sg_entries (log_of (s', snd w))) =
      (foldl (vf_transition f) (lv_confirmed (view_of w)) batch, lv_version (view_of w) + length batch)"
  using assms(1) js_append_read [OF assms(2)] by (simp add: synced_def log_denotes_append)

lemma append_synced:
  assumes "synced f w" "batch \<noteq> []"
  obtains w' where "mm_appendRange (view_ops f) w JOURNAL (map EventFrame batch) = Inr w'" "synced f w'"
    "view_of w' = foldl (lv_apply f) (view_of w) (map EventFrame batch)"
proof -
  let ?frames = "map (\<lambda>e. OpFrame JOURNAL (EventFrame e)) batch"
  obtain s mgr where w: "w = (s, mgr)" by (cases w)
  have jo: "journal_only w" and m: "mm_machines mgr = [(JOURNAL, view_of w)]"
    and r: "js_wf (mm_retiring mgr)" "js_get (mm_retiring mgr) JOURNAL = None"
    using assms(1) w by (auto simp: synced_def journal_only_def)
  obtain s1 v where a: "js_append s (mm_logName mgr) (mm_grainId mgr) ?frames (mm_version mgr) = Inr (s1, v)"
    using js_append_ok_iff [of s "mm_logName mgr" "mm_grainId mgr" ?frames "mm_version mgr"] assms(1) w by (auto simp: synced_def)
  define v' where "v' = foldl (lv_apply f) (view_of w) (map EventFrame batch)"
  define mgr1 where "mgr1 = mgr\<lparr> mm_version := Some v, mm_machines := [(JOURNAL, v')], mm_liveEntryCount := mm_liveEntryCount mgr + length batch \<rparr>"
  have cp: "confirmed_part v' = (foldl (vf_transition f) (lv_confirmed (view_of w)) batch, lv_version (view_of w) + length batch)"
    using lv_apply_all [of f "view_of w" "map EventFrame batch"] by (simp add: v'_def events_step)
  have S1: "synced f (s1, mgr1)"
    using js_append_read [OF a] landed_synced [OF assms(1), of batch s1 v] a w cp r
    by (simp add: synced_def journal_only_def mgr1_def view_of_def)
  have range: "mm_appendRange (view_ops f) w JOURNAL (map EventFrame batch) =
     (if max (mm_snapshotThreshold mgr1) (length (mm_machines mgr1) + 1) \<le> mm_liveEntryCount mgr1
      then (case mm_compact (view_ops f) (s1, mgr1) of Inl _ \<Rightarrow> Inr (s1, mgr1) | Inr w' \<Rightarrow> Inr w') else Inr (s1, mgr1))"
    using a m assms(2) unfolding mgr1_def v'_def by (simp add: w mm_appendRange_def Let_def comp_def cong: if_cong sum.case_cong)
  have compacted: "synced f (s2, mgr2)" if c: "mm_compact (view_ops f) (s1, mgr1) = Inr (s2, mgr2)" for s2 mgr2
  proof -
    obtain u where rep: "js_replace s1 (mm_logName mgr) (mm_grainId mgr) (compactFrames (view_ops f) mgr1) (Some v) = Inr (s2, u)"
      and mgr2: "mgr2 = mgr1\<lparr> mm_version := Some u, mm_liveEntryCount := length (compactFrames (view_ops f) mgr1), mm_retiring := nextRetiring mgr1 \<rparr>"
      by (rule mm_compact_shape [OF c]) (simp add: mgr1_def)
    have "js_wf (nextRetiring mgr1)" "js_get (nextRetiring mgr1) JOURNAL = None"
      using nextRetiring_wf [of mgr1] nextRetiring_get [of mgr1 JOURNAL] r by (simp_all add: mgr1_def)
    moreover have "log_denotes f (compactFrames (view_ops f) mgr1) = confirmed_part v'"
      by (rule compact_denotes) (simp_all add: mgr1_def r)
    ultimately show ?thesis using js_replace_read [OF rep] by (simp add: synced_def journal_only_def mgr2 mgr1_def view_of_def)
  qed
  obtain w' where w': "mm_appendRange (view_ops f) w JOURNAL (map EventFrame batch) = Inr w'" "synced f w'"
    using range S1 compacted
    by (cases "mm_compact (view_ops f) (s1, mgr1)") (fastforce split: if_splits)+
  show thesis by (rule that [OF w']) (use journal_append [OF jo assms(2) w'(1)] in simp)
qed

lemma replay_view:
  assumes "mm_machines mgr = [(JOURNAL, v)]"
  shows "synced f (s, mm_replay (view_ops f) s mgr) \<and> lv_pending (view_of (s, mm_replay (view_ops f) s mgr)) = []
    \<and> mm_logName (mm_replay (view_ops f) s mgr) = mm_logName mgr \<and> mm_grainId (mm_replay (view_ops f) s mgr) = mm_grainId mgr
    \<and> views_agree f [] (view_of (s, mm_replay (view_ops f) s mgr))"
proof -
  let ?seg = "js_read s (mm_logName mgr) (mm_grainId mgr)"
  let ?m1 = "mgr\<lparr> mm_version := sg_version ?seg, mm_liveEntryCount := length (sg_entries ?seg), mm_retiring := [],
     mm_machines := [(JOURNAL, lv_reset f v)] \<rparr>"
  let ?v = "foldl (lv_apply f) (lv_reset f v) (payloads_of JOURNAL (sg_entries ?seg))"
  have rep: "mm_replay (view_ops f) s mgr = foldl (replay_entry (view_ops f)) ?m1 (sg_entries ?seg)"
    by (simp add: mm_replay_def Let_def assms)
  note F = replay_fold [of "view_ops f" ?m1 "sg_entries ?seg" JOURNAL, folded rep]
  have get: "js_get (mm_machines (mm_replay (view_ops f) s mgr)) JOURNAL = Some ?v"
    using F by (simp add: machine_replay_payloads)
  have keys: "map fst (mm_machines (mm_replay (view_ops f) s mgr)) = [JOURNAL]" using F by simp
  then obtain x where "mm_machines (mm_replay (view_ops f) s mgr) = [(JOURNAL, x)]" by (auto simp: map_eq_Cons_conv)
  with get have ms: "mm_machines (mm_replay (view_ops f) s mgr) = [(JOURNAL, ?v)]" by simp
  have c: "confirmed_part ?v = log_denotes f (sg_entries ?seg)" "lv_pending ?v = []" "lv_unconfirmedCount ?v = 0"
    using lv_apply_all [of f "lv_reset f v" "payloads_of JOURNAL (sg_entries ?seg)"] by (simp_all add: lv_reset_def log_denotes_def)
  have t: "lv_tentative ?v = lv_confirmed ?v"
    using lv_apply_all [of f "lv_reset f v" "payloads_of JOURNAL (sg_entries ?seg)"]
    by (cases "payloads_of JOURNAL (sg_entries ?seg) = []") (simp_all add: lv_reset_def)
  show ?thesis
    using F ms c t by (simp add: synced_def journal_only_def view_of_def views_agree_def)
qed

section \<open>Interleaved submissions\<close>

text \<open>Runs of one activation: events are raised while a batch may be in flight; the second component is the
  batch of the running confirm pass.\<close>

inductive view_run :: "('s, 'e) view_fns \<Rightarrow> ('s, 'e) view_world \<times> 'e list option \<Rightarrow> bool"
  for f :: "('s, 'e) view_fns" where
  activated: "mm_machines mgr = [(JOURNAL, newLogView f)] \<Longrightarrow> view_run f ((s, mm_replay (view_ops f) s mgr), None)"
| raised: "view_run f (w, b) \<Longrightarrow> view_run f (on_view (lv_submit f e) w, b)"
| pass_begins: "view_run f (w, None) \<Longrightarrow> 0 < length (lv_pending (view_of w)) \<Longrightarrow> confirm_begin w = (w', batch)
    \<Longrightarrow> view_run f (w', Some batch)"
| pass_ends: "view_run f (w, Some batch) \<Longrightarrow> confirm_end f fault batch w = (w', r) \<Longrightarrow> view_run f (w', None)"
| re_read: "view_run f (w, None) \<Longrightarrow> view_run f (lv_resync f w, None)"
| withdrawn: "view_run f (w, None) \<Longrightarrow> view_run f (on_view (lv_withdraw f es) w, None)"
| cleared: "view_run f (w, None) \<Longrightarrow> view_run f (clearLog f w, None)"

lemma withdraw_sel:
  "views_agree f [] v \<Longrightarrow> views_agree f [] (lv_withdraw f es v)"
  "confirmed_part (lv_withdraw f es v) = confirmed_part v"
proof -
  let ?step = "\<lambda>v event. if event \<in> set (lv_pending v)
     then v\<lparr> lv_pending := remove_last event (lv_pending v), lv_unconfirmedCount := lv_unconfirmedCount v - 1 \<rparr> else v"
  have len: "e \<in> set xs \<Longrightarrow> int (length (remove_last e xs)) = int (length xs) - 1" for e :: 'b and xs
    by (cases xs) (auto simp: remove_last_def length_remove1)
  have "confirmed_part (foldl ?step v es) = confirmed_part v
    \<and> (lv_unconfirmedCount v = int (length (lv_pending v)) \<longrightarrow> lv_unconfirmedCount (foldl ?step v es) = int (length (lv_pending (foldl ?step v es))))"
    by (induction es arbitrary: v) (auto simp: len)
  then show "views_agree f [] v \<Longrightarrow> views_agree f [] (lv_withdraw f es v)" "confirmed_part (lv_withdraw f es v) = confirmed_part v"
    by (simp_all add: lv_withdraw_def views_agree_def)
qed

lemma append_frames_view:
  assumes "journal_only w" "batch \<noteq> []" "append_frames f fault batch w = (w', r)"
  shows "journal_only w'" "r = AppendOk \<Longrightarrow> view_of w' = foldl (lv_apply f) (view_of w) (map EventFrame batch)"
    "r \<noteq> AppendOk \<Longrightarrow> view_of w' = view_of w"
proof -
  have "journal_only w' \<and> (if r = AppendOk then view_of w' = foldl (lv_apply f) (view_of w) (map EventFrame batch) else view_of w' = view_of w)"
  proof (cases fault)
    case NoFault
    then show ?thesis using assms journal_append [OF assms(1,2)] by (auto simp: append_frames_def split: sum.splits)
  next
    case LostWrite
    then show ?thesis using assms by (auto simp: append_frames_def)
  next
    case LandedWrite
    then show ?thesis using assms by (auto simp: append_frames_def journal_only_def view_of_def split: sum.splits)
  qed
  then show "journal_only w'" "r = AppendOk \<Longrightarrow> view_of w' = foldl (lv_apply f) (view_of w) (map EventFrame batch)"
    "r \<noteq> AppendOk \<Longrightarrow> view_of w' = view_of w" by (auto split: if_splits)
qed

lemma confirm_end_agree:
  assumes "journal_only w" "batch \<noteq> []" "views_agree f batch (view_of w)" "confirm_end f fault batch w = (w', r)"
  shows "journal_only w' \<and> views_agree f [] (view_of w')"
proof -
  obtain w1 r1 where a: "append_frames f fault batch w = (w1, r1)" by (cases "append_frames f fault batch w")
  note A = append_frames_view [OF assms(1,2) a]
  show ?thesis
    using assms(3,4) a A lv_apply_all [of f "view_of w" "map EventFrame batch"] assms(2)
    by (cases r1) (auto simp: confirm_end_def views_agree_def)
qed

lemma view_run_inv:
  "view_run f wb \<Longrightarrow> journal_only (fst wb) \<and> (snd wb = Some b \<longrightarrow> b \<noteq> [])
     \<and> views_agree f (case snd wb of None \<Rightarrow> [] | Some b \<Rightarrow> b) (view_of (fst wb))"
proof (induction arbitrary: b rule: view_run.induct)
  case (activated mgr s)
  then show ?case using replay_view [of mgr "newLogView f" f s] by (simp add: synced_def)
next
  case (raised w b' e)
  then show ?case by (cases b') (auto simp: views_agree_def lv_submit_def)
next
  case (pass_begins w w' batch)
  then show ?case by (auto simp: confirm_begin_def views_agree_def)
next
  case (pass_ends w batch fault w' r)
  then have "batch \<noteq> []" by simp
  with pass_ends confirm_end_agree [of w batch f fault w' r] show ?case by simp
next
  case (re_read w)
  then have m: "mm_machines (snd w) = [(JOURNAL, view_of w)]" by (simp add: journal_only_def)
  then show ?case using replay_view [OF m, of f "fst w"] by (simp add: lv_resync_def Let_def views_agree_def synced_def)
next
  case (withdrawn w es)
  then show ?case by (simp add: withdraw_sel(1))
next
  case (cleared w)
  then obtain v where "mm_machines (snd w) = [(JOURNAL, v)]" by (simp add: journal_only_def)
  then show ?case by (simp add: clearLog_def mm_clear_def journal_only_def view_of_def views_agree_def lv_reset_def)
qed

text \<open>C11: Tentative view. In a run of one activation in which events are raised at any time, also while a confirm pass
  awaits its append, passes succeed, fail or conflict, and the re-reads, withdrawals and clears happen while no
  confirm pass is in flight, the tentative view is at every moment the confirmed view with every unconfirmed event
  applied in order, what is in flight first, and the pending count is their number. A re-read, a withdrawal or a
  clear that overlaps a pass of another turn is outside the claim (\<open>overlapping_reread_miscounts\<close> below).\<close>

theorem tentative_view_exact:
  assumes "view_run f (w, b)"
  shows "lv_tentative (view_of w) =
      foldl (vf_transition f) (lv_confirmed (view_of w)) ((case b of None \<Rightarrow> [] | Some batch \<Rightarrow> batch) @ lv_pending (view_of w))
    \<and> lv_unconfirmedCount (view_of w) = int (length (case b of None \<Rightarrow> [] | Some batch \<Rightarrow> batch) + length (lv_pending (view_of w)))"
  using view_run_inv [OF assms] by (simp add: views_agree_def)

section \<open>Conditional append\<close>

lemma mset_remove_last: "mset (remove_last e xs) = mset xs - {#e#}"
  by (simp add: remove_last_def)

lemma withdraw_all: "lv_pending v = es \<Longrightarrow> lv_pending (lv_withdraw f es v) = []"
proof -
  let ?step = "\<lambda>v event. if event \<in> set (lv_pending v)
     then v\<lparr> lv_pending := remove_last event (lv_pending v), lv_unconfirmedCount := lv_unconfirmedCount v - 1 \<rparr> else v"
  have "lv_pending (foldl ?step v es) = []" if "mset (lv_pending v) = mset es" for es
    using that
  proof (induction es arbitrary: v)
    case (Cons e es)
    then have "e \<in> set (lv_pending v)" by (metis list.set_intros(1) mset_eq_setD)
    moreover have "mset (remove_last e (lv_pending v)) = mset es" using Cons.prems by (simp add: mset_remove_last)
    ultimately show ?case using Cons.IH by simp
  qed simp
  then show "lv_pending v = es \<Longrightarrow> lv_pending (lv_withdraw f es v) = []" by (simp add: lv_withdraw_def)
qed

text \<open>The three outcomes of a confirm pass over a queue of exactly the given events.\<close>

lemma confirm_ok:
  assumes "synced f w" "lv_pending (view_of w) = events" "events \<noteq> []"
  obtains w' where "confirmSubmittedEntries f NoFault w = (w', AppendOk)" "synced f w'" "lv_pending (view_of w') = []"
    "confirmed_part (view_of w') = (foldl (vf_transition f) (lv_confirmed (view_of w)) events, lv_version (view_of w) + length events)"
proof -
  let ?w = "on_view (\<lambda>v. v\<lparr> lv_pending := [] \<rparr>) w"
  have S: "synced f ?w" by (rule synced_on_view [OF assms(1)]) simp
  obtain w1 where w1: "mm_appendRange (view_ops f) ?w JOURNAL (map EventFrame events) = Inr w1" "synced f w1"
    "view_of w1 = foldl (lv_apply f) (view_of ?w) (map EventFrame events)"
    by (rule append_synced [OF S assms(3)])
  let ?w' = "on_view (\<lambda>v. v\<lparr> lv_unconfirmedCount := lv_unconfirmedCount v - int (length events) \<rparr>) w1"
  have e: "confirmSubmittedEntries f NoFault w = (?w', AppendOk)"
    using assms(2,3) w1(1) by (simp add: confirmSubmittedEntries_def confirm_begin_def confirm_end_def append_frames_def)
  show thesis
    by (rule that [OF e]) (use synced_on_view [OF w1(2)] lv_apply_all [of f "view_of ?w" "map EventFrame events"] w1(3) in \<open>simp_all add: events_step\<close>)
qed

lemma resync_view:
  assumes "journal_only w" "log_denotes f (sg_entries (log_of w)) = c"
  shows "synced f (lv_resync f w) \<and> lv_pending (view_of (lv_resync f w)) = lv_pending (view_of w) \<and> confirmed_part (view_of (lv_resync f w)) = c"
proof -
  have m: "mm_machines (snd w) = [(JOURNAL, view_of w)]" using assms(1) by (simp add: journal_only_def)
  note R = replay_view [OF m, of f "fst w"]
  let ?w = "(fst w, mm_replay (view_ops f) (fst w) (snd w))"
  have l: "log_of ?w = log_of w" using R by simp
  have "confirmed_part (view_of ?w) = c" using R assms(2) unfolding synced_def l by simp
  then show ?thesis using R synced_on_view [of f ?w] by (simp add: lv_resync_def Let_def)
qed

lemma confirm_lost:
  assumes "synced f w" "lv_pending (view_of w) = events" "events \<noteq> []"
  obtains w' where "confirmSubmittedEntries f LostWrite w = (w', WriteFailed)" "synced f w'" "lv_pending (view_of w') = events"
    "confirmed_part (view_of w') = confirmed_part (view_of w)"
proof -
  let ?w = "on_view (\<lambda>v. v\<lparr> lv_pending := events @ lv_pending v \<rparr>) (on_view (\<lambda>v. v\<lparr> lv_pending := [] \<rparr>) w)"
  have e: "confirmSubmittedEntries f LostWrite w = (?w, WriteFailed)"
    using assms(2,3) by (simp add: confirmSubmittedEntries_def confirm_begin_def confirm_end_def append_frames_def)
  show thesis
    by (rule that [OF e]) (use synced_on_view [OF synced_on_view [OF assms(1)]] in simp_all)
qed

lemma confirm_landed:
  assumes "synced f w" "lv_pending (view_of w) = events" "events \<noteq> []"
  obtains w' where "confirmSubmittedEntries f LandedWrite w = (w', WriteFailed)" "journal_only w'" "lv_pending (view_of w') = events"
    "log_denotes f (sg_entries (log_of w')) = (foldl (vf_transition f) (lv_confirmed (view_of w)) events, lv_version (view_of w) + length events)"
proof -
  let ?w = "on_view (\<lambda>v. v\<lparr> lv_pending := [] \<rparr>) w" and ?fr = "map (\<lambda>e. OpFrame JOURNAL (EventFrame e)) events"
  have S: "synced f ?w" by (rule synced_on_view [OF assms(1)]) simp
  then have J: "journal_only ?w" by (simp add: synced_def)
  obtain s' v where a: "js_append (fst ?w) (mm_logName (snd ?w)) (mm_grainId (snd ?w)) ?fr (mm_version (snd ?w)) = Inr (s', v)"
    using js_append_ok_iff [of "fst ?w" "mm_logName (snd ?w)" "mm_grainId (snd ?w)" ?fr "mm_version (snd ?w)"] S by (auto simp: synced_def)
  let ?w' = "on_view (\<lambda>v. v\<lparr> lv_pending := events @ lv_pending v \<rparr>) (s', snd ?w)"
  have J': "journal_only (s', snd ?w)" and v': "view_of (s', snd ?w) = view_of ?w" using J by (simp_all add: journal_only_def view_of_def)
  have e: "confirmSubmittedEntries f LandedWrite w = (?w', WriteFailed)"
    using assms(2,3) a by (simp add: confirmSubmittedEntries_def confirm_begin_def confirm_end_def append_frames_def)
  show thesis
    by (rule that [OF e]) (use J' v' landed_synced [OF S a] in simp_all)
qed

definition append_outcome where
  "append_outcome f c0 n0 events r w \<longleftrightarrow> lv_pending (view_of w) = []
     \<and> (r = Appended \<longrightarrow> synced f w \<and> confirmed_part (view_of w) = (foldl (vf_transition f) c0 events, n0 + length events))
     \<and> (r = NotAppended \<longrightarrow> synced f w \<and> confirmed_part (view_of w) = (c0, n0))"

text \<open>One unrolling of the loop.\<close>

lemma tryAppend_loop_step:
  assumes "synced f w" "lv_pending (view_of w) = events" "events \<noteq> []" "confirmed_part (view_of w) = (c0, n0)"
    and "tryAppend_loop left f events (n0 + length events) faults w = (w', r)"
  obtains "append_outcome f c0 n0 events r w'"
  | w2 n where "left = Suc (Suc n)" "synced f w2" "lv_pending (view_of w2) = events" "confirmed_part (view_of w2) = (c0, n0)"
      "tryAppend_loop (Suc n) f events (n0 + length events) (tl faults) w2 = (w', r)"
proof -
  obtain fault readable where fr: "(case faults of [] \<Rightarrow> (NoFault, True) | x # _ \<Rightarrow> x) = (fault, readable)" by force
  have gone: "lv_pending (view_of (on_view (lv_withdraw f events) x)) = []" if "lv_pending (view_of x) = events" for x :: "('a, 'b) view_world"
    using withdraw_all [OF that] by simp
  have sw: "synced f (on_view (lv_withdraw f events) x)" if "synced f x" for x
    by (rule synced_on_view [OF that]) (rule withdraw_sel(2))
  note U = assms(5) [unfolded tryAppend_loop.simps [of left] fr Let_def prod.case]
  have pos: "0 < length events" using assms(3) by simp
  show thesis
  proof (cases fault)
    case NoFault
    obtain w1 where "confirmSubmittedEntries f NoFault w = (w1, AppendOk)" "synced f w1" "lv_pending (view_of w1) = []"
      "confirmed_part (view_of w1) = (foldl (vf_transition f) c0 events, n0 + length events)"
      by (rule confirm_ok [OF assms(1,2,3)]) (use assms(4) in simp)
    with U NoFault have "append_outcome f c0 n0 events r w'" by (auto simp: append_outcome_def)
    then show thesis by (rule that(1))
  next
    case LostWrite
    obtain w1 where w1: "confirmSubmittedEntries f LostWrite w = (w1, WriteFailed)" "synced f w1" "lv_pending (view_of w1) = events"
      "confirmed_part (view_of w1) = (c0, n0)"
      by (rule confirm_lost [OF assms(1,2,3)]) (use assms(4) in simp)
    have R: "synced f (lv_resync f w1)" "lv_pending (view_of (lv_resync f w1)) = events" "confirmed_part (view_of (lv_resync f w1)) = (c0, n0)"
      using resync_view [of w1 f "(c0, n0)"] w1(2,3,4) by (simp_all add: synced_def)
    have give_up: "append_outcome f c0 n0 events NotAppended (on_view (lv_withdraw f events) (lv_resync f w1))"
      using sw [OF R(1)] gone [OF R(2)] R(3) withdraw_sel(2) [of f events "view_of (lv_resync f w1)"] by (simp add: append_outcome_def)
    have lost: "append_outcome f c0 n0 events Unreadable (on_view (lv_withdraw f events) w1)"
      using gone [OF w1(3)] by (simp add: append_outcome_def)
    have "\<not> n0 + length events \<le> lv_version (view_of (lv_resync f w1))" using R(3) pos by simp
    with U LostWrite w1(1) have U': "(if \<not> readable then (on_view (lv_withdraw f events) w1, Unreadable)
       else (case left of Suc (Suc n) \<Rightarrow> tryAppend_loop (Suc n) f events (n0 + length events) (tl faults) (lv_resync f w1)
             | _ \<Rightarrow> (on_view (lv_withdraw f events) (lv_resync f w1), NotAppended))) = (w', r)" by (cases readable) simp_all
    show thesis
    proof (cases "readable \<and> (\<exists>n. left = Suc (Suc n))")
      case True
      then obtain n where "readable" "left = Suc (Suc n)" by blast
      with U' show thesis by (intro that(2) [OF _ R]) simp_all
    next
      case False
      with U' give_up lost have "append_outcome f c0 n0 events r w'" by (auto split: if_splits nat.splits)
      then show thesis by (rule that(1))
    qed
  next
    case LandedWrite
    obtain w1 where w1: "confirmSubmittedEntries f LandedWrite w = (w1, WriteFailed)" "journal_only w1" "lv_pending (view_of w1) = events"
      "log_denotes f (sg_entries (log_of w1)) = (foldl (vf_transition f) c0 events, n0 + length events)"
      by (rule confirm_landed [OF assms(1,2,3)]) (use assms(4) in simp)
    note R = resync_view [OF w1(2,4)]
    have "append_outcome f c0 n0 events Appended (on_view (lv_withdraw f events) (lv_resync f w1))"
      using sw [of "lv_resync f w1"] gone [of "lv_resync f w1"] R w1(3) withdraw_sel(2) [of f events "view_of (lv_resync f w1)"]
      by (simp add: append_outcome_def)
    moreover have "append_outcome f c0 n0 events Unreadable (on_view (lv_withdraw f events) w1)"
      using gone [OF w1(3)] by (simp add: append_outcome_def)
    ultimately have "append_outcome f c0 n0 events r w'" using U LandedWrite w1(1) R by (auto split: if_splits)
    then show thesis by (rule that(1))
  qed
qed

lemma tryAppend_loop_outcome:
  assumes "synced f w" "lv_pending (view_of w) = events" "events \<noteq> []" "confirmed_part (view_of w) = (c0, n0)"
    and "tryAppend_loop left f events (n0 + length events) faults w = (w', r)"
  shows "append_outcome f c0 n0 events r w'"
  using assms
proof (induction left arbitrary: w faults rule: less_induct)
  case (less left)
  show ?case
    by (rule tryAppend_loop_step [OF less.prems]) (use less.IH less.prems(3) in auto)
qed

text \<open>A manager behind the log: its writes conflict, whether or not the store would have reported them.\<close>

lemma stale_conflict:
  assumes "journal_only w" "mm_version (snd w) \<noteq> sg_version (log_of w)" "lv_pending (view_of w) = events" "events \<noteq> []" "fault \<noteq> LostWrite"
  shows "\<exists>w'. confirmSubmittedEntries f fault w = (w', Conflict) \<and> fst w' = fst w \<and> lv_pending (view_of w') = []
    \<and> confirmed_part (view_of w') = confirmed_part (view_of w)"
proof -
  let ?w = "on_view (\<lambda>v. v\<lparr> lv_pending := [] \<rparr>) w"
  have J: "journal_only ?w" using assms(1) by simp
  have no: "\<exists>e. js_append (fst ?w) (mm_logName (snd ?w)) (mm_grainId (snd ?w)) frames (mm_version (snd ?w)) = Inl e" for frames
  proof (cases "js_append (fst ?w) (mm_logName (snd ?w)) (mm_grainId (snd ?w)) frames (mm_version (snd ?w))")
    case (Inr x)
    then show ?thesis
      using assms(2) js_append_ok_iff [of "fst ?w" "mm_logName (snd ?w)" "mm_grainId (snd ?w)" frames "mm_version (snd ?w)"]
      by (cases x) auto
  qed simp
  have m: "js_get (mm_machines (snd ?w)) JOURNAL = Some (view_of ?w)" using J by (simp add: journal_only_def)
  have "\<exists>e. mm_appendRange (view_ops f) ?w JOURNAL (map EventFrame events) = Inl e"
    using no [of "map (OpFrame JOURNAL) (map (mo_wire (view_ops f)) (map EventFrame events))"] m assms(4)
    by (auto simp: mm_appendRange_def Let_def)
  with no [of "map (\<lambda>e. OpFrame JOURNAL (EventFrame e)) events"] assms(5)
  have "append_frames f fault events ?w = (?w, Conflict)"
    by (cases fault) (auto simp: append_frames_def)
  with assms(3,4) show ?thesis
    by (intro exI [of _ "on_view (\<lambda>v. lv_recompute f (v\<lparr> lv_unconfirmedCount := lv_unconfirmedCount v - int (length events) \<rparr>)) ?w"])
       (simp add: confirmSubmittedEntries_def confirm_begin_def confirm_end_def)
qed

text \<open>C38: Conditional append, run with no other turn of the grain overlapping it, on a grain with nothing pending. When
  the view is in step with the log, whatever the store does (each write succeeds, is lost, or lands and reports an
  error; each re-read succeeds or fails): reported success means that the log holds exactly the given events once
  more, reported failure that it holds none of them, also when a write that seemed to fail had landed; in every
  outcome no event stays pending. When another activation has written meanwhile, so that the manager is behind the
  log, and the first write is not lost, a nonempty append conflicts: failure is reported, the log is untouched and no
  event stays pending. (A lost write of a manager that is behind the log is outside the claim:
  \<open>stale_append_reports_success\<close> below.)\<close>

theorem tryAppendRange_atomic:
  assumes "lv_pending (view_of w) = []" "tryAppendRange f faults events w = (w', r)"
  shows "(synced f w \<longrightarrow> lv_pending (view_of w') = []
      \<and> (r = Appended \<longrightarrow> mm_version (snd w') = sg_version (log_of w')
           \<and> log_denotes f (sg_entries (log_of w')) =
               (foldl (vf_transition f) (lv_confirmed (view_of w)) events, lv_version (view_of w) + length events)
           \<and> (lv_confirmed (view_of w'), lv_version (view_of w')) = log_denotes f (sg_entries (log_of w')))
      \<and> (r = NotAppended \<longrightarrow> log_denotes f (sg_entries (log_of w')) = (lv_confirmed (view_of w), lv_version (view_of w))
           \<and> (lv_confirmed (view_of w'), lv_version (view_of w')) = log_denotes f (sg_entries (log_of w'))))
    \<and> (journal_only w \<and> mm_version (snd w) \<noteq> sg_version (log_of w) \<and> events \<noteq> [] \<and> (faults = [] \<or> fst (hd faults) \<noteq> LostWrite)
       \<longrightarrow> r = NotAppended \<and> fst w' = fst w \<and> lv_pending (view_of w') = []
         \<and> (lv_confirmed (view_of w'), lv_version (view_of w')) = (lv_confirmed (view_of w), lv_version (view_of w)))"
proof (cases "events = []")
  case True
  with assms show ?thesis by (auto simp: tryAppendRange_def synced_def)
next
  case False
  let ?w = "on_view (lv_submitRange f events) w"
  note V = lv_submitRange_sel [of f events "view_of w"]
  have run: "tryAppend_loop MAX_APPEND_ATTEMPTS f events (lv_version (view_of w) + length events) faults ?w = (w', r)"
    using assms False V by (simp add: tryAppendRange_def Let_def)
  have fresh: "append_outcome f (lv_confirmed (view_of w)) (lv_version (view_of w)) events r w'" if "synced f w"
    using tryAppend_loop_outcome [OF synced_on_view [OF that] _ False _ run] V assms(1) by simp
  have stale: "r = NotAppended \<and> fst w' = fst w \<and> lv_pending (view_of w') = [] \<and> confirmed_part (view_of w') = confirmed_part (view_of w)"
    if "journal_only w" "mm_version (snd w) \<noteq> sg_version (log_of w)" "faults = [] \<or> fst (hd faults) \<noteq> LostWrite"
  proof -
    obtain fault readable where fr: "(case faults of [] \<Rightarrow> (NoFault, True) | x # _ \<Rightarrow> x) = (fault, readable)" by force
    then have "fault \<noteq> LostWrite" using that(3) by (auto split: list.splits)
    from stale_conflict [OF _ _ _ False this, of ?w f] that(1,2) V assms(1) obtain w1 where
      "confirmSubmittedEntries f fault ?w = (w1, Conflict)" "fst w1 = fst w" "lv_pending (view_of w1) = []"
      "confirmed_part (view_of w1) = confirmed_part (view_of w)" by auto
    with run fr show ?thesis by (simp add: tryAppend_loop.simps [of MAX_APPEND_ATTEMPTS])
  qed
  show ?thesis using fresh stale by (auto simp: append_outcome_def synced_def)
qed

section \<open>Runs\<close>

text \<open>A log of numbers whose view is the list itself.\<close>

definition listView :: "(int list, int) view_fns" where
  "listView = \<lparr> vf_initial = [], vf_transition = (\<lambda>s e. s @ [e]) \<rparr>"

definition emptyWorld :: "(int list, int) view_world" where
  "emptyWorld = ([], mm_replay (view_ops listView) []
     ((newManager JOURNAL (GrainId ''Acc'' (KString ''a'')) (Some 3) None)\<lparr> mm_machines := [(JOURNAL, newLogView listView)] \<rparr>))"

lemma emptyWorld_synced: "synced listView emptyWorld" "lv_pending (view_of emptyWorld) = []"
  using replay_view [of "(newManager JOURNAL (GrainId ''Acc'' (KString ''a'')) (Some 3) None)\<lparr> mm_machines := [(JOURNAL, newLogView listView)] \<rparr>"
    "newLogView listView" listView "[]"] by (simp_all add: emptyWorld_def)

definition flakyRun :: "(int list, int) view_world \<times> try_result" where
  "flakyRun = tryAppendRange listView [(LostWrite, True), (LandedWrite, True)] [7, 8, 9] emptyWorld"

theorem tryAppendRange_atomic_witness:
  "snd flakyRun = Appended \<and> log_denotes listView (sg_entries (log_of (fst flakyRun))) = ([7, 8, 9], 3)"
proof -
  have r: "tryAppendRange listView [(LostWrite, True), (LandedWrite, True)] [7, 8, 9] emptyWorld = (fst flakyRun, Appended)" by code_simp
  have v: "lv_confirmed (view_of emptyWorld) = []" "lv_version (view_of emptyWorld) = 0" by code_simp+
  have "snd flakyRun = Appended" by code_simp
  with tryAppendRange_atomic [OF emptyWorld_synced(2) r] emptyWorld_synced(1) v show ?thesis by (simp add: listView_def)
qed

definition raisedTwice :: "(int list, int) view_world" where
  "raisedTwice = on_view (lv_submit listView 5) (fst (confirm_begin (on_view (lv_submit listView 4) emptyWorld)))"

theorem tentative_view_exact_witness: "lv_tentative (view_of raisedTwice) = [4, 5] \<and> lv_unconfirmedCount (view_of raisedTwice) = 2"
proof -
  have "view_run listView (emptyWorld, None)" unfolding emptyWorld_def by (rule view_run.activated) simp
  then have "view_run listView (on_view (lv_submit listView 4) emptyWorld, None)" by (rule view_run.raised)
  moreover have "confirm_begin (on_view (lv_submit listView 4) emptyWorld) = (fst (confirm_begin (on_view (lv_submit listView 4) emptyWorld)), [4])"
    by code_simp
  moreover have "0 < length (lv_pending (view_of (on_view (lv_submit listView 4) emptyWorld)))" by code_simp
  ultimately have "view_run listView (fst (confirm_begin (on_view (lv_submit listView 4) emptyWorld)), Some [4])"
    by (intro view_run.pass_begins)
  then have R: "view_run listView (raisedTwice, Some [4])" unfolding raisedTwice_def by (rule view_run.raised)
  have c: "lv_confirmed (view_of raisedTwice) = []" "lv_pending (view_of raisedTwice) = [5]" by code_simp+
  from tentative_view_exact [OF R] show ?thesis by (simp add: c) (simp add: listView_def)
qed

section \<open>Where overlapping calls go wrong\<close>

text \<open>A re-read of one turn completes while the append of another turn is in flight: it sets the count to the length of
  the queue, from which the batch in flight is missing, and the end of the pass takes the batch off once more.\<close>

theorem overlapping_reread_miscounts:
  "let (w1, batch) = confirm_begin (on_view (lv_submit listView 4) emptyWorld);
       w2 = lv_resync listView w1;
       (w3, r) = confirm_end listView NoFault batch w2
   in batch = [4] \<and> lv_tentative (view_of w2) = [] \<and> lv_unconfirmedCount (view_of w2) = 0
      \<and> r = AppendOk \<and> lv_confirmed (view_of w3) = [4] \<and> lv_unconfirmedCount (view_of w3) = -1"
  by code_simp

text \<open>Two activations over one log: the first falls behind by one event, its own write is lost, and the re-read finds
  the log as long as it would be had the write landed. The append answers success, but its event is not in the log.\<close>

theorem stale_append_reports_success:
  "let (s, _) = fst (confirmSubmittedEntries listView NoFault (on_view (lv_submit listView 5) emptyWorld));
       (w, r) = tryAppend listView [(LostWrite, True)] 6 (s, snd emptyWorld)
   in r = Appended \<and> lv_confirmed (view_of w) = [5] \<and> fst (log_denotes listView (sg_entries (log_of w))) = [5]"
  by code_simp

text \<open>An event that was raised before a conditional append and written in the same batch is written
  twice when that write lands but reports an error: the append answers success and takes only its own event
  back, the other one stays pending and the next confirm appends it again.\<close>

theorem landed_batch_duplicates:
  "let (w1, r) = tryAppend listView [(LandedWrite, True)] 2 (on_view (lv_submit listView 1) emptyWorld);
       (w2, r2) = confirmSubmittedEntries listView NoFault w1
   in r = Appended \<and> lv_confirmed (view_of w1) = [1, 2] \<and> lv_pending (view_of w1) = [1]
      \<and> r2 = AppendOk \<and> lv_confirmed (view_of w2) = [1, 2, 1] \<and> fst (log_denotes listView (sg_entries (log_of w2))) = [1, 2, 1]"
  by code_simp

end
