(* ===== verification/Quaternary_Heap.thy ===== *)
theory Quaternary_Heap
  imports Thresh_Prelude "HOL-Library.Multiset"
begin

text \<open>
  The sift loops shared by the two array heaps of \<^verbatim>\<open>runtime/src/placement/repartitioning\<close>
  (\<^verbatim>\<open>max-heap.ts\<close> and \<^verbatim>\<open>frequent-item-collection.ts\<close>): four children per node, an index map updated with every
  write. The loops carry a hole at the current index and write the moving node once at the end, as the source
  does. \<open>better a b\<close> says that \<open>a\<close> belongs strictly above \<open>b\<close>.

  The locale \<open>heap_order\<close> holds what is proved once for both: the loops equal swap-based sifts, keep the
  elements, restore the heap order from a heap broken at one node, and keep the index map exact.
\<close>

definition getParentIndex :: "nat \<Rightarrow> nat" where
  "getParentIndex index = (index - 1) div 4"

definition getFirstChildIndex :: "nat \<Rightarrow> nat" where
  "getFirstChildIndex index = 4 * index + 1"

text \<open>The loop over the remaining children: the best one so far and its index.\<close>

definition bestChild :: "('a \<Rightarrow> 'a \<Rightarrow> bool) \<Rightarrow> 'a list \<Rightarrow> nat \<Rightarrow> nat \<Rightarrow> nat" where
  "bestChild better nodes i upper =
     foldl (\<lambda>best j. if better (nodes ! j) (nodes ! best) then j else best) i [i + 1..<upper]"

type_synonym ('a, 'k) heap_array = "'a list \<times> ('k, int) js_map"

definition heap_write :: "('a \<Rightarrow> 'k) \<Rightarrow> nat \<Rightarrow> 'a \<Rightarrow> ('a, 'k) heap_array \<Rightarrow> ('a, 'k) heap_array" where
  "heap_write key i node h = ((fst h)[i := node], js_set (key node) (int i) (snd h))"

function siftUp :: "('a \<Rightarrow> 'a \<Rightarrow> bool) \<Rightarrow> ('a \<Rightarrow> 'k) \<Rightarrow> 'a \<Rightarrow> nat \<Rightarrow> ('a, 'k) heap_array \<Rightarrow> ('a, 'k) heap_array" where
  "siftUp better key node nodeIndex h =
     (if 0 < nodeIndex then
        (let parentIndex = getParentIndex nodeIndex; parentNode = fst h ! parentIndex in
         if better node parentNode
         then siftUp better key node parentIndex (heap_write key nodeIndex parentNode h)
         else heap_write key nodeIndex node h)
      else heap_write key nodeIndex node h)"
  by pat_completeness auto
termination
  by (relation "measure (\<lambda>(_, _, _, i, _). i)") (auto simp: getParentIndex_def)

lemma bestChild_range: "i < upper \<Longrightarrow> i \<le> bestChild better nodes i upper \<and> bestChild better nodes i upper < upper"
proof -
  have "i \<le> b \<and> b < upper \<Longrightarrow> set js \<subseteq> {i..<upper} \<Longrightarrow>
    i \<le> foldl (\<lambda>best j. if better (nodes ! j) (nodes ! best) then j else best) b js
    \<and> foldl (\<lambda>best j. if better (nodes ! j) (nodes ! best) then j else best) b js < upper" for js b
    by (induction js arbitrary: b) auto
  from this [of i "[i + 1..<upper]"] show "i < upper \<Longrightarrow> ?thesis" by (auto simp: bestChild_def)
qed

function siftDown :: "('a \<Rightarrow> 'a \<Rightarrow> bool) \<Rightarrow> ('a \<Rightarrow> 'k) \<Rightarrow> nat \<Rightarrow> 'a \<Rightarrow> nat \<Rightarrow> ('a, 'k) heap_array \<Rightarrow> ('a, 'k) heap_array" where
  "siftDown better key sz node nodeIndex h =
     (let i = getFirstChildIndex nodeIndex in
      if i < sz then
        (let childIndex = bestChild better (fst h) i (min (i + 4) sz); child = fst h ! childIndex in
         if better child node
         then siftDown better key sz node childIndex (heap_write key nodeIndex child h)
         else heap_write key nodeIndex node h)
      else heap_write key nodeIndex node h)"
  by pat_completeness auto
termination
proof (relation "measure (\<lambda>(_, _, sz, _, i, _). sz - i)", goal_cases)
  case (2 better key sz node nodeIndex h i x xa)
  have "i < min (i + 4) sz" using 2 by simp
  from bestChild_range [OF this, of better "fst h"] 2 show ?case by (auto simp: getFirstChildIndex_def)
qed simp

declare siftUp.simps [simp del] siftDown.simps [simp del]

section \<open>The same sifts by swaps\<close>

definition swap_at :: "'a list \<Rightarrow> nat \<Rightarrow> nat \<Rightarrow> 'a list" where
  "swap_at xs i j = xs[i := xs ! j, j := xs ! i]"

lemma swap_at_nth [simp]:
  "i < length xs \<Longrightarrow> j < length xs \<Longrightarrow> k < length xs \<Longrightarrow>
     swap_at xs i j ! k = (if k = j then xs ! i else if k = i then xs ! j else xs ! k)"
  by (simp add: swap_at_def nth_list_update)

lemma swap_at_length [simp]: "length (swap_at xs i j) = length xs"
  by (simp add: swap_at_def)

lemma swap_at_mset: "i < length xs \<Longrightarrow> j < length xs \<Longrightarrow> mset (swap_at xs i j) = mset xs"
  by (simp add: swap_at_def mset_swap)

lemma swap_at_take: "i < n \<Longrightarrow> j < n \<Longrightarrow> n \<le> length xs \<Longrightarrow> take n (swap_at xs i j) = swap_at (take n xs) i j"
  by (simp add: swap_at_def take_update_swap)

function bubbleUp :: "('a \<Rightarrow> 'a \<Rightarrow> bool) \<Rightarrow> nat \<Rightarrow> 'a list \<Rightarrow> 'a list" where
  "bubbleUp better i xs =
     (if 0 < i \<and> better (xs ! i) (xs ! getParentIndex i) then bubbleUp better (getParentIndex i) (swap_at xs i (getParentIndex i)) else xs)"
  by pat_completeness auto
termination
  by (relation "measure (\<lambda>(_, i, _). i)") (auto simp: getParentIndex_def)

function bubbleDown :: "('a \<Rightarrow> 'a \<Rightarrow> bool) \<Rightarrow> nat \<Rightarrow> nat \<Rightarrow> 'a list \<Rightarrow> 'a list" where
  "bubbleDown better sz i xs =
     (let c = getFirstChildIndex i; b = bestChild better xs c (min (c + 4) sz) in
      if c < sz \<and> better (xs ! b) (xs ! i) then bubbleDown better sz b (swap_at xs i b) else xs)"
  by pat_completeness auto
termination
proof (relation "measure (\<lambda>(_, sz, i, _). sz - i)", goal_cases)
  case (2 better sz i xs c b)
  have "c < min (c + 4) sz" using 2 by simp
  from bestChild_range [OF this, of better xs] 2 show ?case by (auto simp: getFirstChildIndex_def)
qed simp

declare bubbleUp.simps [simp del] bubbleDown.simps [simp del]

lemma getParentIndex_less: "0 < i \<Longrightarrow> getParentIndex i < i"
  by (auto simp: getParentIndex_def)

lemma child_iff: "0 < j \<Longrightarrow> getParentIndex j = i \<longleftrightarrow> getFirstChildIndex i \<le> j \<and> j < getFirstChildIndex i + 4"
  by (auto simp: getParentIndex_def getFirstChildIndex_def)

lemma bestChild_cong:
  assumes "\<And>j. i \<le> j \<Longrightarrow> j < upper \<Longrightarrow> xs ! j = ys ! j" "i < upper"
  shows "bestChild better xs i upper = bestChild better ys i upper"
proof -
  have "i \<le> b \<and> b < upper \<Longrightarrow> set js \<subseteq> {i..<upper} \<Longrightarrow>
    foldl (\<lambda>best j. if better (xs ! j) (xs ! best) then j else best) b js =
    foldl (\<lambda>best j. if better (ys ! j) (ys ! best) then j else best) b js" for js b
    by (induction js arbitrary: b) (auto simp: assms(1))
  from this [of i "[i + 1..<upper]"] assms(2) show ?thesis by (auto simp: bestChild_def)
qed

lemma siftUp_bubbleUp:
  "i < length (fst h) \<Longrightarrow> fst (siftUp better key node i h) = bubbleUp better i ((fst h)[i := node])"
proof (induction better key node i h rule: siftUp.induct)
  case (1 better key node i h)
  show ?case
  proof (cases "0 < i \<and> better node (fst h ! getParentIndex i)")
    case True
    let ?p = "getParentIndex i"
    have p: "?p < i" using True getParentIndex_less by simp
    have "fst (siftUp better key node i h) = bubbleUp better ?p ((fst (heap_write key i (fst h ! ?p) h))[?p := node])"
      using 1 True p by (simp add: siftUp.simps [of better key node i] Let_def heap_write_def)
    also have "(fst (heap_write key i (fst h ! ?p) h))[?p := node] = swap_at ((fst h)[i := node]) i ?p"
      using "1.prems" p by (simp add: heap_write_def swap_at_def)
    finally show ?thesis using True p "1.prems" by (simp add: bubbleUp.simps [of better i])
  next
    case False
    then show ?thesis using "1.prems" getParentIndex_less [of i]
      by (auto simp: siftUp.simps [of better key node i] bubbleUp.simps [of better i] Let_def heap_write_def)
  qed
qed

lemma siftDown_bubbleDown:
  "i < sz \<Longrightarrow> sz \<le> length (fst h) \<Longrightarrow> fst (siftDown better key sz node i h) = bubbleDown better sz i ((fst h)[i := node])"
proof (induction better key sz node i h rule: siftDown.induct)
  case (1 better key sz node i h)
  let ?c = "getFirstChildIndex i"
  let ?u = "min (?c + 4) sz"
  let ?b = "bestChild better (fst h) ?c ?u"
  let ?V = "(fst h)[i := node]"
  show ?case
  proof (cases "?c < sz")
    case False
    then show ?thesis by (simp add: siftDown.simps [of better key sz node i] bubbleDown.simps [of better sz i] Let_def heap_write_def)
  next
    case True
    have b: "?c \<le> ?b" "?b < sz" "i < ?b" using bestChild_range [of ?c ?u better "fst h"] True by (auto simp: getFirstChildIndex_def)
    have bV: "bestChild better ?V ?c ?u = ?b"
      by (rule bestChild_cong) (use True "1.prems" in \<open>auto simp: getFirstChildIndex_def nth_list_update\<close>)
    show ?thesis
    proof (cases "better (fst h ! ?b) node")
      case False
      then show ?thesis using True b bV "1.prems"
        by (simp add: siftDown.simps [of better key sz node i] bubbleDown.simps [of better sz i] Let_def heap_write_def)
    next
      case better: True
      have "fst (siftDown better key sz node i h) = bubbleDown better sz ?b ((fst (heap_write key i (fst h ! ?b) h))[?b := node])"
        using "1.IH" [OF refl True refl refl better] "1.prems" True better b
        by (simp add: siftDown.simps [of better key sz node i] Let_def heap_write_def)
      also have "(fst (heap_write key i (fst h ! ?b) h))[?b := node] = swap_at ?V i ?b"
        using "1.prems" b by (simp add: heap_write_def swap_at_def)
      finally show ?thesis
        using True better b bV "1.prems" by (simp add: bubbleDown.simps [of better sz i] Let_def)
    qed
  qed
qed

section \<open>Shape facts that need no order\<close>

lemma bubbleUp_length [simp]: "length (bubbleUp better i xs) = length xs"
  by (induction better i xs rule: bubbleUp.induct) (simp add: bubbleUp.simps)

lemma bubbleDown_length [simp]: "length (bubbleDown better sz i xs) = length xs"
proof (induction better sz i xs rule: bubbleDown.induct)
  case (1 better sz i xs)
  then show ?case by (subst bubbleDown.simps) (simp add: Let_def)
qed

lemma bubbleUp_mset: "i < n \<Longrightarrow> n \<le> length xs \<Longrightarrow> mset (take n (bubbleUp better i xs)) = mset (take n xs)"
proof (induction better i xs rule: bubbleUp.induct)
  case (1 better i xs)
  show ?case
  proof (cases "0 < i \<and> better (xs ! i) (xs ! getParentIndex i)")
    case True
    have p: "getParentIndex i < i" using True getParentIndex_less by simp
    with 1 True have "mset (take n (bubbleUp better i xs)) = mset (take n (swap_at xs i (getParentIndex i)))"
      by (simp add: bubbleUp.simps [of better i])
    then show ?thesis using p "1.prems" by (simp add: swap_at_take swap_at_mset)
  qed (auto simp: bubbleUp.simps [of better i])
qed

lemma bubbleUp_beyond: "i < k \<Longrightarrow> k < length xs \<Longrightarrow> bubbleUp better i xs ! k = xs ! k"
proof (induction better i xs rule: bubbleUp.induct)
  case (1 better i xs)
  then show ?case using getParentIndex_less [of i] by (auto simp: bubbleUp.simps [of better i])
qed

lemma bubbleDown_mset: "i < sz \<Longrightarrow> sz \<le> length xs \<Longrightarrow> mset (take sz (bubbleDown better sz i xs)) = mset (take sz xs)"
proof (induction better sz i xs rule: bubbleDown.induct)
  case (1 better sz i xs)
  let ?c = "getFirstChildIndex i"
  let ?b = "bestChild better xs ?c (min (?c + 4) sz)"
  show ?case
  proof (cases "?c < sz \<and> better (xs ! ?b) (xs ! i)")
    case True
    have b: "?b < sz" using bestChild_range [of ?c "min (?c + 4) sz" better xs] True by auto
    with 1 True have "mset (take sz (bubbleDown better sz i xs)) = mset (take sz (swap_at xs i ?b))"
      by (simp add: bubbleDown.simps [of better sz i] Let_def)
    then show ?thesis using b "1.prems" by (simp add: swap_at_take swap_at_mset)
  qed (auto simp: bubbleDown.simps [of better sz i] Let_def)
qed

lemma bubbleDown_beyond: "i < sz \<Longrightarrow> sz \<le> k \<Longrightarrow> k < length xs \<Longrightarrow> bubbleDown better sz i xs ! k = xs ! k"
proof (induction better sz i xs rule: bubbleDown.induct)
  case (1 better sz i xs)
  let ?c = "getFirstChildIndex i"
  let ?b = "bestChild better xs ?c (min (?c + 4) sz)"
  show ?case
  proof (cases "?c < sz \<and> better (xs ! ?b) (xs ! i)")
    case True
    have b: "?b < sz" using bestChild_range [of ?c "min (?c + 4) sz" better xs] True by auto
    with 1 True show ?thesis by (simp add: bubbleDown.simps [of better sz i] Let_def)
  qed (auto simp: bubbleDown.simps [of better sz i] Let_def)
qed

section \<open>The index map\<close>

text \<open>Every slot but the hole is where the map says it is, and the keys are distinct once the hole is filled.\<close>

definition indexed_but :: "('a \<Rightarrow> 'k) \<Rightarrow> nat \<Rightarrow> nat \<Rightarrow> 'a \<Rightarrow> ('a, 'k) heap_array \<Rightarrow> bool" where
  "indexed_but key n i node h \<longleftrightarrow> i < n \<and> n \<le> length (fst h) \<and> distinct (map key (take n ((fst h)[i := node])))
     \<and> (\<forall>j. j < n \<and> j \<noteq> i \<longrightarrow> js_get (snd h) (key (fst h ! j)) = Some (int j))"

definition indexed :: "('a \<Rightarrow> 'k) \<Rightarrow> nat \<Rightarrow> ('a, 'k) heap_array \<Rightarrow> bool" where
  "indexed key n h \<longleftrightarrow> n \<le> length (fst h) \<and> distinct (map key (take n (fst h)))
     \<and> (\<forall>j. j < n \<longrightarrow> js_get (snd h) (key (fst h ! j)) = Some (int j))"

lemma indexed_but_key_neq:
  assumes "indexed_but key n i node h" "j < n" "k < n" "j \<noteq> k"
  shows "key ((fst h)[i := node] ! j) \<noteq> key ((fst h)[i := node] ! k)"
proof -
  have "distinct (map key (take n ((fst h)[i := node])))" "n \<le> length (fst h)" using assms(1) by (simp_all add: indexed_but_def)
  then show ?thesis using assms(2-4) by (simp add: distinct_conv_nth)
qed

lemma indexed_but_move:
  assumes "indexed_but key n i node h" "p < n" "p \<noteq> i"
  shows "indexed_but key n p node (heap_write key i (fst h ! p) h)"
proof -
  have b: "i < n" "n \<le> length (fst h)" using assms(1) by (simp_all add: indexed_but_def)
  have sw: "(fst (heap_write key i (fst h ! p) h))[p := node] = swap_at ((fst h)[i := node]) i p"
    using b assms(2,3) by (simp add: heap_write_def swap_at_def)
  have "mset (map key (take n (swap_at ((fst h)[i := node]) i p))) = mset (map key (take n ((fst h)[i := node])))"
    using b assms(2) by (simp add: swap_at_take swap_at_mset)
  then have d: "distinct (map key (take n ((fst (heap_write key i (fst h ! p) h))[p := node])))"
    using assms(1) mset_eq_imp_distinct_iff by (metis indexed_but_def sw)
  have "js_get (snd (heap_write key i (fst h ! p) h)) (key (fst (heap_write key i (fst h ! p) h) ! j)) = Some (int j)"
    if j: "j < n" "j \<noteq> p" for j
  proof (cases "j = i")
    case True
    then show ?thesis using b by (simp add: heap_write_def js_get_set)
  next
    case False
    have "key (fst h ! j) \<noteq> key (fst h ! p)" using indexed_but_key_neq [OF assms(1) j(1) assms(2) j(2)] False assms(3) by simp
    then show ?thesis using False j assms(1) by (simp add: heap_write_def js_get_set indexed_but_def)
  qed
  then show ?thesis using d b assms(2) by (simp add: indexed_but_def) (simp add: heap_write_def)
qed

lemma indexed_but_fill: "indexed_but key n i node h \<Longrightarrow> indexed key n (heap_write key i node h)"
proof -
  assume I: "indexed_but key n i node h"
  then have b: "i < n" "n \<le> length (fst h)" by (simp_all add: indexed_but_def)
  have "key (fst h ! j) \<noteq> key node" if "j < n" "j \<noteq> i" for j
    using indexed_but_key_neq [OF I that(1) b(1) that(2)] that b by simp
  with I b show ?thesis by (auto simp: indexed_def heap_write_def indexed_but_def js_get_set nth_list_update)
qed

lemma siftUp_indexed: "indexed_but key n i node h \<Longrightarrow> indexed key n (siftUp better key node i h)"
proof (induction better key node i h rule: siftUp.induct)
  case (1 better key node i h)
  show ?case
  proof (cases "0 < i \<and> better node (fst h ! getParentIndex i)")
    case True
    have p: "getParentIndex i < i" using True getParentIndex_less by simp
    have i: "i < n" using "1.prems" by (simp add: indexed_but_def)
    have "indexed_but key n (getParentIndex i) node (heap_write key i (fst h ! getParentIndex i) h)"
      by (rule indexed_but_move [OF "1.prems"]) (use p i in simp_all)
    with 1 True show ?thesis by (simp add: siftUp.simps [of better key node i] Let_def)
  next
    case False
    then show ?thesis using indexed_but_fill [OF "1.prems"] by (auto simp: siftUp.simps [of better key node i] Let_def)
  qed
qed

lemma siftDown_indexed: "indexed_but key sz i node h \<Longrightarrow> indexed key sz (siftDown better key sz node i h)"
proof (induction better key sz node i h rule: siftDown.induct)
  case (1 better key sz node i h)
  let ?c = "getFirstChildIndex i"
  let ?b = "bestChild better (fst h) ?c (min (?c + 4) sz)"
  show ?case
  proof (cases "?c < sz \<and> better (fst h ! ?b) node")
    case True
    have b: "?b < sz" "i < ?b" using bestChild_range [of ?c "min (?c + 4) sz" better "fst h"] True by (auto simp: getFirstChildIndex_def)
    have "indexed_but key sz ?b node (heap_write key i (fst h ! ?b) h)"
      by (rule indexed_but_move [OF "1.prems"]) (use b in simp_all)
    with 1 True show ?thesis by (simp add: siftDown.simps [of better key sz node i] Let_def)
  next
    case False
    then show ?thesis using indexed_but_fill [OF "1.prems"] by (auto simp: siftDown.simps [of better key sz node i] Let_def)
  qed
qed

text \<open>Only the key of the moving node can be new in the map.\<close>

lemma heap_write_dom:
  "js_get (snd (heap_write key i x h)) k \<noteq> None \<longleftrightarrow> js_get (snd h) k \<noteq> None \<or> k = key x"
  by (simp add: heap_write_def js_get_set)

lemma siftUp_dom:
  "indexed_but key n i node h \<Longrightarrow> js_get (snd (siftUp better key node i h)) k \<noteq> None \<longleftrightarrow> js_get (snd h) k \<noteq> None \<or> k = key node"
proof (induction better key node i h rule: siftUp.induct)
  case (1 better key node i h)
  let ?p = "getParentIndex i"
  show ?case
  proof (cases "0 < i \<and> better node (fst h ! ?p)")
    case True
    have p: "?p < n" "?p \<noteq> i" using True getParentIndex_less [of i] "1.prems" by (auto simp: indexed_but_def)
    have "js_get (snd h) (key (fst h ! ?p)) \<noteq> None" using "1.prems" p by (simp add: indexed_but_def)
    with 1 True indexed_but_move [OF "1.prems" p] show ?thesis
      by (auto simp: siftUp.simps [of better key node i] Let_def heap_write_dom simp del: not_None_eq)
  next
    case False
    then show ?thesis by (auto simp: siftUp.simps [of better key node i] Let_def heap_write_dom simp del: not_None_eq)
  qed
qed

lemma siftDown_dom:
  "indexed_but key sz i node h \<Longrightarrow> js_get (snd (siftDown better key sz node i h)) k \<noteq> None \<longleftrightarrow> js_get (snd h) k \<noteq> None \<or> k = key node"
proof (induction better key sz node i h rule: siftDown.induct)
  case (1 better key sz node i h)
  let ?c = "getFirstChildIndex i"
  let ?b = "bestChild better (fst h) ?c (min (?c + 4) sz)"
  show ?case
  proof (cases "?c < sz \<and> better (fst h ! ?b) node")
    case True
    have b: "?b < sz" "?b \<noteq> i" using bestChild_range [of ?c "min (?c + 4) sz" better "fst h"] True by (auto simp: getFirstChildIndex_def)
    have "js_get (snd h) (key (fst h ! ?b)) \<noteq> None" using "1.prems" b by (simp add: indexed_but_def)
    with 1 True indexed_but_move [OF "1.prems" b] show ?thesis
      by (auto simp: siftDown.simps [of better key sz node i] Let_def heap_write_dom simp del: not_None_eq)
  next
    case False
    then show ?thesis by (auto simp: siftDown.simps [of better key sz node i] Let_def heap_write_dom simp del: not_None_eq)
  qed
qed

text \<open>Entries of keys outside the array keep their value.\<close>

lemma hole_move_set:
  assumes "i < n" "p < n" "n \<le> length (fst h)" "p \<noteq> i"
  shows "set (take n ((fst (heap_write key i (fst h ! p) h))[p := node])) = set (take n ((fst h)[i := node]))"
proof -
  have "(fst (heap_write key i (fst h ! p) h))[p := node] = swap_at ((fst h)[i := node]) i p"
    using assms by (simp add: heap_write_def swap_at_def)
  moreover have "mset (take n (swap_at ((fst h)[i := node]) i p)) = mset (take n ((fst h)[i := node]))"
    using assms by (simp add: swap_at_take swap_at_mset)
  ultimately show ?thesis by (metis mset_eq_setD)
qed

lemma hole_mem:
  assumes "indexed_but key n i node h" "j < n"
  shows "(fst h)[i := node] ! j \<in> set (take n ((fst h)[i := node]))"
proof -
  have "n \<le> length (fst h)" using assms(1) by (simp add: indexed_but_def)
  then show ?thesis using assms(2) by (metis length_list_update length_take min.absorb2 nth_mem nth_take)
qed

lemma hole_fill_frame:
  assumes "indexed_but key n i node h" "k \<notin> key ` set (take n ((fst h)[i := node]))"
  shows "js_get (snd (heap_write key i node h)) k = js_get (snd h) k"
proof -
  have "i < n" "n \<le> length (fst h)" using assms(1) by (simp_all add: indexed_but_def)
  then have "key node \<noteq> k" using hole_mem [OF assms(1), of i] assms(2) by auto
  then show ?thesis by (simp add: heap_write_def js_get_set)
qed

lemma hole_move_frame:
  assumes "indexed_but key n i node h" "p < n" "p \<noteq> i" "k \<notin> key ` set (take n ((fst h)[i := node]))"
  shows "js_get (snd (heap_write key i (fst h ! p) h)) k = js_get (snd h) k
    \<and> k \<notin> key ` set (take n ((fst (heap_write key i (fst h ! p) h))[p := node]))"
proof -
  have b: "i < n" "n \<le> length (fst h)" using assms(1) by (simp_all add: indexed_but_def)
  have "key (fst h ! p) \<noteq> k" using hole_mem [OF assms(1,2)] assms(3,4) b by auto
  moreover have "k \<notin> key ` set (take n ((fst (heap_write key i (fst h ! p) h))[p := node]))"
    using assms(4) hole_move_set [of i n p h key node] b assms(2,3) by simp
  ultimately show ?thesis by (simp add: heap_write_def js_get_set)
qed

lemma siftUp_frame:
  "indexed_but key n i node h \<Longrightarrow> k \<notin> key ` set (take n ((fst h)[i := node])) \<Longrightarrow> js_get (snd (siftUp better key node i h)) k = js_get (snd h) k"
proof (induction better key node i h rule: siftUp.induct)
  case (1 better key node i h)
  let ?p = "getParentIndex i"
  show ?case
  proof (cases "0 < i \<and> better node (fst h ! ?p)")
    case True
    have p: "?p < n" "?p \<noteq> i" using True getParentIndex_less [of i] "1.prems" by (auto simp: indexed_but_def)
    note H = indexed_but_move [OF "1.prems"(1) p] hole_move_frame [OF "1.prems"(1) p "1.prems"(2)]
    show ?thesis using 1 True H by (simp add: siftUp.simps [of better key node i] Let_def)
  next
    case False
    then show ?thesis using hole_fill_frame [OF "1.prems"] by (auto simp: siftUp.simps [of better key node i] Let_def)
  qed
qed

lemma siftDown_frame:
  "indexed_but key sz i node h \<Longrightarrow> k \<notin> key ` set (take sz ((fst h)[i := node])) \<Longrightarrow> js_get (snd (siftDown better key sz node i h)) k = js_get (snd h) k"
proof (induction better key sz node i h rule: siftDown.induct)
  case (1 better key sz node i h)
  let ?c = "getFirstChildIndex i"
  let ?b = "bestChild better (fst h) ?c (min (?c + 4) sz)"
  show ?case
  proof (cases "?c < sz \<and> better (fst h ! ?b) node")
    case True
    have b: "?b < sz" "?b \<noteq> i" using bestChild_range [of ?c "min (?c + 4) sz" better "fst h"] True by (auto simp: getFirstChildIndex_def)
    note H = indexed_but_move [OF "1.prems"(1) b] hole_move_frame [OF "1.prems"(1) b "1.prems"(2)]
    show ?thesis using 1 True H by (simp add: siftDown.simps [of better key sz node i] Let_def)
  next
    case False
    then show ?thesis using hole_fill_frame [OF "1.prems"] by (auto simp: siftDown.simps [of better key sz node i] Let_def)
  qed
qed

section \<open>Heap order\<close>

text \<open>\<open>heap_from\<close>: every node from \<open>m\<close> on is no worse than its children. The two weakenings leave out the node
  being sifted, but relate its children to its parent.\<close>

definition heap_from :: "('a \<Rightarrow> 'a \<Rightarrow> bool) \<Rightarrow> nat \<Rightarrow> nat \<Rightarrow> 'a list \<Rightarrow> bool" where
  "heap_from better m n xs \<longleftrightarrow> (\<forall>j. 0 < j \<and> j < n \<and> m \<le> getParentIndex j \<longrightarrow> \<not> better (xs ! j) (xs ! getParentIndex j))"

definition heap_but_up :: "('a \<Rightarrow> 'a \<Rightarrow> bool) \<Rightarrow> nat \<Rightarrow> nat \<Rightarrow> 'a list \<Rightarrow> bool" where
  "heap_but_up better n k xs \<longleftrightarrow>
     (\<forall>j. 0 < j \<and> j < n \<and> j \<noteq> k \<longrightarrow> \<not> better (xs ! j) (xs ! getParentIndex j))
     \<and> (\<forall>j. 0 < j \<and> j < n \<and> getParentIndex j = k \<and> 0 < k \<longrightarrow> \<not> better (xs ! j) (xs ! getParentIndex k))"

definition heap_but_down :: "('a \<Rightarrow> 'a \<Rightarrow> bool) \<Rightarrow> nat \<Rightarrow> nat \<Rightarrow> nat \<Rightarrow> 'a list \<Rightarrow> bool" where
  "heap_but_down better m n k xs \<longleftrightarrow>
     (\<forall>j. 0 < j \<and> j < n \<and> m \<le> getParentIndex j \<and> getParentIndex j \<noteq> k \<longrightarrow> \<not> better (xs ! j) (xs ! getParentIndex j))
     \<and> (\<forall>j. 0 < j \<and> j < n \<and> getParentIndex j = k \<and> 0 < k \<and> m \<le> getParentIndex k \<longrightarrow> \<not> better (xs ! j) (xs ! getParentIndex k))"

abbreviation is_heap :: "('a \<Rightarrow> 'a \<Rightarrow> bool) \<Rightarrow> nat \<Rightarrow> 'a list \<Rightarrow> bool" where
  "is_heap better n xs \<equiv> heap_from better 0 n xs"

locale heap_order =
  fixes better :: "'a \<Rightarrow> 'a \<Rightarrow> bool"
  assumes asym: "better a b \<Longrightarrow> \<not> better b a"
    and neg_trans: "\<not> better a b \<Longrightarrow> \<not> better b c \<Longrightarrow> \<not> better a c"
begin

lemma bestChild_best: "i \<le> j \<Longrightarrow> j < upper \<Longrightarrow> \<not> better (xs ! j) (xs ! bestChild better xs i upper)"
proof -
  let ?f = "\<lambda>best j. if better (xs ! j) (xs ! best) then j else best"
  have "\<not> better (xs ! b) (xs ! foldl ?f b js) \<and> (\<forall>j\<in>set js. \<not> better (xs ! j) (xs ! foldl ?f b js))" for b js
  proof (induction js rule: rev_induct)
    case Nil
    then show ?case using asym [of "xs ! b" "xs ! b"] by auto
  next
    case (snoc j js)
    let ?b = "foldl ?f b js"
    have "\<not> better x (xs ! j)" if "better (xs ! j) (xs ! ?b)" "\<not> better x (xs ! ?b)" for x
      using neg_trans [OF that(2) asym [OF that(1)]] .
    moreover have "\<not> better (xs ! j) (xs ! j)" using asym by blast
    ultimately show ?case using snoc.IH by simp
  qed
  from this [of i "[i + 1..<upper]"] show "i \<le> j \<Longrightarrow> j < upper \<Longrightarrow> ?thesis"
    by (cases "i = j") (auto simp: bestChild_def)
qed


lemma but_up_swap:
  assumes "heap_but_up better n i xs" "i < n" "n \<le> length xs" "0 < i" "better (xs ! i) (xs ! getParentIndex i)"
  shows "heap_but_up better n (getParentIndex i) (swap_at xs i (getParentIndex i))"
proof -
  let ?p = "getParentIndex i"
  have p: "?p < i" using assms(4) by (rule getParentIndex_less)
  have H1: "\<not> better (xs ! j) (xs ! getParentIndex j)" if "0 < j" "j < n" "j \<noteq> i" for j
    using assms(1) that by (simp add: heap_but_up_def)
  have H2: "\<not> better (xs ! j) (xs ! ?p)" if "0 < j" "j < n" "getParentIndex j = i" for j
    using assms(1,4) that by (auto simp: heap_but_up_def)
  note sw = assms(2,3) p
  have A: "\<not> better (swap_at xs i ?p ! j) (swap_at xs i ?p ! getParentIndex j)" if j: "0 < j" "j < n" "j \<noteq> ?p" for j
  proof -
    have pj: "getParentIndex j < j" using j(1) by (rule getParentIndex_less)
    consider "j = i" | "j \<noteq> i" "getParentIndex j = i" | "j \<noteq> i" "getParentIndex j = ?p" | "j \<noteq> i" "getParentIndex j \<noteq> i" "getParentIndex j \<noteq> ?p"
      by blast
    then show ?thesis
    proof cases
      case 1
      then show ?thesis using asym [OF assms(5)] sw by simp
    next
      case 2
      then show ?thesis using H2 [OF j(1,2)] j sw pj by simp
    next
      case 3
      have "\<not> better (xs ! j) (xs ! i)" using neg_trans [OF H1 [OF j(1,2) 3(1)], of "xs ! i"] 3 asym [OF assms(5)] by simp
      then show ?thesis using 3 j sw pj by simp
    next
      case 4
      then show ?thesis using H1 [OF j(1,2)] j sw pj by simp
    qed
  qed
  have B: "\<not> better (swap_at xs i ?p ! j) (swap_at xs i ?p ! getParentIndex ?p)" if j: "0 < j" "j < n" "getParentIndex j = ?p" "0 < ?p" for j
  proof -
    have q: "getParentIndex ?p < ?p" "getParentIndex j < j" using j getParentIndex_less by blast+
    have P: "\<not> better (xs ! ?p) (xs ! getParentIndex ?p)" using H1 [of ?p] j p assms(2) by simp
    show ?thesis
    proof (cases "j = i")
      case True
      then show ?thesis using P sw q by simp
    next
      case False
      have "\<not> better (xs ! j) (xs ! getParentIndex ?p)" using neg_trans [OF H1 [OF j(1,2) False], of "xs ! getParentIndex ?p"] P j(3) by simp
      then show ?thesis using False sw q j by simp
    qed
  qed
  show ?thesis using A B by (auto simp: heap_but_up_def)
qed

lemma bubbleUp_heap:
  "heap_but_up better n i xs \<Longrightarrow> i < n \<Longrightarrow> n \<le> length xs \<Longrightarrow> is_heap better n (bubbleUp better i xs)"
proof (induction i arbitrary: xs rule: less_induct)
  case (less i)
  show ?case
  proof (cases "0 < i \<and> better (xs ! i) (xs ! getParentIndex i)")
    case True
    have p: "getParentIndex i < i" using True getParentIndex_less by simp
    have "heap_but_up better n (getParentIndex i) (swap_at xs i (getParentIndex i))"
      using but_up_swap less.prems True by blast
    from less.IH [OF p this] show ?thesis using less.prems p True by (simp add: bubbleUp.simps [of better i])
  next
    case False
    then have "bubbleUp better i xs = xs" by (subst bubbleUp.simps) auto
    with False less.prems show ?thesis by (auto simp: heap_from_def heap_but_up_def)
  qed
qed

lemma but_down_swap:
  assumes "heap_but_down better m n i xs" "i < n" "n \<le> length xs" "m \<le> i"
    and "b < n" "0 < b" "getParentIndex b = i" "better (xs ! b) (xs ! i)"
    and best: "\<And>j. 0 < j \<Longrightarrow> j < n \<Longrightarrow> getParentIndex j = i \<Longrightarrow> \<not> better (xs ! j) (xs ! b)"
  shows "heap_but_down better m n b (swap_at xs i b)"
proof -
  have ib: "i < b" using getParentIndex_less [OF assms(6)] assms(7) by simp
  have H1: "\<not> better (xs ! j) (xs ! getParentIndex j)" if "0 < j" "j < n" "m \<le> getParentIndex j" "getParentIndex j \<noteq> i" for j
    using assms(1) that by (simp add: heap_but_down_def)
  have H2: "\<not> better (xs ! j) (xs ! getParentIndex i)" if "0 < j" "j < n" "getParentIndex j = i" "0 < i" "m \<le> getParentIndex i" for j
    using assms(1) that by (auto simp: heap_but_down_def)
  note sw = assms(2,3,5) ib
  have A: "\<not> better (swap_at xs i b ! j) (swap_at xs i b ! getParentIndex j)"
    if j: "0 < j" "j < n" "m \<le> getParentIndex j" "getParentIndex j \<noteq> b" for j
  proof -
    have pj: "getParentIndex j < j" using j(1) by (rule getParentIndex_less)
    consider "j = b" | "j \<noteq> b" "getParentIndex j = i" | "j = i" | "j \<noteq> b" "j \<noteq> i" "getParentIndex j \<noteq> i" by blast
    then show ?thesis
    proof cases
      case 1
      then show ?thesis using asym [OF assms(8)] sw assms(7) by simp
    next
      case 2
      then show ?thesis using best [OF j(1,2)] j sw pj by auto
    next
      case 3
      then show ?thesis using H2 [OF assms(6,5,7)] j sw pj by auto
    next
      case 4
      then show ?thesis using H1 [OF j(1,2,3)] j sw pj by simp
    qed
  qed
  have B: "\<not> better (swap_at xs i b ! j) (swap_at xs i b ! getParentIndex b)" if j: "0 < j" "j < n" "getParentIndex j = b" for j
  proof -
    have pj: "getParentIndex j < j" using j(1) by (rule getParentIndex_less)
    have "\<not> better (xs ! j) (xs ! b)" using H1 [OF j(1,2)] j(3) ib assms(4) by simp
    then show ?thesis using j sw pj assms(7) by auto
  qed
  show ?thesis using A B by (auto simp: heap_but_down_def)
qed

lemma bubbleDown_heap:
  "heap_but_down better m n i xs \<Longrightarrow> i < n \<Longrightarrow> n \<le> length xs \<Longrightarrow> m \<le> i \<Longrightarrow> heap_from better m n (bubbleDown better n i xs)"
proof (induction "n - i" arbitrary: i xs rule: less_induct)
  case less
  let ?c = "getFirstChildIndex i"
  let ?u = "min (?c + 4) n"
  let ?b = "bestChild better xs ?c ?u"
  have best: "\<not> better (xs ! j) (xs ! ?b)" if "0 < j" "j < n" "getParentIndex j = i" for j
    using bestChild_best [of ?c j ?u xs] that child_iff [of j i] by auto
  show ?case
  proof (cases "?c < n \<and> better (xs ! ?b) (xs ! i)")
    case True
    have b: "?c \<le> ?b" "?b < ?u" using bestChild_range [of ?c ?u better xs] True by auto
    then have b2: "?b < n" "0 < ?b" "getParentIndex ?b = i" "i < ?b" using child_iff [of ?b i] by (auto simp: getFirstChildIndex_def)
    have "heap_but_down better m n ?b (swap_at xs i ?b)"
      using but_down_swap [OF less.prems b2(1,2,3) _ best] True by blast
    then have "heap_from better m n (bubbleDown better n ?b (swap_at xs i ?b))"
      using less.hyps [of ?b "swap_at xs i ?b"] less.prems b2 by simp
    then show ?thesis using True by (simp add: bubbleDown.simps [of better n i] Let_def)
  next
    case False
    have "\<not> better (xs ! j) (xs ! i)" if j: "0 < j" "j < n" "getParentIndex j = i" for j
    proof -
      have "?c < n" using child_iff [OF j(1), of i] j by simp
      with False have "\<not> better (xs ! ?b) (xs ! i)" by simp
      with best [OF j] neg_trans show ?thesis by blast
    qed
    moreover have "bubbleDown better n i xs = xs" using False by (subst bubbleDown.simps) (auto simp: Let_def)
    ultimately show ?thesis using less.prems(1) by (auto simp: heap_from_def heap_but_down_def)
  qed
qed

lemma heap_root: "is_heap better n xs \<Longrightarrow> j < n \<Longrightarrow> \<not> better (xs ! j) (xs ! 0)"
proof (induction j rule: less_induct)
  case (less j)
  show ?case
  proof (cases "j = 0")
    case True
    then show ?thesis using asym by blast
  next
    case False
    then have p: "getParentIndex j < j" by (simp add: getParentIndex_less)
    then have "\<not> better (xs ! getParentIndex j) (xs ! 0)" using less by simp
    moreover have "\<not> better (xs ! j) (xs ! getParentIndex j)" using less.prems False by (simp add: heap_from_def)
    ultimately show ?thesis using neg_trans by blast
  qed
qed

end

end
