(* ===== verification/Max_Heap.thy ===== *)
theory Max_Heap
  imports Quaternary_Heap
begin

text \<open>
  The quaternary max-heap of \<^verbatim>\<open>runtime/src/placement/repartitioning/max-heap.ts\<close>. Elements are object
  references; the \<open>heapIndex\<close> field of the elements is the map \<open>mh_index\<close> (an element it does not hold has
  index -1), and \<open>compareTo\<close> is the parameter \<open>cmp\<close>. Slots past the size keep stale references, as in the
  source. Shown for a comparison by score: the constructor, \<open>pop\<close> and both reprioritisations keep the heap
  order and the exact indices, \<open>pop\<close> returns a maximum, and draining a heap sorts its items.
\<close>

record 'a max_heap =
  mh_nodes :: "'a list"
  mh_size :: nat
  mh_index :: "('a, int) js_map"

definition heapIndex :: "'a max_heap \<Rightarrow> 'a \<Rightarrow> int" where
  "heapIndex h e = (case js_get (mh_index h) e of Some i \<Rightarrow> i | None \<Rightarrow> -1)"

abbreviation above :: "('a \<Rightarrow> 'a \<Rightarrow> int) \<Rightarrow> 'a \<Rightarrow> 'a \<Rightarrow> bool" where
  "above cmp \<equiv> \<lambda>a b. 0 < cmp a b"

definition mh_moveUp :: "('a \<Rightarrow> 'a \<Rightarrow> int) \<Rightarrow> 'a \<Rightarrow> nat \<Rightarrow> 'a max_heap \<Rightarrow> 'a max_heap" where
  "mh_moveUp cmp node nodeIndex h =
     (let (nodes, index) = siftUp (above cmp) (\<lambda>e. e) node nodeIndex (mh_nodes h, mh_index h)
      in h\<lparr> mh_nodes := nodes, mh_index := index \<rparr>)"

definition mh_moveDown :: "('a \<Rightarrow> 'a \<Rightarrow> int) \<Rightarrow> 'a \<Rightarrow> nat \<Rightarrow> 'a max_heap \<Rightarrow> 'a max_heap" where
  "mh_moveDown cmp node nodeIndex h =
     (let (nodes, index) = siftDown (above cmp) (\<lambda>e. e) (mh_size h) node nodeIndex (mh_nodes h, mh_index h)
      in h\<lparr> mh_nodes := nodes, mh_index := index \<rparr>)"

definition mh_heapify :: "('a \<Rightarrow> 'a \<Rightarrow> int) \<Rightarrow> 'a max_heap \<Rightarrow> 'a max_heap" where
  "mh_heapify cmp h =
     foldl (\<lambda>h index. mh_moveDown cmp (mh_nodes h ! index) index h) h (rev [0..<getParentIndex (mh_size h - 1) + 1])"

definition newMaxHeap :: "('a \<Rightarrow> 'a \<Rightarrow> int) \<Rightarrow> 'a list \<Rightarrow> 'a max_heap" where
  "newMaxHeap cmp items =
     (let h = \<lparr> mh_nodes = items, mh_size = length items,
                mh_index = foldl (\<lambda>ix i. js_set (items ! i) (int i) ix) [] [0..<length items] \<rparr>
      in if 1 < mh_size h then mh_heapify cmp h
         else if mh_size h = 1 then h\<lparr> mh_index := js_set (mh_nodes h ! 0) 0 (mh_index h) \<rparr>
         else h)"

definition mh_firstOrDefault :: "'a max_heap \<Rightarrow> 'a option" where
  "mh_firstOrDefault h = (if 0 < mh_size h then Some (mh_nodes h ! 0) else None)"

definition mh_tryPeek :: "'a max_heap \<Rightarrow> 'a option" where
  "mh_tryPeek h = (if 0 < mh_size h then Some (mh_nodes h ! 0) else None)"

definition mh_peek :: "'a max_heap \<Rightarrow> string + 'a" where
  "mh_peek h = (if mh_size h = 0 then Inl ''Collection is empty.'' else Inr (mh_nodes h ! 0))"

definition mh_pop :: "('a \<Rightarrow> 'a \<Rightarrow> int) \<Rightarrow> 'a max_heap \<Rightarrow> string + ('a \<times> 'a max_heap)" where
  "mh_pop cmp h =
     (if mh_size h = 0 then Inl ''Collection is empty.''
      else (let element = mh_nodes h ! 0; lastNodeIndex = mh_size h - 1; h1 = h\<lparr> mh_size := lastNodeIndex \<rparr>;
                h2 = (if 0 < lastNodeIndex then mh_moveDown cmp (mh_nodes h1 ! lastNodeIndex) 0 h1 else h1)
            in Inr (element, h2\<lparr> mh_index := js_set element (-1) (mh_index h2) \<rparr>)))"

definition mh_tryPop :: "('a \<Rightarrow> 'a \<Rightarrow> int) \<Rightarrow> 'a max_heap \<Rightarrow> 'a option \<times> 'a max_heap" where
  "mh_tryPop cmp h = (if 0 < mh_size h then (case mh_pop cmp h of Inr (e, h') \<Rightarrow> (Some e, h') | Inl _ \<Rightarrow> (None, h)) else (None, h))"

definition onDecreaseElementPriority :: "('a \<Rightarrow> 'a \<Rightarrow> int) \<Rightarrow> 'a \<Rightarrow> 'a max_heap \<Rightarrow> 'a max_heap" where
  "onDecreaseElementPriority cmp element h =
     (if heapIndex h element < 0 then h else mh_moveDown cmp element (nat (heapIndex h element)) h)"

definition onIncreaseElementPriority :: "('a \<Rightarrow> 'a \<Rightarrow> int) \<Rightarrow> 'a \<Rightarrow> 'a max_heap \<Rightarrow> 'a max_heap" where
  "onIncreaseElementPriority cmp element h =
     (if heapIndex h element \<le> 0 then h else mh_moveUp cmp element (nat (heapIndex h element)) h)"

definition unorderedElements :: "'a max_heap \<Rightarrow> 'a list" where
  "unorderedElements h = take (mh_size h) (mh_nodes h)"

text \<open>Taking everything off a heap.\<close>

function mh_drain :: "('a \<Rightarrow> 'a \<Rightarrow> int) \<Rightarrow> 'a max_heap \<Rightarrow> 'a list" where
  "mh_drain cmp h = (case mh_pop cmp h of Inl _ \<Rightarrow> [] | Inr (e, h') \<Rightarrow> e # mh_drain cmp h')"
  by pat_completeness auto
termination
  by (relation "measure (\<lambda>(_, h). mh_size h)")
     (auto simp: mh_pop_def mh_moveDown_def Let_def split: if_splits prod.splits)

declare mh_drain.simps [simp del]

section \<open>The order of scores\<close>

definition score_cmp :: "('a \<Rightarrow> int) \<Rightarrow> 'a \<Rightarrow> 'a \<Rightarrow> int" where
  "score_cmp score a b = score a - score b"

interpretation score_order: heap_order "above (score_cmp score)" for score :: "'a \<Rightarrow> int"
  by unfold_locales (auto simp: score_cmp_def)

definition mh_array :: "'a max_heap \<Rightarrow> ('a, 'a) heap_array" where
  "mh_array h = (mh_nodes h, mh_index h)"

definition mh_ok :: "('a \<Rightarrow> int) \<Rightarrow> 'a max_heap \<Rightarrow> bool" where
  "mh_ok score h \<longleftrightarrow> indexed (\<lambda>e. e) (mh_size h) (mh_array h) \<and> is_heap (above (score_cmp score)) (mh_size h) (mh_nodes h)
     \<and> (\<forall>e. e \<notin> set (unorderedElements h) \<longrightarrow> heapIndex h e < 0)"

lemma unordered_nth: "mh_size h \<le> length (mh_nodes h) \<Longrightarrow> j < mh_size h \<Longrightarrow> mh_nodes h ! j \<in> set (unorderedElements h)"
  by (force simp: unorderedElements_def in_set_conv_nth)

lemma unordered_iff:
  "mh_size h \<le> length (mh_nodes h) \<Longrightarrow> e \<in> set (unorderedElements h) \<longleftrightarrow> (\<exists>j<mh_size h. mh_nodes h ! j = e)"
  by (auto simp: unorderedElements_def in_set_conv_nth)

text \<open>An element is in the heap exactly when its index is not negative, and then it sits there.\<close>

lemma mh_ok_index:
  assumes "mh_ok score h" "0 \<le> heapIndex h e"
  shows "nat (heapIndex h e) < mh_size h \<and> mh_nodes h ! nat (heapIndex h e) = e"
proof -
  have "e \<in> set (unorderedElements h)" using assms by (force simp: mh_ok_def)
  moreover have l: "mh_size h \<le> length (mh_nodes h)" using assms(1) by (simp add: mh_ok_def indexed_def mh_array_def)
  ultimately obtain j where j: "j < mh_size h" "mh_nodes h ! j = e" by (auto simp: unordered_iff)
  then have "heapIndex h e = int j" using assms(1) by (auto simp: mh_ok_def indexed_def mh_array_def heapIndex_def)
  then show ?thesis using j by simp
qed

lemma mh_ok_mem: "mh_ok score h \<Longrightarrow> e \<in> set (unorderedElements h) \<longleftrightarrow> 0 \<le> heapIndex h e"
proof
  assume ok: "mh_ok score h" and e: "e \<in> set (unorderedElements h)"
  then show "0 \<le> heapIndex h e" by (auto simp: mh_ok_def indexed_def mh_array_def unordered_iff heapIndex_def)
next
  assume "mh_ok score h" "0 \<le> heapIndex h e"
  then show "e \<in> set (unorderedElements h)" by (force simp: mh_ok_def)
qed

section \<open>The two moves\<close>

text \<open>What a move needs: the array is indexed but for the node being placed, and the elements outside are
  known to be outside.\<close>

definition hole_at :: "'a \<Rightarrow> nat \<Rightarrow> 'a max_heap \<Rightarrow> bool" where
  "hole_at node i h \<longleftrightarrow> indexed_but (\<lambda>e. e) (mh_size h) i node (mh_array h)
     \<and> (\<forall>e. e \<notin> set (take (mh_size h) ((mh_nodes h)[i := node])) \<longrightarrow> heapIndex h e < 0)"

lemma hole_bounds: "hole_at node i h \<Longrightarrow> i < mh_size h \<and> mh_size h \<le> length (mh_nodes h)"
  by (simp add: hole_at_def indexed_but_def mh_array_def)

lemma mh_move_sel [simp]:
  "mh_size (mh_moveUp cmp node i h) = mh_size h" "mh_size (mh_moveDown cmp node i h) = mh_size h"
  "mh_array (mh_moveUp cmp node i h) = siftUp (above cmp) (\<lambda>e. e) node i (mh_array h)"
  "mh_array (mh_moveDown cmp node i h) = siftDown (above cmp) (\<lambda>e. e) (mh_size h) node i (mh_array h)"
  by (simp_all add: mh_moveUp_def mh_moveDown_def mh_array_def split: prod.splits)

lemma mh_nodes_array: "mh_nodes h = fst (mh_array h)" "mh_index h = snd (mh_array h)"
  by (simp_all add: mh_array_def)

lemma mh_moveDown_nodes:
  "hole_at node i h \<Longrightarrow> mh_nodes (mh_moveDown cmp node i h) = bubbleDown (above cmp) (mh_size h) i ((mh_nodes h)[i := node])"
  using siftDown_bubbleDown [of i "mh_size h" "mh_array h"] hole_bounds [of node i h] by (simp add: mh_nodes_array(1) [of "mh_moveDown cmp node i h"]) (simp add: mh_array_def)

lemma mh_moveUp_nodes:
  "hole_at node i h \<Longrightarrow> mh_nodes (mh_moveUp cmp node i h) = bubbleUp (above cmp) i ((mh_nodes h)[i := node])"
  using siftUp_bubbleUp [of i "mh_array h"] hole_bounds [of node i h] by (simp add: mh_nodes_array(1) [of "mh_moveUp cmp node i h"]) (simp add: mh_array_def)

lemma mh_moveDown_parts:
  assumes "hole_at node i h"
  shows "indexed (\<lambda>e. e) (mh_size h) (mh_array (mh_moveDown cmp node i h))"
    and "mset (unorderedElements (mh_moveDown cmp node i h)) = mset (take (mh_size h) ((mh_nodes h)[i := node]))"
    and "e \<notin> set (unorderedElements (mh_moveDown cmp node i h)) \<Longrightarrow> heapIndex (mh_moveDown cmp node i h) e < 0"
proof -
  let ?h = "mh_moveDown cmp node i h"
  have ib: "indexed_but (\<lambda>e. e) (mh_size h) i node (mh_array h)" using assms by (simp add: hole_at_def)
  show "indexed (\<lambda>e. e) (mh_size h) (mh_array ?h)" using siftDown_indexed [OF ib] by simp
  show m: "mset (unorderedElements ?h) = mset (take (mh_size h) ((mh_nodes h)[i := node]))"
    using hole_bounds [OF assms] by (simp add: unorderedElements_def mh_moveDown_nodes [OF assms] bubbleDown_mset)
  then have "set (unorderedElements ?h) = set (take (mh_size h) ((mh_nodes h)[i := node]))" by (rule mset_eq_setD)
  then show "e \<notin> set (unorderedElements ?h) \<Longrightarrow> heapIndex ?h e < 0"
    using assms siftDown_frame [OF ib, of e "above cmp"]
    by (simp add: hole_at_def heapIndex_def mh_nodes_array(2) [of ?h]) (simp add: mh_array_def)
qed

lemma mh_moveUp_parts:
  assumes "hole_at node i h"
  shows "indexed (\<lambda>e. e) (mh_size h) (mh_array (mh_moveUp cmp node i h))"
    and "mset (unorderedElements (mh_moveUp cmp node i h)) = mset (take (mh_size h) ((mh_nodes h)[i := node]))"
    and "e \<notin> set (unorderedElements (mh_moveUp cmp node i h)) \<Longrightarrow> heapIndex (mh_moveUp cmp node i h) e < 0"
proof -
  let ?h = "mh_moveUp cmp node i h"
  have ib: "indexed_but (\<lambda>e. e) (mh_size h) i node (mh_array h)" using assms by (simp add: hole_at_def)
  show "indexed (\<lambda>e. e) (mh_size h) (mh_array ?h)" using siftUp_indexed [OF ib] by simp
  show m: "mset (unorderedElements ?h) = mset (take (mh_size h) ((mh_nodes h)[i := node]))"
    using hole_bounds [OF assms] by (simp add: unorderedElements_def mh_moveUp_nodes [OF assms] bubbleUp_mset)
  then have "set (unorderedElements ?h) = set (take (mh_size h) ((mh_nodes h)[i := node]))" by (rule mset_eq_setD)
  then show "e \<notin> set (unorderedElements ?h) \<Longrightarrow> heapIndex ?h e < 0"
    using assms siftUp_frame [OF ib, of e "above cmp"]
    by (simp add: hole_at_def heapIndex_def mh_nodes_array(2) [of ?h]) (simp add: mh_array_def)
qed

text \<open>Replacing a node by itself.\<close>

lemma hole_at_self:
  assumes "indexed (\<lambda>e. e) (mh_size h) (mh_array h)" "\<forall>e. e \<notin> set (unorderedElements h) \<longrightarrow> heapIndex h e < 0" "i < mh_size h"
  shows "hole_at (mh_nodes h ! i) i h"
  using assms by (simp add: hole_at_def indexed_but_def indexed_def unorderedElements_def mh_array_def)

section \<open>Reprioritisation\<close>

lemma score_heap_iff:
  "is_heap (above (score_cmp score)) n xs \<longleftrightarrow> (\<forall>j. 0 < j \<and> j < n \<longrightarrow> score (xs ! j) \<le> score (xs ! getParentIndex j))"
  by (auto simp: heap_from_def score_cmp_def not_less)

lemma score_heap_trans:
  assumes "is_heap (above (score_cmp score)) n xs" "0 < j" "j < n" "0 < getParentIndex j"
  shows "score (xs ! j) \<le> score (xs ! getParentIndex (getParentIndex j))"
proof -
  have "getParentIndex j < j" using assms(2) by (rule getParentIndex_less)
  then have "score (xs ! j) \<le> score (xs ! getParentIndex j)" "score (xs ! getParentIndex j) \<le> score (xs ! getParentIndex (getParentIndex j))"
    using assms by (auto simp: score_heap_iff)
  then show ?thesis by simp
qed

text \<open>Changing the score of one slot breaks the heap at that slot only.\<close>

lemma score_but_down:
  assumes H: "is_heap (above (score_cmp score)) n xs"
    and same: "\<And>j. j < n \<Longrightarrow> j \<noteq> i \<Longrightarrow> score' (xs ! j) = score (xs ! j)" and le: "score' (xs ! i) \<le> score (xs ! i)"
  shows "heap_but_down (above (score_cmp score')) 0 n i xs"
proof -
  have below: "score' (xs ! j) \<le> score (xs ! j)" if "j < n" for j using same [OF that] le by (cases "j = i") auto
  have "score' (xs ! j) \<le> score' (xs ! getParentIndex j)" if j: "0 < j" "j < n" "getParentIndex j \<noteq> i" for j
  proof -
    have "getParentIndex j < n" using getParentIndex_less [OF j(1)] j(2) by simp
    moreover have "score (xs ! j) \<le> score (xs ! getParentIndex j)" using H j by (simp add: score_heap_iff)
    ultimately show ?thesis using below [OF j(2)] same [of "getParentIndex j"] j(3) by simp
  qed
  moreover have "score' (xs ! j) \<le> score' (xs ! getParentIndex i)" if j: "0 < j" "j < n" "getParentIndex j = i" "0 < i" for j
  proof -
    have p: "getParentIndex i < i" "i < n" using getParentIndex_less [OF j(1)] getParentIndex_less [OF j(4)] j by simp_all
    have "score (xs ! j) \<le> score (xs ! getParentIndex i)" using score_heap_trans [OF H j(1,2)] j(3,4) by simp
    then show ?thesis using below [OF j(2)] same [of "getParentIndex i"] p by simp
  qed
  ultimately show ?thesis by (auto simp: heap_but_down_def score_cmp_def not_less)
qed

lemma score_but_up:
  assumes H: "is_heap (above (score_cmp score)) n xs"
    and same: "\<And>j. j < n \<Longrightarrow> j \<noteq> i \<Longrightarrow> score' (xs ! j) = score (xs ! j)" and le: "score (xs ! i) \<le> score' (xs ! i)"
  shows "heap_but_up (above (score_cmp score')) n i xs"
proof -
  have over: "score (xs ! j) \<le> score' (xs ! j)" if "j < n" for j using same [OF that] le by (cases "j = i") auto
  have "score' (xs ! j) \<le> score' (xs ! getParentIndex j)" if j: "0 < j" "j < n" "j \<noteq> i" for j
  proof -
    have "getParentIndex j < n" using getParentIndex_less [OF j(1)] j(2) by simp
    moreover have "score (xs ! j) \<le> score (xs ! getParentIndex j)" using H j by (simp add: score_heap_iff)
    ultimately show ?thesis using over [of "getParentIndex j"] same [OF j(2,3)] by simp
  qed
  moreover have "score' (xs ! j) \<le> score' (xs ! getParentIndex i)" if j: "0 < j" "j < n" "getParentIndex j = i" "0 < i" for j
  proof -
    have p: "getParentIndex i < n" "j \<noteq> i" using getParentIndex_less [OF j(1)] getParentIndex_less [OF j(4)] j by simp_all
    have "score (xs ! j) \<le> score (xs ! getParentIndex i)" using score_heap_trans [OF H j(1,2)] j(3,4) by simp
    then show ?thesis using same [OF j(2) p(2)] over [OF p(1)] by simp
  qed
  ultimately show ?thesis by (auto simp: heap_but_up_def score_cmp_def not_less)
qed

text \<open>The heap's elements, and an element's own slot.\<close>

lemma mh_ok_nth_neq:
  assumes "mh_ok score h" "j < mh_size h" "k < mh_size h" "j \<noteq> k"
  shows "mh_nodes h ! j \<noteq> mh_nodes h ! k"
  using assms by (simp add: mh_ok_def indexed_def mh_array_def distinct_conv_nth)

lemma mh_ok_hole: "mh_ok score h \<Longrightarrow> 0 \<le> heapIndex h e \<Longrightarrow> hole_at e (nat (heapIndex h e)) h"
  using hole_at_self [of h "nat (heapIndex h e)"] mh_ok_index [of score h e] by (auto simp: mh_ok_def)

lemma mh_ok_rescore_outside:
  assumes "mh_ok score h" "\<And>x. x \<noteq> e \<Longrightarrow> score' x = score x" "heapIndex h e < 0"
  shows "mh_ok score' h"
proof -
  have l: "mh_size h \<le> length (mh_nodes h)" using assms(1) by (simp add: mh_ok_def indexed_def mh_array_def)
  have "mh_nodes h ! j \<noteq> e" if "j < mh_size h" for j
    using mh_ok_mem [OF assms(1)] unordered_nth [OF l that] assms(3) by auto
  then have "score' (mh_nodes h ! j) = score (mh_nodes h ! j)" if "j < mh_size h" for j using assms(2) that by simp
  moreover have "getParentIndex j < mh_size h" if "0 < j" "j < mh_size h" for j using getParentIndex_less [OF that(1)] that(2) by simp
  ultimately show ?thesis using assms(1) by (simp add: mh_ok_def score_heap_iff)
qed

text \<open>The scores of all slots but the element's own are unchanged.\<close>

lemma rescored_slot:
  assumes "mh_ok score h" "\<And>x. x \<noteq> e \<Longrightarrow> score' x = score x" "0 \<le> heapIndex h e" "j < mh_size h" "j \<noteq> nat (heapIndex h e)"
  shows "score' (mh_nodes h ! j) = score (mh_nodes h ! j)"
  using mh_ok_nth_neq [OF assms(1,4), of "nat (heapIndex h e)"] mh_ok_index [OF assms(1,3)] assms(2,5) by simp

lemma decrease_ok:
  assumes ok: "mh_ok score h" and eq: "\<And>x. x \<noteq> e \<Longrightarrow> score' x = score x" and le: "score' e \<le> score e"
  shows "mh_ok score' (onDecreaseElementPriority (score_cmp score') e h)
    \<and> mset (unorderedElements (onDecreaseElementPriority (score_cmp score') e h)) = mset (unorderedElements h)"
proof (cases "heapIndex h e < 0")
  case True
  then show ?thesis using mh_ok_rescore_outside [OF ok eq True] by (simp add: onDecreaseElementPriority_def)
next
  case False
  let ?i = "nat (heapIndex h e)" and ?n = "mh_size h" and ?xs = "mh_nodes h"
  have i: "?i < ?n" "?xs ! ?i = e" using mh_ok_index [OF ok] False by auto
  have slot: "score' (?xs ! j) = score (?xs ! j)" if "j < ?n" "j \<noteq> ?i" "0 \<le> heapIndex h e" for j
    by (rule rescored_slot [OF ok eq that(3,1,2)])
  have H: "is_heap (above (score_cmp score)) ?n ?xs" using ok by (simp add: mh_ok_def)
  have "heap_but_down (above (score_cmp score')) 0 ?n ?i ?xs"
    by (rule score_but_down [OF H]) (use slot False le i in simp_all)
  moreover have hole: "hole_at e ?i h" using mh_ok_hole [OF ok] False by simp
  moreover have "?xs[?i := e] = ?xs" using i by (metis list_update_id)
  ultimately have "is_heap (above (score_cmp score')) ?n (mh_nodes (mh_moveDown (score_cmp score') e ?i h))"
    using score_order.bubbleDown_heap [of score' 0 ?n ?i ?xs] hole_bounds [OF hole] i by (simp add: mh_moveDown_nodes)
  then show ?thesis
    using mh_moveDown_parts [OF hole, where cmp = "score_cmp score'"] False i \<open>?xs[?i := e] = ?xs\<close>
    by (simp add: onDecreaseElementPriority_def mh_ok_def unorderedElements_def)
qed

lemma increase_ok:
  assumes ok: "mh_ok score h" and eq: "\<And>x. x \<noteq> e \<Longrightarrow> score' x = score x" and le: "score e \<le> score' e"
  shows "mh_ok score' (onIncreaseElementPriority (score_cmp score') e h)
    \<and> mset (unorderedElements (onIncreaseElementPriority (score_cmp score') e h)) = mset (unorderedElements h)"
proof -
  let ?i = "nat (heapIndex h e)" and ?n = "mh_size h" and ?xs = "mh_nodes h"
  have slot: "score' (?xs ! j) = score (?xs ! j)" if "j < ?n" "j \<noteq> ?i" "0 \<le> heapIndex h e" for j
    by (rule rescored_slot [OF ok eq that(3,1,2)])
  have H: "is_heap (above (score_cmp score)) ?n ?xs" using ok by (simp add: mh_ok_def)
  consider "heapIndex h e < 0" | "heapIndex h e = 0" | "0 < heapIndex h e" by linarith
  then show ?thesis
  proof cases
    case 1
    then show ?thesis using mh_ok_rescore_outside [OF ok eq 1] by (simp add: onIncreaseElementPriority_def)
  next
    case 2
    have i: "0 < ?n" "?xs ! 0 = e" using mh_ok_index [OF ok, of e] 2 by auto
    have "heap_but_up (above (score_cmp score')) ?n 0 ?xs"
      by (rule score_but_up [OF H]) (use slot 2 le i in simp_all)
    then have "score' (?xs ! j) \<le> score' (?xs ! getParentIndex j)" if j: "0 < j" "j < ?n" for j
      using j by (auto simp: heap_but_up_def score_cmp_def not_less)
    then show ?thesis using ok 2 by (simp add: onIncreaseElementPriority_def mh_ok_def score_heap_iff)
  next
    case 3
    have i: "?i < ?n" "?xs ! ?i = e" using mh_ok_index [OF ok] 3 by auto
    have "heap_but_up (above (score_cmp score')) ?n ?i ?xs"
      by (rule score_but_up [OF H]) (use slot 3 le i in simp_all)
    moreover have hole: "hole_at e ?i h" using mh_ok_hole [OF ok] 3 by simp
    moreover have "?xs[?i := e] = ?xs" using i by (metis list_update_id)
    ultimately have "is_heap (above (score_cmp score')) ?n (mh_nodes (mh_moveUp (score_cmp score') e ?i h))"
      using score_order.bubbleUp_heap [of score' ?n ?i ?xs] hole_bounds [OF hole] i by (simp add: mh_moveUp_nodes)
    then show ?thesis
      using mh_moveUp_parts [OF hole, where cmp = "score_cmp score'"] 3 i \<open>?xs[?i := e] = ?xs\<close>
      by (simp add: onIncreaseElementPriority_def mh_ok_def unorderedElements_def)
  qed
qed

section \<open>Pop\<close>

lemma take_update_first:
  assumes "0 < n" "n < length xs"
  shows "mset (take (Suc n) xs) = add_mset (xs ! 0) (mset (take n (xs[0 := xs ! n])))"
proof -
  have "take (Suc n) xs = take n xs @ [xs ! n]" using assms by (simp add: take_Suc_conv_app_nth)
  moreover have "take n xs = xs ! 0 # tl (take n xs)" using assms by (cases "take n xs"; cases xs; cases n) auto
  moreover have "take n (xs[0 := xs ! n]) = xs ! n # tl (take n xs)" using assms by (cases xs; cases n) auto
  ultimately show ?thesis by (metis add_mset_commute mset.simps(2) mset_append mset_single_iff_right union_mset_add_mset_right mset.simps(1) add.right_neutral)
qed

lemma pop_ok:
  assumes ok: "mh_ok score h" and n: "0 < mh_size h"
  obtains e h' where "mh_pop (score_cmp score) h = Inr (e, h')" "mh_ok score h'" "mh_size h' = mh_size h - 1"
    "mset (unorderedElements h) = add_mset e (mset (unorderedElements h'))" "\<And>x. x \<in> set (unorderedElements h) \<Longrightarrow> score x \<le> score e"
proof -
  let ?m = "mh_size h - 1" and ?xs = "mh_nodes h" and ?h1 = "h\<lparr> mh_size := mh_size h - 1 \<rparr>"
  let ?h2 = "if 0 < ?m then mh_moveDown (score_cmp score) (?xs ! ?m) 0 ?h1 else ?h1"
  let ?h' = "?h2\<lparr> mh_index := js_set (?xs ! 0) (-1) (mh_index ?h2) \<rparr>"
  have l: "mh_size h \<le> length ?xs" and d: "distinct (take (mh_size h) ?xs)"
    and ix: "\<And>j. j < mh_size h \<Longrightarrow> js_get (mh_index h) (?xs ! j) = Some (int j)"
    and H: "is_heap (above (score_cmp score)) (mh_size h) ?xs"
    and out: "\<And>e. e \<notin> set (unorderedElements h) \<Longrightarrow> heapIndex h e < 0"
    using ok by (auto simp: mh_ok_def indexed_def mh_array_def)
  have root: "score x \<le> score (?xs ! 0)" if "x \<in> set (unorderedElements h)" for x
    using score_order.heap_root [OF H] that by (auto simp: unordered_iff [OF l] score_cmp_def not_less)
  have pop: "mh_pop (score_cmp score) h = Inr (?xs ! 0, ?h')" using n by (simp add: mh_pop_def Let_def)
  show thesis
  proof (cases "?m = 0")
    case True
    then have m1: "mh_size h = 1" using n by simp
    have sz: "unorderedElements h = [?xs ! 0]" using l by (cases ?xs) (simp_all add: unorderedElements_def m1)
    have "mh_ok score ?h'"
      using out m1 unfolding sz by (simp add: mh_ok_def indexed_def mh_array_def unorderedElements_def heap_from_def heapIndex_def js_get_set)
    then show thesis using that [OF pop] root sz m1 True by (simp add: unorderedElements_def)
  next
    case False
    let ?V = "?xs[0 := ?xs ! ?m]"
    have ms: "mset (unorderedElements h) = add_mset (?xs ! 0) (mset (take ?m ?V))"
      using take_update_first [of ?m ?xs] False l n by (simp add: unorderedElements_def)
    then have st: "set (unorderedElements h) = insert (?xs ! 0) (set (take ?m ?V))" by (metis set_mset_add_mset_insert set_mset_mset)
    have "distinct (?xs ! 0 # take ?m ?V)" using d ms mset_eq_imp_distinct_iff [of "take (mh_size h) ?xs" "?xs ! 0 # take ?m ?V"]
      by (simp add: unorderedElements_def)
    then have dV: "distinct (take ?m ?V)" "?xs ! 0 \<notin> set (take ?m ?V)" by simp_all
    have neq0: "?xs ! j \<noteq> ?xs ! 0" if "0 < j" "j < mh_size h" for j using mh_ok_nth_neq [OF ok that(2) n] that(1) by simp
    have out1: "heapIndex h e < 0" if "e \<notin> insert (?xs ! 0) (set (take ?m ?V))" for e using out st that by simp
    have hole: "indexed_but (\<lambda>e. e) ?m 0 (?xs ! ?m) (mh_array ?h1)"
      using dV(1) ix l False by (auto simp: indexed_but_def mh_array_def)
    note S = siftDown_indexed [OF hole] siftDown_frame [OF hole]
    have nodes: "mh_nodes ?h2 = bubbleDown (above (score_cmp score)) ?m 0 ?V"
      using siftDown_bubbleDown [of 0 ?m "mh_array ?h1"] False l by (simp add: mh_nodes_array(1) [of "mh_moveDown _ _ _ _"]) (simp add: mh_array_def)
    have els: "mset (unorderedElements ?h2) = mset (take ?m ?V)"
      using False l by (simp only: unorderedElements_def nodes) (simp add: bubbleDown_mset)
    then have sels: "set (unorderedElements ?h2) = set (take ?m ?V)" by (rule mset_eq_setD)
    have "heap_but_down (above (score_cmp score)) 0 ?m 0 ?V"
      using H by (simp add: heap_but_down_def heap_from_def) auto
    then have "is_heap (above (score_cmp score)) ?m (mh_nodes ?h2)"
      unfolding nodes using score_order.bubbleDown_heap [of score 0 ?m 0 ?V] False l by simp
    moreover have arr: "mh_array ?h2 = siftDown (above (score_cmp score)) (\<lambda>e. e) ?m (?xs ! ?m) 0 (mh_array ?h1)" using False by simp
    have A1: "indexed (\<lambda>e. e) ?m (mh_array ?h2)" unfolding arr by (rule S(1))
    have "js_get (snd (mh_array ?h2)) e = js_get (mh_index h) e" if "e \<notin> set (take ?m ?V)" for e
      unfolding arr using S(2) [of e] that by (simp add: mh_array_def)
    then have A2: "\<And>e. e \<notin> set (take ?m ?V) \<Longrightarrow> js_get (mh_index ?h2) e = js_get (mh_index h) e" by (simp only: mh_nodes_array(2) [of ?h2])
    note A = A1 A2
    have "mh_nodes ?h2 ! j \<noteq> ?xs ! 0" if "j < ?m" for j
    proof -
      have "mh_nodes ?h2 ! j \<in> set (unorderedElements ?h2)" by (rule unordered_nth) (use A(1) that False in \<open>auto simp: indexed_def mh_array_def\<close>)
      then show ?thesis using sels dV(2) by auto
    qed
    then have "indexed (\<lambda>e. e) ?m (mh_array ?h')" using A(1) by (simp add: indexed_def mh_array_def js_get_set)
    moreover have "heapIndex ?h' e < 0" if "e \<notin> set (unorderedElements ?h')" for e
    proof (cases "e = ?xs ! 0")
      case True
      then show ?thesis by (simp add: heapIndex_def js_get_set)
    next
      case neq: False
      have e: "e \<notin> set (take ?m ?V)" using that sels by (simp add: unorderedElements_def)
      have "heapIndex ?h' e = heapIndex h e" using A(2) [OF e] neq by (simp add: heapIndex_def js_get_set)
      then show ?thesis using out1 [of e] e neq by simp
    qed
    ultimately have "mh_ok score ?h'" using False by (simp add: mh_ok_def)
    moreover have "mset (unorderedElements ?h') = mset (take ?m ?V)" using els by (simp add: unorderedElements_def)
    ultimately show thesis using that [OF pop] ms root False by simp
  qed
qed

section \<open>Construction\<close>

definition partly_heap :: "('a \<Rightarrow> int) \<Rightarrow> nat \<Rightarrow> 'a max_heap \<Rightarrow> bool" where
  "partly_heap score m h \<longleftrightarrow> indexed (\<lambda>e. e) (mh_size h) (mh_array h) \<and> heap_from (above (score_cmp score)) m (mh_size h) (mh_nodes h)
     \<and> (\<forall>e. e \<notin> set (unorderedElements h) \<longrightarrow> heapIndex h e < 0)"

lemma partly_heap_0: "partly_heap score 0 h = mh_ok score h"
  by (simp add: partly_heap_def mh_ok_def)

lemma heapify_step:
  assumes "partly_heap score (Suc m) h" "m < mh_size h"
  shows "partly_heap score m (mh_moveDown (score_cmp score) (mh_nodes h ! m) m h)
    \<and> mset (unorderedElements (mh_moveDown (score_cmp score) (mh_nodes h ! m) m h)) = mset (unorderedElements h)"
proof -
  let ?n = "mh_size h" and ?xs = "mh_nodes h"
  have hole: "hole_at (?xs ! m) m h" by (rule hole_at_self) (use assms in \<open>auto simp: partly_heap_def\<close>)
  have "\<not> m \<le> getParentIndex m" if "0 < m" using getParentIndex_less [OF that] by simp
  then have "heap_but_down (above (score_cmp score)) m ?n m ?xs"
    using assms(1) by (auto simp: heap_but_down_def partly_heap_def heap_from_def)
  then have "heap_from (above (score_cmp score)) m ?n (mh_nodes (mh_moveDown (score_cmp score) (?xs ! m) m h))"
    using score_order.bubbleDown_heap [of score m ?n m ?xs] hole_bounds [OF hole] by (simp add: mh_moveDown_nodes [OF hole])
  then show ?thesis
    using mh_moveDown_parts [OF hole, where cmp = "score_cmp score"] by (simp add: partly_heap_def unorderedElements_def)
qed

lemma heapify_loop:
  "partly_heap score m h \<Longrightarrow> m \<le> mh_size h \<Longrightarrow>
   (let h' = foldl (\<lambda>h i. mh_moveDown (score_cmp score) (mh_nodes h ! i) i h) h (rev [0..<m])
    in mh_ok score h' \<and> mset (unorderedElements h') = mset (unorderedElements h))"
proof (induction m arbitrary: h)
  case 0
  then show ?case by (simp add: partly_heap_0)
next
  case (Suc m)
  then show ?case using heapify_step [of score m h] by (simp add: Let_def)
qed

lemma initial_index:
  assumes "distinct items" "n \<le> length items"
  shows "js_get (foldl (\<lambda>ix i. js_set (items ! i) (int i) ix) [] [0..<n]) e =
    (if \<exists>j<n. items ! j = e then Some (int (LEAST j. j < n \<and> items ! j = e)) else None)"
  using assms(2)
proof (induction n)
  case (Suc n)
  show ?case
  proof (cases "items ! n = e")
    case True
    have "(LEAST j. j < Suc n \<and> items ! j = e) = n"
      by (rule Least_equality) (use True Suc.prems assms(1) in \<open>auto simp: nth_eq_iff_index_eq\<close>)
    with True show ?thesis by (auto simp: js_get_set)
  next
    case False
    then have "(j < Suc n \<and> items ! j = e) = (j < n \<and> items ! j = e)" for j using less_Suc_eq by auto
    with False Suc show ?thesis by (simp add: js_get_set)
  qed
qed simp

lemma newMaxHeap_ok:
  assumes "distinct items"
  shows "mh_ok score (newMaxHeap (score_cmp score) items) \<and> mset (unorderedElements (newMaxHeap (score_cmp score) items)) = mset items"
proof -
  define h where "h = \<lparr> mh_nodes = items, mh_size = length items,
     mh_index = foldl (\<lambda>ix i. js_set (items ! i) (int i) ix) [] [0..<length items] \<rparr>"
  have ix: "js_get (mh_index h) (items ! j) = Some (int j)" if "j < length items" for j
  proof -
    have "(LEAST k. k < length items \<and> items ! k = items ! j) = j"
      by (rule Least_equality) (use that assms in \<open>auto simp: nth_eq_iff_index_eq\<close>)
    then show ?thesis using initial_index [OF assms order.refl, of "items ! j"] that by (auto simp: h_def)
  qed
  have out: "heapIndex h e < 0" if "e \<notin> set items" for e
    using initial_index [OF assms order.refl, of e] that by (auto simp: h_def heapIndex_def)
  have part: "partly_heap score m h" if "\<And>j. 0 < j \<Longrightarrow> j < length items \<Longrightarrow> getParentIndex j < m" for m
  proof -
    have "indexed (\<lambda>e. e) (mh_size h) (mh_array h)" using ix assms by (simp add: indexed_def mh_array_def) (simp add: h_def)
    moreover have "heap_from (above (score_cmp score)) m (mh_size h) (mh_nodes h)" 
      unfolding heap_from_def using that by (metis h_def max_heap.select_convs(2) not_le)
    moreover have "unorderedElements h = items" by (simp add: unorderedElements_def h_def)
    ultimately show ?thesis using out by (simp add: partly_heap_def)
  qed
  consider "length items = 0" | "length items = 1" | "1 < length items" by linarith
  then show ?thesis
  proof cases
    case 1
    then show ?thesis using part [of 0] by (simp add: newMaxHeap_def h_def partly_heap_0 unorderedElements_def)
  next
    case 2
    then have "mh_ok score h" using part [of 0] by (simp add: partly_heap_0)
    moreover have "js_set (mh_nodes h ! 0) 0 (mh_index h) = mh_index h" using 2 by (simp add: h_def)
    ultimately show ?thesis using 2 by (simp add: newMaxHeap_def h_def unorderedElements_def)
  next
    case 3
    let ?m = "getParentIndex (length items - 1) + 1"
    have "partly_heap score ?m h" by (rule part) (auto simp: getParentIndex_def le_imp_less_Suc div_le_mono)
    moreover have "?m \<le> mh_size h" using 3 getParentIndex_less [of "length items - 1"] by (simp add: h_def)
    moreover have "newMaxHeap (score_cmp score) items = mh_heapify (score_cmp score) h" using 3 by (simp add: newMaxHeap_def h_def)
    moreover have "mh_size h = length items" "unorderedElements h = items" by (simp_all add: h_def unorderedElements_def)
    ultimately show ?thesis using heapify_loop [of score ?m h] by (simp add: Let_def mh_heapify_def)
  qed
qed

section \<open>Properties\<close>

lemma drain_sorted:
  "mh_ok score h \<Longrightarrow> mset (mh_drain (score_cmp score) h) = mset (unorderedElements h)
     \<and> sorted_wrt (\<lambda>a b. score b \<le> score a) (mh_drain (score_cmp score) h)"
proof (induction "mh_size h" arbitrary: h)
  case 0
  then show ?case by (subst (1 2) mh_drain.simps) (simp add: mh_pop_def unorderedElements_def)
next
  case (Suc n)
  have pos: "0 < mh_size h" using Suc.hyps(2) by simp
  obtain e h' where p: "mh_pop (score_cmp score) h = Inr (e, h')" "mh_ok score h'" "mh_size h' = mh_size h - 1"
    "mset (unorderedElements h) = add_mset e (mset (unorderedElements h'))" "\<And>x. x \<in> set (unorderedElements h) \<Longrightarrow> score x \<le> score e"
    by (rule pop_ok [OF Suc.prems pos]) blast
  have IH: "mset (mh_drain (score_cmp score) h') = mset (unorderedElements h')" "sorted_wrt (\<lambda>a b. score b \<le> score a) (mh_drain (score_cmp score) h')"
    using Suc.hyps(1) [of h'] p(2,3) Suc.hyps(2) by simp_all
  have "set (mh_drain (score_cmp score) h') \<subseteq> set (unorderedElements h)" using IH(1) p(4) by (metis mset_eq_setD set_mset_add_mset_insert set_mset_mset subset_insertI)
  then show ?case using IH p(1,4,5) by (subst (1 2) mh_drain.simps) auto
qed

text \<open>Building a heap from distinct elements and popping it empty yields every element exactly once,
  best score first.\<close>

theorem max_heap_sorts:
  assumes "distinct items"
  shows "mset (mh_drain (score_cmp score) (newMaxHeap (score_cmp score) items)) = mset items
    \<and> sorted_wrt (\<lambda>a b. score b \<le> score a) (mh_drain (score_cmp score) (newMaxHeap (score_cmp score) items))"
  using drain_sorted newMaxHeap_ok [OF assms] by metis

theorem max_heap_sorts_witness:
  "mh_drain (score_cmp (\<lambda>x::int. x)) (newMaxHeap (score_cmp (\<lambda>x. x)) [3, 9, 1, 7, 5, 8]) = [9, 8, 7, 5, 3, 1]
   \<and> mset (mh_drain (score_cmp (\<lambda>x::int. x)) (newMaxHeap (score_cmp (\<lambda>x. x)) [3, 9, 1, 7, 5, 8])) = {#3, 9, 1, 7, 5, 8#}"
proof
  show "mh_drain (score_cmp (\<lambda>x::int. x)) (newMaxHeap (score_cmp (\<lambda>x. x)) [3, 9, 1, 7, 5, 8]) = [9, 8, 7, 5, 3, 1]" by code_simp
  show "mset (mh_drain (score_cmp (\<lambda>x::int. x)) (newMaxHeap (score_cmp (\<lambda>x. x)) [3, 9, 1, 7, 5, 8])) = {#3, 9, 1, 7, 5, 8#}"
    using max_heap_sorts [of "[3, 9, 1, 7, 5, 8]" "\<lambda>x::int. x"] by simp
qed

end
