(* ===== verification/Frequent_Items.thy ===== *)
theory Frequent_Items
  imports Quaternary_Heap "HOL-Library.Word"
begin

unbundle bit_operations_syntax

text \<open>
  The top-K sketch of \<^verbatim>\<open>runtime/src/placement/repartitioning/frequent-item-collection.ts\<close>: a bounded min-heap of
  counters with an index by key, and a count sketch that filters newcomers. The abstract method \<open>getKey\<close> is the
  parameter \<open>key\<close>; keys and counts are integers. The sketch is a \<open>Uint32Array\<close>: stores wrap at 32
  bits, while the counts of the heap are numbers. The size of the sketch is taken for capacities whose sketch
  fits a positive 32-bit shift (below \<open>2 ^ 30\<close> entries).

  Shown for every sequence of additions and removals: the index is exact, keys are tracked once, the
  capacity is never exceeded. The heap order itself is not kept: \<open>add\<close> moves an incremented counter towards
  the root of a min-heap, and a run shows the most frequent element being evicted.
\<close>

record 'e counter =
  ct_element :: 'e
  ct_count :: int
  ct_error :: int

definition counter_rank :: "'e counter \<Rightarrow> int" where
  "counter_rank c = push_bit 32 (ct_count c) OR (0xffffffff - ct_error c)"

definition compareCounters :: "'e counter \<Rightarrow> 'e counter \<Rightarrow> int" where
  "compareCounters a b = (let av = counter_rank a; bv = counter_rank b in if av < bv then -1 else if bv < av then 1 else 0)"

definition bigintHashCode :: "int \<Rightarrow> 32 word" where
  "bigintHashCode key = word_of_int key XOR word_of_int (drop_bit 32 key)"

text \<open>\<open>32 - Math.clz32(n)\<close>: the number of bits of \<open>n\<close>.\<close>

function bitLength :: "int \<Rightarrow> nat" where
  "bitLength n = (if n \<le> 0 then 0 else Suc (bitLength (n div 2)))"
  by pat_completeness auto
termination
  by (relation "measure nat") auto

declare bitLength.simps [simp del]

definition SKETCH_ENTRIES_PER_HEAP_ENTRY :: int where
  "SKETCH_ENTRIES_PER_HEAP_ENTRY = 6"

definition getSketchSize :: "nat \<Rightarrow> nat" where
  "getSketchSize capacity = 2 ^ bitLength (int capacity * SKETCH_ENTRIES_PER_HEAP_ENTRY)"

record 'e frequent_items =
  fi_capacity :: nat
  fi_heap :: "'e counter list"
  fi_index :: "(int, int) js_map"
  fi_sketch :: "int list"

definition newFrequentItems :: "nat \<Rightarrow> 'e frequent_items" where
  "newFrequentItems capacity = \<lparr> fi_capacity = capacity, fi_heap = [], fi_index = [],
     fi_sketch = replicate (getSketchSize capacity) 0 \<rparr>"

definition fi_count :: "'e frequent_items \<Rightarrow> nat" where
  "fi_count c = length (fi_heap c)"

definition sketch_slot :: "'e frequent_items \<Rightarrow> int \<Rightarrow> nat" where
  "sketch_slot c key = nat (uint (bigintHashCode key AND word_of_int (int (length (fi_sketch c)) - 1)))"

definition sketch_put :: "int \<Rightarrow> int \<Rightarrow> 'e frequent_items \<Rightarrow> 'e frequent_items" where
  "sketch_put key v c = c\<lparr> fi_sketch := (fi_sketch c)[sketch_slot c key := v mod 2 ^ 32] \<rparr>"

abbreviation rarer :: "'e counter \<Rightarrow> 'e counter \<Rightarrow> bool" where
  "rarer \<equiv> \<lambda>a b. compareCounters a b < 0"

abbreviation ckey :: "('e \<Rightarrow> int) \<Rightarrow> 'e counter \<Rightarrow> int" where
  "ckey key \<equiv> \<lambda>c. key (ct_element c)"

definition moveUpHeap :: "('e \<Rightarrow> int) \<Rightarrow> 'e counter \<Rightarrow> nat \<Rightarrow> 'e frequent_items \<Rightarrow> 'e frequent_items" where
  "moveUpHeap key node nodeIndex c =
     (let (heap, index) = siftUp rarer (ckey key) node nodeIndex (fi_heap c, fi_index c) in c\<lparr> fi_heap := heap, fi_index := index \<rparr>)"

definition moveDownHeap :: "('e \<Rightarrow> int) \<Rightarrow> 'e counter \<Rightarrow> nat \<Rightarrow> 'e frequent_items \<Rightarrow> 'e frequent_items" where
  "moveDownHeap key node nodeIndex c =
     (let (heap, index) = siftDown rarer (ckey key) (length (fi_heap c)) node nodeIndex (fi_heap c, fi_index c)
      in c\<lparr> fi_heap := heap, fi_index := index \<rparr>)"

definition insertHeap :: "('e \<Rightarrow> int) \<Rightarrow> 'e counter \<Rightarrow> 'e frequent_items \<Rightarrow> 'e frequent_items" where
  "insertHeap key counter c = (let index = length (fi_heap c) in moveUpHeap key counter index (c\<lparr> fi_heap := fi_heap c @ [counter] \<rparr>))"

text \<open>With capacity 0 the source reads the minimum of an empty heap and throws; that is \<open>None\<close>.\<close>

definition fi_add :: "('e \<Rightarrow> int) \<Rightarrow> 'e \<Rightarrow> 'e frequent_items \<Rightarrow> 'e frequent_items option" where
  "fi_add key element c =
     (let k = key element in
      case js_get (fi_index c) k of
        Some existing \<Rightarrow>
          (let counter = fi_heap c ! nat existing; counter' = counter\<lparr> ct_count := ct_count counter + 1 \<rparr> in
           Some (moveUpHeap key counter' (nat existing) (c\<lparr> fi_heap := (fi_heap c)[nat existing := counter'] \<rparr>)))
      | None \<Rightarrow>
          if fi_count c < fi_capacity c then Some (insertHeap key \<lparr> ct_element = element, ct_count = 1, ct_error = 0 \<rparr> c)
          else if fi_heap c = [] then None
          else (let min = fi_heap c ! 0; estimate = fi_sketch c ! sketch_slot c k in
                if estimate + 1 < ct_count min then Some (sketch_put k (estimate + 1) c)
                else (let minKey = key (ct_element min);
                          c1 = c\<lparr> fi_index := js_delete minKey (fi_index c) \<rparr>;
                          c2 = sketch_put minKey (ct_count min) c1
                      in Some (moveDownHeap key \<lparr> ct_element = element, ct_count = estimate + 1, ct_error = estimate \<rparr> 0 c2))))"

definition removeCore :: "('e \<Rightarrow> int) \<Rightarrow> int \<Rightarrow> 'e frequent_items \<Rightarrow> 'e frequent_items \<times> bool" where
  "removeCore key k c =
     (let c1 = sketch_put k 0 c in
      case js_get (fi_index c1) k of
        None \<Rightarrow> (c1, False)
      | Some index \<Rightarrow>
          (let newSize = length (fi_heap c1) - 1; lastNode = fi_heap c1 ! newSize;
               c2 = c1\<lparr> fi_index := js_delete k (fi_index c1), fi_heap := take newSize (fi_heap c1) \<rparr>
           in (if nat index < newSize then moveDownHeap key lastNode (nat index) c2 else c2, True)))"

definition clearCore :: "'e frequent_items \<Rightarrow> 'e frequent_items" where
  "clearCore c = c\<lparr> fi_heap := [], fi_index := [], fi_sketch := replicate (length (fi_sketch c)) 0 \<rparr>"

definition fi_elements :: "'e frequent_items \<Rightarrow> 'e counter list" where
  "fi_elements c = fi_heap c"

section \<open>The invariant\<close>

definition fi_array :: "'e frequent_items \<Rightarrow> ('e counter, int) heap_array" where
  "fi_array c = (fi_heap c, fi_index c)"

definition fi_ok :: "('e \<Rightarrow> int) \<Rightarrow> 'e frequent_items \<Rightarrow> bool" where
  "fi_ok key c \<longleftrightarrow> indexed (ckey key) (length (fi_heap c)) (fi_array c)
     \<and> (\<forall>k. js_get (fi_index c) k \<noteq> None \<longleftrightarrow> k \<in> ckey key ` set (fi_heap c)) \<and> length (fi_heap c) \<le> fi_capacity c"

lemma fi_move_sel [simp]:
  "fi_capacity (moveUpHeap key node i c) = fi_capacity c" "fi_capacity (moveDownHeap key node i c) = fi_capacity c"
  "fi_array (moveUpHeap key node i c) = siftUp rarer (ckey key) node i (fi_array c)"
  "fi_array (moveDownHeap key node i c) = siftDown rarer (ckey key) (length (fi_heap c)) node i (fi_array c)"
  by (simp_all add: moveUpHeap_def moveDownHeap_def fi_array_def split: prod.splits)

lemma sketch_put_sel [simp]:
  "fi_capacity (sketch_put k v c) = fi_capacity c" "fi_heap (sketch_put k v c) = fi_heap c" "fi_index (sketch_put k v c) = fi_index c"
  "fi_array (sketch_put k v c) = fi_array c"
  by (simp_all add: sketch_put_def fi_array_def)

lemma fi_nodes_array: "fi_heap c = fst (fi_array c)" "fi_index c = snd (fi_array c)"
  by (simp_all add: fi_array_def)

text \<open>A move that fills the hole re-establishes the invariant when the map's other keys are the array's.\<close>

lemma moves_ok:
  assumes hole: "indexed_but (ckey key) (length (fi_heap c)) i node (fi_array c)"
    and dom: "\<And>k. js_get (fi_index c) k \<noteq> None \<or> k = key (ct_element node) \<longleftrightarrow> k \<in> ckey key ` set ((fi_heap c)[i := node])"
    and cap: "length (fi_heap c) \<le> fi_capacity c"
  shows "fi_ok key (moveUpHeap key node i c) \<and> mset (fi_heap (moveUpHeap key node i c)) = mset ((fi_heap c)[i := node])"
    and "fi_ok key (moveDownHeap key node i c) \<and> mset (fi_heap (moveDownHeap key node i c)) = mset ((fi_heap c)[i := node])"
proof -
  let ?n = "length (fi_heap c)" and ?V = "(fi_heap c)[i := node]"
  have i: "i < ?n" using hole by (simp add: indexed_but_def)
  have up: "fi_heap (moveUpHeap key node i c) = bubbleUp rarer i ?V"
    using siftUp_bubbleUp [of i "fi_array c" rarer "ckey key" node] i by (simp add: fi_nodes_array(1) [of "moveUpHeap key node i c"]) (simp add: fi_array_def)
  have down: "fi_heap (moveDownHeap key node i c) = bubbleDown rarer ?n i ?V"
    using siftDown_bubbleDown [of i ?n "fi_array c" rarer "ckey key" node] i by (simp add: fi_nodes_array(1) [of "moveDownHeap key node i c"]) (simp add: fi_array_def)
  have mu: "mset (fi_heap (moveUpHeap key node i c)) = mset ?V" using bubbleUp_mset [of i ?n ?V rarer] i up by simp
  have md: "mset (fi_heap (moveDownHeap key node i c)) = mset ?V" using bubbleDown_mset [of i ?n ?V rarer] i down by simp
  have su: "js_get (fi_index (moveUpHeap key node i c)) k \<noteq> None \<longleftrightarrow> k \<in> ckey key ` set (fi_heap (moveUpHeap key node i c))" for k
    using siftUp_dom [OF hole, of rarer k] dom [of k] mset_eq_setD [OF mu]
    by (simp add: fi_nodes_array(2) [of "moveUpHeap key node i c"] del: not_None_eq) (simp add: fi_array_def del: not_None_eq)
  have sd: "js_get (fi_index (moveDownHeap key node i c)) k \<noteq> None \<longleftrightarrow> k \<in> ckey key ` set (fi_heap (moveDownHeap key node i c))" for k
    using siftDown_dom [OF hole, of rarer k] dom [of k] mset_eq_setD [OF md]
    by (simp add: fi_nodes_array(2) [of "moveDownHeap key node i c"] del: not_None_eq) (simp add: fi_array_def del: not_None_eq)
  show "fi_ok key (moveUpHeap key node i c) \<and> mset (fi_heap (moveUpHeap key node i c)) = mset ?V"
    using siftUp_indexed [OF hole] mu su cap mset_eq_length [OF mu] by (simp add: fi_ok_def del: not_None_eq)
  show "fi_ok key (moveDownHeap key node i c) \<and> mset (fi_heap (moveDownHeap key node i c)) = mset ?V"
    using siftDown_indexed [OF hole] md sd cap mset_eq_length [OF md] by (simp add: fi_ok_def del: not_None_eq)
qed

lemma fi_ok_parts:
  assumes "fi_ok key c"
  shows "distinct (map (ckey key) (fi_heap c))" "\<And>j. j < length (fi_heap c) \<Longrightarrow> js_get (fi_index c) (key (ct_element (fi_heap c ! j))) = Some (int j)"
    "\<And>k. js_get (fi_index c) k \<noteq> None \<longleftrightarrow> k \<in> ckey key ` set (fi_heap c)" "length (fi_heap c) \<le> fi_capacity c"
  using assms by (simp_all add: fi_ok_def indexed_def fi_array_def del: not_None_eq)

lemma fi_ok_lookup:
  assumes "fi_ok key c" "js_get (fi_index c) k = Some x"
  obtains j where "j < length (fi_heap c)" "x = int j" "key (ct_element (fi_heap c ! j)) = k"
proof -
  have "k \<in> ckey key ` set (fi_heap c)" using fi_ok_parts(3) [OF assms(1), of k] assms(2) by simp
  then obtain j where j: "j < length (fi_heap c)" "key (ct_element (fi_heap c ! j)) = k" by (auto simp: in_set_conv_nth)
  then show thesis using that fi_ok_parts(2) [OF assms(1) j(1)] assms(2) by simp
qed

lemma increment_ok:
  assumes "fi_ok key c" "j < length (fi_heap c)" "key (ct_element node) = key (ct_element (fi_heap c ! j))"
  shows "fi_ok key (moveUpHeap key node j (c\<lparr> fi_heap := (fi_heap c)[j := node] \<rparr>))"
proof -
  note P = fi_ok_parts [OF assms(1)]
  have keys: "map (ckey key) ((fi_heap c)[j := node]) = map (ckey key) (fi_heap c)"
    using assms(2,3) by (simp add: map_update) (metis list_update_id nth_map)
  have st: "ckey key ` set ((fi_heap c)[j := node]) = ckey key ` set (fi_heap c)" using keys by (metis list.set_map)
  have in_j: "key (ct_element node) \<in> ckey key ` set (fi_heap c)" using assms(2,3) by simp
  let ?c = "c\<lparr> fi_heap := (fi_heap c)[j := node] \<rparr>"
  have "indexed_but (ckey key) (length (fi_heap ?c)) j node (fi_array ?c)"
    using P(1,2) keys assms(2) by (simp add: indexed_but_def fi_array_def)
  moreover have "js_get (fi_index ?c) k \<noteq> None \<or> k = key (ct_element node) \<longleftrightarrow> k \<in> ckey key ` set ((fi_heap ?c)[j := node])" for k
    using P(3) [of k] st in_j by (auto simp del: not_None_eq)
  ultimately show ?thesis using moves_ok(1) [of key ?c j node] P(4) by simp
qed

lemma insert_ok:
  assumes "fi_ok key c" "js_get (fi_index c) (key (ct_element node)) = None" "length (fi_heap c) < fi_capacity c"
  shows "fi_ok key (insertHeap key node c)"
proof -
  note P = fi_ok_parts [OF assms(1)]
  let ?c = "c\<lparr> fi_heap := fi_heap c @ [node] \<rparr>" and ?n = "length (fi_heap c)"
  have fresh: "key (ct_element node) \<notin> ckey key ` set (fi_heap c)" using P(3) [of "key (ct_element node)"] assms(2) by simp
  have "indexed_but (ckey key) (length (fi_heap ?c)) ?n node (fi_array ?c)"
    using P(1,2) fresh by (auto simp: indexed_but_def fi_array_def nth_append)
  moreover have "js_get (fi_index ?c) k \<noteq> None \<or> k = key (ct_element node) \<longleftrightarrow> k \<in> ckey key ` set ((fi_heap ?c)[?n := node])" for k
    using P(3) [of k] by (auto simp del: not_None_eq)
  ultimately show ?thesis using moves_ok(1) [of key ?c ?n node] assms(3) by (simp add: insertHeap_def)
qed

lemma evict_ok:
  assumes "fi_ok key c" "js_get (fi_index c) (key (ct_element node)) = None" "fi_heap c \<noteq> []"
    and c': "fi_heap c' = fi_heap c" "fi_capacity c' = fi_capacity c" "fi_index c' = js_delete (key (ct_element (fi_heap c ! 0))) (fi_index c)"
  shows "fi_ok key (moveDownHeap key node 0 c')"
proof -
  note P = fi_ok_parts [OF assms(1)]
  obtain m ms where h: "fi_heap c = m # ms" using assms(3) by (cases "fi_heap c") auto
  have fresh: "key (ct_element node) \<notin> ckey key ` set (fi_heap c)" using P(3) [of "key (ct_element node)"] assms(2) by simp
  have d: "distinct (map (ckey key) (m # ms))" using P(1) h by simp
  have neq: "key (ct_element ((m # ms) ! j)) \<noteq> key (ct_element m)" if "j < length (m # ms)" "j \<noteq> 0" for j
    using nth_eq_iff_index_eq [OF d, of j 0] nth_map [OF that(1), of "ckey key"] that by (metis length_greater_0_conv length_map list.discI nth_Cons_0 nth_map)
  have "indexed_but (ckey key) (length (fi_heap c')) 0 node (fi_array c')"
  proof -
    have "js_get (fi_index c') (key (ct_element (fi_heap c' ! j))) = Some (int j)" if "j < length (m # ms)" "j \<noteq> 0" for j
      using P(2) [of j] neq [OF that] that(1) unfolding c' h js_get_delete nth_Cons_0 by simp
    moreover have "distinct (map (ckey key) ((fi_heap c')[0 := node]))" using d fresh by (simp add: c' h)
    ultimately show ?thesis by (simp add: indexed_but_def fi_array_def) (simp add: c' h)
  qed
  moreover have "js_get (fi_index c') k \<noteq> None \<or> k = key (ct_element node) \<longleftrightarrow> k \<in> ckey key ` set ((fi_heap c')[0 := node])" for k
    using P(3) [of k] d by (auto simp: c' h js_get_delete simp del: not_None_eq)
  ultimately show ?thesis using moves_ok(2) [of key c' 0 node] P(4) c' by simp
qed

lemma fi_add_ok: "fi_ok key c \<Longrightarrow> fi_add key e c = Some c' \<Longrightarrow> fi_ok key c'"
proof -
  assume ok: "fi_ok key c" and add: "fi_add key e c = Some c'"
  show "fi_ok key c'"
  proof (cases "js_get (fi_index c) (key e)")
    case (Some x)
    obtain j where j: "j < length (fi_heap c)" "x = int j" "key (ct_element (fi_heap c ! j)) = key e" by (rule fi_ok_lookup [OF ok Some])
    have "c' = moveUpHeap key ((fi_heap c ! j)\<lparr> ct_count := ct_count (fi_heap c ! j) + 1 \<rparr>) j
       (c\<lparr> fi_heap := (fi_heap c)[j := (fi_heap c ! j)\<lparr> ct_count := ct_count (fi_heap c ! j) + 1 \<rparr>] \<rparr>)"
      using add Some j(2) by (simp add: fi_add_def Let_def)
    then show ?thesis using increment_ok [OF ok j(1)] by simp
  next
    case None
    show ?thesis
    proof (cases "fi_count c < fi_capacity c")
      case True
      with add None have "c' = insertHeap key \<lparr> ct_element = e, ct_count = 1, ct_error = 0 \<rparr> c" by (simp add: fi_add_def Let_def)
      then show ?thesis using insert_ok [OF ok, of "\<lparr> ct_element = e, ct_count = 1, ct_error = 0 \<rparr>"] None True by (simp add: fi_count_def)
    next
      case False
      let ?est = "fi_sketch c ! sketch_slot c (key e)"
      have ne: "fi_heap c \<noteq> []" using add None False by (auto simp: fi_add_def)
      show ?thesis
      proof (cases "?est + 1 < ct_count (fi_heap c ! 0)")
        case True
        with add None False ne have "c' = sketch_put (key e) (?est + 1) c" by (simp add: fi_add_def Let_def)
        then show ?thesis using ok by (simp add: fi_ok_def)
      next
        case filtered: False
        let ?k = "key (ct_element (fi_heap c ! 0))"
        let ?c2 = "sketch_put ?k (ct_count (fi_heap c ! 0)) (c\<lparr> fi_index := js_delete ?k (fi_index c) \<rparr>)"
        have "c' = moveDownHeap key \<lparr> ct_element = e, ct_count = ?est + 1, ct_error = ?est \<rparr> 0 ?c2"
          using add None False ne filtered by (simp add: fi_add_def Let_def)
        then show ?thesis using evict_ok [OF ok, of "\<lparr> ct_element = e, ct_count = ?est + 1, ct_error = ?est \<rparr>" ?c2] None ne by simp
      qed
    qed
  qed
qed

text \<open>Removing the slot \<open>j\<close> by moving the last counter into it.\<close>

lemma removal_ok:
  assumes ok: "fi_ok key c" and h: "fi_heap c = xs @ [l]" and j: "j < length (xs @ [l])" "key (ct_element ((xs @ [l]) ! j)) = k"
    and c': "fi_heap c' = xs" "fi_index c' = js_delete k (fi_index c)" "fi_capacity c' = fi_capacity c"
  shows "fi_ok key (if j < length xs then moveDownHeap key l j c' else c')"
proof -
  note P = fi_ok_parts [OF ok, unfolded h]
  have neq: "key (ct_element ((xs @ [l]) ! i)) \<noteq> k" if "i < length (xs @ [l])" "i \<noteq> j" for i
    using nth_eq_iff_index_eq [OF P(1), of i j] that j by (metis length_map nth_map)
  have neq': "key (ct_element (xs ! i)) \<noteq> k" if "i < length xs" "i \<noteq> j" for i
    using neq [of i] that by (simp add: nth_append)
  have at: "js_get (fi_index c) (key (ct_element (xs ! i))) = Some (int i)" if "i < length xs" for i
    using P(2) [of i] that by (simp add: nth_append)
  have dx: "distinct (map (ckey key) xs)" "key (ct_element l) \<notin> ckey key ` set xs" using P(1) by auto
  show ?thesis
  proof (cases "j < length xs")
    case True
    have lk: "key (ct_element l) \<noteq> k" using neq [of "length xs"] True by simp
    have xj: "key (ct_element (xs ! j)) = k" using j(2) True by (simp add: nth_append)
    have "distinct (map (ckey key) (xs[j := l]))" using dx True by (simp add: map_update distinct_list_update)
    then have "indexed_but (ckey key) (length (fi_heap c')) j l (fi_array c')"
      using True at neq' by (simp add: indexed_but_def fi_array_def c' js_get_delete)
    moreover have keys: "ckey key ` set (xs[j := l]) = insert (ckey key l) (ckey key ` set xs - {k})"
    proof -
      have "set (map (ckey key) (xs[j := l])) = insert (ckey key l) (set (map (ckey key) xs) - {map (ckey key) xs ! j})"
        using dx(1) True by (simp add: map_update set_update_distinct del: set_map)
      then show ?thesis using True xj by simp
    qed
    have "js_get (fi_index c') q \<noteq> None \<or> q = key (ct_element l) \<longleftrightarrow> q \<in> ckey key ` set ((fi_heap c')[j := l])" for q
      using P(3) [of q] keys lk by (auto simp: c' js_get_delete simp del: not_None_eq)
    ultimately show ?thesis using moves_ok(2) [of key c' j l] True P(4) by (simp add: c')
  next
    case False
    then have "j = length xs" using j(1) by simp
    then have k: "key (ct_element l) = k" using j(2) by simp
    have "indexed (ckey key) (length (fi_heap c')) (fi_array c')"
      using dx at neq' False by (simp add: indexed_def fi_array_def c' js_get_delete)
    moreover have "js_get (fi_index c') q \<noteq> None \<longleftrightarrow> q \<in> ckey key ` set (fi_heap c')" for q
      using P(3) [of q] k dx(2) by (auto simp: c' js_get_delete simp del: not_None_eq)
    ultimately show ?thesis using False P(4) by (simp add: fi_ok_def c' del: not_None_eq)
  qed
qed

lemma fi_remove_ok: "fi_ok key c \<Longrightarrow> fi_ok key (fst (removeCore key k c))"
proof -
  assume ok: "fi_ok key c"
  show ?thesis
  proof (cases "js_get (fi_index c) k")
    case None
    then show ?thesis using ok by (simp add: removeCore_def Let_def fi_ok_def)
  next
    case (Some x)
    obtain j where j: "j < length (fi_heap c)" "x = int j" "key (ct_element (fi_heap c ! j)) = k" by (rule fi_ok_lookup [OF ok Some])
    then obtain xs l where h: "fi_heap c = xs @ [l]" by (metis append_butlast_last_id length_greater_0_conv not_less_zero neq0_conv)
    let ?c2 = "(sketch_put k 0 c)\<lparr> fi_index := js_delete k (fi_index c), fi_heap := xs \<rparr>"
    have "fst (removeCore key k c) = (if j < length xs then moveDownHeap key l j ?c2 else ?c2)"
      using Some j(2) h by (simp add: removeCore_def Let_def nth_append)
    then show ?thesis using removal_ok [OF ok h, of j k ?c2] j h by simp
  qed
qed

lemma fi_clear_ok: "fi_ok key (clearCore c)"
  by (simp add: fi_ok_def clearCore_def indexed_def fi_array_def)

lemma fi_new_ok: "fi_ok key (newFrequentItems n)"
  by (simp add: fi_ok_def newFrequentItems_def indexed_def fi_array_def)

section \<open>Properties\<close>

datatype 'e fi_call = CallAdd 'e | CallRemove int | CallClear

fun fi_run :: "('e \<Rightarrow> int) \<Rightarrow> 'e fi_call list \<Rightarrow> 'e frequent_items \<Rightarrow> 'e frequent_items option" where
  "fi_run key [] c = Some c"
| "fi_run key (CallAdd e # cs) c = (case fi_add key e c of None \<Rightarrow> None | Some c' \<Rightarrow> fi_run key cs c')"
| "fi_run key (CallRemove k # cs) c = fi_run key cs (fst (removeCore key k c))"
| "fi_run key (CallClear # cs) c = fi_run key cs (clearCore c)"

lemma fi_capacity_kept:
  "fi_add key e c = Some d \<Longrightarrow> fi_capacity d = fi_capacity c"
  "fi_capacity (fst (removeCore key k c)) = fi_capacity c"
  "fi_capacity (clearCore c) = fi_capacity c"
  by (auto simp: fi_add_def insertHeap_def Let_def removeCore_def clearCore_def split: option.split_asm option.split if_split_asm)

lemma fi_run_ok: "fi_ok key c \<Longrightarrow> fi_run key cs c = Some c' \<Longrightarrow> fi_ok key c' \<and> fi_capacity c' = fi_capacity c"
proof (induction key cs c rule: fi_run.induct)
  case (2 key e cs c)
  then show ?case
  proof (cases "fi_add key e c")
    case (Some d)
    then show ?thesis using 2 fi_add_ok [OF "2.prems"(1) Some] fi_capacity_kept(1) [OF Some] by simp
  qed simp
next
  case (3 key k cs c)
  then show ?case using fi_remove_ok [OF "3.prems"(1), of k] fi_capacity_kept(2) [of key k c] by simp
next
  case (4 key cs c)
  then show ?case using fi_clear_ok [of key c] fi_capacity_kept(3) [of c] by simp
qed simp

text \<open>After any additions, removals and clears the collection tracks at most its capacity, each key once,
  and its index finds exactly the tracked keys, each at its position.\<close>

theorem frequent_items_index_exact:
  assumes "fi_run key cs (newFrequentItems capacity) = Some c"
  shows "length (fi_elements c) \<le> capacity \<and> distinct (map (\<lambda>x. key (ct_element x)) (fi_elements c))
    \<and> (\<forall>k i. js_get (fi_index c) k = Some i \<longleftrightarrow> 0 \<le> i \<and> nat i < length (fi_elements c) \<and> key (ct_element (fi_elements c ! nat i)) = k)"
proof -
  have ok: "fi_ok key c" and cap: "fi_capacity c = capacity"
    using fi_run_ok [OF fi_new_ok assms] by (simp_all add: newFrequentItems_def)
  note P = fi_ok_parts [OF ok]
  have "js_get (fi_index c) k = Some i \<longleftrightarrow> 0 \<le> i \<and> nat i < length (fi_heap c) \<and> key (ct_element (fi_heap c ! nat i)) = k" for k i
  proof
    assume "js_get (fi_index c) k = Some i"
    then show "0 \<le> i \<and> nat i < length (fi_heap c) \<and> key (ct_element (fi_heap c ! nat i)) = k" by (rule fi_ok_lookup [OF ok]) simp
  next
    assume "0 \<le> i \<and> nat i < length (fi_heap c) \<and> key (ct_element (fi_heap c ! nat i)) = k"
    then show "js_get (fi_index c) k = Some i" using P(2) [of "nat i"] by auto
  qed
  then show ?thesis using P cap by (simp add: fi_elements_def)
qed

theorem frequent_items_index_exact_witness:
  "\<exists>c. fi_run (\<lambda>n::int. n) [CallAdd 1, CallAdd 2, CallAdd 1, CallRemove 2, CallAdd 5, CallAdd 6] (newFrequentItems 2) = Some c
     \<and> length (fi_elements c) \<le> 2 \<and> distinct (map ct_element (fi_elements c))"
proof -
  have "\<exists>c. fi_run (\<lambda>n::int. n) [CallAdd 1, CallAdd 2, CallAdd 1, CallRemove 2, CallAdd 5, CallAdd 6] (newFrequentItems 2) = Some c"
  proof -
    have "fi_run (\<lambda>n::int. n) [CallAdd 1, CallAdd 2, CallAdd 1, CallRemove 2, CallAdd 5, CallAdd 6] (newFrequentItems 2) \<noteq> None" by code_simp
    then show ?thesis by simp
  qed
  with frequent_items_index_exact [of "\<lambda>n::int. n" _ 2] show ?thesis by fastforce
qed

text \<open>The element evicted from a full collection need not be a least frequent one: with capacity 2, after 1,
  2, 1 the counts are 2 and 1; the second addition of 3 then evicts 1, although 2 was counted less often.\<close>

theorem frequent_item_evicted:
  "map_option (\<lambda>c. map (\<lambda>x. (ct_element x, ct_count x)) (fi_elements c)) (fi_run (\<lambda>n::int. n) [CallAdd 1, CallAdd 2, CallAdd 1] (newFrequentItems 2))
     = Some [(1, 2), (2, 1)]
   \<and> map_option (\<lambda>c. map (\<lambda>x. (ct_element x, ct_count x)) (fi_elements c)) (fi_run (\<lambda>n::int. n) [CallAdd 1, CallAdd 2, CallAdd 1, CallAdd 3, CallAdd 3] (newFrequentItems 2))
     = Some [(2, 1), (3, 2)]"
  by code_simp

end
