(* ===== verification/Repartitioner.thy ===== *)
theory Repartitioner
  imports Identity Max_Heap Frequent_Items
begin

text \<open>
  The activation repartitioner (\<^verbatim>\<open>runtime/src/placement/repartitioning/activation-repartitioner.ts\<close>, \<^verbatim>\<open>edge.ts\<close>,
  \<^verbatim>\<open>frequent-edge-counter.ts\<close>): recording of call edges, candidate sets, the pairwise exchange of activations
  and the pruning of stale edges. The repartitioner's dependencies are arguments: whether a grain may
  move, the local activation count, the tolerance rule, the clock, the peer's answer to a request. \<open>migrate\<close> is
  recorded as the list of commands it is given.

  Heap elements are the string forms of grain ids, as the source's maps use them; the objects behind them
  are the store \<open>ex_vertices\<close>, whose scores the heaps compare.

  Shown: the exchange ends; it gives away only offered local grains and accepts only offered remote ones, each
  once; its counts are exact; and it never makes the silos' imbalance worse beyond the tolerance.
\<close>

section \<open>Edges\<close>

record edge_vertex =
  ev_id :: grain_id
  ev_silo :: silo_address
  ev_isMigratable :: bool

record edge =
  ed_source :: edge_vertex
  ed_target :: edge_vertex

definition edgeVertex :: "grain_id \<Rightarrow> silo_address \<Rightarrow> bool \<Rightarrow> edge_vertex" where
  "edgeVertex i s m = \<lparr> ev_id = i, ev_silo = s, ev_isMigratable = m \<rparr>"

definition mkEdge :: "edge_vertex \<Rightarrow> edge_vertex \<Rightarrow> edge" where
  "mkEdge source target = \<lparr> ed_source = source, ed_target = target \<rparr>"

definition flipEdge :: "edge \<Rightarrow> edge" where
  "flipEdge e = \<lparr> ed_source = ed_target e, ed_target = ed_source e \<rparr>"

definition edge_getKey :: "edge \<Rightarrow> int" where
  "edge_getKey e = push_bit 32 (getUniformHashCode (ev_id (ed_source e))) OR getUniformHashCode (ev_id (ed_target e))"

type_synonym edge_counter = "edge frequent_items"

definition ec_clear :: "edge_counter \<Rightarrow> edge_counter" where
  "ec_clear c = clearCore c"

definition ec_remove :: "edge \<Rightarrow> edge_counter \<Rightarrow> edge_counter" where
  "ec_remove e c = fst (removeCore edge_getKey (edge_getKey e) c)"

section \<open>The repartitioner's state and recording\<close>

record candidate_vertex =
  cv_id :: grain_id
  cv_accumulatedTransferScore :: int
  cv_connectedVertices :: "(grain_id \<times> int) list"

record exchange_request =
  rq_sendingSilo :: silo_address
  rq_exchangeSet :: "candidate_vertex list"
  rq_activationCountSnapshot :: int

datatype exchange_type = ExSuccess | ExchangedRecently | MutualExchangeAttempt

record exchange_response =
  rs_type :: exchange_type
  rs_acceptedGrainIds :: "grain_id list"
  rs_givenGrainIds :: "grain_id list"

datatype edge_direction = LocalToLocal | LocalToRemote | RemoteToLocal

record vertex_edge =
  ve_sourceId :: grain_id
  ve_targetId :: grain_id
  ve_isMigratable :: bool
  ve_partnerSilo :: silo_address
  ve_direction :: edge_direction
  ve_weight :: int

record repartitioner =
  rp_local :: silo_address
  rp_recoveryPeriodMs :: int
  rp_isMigratable :: "grain_id \<Rightarrow> bool"
  rp_edgeWeights :: edge_counter
  rp_activationCountOffset :: int
  rp_lastExchangeAt :: "int option"

definition newRepartitioner :: "silo_address \<Rightarrow> nat \<Rightarrow> int \<Rightarrow> (grain_id \<Rightarrow> bool) \<Rightarrow> repartitioner" where
  "newRepartitioner loc maxEdgeCount recovery migratable = \<lparr> rp_local = loc, rp_recoveryPeriodMs = recovery,
     rp_isMigratable = migratable, rp_edgeWeights = newFrequentItems maxEdgeCount,
     rp_activationCountOffset = 0, rp_lastExchangeAt = None \<rparr>"

text \<open>\<open>None\<close> is the throw of an edge counter with capacity 0, which the options' validation excludes.\<close>

definition rp_addEdge :: "edge \<Rightarrow> repartitioner \<Rightarrow> repartitioner option" where
  "rp_addEdge e r = map_option (\<lambda>c. r\<lparr> rp_edgeWeights := c \<rparr>) (fi_add edge_getKey e (rp_edgeWeights r))"

definition recordLocalEdge :: "grain_id option \<Rightarrow> grain_id \<Rightarrow> silo_address \<Rightarrow> repartitioner \<Rightarrow> repartitioner option" where
  "recordLocalEdge sender target targetSilo r =
     (case sender of
        None \<Rightarrow> Some r
      | Some s \<Rightarrow>
          if grain_id_equals s target then Some r
          else (let sm = rp_isMigratable r s; tm = rp_isMigratable r target in
                if \<not> sm \<and> \<not> tm then Some r
                else rp_addEdge (mkEdge (edgeVertex s (rp_local r) sm) (edgeVertex target targetSilo tm)) r))"

definition recordRemoteEdge :: "grain_id \<Rightarrow> silo_address \<Rightarrow> grain_id \<Rightarrow> repartitioner \<Rightarrow> repartitioner option" where
  "recordRemoteEdge sender senderSilo target r =
     (if grain_id_equals sender target then Some r
      else (let sm = rp_isMigratable r sender; tm = rp_isMigratable r target in
            if \<not> sm \<and> \<not> tm then Some r
            else rp_addEdge (mkEdge (edgeVertex sender senderSilo sm) (edgeVertex target (rp_local r) tm)) r))"

definition resetCounters :: "repartitioner \<Rightarrow> repartitioner" where
  "resetCounters r = r\<lparr> rp_edgeWeights := ec_clear (rp_edgeWeights r) \<rparr>"

definition setActivationCountOffset :: "int \<Rightarrow> repartitioner \<Rightarrow> repartitioner" where
  "setActivationCountOffset offset r = r\<lparr> rp_activationCountOffset := offset \<rparr>"

definition getLocalActivationCount :: "repartitioner \<Rightarrow> int \<Rightarrow> int" where
  "getLocalActivationCount r activationCount = activationCount + rp_activationCountOffset r"

section \<open>Candidate sets\<close>

type_synonym migration_candidates = "(string, vertex_edge list) js_map"

definition mc_push :: "vertex_edge \<Rightarrow> migration_candidates \<Rightarrow> migration_candidates" where
  "mc_push v result =
     (if \<not> ve_isMigratable v then result
      else (let key = grain_id_toString (ve_sourceId v) in
            case js_get result key of None \<Rightarrow> js_set key [v] result | Some l \<Rightarrow> js_set key (l @ [v]) result))"

definition mc_step :: "silo_address \<Rightarrow> migration_candidates \<Rightarrow> edge counter \<Rightarrow> migration_candidates" where
  "mc_step loc result x =
     (let e = ct_element x; cnt = ct_count x; src = ed_source e; tgt = ed_target e in
      if cnt = 0 then result
      else (let isSourceLocal = silo_equals (ev_silo src) loc; isTargetLocal = silo_equals (ev_silo tgt) loc in
        if isSourceLocal \<and> isTargetLocal then
          mc_push \<lparr> ve_sourceId = ev_id tgt, ve_targetId = ev_id src, ve_isMigratable = ev_isMigratable tgt,
                    ve_partnerSilo = loc, ve_direction = LocalToLocal, ve_weight = cnt \<rparr>
            (mc_push \<lparr> ve_sourceId = ev_id src, ve_targetId = ev_id tgt, ve_isMigratable = ev_isMigratable src,
                       ve_partnerSilo = loc, ve_direction = LocalToLocal, ve_weight = cnt \<rparr> result)
        else if isSourceLocal then
          mc_push \<lparr> ve_sourceId = ev_id src, ve_targetId = ev_id tgt, ve_isMigratable = ev_isMigratable src,
                    ve_partnerSilo = ev_silo tgt, ve_direction = LocalToRemote, ve_weight = cnt \<rparr> result
        else if isTargetLocal then
          mc_push \<lparr> ve_sourceId = ev_id tgt, ve_targetId = ev_id src, ve_isMigratable = ev_isMigratable tgt,
                    ve_partnerSilo = ev_silo src, ve_direction = RemoteToLocal, ve_weight = cnt \<rparr> result
        else result))"

definition getMigrationCandidates :: "repartitioner \<Rightarrow> migration_candidates" where
  "getMigrationCandidates r = foldl (mc_step (rp_local r)) [] (fi_elements (rp_edgeWeights r))"

definition edge_scores :: "silo_address \<Rightarrow> vertex_edge list \<Rightarrow> int \<times> int" where
  "edge_scores otherSilo grainEdges =
     foldl (\<lambda>(l, m) e. if ve_direction e = LocalToLocal then (l + ve_weight e, m)
                       else if silo_equals (ve_partnerSilo e) otherSilo then (l, m + ve_weight e) else (l, m)) (0, 0) grainEdges"

definition getCandidatesForSilo :: "migration_candidates \<Rightarrow> silo_address \<Rightarrow> candidate_vertex list" where
  "getCandidatesForSilo mc otherSilo =
     concat (map (\<lambda>grainEdges. let (accLocalScore, accRemoteScore) = edge_scores otherSilo grainEdges in
        if accRemoteScore \<le> accLocalScore then []
        else [\<lparr> cv_id = ve_sourceId (hd grainEdges), cv_accumulatedTransferScore = accRemoteScore - accLocalScore,
                cv_connectedVertices = map (\<lambda>e. (ve_targetId e, ve_weight e)) grainEdges \<rparr>]) (js_values mc))"

definition createCandidateSets ::
  "migration_candidates \<Rightarrow> silo_address list \<Rightarrow> (silo_address \<times> candidate_vertex list \<times> int) list" where
  "createCandidateSets mc silos =
     js_sort (\<lambda>a b. snd (snd b) - snd (snd a) \<le> 0)
       (map (\<lambda>silo. let candidates = getCandidatesForSilo mc silo
                    in (silo, candidates, foldl (\<lambda>sum c. sum + cv_accumulatedTransferScore c) 0 candidates)) silos)"

section \<open>Candidate heaps\<close>

datatype vertex_location = LocLocal | LocRemote | LocUnknown

record vertex =
  vx_id :: grain_id
  vx_location :: vertex_location
  vx_score :: int
  vx_connected :: "(string \<times> int) list"

type_synonym vertices = "(string, vertex) js_map"

definition vx_getOrAdd :: "candidate_vertex \<Rightarrow> vertices \<Rightarrow> vertices" where
  "vx_getOrAdd c vs = (let key = grain_id_toString (cv_id c) in
     case js_get vs key of
       Some _ \<Rightarrow> vs
     | None \<Rightarrow> js_set key \<lparr> vx_id = cv_id c, vx_location = LocUnknown, vx_score = cv_accumulatedTransferScore c, vx_connected = [] \<rparr> vs)"

definition vx_update :: "string \<Rightarrow> (vertex \<Rightarrow> vertex) \<Rightarrow> vertices \<Rightarrow> vertices" where
  "vx_update k f vs = (case js_get vs k of None \<Rightarrow> vs | Some v \<Rightarrow> js_set k (f v) vs)"

definition createVertex :: "(string, candidate_vertex) js_map \<Rightarrow> candidate_vertex \<Rightarrow> vertices \<Rightarrow> vertices" where
  "createVertex sourceIndex c vs =
     foldl (\<lambda>vs (i, transferScore).
        case js_get sourceIndex (grain_id_toString i) of
          None \<Rightarrow> vs
        | Some source \<Rightarrow>
            vx_update (grain_id_toString (cv_id c))
              (\<lambda>v. v\<lparr> vx_connected := vx_connected v @ [(grain_id_toString (cv_id source), transferScore)] \<rparr>) (vx_getOrAdd source vs))
       (vx_getOrAdd c vs) (cv_connectedVertices c)"

definition local_vertex ::
  "(string, candidate_vertex) js_map \<Rightarrow> vertices \<times> string list \<Rightarrow> candidate_vertex \<Rightarrow> vertices \<times> string list" where
  "local_vertex sourceIndex st c = (let key = grain_id_toString (cv_id c); vs = createVertex sourceIndex c (fst st) in
     (vx_update key (\<lambda>v. v\<lparr> vx_location := LocLocal \<rparr>) vs, snd st @ [key]))"

definition remote_vertex ::
  "(string, candidate_vertex) js_map \<Rightarrow> vertices \<times> string list \<Rightarrow> candidate_vertex \<Rightarrow> vertices \<times> string list" where
  "remote_vertex sourceIndex st c = (let key = grain_id_toString (cv_id c); vs = createVertex sourceIndex c (fst st) in
     if map_option vx_location (js_get vs key) \<noteq> Some LocUnknown then (vs, snd st)
     else (vx_update key (\<lambda>v. v\<lparr> vx_location := LocRemote \<rparr>) vs, snd st @ [key]))"

definition vscore :: "vertices \<Rightarrow> string \<Rightarrow> int" where
  "vscore vs k = (case js_get vs k of Some v \<Rightarrow> vx_score v | None \<Rightarrow> 0)"

abbreviation vcmp :: "vertices \<Rightarrow> string \<Rightarrow> string \<Rightarrow> int" where
  "vcmp vs \<equiv> score_cmp (vscore vs)"

definition createCandidateHeaps ::
  "candidate_vertex list \<Rightarrow> candidate_vertex list \<Rightarrow> vertices \<times> string max_heap \<times> string max_heap" where
  "createCandidateHeaps loc rem =
     (let sourceIndex = foldl (\<lambda>ix c. js_set (grain_id_toString (cv_id c)) c ix) [] (loc @ rem);
          (vs1, localList) = foldl (local_vertex sourceIndex) ([], []) loc;
          (vs2, remoteList) = foldl (remote_vertex sourceIndex) (vs1, []) rem
      in (vs2, newMaxHeap (vcmp vs2) localList, newMaxHeap (vcmp vs2) remoteList))"

section \<open>The exchange\<close>

record exchange =
  ex_vertices :: vertices
  ex_localHeap :: "string max_heap"
  ex_remoteHeap :: "string max_heap"
  ex_localActivations :: int
  ex_remoteActivations :: int
  ex_imbalance :: int
  ex_giving :: "string list"
  ex_accepting :: "string list"

text \<open>\<open>tryMigrateCore\<close> on one of the two heaps: the popped key, and the heap after the pop.\<close>

definition tryMigrateCore ::
  "(int \<Rightarrow> bool) \<Rightarrow> string max_heap \<Rightarrow> int \<Rightarrow> int \<Rightarrow> exchange \<Rightarrow> string max_heap \<times> (string \<times> int) option" where
  "tryMigrateCore isSatisfiedBy sourceHeap localDelta remoteDelta ex =
     (let anticipated = \<bar>ex_localActivations ex + localDelta - (ex_remoteActivations ex + remoteDelta)\<bar> in
      if ex_imbalance ex \<le> anticipated \<and> \<not> isSatisfiedBy anticipated then (sourceHeap, None)
      else (case mh_tryPop (vcmp (ex_vertices ex)) sourceHeap of
              (None, h) \<Rightarrow> (h, None)
            | (Some k, h) \<Rightarrow> (h, if vscore (ex_vertices ex) k \<le> 0 then None else Some (k, anticipated))))"

definition migrated :: "int \<Rightarrow> int \<Rightarrow> int \<Rightarrow> exchange \<Rightarrow> exchange" where
  "migrated localDelta remoteDelta anticipated ex = ex\<lparr> ex_localActivations := ex_localActivations ex + localDelta,
     ex_remoteActivations := ex_remoteActivations ex + remoteDelta, ex_imbalance := anticipated \<rparr>"

definition raiseLocal :: "string \<Rightarrow> int \<Rightarrow> exchange \<Rightarrow> exchange" where
  "raiseLocal k d ex = (let vs = vx_update k (\<lambda>v. v\<lparr> vx_score := vx_score v + d \<rparr>) (ex_vertices ex)
     in ex\<lparr> ex_vertices := vs, ex_localHeap := onIncreaseElementPriority (vcmp vs) k (ex_localHeap ex) \<rparr>)"

definition lowerLocal :: "string \<Rightarrow> int \<Rightarrow> exchange \<Rightarrow> exchange" where
  "lowerLocal k d ex = (let vs = vx_update k (\<lambda>v. v\<lparr> vx_score := vx_score v - d \<rparr>) (ex_vertices ex)
     in ex\<lparr> ex_vertices := vs, ex_localHeap := onDecreaseElementPriority (vcmp vs) k (ex_localHeap ex) \<rparr>)"

definition raiseRemote :: "string \<Rightarrow> int \<Rightarrow> exchange \<Rightarrow> exchange" where
  "raiseRemote k d ex = (let vs = vx_update k (\<lambda>v. v\<lparr> vx_score := vx_score v + d \<rparr>) (ex_vertices ex)
     in ex\<lparr> ex_vertices := vs, ex_remoteHeap := onIncreaseElementPriority (vcmp vs) k (ex_remoteHeap ex) \<rparr>)"

definition lowerRemote :: "string \<Rightarrow> int \<Rightarrow> exchange \<Rightarrow> exchange" where
  "lowerRemote k d ex = (let vs = vx_update k (\<lambda>v. v\<lparr> vx_score := vx_score v - d \<rparr>) (ex_vertices ex)
     in ex\<lparr> ex_vertices := vs, ex_remoteHeap := onDecreaseElementPriority (vcmp vs) k (ex_remoteHeap ex) \<rparr>)"

definition vlocation :: "exchange \<Rightarrow> string \<Rightarrow> vertex_location" where
  "vlocation ex k = (case js_get (ex_vertices ex) k of Some v \<Rightarrow> vx_location v | None \<Rightarrow> LocUnknown)"

definition vconnected :: "exchange \<Rightarrow> string \<Rightarrow> (string \<times> int) list" where
  "vconnected ex k = (case js_get (ex_vertices ex) k of Some v \<Rightarrow> vx_connected v | None \<Rightarrow> [])"

definition relocate :: "string \<Rightarrow> vertex_location \<Rightarrow> exchange \<Rightarrow> exchange" where
  "relocate k l ex = ex\<lparr> ex_vertices := vx_update k (\<lambda>v. v\<lparr> vx_location := l \<rparr>) (ex_vertices ex) \<rparr>"

definition tryLocalToRemote :: "(int \<Rightarrow> bool) \<Rightarrow> exchange \<Rightarrow> exchange \<times> bool" where
  "tryLocalToRemote isSatisfiedBy ex0 =
     (case tryMigrateCore isSatisfiedBy (ex_localHeap ex0) (-1) 1 ex0 of
        (h, None) \<Rightarrow> (ex0\<lparr> ex_localHeap := h \<rparr>, False)
      | (h, Some (k, anticipated)) \<Rightarrow>
          (let ex1 = migrated (-1) 1 anticipated (ex0\<lparr> ex_localHeap := h \<rparr>);
               ex2 = ex1\<lparr> ex_giving := ex_giving ex1 @ [k] \<rparr>;
               ex3 = foldl (\<lambda>ex (c, d). if vlocation ex c = LocLocal then raiseLocal c d ex
                              else if vlocation ex c = LocRemote then lowerRemote c d ex else ex) ex2 (vconnected ex2 k)
           in (relocate k LocRemote ex3, True)))"

definition tryRemoteToLocal :: "(int \<Rightarrow> bool) \<Rightarrow> exchange \<Rightarrow> exchange \<times> bool" where
  "tryRemoteToLocal isSatisfiedBy ex0 =
     (case tryMigrateCore isSatisfiedBy (ex_remoteHeap ex0) 1 (-1) ex0 of
        (h, None) \<Rightarrow> (ex0\<lparr> ex_remoteHeap := h \<rparr>, False)
      | (h, Some (k, anticipated)) \<Rightarrow>
          (let ex1 = migrated 1 (-1) anticipated (ex0\<lparr> ex_remoteHeap := h \<rparr>);
               ex2 = ex1\<lparr> ex_accepting := ex_accepting ex1 @ [k] \<rparr>;
               ex3 = foldl (\<lambda>ex (c, d). if vlocation ex c = LocLocal then lowerLocal c d ex
                              else if vlocation ex c = LocRemote then raiseRemote c d ex else ex) ex2 (vconnected ex2 k)
           in (relocate k LocLocal ex3, True)))"

definition topScore :: "exchange \<Rightarrow> string max_heap \<Rightarrow> int" where
  "topScore ex h = (case mh_firstOrDefault h of Some k \<Rightarrow> vscore (ex_vertices ex) k | None \<Rightarrow> 0)"

definition exchange_round :: "(int \<Rightarrow> bool) \<Rightarrow> exchange \<Rightarrow> exchange \<times> bool" where
  "exchange_round isSatisfiedBy ex =
     (let localScore = topScore ex (ex_localHeap ex); remoteScore = topScore ex (ex_remoteHeap ex);
          preferLocalFirst = remoteScore < localScore
            \<or> (localScore = remoteScore \<and> ex_remoteActivations ex < ex_localActivations ex)
      in if preferLocalFirst
         then (case tryLocalToRemote isSatisfiedBy ex of (ex1, True) \<Rightarrow> (ex1, True) | (ex1, False) \<Rightarrow> tryRemoteToLocal isSatisfiedBy ex1)
         else (case tryRemoteToLocal isSatisfiedBy ex of (ex1, True) \<Rightarrow> (ex1, True) | (ex1, False) \<Rightarrow> tryLocalToRemote isSatisfiedBy ex1))"

text \<open>Every successful attempt takes one element off a heap, so the rounds end.\<close>

abbreviation ex_size :: "exchange \<Rightarrow> nat" where
  "ex_size ex \<equiv> mh_size (ex_localHeap ex) + mh_size (ex_remoteHeap ex)"

lemma priority_size [simp]:
  "mh_size (onIncreaseElementPriority cmp k h) = mh_size h" "mh_size (onDecreaseElementPriority cmp k h) = mh_size h"
  by (simp_all add: onIncreaseElementPriority_def onDecreaseElementPriority_def)

lemma rescore_size [simp]:
  "ex_size (raiseLocal k d ex) = ex_size ex" "ex_size (lowerLocal k d ex) = ex_size ex"
  "ex_size (raiseRemote k d ex) = ex_size ex" "ex_size (lowerRemote k d ex) = ex_size ex" "ex_size (relocate k l ex) = ex_size ex"
  by (simp_all add: raiseLocal_def lowerLocal_def raiseRemote_def lowerRemote_def relocate_def Let_def)

lemma mh_tryPop_size: "mh_tryPop cmp h = (r, h') \<Longrightarrow> mh_size h' \<le> mh_size h \<and> (r \<noteq> None \<longrightarrow> mh_size h' < mh_size h)"
  by (auto simp: mh_tryPop_def mh_pop_def Let_def split: if_splits)

lemma tryMigrateCore_size:
  "tryMigrateCore sat h ld rd ex = (h', r) \<Longrightarrow> mh_size h' \<le> mh_size h \<and> (r \<noteq> None \<longrightarrow> mh_size h' < mh_size h)"
  by (auto simp: tryMigrateCore_def Let_def dest: mh_tryPop_size split: if_splits prod.splits option.splits)

lemma rescore_fold_size:
  "ex_size (foldl (\<lambda>ex (c, d). if vlocation ex c = LocLocal then raiseLocal c d ex
     else if vlocation ex c = LocRemote then lowerRemote c d ex else ex) ex cs) = ex_size ex"
  "ex_size (foldl (\<lambda>ex (c, d). if vlocation ex c = LocLocal then lowerLocal c d ex
     else if vlocation ex c = LocRemote then raiseRemote c d ex else ex) ex cs) = ex_size ex"
  by (induction cs arbitrary: ex) auto

lemma tryLocalToRemote_size:
  "tryLocalToRemote sat ex = (ex', b) \<Longrightarrow> ex_size ex' \<le> ex_size ex \<and> (b \<longrightarrow> ex_size ex' < ex_size ex)"
proof (cases "tryMigrateCore sat (ex_localHeap ex) (-1) 1 ex")
  case (Pair h r)
  note S = tryMigrateCore_size [OF Pair]
  assume "tryLocalToRemote sat ex = (ex', b)"
  then show ?thesis using S Pair
    by (cases r) (auto simp: tryLocalToRemote_def migrated_def Let_def rescore_fold_size)
qed

lemma tryRemoteToLocal_size:
  "tryRemoteToLocal sat ex = (ex', b) \<Longrightarrow> ex_size ex' \<le> ex_size ex \<and> (b \<longrightarrow> ex_size ex' < ex_size ex)"
proof (cases "tryMigrateCore sat (ex_remoteHeap ex) 1 (-1) ex")
  case (Pair h r)
  note S = tryMigrateCore_size [OF Pair]
  assume "tryRemoteToLocal sat ex = (ex', b)"
  then show ?thesis using S Pair
    by (cases r) (auto simp: tryRemoteToLocal_def migrated_def Let_def rescore_fold_size)
qed

lemma exchange_round_size: "exchange_round sat ex = (ex', True) \<Longrightarrow> ex_size ex' < ex_size ex"
  by (auto simp: exchange_round_def Let_def split: if_splits prod.splits bool.splits
      dest!: tryLocalToRemote_size tryRemoteToLocal_size)

function exchange_loop :: "(int \<Rightarrow> bool) \<Rightarrow> exchange \<Rightarrow> exchange" where
  "exchange_loop isSatisfiedBy ex =
     (case exchange_round isSatisfiedBy ex of (ex', True) \<Rightarrow> exchange_loop isSatisfiedBy ex' | (ex', False) \<Rightarrow> ex')"
  by pat_completeness auto
termination
  by (relation "measure (\<lambda>(_, ex). ex_size ex)") (auto dest!: exchange_round_size [OF sym])

declare exchange_loop.simps [simp del]

lemma exchange_loop_code [code]:
  "exchange_loop sat ex = (let p = exchange_round sat ex in if snd p then exchange_loop sat (fst p) else fst p)"
  by (subst exchange_loop.simps) (auto split: prod.splits bool.splits)

definition startExchange :: "repartitioner \<Rightarrow> int \<Rightarrow> exchange_request \<Rightarrow> exchange" where
  "startExchange r activationCount req =
     (let localSet = getCandidatesForSilo (getMigrationCandidates r) (rq_sendingSilo req);
          remoteActivations = rq_activationCountSnapshot req; localActivations = getLocalActivationCount r activationCount;
          (vs, localHeap, remoteHeap) = createCandidateHeaps localSet (rq_exchangeSet req)
      in \<lparr> ex_vertices = vs, ex_localHeap = localHeap, ex_remoteHeap = remoteHeap, ex_localActivations = localActivations,
           ex_remoteActivations = remoteActivations, ex_imbalance = \<bar>localActivations - remoteActivations\<bar>,
           ex_giving = [], ex_accepting = [] \<rparr>)"

definition vertex_ids :: "exchange \<Rightarrow> string list \<Rightarrow> grain_id list" where
  "vertex_ids ex ks = concat (map (\<lambda>k. case js_get (ex_vertices ex) k of Some v \<Rightarrow> [vx_id v] | None \<Rightarrow> []) ks)"

text \<open>The commands to \<open>migrate\<close>, and the pruned edge counter.\<close>

definition finalizeProtocol ::
  "grain_id list \<Rightarrow> grain_id list \<Rightarrow> silo_address \<Rightarrow> repartitioner \<Rightarrow> (grain_id \<times> silo_address) list \<times> repartitioner" where
  "finalizeProtocol giving accepting targetSilo r =
     (let affected = map grain_id_toString (giving @ accepting);
          toRemove = filter (\<lambda>e. grain_id_toString (ev_id (ed_source e)) \<in> set affected \<or> grain_id_toString (ev_id (ed_target e)) \<in> set affected)
                       (map ct_element (fi_elements (rp_edgeWeights r)))
      in (map (\<lambda>g. (g, targetSilo)) giving,
          if affected = [] then r
          else r\<lparr> rp_edgeWeights := foldl (\<lambda>c e. ec_remove e c) (rp_edgeWeights r) toRemove \<rparr>))"

text \<open>\<open>now\<close> and \<open>later\<close> are the two readings of the clock; \<open>None\<close> as the time of the last exchange is the source's
  negative infinity.\<close>

definition acceptExchangeRequest ::
  "(int \<Rightarrow> bool) \<Rightarrow> int \<Rightarrow> int \<Rightarrow> int \<Rightarrow> exchange_request \<Rightarrow> repartitioner
     \<Rightarrow> exchange_response \<times> (grain_id \<times> silo_address) list \<times> repartitioner" where
  "acceptExchangeRequest isSatisfiedBy activationCount now later req r =
     (if (case rp_lastExchangeAt r of None \<Rightarrow> False | Some t \<Rightarrow> now - t < rp_recoveryPeriodMs r)
      then (\<lparr> rs_type = ExchangedRecently, rs_acceptedGrainIds = [], rs_givenGrainIds = [] \<rparr>, [], r)
      else (let ex = exchange_loop isSatisfiedBy (startExchange r activationCount req);
                giving = vertex_ids ex (ex_giving ex); accepting = vertex_ids ex (ex_accepting ex);
                (commands, r1) = finalizeProtocol giving accepting (rq_sendingSilo req) r
            in (\<lparr> rs_type = ExSuccess, rs_acceptedGrainIds = accepting, rs_givenGrainIds = giving \<rparr>, commands,
                r1\<lparr> rp_lastExchangeAt := Some later \<rparr>)))"

text \<open>The initiating side; \<open>send\<close> gives the peer's response, \<open>None\<close> when the request fails.\<close>

fun offer_loop ::
  "(silo_address \<Rightarrow> exchange_request \<Rightarrow> exchange_response option) \<Rightarrow> int
     \<Rightarrow> (silo_address \<times> candidate_vertex list \<times> int) list \<Rightarrow> repartitioner \<Rightarrow> (grain_id \<times> silo_address) list \<times> repartitioner" where
  "offer_loop send activationCount [] r = ([], r)"
| "offer_loop send activationCount ((silo, offered, _) # sets) r =
     (if length offered = 0 then offer_loop send activationCount sets r
      else (case send silo \<lparr> rq_sendingSilo = rp_local r, rq_exchangeSet = offered,
                             rq_activationCountSnapshot = getLocalActivationCount r activationCount \<rparr> of
              None \<Rightarrow> offer_loop send activationCount sets r
            | Some response \<Rightarrow>
                (case rs_type response of
                   ExSuccess \<Rightarrow> finalizeProtocol (rs_acceptedGrainIds response) (rs_givenGrainIds response) silo r
                 | MutualExchangeAttempt \<Rightarrow> ([], r)
                 | ExchangedRecently \<Rightarrow> offer_loop send activationCount sets r)))"

definition triggerExchangeRequest ::
  "(silo_address \<Rightarrow> exchange_request \<Rightarrow> exchange_response option) \<Rightarrow> membership_snapshot \<Rightarrow> int \<Rightarrow> repartitioner
     \<Rightarrow> (grain_id \<times> silo_address) list \<times> repartitioner" where
  "triggerExchangeRequest send snap activationCount r =
     (let silos = filter (\<lambda>s. \<not> silo_equals s (rp_local r)) (activeSilos snap) in
      if length silos = 0 then ([], r)
      else offer_loop send activationCount (createCandidateSets (getMigrationCandidates r) silos) r)"

section \<open>The heaps during an exchange\<close>

definition heaps_ok :: "exchange \<Rightarrow> bool" where
  "heaps_ok ex \<longleftrightarrow> mh_ok (vscore (ex_vertices ex)) (ex_localHeap ex) \<and> mh_ok (vscore (ex_vertices ex)) (ex_remoteHeap ex)
     \<and> (\<forall>k \<in> set (unorderedElements (ex_localHeap ex)). vlocation ex k = LocLocal)
     \<and> (\<forall>k \<in> set (unorderedElements (ex_remoteHeap ex)). vlocation ex k = LocRemote)"

definition weights_ok :: "exchange \<Rightarrow> bool" where
  "weights_ok ex \<longleftrightarrow> (\<forall>k. list_all (\<lambda>(c, d). 0 \<le> d) (vconnected ex k))"

lemma vx_update_get: "js_get (vx_update k f vs) j = (if j = k then map_option f (js_get vs k) else js_get vs j)"
  by (cases "js_get vs k") (simp_all add: vx_update_def js_get_set)

lemma vscore_update:
  "vscore (vx_update k (\<lambda>v. v\<lparr> vx_score := g (vx_score v) \<rparr>) vs) j =
     (if j = k \<and> js_get vs k \<noteq> None then g (vscore vs k) else vscore vs j)"
  by (auto simp: vscore_def vx_update_get split: option.splits)

lemma rescore_frame [simp]:
  "vlocation (raiseLocal k d ex) j = vlocation ex j" "vconnected (raiseLocal k d ex) j = vconnected ex j"
  "vlocation (lowerLocal k d ex) j = vlocation ex j" "vconnected (lowerLocal k d ex) j = vconnected ex j"
  "vlocation (raiseRemote k d ex) j = vlocation ex j" "vconnected (raiseRemote k d ex) j = vconnected ex j"
  "vlocation (lowerRemote k d ex) j = vlocation ex j" "vconnected (lowerRemote k d ex) j = vconnected ex j"
  by (auto simp: vlocation_def vconnected_def raiseLocal_def lowerLocal_def raiseRemote_def lowerRemote_def Let_def vx_update_get split: option.splits)

text \<open>The fields the rescoring of a neighbour leaves alone, and the elements of both heaps.\<close>

definition same_but_scores :: "exchange \<Rightarrow> exchange \<Rightarrow> bool" where
  "same_but_scores ex ex' \<longleftrightarrow> mset (unorderedElements (ex_localHeap ex')) = mset (unorderedElements (ex_localHeap ex))
     \<and> mset (unorderedElements (ex_remoteHeap ex')) = mset (unorderedElements (ex_remoteHeap ex))
     \<and> ex_localActivations ex' = ex_localActivations ex \<and> ex_remoteActivations ex' = ex_remoteActivations ex
     \<and> ex_imbalance ex' = ex_imbalance ex \<and> ex_giving ex' = ex_giving ex \<and> ex_accepting ex' = ex_accepting ex
     \<and> (\<forall>k. vlocation ex' k = vlocation ex k) \<and> (\<forall>k. vconnected ex' k = vconnected ex k)
     \<and> (\<forall>k. map_option vx_id (js_get (ex_vertices ex') k) = map_option vx_id (js_get (ex_vertices ex) k))"

lemma same_but_scores_refl [simp]: "same_but_scores ex ex"
  by (simp add: same_but_scores_def)

lemma same_but_scores_trans: "same_but_scores a b \<Longrightarrow> same_but_scores b c \<Longrightarrow> same_but_scores a c"
  by (simp add: same_but_scores_def)

lemma not_in_other_heap:
  "heaps_ok ex \<Longrightarrow> vlocation ex k = LocLocal \<Longrightarrow> heapIndex (ex_remoteHeap ex) k < 0"
  "heaps_ok ex \<Longrightarrow> vlocation ex k = LocRemote \<Longrightarrow> heapIndex (ex_localHeap ex) k < 0"
  by (auto simp: heaps_ok_def dest: mh_ok_mem) (metis linorder_not_less mh_ok_mem vertex_location.distinct(1))+

lemma vlocation_present:
  "vlocation ex k = LocLocal \<Longrightarrow> js_get (ex_vertices ex) k \<noteq> None" "vlocation ex k = LocRemote \<Longrightarrow> js_get (ex_vertices ex) k \<noteq> None"
  by (auto simp: vlocation_def split: option.splits)

lemma heaps_ok_same:
  assumes "heaps_ok ex" "same_but_scores ex ex'" "mh_ok (vscore (ex_vertices ex')) (ex_localHeap ex')" "mh_ok (vscore (ex_vertices ex')) (ex_remoteHeap ex')"
  shows "heaps_ok ex'"
proof -
  have "set (unorderedElements (ex_localHeap ex')) = set (unorderedElements (ex_localHeap ex))"
    "set (unorderedElements (ex_remoteHeap ex')) = set (unorderedElements (ex_remoteHeap ex))"
    using assms(2) by (auto simp: same_but_scores_def dest: mset_eq_setD)
  then show ?thesis using assms by (simp add: heaps_ok_def same_but_scores_def)
qed

text \<open>One neighbour's score changes by \<open>d\<close>: what all four updates share.\<close>

lemma rescored:
  assumes "js_get vs k \<noteq> None"
  shows "x \<noteq> k \<Longrightarrow> vscore (vx_update k (\<lambda>v. v\<lparr> vx_score := vx_score v + d \<rparr>) vs) x = vscore vs x"
    and "vscore (vx_update k (\<lambda>v. v\<lparr> vx_score := vx_score v + d \<rparr>) vs) k = vscore vs k + d"
    and "x \<noteq> k \<Longrightarrow> vscore (vx_update k (\<lambda>v. v\<lparr> vx_score := vx_score v - d \<rparr>) vs) x = vscore vs x"
    and "vscore (vx_update k (\<lambda>v. v\<lparr> vx_score := vx_score v - d \<rparr>) vs) k = vscore vs k - d"
  using assms vscore_update [of k "\<lambda>x. x + d" vs] vscore_update [of k "\<lambda>x. x - d" vs] by simp_all

lemma rescored_ids:
  "map_option vx_id (js_get (vx_update k (\<lambda>v. v\<lparr> vx_score := g v \<rparr>) vs) j) = map_option vx_id (js_get vs j)"
  by (cases "js_get vs k") (auto simp: vx_update_get)

lemma raiseLocal_ok:
  assumes ok: "heaps_ok ex" and loc: "vlocation ex k = LocLocal" and d: "0 \<le> d"
  shows "heaps_ok (raiseLocal k d ex) \<and> same_but_scores ex (raiseLocal k d ex)"
proof -
  have oks: "mh_ok (vscore (ex_vertices ex)) (ex_localHeap ex)" "mh_ok (vscore (ex_vertices ex)) (ex_remoteHeap ex)"
    using ok by (simp_all add: heaps_ok_def)
  note R = rescored [OF vlocation_present(1) [OF loc], where d = d]
  note I = increase_ok [OF oks(1) R(1)] and O = mh_ok_rescore_outside [OF oks(2) R(1) not_in_other_heap(1) [OF ok loc]]
  have same: "same_but_scores ex (raiseLocal k d ex)"
    using I R(2) d rescore_frame(1,2) [of k d ex] by (simp add: same_but_scores_def) (simp add: raiseLocal_def Let_def rescored_ids)
  moreover have "heaps_ok (raiseLocal k d ex)"
    by (rule heaps_ok_same [OF ok same]) (use I O R(2) d in \<open>simp_all add: raiseLocal_def Let_def\<close>)
  ultimately show ?thesis by blast
qed

lemma lowerLocal_ok:
  assumes ok: "heaps_ok ex" and loc: "vlocation ex k = LocLocal" and d: "0 \<le> d"
  shows "heaps_ok (lowerLocal k d ex) \<and> same_but_scores ex (lowerLocal k d ex)"
proof -
  have oks: "mh_ok (vscore (ex_vertices ex)) (ex_localHeap ex)" "mh_ok (vscore (ex_vertices ex)) (ex_remoteHeap ex)"
    using ok by (simp_all add: heaps_ok_def)
  note R = rescored [OF vlocation_present(1) [OF loc], where d = d]
  note I = decrease_ok [OF oks(1) R(3)] and O = mh_ok_rescore_outside [OF oks(2) R(3) not_in_other_heap(1) [OF ok loc]]
  have same: "same_but_scores ex (lowerLocal k d ex)"
    using I R(4) d rescore_frame(3,4) [of k d ex] by (simp add: same_but_scores_def) (simp add: lowerLocal_def Let_def rescored_ids)
  moreover have "heaps_ok (lowerLocal k d ex)"
    by (rule heaps_ok_same [OF ok same]) (use I O R(4) d in \<open>simp_all add: lowerLocal_def Let_def\<close>)
  ultimately show ?thesis by blast
qed

lemma raiseRemote_ok:
  assumes ok: "heaps_ok ex" and loc: "vlocation ex k = LocRemote" and d: "0 \<le> d"
  shows "heaps_ok (raiseRemote k d ex) \<and> same_but_scores ex (raiseRemote k d ex)"
proof -
  have oks: "mh_ok (vscore (ex_vertices ex)) (ex_remoteHeap ex)" "mh_ok (vscore (ex_vertices ex)) (ex_localHeap ex)"
    using ok by (simp_all add: heaps_ok_def)
  note R = rescored [OF vlocation_present(2) [OF loc], where d = d]
  note I = increase_ok [OF oks(1) R(1)] and O = mh_ok_rescore_outside [OF oks(2) R(1) not_in_other_heap(2) [OF ok loc]]
  have same: "same_but_scores ex (raiseRemote k d ex)"
    using I R(2) d rescore_frame(5,6) [of k d ex] by (simp add: same_but_scores_def) (simp add: raiseRemote_def Let_def rescored_ids)
  moreover have "heaps_ok (raiseRemote k d ex)"
    by (rule heaps_ok_same [OF ok same]) (use I O R(2) d in \<open>simp_all add: raiseRemote_def Let_def\<close>)
  ultimately show ?thesis by blast
qed

lemma lowerRemote_ok:
  assumes ok: "heaps_ok ex" and loc: "vlocation ex k = LocRemote" and d: "0 \<le> d"
  shows "heaps_ok (lowerRemote k d ex) \<and> same_but_scores ex (lowerRemote k d ex)"
proof -
  have oks: "mh_ok (vscore (ex_vertices ex)) (ex_remoteHeap ex)" "mh_ok (vscore (ex_vertices ex)) (ex_localHeap ex)"
    using ok by (simp_all add: heaps_ok_def)
  note R = rescored [OF vlocation_present(2) [OF loc], where d = d]
  note I = decrease_ok [OF oks(1) R(3)] and O = mh_ok_rescore_outside [OF oks(2) R(3) not_in_other_heap(2) [OF ok loc]]
  have same: "same_but_scores ex (lowerRemote k d ex)"
    using I R(4) d rescore_frame(7,8) [of k d ex] by (simp add: same_but_scores_def) (simp add: lowerRemote_def Let_def rescored_ids)
  moreover have "heaps_ok (lowerRemote k d ex)"
    by (rule heaps_ok_same [OF ok same]) (use I O R(4) d in \<open>simp_all add: lowerRemote_def Let_def\<close>)
  ultimately show ?thesis by blast
qed

text \<open>Rescoring all neighbours of the chosen vertex.\<close>

lemma rescore_all_out:
  assumes "heaps_ok ex" "list_all (\<lambda>(c, d). 0 \<le> d) cs"
  shows "let ex' = foldl (\<lambda>ex (c, d). if vlocation ex c = LocLocal then raiseLocal c d ex
      else if vlocation ex c = LocRemote then lowerRemote c d ex else ex) ex cs in heaps_ok ex' \<and> same_but_scores ex ex'"
  using assms
proof (induction cs arbitrary: ex)
  case (Cons p cs)
  obtain c d where p: "p = (c, d)" by force
  have d: "0 \<le> d" and cs: "list_all (\<lambda>(c, d). 0 \<le> d) cs" using Cons.prems p by auto
  let ?f = "if vlocation ex c = LocLocal then raiseLocal c d ex else if vlocation ex c = LocRemote then lowerRemote c d ex else ex"
  have F: "heaps_ok ?f \<and> same_but_scores ex ?f" using Cons.prems(1) d raiseLocal_ok lowerRemote_ok by auto
  have IH: "let ex' = foldl (\<lambda>ex (c, d). if vlocation ex c = LocLocal then raiseLocal c d ex
      else if vlocation ex c = LocRemote then lowerRemote c d ex else ex) ?f cs in heaps_ok ex' \<and> same_but_scores ?f ex'"
    by (rule Cons.IH) (use F cs in simp_all)
  then show ?case using F same_but_scores_trans unfolding Let_def foldl_Cons p prod.case by blast
qed simp

lemma rescore_all_in:
  assumes "heaps_ok ex" "list_all (\<lambda>(c, d). 0 \<le> d) cs"
  shows "let ex' = foldl (\<lambda>ex (c, d). if vlocation ex c = LocLocal then lowerLocal c d ex
      else if vlocation ex c = LocRemote then raiseRemote c d ex else ex) ex cs in heaps_ok ex' \<and> same_but_scores ex ex'"
  using assms
proof (induction cs arbitrary: ex)
  case (Cons p cs)
  obtain c d where p: "p = (c, d)" by force
  have d: "0 \<le> d" and cs: "list_all (\<lambda>(c, d). 0 \<le> d) cs" using Cons.prems p by auto
  let ?f = "if vlocation ex c = LocLocal then lowerLocal c d ex else if vlocation ex c = LocRemote then raiseRemote c d ex else ex"
  have F: "heaps_ok ?f \<and> same_but_scores ex ?f" using Cons.prems(1) d lowerLocal_ok raiseRemote_ok by auto
  have IH: "let ex' = foldl (\<lambda>ex (c, d). if vlocation ex c = LocLocal then lowerLocal c d ex
      else if vlocation ex c = LocRemote then raiseRemote c d ex else ex) ?f cs in heaps_ok ex' \<and> same_but_scores ?f ex'"
    by (rule Cons.IH) (use F cs in simp_all)
  then show ?case using F same_but_scores_trans unfolding Let_def foldl_Cons p prod.case by blast
qed simp

section \<open>One migration\<close>

lemma mh_ok_distinct: "mh_ok score h \<Longrightarrow> distinct (unorderedElements h)"
  by (simp add: mh_ok_def indexed_def mh_array_def unorderedElements_def)

lemma tryPop_cases:
  assumes "mh_ok score h"
  obtains "mh_tryPop (score_cmp score) h = (None, h)"
  | k h' where "mh_tryPop (score_cmp score) h = (Some k, h')" "mh_ok score h'"
      "mset (unorderedElements h) = add_mset k (mset (unorderedElements h'))" "k \<notin> set (unorderedElements h')"
proof (cases "0 < mh_size h")
  case True
  obtain k h' where p: "mh_pop (score_cmp score) h = Inr (k, h')" "mh_ok score h'"
    "mset (unorderedElements h) = add_mset k (mset (unorderedElements h'))"
    by (rule pop_ok [OF assms True])
  have "distinct (k # unorderedElements h')" using mh_ok_distinct [OF assms] p(3) by (metis mset.simps(2) mset_eq_imp_distinct_iff)
  then show thesis using that(2) p True by (simp add: mh_tryPop_def)
next
  case False
  then show thesis using that(1) by (simp add: mh_tryPop_def)
qed

lemma migrateCore_none:
  assumes "tryMigrateCore sat h ld rd ex = (h', None)" "mh_ok (vscore (ex_vertices ex)) h"
  shows "mh_ok (vscore (ex_vertices ex)) h' \<and> mset (unorderedElements h') \<subseteq># mset (unorderedElements h)"
  by (rule tryPop_cases [OF assms(2)]) (use assms in \<open>auto simp: tryMigrateCore_def Let_def split: if_splits\<close>)

lemma migrateCore_some:
  assumes "tryMigrateCore sat h ld rd ex = (h', Some (k, a))" "mh_ok (vscore (ex_vertices ex)) h"
  shows "mh_ok (vscore (ex_vertices ex)) h' \<and> mset (unorderedElements h) = add_mset k (mset (unorderedElements h'))
    \<and> k \<notin> set (unorderedElements h') \<and> 0 < vscore (ex_vertices ex) k
    \<and> a = \<bar>ex_localActivations ex + ld - (ex_remoteActivations ex + rd)\<bar> \<and> (a < ex_imbalance ex \<or> sat a)"
  by (rule tryPop_cases [OF assms(2)]) (use assms in \<open>auto simp: tryMigrateCore_def Let_def split: if_splits\<close>)

definition exchange_inv :: "(int \<Rightarrow> bool) \<Rightarrow> string list \<Rightarrow> string list \<Rightarrow> int \<Rightarrow> int \<Rightarrow> exchange \<Rightarrow> bool" where
  "exchange_inv sat L R la ra ex \<longleftrightarrow> heaps_ok ex \<and> weights_ok ex
     \<and> mset (ex_giving ex) + mset (unorderedElements (ex_localHeap ex)) \<subseteq># mset L
     \<and> mset (ex_accepting ex) + mset (unorderedElements (ex_remoteHeap ex)) \<subseteq># mset R
     \<and> ex_localActivations ex = la - int (length (ex_giving ex)) + int (length (ex_accepting ex))
     \<and> ex_remoteActivations ex = ra + int (length (ex_giving ex)) - int (length (ex_accepting ex))
     \<and> ex_imbalance ex = \<bar>ex_localActivations ex - ex_remoteActivations ex\<bar>
     \<and> (ex_imbalance ex \<le> \<bar>la - ra\<bar> \<or> sat (ex_imbalance ex))"

lemma relocate_frame [simp]:
  "vconnected (relocate k l ex) j = vconnected ex j" "ex_localHeap (relocate k l ex) = ex_localHeap ex"
  "ex_remoteHeap (relocate k l ex) = ex_remoteHeap ex" "ex_giving (relocate k l ex) = ex_giving ex" "ex_accepting (relocate k l ex) = ex_accepting ex"
  "ex_localActivations (relocate k l ex) = ex_localActivations ex" "ex_remoteActivations (relocate k l ex) = ex_remoteActivations ex"
  "ex_imbalance (relocate k l ex) = ex_imbalance ex"
  by (auto simp: relocate_def vconnected_def vx_update_get split: option.splits)

lemma relocate_ok:
  assumes "heaps_ok ex" "k \<notin> set (unorderedElements (ex_localHeap ex))" "k \<notin> set (unorderedElements (ex_remoteHeap ex))"
  shows "heaps_ok (relocate k l ex)"
proof -
  have "vscore (ex_vertices (relocate k l ex)) = vscore (ex_vertices ex)"
    by (rule ext) (auto simp: relocate_def vscore_def vx_update_get split: option.splits)
  moreover have "j \<noteq> k \<Longrightarrow> vlocation (relocate k l ex) j = vlocation ex j" for j
    by (simp add: vlocation_def relocate_def vx_update_get)
  ultimately show ?thesis using assms unfolding heaps_ok_def relocate_frame by metis
qed

text \<open>A tolerance rule that accepts an imbalance accepts every smaller one, as the rules of the source do.\<close>

definition downward :: "(int \<Rightarrow> bool) \<Rightarrow> bool" where
  "downward sat \<longleftrightarrow> (\<forall>x y. sat x \<and> y \<le> x \<longrightarrow> sat y)"

lemma sat_step:
  assumes "downward sat" "i \<le> j \<or> sat i" "a < i \<or> sat a"
  shows "a \<le> j \<or> sat (a::int)"
  using assms unfolding downward_def by (metis less_imp_le order_trans)

lemma localToRemote_inv:
  assumes inv: "exchange_inv sat L R la ra ex" and mono: "downward sat" and t: "tryLocalToRemote sat ex = (ex', b)"
  shows "exchange_inv sat L R la ra ex'"
proof -
  note I = inv [unfolded exchange_inv_def heaps_ok_def]
  have ok: "mh_ok (vscore (ex_vertices ex)) (ex_localHeap ex)" using I by blast
  obtain h r where core: "tryMigrateCore sat (ex_localHeap ex) (-1) 1 ex = (h, r)" by force
  show ?thesis
  proof (cases r)
    case None
    note N = migrateCore_none [OF core [unfolded None] ok]
    have ex': "ex' = ex\<lparr> ex_localHeap := h \<rparr>" using t core None by (simp add: tryLocalToRemote_def)
    have loc: "vlocation ex' = vlocation ex" "vconnected ex' = vconnected ex" by (simp_all add: fun_eq_iff vlocation_def vconnected_def ex')
    have "set (unorderedElements h) \<subseteq> set (unorderedElements (ex_localHeap ex))" using N by (metis mset_subset_eqD set_mset_mset subsetI)
    moreover have "mset (ex_giving ex) + mset (unorderedElements h) \<subseteq># mset L" using I N by (metis subset_mset.add_left_mono subset_mset.order_trans)
    ultimately show ?thesis using inv N by (auto simp: exchange_inv_def heaps_ok_def weights_ok_def loc) (auto simp: ex')
  next
    case (Some p)
    obtain k a where p: "p = (k, a)" by force
    note S = migrateCore_some [OF core [unfolded Some p] ok]
    define ex2 where "ex2 = ex\<lparr> ex_localHeap := h, ex_localActivations := ex_localActivations ex - 1,
       ex_remoteActivations := ex_remoteActivations ex + 1, ex_imbalance := a, ex_giving := ex_giving ex @ [k] \<rparr>"
    define ex3 where "ex3 = foldl (\<lambda>ex (c, d). if vlocation ex c = LocLocal then raiseLocal c d ex
       else if vlocation ex c = LocRemote then lowerRemote c d ex else ex) ex2 (vconnected ex2 k)"
    have ex': "ex' = relocate k LocRemote ex3"
      using t core Some p unfolding ex3_def ex2_def by (simp add: tryLocalToRemote_def migrated_def Let_def)
    have fr: "vlocation ex2 = vlocation ex" "vconnected ex2 = vconnected ex" by (simp_all add: fun_eq_iff vlocation_def vconnected_def ex2_def)
    have kl: "k \<in> set (unorderedElements (ex_localHeap ex))" using S by (metis set_mset_mset union_single_eq_member)
    have sub: "set (unorderedElements h) \<subseteq> set (unorderedElements (ex_localHeap ex))" using S by (metis set_mset_add_mset_insert set_mset_mset subset_insertI)
    have h2: "heaps_ok ex2" using I S sub unfolding heaps_ok_def fr by (auto simp: ex2_def)
    have w2: "list_all (\<lambda>(c, d). 0 \<le> d) (vconnected ex2 k)" using inv by (simp add: fr exchange_inv_def weights_ok_def)
    have R: "heaps_ok ex3" "same_but_scores ex2 ex3" using rescore_all_out [OF h2 w2] by (simp_all add: ex3_def Let_def)
    have sets: "set (unorderedElements (ex_localHeap ex3)) = set (unorderedElements h)" "set (unorderedElements (ex_remoteHeap ex3)) = set (unorderedElements (ex_remoteHeap ex))"
      using R(2) by (auto simp: same_but_scores_def ex2_def dest: mset_eq_setD)
    have "vlocation ex k = LocLocal" using I kl by blast
    then have "k \<notin> set (unorderedElements (ex_remoteHeap ex))" using I by fastforce
    then have ok': "heaps_ok ex'" unfolding ex' by (intro relocate_ok [OF R(1)]) (use S sets in auto)
    have w': "weights_ok ex'" using inv R(2) by (simp add: weights_ok_def ex' same_but_scores_def fr exchange_inv_def)
    have "a \<le> \<bar>la - ra\<bar> \<or> sat a" by (rule sat_step [OF mono]) (use I S in auto)
    then show ?thesis using ok' w' I S R(2) unfolding exchange_inv_def same_but_scores_def ex' ex2_def by auto
  qed
qed

lemma remoteToLocal_inv:
  assumes inv: "exchange_inv sat L R la ra ex" and mono: "downward sat" and t: "tryRemoteToLocal sat ex = (ex', b)"
  shows "exchange_inv sat L R la ra ex'"
proof -
  note I = inv [unfolded exchange_inv_def heaps_ok_def]
  have ok: "mh_ok (vscore (ex_vertices ex)) (ex_remoteHeap ex)" using I by blast
  obtain h r where core: "tryMigrateCore sat (ex_remoteHeap ex) 1 (-1) ex = (h, r)" by force
  show ?thesis
  proof (cases r)
    case None
    note N = migrateCore_none [OF core [unfolded None] ok]
    have ex': "ex' = ex\<lparr> ex_remoteHeap := h \<rparr>" using t core None by (simp add: tryRemoteToLocal_def)
    have loc: "vlocation ex' = vlocation ex" "vconnected ex' = vconnected ex" by (simp_all add: fun_eq_iff vlocation_def vconnected_def ex')
    have "set (unorderedElements h) \<subseteq> set (unorderedElements (ex_remoteHeap ex))" using N by (metis mset_subset_eqD set_mset_mset subsetI)
    moreover have "mset (ex_accepting ex) + mset (unorderedElements h) \<subseteq># mset R" using I N by (metis subset_mset.add_left_mono subset_mset.order_trans)
    ultimately show ?thesis using inv N by (auto simp: exchange_inv_def heaps_ok_def weights_ok_def loc) (auto simp: ex')
  next
    case (Some p)
    obtain k a where p: "p = (k, a)" by force
    note S = migrateCore_some [OF core [unfolded Some p] ok]
    define ex2 where "ex2 = ex\<lparr> ex_remoteHeap := h, ex_localActivations := ex_localActivations ex + 1,
       ex_remoteActivations := ex_remoteActivations ex - 1, ex_imbalance := a, ex_accepting := ex_accepting ex @ [k] \<rparr>"
    define ex3 where "ex3 = foldl (\<lambda>ex (c, d). if vlocation ex c = LocLocal then lowerLocal c d ex
       else if vlocation ex c = LocRemote then raiseRemote c d ex else ex) ex2 (vconnected ex2 k)"
    have ex': "ex' = relocate k LocLocal ex3"
      using t core Some p unfolding ex3_def ex2_def by (simp add: tryRemoteToLocal_def migrated_def Let_def)
    have fr: "vlocation ex2 = vlocation ex" "vconnected ex2 = vconnected ex" by (simp_all add: fun_eq_iff vlocation_def vconnected_def ex2_def)
    have kl: "k \<in> set (unorderedElements (ex_remoteHeap ex))" using S by (metis set_mset_mset union_single_eq_member)
    have sub: "set (unorderedElements h) \<subseteq> set (unorderedElements (ex_remoteHeap ex))" using S by (metis set_mset_add_mset_insert set_mset_mset subset_insertI)
    have h2: "heaps_ok ex2" using I S sub unfolding heaps_ok_def fr by (auto simp: ex2_def)
    have w2: "list_all (\<lambda>(c, d). 0 \<le> d) (vconnected ex2 k)" using inv by (simp add: fr exchange_inv_def weights_ok_def)
    have R: "heaps_ok ex3" "same_but_scores ex2 ex3" using rescore_all_in [OF h2 w2] by (simp_all add: ex3_def Let_def)
    have sets: "set (unorderedElements (ex_remoteHeap ex3)) = set (unorderedElements h)" "set (unorderedElements (ex_localHeap ex3)) = set (unorderedElements (ex_localHeap ex))"
      using R(2) by (auto simp: same_but_scores_def ex2_def dest: mset_eq_setD)
    have "vlocation ex k = LocRemote" using I kl by blast
    then have "k \<notin> set (unorderedElements (ex_localHeap ex))" using I by fastforce
    then have ok': "heaps_ok ex'" unfolding ex' by (intro relocate_ok [OF R(1)]) (use S sets in auto)
    have w': "weights_ok ex'" using inv R(2) by (simp add: weights_ok_def ex' same_but_scores_def fr exchange_inv_def)
    have "a \<le> \<bar>la - ra\<bar> \<or> sat a" by (rule sat_step [OF mono]) (use I S in auto)
    then show ?thesis using ok' w' I S R(2) unfolding exchange_inv_def same_but_scores_def ex' ex2_def by auto
  qed
qed

section \<open>The whole exchange\<close>

lemma round_inv:
  assumes "exchange_inv sat L R la ra ex" "downward sat" "exchange_round sat ex = (ex', b)"
  shows "exchange_inv sat L R la ra ex'"
proof -
  obtain e1 b1 where 1: "tryLocalToRemote sat ex = (e1, b1)" by force
  obtain e2 b2 where 2: "tryRemoteToLocal sat ex = (e2, b2)" by force
  obtain e3 b3 where 3: "tryRemoteToLocal sat e1 = (e3, b3)" by force
  obtain e4 b4 where 4: "tryLocalToRemote sat e2 = (e4, b4)" by force
  have i: "exchange_inv sat L R la ra e1" "exchange_inv sat L R la ra e2"
    using localToRemote_inv [OF assms(1,2) 1] remoteToLocal_inv [OF assms(1,2) 2] by blast+
  then have "exchange_inv sat L R la ra e3" "exchange_inv sat L R la ra e4"
    using remoteToLocal_inv [OF i(1) assms(2) 3] localToRemote_inv [OF i(2) assms(2) 4] by blast+
  moreover have "ex' \<in> {e1, e2, e3, e4}" using assms(3) 1 2 3 4 by (auto simp: exchange_round_def Let_def split: if_splits bool.splits)
  ultimately show ?thesis using i by auto
qed

lemma loop_inv:
  assumes "exchange_inv sat L R la ra ex" "downward sat"
  shows "exchange_inv sat L R la ra (exchange_loop sat ex)"
  using assms
proof (induction sat ex rule: exchange_loop.induct)
  case (1 sat ex)
  obtain ex' b where r: "exchange_round sat ex = (ex', b)" by force
  note I = round_inv [OF "1.prems" r]
  show ?case
  proof (cases b)
    case True
    then show ?thesis using "1.IH" [OF r [symmetric] _ I "1.prems"(2)] r by (subst exchange_loop.simps) simp
  next
    case False
    then show ?thesis using I r by (subst exchange_loop.simps) simp
  qed
qed

section \<open>The start of an exchange\<close>

definition loc_of :: "vertices \<Rightarrow> string \<Rightarrow> vertex_location" where
  "loc_of vs k = (case js_get vs k of Some v \<Rightarrow> vx_location v | None \<Rightarrow> LocUnknown)"

definition wts_ok :: "vertices \<Rightarrow> bool" where
  "wts_ok vs \<longleftrightarrow> (\<forall>k v. js_get vs k = Some v \<longrightarrow> list_all (\<lambda>(c, d). 0 \<le> d) (vx_connected v))"

definition cv_ok :: "candidate_vertex \<Rightarrow> bool" where
  "cv_ok c \<longleftrightarrow> list_all (\<lambda>(i, d). 0 \<le> d) (cv_connectedVertices c)"

abbreviation cvkey :: "candidate_vertex \<Rightarrow> string" where
  "cvkey c \<equiv> grain_id_toString (cv_id c)"

lemma getOrAdd_facts:
  "loc_of (vx_getOrAdd c vs) k = loc_of vs k" "wts_ok vs \<Longrightarrow> wts_ok (vx_getOrAdd c vs)"
  "js_get (vx_getOrAdd c vs) (cvkey c) \<noteq> None" "js_get vs k \<noteq> None \<Longrightarrow> js_get (vx_getOrAdd c vs) k \<noteq> None"
  by (auto simp: vx_getOrAdd_def Let_def loc_of_def wts_ok_def js_get_set split: option.splits if_splits)

lemma connect_facts:
  fixes vs :: vertices and k j :: string
  assumes "0 \<le> d"
  defines "vs' \<equiv> vx_update k (\<lambda>v. v\<lparr> vx_connected := vx_connected v @ [(j, d)] \<rparr>) vs"
  shows "loc_of vs' i = loc_of vs i" "wts_ok vs \<Longrightarrow> wts_ok vs'" "js_get vs' i \<noteq> None \<longleftrightarrow> js_get vs i \<noteq> None"
  using assms by (auto simp: loc_of_def wts_ok_def vx_update_get split: option.splits if_splits)

lemma createVertex_facts:
  assumes "cv_ok c"
  shows "loc_of (createVertex ix c vs) k = loc_of vs k \<and> (wts_ok vs \<longrightarrow> wts_ok (createVertex ix c vs))
    \<and> js_get (createVertex ix c vs) (cvkey c) \<noteq> None"
proof -
  let ?f = "\<lambda>vs (i, transferScore). case js_get ix (grain_id_toString i) of None \<Rightarrow> vs
    | Some source \<Rightarrow> vx_update (cvkey c) (\<lambda>v. v\<lparr> vx_connected := vx_connected v @ [(cvkey source, transferScore)] \<rparr>) (vx_getOrAdd source vs)"
  have "list_all (\<lambda>(i, d). 0 \<le> d) cs \<Longrightarrow> js_get vs (cvkey c) \<noteq> None \<Longrightarrow>
    loc_of (foldl ?f vs cs) k = loc_of vs k \<and> (wts_ok vs \<longrightarrow> wts_ok (foldl ?f vs cs)) \<and> js_get (foldl ?f vs cs) (cvkey c) \<noteq> None" for vs cs
  proof (induction cs arbitrary: vs)
    case (Cons p cs)
    obtain i d where p: "p = (i, d)" by force
    have d: "0 \<le> d" using Cons.prems p by simp
    have "loc_of (?f vs p) k = loc_of vs k \<and> (wts_ok vs \<longrightarrow> wts_ok (?f vs p)) \<and> js_get (?f vs p) (cvkey c) \<noteq> None"
      using Cons.prems(2) connect_facts [OF d] getOrAdd_facts by (auto simp: p split: option.split simp del: not_None_eq)
    then show ?case using Cons.IH [of "?f vs p"] Cons.prems(1) p by simp
  qed simp
  from this [of "cv_connectedVertices c" "vx_getOrAdd c vs"] assms getOrAdd_facts show ?thesis
    by (simp add: createVertex_def cv_ok_def del: not_None_eq)
qed

lemma locate_facts:
  fixes vs :: vertices and k :: string and l :: vertex_location
  assumes "js_get vs k \<noteq> None"
  defines "vs' \<equiv> vx_update k (\<lambda>v. v\<lparr> vx_location := l \<rparr>) vs"
  shows "loc_of vs' j = (if j = k then l else loc_of vs j)" "wts_ok vs \<Longrightarrow> wts_ok vs'"
  using assms by (auto simp: loc_of_def wts_ok_def vx_update_get split: option.splits if_splits)

lemma local_fold:
  assumes "list_all cv_ok cs" "wts_ok vs" "\<And>k. loc_of vs k = (if k \<in> set ks then LocLocal else LocUnknown)"
  shows "let (vs', ks') = foldl (local_vertex ix) (vs, ks) cs in
    ks' = ks @ map cvkey cs \<and> wts_ok vs' \<and> (\<forall>k. loc_of vs' k = (if k \<in> set ks' then LocLocal else LocUnknown))"
  using assms
proof (induction cs arbitrary: vs ks)
  case (Cons c cs)
  let ?vs = "createVertex ix c vs"
  have C: "\<And>k. loc_of ?vs k = loc_of vs k" "wts_ok ?vs" "js_get ?vs (cvkey c) \<noteq> None" using createVertex_facts [of c ix vs] Cons.prems by simp_all
  note L = locate_facts [OF C(3), of LocLocal]
  show ?case
    using Cons.IH [of "vx_update (cvkey c) (\<lambda>v. v\<lparr> vx_location := LocLocal \<rparr>) ?vs" "ks @ [cvkey c]"] Cons.prems C L
    by (simp add: local_vertex_def Let_def)
qed simp

lemma remote_fold:
  assumes "list_all cv_ok cs" "wts_ok vs" "distinct ks" "set ks \<inter> set ls = {}"
    "\<And>k. loc_of vs k = (if k \<in> set ls then LocLocal else if k \<in> set ks then LocRemote else LocUnknown)"
  shows "let (vs', ks') = foldl (remote_vertex ix) (vs, ks) cs in
    set ks' \<subseteq> set ks \<union> cvkey ` set cs \<and> distinct ks' \<and> set ks' \<inter> set ls = {} \<and> wts_ok vs'
    \<and> (\<forall>k. loc_of vs' k = (if k \<in> set ls then LocLocal else if k \<in> set ks' then LocRemote else LocUnknown))"
  using assms
proof (induction cs arbitrary: vs ks)
  case (Cons c cs)
  let ?vs = "createVertex ix c vs"
  have C: "\<And>k. loc_of ?vs k = loc_of vs k" "wts_ok ?vs" "js_get ?vs (cvkey c) \<noteq> None" using createVertex_facts [of c ix vs] Cons.prems by simp_all
  have t: "map_option vx_location (js_get ?vs (cvkey c)) \<noteq> Some LocUnknown \<longleftrightarrow> cvkey c \<in> set ls \<union> set ks"
    using C(1) [of "cvkey c"] C(3) Cons.prems(5) [of "cvkey c"] by (auto simp: loc_of_def split: if_splits)
  show ?case
  proof (cases "cvkey c \<in> set ls \<union> set ks")
    case True
    then have "remote_vertex ix (vs, ks) c = (?vs, ks)" using t by (simp add: remote_vertex_def Let_def)
    then show ?thesis using Cons.IH [of ?vs ks] Cons.prems C by (auto simp: Let_def split: prod.splits)
  next
    case False
    let ?vs' = "vx_update (cvkey c) (\<lambda>v. v\<lparr> vx_location := LocRemote \<rparr>) ?vs"
    note L = locate_facts [OF C(3), of LocRemote]
    have "remote_vertex ix (vs, ks) c = (?vs', ks @ [cvkey c])" using False t by (auto simp: remote_vertex_def Let_def)
    moreover have "let (vs', ks') = foldl (remote_vertex ix) (?vs', ks @ [cvkey c]) cs in
      set ks' \<subseteq> set (ks @ [cvkey c]) \<union> cvkey ` set cs \<and> distinct ks' \<and> set ks' \<inter> set ls = {} \<and> wts_ok vs'
      \<and> (\<forall>k. loc_of vs' k = (if k \<in> set ls then LocLocal else if k \<in> set ks' then LocRemote else LocUnknown))"
      by (rule Cons.IH) (use Cons.prems False C L in auto)
    ultimately show ?thesis by (auto simp: Let_def split: prod.splits)
  qed
qed simp

lemma heaps_start:
  assumes "list_all cv_ok cs" "list_all cv_ok ds" "distinct (map cvkey cs)" "createCandidateHeaps cs ds = (vs, lh, rh)"
  obtains R where "mh_ok (vscore vs) lh" "mh_ok (vscore vs) rh" "mset (unorderedElements lh) = mset (map cvkey cs)"
    "mset (unorderedElements rh) = mset R" "distinct R" "set R \<subseteq> cvkey ` set ds" "set R \<inter> cvkey ` set cs = {}"
    "wts_ok vs" "\<forall>k. loc_of vs k = (if k \<in> cvkey ` set cs then LocLocal else if k \<in> set R then LocRemote else LocUnknown)"
proof -
  let ?ix = "foldl (\<lambda>ix c. js_set (cvkey c) c ix) [] (cs @ ds)"
  obtain vs1 ls where l: "foldl (local_vertex ?ix) ([], []) cs = (vs1, ls)" by force
  obtain vs2 R where r: "foldl (remote_vertex ?ix) (vs1, []) ds = (vs2, R)" by force
  have "wts_ok []" "loc_of [] k = LocUnknown" for k by (simp_all add: wts_ok_def loc_of_def)
  then have L: "ls = map cvkey cs" "wts_ok vs1" "\<And>k. loc_of vs1 k = (if k \<in> set ls then LocLocal else LocUnknown)"
    using local_fold [OF assms(1), of "[]" "[]" ?ix] l by simp_all
  have R: "set R \<subseteq> cvkey ` set ds" "distinct R" "set R \<inter> set ls = {}" "wts_ok vs2"
    "\<And>k. loc_of vs2 k = (if k \<in> set ls then LocLocal else if k \<in> set R then LocRemote else LocUnknown)"
    using remote_fold [OF assms(2) L(2), of "[]" ls ?ix] r L(3) by simp_all
  have eq: "vs = vs2" "lh = newMaxHeap (vcmp vs2) ls" "rh = newMaxHeap (vcmp vs2) R" using assms(4) l r by (auto simp: createCandidateHeaps_def Let_def)
  show thesis
    by (rule that [of R]) (use newMaxHeap_ok [of ls "vscore vs2"] newMaxHeap_ok [of R "vscore vs2"] R L(1) assms(3) eq in auto)
qed

text \<open>The local candidates: one per grain, with nonnegative weights.\<close>

definition mc_ok :: "migration_candidates \<Rightarrow> bool" where
  "mc_ok mc \<longleftrightarrow> js_wf mc \<and> list_all (\<lambda>(k, es). es \<noteq> [] \<and> list_all (\<lambda>e. grain_id_toString (ve_sourceId e) = k \<and> 0 \<le> ve_weight e) es) mc"

lemma js_set_list_all: "js_wf m \<Longrightarrow> list_all P m \<Longrightarrow> P (k, v) \<Longrightarrow> list_all P (js_set k v m)"
  unfolding list_all_iff by (metis js_set_mem)

lemma mc_push_ok: "mc_ok mc \<Longrightarrow> 0 \<le> ve_weight v \<Longrightarrow> mc_ok (mc_push v mc)"
proof -
  assume ok: "mc_ok mc" and w: "0 \<le> ve_weight v"
  let ?k = "grain_id_toString (ve_sourceId v)"
  have "list_all (\<lambda>e. grain_id_toString (ve_sourceId e) = ?k \<and> 0 \<le> ve_weight e) es" if "js_get mc ?k = Some es" for es
    using ok js_get_memD [OF that] by (auto simp: mc_ok_def list_all_iff)
  then show ?thesis using ok w
    by (auto simp: mc_push_def Let_def mc_ok_def js_set_list_all split: option.splits)
qed

lemma mc_step_ok: "mc_ok mc \<Longrightarrow> 0 \<le> ct_count x \<Longrightarrow> mc_ok (mc_step loc mc x)"
  by (simp add: mc_step_def Let_def mc_push_ok)

lemma getMigrationCandidates_ok:
  assumes "list_all (\<lambda>x. 0 \<le> ct_count x) (fi_elements (rp_edgeWeights r))"
  shows "mc_ok (getMigrationCandidates r)"
proof -
  have "list_all (\<lambda>x. 0 \<le> ct_count x) xs \<Longrightarrow> mc_ok mc \<Longrightarrow> mc_ok (foldl (mc_step loc) mc xs)" for xs mc loc
    by (induction xs arbitrary: mc) (auto simp: mc_step_ok)
  from this [OF assms, of "[]"] show ?thesis by (simp add: getMigrationCandidates_def mc_ok_def)
qed

lemma candidates_ok:
  assumes "mc_ok mc"
  shows "list_all cv_ok (getCandidatesForSilo mc silo) \<and> distinct (map cvkey (getCandidatesForSilo mc silo))
    \<and> cvkey ` set (getCandidatesForSilo mc silo) \<subseteq> fst ` set mc"
  using assms
proof (induction mc)
  case Nil
  then show ?case by (simp add: getCandidatesForSilo_def)
next
  case (Cons p mc)
  obtain k es where p: "p = (k, es)" by force
  have ok: "mc_ok mc" "k \<notin> fst ` set mc" "es \<noteq> []" "\<forall>e \<in> set es. grain_id_toString (ve_sourceId e) = k \<and> 0 \<le> ve_weight e"
    using Cons.prems p by (auto simp: mc_ok_def js_wf_def list_all_iff)
  obtain l m where sc: "edge_scores silo es = (l, m)" by force
  have "grain_id_toString (ve_sourceId (hd es)) = k" using ok(3,4) by simp
  moreover have "getCandidatesForSilo (p # mc) silo =
     (if m \<le> l then [] else [\<lparr> cv_id = ve_sourceId (hd es), cv_accumulatedTransferScore = m - l,
        cv_connectedVertices = map (\<lambda>e. (ve_targetId e, ve_weight e)) es \<rparr>]) @ getCandidatesForSilo mc silo"
    by (simp add: getCandidatesForSilo_def p sc)
  ultimately show ?case using Cons.IH [OF ok(1)] ok(2,4) by (auto simp: p cv_ok_def list_all_iff)
qed

lemma startExchange_inv:
  assumes "list_all (\<lambda>x. 0 \<le> ct_count x) (fi_elements (rp_edgeWeights r))" "list_all cv_ok (rq_exchangeSet req)"
  obtains R where "exchange_inv sat (map cvkey (getCandidatesForSilo (getMigrationCandidates r) (rq_sendingSilo req))) R
      (getLocalActivationCount r n) (rq_activationCountSnapshot req) (startExchange r n req)"
    "distinct R" "set R \<subseteq> cvkey ` set (rq_exchangeSet req)"
    "set R \<inter> cvkey ` set (getCandidatesForSilo (getMigrationCandidates r) (rq_sendingSilo req)) = {}"
    "\<forall>k \<in> cvkey ` set (getCandidatesForSilo (getMigrationCandidates r) (rq_sendingSilo req)) \<union> set R.
       js_get (ex_vertices (startExchange r n req)) k \<noteq> None"
proof -
  let ?cs = "getCandidatesForSilo (getMigrationCandidates r) (rq_sendingSilo req)"
  have C: "list_all cv_ok ?cs" "distinct (map cvkey ?cs)" using candidates_ok [OF getMigrationCandidates_ok [OF assms(1)]] by blast+
  obtain vs lh rh where h: "createCandidateHeaps ?cs (rq_exchangeSet req) = (vs, lh, rh)" by (metis prod_cases3)
  let ?ex = "startExchange r n req"
  obtain R where R: "mh_ok (vscore vs) lh" "mh_ok (vscore vs) rh" "mset (unorderedElements lh) = mset (map cvkey ?cs)"
    "mset (unorderedElements rh) = mset R" "distinct R" "set R \<subseteq> cvkey ` set (rq_exchangeSet req)" "set R \<inter> cvkey ` set ?cs = {}"
    "wts_ok vs" "\<forall>k. loc_of vs k = (if k \<in> cvkey ` set ?cs then LocLocal else if k \<in> set R then LocRemote else LocUnknown)"
    by (rule heaps_start [OF C(1) assms(2) C(2) h])
  have ex: "ex_vertices ?ex = vs" "ex_localHeap ?ex = lh" "ex_remoteHeap ?ex = rh" "ex_giving ?ex = []" "ex_accepting ?ex = []"
    "ex_localActivations ?ex = getLocalActivationCount r n" "ex_remoteActivations ?ex = rq_activationCountSnapshot req"
    "ex_imbalance ?ex = \<bar>getLocalActivationCount r n - rq_activationCountSnapshot req\<bar>"
    using h by (simp_all add: startExchange_def Let_def)
  have loc: "vlocation ?ex k = loc_of vs k" for k by (simp add: vlocation_def loc_of_def ex)
  have sets: "set (unorderedElements lh) = cvkey ` set ?cs" "set (unorderedElements rh) = set R"
    using mset_eq_setD [OF R(3)] mset_eq_setD [OF R(4)] by simp_all
  have "heaps_ok ?ex" using R sets by (auto simp: heaps_ok_def ex loc)
  moreover have "weights_ok ?ex" using R(8) by (auto simp: weights_ok_def wts_ok_def vconnected_def ex split: option.splits)
  ultimately have "exchange_inv sat (map cvkey ?cs) R (getLocalActivationCount r n) (rq_activationCountSnapshot req) ?ex"
    using R(3,4) by (simp add: exchange_inv_def ex)
  moreover have "js_get (ex_vertices ?ex) k \<noteq> None" if "k \<in> cvkey ` set ?cs \<union> set R" for k
    using that spec [OF R(9), of k] R(7) by (cases "js_get vs k") (auto simp: ex loc_of_def split: if_splits)
  ultimately show thesis by (intro that [OF _ R(5,6,7)]) blast+
qed

section \<open>Identities\<close>

definition ids_of :: "vertices \<Rightarrow> string \<Rightarrow> grain_id option" where
  "ids_of vs k = map_option vx_id (js_get vs k)"

definition ids_ok :: "vertices \<Rightarrow> bool" where
  "ids_ok vs \<longleftrightarrow> (\<forall>k g. ids_of vs k = Some g \<longrightarrow> grain_id_toString g = k)"

lemma ids_update [simp]:
  "ids_of (vx_update k (\<lambda>v. v\<lparr> vx_score := f v \<rparr>) vs) = ids_of vs" "ids_of (vx_update k (\<lambda>v. v\<lparr> vx_location := l \<rparr>) vs) = ids_of vs"
  "ids_of (vx_update k (\<lambda>v. v\<lparr> vx_connected := cs v \<rparr>) vs) = ids_of vs"
  by (auto simp: ids_of_def vx_update_get fun_eq_iff option.map_comp comp_def)

lemma ids_rescore [simp]:
  "ids_of (ex_vertices (raiseLocal k d ex)) = ids_of (ex_vertices ex)" "ids_of (ex_vertices (lowerLocal k d ex)) = ids_of (ex_vertices ex)"
  "ids_of (ex_vertices (raiseRemote k d ex)) = ids_of (ex_vertices ex)" "ids_of (ex_vertices (lowerRemote k d ex)) = ids_of (ex_vertices ex)"
  "ids_of (ex_vertices (relocate k l ex)) = ids_of (ex_vertices ex)" "ids_of (ex_vertices (migrated a b c ex)) = ids_of (ex_vertices ex)"
  by (simp_all add: raiseLocal_def lowerLocal_def raiseRemote_def lowerRemote_def relocate_def migrated_def Let_def)

lemma ids_fold:
  "ids_of (ex_vertices (foldl (\<lambda>ex (c, d). if vlocation ex c = LocLocal then raiseLocal c d ex
     else if vlocation ex c = LocRemote then lowerRemote c d ex else ex) ex cs)) = ids_of (ex_vertices ex)"
  "ids_of (ex_vertices (foldl (\<lambda>ex (c, d). if vlocation ex c = LocLocal then lowerLocal c d ex
     else if vlocation ex c = LocRemote then raiseRemote c d ex else ex) ex cs)) = ids_of (ex_vertices ex)"
  by (induction cs arbitrary: ex) auto

lemma ids_try:
  "tryLocalToRemote sat ex = (ex', b) \<Longrightarrow> ids_of (ex_vertices ex') = ids_of (ex_vertices ex)"
  "tryRemoteToLocal sat ex = (ex', b) \<Longrightarrow> ids_of (ex_vertices ex') = ids_of (ex_vertices ex)"
  by (auto simp: tryLocalToRemote_def tryRemoteToLocal_def Let_def ids_fold migrated_def split: prod.splits option.splits)

lemma ids_round: "exchange_round sat ex = (ex', b) \<Longrightarrow> ids_of (ex_vertices ex') = ids_of (ex_vertices ex)"
  by (auto simp: exchange_round_def Let_def dest!: ids_try split: if_splits prod.splits bool.splits)

lemma ids_loop: "ids_of (ex_vertices (exchange_loop sat ex)) = ids_of (ex_vertices ex)"
proof (induction sat ex rule: exchange_loop.induct)
  case (1 sat ex)
  obtain ex' b where r: "exchange_round sat ex = (ex', b)" by force
  show ?case
  proof (cases b)
    case True
    then show ?thesis using "1.IH" [OF r [symmetric]] r ids_round [OF r] by (subst exchange_loop.simps) simp
  next
    case False
    then show ?thesis using r ids_round [OF r] by (subst exchange_loop.simps) simp
  qed
qed

lemma ids_getOrAdd: "ids_ok vs \<Longrightarrow> ids_ok (vx_getOrAdd c vs)"
  by (auto simp: ids_ok_def ids_of_def vx_getOrAdd_def Let_def js_get_set split: option.splits if_splits)

lemma ids_createVertex: "ids_ok vs \<Longrightarrow> ids_ok (createVertex ix c vs)"
proof -
  let ?f = "\<lambda>vs (i, transferScore). case js_get ix (grain_id_toString i) of None \<Rightarrow> vs
    | Some source \<Rightarrow> vx_update (cvkey c) (\<lambda>v. v\<lparr> vx_connected := vx_connected v @ [(cvkey source, transferScore)] \<rparr>) (vx_getOrAdd source vs)"
  have "ids_ok (?f vs p)" if "ids_ok vs" for vs p
    using that ids_getOrAdd [OF that] by (cases p) (auto simp: ids_ok_def split: option.split)
  then have "ids_ok vs \<Longrightarrow> ids_ok (foldl ?f vs cs)" for vs cs by (induction cs arbitrary: vs) simp_all
  then show "ids_ok vs \<Longrightarrow> ids_ok (createVertex ix c vs)" by (simp add: createVertex_def ids_getOrAdd)
qed

lemma ids_list_step:
  assumes "ids_ok (fst st)"
  shows "ids_ok (fst (local_vertex ix st c))" "ids_ok (fst (remote_vertex ix st c))"
proof -
  note C = ids_createVertex [OF assms, of ix c]
  have "ids_ok (vx_update k (\<lambda>v. v\<lparr> vx_location := l \<rparr>) (createVertex ix c (fst st)))" for k l
    using C unfolding ids_ok_def ids_update .
  with C show "ids_ok (fst (local_vertex ix st c))" "ids_ok (fst (remote_vertex ix st c))"
    by (simp_all add: local_vertex_def remote_vertex_def Let_def)
qed

lemma ids_list:
  "ids_ok (fst st) \<Longrightarrow> ids_ok (fst (foldl (local_vertex ix) st cs))"
  "ids_ok (fst st) \<Longrightarrow> ids_ok (fst (foldl (remote_vertex ix) st cs))"
  by (induction cs arbitrary: st) (simp_all add: ids_list_step)

lemma ids_start: "createCandidateHeaps cs ds = (vs, lh, rh) \<Longrightarrow> ids_ok vs"
proof -
  let ?ix = "foldl (\<lambda>ix c. js_set (cvkey c) c ix) [] (cs @ ds)"
  obtain vs1 ls where l: "foldl (local_vertex ?ix) ([], []) cs = (vs1, ls)" by force
  obtain vs2 R where r: "foldl (remote_vertex ?ix) (vs1, []) ds = (vs2, R)" by force
  have "ids_ok vs1" using ids_list(1) [of "([], [])" ?ix cs] unfolding l by (simp add: ids_ok_def ids_of_def)
  then have "ids_ok vs2" using ids_list(2) [of "(vs1, [])" ?ix ds] unfolding r by simp
  moreover assume "createCandidateHeaps cs ds = (vs, lh, rh)"
  then have "vs = vs2" using l r by (auto simp: createCandidateHeaps_def Let_def)
  ultimately show ?thesis by simp
qed

text \<open>A small exchange: one recorded edge to the asking silo, which offers one grain of its own.\<close>

definition demo_request :: exchange_request where
  "demo_request = \<lparr> rq_sendingSilo = SiloAddress ''b'' ''2'' ''h2'',
     rq_exchangeSet = [\<lparr> cv_id = GrainId ''p'' (KString ''x''), cv_accumulatedTransferScore = 4, cv_connectedVertices = [] \<rparr>],
     rq_activationCountSnapshot = 5 \<rparr>"

definition demo_repartitioner :: repartitioner where
  "demo_repartitioner = newRepartitioner (SiloAddress ''a'' ''1'' ''h1'') 8 0 (\<lambda>_. True)"

definition demo_recorded :: repartitioner where
  "demo_recorded = the (recordLocalEdge (Some (GrainId ''p'' (KString ''u''))) (GrainId ''p'' (KString ''v''))
     (SiloAddress ''b'' ''2'' ''h2'') demo_repartitioner)"

lemma demo_exchange:
  "list_all (\<lambda>x. 0 \<le> ct_count x) (fi_elements (rp_edgeWeights demo_recorded))"
  "list_all cv_ok (rq_exchangeSet demo_request)"
  "case acceptExchangeRequest (\<lambda>x. x \<le> 10) 3 100 101 demo_request demo_recorded of (resp, _) \<Rightarrow>
     rs_type resp = ExSuccess \<and> rs_givenGrainIds resp = [GrainId ''p'' (KString ''u'')] \<and> rs_acceptedGrainIds resp = [GrainId ''p'' (KString ''x'')]"
  by code_simp+

section \<open>Properties\<close>

lemma vertex_ids_keys:
  assumes "ids_ok vs" "\<forall>k \<in> set ks. ids_of vs k \<noteq> None" "ids_of (ex_vertices ex) = ids_of vs"
  shows "map grain_id_toString (vertex_ids ex ks) = ks"
  using assms(2)
proof (induction ks)
  case (Cons k ks)
  then obtain g where g: "ids_of vs k = Some g" by auto
  then have "\<exists>v. js_get (ex_vertices ex) k = Some v \<and> vx_id v = g" using assms(3) by (metis (no_types, lifting) ids_of_def map_option_eq_Some)
  moreover have "grain_id_toString g = k" using g assms(1) by (simp add: ids_ok_def)
  ultimately show ?case using Cons by (auto simp: vertex_ids_def)
qed (simp add: vertex_ids_def)

lemma submset_facts:
  assumes "mset xs + M \<subseteq># mset ys" "distinct ys"
  shows "distinct xs \<and> set xs \<subseteq> set ys"
proof -
  have sub: "mset xs \<subseteq># mset ys" using assms(1) by (meson mset_subset_eq_add_left subset_mset.order_trans)
  then have "set xs \<subseteq> set ys" by (metis set_mset_mono set_mset_mset)
  moreover obtain zs where "mset ys = mset (xs @ zs)" using sub by (metis ex_mset mset_append mset_subset_eq_exists_conv)
  then have "distinct xs" using assms(2) by (metis distinct_append mset_eq_imp_distinct_iff)
  ultimately show ?thesis by simp
qed

text \<open>C12: An exchange gives away only local grains that gain from moving to the asking silo and accepts only grains
  that silo offered, each once and none both ways; it commands exactly the migrations it reports; and the
  imbalance of activations between the two silos is afterwards no worse than before, or tolerated.\<close>

theorem exchange_sound:
  assumes "acceptExchangeRequest sat n now later req r = (resp, commands, r')" "rs_type resp = ExSuccess" "downward sat"
    and "list_all (\<lambda>x. 0 \<le> ct_count x) (fi_elements (rp_edgeWeights r))" "list_all cv_ok (rq_exchangeSet req)"
  shows "let offered = grain_id_toString ` cv_id ` set (rq_exchangeSet req);
             candidates = grain_id_toString ` cv_id ` set (getCandidatesForSilo (getMigrationCandidates r) (rq_sendingSilo req));
             given = map grain_id_toString (rs_givenGrainIds resp); accepted = map grain_id_toString (rs_acceptedGrainIds resp);
             loc = getLocalActivationCount r n; rem = rq_activationCountSnapshot req;
             imbalance = \<bar>(loc - int (length given) + int (length accepted)) - (rem + int (length given) - int (length accepted))\<bar>
         in distinct given \<and> set given \<subseteq> candidates \<and> distinct accepted \<and> set accepted \<subseteq> offered - candidates
            \<and> commands = map (\<lambda>g. (g, rq_sendingSilo req)) (rs_givenGrainIds resp)
            \<and> (imbalance \<le> \<bar>loc - rem\<bar> \<or> sat imbalance)"
proof -
  let ?cs = "getCandidatesForSilo (getMigrationCandidates r) (rq_sendingSilo req)"
  let ?start = "startExchange r n req"
  let ?ex = "exchange_loop sat ?start"
  obtain R where I0: "exchange_inv sat (map cvkey ?cs) R (getLocalActivationCount r n) (rq_activationCountSnapshot req) ?start"
    and R: "distinct R" "set R \<subseteq> cvkey ` set (rq_exchangeSet req)" "set R \<inter> cvkey ` set ?cs = {}"
    and there: "\<forall>k \<in> cvkey ` set ?cs \<union> set R. js_get (ex_vertices ?start) k \<noteq> None"
    by (rule startExchange_inv [OF assms(4,5), where sat = sat and n = n])
  note I = loop_inv [OF I0 assms(3), unfolded exchange_inv_def]
  have ids: "ids_ok (ex_vertices ?start)"
    by (cases "createCandidateHeaps ?cs (rq_exchangeSet req)") (auto simp: startExchange_def Let_def dest!: ids_start)
  have dist: "distinct (map cvkey ?cs)" using candidates_ok [OF getMigrationCandidates_ok [OF assms(4)]] by blast
  have G: "distinct (ex_giving ?ex)" "set (ex_giving ?ex) \<subseteq> cvkey ` set ?cs" using submset_facts [OF _ dist] I by auto
  have A: "distinct (ex_accepting ?ex)" "set (ex_accepting ?ex) \<subseteq> set R" using submset_facts [OF _ R(1)] I by auto
  have keys: "map grain_id_toString (vertex_ids ?ex (ex_giving ?ex)) = ex_giving ?ex"
    "map grain_id_toString (vertex_ids ?ex (ex_accepting ?ex)) = ex_accepting ?ex"
    by (rule vertex_ids_keys [OF ids _ ids_loop]; use G(2) A(2) there in \<open>auto simp: ids_of_def\<close>)+
  have resp: "rs_givenGrainIds resp = vertex_ids ?ex (ex_giving ?ex)" "rs_acceptedGrainIds resp = vertex_ids ?ex (ex_accepting ?ex)"
    "commands = map (\<lambda>g. (g, rq_sendingSilo req)) (vertex_ids ?ex (ex_giving ?ex))"
    using assms(1,2) by (auto simp: acceptExchangeRequest_def finalizeProtocol_def Let_def split: if_splits)
  show ?thesis unfolding Let_def resp keys using G A R I by (auto simp: image_image)
qed

theorem exchange_sound_witness:
  "\<exists>resp commands r'. acceptExchangeRequest (\<lambda>x. x \<le> 10) 3 100 101 demo_request demo_recorded = (resp, commands, r')
     \<and> rs_givenGrainIds resp = [GrainId ''p'' (KString ''u'')] \<and> rs_acceptedGrainIds resp = [GrainId ''p'' (KString ''x'')]
     \<and> commands = [(GrainId ''p'' (KString ''u''), SiloAddress ''b'' ''2'' ''h2'')]"
proof -
  obtain resp commands r' where a: "acceptExchangeRequest (\<lambda>x. x \<le> 10) 3 100 101 demo_request demo_recorded = (resp, commands, r')"
    by (metis prod_cases3)
  have d: "downward (\<lambda>x. x \<le> 10)" by (auto simp: downward_def)
  note D = demo_exchange(3) [unfolded a prod.case]
  then have "rs_type resp = ExSuccess" by blast
  from exchange_sound [OF a this d demo_exchange(1,2)] have "commands = map (\<lambda>g. (g, rq_sendingSilo demo_request)) (rs_givenGrainIds resp)"
    by (simp add: Let_def)
  with a D show ?thesis by (simp add: demo_request_def)
qed

end
