(* ===== verification/Anchored_Filter.thy ===== *)
theory Anchored_Filter
  imports Identity "HOL-Library.Word"
begin

unbundle bit_operations_syntax

text \<open>
  The blocked bloom filter and its rotating generations
  (\<^verbatim>\<open>runtime/src/placement/repartitioning/blocked-bloom-filter.ts\<close>). Filter words are \<open>32 word\<close>, hashes
  \<open>64 word\<close>; shifts use the low five bits of their count, as JavaScript does. The number of blocks comes from
  floating-point arithmetic on the capacity and the false-positive rate and is the parameter \<open>blocks\<close>; a write
  outside the typed array is ignored, a read there is \<open>undefined\<close>, whose bits are 0.

  Shown: an added grain is found until as many rotations as there are generations have passed, whatever is
  added meanwhile; a filter with no block (capacity 1, for instance) finds nothing.
\<close>

definition hash64 :: "grain_id \<Rightarrow> 64 word" where
  "hash64 g =
     (let seed = getUniformHashCode g; key = grain_id_toString g;
          hi = stableHash32 (show_int seed @ '':'' @ key); lo = stableHash32 (key @ '':'' @ show_int seed)
      in push_bit 32 (word_of_int hi) OR word_of_int lo)"

definition rotateLeft64 :: "64 word \<Rightarrow> nat \<Rightarrow> 64 word" where
  "rotateLeft64 v shift = (let s = shift mod 64 in push_bit s v OR drop_bit (64 - s) v)"

definition getBlockIndex :: "64 word \<Rightarrow> int \<Rightarrow> nat" where
  "getBlockIndex hash buckets = nat ((uint (hash AND 0xffffffff) * buckets) div 2 ^ 32)"

text \<open>\<open>1 << h\<close>.\<close>

definition shift_one :: "32 word \<Rightarrow> 32 word" where
  "shift_one h = push_bit (nat (uint (h AND 31))) 1"

definition computeMask1 :: "64 word \<Rightarrow> 32 word" where
  "computeMask1 hash = (let h = ucast hash in shift_one h OR shift_one (signed_drop_bit 6 h))"

definition computeMask2 :: "64 word \<Rightarrow> 32 word" where
  "computeMask2 hash = (let h = ucast hash in shift_one (signed_drop_bit 12 h) OR shift_one (signed_drop_bit 18 h))"

record bloom_filter =
  bf_blocks :: nat
  bf_filter :: "32 word list"

definition newBloomFilter :: "nat \<Rightarrow> bloom_filter" where
  "newBloomFilter blocks = \<lparr> bf_blocks = blocks, bf_filter = replicate (blocks + 1) 0 \<rparr>"

definition block_at :: "bloom_filter \<Rightarrow> nat \<Rightarrow> 32 word" where
  "block_at f i = (if i < length (bf_filter f) then bf_filter f ! i else 0)"

definition block_or :: "nat \<Rightarrow> 32 word \<Rightarrow> bloom_filter \<Rightarrow> bloom_filter" where
  "block_or i bits f = (if i < length (bf_filter f) then f\<lparr> bf_filter := (bf_filter f)[i := bf_filter f ! i OR bits] \<rparr> else f)"

definition bf_add :: "grain_id \<Rightarrow> bloom_filter \<Rightarrow> bloom_filter" where
  "bf_add g f =
     (let hash = hash64 g; index = getBlockIndex hash (int (bf_blocks f)); hash' = hash XOR rotateLeft64 hash 32;
          mask1 = computeMask1 hash'; mask2 = computeMask2 hash'
      in block_or (index + 1) mask2 (block_or index mask1 f))"

definition bf_contains :: "bloom_filter \<Rightarrow> grain_id \<Rightarrow> bool" where
  "bf_contains f g =
     (let hash = hash64 g; index = getBlockIndex hash (int (bf_blocks f)); hash' = hash XOR rotateLeft64 hash 32;
          block1 = block_at f index; block2 = block_at f (index + 1);
          mask1 = computeMask1 hash'; mask2 = computeMask2 hash'
      in mask1 AND block1 = mask1 \<and> mask2 AND block2 = mask2)"

definition bf_reset :: "bloom_filter \<Rightarrow> bloom_filter" where
  "bf_reset f = f\<lparr> bf_filter := replicate (length (bf_filter f)) 0 \<rparr>"

type_synonym anchored_filter = "bloom_filter list"

definition newAnchoredFilter :: "nat \<Rightarrow> nat \<Rightarrow> string + anchored_filter" where
  "newAnchoredFilter blocks generations =
     (if generations < 1 then Inl ''generations: Must have at least 1 generation.''
      else Inr (replicate generations (newBloomFilter blocks)))"

definition af_add :: "grain_id \<Rightarrow> anchored_filter \<Rightarrow> anchored_filter" where
  "af_add g fs = fs[0 := bf_add g (fs ! 0)]"

definition af_contains :: "anchored_filter \<Rightarrow> grain_id \<Rightarrow> bool" where
  "af_contains fs g = list_ex (\<lambda>f. bf_contains f g) fs"

definition af_rotate :: "anchored_filter \<Rightarrow> anchored_filter" where
  "af_rotate fs =
     (let n = length fs; nextActive = bf_reset (fs ! (n - 1)); fs1 = fs[n - 1 := nextActive];
          shifted = foldl (\<lambda>gs i. gs[i := gs ! (i - 1)]) fs1 (rev [1..<n])
      in shifted[0 := nextActive])"

definition af_reset :: "anchored_filter \<Rightarrow> anchored_filter" where
  "af_reset fs = map bf_reset fs"

section \<open>One filter\<close>

definition bf_ok :: "bloom_filter \<Rightarrow> bool" where
  "bf_ok f \<longleftrightarrow> 0 < bf_blocks f \<and> length (bf_filter f) = bf_blocks f + 1"

lemma low_bits_less: "uint (h AND 0xffffffff) < 2 ^ 32" for h :: "64 word"
proof -
  have "h AND 0xffffffff = take_bit 32 h" by (simp add: take_bit_eq_mask mask_eq_exp_minus_1)
  then have "uint (h AND 0xffffffff) = take_bit 32 (uint h)" by (simp add: unsigned_take_bit_eq)
  then show ?thesis by (metis take_bit_int_less_exp)
qed

lemma div_below: "a < b * c \<Longrightarrow> 0 < c \<Longrightarrow> a div c < b" for a b c :: int
proof (rule ccontr)
  assume "a < b * c" "0 < c" "\<not> a div c < b"
  then have "b * c \<le> a div c * c" by simp
  also have "\<dots> \<le> a" using \<open>0 < c\<close> by (metis minus_mod_eq_div_mult pos_mod_sign diff_le_self le_add_same_cancel1 diff_le_eq)
  finally show False using \<open>a < b * c\<close> by simp
qed

lemma getBlockIndex_less: "0 < b \<Longrightarrow> getBlockIndex h (int b) < b"
proof -
  assume b: "0 < b"
  let ?x = "uint (h AND 0xffffffff)"
  have "?x * int b < int b * 2 ^ 32" using mult_strict_left_mono [OF low_bits_less [of h], of "int b"] b by (simp add: mult.commute)
  then have "?x * int b div 2 ^ 32 < int b" by (rule div_below) simp
  then show ?thesis using b unfolding getBlockIndex_def by (simp only: nat_less_iff)
qed

text \<open>Bits are only ever added to a filter.\<close>

definition covers :: "bloom_filter \<Rightarrow> bloom_filter \<Rightarrow> bool" where
  "covers f g \<longleftrightarrow> bf_blocks g = bf_blocks f \<and> length (bf_filter g) = length (bf_filter f)
     \<and> (\<forall>i < length (bf_filter f). bf_filter f ! i AND bf_filter g ! i = bf_filter f ! i)"

lemma and_or_absorb: "a AND (a OR b) = a" for a b :: "32 word"
  by (rule bit_word_eqI) (auto simp: bit_simps)

lemma and_trans: "m AND a = m \<Longrightarrow> a AND b = a \<Longrightarrow> m AND b = m" for m a b :: "32 word"
  by (metis and.assoc)

lemma block_or_covers: "covers f (block_or i m f)"
  by (auto simp: covers_def block_or_def nth_list_update and_or_absorb)

lemma covers_trans: "covers f g \<Longrightarrow> covers g h \<Longrightarrow> covers f h"
  by (auto simp: covers_def intro: and_trans)

lemma bf_add_covers: "covers f (bf_add g f)"
  unfolding bf_add_def Let_def by (intro covers_trans [OF block_or_covers block_or_covers])

lemma contains_covers: "covers f f' \<Longrightarrow> bf_contains f g \<Longrightarrow> bf_contains f' g"
  by (auto simp: bf_contains_def Let_def covers_def block_at_def intro: and_trans split: if_splits)

lemma block_or_at: "i < length (bf_filter f) \<Longrightarrow> m AND block_at (block_or i m f) i = m"
  by (simp add: block_or_def block_at_def)

lemma bf_add_ok: "bf_ok f \<Longrightarrow> bf_ok (bf_add g f)"
  using bf_add_covers [of f g] by (simp add: bf_ok_def covers_def)

lemma bf_add_contains: "bf_ok f \<Longrightarrow> bf_contains (bf_add g f) g"
proof -
  assume ok: "bf_ok f"
  let ?i = "getBlockIndex (hash64 g) (int (bf_blocks f))" and ?h = "hash64 g XOR rotateLeft64 (hash64 g) 32"
  let ?f1 = "block_or ?i (computeMask1 ?h) f"
  have i: "?i + 1 < length (bf_filter f)" using ok getBlockIndex_less [of "bf_blocks f" "hash64 g"] by (simp add: bf_ok_def)
  have l: "length (bf_filter ?f1) = length (bf_filter f)" "bf_blocks (bf_add g f) = bf_blocks f"
    using block_or_covers [of f ?i "computeMask1 ?h"] bf_add_covers [of f g] by (simp_all add: covers_def)
  have 1: "computeMask1 ?h AND block_at ?f1 ?i = computeMask1 ?h" by (rule block_or_at) (use i in simp)
  have "block_at ?f1 ?i AND block_at (bf_add g f) ?i = block_at ?f1 ?i"
    using block_or_covers [of ?f1 "?i + 1" "computeMask2 ?h"] i l(1) by (simp add: bf_add_def Let_def covers_def block_at_def)
  with 1 have a: "computeMask1 ?h AND block_at (bf_add g f) ?i = computeMask1 ?h" by (rule and_trans)
  have b: "computeMask2 ?h AND block_at (bf_add g f) (?i + 1) = computeMask2 ?h"
    using block_or_at [of "?i + 1" ?f1 "computeMask2 ?h"] i l(1) by (simp add: bf_add_def Let_def)
  show ?thesis using a b l(2) by (simp add: bf_contains_def Let_def)
qed

section \<open>Generations\<close>

lemma shift_loop:
  "n \<le> length fs \<Longrightarrow> j < length fs \<Longrightarrow>
   foldl (\<lambda>gs i. gs[i := gs ! (i - 1)]) fs (rev [1..<n]) ! j = (if 0 < j \<and> j < n then fs ! (j - 1) else fs ! j)
   \<and> length (foldl (\<lambda>gs i. gs[i := gs ! (i - 1)]) fs (rev [1..<n])) = length fs"
proof (induction n arbitrary: fs)
  case (Suc n)
  show ?case
  proof (cases "1 \<le> n")
    case True
    have "foldl (\<lambda>gs i. gs[i := gs ! (i - 1)]) fs (rev [1..<Suc n]) = foldl (\<lambda>gs i. gs[i := gs ! (i - 1)]) (fs[n := fs ! (n - 1)]) (rev [1..<n])"
      using True by simp
    then show ?thesis using Suc.IH [of "fs[n := fs ! (n - 1)]"] Suc.prems True by (auto simp: nth_list_update less_Suc_eq)
  next
    case False
    then have "n = 0" by simp
    then show ?thesis by auto
  qed
qed simp

lemma af_rotate_eq: "fs \<noteq> [] \<Longrightarrow> af_rotate fs = bf_reset (last fs) # butlast fs"
proof (rule nth_equalityI)
  assume ne: "fs \<noteq> []"
  let ?n = "length fs" and ?r = "bf_reset (fs ! (length fs - 1))"
  note S = shift_loop [of ?n "fs[?n - 1 := ?r]"]
  show "length (af_rotate fs) = length (bf_reset (last fs) # butlast fs)" using S [of 0] ne by (simp add: af_rotate_def Let_def)
  fix j assume "j < length (af_rotate fs)"
  then have j: "j < ?n" using S [of 0] ne by (simp add: af_rotate_def Let_def)
  show "af_rotate fs ! j = (bf_reset (last fs) # butlast fs) ! j"
    using S [of j] S [of 0] j ne by (cases j) (auto simp: af_rotate_def Let_def last_conv_nth nth_butlast)
qed

datatype anchor_step = AnchorAdd grain_id | AnchorRotate

fun anchor_run :: "anchor_step list \<Rightarrow> anchored_filter \<Rightarrow> anchored_filter" where
  "anchor_run [] fs = fs"
| "anchor_run (AnchorAdd g # ss) fs = anchor_run ss (af_add g fs)"
| "anchor_run (AnchorRotate # ss) fs = anchor_run ss (af_rotate fs)"

definition af_ok :: "nat \<Rightarrow> anchored_filter \<Rightarrow> bool" where
  "af_ok generations fs \<longleftrightarrow> length fs = generations \<and> 0 < generations \<and> list_all bf_ok fs"

lemma af_add_ok: "af_ok n fs \<Longrightarrow> af_ok n (af_add g fs)"
  by (cases fs) (auto simp: af_ok_def af_add_def bf_add_ok)

lemma af_rotate_ok: "af_ok n fs \<Longrightarrow> af_ok n (af_rotate fs)"
proof -
  assume ok: "af_ok n fs"
  then have ne: "fs \<noteq> []" by (auto simp: af_ok_def)
  have "list_all bf_ok (butlast fs @ [last fs])" using ok ne by (simp add: af_ok_def)
  moreover have "bf_ok (bf_reset f) = bf_ok f" for f by (simp add: bf_ok_def bf_reset_def)
  ultimately show ?thesis using ok by (auto simp: af_rotate_eq [OF ne] af_ok_def)
qed

lemma anchor_run_ok: "af_ok n fs \<Longrightarrow> af_ok n (anchor_run ss fs)"
  by (induction ss fs rule: anchor_run.induct) (simp_all add: af_add_ok af_rotate_ok)

text \<open>A grain in generation \<open>j\<close> stays findable until it has been rotated past the last one.\<close>

lemma anchor_run_keeps:
  "af_ok n fs \<Longrightarrow> j < n \<Longrightarrow> bf_contains (fs ! j) g \<Longrightarrow> length (filter (\<lambda>s. s = AnchorRotate) ss) + j < n
   \<Longrightarrow> bf_contains (anchor_run ss fs ! (length (filter (\<lambda>s. s = AnchorRotate) ss) + j)) g"
proof (induction ss fs arbitrary: j rule: anchor_run.induct)
  case (2 g' ss fs)
  have "bf_contains (af_add g' fs ! j) g"
    using "2.prems" contains_covers [OF bf_add_covers, of "fs ! 0" g g'] by (cases "j = 0") (auto simp: af_add_def af_ok_def)
  then show ?case using 2 af_add_ok by simp
next
  case (3 ss fs)
  have "fs \<noteq> []" "Suc j < length fs" using "3.prems" by (auto simp: af_ok_def)
  then have "af_rotate fs ! Suc j = fs ! j" by (simp add: af_rotate_eq nth_butlast)
  then show ?case using "3.IH" [of "Suc j"] "3.prems" af_rotate_ok by simp
qed simp

text \<open>C39: In a filter with at least one block, a grain added to the anchored filter is found as long as fewer rotations
  than generations have followed, whatever other grains are added in between. A capacity so small that the
  constructor computes no block at all is outside the claim (\<open>blockless_filter_forgets\<close> below).\<close>

theorem anchored_grain_found:
  assumes "newAnchoredFilter blocks generations = Inr fs0" "0 < blocks"
    and "length (filter (\<lambda>s. s = AnchorRotate) later) < generations"
  shows "af_contains (anchor_run (earlier @ AnchorAdd g # later) fs0) g"
proof -
  have run: "anchor_run (a @ b) fs = anchor_run b (anchor_run a fs)" for a b fs by (induction a fs rule: anchor_run.induct) simp_all
  let ?fs = "anchor_run earlier fs0"
  have "af_ok generations fs0" using assms(1,2) by (auto simp: newAnchoredFilter_def af_ok_def bf_ok_def newBloomFilter_def list_all_length split: if_splits)
  then have ok: "af_ok generations ?fs" by (rule anchor_run_ok)
  then have "bf_contains (af_add g ?fs ! 0) g" by (cases ?fs) (auto simp: af_ok_def af_add_def bf_add_contains)
  from anchor_run_keeps [OF af_add_ok [OF ok] _ this, of later] assms(3)
  have "bf_contains (anchor_run later (af_add g ?fs) ! length (filter (\<lambda>s. s = AnchorRotate) later)) g" by simp
  moreover have "length (anchor_run later (af_add g ?fs)) = generations" using anchor_run_ok [OF af_add_ok [OF ok]] by (simp add: af_ok_def)
  ultimately show ?thesis using assms(3) by (auto simp: run af_contains_def list_ex_length)
qed

definition ga :: grain_id where "ga = GrainId ''Cart'' (KString ''a'')"
definition gb :: grain_id where "gb = GrainId ''Cart'' (KString ''b'')"

theorem anchored_grain_found_witness:
  "af_contains (anchor_run ([] @ AnchorAdd ga # [AnchorRotate, AnchorAdd gb]) (replicate 2 (newBloomFilter 3))) ga"
  by (rule anchored_grain_found [of 3 2]) (simp_all add: newAnchoredFilter_def)

lemma shift_one_nonzero: "shift_one h \<noteq> 0"
proof -
  have "h AND 31 = take_bit 5 h" by (simp add: take_bit_eq_mask mask_eq_exp_minus_1)
  then have "uint (h AND 31) = take_bit 5 (uint h)" by (simp add: unsigned_take_bit_eq)
  moreover have "take_bit 5 (uint h) < 2 ^ 5" by (rule take_bit_int_less_exp)
  ultimately have "nat (uint (h AND 31)) < 32" by simp
  then have "bit (shift_one h) (nat (uint (h AND 31)))" by (simp add: shift_one_def bit_exp_iff possible_bit_word)
  then show ?thesis by auto
qed

lemma blockless_add:
  assumes "bf_blocks f = 0" "length (bf_filter f) = 1"
  shows "bf_blocks (bf_add g f) = 0 \<and> length (bf_filter (bf_add g f)) = 1"
  using bf_add_covers [of f g] assms by (simp add: covers_def)

text \<open>A filter whose block count is 0, as for a capacity of 1, finds no grain whatever is added to it: its
  second mask is written past the end of the array.\<close>

theorem blockless_filter_forgets: "\<not> bf_contains (foldl (\<lambda>f g. bf_add g f) (newBloomFilter 0) gs) g"
proof -
  have "bf_blocks f = 0 \<and> length (bf_filter f) = 1 \<Longrightarrow>
    bf_blocks (foldl (\<lambda>f g. bf_add g f) f gs) = 0 \<and> length (bf_filter (foldl (\<lambda>f g. bf_add g f) f gs)) = 1" for f
    by (induction gs arbitrary: f) (simp_all add: blockless_add)
  then have "bf_blocks (foldl (\<lambda>f g. bf_add g f) (newBloomFilter 0) gs) = 0 \<and> length (bf_filter (foldl (\<lambda>f g. bf_add g f) (newBloomFilter 0) gs)) = 1"
    by (simp add: newBloomFilter_def)
  moreover have "computeMask2 h \<noteq> 0" for h
    using shift_one_nonzero by (metis (no_types, lifting) computeMask2_def or_eq_0_iff)
  ultimately show ?thesis by (simp add: bf_contains_def Let_def block_at_def)
qed

end
