(* ===== verification/Value_Codec.thy ===== *)
theory Value_Codec
  imports Complex_Main Identity
begin

text \<open>
  The value codec (\<^verbatim>\<open>core/src/value-codec.ts\<close>) that every transport and durable provider shares:
  \<open>encodeValue\<close> turns runtime values into tagged plain data, \<open>decodeValue\<close> turns them back.

  Runtime values live in a heap, so that a cyclic object graph can be written down: a value is a primitive or
  immutable leaf, or a reference to a node; the \<open>seen\<close> set of the code is a list of node addresses. Encoded and
  decoded values are trees over the same nodes.

  Left out: surrogates (the registry is empty), and what JavaScript makes of an envelope whose fields do not have
  the types \<open>encodeValue\<close> gives them, by coercing them or by keeping them as they came in a placeholder of a
  cancellation token or a silo address. There the model answers \<open>OutsideModel\<close> and no theorem speaks of the result. A
  grain reference keeps whatever \<open>interfaceId\<close> came, as the code does. The contents a typed array constructor makes of
  a list of values, and the resolver of grain references, are arguments.

  Shown: encoding ends on every heap and fails exactly on what cannot be represented, cycles included; what it
  produces decodes to the value that was sent, through JSON too; decoding well-typed data never copies a key that
  reaches a prototype, refuses newer schema versions, and never rebuilds a Thresh error the sender did not have.
\<close>

section \<open>Values\<close>

datatype js_number = Finite rat | NegZero | NaN | PosInf | NegInf

datatype element = ElNum js_number | ElBig int

datatype leaf =
    LUndef | LNull | LBool bool | LNum js_number | LStr string | LBigInt int
  | LBytes "nat list"
  | LTyped (ta_kind: string) (ta_elements: "element list")
  | LDate js_number
  | LGuid guid
  | LGrainId grain_id
  | LToken (tk_id: string) (tk_cancelled: bool) (tk_asSignal: bool)
  | LPlaceholder (ph_id: string) (ph_cancelled: bool) (ph_asSignal: bool)
  | LDomException (dx_name: string) (dx_message: string)
  | LCallAborted string
  | LTaskCanceled string
  | LSilo silo_address
  | LGrainRef (gr_grainId: grain_id) (gr_interfaceId: js_number)
  | LUnsupported string

text \<open>
  Nodes: an array with holes as \<open>None\<close>, a \<open>Map\<close>, a \<open>Set\<close>, a plain object, and an error with the names of the
  registered classes it is an instance of, its name (when a string), message, enumerable own properties, cause,
  stack (when a string) and the \<open>errors\<close> of an \<open>AggregateError\<close>.
\<close>

datatype 'c node =
    NArr "'c option list"
  | NMap "('c \<times> 'c) list"
  | NSet "'c list"
  | NObj "(string \<times> 'c) list"
  | NError "string list" "string option" string "(string \<times> 'c) list" "'c option" "string option" "'c list"

datatype hval = HLeaf leaf | HRef nat

type_synonym heap = "hval node list"

datatype tree = Leaf leaf | Node "tree node"

abbreviation "TStr s \<equiv> Leaf (LStr s)"
abbreviation "TNum n \<equiv> Leaf (LNum n)"
abbreviation "TBool b \<equiv> Leaf (LBool b)"
abbreviation "TArr ts \<equiv> Node (NArr (map Some ts))"
abbreviation "TObj kvs \<equiv> Node (NObj kvs)"

datatype codec_error =
    CircularReference string
  | UnsupportedValue string string
  | UnsupportedSchemaVersion string rat
  | UnknownTypedArray string
  | MalformedTypedArray string
  | NotAConstructor string
  | ParseError id_error
  | OutsideModel

section \<open>Sequencing\<close>

definition ebind :: "'e + 'a \<Rightarrow> ('a \<Rightarrow> 'e + 'b) \<Rightarrow> 'e + 'b" where
  "ebind m f = (case m of Inl e \<Rightarrow> Inl e | Inr x \<Rightarrow> f x)"

lemma ebind_simps [simp]: "ebind (Inl e) f = Inl e" "ebind (Inr x) f = f x"
  by (simp_all add: ebind_def)

lemma ebind_Inr: "ebind m f = Inr y \<longleftrightarrow> (\<exists>x. m = Inr x \<and> f x = Inr y)"
  by (cases m) simp_all

lemma ebind_cong [fundef_cong]: "m = m' \<Longrightarrow> (\<And>x. m' = Inr x \<Longrightarrow> f x = g x) \<Longrightarrow> ebind m f = ebind m' g"
  by (cases m') simp_all

fun emap :: "('a \<Rightarrow> 'e + 'b) \<Rightarrow> 'a list \<Rightarrow> 'e + 'b list" where
  "emap f [] = Inr []"
| "emap f (x # xs) = ebind (f x) (\<lambda>y. ebind (emap f xs) (\<lambda>ys. Inr (y # ys)))"

lemma emap_cong [fundef_cong]: "xs = ys \<Longrightarrow> (\<And>x. x \<in> set ys \<Longrightarrow> f x = g x) \<Longrightarrow> emap f xs = emap g ys"
  by (induction ys arbitrary: xs) simp_all

lemma emap_Inr: "emap f xs = Inr ys \<longleftrightarrow> list_all2 (\<lambda>x y. f x = Inr y) xs ys"
  by (induction xs arbitrary: ys) (auto simp: ebind_Inr list_all2_Cons1)

definition on_value :: "('a \<Rightarrow> 'e + 'b) \<Rightarrow> string \<times> 'a \<Rightarrow> 'e + (string \<times> 'b)" where
  "on_value f p = ebind (f (snd p)) (\<lambda>v. Inr (fst p, v))"

definition on_some :: "('a \<Rightarrow> 'e + 'b) \<Rightarrow> 'a option \<Rightarrow> 'e + 'b option" where
  "on_some f x = (case x of None \<Rightarrow> Inr None | Some v \<Rightarrow> ebind (f v) (\<lambda>w. Inr (Some w)))"

section \<open>Base64\<close>

definition BASE64_ALPHABET :: string where
  "BASE64_ALPHABET = ''ABCDEFGHIJKLMNOPQRSTUVWXYZabcdefghijklmnopqrstuvwxyz0123456789+/''"

abbreviation b64 :: "nat \<Rightarrow> char" where
  "b64 d \<equiv> BASE64_ALPHABET ! d"

text \<open>Shifts and masks of bytes are written as division, remainder and product by powers of two.\<close>

fun bytesToBase64 :: "nat list \<Rightarrow> string" where
  "bytesToBase64 [] = []"
| "bytesToBase64 [b0] = [b64 (b0 div 4), b64 ((b0 mod 4) * 16), CHR ''='', CHR ''='']"
| "bytesToBase64 [b0, b1] = [b64 (b0 div 4), b64 ((b0 mod 4) * 16 + b1 div 16), b64 ((b1 mod 16) * 4), CHR ''='']"
| "bytesToBase64 (b0 # b1 # b2 # bs) =
     [b64 (b0 div 4), b64 ((b0 mod 4) * 16 + b1 div 16), b64 ((b1 mod 16) * 4 + b2 div 64), b64 (b2 mod 64)] @ bytesToBase64 bs"

text \<open>The accumulator is a 32-bit integer; only its low 14 bits are ever read.\<close>

fun base64_loop :: "nat \<Rightarrow> nat \<Rightarrow> string \<Rightarrow> nat list" where
  "base64_loop acc bits [] = []"
| "base64_loop acc bits (c # cs) =
     (case index_of c BASE64_ALPHABET of
        None \<Rightarrow> base64_loop acc bits cs
      | Some digit \<Rightarrow>
          (let acc' = (acc * 64 + digit) mod 2 ^ 32; bits' = bits + 6 in
           if 8 \<le> bits' then (acc' div 2 ^ (bits' - 8)) mod 256 # base64_loop acc' (bits' - 8) cs
           else base64_loop acc' bits' cs))"

definition base64_body :: "string \<Rightarrow> string" where
  "base64_body text =
     (if 2 \<le> length text \<and> drop (length text - 2) text = ''=='' then take (length text - 2) text
      else if 1 \<le> length text \<and> drop (length text - 1) text = ''='' then take (length text - 1) text
      else text)"

definition base64ToBytes :: "string \<Rightarrow> nat list" where
  "base64ToBytes text = (let body = base64_body text; n = (length body * 3) div 4; bs = base64_loop 0 0 body
     in take n bs @ replicate (n - length bs) 0)"

section \<open>Known errors\<close>

text \<open>The registered classes: name, registered ancestors, and the fields their builders take over.\<close>

definition knownErrors :: "(string \<times> string list \<times> string list) list" where
  "knownErrors =
    [(''ThreshRuntimeError'', [], []),
     (''GrainCallError'', [''ThreshRuntimeError''], []),
     (''GrainCallTimeoutError'', [''ThreshRuntimeError''], []),
     (''GrainExtensionNotInstalledException'', [''ThreshRuntimeError''], []),
     (''GatewayTooBusyException'', [''ThreshRuntimeError''], []),
     (''RejectionError'', [''ThreshRuntimeError''], [''kind'']),
     (''LimitExceededException'', [''ThreshRuntimeError''], [''limitName'', ''currentValue'', ''maxValue'']),
     (''ThreshCancellationError'', [], []),
     (''ReadOnlyStateViolationError'', [], []),
     (''TransactionsDisabledError'', [], []),
     (''InconsistentStateError'', [], [''expectedEtag'', ''storedEtag'', ''isSourceActivation'']),
     (''TransactionAbortedError'', [], [''transactionId'']),
     (''TransactionReadOnlyViolatedError'', [''TransactionAbortedError''], [''transactionId'']),
     (''TransactionLockUpgradeError'', [''TransactionAbortedError''], [''transactionId'']),
     (''TransactionOrphanCallError'', [''TransactionAbortedError''], [''transactionId'', ''pendingCalls'']),
     (''TransactionCascadingAbortError'', [''TransactionAbortedError''], [''transactionId'']),
     (''TransactionInDoubtError'', [], [''transactionId'']),
     (''CircularReferenceError'', [], [''path'']),
     (''UnsupportedValueError'', [], [''path'', ''reason'']),
     (''TypeError'', [], []), (''RangeError'', [], []), (''ReferenceError'', [], []),
     (''SyntaxError'', [], []), (''URIError'', [], []), (''EvalError'', [], []),
     (''AggregateError'', [], [])]"

definition isKnownThreshError :: "string list \<Rightarrow> string \<Rightarrow> bool" where
  "isKnownThreshError instanceOf name \<longleftrightarrow> js_has knownErrors name \<and> name \<in> set instanceOf"

definition STACK_TRACE_CAP :: nat where "STACK_TRACE_CAP = 8192"

definition capStack :: "string \<Rightarrow> string" where
  "capStack stack = (if STACK_TRACE_CAP < length stack then take STACK_TRACE_CAP stack @ ''... (truncated)'' else stack)"

definition REMOTE_STACK_MARKER :: string where
  "REMOTE_STACK_MARKER = ''--- End of remote stack trace from grain call ---''"

definition setRemoteStackTrace :: "string \<Rightarrow> string" where
  "setRemoteStackTrace remoteStack = remoteStack @ [CHR 0x0A] @ REMOTE_STACK_MARKER"

section \<open>Encoding\<close>

definition tag_key :: string where "tag_key = ''$thresh''"

definition version_key :: string where "version_key = ''$tsvv''"

definition tagged :: "string \<Rightarrow> (string \<times> tree) list \<Rightarrow> tree" where
  "tagged tag flds = TObj ((tag_key, TStr tag) # (version_key, TNum (Finite 1)) # flds)"

definition DANGEROUS_KEYS :: "string list" where
  "DANGEROUS_KEYS = [''__proto__'', ''constructor'', ''prototype'']"

definition isDangerousKey :: "string \<Rightarrow> bool" where
  "isDangerousKey k \<longleftrightarrow> k \<in> set DANGEROUS_KEYS"

fun kind_name :: "grain_key_kind \<Rightarrow> string" where
  "kind_name StringKind = ''string''"
| "kind_name IntegerKind = ''integer''"
| "kind_name GuidKind = ''guid''"
| "kind_name GuidCompoundKind = ''guid-compound''"
| "kind_name IntegerCompoundKind = ''integer-compound''"

definition grainIdFields :: "grain_id \<Rightarrow> (string \<times> tree) list" where
  "grainIdFields g = [(''grainType'', TStr (gtype g)), (''keyKind'', TStr (kind_name (keyKindOf (gkey g)))),
     (''key'', TStr (keyToString (gkey g)))]"

fun encode_number :: "js_number \<Rightarrow> tree" where
  "encode_number NegZero = tagged ''negZero'' []"
| "encode_number n = TNum n"

definition encode_bigint :: "int \<Rightarrow> tree" where
  "encode_bigint i = tagged ''bigint'' [(''value'', TStr (show_int i))]"

fun encode_element :: "element \<Rightarrow> tree" where
  "encode_element (ElNum n) = encode_number n"
| "encode_element (ElBig i) = encode_bigint i"

fun encode_leaf :: "bool \<Rightarrow> string \<Rightarrow> leaf \<Rightarrow> codec_error + tree" where
  "encode_leaf b path (LBytes bs) = Inr (if b then tagged ''bytes'' [(''value'', TStr (bytesToBase64 bs))] else Leaf (LBytes bs))"
| "encode_leaf b path (LTyped kind es) =
     Inr (tagged ''typedArray'' [(''kind'', TStr kind), (''values'', TArr (map encode_element es))])"
| "encode_leaf b path (LNum n) = Inr (encode_number n)"
| "encode_leaf b path (LDate t) = Inr (tagged ''date'' [(''value'', TNum t)])"
| "encode_leaf b path (LBigInt i) = Inr (encode_bigint i)"
| "encode_leaf b path (LGuid g) = Inr (tagged ''guid'' [(''value'', TStr (guid_value g))])"
| "encode_leaf b path (LGrainId g) = Inr (tagged ''grainId'' (grainIdFields g))"
| "encode_leaf b path (LToken i c s) =
     Inr (tagged ''cancellationToken'' [(''tokenId'', TStr i), (''cancelled'', TBool c), (''asSignal'', TBool s)])"
| "encode_leaf b path (LPlaceholder i c s) =
     Inr (tagged ''cancellationToken'' [(''tokenId'', TStr i), (''cancelled'', TBool c), (''asSignal'', TBool s)])"
| "encode_leaf b path (LDomException n m) = Inr (tagged ''domException'' [(''name'', TStr n), (''message'', TStr m)])"
| "encode_leaf b path (LCallAborted m) = Inr (tagged ''callAborted'' [(''message'', TStr m)])"
| "encode_leaf b path (LTaskCanceled m) = Inr (tagged ''taskCanceled'' [(''message'', TStr m)])"
| "encode_leaf b path (LSilo s) = Inr (tagged ''silo''
     [(''podName'', TStr (podName s)), (''podUid'', TStr (podUid s)), (''endpoint'', TStr (endpoint s))])"
| "encode_leaf b path (LGrainRef g i) = Inr (tagged ''grainRef'' ((''interfaceId'', TNum i) # grainIdFields g))"
| "encode_leaf b path (LUnsupported reason) = Inl (UnsupportedValue path reason)"
| "encode_leaf b path l = Inr (Leaf l)"

definition encodeElement :: "(string \<Rightarrow> hval \<Rightarrow> codec_error + tree) \<Rightarrow> string \<Rightarrow> hval \<Rightarrow> codec_error + tree" where
  "encodeElement enc path v = (if v = HLeaf LUndef then Inr (tagged ''undefined'' []) else enc path v)"

fun first_hole :: "nat \<Rightarrow> 'a option list \<Rightarrow> nat option" where
  "first_hole i [] = None"
| "first_hole i (None # xs) = Some i"
| "first_hole i (Some x # xs) = first_hole (Suc i) xs"

definition path_at :: "string \<Rightarrow> nat \<Rightarrow> string" where
  "path_at path i = path @ ''['' @ show_nat i @ '']''"

definition encode_fields :: "(string \<Rightarrow> 'v \<Rightarrow> codec_error + tree) \<Rightarrow> string \<Rightarrow> (string \<times> 'v) list
    \<Rightarrow> codec_error + (string \<times> tree) list" where
  "encode_fields enc path kvs = emap (\<lambda>(k, v). ebind (enc (path @ ''.'' @ k) v) (\<lambda>t. Inr (k, t))) kvs"

definition encode_elements :: "(string \<Rightarrow> hval \<Rightarrow> codec_error + tree) \<Rightarrow> string \<Rightarrow> hval list \<Rightarrow> codec_error + tree list" where
  "encode_elements enc path vs = emap (\<lambda>(i, v). encodeElement enc (path_at path i) v) (enumerate 0 vs)"

definition error_properties :: "string list \<Rightarrow> (string \<times> 'v) list \<Rightarrow> (string \<times> 'v) list" where
  "error_properties instanceOf props = filter (\<lambda>(k, _). k \<notin> {''name'', ''message'', ''stack'', ''cause''}
     \<and> \<not> (k = ''errors'' \<and> ''AggregateError'' \<in> set instanceOf) \<and> \<not> isDangerousKey k) props"

definition opt_field :: "string \<Rightarrow> tree option \<Rightarrow> (string \<times> tree) list" where
  "opt_field k x = (case x of Some t \<Rightarrow> [(k, t)] | None \<Rightarrow> [])"

lemma opt_field_get [simp]:
  "js_get (opt_field k x @ rest) j = (if j = k \<and> x \<noteq> None then x else js_get rest j)" "js_get (opt_field k x) j = (if j = k then x else None)"
  by (auto simp: opt_field_def split: option.split)

text \<open>The object behind a reference; \<open>enc\<close> encodes its members with the node added to \<open>seen\<close>.\<close>

fun encode_node :: "(string \<Rightarrow> hval \<Rightarrow> codec_error + tree) \<Rightarrow> string \<Rightarrow> hval node \<Rightarrow> codec_error + tree" where
  "encode_node enc path (NMap es) =
     ebind (emap (\<lambda>(i, k, v). ebind (encodeElement enc (path_at path i @ ''.key'') k) (\<lambda>k'.
              ebind (encodeElement enc (path_at path i @ ''.value'') v) (\<lambda>v'. Inr (TArr [k', v'])))) (enumerate 0 es))
       (\<lambda>entries. Inr (tagged ''map'' [(''entries'', TArr entries)]))"
| "encode_node enc path (NSet vs) = ebind (encode_elements enc path vs) (\<lambda>values. Inr (tagged ''set'' [(''values'', TArr values)]))"
| "encode_node enc path (NArr xs) =
     (case first_hole 0 xs of
        Some i \<Rightarrow> Inl (UnsupportedValue path (''a sparse array (index '' @ show_nat i @ '' is a hole)''))
      | None \<Rightarrow> ebind (encode_elements enc path (map the xs)) (\<lambda>ts. Inr (TArr ts)))"
| "encode_node enc path (NError instanceOf name message props cause stack errors) =
     ebind (encode_fields enc path (error_properties instanceOf props)) (\<lambda>properties.
     ebind (on_some (encodeElement enc (path @ ''.cause'')) cause) (\<lambda>cause'.
     ebind (if ''AggregateError'' \<in> set instanceOf
            then ebind (encode_elements enc (path @ ''.errors'') errors) (\<lambda>es. Inr (Some (TArr es))) else Inr None) (\<lambda>errors'.
     (let n = (case name of Some s \<Rightarrow> s | None \<Rightarrow> ''Error'') in
      Inr (tagged ''error'' ((''name'', TStr n) # (''message'', TStr message)
        # opt_field ''thresh'' (if isKnownThreshError instanceOf n then Some (TBool True) else None)
        @ opt_field ''properties'' (if properties \<noteq> [] then Some (TObj properties) else None)
        @ opt_field ''cause'' cause'
        @ opt_field ''stack'' (map_option (\<lambda>s. TStr (capStack s)) stack)
        @ opt_field ''errors'' errors'))))))"
| "encode_node enc path (NObj kvs) = ebind (encode_fields enc path (filter (\<lambda>(k, _). \<not> isDangerousKey k) kvs)) (\<lambda>out. Inr (TObj out))"

lemma encode_node_cong [fundef_cong]:
  "path = path' \<Longrightarrow> nd = nd' \<Longrightarrow> (\<And>p v. enc p v = enc' p v) \<Longrightarrow> encode_node enc path nd = encode_node enc' path' nd'"
proof -
  assume "path = path'" "nd = nd'" "\<And>p v. enc p v = enc' p v"
  then have "enc = enc'" "path = path'" "nd = nd'" by (auto simp: fun_eq_iff)
  then show ?thesis by simp
qed

lemma unseen_pos: "\<not> (n::nat) \<le> a \<Longrightarrow> a \<notin> set seen \<Longrightarrow> 0 < card ({..<n} - set seen)"
  by (metis DiffI card_gt_0_iff empty_iff finite_Diff finite_lessThan lessThan_iff not_le)

text \<open>A reference that points nowhere is \<open>OutsideModel\<close>; well-formed heaps have none.\<close>

function encodeInner :: "heap \<Rightarrow> bool \<Rightarrow> nat list \<Rightarrow> string \<Rightarrow> hval \<Rightarrow> codec_error + tree" where
  "encodeInner h b seen path (HLeaf l) = encode_leaf b path l"
| "encodeInner h b seen path (HRef a) =
     (if length h \<le> a then Inl OutsideModel
      else if a \<in> set seen then Inl (CircularReference path)
      else encode_node (\<lambda>p v. encodeInner h b (a # seen) p v) path (h ! a))"
  by pat_completeness auto
termination
  by (relation "measure (\<lambda>(h, b, seen, path, v). card ({..<length h} - set seen))") (simp_all add: unseen_pos)

definition encodeValue :: "heap \<Rightarrow> bool \<Rightarrow> hval \<Rightarrow> codec_error + tree" where
  "encodeValue h binaryAsBase64 v =
     (if v = HLeaf LUndef then Inr (tagged ''undefined'' []) else encodeInner h binaryAsBase64 [] ''$'' v)"

section \<open>Decoding\<close>

record codec_env =
  ce_typed :: "string \<Rightarrow> tree list \<Rightarrow> codec_error + element list"
  ce_resolve :: "(grain_id \<Rightarrow> tree \<Rightarrow> tree) option"

definition is_integer :: "rat \<Rightarrow> bool" where
  "is_integer q \<longleftrightarrow> snd (quotient_of q) = 1"

definition versionOf :: "(string \<times> tree) list \<Rightarrow> rat" where
  "versionOf envelope = (case js_get envelope version_key of
     Some (Leaf (LNum (Finite q))) \<Rightarrow> if is_integer q \<and> 1 \<le> q then q else 1 | _ \<Rightarrow> 1)"

definition builtInTags :: "string list" where
  "builtInTags = [''bigint'', ''date'', ''bytes'', ''guid'', ''grainId'', ''cancellationToken'', ''undefined'',
     ''domException'', ''callAborted'', ''taskCanceled'', ''error'', ''silo'', ''map'', ''set'', ''grainRef'', ''typedArray'', ''negZero'']"

definition TYPED_ARRAY_CTORS :: "string list" where
  "TYPED_ARRAY_CTORS = [''Int8Array'', ''Uint8Array'', ''Uint8ClampedArray'', ''Int16Array'', ''Uint16Array'', ''Int32Array'',
     ''Uint32Array'', ''Float32Array'', ''Float64Array'', ''BigInt64Array'', ''BigUint64Array'']"

text \<open>The other members a plain object inherits, which indexing an object by a name from the wire finds too.\<close>

definition object_prototype_members :: "string list" where
  "object_prototype_members = [''__proto__'', ''__defineGetter__'', ''__defineSetter__'', ''__lookupGetter__'', ''__lookupSetter__'',
     ''hasOwnProperty'', ''isPrototypeOf'', ''propertyIsEnumerable'', ''toLocaleString'', ''toString'', ''valueOf'']"

definition str_field :: "(string \<times> tree) list \<Rightarrow> string \<Rightarrow> codec_error + string" where
  "str_field obj k = (case js_get obj k of Some (Leaf (LStr s)) \<Rightarrow> Inr s | _ \<Rightarrow> Inl OutsideModel)"

text \<open>\<open>new Date(t)\<close> of a number: a time value is an integral number of milliseconds within 8.64e15 of the epoch.\<close>

fun timeClip :: "js_number \<Rightarrow> js_number" where
  "timeClip (Finite q) = (if \<bar>q\<bar> \<le> 8640000000000000 then Finite (of_int (if 0 \<le> q then \<lfloor>q\<rfloor> else \<lceil>q\<rceil>)) else NaN)"
| "timeClip NegZero = Finite 0"
| "timeClip _ = NaN"

definition kind_of_name :: "string \<Rightarrow> grain_key_kind option" where
  "kind_of_name s = (if s = ''string'' then Some StringKind else if s = ''integer'' then Some IntegerKind
     else if s = ''guid'' then Some GuidKind else if s = ''guid-compound'' then Some GuidCompoundKind
     else if s = ''integer-compound'' then Some IntegerCompoundKind else None)"

definition parsed :: "id_error + 'a \<Rightarrow> codec_error + 'a" where
  "parsed r = (case r of Inl e \<Rightarrow> Inl (ParseError e) | Inr x \<Rightarrow> Inr x)"

definition grainIdFrom :: "(string \<times> tree) list \<Rightarrow> codec_error + grain_id" where
  "grainIdFrom obj = ebind (str_field obj ''grainType'') (\<lambda>t. ebind (str_field obj ''key'') (\<lambda>k. ebind (str_field obj ''keyKind'') (\<lambda>n.
     case kind_of_name n of None \<Rightarrow> Inl OutsideModel | Some kind \<Rightarrow> parsed (grain_id_parse (t @ ''/'' @ k) kind))))"

text \<open>\<open>Map\<close> and \<open>Set\<close> compare keys with SameValueZero; objects are only equal to themselves, and every decoded one is fresh.\<close>

definition primitive_key :: "tree \<Rightarrow> leaf option" where
  "primitive_key t = (case t of
     Leaf (LNum n) \<Rightarrow> Some (LNum (if n = NegZero then Finite 0 else n))
   | Leaf LUndef \<Rightarrow> Some LUndef | Leaf LNull \<Rightarrow> Some LNull | Leaf (LBool b) \<Rightarrow> Some (LBool b)
   | Leaf (LStr x) \<Rightarrow> Some (LStr x) | Leaf (LBigInt i) \<Rightarrow> Some (LBigInt i)
   | _ \<Rightarrow> None)"

definition same_key :: "tree \<Rightarrow> tree \<Rightarrow> bool" where
  "same_key a b \<longleftrightarrow> primitive_key a \<noteq> None \<and> primitive_key a = primitive_key b"

definition norm_key :: "tree \<Rightarrow> tree" where
  "norm_key t = (if t = TNum NegZero then TNum (Finite 0) else t)"

fun map_add_entry :: "(tree \<times> tree) list \<Rightarrow> tree \<times> tree \<Rightarrow> (tree \<times> tree) list" where
  "map_add_entry [] (k, v) = [(norm_key k, v)]"
| "map_add_entry ((k', v') # es) (k, v) = (if same_key k' k then (k', v) # es else (k', v') # map_add_entry es (k, v))"

definition newMap :: "(tree \<times> tree) list \<Rightarrow> (tree \<times> tree) list" where
  "newMap es = foldl map_add_entry [] es"

definition set_add :: "tree list \<Rightarrow> tree \<Rightarrow> tree list" where
  "set_add vs v = (if list_ex (\<lambda>v'. same_key v' v) vs then vs else vs @ [norm_key v])"

definition newSet :: "tree list \<Rightarrow> tree list" where
  "newSet vs = foldl set_add [] vs"

text \<open>The branches of the tagged \<open>switch\<close> that decode members.\<close>

definition decode_array :: "(tree \<Rightarrow> codec_error + tree) \<Rightarrow> tree option list \<Rightarrow> codec_error + tree option list" where
  "decode_array dec xs = emap (on_some dec) xs"

definition decode_members :: "(tree \<Rightarrow> codec_error + tree) \<Rightarrow> (string \<times> tree) list \<Rightarrow> codec_error + (string \<times> tree) list" where
  "decode_members dec kvs = emap (on_value dec) (filter (\<lambda>(k, _). \<not> isDangerousKey k) kvs)"

definition undefined_hole :: "tree option \<Rightarrow> tree" where
  "undefined_hole x = (case x of Some t \<Rightarrow> t | None \<Rightarrow> Leaf LUndef)"

fun element_byte :: "element \<Rightarrow> nat" where
  "element_byte (ElNum (Finite q)) = nat \<lfloor>q\<rfloor>"
| "element_byte _ = 0"

definition decode_typed :: "codec_env \<Rightarrow> (tree \<Rightarrow> codec_error + tree) \<Rightarrow> (string \<times> tree) list \<Rightarrow> codec_error + tree" where
  "decode_typed env dec obj = ebind (str_field obj ''kind'') (\<lambda>kind.
     if kind \<notin> set TYPED_ARRAY_CTORS \<and> kind \<noteq> ''constructor'' \<and> kind \<notin> set object_prototype_members then Inl (UnknownTypedArray kind)
     else (case js_get obj ''values'' of
       Some (Node (NArr xs)) \<Rightarrow> ebind (decode_array dec xs) (\<lambda>ys.
         if kind = ''constructor'' then Inr (Node (NArr ys))
         else if kind \<notin> set TYPED_ARRAY_CTORS then Inl (NotAConstructor kind)
         else ebind (ce_typed env kind (map undefined_hole ys)) (\<lambda>es.
           Inr (Leaf (if kind = ''Uint8Array'' then LBytes (map element_byte es) else LTyped kind es))))
     | _ \<Rightarrow> Inl (MalformedTypedArray kind)))"

fun decode_entry :: "(tree \<Rightarrow> codec_error + tree) \<Rightarrow> tree option \<Rightarrow> codec_error + tree \<times> tree" where
  "decode_entry dec (Some (Node (NArr (Some k # Some v # _)))) = ebind (dec k) (\<lambda>k'. ebind (dec v) (\<lambda>v'. Inr (k', v')))"
| "decode_entry dec _ = Inl OutsideModel"

definition decode_map :: "(tree \<Rightarrow> codec_error + tree) \<Rightarrow> (string \<times> tree) list \<Rightarrow> codec_error + tree" where
  "decode_map dec obj = (case js_get obj ''entries'' of
     Some (Node (NArr xs)) \<Rightarrow> ebind (emap (decode_entry dec) xs) (\<lambda>es. Inr (Node (NMap (newMap es))))
   | _ \<Rightarrow> Inl OutsideModel)"

definition decode_set :: "(tree \<Rightarrow> codec_error + tree) \<Rightarrow> (string \<times> tree) list \<Rightarrow> codec_error + tree" where
  "decode_set dec obj = (case js_get obj ''values'' of
     Some (Node (NArr xs)) \<Rightarrow> ebind (decode_array dec xs) (\<lambda>ys. Inr (Node (NSet (newSet (map undefined_hole ys)))))
   | _ \<Rightarrow> Inl OutsideModel)"

text \<open>The registered builders and the fallback. A rebuilt error without a remote stack has the receiver's own, \<open>None\<close> here.\<close>

definition member_of :: "(string \<times> tree) list \<Rightarrow> string \<Rightarrow> tree" where
  "member_of p k = (case js_get p k of Some t \<Rightarrow> t | None \<Rightarrow> Leaf LUndef)"

definition built_field :: "(string \<times> tree) list \<Rightarrow> string \<Rightarrow> string \<times> tree" where
  "built_field p f = (f, if f = ''isSourceActivation'' then TBool (js_get p f \<noteq> Some (TBool False)) else member_of p f)"

definition unsupported_message :: "string \<Rightarrow> string \<Rightarrow> string" where
  "unsupported_message path reason = ''encodeValue: cannot represent '' @ reason @ '' at '' @ [CHR 0x22] @ path @ [CHR 0x22]
     @ '' (register a surrogate if it must cross the wire)''"

definition rebuild_message :: "string \<Rightarrow> string \<Rightarrow> (string \<times> tree) list \<Rightarrow> codec_error + string" where
  "rebuild_message name m p = (if name = ''UnsupportedValueError''
     then ebind (str_field p ''path'') (\<lambda>path. ebind (str_field p ''reason'') (\<lambda>reason. Inr (unsupported_message path reason))) else Inr m)"

definition rebuild_errors :: "string \<Rightarrow> (string \<times> tree) list \<Rightarrow> codec_error + tree list" where
  "rebuild_errors name p = (if name \<noteq> ''AggregateError'' then Inr [] else
     (case js_get p ''errors'' of
        None \<Rightarrow> Inr [] | Some (Leaf LUndef) \<Rightarrow> Inr [] | Some (Leaf LNull) \<Rightarrow> Inr []
      | Some (Node (NArr xs)) \<Rightarrow> Inr (map undefined_hole xs) | _ \<Rightarrow> Inl OutsideModel))"

definition rebuild :: "string \<Rightarrow> string list \<times> string list \<Rightarrow> string \<Rightarrow> (string \<times> tree) list \<Rightarrow> codec_error + tree node" where
  "rebuild name info m p = ebind (rebuild_message name m p) (\<lambda>m'. ebind (rebuild_errors name p) (\<lambda>errs.
     Inr (NError (name # fst info) (Some name) m' (map (built_field p) (snd info))
       (if name = ''TransactionCascadingAbortError'' then Some (Leaf LUndef) else None) None errs)))"

definition RESERVED_FALLBACK_KEYS :: "string list" where
  "RESERVED_FALLBACK_KEYS = [''name'', ''message'', ''stack'', ''errorType'', ''properties'']"

definition fallback :: "string \<Rightarrow> string \<Rightarrow> (string \<times> tree) list \<Rightarrow> tree list option \<Rightarrow> tree node" where
  "fallback errorType message properties errors =
     NError [''UnavailableExceptionFallbackException''] (Some errorType) message
       (foldl (\<lambda>ps (k, v). js_set k v ps)
         [(''errorType'', TStr errorType), (''properties'', TObj properties),
          (''errors'', case errors of Some es \<Rightarrow> TArr es | None \<Rightarrow> Leaf LUndef)]
         (filter (\<lambda>(k, _). k \<notin> set RESERVED_FALLBACK_KEYS) properties))
       (js_get properties ''cause'') None []"

definition set_cause_stack :: "tree option \<Rightarrow> string option \<Rightarrow> tree node \<Rightarrow> tree node" where
  "set_cause_stack cause stack nd = (case nd of NError io n m ps c s es \<Rightarrow>
       NError io n m ps (if cause = None then c else cause) (if stack = None then s else stack) es | _ \<Rightarrow> nd)"

definition decode_error :: "(tree \<Rightarrow> codec_error + tree) \<Rightarrow> (string \<times> tree) list \<Rightarrow> codec_error + tree" where
  "decode_error dec obj =
     (let name = (case js_get obj ''name'' of Some (Leaf (LStr s)) \<Rightarrow> s | _ \<Rightarrow> ''Error'');
          message = (case js_get obj ''message'' of Some (Leaf (LStr s)) \<Rightarrow> s | _ \<Rightarrow> [])
      in ebind (case js_get obj ''properties'' of Some (Node (NObj ps)) \<Rightarrow> decode_members dec ps
                  | Some (Node _) \<Rightarrow> Inl OutsideModel | _ \<Rightarrow> Inr []) (\<lambda>properties.
         ebind (case js_get obj ''errors'' of Some (Node (NArr xs)) \<Rightarrow> ebind (decode_array dec xs) (\<lambda>ys. Inr (Some ys)) | _ \<Rightarrow> Inr None) (\<lambda>errors.
         (let properties' = (case errors of Some es \<Rightarrow> js_set ''errors'' (Node (NArr es)) properties | None \<Rightarrow> properties);
              known = (if js_get obj ''thresh'' = Some (TBool True) then js_get knownErrors name else None)
          in ebind (case known of Some info \<Rightarrow> rebuild name info message properties'
                      | None \<Rightarrow> Inr (fallback name message properties' (map_option (map undefined_hole) errors))) (\<lambda>err.
             ebind (on_some dec (js_get obj ''cause'')) (\<lambda>cause.
             Inr (Node (set_cause_stack cause
               (case js_get obj ''stack'' of Some (Leaf (LStr s)) \<Rightarrow> Some (setRemoteStackTrace s) | _ \<Rightarrow> None) err))))))))"

definition decode_tagged :: "codec_env \<Rightarrow> (tree \<Rightarrow> codec_error + tree) \<Rightarrow> string \<Rightarrow> (string \<times> tree) list \<Rightarrow> codec_error + tree" where
  "decode_tagged env dec tag obj =
     (if tag = ''bigint'' then ebind (str_field obj ''value'') (\<lambda>s.
        case BigInt_of s of None \<Rightarrow> Inl (ParseError (InvalidBigInt s)) | Some i \<Rightarrow> Inr (Leaf (LBigInt i)))
      else if tag = ''date'' then (case js_get obj ''value'' of Some (Leaf (LNum t)) \<Rightarrow> Inr (Leaf (LDate (timeClip t))) | _ \<Rightarrow> Inl OutsideModel)
      else if tag = ''bytes'' then ebind (str_field obj ''value'') (\<lambda>s. Inr (Leaf (LBytes (base64ToBytes s))))
      else if tag = ''guid'' then ebind (str_field obj ''value'') (\<lambda>s. ebind (parsed (Guid_parse s)) (\<lambda>g. Inr (Leaf (LGuid g))))
      else if tag = ''grainId'' then ebind (grainIdFrom obj) (\<lambda>g. Inr (Leaf (LGrainId g)))
      else if tag = ''cancellationToken'' then ebind (str_field obj ''tokenId'') (\<lambda>i.
        case js_get obj ''cancelled'' of
          Some (Leaf (LBool c)) \<Rightarrow> Inr (Leaf (LPlaceholder i c (js_get obj ''asSignal'' = Some (TBool True)))) | _ \<Rightarrow> Inl OutsideModel)
      else if tag = ''undefined'' then Inr (Leaf LUndef)
      else if tag = ''negZero'' then Inr (TNum NegZero)
      else if tag = ''typedArray'' then decode_typed env dec obj
      else if tag = ''domException'' then ebind (str_field obj ''message'') (\<lambda>m. ebind (str_field obj ''name'') (\<lambda>n. Inr (Leaf (LDomException n m))))
      else if tag = ''callAborted'' then ebind (str_field obj ''message'') (\<lambda>m. Inr (Leaf (LCallAborted m)))
      else if tag = ''taskCanceled'' then ebind (str_field obj ''message'') (\<lambda>m. Inr (Leaf (LTaskCanceled m)))
      else if tag = ''error'' then decode_error dec obj
      else if tag = ''silo'' then ebind (str_field obj ''podName'') (\<lambda>p. ebind (str_field obj ''podUid'') (\<lambda>u. ebind (str_field obj ''endpoint'') (\<lambda>e.
        Inr (Leaf (LSilo (SiloAddress p u e))))))
      else if tag = ''map'' then decode_map dec obj
      else if tag = ''set'' then decode_set dec obj
      else ebind (grainIdFrom obj) (\<lambda>g. Inr (case ce_resolve env of
          Some f \<Rightarrow> f g (member_of obj ''interfaceId'')
        | None \<Rightarrow> TObj [(''grainId'', Leaf (LGrainId g)), (''interfaceId'', member_of obj ''interfaceId'')])))"

definition decode_plain :: "(tree \<Rightarrow> codec_error + tree) \<Rightarrow> (string \<times> tree) list \<Rightarrow> codec_error + tree" where
  "decode_plain dec obj = ebind (decode_members dec obj) (\<lambda>kvs. Inr (TObj kvs))"

fun decode_node :: "codec_env \<Rightarrow> (tree \<Rightarrow> codec_error + tree) \<Rightarrow> tree node \<Rightarrow> codec_error + tree" where
  "decode_node env dec (NArr xs) = ebind (decode_array dec xs) (\<lambda>ys. Inr (Node (NArr ys)))"
| "decode_node env dec (NObj obj) =
     (case js_get obj tag_key of
        Some (Leaf (LStr tag)) \<Rightarrow>
          if tag \<notin> set builtInTags then decode_plain dec obj
          else if 1 < versionOf obj then Inl (UnsupportedSchemaVersion tag (versionOf obj))
          else decode_tagged env dec tag obj
      | _ \<Rightarrow> decode_plain dec obj)"
| "decode_node env dec _ = Inl OutsideModel"

fun wire_leaf :: "leaf \<Rightarrow> bool" where
  "wire_leaf LUndef = True" | "wire_leaf LNull = True" | "wire_leaf (LBool _) = True" | "wire_leaf (LNum _) = True"
| "wire_leaf (LStr _) = True" | "wire_leaf (LBigInt _) = True" | "wire_leaf (LBytes _) = True"
| "wire_leaf _ = False"

text \<open>Members are smaller than the object that holds them.\<close>

lemma size_field: "(k, t) \<in> set obj \<Longrightarrow> size t < size (TObj obj)"
  by (induction obj) auto

lemma size_get: "js_get obj k = Some t \<Longrightarrow> size t < size (TObj obj)"
  by (rule size_field) (rule js_get_memD)

lemma size_item: "Some t \<in> set xs \<Longrightarrow> size t < size (Node (NArr xs))"
  by (induction xs) auto

definition agree_below :: "nat \<Rightarrow> (tree \<Rightarrow> 'b) \<Rightarrow> (tree \<Rightarrow> 'b) \<Rightarrow> bool" where
  "agree_below n f g \<longleftrightarrow> (\<forall>t. size t < n \<longrightarrow> f t = g t)"

lemma agree_member: "agree_below (size (TObj obj)) f g \<Longrightarrow> js_get obj k = Some t \<Longrightarrow> agree_below (size t) f g"
  using size_get by (fastforce simp: agree_below_def)

lemma decode_array_agree: "agree_below (size (Node (NArr xs))) f g \<Longrightarrow> decode_array f xs = decode_array g xs"
  unfolding decode_array_def
  by (rule emap_cong) (auto simp: on_some_def agree_below_def simp del: tree.size node.size split: option.splits dest: size_item)

lemma decode_members_agree: "agree_below (size (TObj obj)) f g \<Longrightarrow> decode_members f obj = decode_members g obj"
  unfolding decode_members_def
  by (rule emap_cong) (auto simp: on_value_def agree_below_def simp del: tree.size node.size dest!: size_field)

lemma decode_entry_agree:
  assumes "agree_below (size (Node (NArr xs))) f g" "x \<in> set xs"
  shows "decode_entry f x = decode_entry g x"
proof (cases "\<exists>k v ys. x = Some (Node (NArr (Some k # Some v # ys)))")
  case True
  then obtain k v ys where x: "x = Some (Node (NArr (Some k # Some v # ys)))" by blast
  have "size k < size (Node (NArr xs))" "size v < size (Node (NArr xs))" using size_item [OF assms(2) [unfolded x]] by auto
  then show ?thesis using assms(1) by (simp add: x agree_below_def)
next
  case False
  then have "decode_entry h x = Inl OutsideModel" for h :: "tree \<Rightarrow> codec_error + tree"
    by (cases "(h, x)" rule: decode_entry.cases) auto
  then show ?thesis by simp
qed

lemma decode_tagged_agree:
  assumes a: "agree_below (size (TObj obj)) f g"
  shows "decode_tagged env f tag obj = decode_tagged env g tag obj"
proof -
  have arr: "decode_array f xs = decode_array g xs" "emap (decode_entry f) xs = emap (decode_entry g) xs"
    if "js_get obj k = Some (Node (NArr xs))" for k xs
    using decode_array_agree [OF agree_member [OF a that]] decode_entry_agree [OF agree_member [OF a that]]
    by (auto intro: emap_cong)
  have mem: "decode_members f ps = decode_members g ps" if "js_get obj k = Some (TObj ps)" for k ps
    using decode_members_agree [OF agree_member [OF a that]] .
  have one: "on_some f (js_get obj k) = on_some g (js_get obj k)" for k
    using a size_get [of obj k] by (auto simp: on_some_def agree_below_def split: option.split)
  have "decode_typed env f obj = decode_typed env g obj" "decode_set f obj = decode_set g obj" "decode_map f obj = decode_map g obj"
    unfolding decode_typed_def decode_set_def decode_map_def
    by (auto intro!: ebind_cong simp: arr split: option.splits tree.splits node.splits)
  moreover have "decode_error f obj = decode_error g obj"
  proof -
    have "(case js_get obj ''properties'' of Some (Node (NObj ps)) \<Rightarrow> decode_members f ps | Some (Node _) \<Rightarrow> Inl OutsideModel | _ \<Rightarrow> Inr [])
        = (case js_get obj ''properties'' of Some (Node (NObj ps)) \<Rightarrow> decode_members g ps | Some (Node _) \<Rightarrow> Inl OutsideModel | _ \<Rightarrow> Inr [])"
      by (auto simp: mem split: option.splits tree.splits node.splits)
    moreover have "(case js_get obj ''errors'' of Some (Node (NArr xs)) \<Rightarrow> ebind (decode_array f xs) (\<lambda>ys. Inr (Some ys)) | _ \<Rightarrow> Inr None)
        = (case js_get obj ''errors'' of Some (Node (NArr xs)) \<Rightarrow> ebind (decode_array g xs) (\<lambda>ys. Inr (Some ys)) | _ \<Rightarrow> Inr None)"
      by (auto simp: arr split: option.splits tree.splits node.splits)
    ultimately show ?thesis unfolding decode_error_def one by simp
  qed
  ultimately show ?thesis by (simp add: decode_tagged_def)
qed

lemma decode_node_cong [fundef_cong]:
  assumes "env = env'" "nd = nd'" "\<And>t. size t < size (Node nd') \<Longrightarrow> f t = g t"
  shows "decode_node env f nd = decode_node env' g nd'"
proof -
  have a: "agree_below (size (Node nd')) f g" using assms(3) by (simp add: agree_below_def)
  show ?thesis
  proof (cases nd')
    case (NArr xs)
    then show ?thesis using a decode_array_agree assms(1,2) by (metis decode_node.simps(1))
  next
    case (NObj obj)
    then show ?thesis using decode_tagged_agree [of obj f g env'] decode_members_agree [of obj f g] a assms(1,2)
      by (simp add: decode_plain_def split: option.split tree.split leaf.split)
  qed (simp_all add: assms(1,2))
qed

function decodeValue :: "codec_env \<Rightarrow> tree \<Rightarrow> codec_error + tree" where
  "decodeValue env (Leaf l) = (if wire_leaf l then Inr (Leaf l) else Inl OutsideModel)"
| "decodeValue env (Node nd) = decode_node env (\<lambda>t. decodeValue env t) nd"
  by pat_completeness auto
termination
  by (relation "measure (\<lambda>(env, t). size t)") simp_all

text \<open>
  \<open>JSON.parse(JSON.stringify(t))\<close> on plain data: numbers JSON cannot write become null, an undefined member is
  left out and an undefined or missing array element becomes null.
\<close>

fun json_leaf :: "leaf \<Rightarrow> leaf" where
  "json_leaf (LNum NegZero) = LNum (Finite 0)"
| "json_leaf (LNum NaN) = LNull"
| "json_leaf (LNum PosInf) = LNull"
| "json_leaf (LNum NegInf) = LNull"
| "json_leaf l = l"

fun json_node :: "tree node \<Rightarrow> tree node" where
  "json_node (NArr xs) = NArr (map (\<lambda>x. if x = None \<or> x = Some (Leaf LUndef) then Some (Leaf LNull) else x) xs)"
| "json_node (NObj kvs) = NObj (filter (\<lambda>(k, t). t \<noteq> Leaf LUndef) kvs)"
| "json_node nd = nd"

primrec json :: "tree \<Rightarrow> tree" where
  "json (Leaf l) = Leaf (json_leaf l)"
| "json (Node nd) = Node (json_node (map_node json nd))"

definition serializeValue :: "heap \<Rightarrow> hval \<Rightarrow> codec_error + tree" where
  "serializeValue h v = ebind (encodeValue h True v) (\<lambda>t. Inr (json t))"

definition deserializeValue :: "codec_env \<Rightarrow> tree \<Rightarrow> codec_error + tree" where
  "deserializeValue env text = decodeValue env text"

end
