(* ===== verification/Codec_Round_Trip.thy ===== *)
theory Codec_Round_Trip
  imports Value_Codec
begin

text \<open>
  Correctness of the value codec: base64, the tree a heap value stands for, what the receiver of an encoded
  value gets, and the proofs by induction on that tree that encoding succeeds and decoding gives it back. Then
  cyclic values, the JSON transport, and the safety of decoding data from the wire.
\<close>

section \<open>Base64 round trip\<close>

lemma alphabet_index: "d < 64 \<Longrightarrow> index_of (b64 d) BASE64_ALPHABET = Some d \<and> CHR ''='' \<noteq> b64 d"
proof -
  have "list_all (\<lambda>d. index_of (b64 d) BASE64_ALPHABET = Some d \<and> CHR ''='' \<noteq> b64 d) [0..<64]" by code_simp
  moreover assume "d < 64"
  ultimately show ?thesis by (simp add: list_all_iff)
qed

lemma digit_step:
  "d < 64 \<Longrightarrow> base64_loop acc bits (b64 d # cs) =
     (let acc' = (acc * 64 + d) mod 2 ^ 32 in
      if 8 \<le> bits + 6 then (acc' div 2 ^ (bits - 2)) mod 256 # base64_loop acc' (bits - 2) cs else base64_loop acc' (bits + 6) cs)"
  using alphabet_index [of d] by (simp add: Let_def)

text \<open>Only the digits since the last full byte matter, never the rest of the accumulator.\<close>

lemma low_bits:
  fixes acc d m :: nat
  assumes "d < 64" "64 * m dvd 4294967296"
  shows "((acc * 64 + d) mod 4294967296) mod (64 * m) = (acc mod m) * 64 + d"
proof -
  have "((acc * 64 + d) mod 4294967296) mod (64 * m) = (acc * 64 + d) mod (64 * m)" using assms(2) by (rule mod_mod_cancel)
  also have "\<dots> = (acc mod m) * 64 + d" using assms(1) by (simp add: mod_mult2_eq)
  finally show ?thesis .
qed

lemma byte_of: "(a div b) mod c = (a mod (b * c)) div (b::nat)"
  by (cases "b = 0") (simp_all add: mod_mult2_eq)

lemma two_digits:
  assumes "d0 < 64" "d1 < 64"
  shows "\<exists>acc'. base64_loop acc 0 (b64 d0 # b64 d1 # cs) = (d0 * 4 + d1 div 16) # base64_loop acc' 4 cs \<and> acc' mod 64 = d1"
proof -
  let ?a = "(acc * 64 + d0) mod 4294967296"
  let ?b = "(?a * 64 + d1) mod 4294967296"
  have m: "?a mod 64 = d0" "?b mod 64 = d1" "?b mod 4096 = ?a mod 64 * 64 + d1"
    using low_bits [OF assms(1), of 1 acc] low_bits [OF assms(2), of 1 ?a] low_bits [OF assms(2), of 64 ?a] by simp_all
  have "(?b div 16) mod 256 = (d0 * 64 + d1) div 16" using m byte_of [of ?b 16 256] by simp
  also have "\<dots> = d0 * 4 + d1 div 16" by presburger
  finally have "base64_loop acc 0 (b64 d0 # b64 d1 # cs) = (d0 * 4 + d1 div 16) # base64_loop ?b 4 cs"
    using assms by (simp add: digit_step Let_def del: base64_loop.simps)
  with m(2) show ?thesis by blast
qed

lemma third_digit:
  assumes "d < 64"
  shows "\<exists>acc'. base64_loop acc 4 (b64 d # cs) = (acc mod 16 * 16 + d div 4) # base64_loop acc' 2 cs \<and> acc' mod 64 = d"
proof -
  let ?b = "(acc * 64 + d) mod 4294967296"
  have m: "?b mod 64 = d" "?b mod 1024 = acc mod 16 * 64 + d" using low_bits [OF assms, of 1 acc] low_bits [OF assms, of 16 acc] by simp_all
  have "(?b div 4) mod 256 = (acc mod 16 * 64 + d) div 4" using m byte_of [of ?b 4 256] by simp
  also have "\<dots> = acc mod 16 * 16 + d div 4" by presburger
  finally have "base64_loop acc 4 (b64 d # cs) = (acc mod 16 * 16 + d div 4) # base64_loop ?b 2 cs"
    using assms by (simp add: digit_step Let_def del: base64_loop.simps)
  with m(1) show ?thesis by blast
qed

lemma fourth_digit:
  assumes "d < 64"
  shows "\<exists>acc'. base64_loop acc 2 (b64 d # cs) = (acc mod 4 * 64 + d) # base64_loop acc' 0 cs"
proof -
  let ?b = "(acc * 64 + d) mod 4294967296"
  have "?b mod 256 = acc mod 4 * 64 + d" using low_bits [OF assms, of 4 acc] by simp
  then have "base64_loop acc 2 (b64 d # cs) = (acc mod 4 * 64 + d) # base64_loop ?b 0 cs"
    using assms by (simp add: digit_step Let_def del: base64_loop.simps)
  then show ?thesis by blast
qed

fun base64_digits :: "nat list \<Rightarrow> string" where
  "base64_digits [] = []"
| "base64_digits [b0] = [b64 (b0 div 4), b64 ((b0 mod 4) * 16)]"
| "base64_digits [b0, b1] = [b64 (b0 div 4), b64 ((b0 mod 4) * 16 + b1 div 16), b64 ((b1 mod 16) * 4)]"
| "base64_digits (b0 # b1 # b2 # bs) =
     [b64 (b0 div 4), b64 ((b0 mod 4) * 16 + b1 div 16), b64 ((b1 mod 16) * 4 + b2 div 64), b64 (b2 mod 64)] @ base64_digits bs"

text \<open>The digits of one to three bytes are in range, and put together again give the bytes.\<close>

lemma digits_range:
  fixes b0 b1 b2 :: nat
  assumes "b0 < 256" "b1 < 256" "b2 < 256"
  shows "b0 div 4 < 64" "b0 mod 4 * 16 < 64" "b0 mod 4 * 16 + b1 div 16 < 64" "b1 mod 16 * 4 < 64" "b1 mod 16 * 4 + b2 div 64 < 64" "b2 mod 64 < 64"
proof -
  have d: "b0 div 4 < 64" "b1 div 16 < 16" "b2 div 64 < 4" using assms by (simp_all add: less_mult_imp_div_less)
  have m: "b0 mod 4 < 4" "b1 mod 16 < 16" "b2 mod 64 < 64" by simp_all
  show "b0 div 4 < 64" "b0 mod 4 * 16 < 64" "b0 mod 4 * 16 + b1 div 16 < 64" "b1 mod 16 * 4 < 64" "b1 mod 16 * 4 + b2 div 64 < 64" "b2 mod 64 < 64"
    using d m by linarith+
qed

lemma bytes_again:
  fixes a b0 b1 b2 :: nat
  assumes "b1 < 256" "b2 < 256"
  shows "b0 div 4 * 4 + (b0 mod 4 * 16 + b1 div 16) div 16 = b0"
    "a mod 64 = b0 mod 4 * 16 + b1 div 16 \<Longrightarrow> a mod 16 * 16 + (b1 mod 16 * 4 + b2 div 64) div 4 = b1"
    "a mod 64 = b1 mod 16 * 4 + b2 div 64 \<Longrightarrow> a mod 4 * 64 + b2 mod 64 = b2"
proof -
  have d: "b1 div 16 < 16" "b2 div 64 < 4" using assms by (simp_all add: less_mult_imp_div_less)
  show "b0 div 4 * 4 + (b0 mod 4 * 16 + b1 div 16) div 16 = b0" using d(1) by (simp add: div_mult_self3)
  show "a mod 16 * 16 + (b1 mod 16 * 4 + b2 div 64) div 4 = b1" if "a mod 64 = b0 mod 4 * 16 + b1 div 16"
  proof -
    have "a mod 16 = (a mod 64) mod 16" by (simp add: mod_mod_cancel)
    then have "a mod 16 = b1 div 16" using that d(1) by simp
    moreover have "(b1 mod 16 * 4 + b2 div 64) div 4 = b1 mod 16" using d(2) by simp
    ultimately show ?thesis by simp
  qed
  show "a mod 4 * 64 + b2 mod 64 = b2" if "a mod 64 = b1 mod 16 * 4 + b2 div 64"
  proof -
    have "a mod 4 = (a mod 64) mod 4" by (simp add: mod_mod_cancel)
    then have "a mod 4 = b2 div 64" using that d(2) by simp
    then show ?thesis by simp
  qed
qed

lemma base64_loop_digits: "list_all (\<lambda>b. b < 256) bs \<Longrightarrow> base64_loop acc 0 (base64_digits bs) = bs"
proof (induction bs arbitrary: acc rule: base64_digits.induct)
  case (2 b0)
  then have b: "b0 < 256" by simp
  obtain a where "base64_loop acc 0 (base64_digits [b0]) = (b0 div 4 * 4 + (b0 mod 4 * 16) div 16) # base64_loop a 4 []"
    using two_digits [OF digits_range(1,2) [OF b b b], of acc "[]"] by (auto simp del: base64_loop.simps)
  then show ?case by simp
next
  case (3 b0 b1)
  let ?d1 = "b0 mod 4 * 16 + b1 div 16" and ?d2 = "b1 mod 16 * 4"
  have b: "b0 < 256" "b1 < 256" using 3 by simp_all
  note d = digits_range [OF b(1) b(2) b(2)]
  obtain a where 1: "base64_loop acc 0 (base64_digits [b0, b1]) = (b0 div 4 * 4 + ?d1 div 16) # base64_loop a 4 [b64 ?d2]" "a mod 64 = ?d1"
    using two_digits [OF d(1,3), of acc "[b64 ?d2]"] by (auto simp del: base64_loop.simps)
  obtain a' where 2: "base64_loop a 4 [b64 ?d2] = (a mod 16 * 16 + ?d2 div 4) # base64_loop a' 2 []"
    using third_digit [OF d(4), of a "[]"] by (auto simp del: base64_loop.simps)
  show ?case using 1 2 bytes_again(1) [of b1 0 b0] bytes_again(2) [of b1 0 a b0] b by simp
next
  case (4 b0 b1 b2 bs)
  let ?d1 = "b0 mod 4 * 16 + b1 div 16" and ?d2 = "b1 mod 16 * 4 + b2 div 64" and ?d3 = "b2 mod 64"
  have b: "b0 < 256" "b1 < 256" "b2 < 256" "list_all (\<lambda>b. b < 256) bs" using 4 by simp_all
  note d = digits_range [OF b(1-3)]
  obtain a where 1: "base64_loop acc 0 (base64_digits (b0 # b1 # b2 # bs))
      = (b0 div 4 * 4 + ?d1 div 16) # base64_loop a 4 (b64 ?d2 # b64 ?d3 # base64_digits bs)" "a mod 64 = ?d1"
    using two_digits [OF d(1,3), of acc "b64 ?d2 # b64 ?d3 # base64_digits bs"] by (auto simp del: base64_loop.simps)
  obtain a' where 2: "base64_loop a 4 (b64 ?d2 # b64 ?d3 # base64_digits bs)
      = (a mod 16 * 16 + ?d2 div 4) # base64_loop a' 2 (b64 ?d3 # base64_digits bs)" "a' mod 64 = ?d2"
    using third_digit [OF d(5), of a "b64 ?d3 # base64_digits bs"] by (auto simp del: base64_loop.simps)
  obtain a'' where 3: "base64_loop a' 2 (b64 ?d3 # base64_digits bs) = (a' mod 4 * 64 + ?d3) # base64_loop a'' 0 (base64_digits bs)"
    using fourth_digit [OF d(6), of a' "base64_digits bs"] by (auto simp del: base64_loop.simps)
  show ?case using 1 2 3 "4.IH" [OF b(4)] bytes_again(1,2) [OF b(2,3)] bytes_again(3) [OF b(2,3)] by simp
qed simp

lemma base64_text:
  "\<exists>pad. bytesToBase64 bs = base64_digits bs @ pad \<and> pad \<in> {[], ''='', ''==''} \<and> length (base64_digits bs) * 3 div 4 = length bs"
  by (induction bs rule: bytesToBase64.induct) auto

lemma base64_digits_last: "list_all (\<lambda>b. b < 256) bs \<Longrightarrow> CHR ''='' \<notin> set (base64_digits bs)"
proof (induction bs rule: base64_digits.induct)
  case (2 b0)
  then show ?case using digits_range [of b0 0 0, THEN alphabet_index] by simp
next
  case (3 b0 b1)
  then show ?case using digits_range [of b0 b1 0, THEN alphabet_index] by simp
next
  case (4 b0 b1 b2 bs)
  then show ?case using digits_range [of b0 b1 b2, THEN alphabet_index] by simp
qed simp

lemma base64_body_strip:
  assumes "CHR ''='' \<notin> set ds" "pad \<in> {[], ''='', ''==''}"
  shows "base64_body (ds @ pad) = ds"
proof -
  have no: "drop n ds \<noteq> CHR ''='' # x" for n x using assms(1) by (metis in_set_dropD list.set_intros(1))
  consider "pad = []" | "pad = ''=''" | "pad = ''==''" using assms(2) by blast
  then show ?thesis by cases (use no no [of "length ds - Suc 0"] in \<open>simp_all add: base64_body_def\<close>)
qed

lemma base64_round_trip: "list_all (\<lambda>b. b < 256) bs \<Longrightarrow> base64ToBytes (bytesToBase64 bs) = bs"
proof -
  assume b: "list_all (\<lambda>b. b < 256) bs"
  obtain pad where t: "bytesToBase64 bs = base64_digits bs @ pad" "pad \<in> {[], ''='', ''==''}" "length (base64_digits bs) * 3 div 4 = length bs"
    using base64_text [of bs] by blast
  then show ?thesis using b
    by (simp only: base64ToBytes_def base64_body_strip [OF base64_digits_last [OF b] t(2)] base64_loop_digits Let_def) simp
qed

section \<open>What arrives\<close>

text \<open>The tree a heap value stands for, when it stands for one.\<close>

inductive denotes :: "heap \<Rightarrow> hval \<Rightarrow> tree \<Rightarrow> bool" for h where
  leaf: "denotes h (HLeaf l) (Leaf l)"
| ref: "a < length h \<Longrightarrow> rel_node (denotes h) (h ! a) nd \<Longrightarrow> denotes h (HRef a) (Node nd)"
  monos node.rel_mono

inductive_simps denotes_simps: "denotes h (HLeaf l) t" "denotes h v (Leaf l)" "denotes h v (Node nd)" "denotes h (HRef a) t"

text \<open>
  The value the receiver gets: a live cancellation token as its placeholder, a grain reference as the receiver
  resolves it, an error rebuilt or replaced by the fallback, everything else as it was.
\<close>

definition received_leaf :: "codec_env \<Rightarrow> leaf \<Rightarrow> tree" where
  "received_leaf env l = (case l of
     LToken i c s \<Rightarrow> Leaf (LPlaceholder i c s)
   | LGrainRef g i \<Rightarrow> (case ce_resolve env of Some f \<Rightarrow> f g (TNum i) | None \<Rightarrow> TObj [(''grainId'', Leaf (LGrainId g)), (''interfaceId'', TNum i)])
   | _ \<Rightarrow> Leaf l)"

definition carried :: "string list \<Rightarrow> (string \<times> tree) list \<Rightarrow> tree list \<Rightarrow> (string \<times> tree) list" where
  "carried io props errs = (let ps = error_properties io props in
     if ''AggregateError'' \<in> set io then js_set ''errors'' (TArr errs) ps else ps)"

definition received_error :: "string list \<Rightarrow> string option \<Rightarrow> string \<Rightarrow> (string \<times> tree) list \<Rightarrow> tree list \<Rightarrow> codec_error + tree node" where
  "received_error io name m props errs = (let n = (case name of Some s \<Rightarrow> s | None \<Rightarrow> ''Error''); ps = carried io props errs in
     if isKnownThreshError io n then rebuild n (the (js_get knownErrors n)) m ps
     else Inr (fallback n m ps (if ''AggregateError'' \<in> set io then Some errs else None)))"

definition received_node :: "tree node \<Rightarrow> tree node" where
  "received_node nd = (case nd of
     NError io name m props cause stack errs \<Rightarrow>
       (case received_error io name m props errs of Inl _ \<Rightarrow> nd
        | Inr err \<Rightarrow> set_cause_stack cause (map_option (\<lambda>s. setRemoteStackTrace (capStack s)) stack) err)
   | _ \<Rightarrow> nd)"

primrec received :: "codec_env \<Rightarrow> tree \<Rightarrow> tree" where
  "received env (Leaf l) = received_leaf env l"
| "received env (Node nd) = Node (received_node (map_node (received env) nd))"

text \<open>
  What the codec represents: bytes in range, typed arrays whose elements their constructor keeps, time values,
  well-formed identifiers; no holes, no key that reaches a prototype, no plain object that looks like an
  envelope, and the keys of maps and sets distinct, as JavaScript keeps them.
\<close>

fun element_tree :: "element \<Rightarrow> tree" where
  "element_tree (ElNum n) = TNum n"
| "element_tree (ElBig i) = Leaf (LBigInt i)"

fun leaf_ok :: "codec_env \<Rightarrow> leaf \<Rightarrow> bool" where
  "leaf_ok env (LBytes bs) = list_all (\<lambda>b. b < 256) bs"
| "leaf_ok env (LTyped kind es) = (kind \<in> set TYPED_ARRAY_CTORS \<and> kind \<noteq> ''Uint8Array'' \<and> ce_typed env kind (map element_tree es) = Inr es)"
| "leaf_ok env (LDate t) = (timeClip t = t)"
| "leaf_ok env (LGuid g) = wf_guid g"
| "leaf_ok env (LGrainId g) = wf_grain_id g"
| "leaf_ok env (LGrainRef g i) = (wf_grain_id g \<and> primitive_key (received_leaf env (LGrainRef g i)) = None)"
| "leaf_ok env (LUnsupported _) = False"
| "leaf_ok env _ = True"

definition keys_ok :: "tree list \<Rightarrow> bool" where
  "keys_ok ks \<longleftrightarrow> sorted_wrt (\<lambda>a b. \<not> same_key a b) ks \<and> TNum NegZero \<notin> set ks"

definition is_text :: "tree option \<Rightarrow> bool" where
  "is_text x = (case x of Some (Leaf (LStr _)) \<Rightarrow> True | _ \<Rightarrow> False)"

fun node_ok :: "tree node \<Rightarrow> bool" where
  "node_ok (NArr xs) = (None \<notin> set xs)"
| "node_ok (NMap es) = keys_ok (map fst es)"
| "node_ok (NSet vs) = keys_ok vs"
| "node_ok (NObj kvs) = (list_all (\<lambda>(k, _). \<not> isDangerousKey k) kvs \<and> \<not> is_text (js_get kvs tag_key))"
| "node_ok (NError io name m props cause stack errs) =
     (''UnsupportedValueError'' \<in> set io \<longrightarrow> is_text (js_get props ''path'') \<and> is_text (js_get props ''reason''))"

primrec clean :: "codec_env \<Rightarrow> tree \<Rightarrow> bool" where
  "clean env (Leaf l) = leaf_ok env l"
| "clean env (Node nd) = (node_ok nd \<and> (\<forall>c \<in> set_node (map_node (clean env) nd). c))"

section \<open>Leaves\<close>

lemma is_integer_one [simp]: "is_integer 1"
  by code_simp

lemma tag_keys [simp]: "tag_key \<noteq> version_key" "version_key \<noteq> tag_key"
  by (simp_all add: tag_key_def version_key_def)

lemma decode_envelope:
  "tag \<in> set builtInTags \<Longrightarrow> decodeValue env (tagged tag flds) =
     decode_tagged env (decodeValue env) tag ((tag_key, TStr tag) # (version_key, TNum (Finite 1)) # flds)"
  by (simp add: tagged_def versionOf_def)

lemma tagged_not_text [simp]: "tagged tag flds \<noteq> TStr s"
  by (simp add: tagged_def)

lemmas envelope_simps = decode_envelope builtInTags_def decode_tagged_def str_field_def tag_key_def version_key_def

lemma decode_number [simp]: "decodeValue env (encode_number n) = Inr (TNum n)"
  by (cases n) (simp_all add: envelope_simps)

lemma decode_bigint [simp]: "decodeValue env (encode_bigint i) = Inr (Leaf (LBigInt i))"
  by (simp add: encode_bigint_def envelope_simps)

lemma decode_element [simp]: "decodeValue env (encode_element e) = Inr (element_tree e)"
  by (cases e) simp_all

lemma number_not_text [simp]: "encode_number n \<noteq> TStr s" "encode_bigint i \<noteq> TStr s"
  by (cases n) (simp_all add: encode_bigint_def)

lemma decode_array_some: "emap dec ws = Inr ys \<Longrightarrow> decode_array dec (map Some ws) = Inr (map Some ys)"
  by (induction ws arbitrary: ys) (auto simp: decode_array_def on_some_def ebind_Inr)

lemma emap_all: "(\<And>x. x \<in> set xs \<Longrightarrow> f x = Inr (g x)) \<Longrightarrow> emap f xs = Inr (map g xs)"
  by (induction xs) simp_all

lemma kind_round_trip [simp]: "kind_of_name (kind_name k) = Some k"
  by (cases k) (simp_all add: kind_of_name_def)

lemma grain_id_round_trip:
  assumes "wf_grain_id g"
  shows "grainIdFrom ((tag_key, t) # (version_key, v) # grainIdFields g) = Inr g"
    "grainIdFrom ((tag_key, t) # (version_key, v) # (''interfaceId'', i) # grainIdFields g) = Inr g"
  using grain_id_parse_toString [of g] assms
  by (simp_all add: grainIdFrom_def grainIdFields_def str_field_def tag_key_def version_key_def parsed_def wf_grain_id_def grain_id_toString_def)

lemma typed_trip:
  assumes "leaf_ok env (LTyped kind es)"
  shows "decodeValue env (tagged ''typedArray'' [(''kind'', TStr kind), (''values'', TArr (map encode_element es))]) = Inr (Leaf (LTyped kind es))"
proof -
  have "decode_array (decodeValue env) (map Some (map encode_element es)) = Inr (map Some (map element_tree es))"
    by (rule decode_array_some) (induction es, simp_all)
  moreover have "kind \<noteq> ''constructor''" using assms by (auto simp: TYPED_ARRAY_CTORS_def)
  ultimately show ?thesis using assms
    by (simp add: envelope_simps decode_typed_def undefined_hole_def comp_def)
qed

lemma leaf_trip:
  assumes "leaf_ok env l"
  shows "\<exists>w. encode_leaf b path l = Inr w \<and> decodeValue env w = Inr (received_leaf env l) \<and> (\<forall>s. w = TStr s \<longleftrightarrow> l = LStr s)"
proof (cases l)
  case (LTyped kind es)
  then show ?thesis using typed_trip [of env kind es] assms by (auto simp: received_leaf_def)
next
  case (LGrainId g)
  then show ?thesis using assms grain_id_round_trip(1) [of g]
    by (simp add: decode_envelope builtInTags_def decode_tagged_def received_leaf_def)
next
  case (LGrainRef g i)
  then show ?thesis using assms grain_id_round_trip(2) [of g]
    by (simp add: decode_envelope builtInTags_def decode_tagged_def received_leaf_def) (simp add: member_of_def tag_key_def version_key_def split: option.split)
qed (use assms in \<open>auto simp: received_leaf_def envelope_simps base64_round_trip Guid_parse_value parsed_def\<close>)

section \<open>Members\<close>

definition linked :: "codec_env \<Rightarrow> (string \<Rightarrow> hval \<Rightarrow> codec_error + tree) \<Rightarrow> hval \<Rightarrow> tree \<Rightarrow> bool" where
  "linked env enc v t \<longleftrightarrow> (v = HLeaf LUndef \<longrightarrow> t = Leaf LUndef)
     \<and> (\<forall>p. \<exists>w. enc p v = Inr w \<and> decodeValue env w = Inr (received env t) \<and> (\<forall>s. w = TStr s \<longleftrightarrow> t = TStr s))"

lemma linked_member: "linked env enc v t \<Longrightarrow> \<exists>w. enc p v = Inr w \<and> decodeValue env w = Inr (received env t) \<and> (\<forall>s. w = TStr s \<longleftrightarrow> t = TStr s)"
  by (simp add: linked_def)

lemma linked_element: "linked env enc v t \<Longrightarrow> \<exists>w. encodeElement enc p v = Inr w \<and> decodeValue env w = Inr (received env t)"
  by (cases "v = HLeaf LUndef") (auto simp: linked_def encodeElement_def envelope_simps received_leaf_def)

lemma elements_trip:
  assumes "list_all2 (linked env enc) vs ts"
  shows "\<exists>ws. encode_elements enc path vs = Inr ws \<and> emap (decodeValue env) ws = Inr (map (received env) ts)"
proof -
  have "\<exists>ws. emap (\<lambda>(i, v). encodeElement enc (path_at path i) v) (enumerate n vs) = Inr ws \<and> emap (decodeValue env) ws = Inr (map (received env) ts)" for n
    using assms
  proof (induction arbitrary: n rule: list_all2_induct)
    case (Cons v vs t ts)
    obtain w where "encodeElement enc (path_at path n) v = Inr w" "decodeValue env w = Inr (received env t)"
      using linked_element [OF Cons.hyps(1)] by blast
    with Cons.IH [of "Suc n"] show ?case by auto
  qed simp
  then show ?thesis by (simp add: encode_elements_def)
qed

lemma on_value_pair [simp]: "on_value f (k, v) = ebind (f v) (\<lambda>w. Inr (k, w))"
  by (simp add: on_value_def)

lemma fields_trip:
  assumes "list_all2 (rel_prod (=) (linked env enc)) kvs kts"
  shows "\<exists>ws. encode_fields enc path kvs = Inr ws \<and> emap (on_value (decodeValue env)) ws = Inr (map (map_prod id (received env)) kts)
    \<and> map fst ws = map fst kts \<and> (\<forall>k. is_text (js_get ws k) = is_text (js_get kts k))"
  using assms
proof (induction rule: list_all2_induct)
  case Nil
  then show ?case by (simp add: encode_fields_def)
next
  case (Cons kv kvs kt kts)
  obtain k v t where kv: "kv = (k, v)" "kt = (k, t)" "linked env enc v t" using Cons.hyps(1) by (cases kv, cases kt) auto
  obtain w where w: "enc (path @ ''.'' @ k) v = Inr w" "decodeValue env w = Inr (received env t)" "\<forall>s. w = TStr s \<longleftrightarrow> t = TStr s"
    using linked_member [OF kv(3)] by blast
  have "is_text (Some w) = is_text (Some t)" using w(3) by (auto simp: is_text_def split: tree.splits leaf.splits)
  moreover obtain ws where "encode_fields enc path kvs = Inr ws" "emap (on_value (decodeValue env)) ws = Inr (map (map_prod id (received env)) kts)"
    "map fst ws = map fst kts" "\<forall>k. is_text (js_get ws k) = is_text (js_get kts k)" using Cons.IH by blast
  ultimately show ?case using kv w by (intro exI [of _ "(k, w) # ws"]) (simp add: encode_fields_def id_def)
qed

section \<open>Nodes\<close>

lemma map_add_fresh: "\<forall>k' \<in> fst ` set es. \<not> same_key k' k \<Longrightarrow> k \<noteq> TNum NegZero \<Longrightarrow> map_add_entry es (k, v) = es @ [(k, v)]"
  by (induction es "(k, v)" rule: map_add_entry.induct) (auto simp: norm_key_def)

lemma newMap_distinct: "keys_ok (map fst es) \<Longrightarrow> newMap es = es"
proof -
  have "keys_ok (map fst (acc @ es)) \<Longrightarrow> foldl map_add_entry acc es = acc @ es" for acc
  proof (induction es arbitrary: acc)
    case (Cons e es)
    obtain k v where e: "e = (k, v)" by force
    have "map_add_entry acc (k, v) = acc @ [(k, v)]"
      by (rule map_add_fresh) (use Cons.prems e in \<open>auto simp: keys_ok_def sorted_wrt_append\<close>)
    then show ?case using Cons.IH [of "acc @ [(k, v)]"] Cons.prems e by simp
  qed simp
  from this [of "[]"] show "keys_ok (map fst es) \<Longrightarrow> newMap es = es" by (simp add: newMap_def)
qed

lemma newSet_distinct: "keys_ok vs \<Longrightarrow> newSet vs = vs"
proof -
  have "keys_ok (acc @ vs) \<Longrightarrow> foldl set_add acc vs = acc @ vs" for acc
  proof (induction vs arbitrary: acc)
    case (Cons v vs)
    have "set_add acc v = acc @ [v]" using Cons.prems by (auto simp: set_add_def keys_ok_def sorted_wrt_append norm_key_def list_ex_iff)
    then show ?case using Cons.IH [of "acc @ [v]"] Cons.prems by simp
  qed simp
  from this [of "[]"] show "keys_ok vs \<Longrightarrow> newSet vs = vs" by (simp add: newSet_def)
qed

lemma received_key: "clean env t \<Longrightarrow> primitive_key (received env t) = primitive_key t \<and> (received env t = TNum NegZero \<longleftrightarrow> t = TNum NegZero)"
proof (cases t)
  case (Leaf l)
  moreover assume "clean env t"
  ultimately show ?thesis
    by (cases l) (auto simp: received_leaf_def primitive_key_def split: option.splits tree.splits leaf.splits)
qed (simp add: primitive_key_def)

lemma received_keys:
  assumes "keys_ok ks" "\<forall>t \<in> set ks. clean env t"
  shows "keys_ok (map (received env) ks)"
proof -
  have "TNum NegZero \<notin> set (map (received env) ks)" using assms received_key by (auto simp: keys_ok_def) metis
  moreover have "sorted_wrt (\<lambda>a b. \<not> same_key a b) (map (received env) ks)"
    using assms received_key unfolding keys_ok_def same_key_def by (induction ks) auto
  ultimately show ?thesis by (simp add: keys_ok_def)
qed

lemma array_trip:
  assumes "rel_node (linked env enc) (NArr xs) nd" "node_ok nd"
  shows "\<exists>w. encode_node enc path (NArr xs) = Inr w \<and> decodeValue env w = Inr (Node (received_node (map_node (received env) nd)))"
proof -
  obtain ys where nd: "nd = NArr ys" "list_all2 (rel_option (linked env enc)) xs ys" using assms(1) by (cases nd) auto
  have "\<exists>vs ts. xs = map Some vs \<and> ys = map Some ts \<and> list_all2 (linked env enc) vs ts"
    using nd(2) assms(2) unfolding nd(1)
  proof (induction rule: list_all2_induct)
    case (Cons x xs y ys)
    then obtain v t vs ts where "x = Some v" "y = Some t" "linked env enc v t" "xs = map Some vs" "ys = map Some ts" "list_all2 (linked env enc) vs ts"
      by (cases x; cases y) auto
    then show ?case by (intro exI [of _ "v # vs"] exI [of _ "t # ts"]) simp
  qed simp
  then obtain vs ts where v: "xs = map Some vs" "ys = map Some ts" "list_all2 (linked env enc) vs ts" by blast
  obtain ws where w: "encode_elements enc path vs = Inr ws" "emap (decodeValue env) ws = Inr (map (received env) ts)"
    using elements_trip [OF v(3)] by blast
  have "first_hole n (map Some vs) = None" for n by (induction vs arbitrary: n) simp_all
  then show ?thesis using w decode_array_some [OF w(2)] v by (simp add: nd(1) received_node_def comp_def)
qed

lemma set_trip:
  assumes "rel_node (linked env enc) (NSet vs) nd" "node_ok nd" "\<forall>t \<in> set_node nd. clean env t"
  shows "\<exists>w. encode_node enc path (NSet vs) = Inr w \<and> decodeValue env w = Inr (Node (received_node (map_node (received env) nd)))"
proof -
  obtain ts where nd: "nd = NSet ts" "list_all2 (linked env enc) vs ts" using assms(1) by (cases nd) auto
  obtain ws where w: "encode_elements enc path vs = Inr ws" "emap (decodeValue env) ws = Inr (map (received env) ts)"
    using elements_trip [OF nd(2)] by blast
  have k: "newSet (map (received env) ts) = map (received env) ts"
    by (rule newSet_distinct, rule received_keys) (use assms nd in auto)
  show ?thesis using w decode_array_some [OF w(2)] k
    by (simp add: nd(1) envelope_simps decode_set_def received_node_def undefined_hole_def comp_def)
qed

lemma entries_trip:
  assumes "list_all2 (rel_prod (linked env enc) (linked env enc)) es ts"
  shows "\<exists>ws. emap (\<lambda>(i, k, v). ebind (encodeElement enc (path_at path i @ ''.key'') k) (\<lambda>k'.
        ebind (encodeElement enc (path_at path i @ ''.value'') v) (\<lambda>v'. Inr (TArr [k', v'])))) (enumerate n es) = Inr ws
     \<and> emap (decode_entry (decodeValue env)) (map Some ws) = Inr (map (map_prod (received env) (received env)) ts)"
  using assms
proof (induction arbitrary: n rule: list_all2_induct)
  case (Cons e es t ts)
  obtain k v k' v' where e: "e = (k, v)" "t = (k', v')" "linked env enc k k'" "linked env enc v v'"
    using Cons.hyps(1) by (cases e, cases t) auto
  obtain a where a: "encodeElement enc (path_at path n @ ''.key'') k = Inr a" "decodeValue env a = Inr (received env k')" using linked_element [OF e(3)] by blast
  obtain b where b: "encodeElement enc (path_at path n @ ''.value'') v = Inr b" "decodeValue env b = Inr (received env v')" using linked_element [OF e(4)] by blast
  obtain ws where ws: "emap (\<lambda>(i, k, v). ebind (encodeElement enc (path_at path i @ ''.key'') k) (\<lambda>k'.
        ebind (encodeElement enc (path_at path i @ ''.value'') v) (\<lambda>v'. Inr (TArr [k', v'])))) (enumerate (Suc n) es) = Inr ws"
     "emap (decode_entry (decodeValue env)) (map Some ws) = Inr (map (map_prod (received env) (received env)) ts)" using Cons.IH by blast
  have "emap (\<lambda>(i, k, v). ebind (encodeElement enc (path_at path i @ ''.key'') k) (\<lambda>k'.
        ebind (encodeElement enc (path_at path i @ ''.value'') v) (\<lambda>v'. Inr (TArr [k', v'])))) (enumerate n (e # es)) = Inr (TArr [a, b] # ws)"
    unfolding enumerate_simps emap.simps prod.case e(1) a b ebind_simps ws ..
  moreover have "emap (decode_entry (decodeValue env)) (map Some (TArr [a, b] # ws)) = Inr (map (map_prod (received env) (received env)) (t # ts))"
    using a(2) b(2) ws(2) by (simp add: e)
  ultimately show ?case by blast
qed simp

lemma map_trip:
  assumes "rel_node (linked env enc) (NMap es) nd" "node_ok nd" "\<forall>t \<in> set_node nd. clean env t"
  shows "\<exists>w. encode_node enc path (NMap es) = Inr w \<and> decodeValue env w = Inr (Node (received_node (map_node (received env) nd)))"
proof -
  obtain ts where nd: "nd = NMap ts" "list_all2 (rel_prod (linked env enc) (linked env enc)) es ts" using assms(1) by (cases nd) auto
  obtain ws where w: "emap (\<lambda>(i, k, v). ebind (encodeElement enc (path_at path i @ ''.key'') k) (\<lambda>k'.
        ebind (encodeElement enc (path_at path i @ ''.value'') v) (\<lambda>v'. Inr (TArr [k', v'])))) (enumerate 0 es) = Inr ws"
     "emap (decode_entry (decodeValue env)) (map Some ws) = Inr (map (map_prod (received env) (received env)) ts)"
    using entries_trip [OF nd(2)] by blast
  have "keys_ok (map (received env) (map fst ts))" by (rule received_keys) (use assms nd in auto)
  then have k: "newMap (map (map_prod (received env) (received env)) ts) = map (map_prod (received env) (received env)) ts"
    by (intro newMap_distinct) (simp add: comp_def)
  show ?thesis unfolding encode_node.simps w(1)
    using w(2) k by (simp add: nd(1) envelope_simps decode_map_def received_node_def)
qed

lemma object_trip:
  assumes "rel_node (linked env enc) (NObj kvs) nd" "node_ok nd"
  shows "\<exists>w. encode_node enc path (NObj kvs) = Inr w \<and> decodeValue env w = Inr (Node (received_node (map_node (received env) nd)))"
proof -
  obtain kts where nd: "nd = NObj kts" "list_all2 (rel_prod (=) (linked env enc)) kvs kts" using assms(1) by (cases nd) auto
  have keys: "map fst kvs = map fst kts" using nd(2) by (induction rule: list_all2_induct) auto
  then have "list_all (\<lambda>k. \<not> isDangerousKey k) (map fst kvs)" using assms(2) nd(1) by (simp add: list_all_iff split_beta)
  then have f: "filter (\<lambda>(k, _). \<not> isDangerousKey k) kvs = kvs" by (auto simp: list_all_iff intro!: filter_True)
  obtain ws where w: "encode_fields enc path kvs = Inr ws" "emap (on_value (decodeValue env)) ws = Inr (map (map_prod id (received env)) kts)"
    "map fst ws = map fst kts" "\<forall>k. is_text (js_get ws k) = is_text (js_get kts k)" using fields_trip [OF nd(2)] by blast
  have "list_all (\<lambda>k. \<not> isDangerousKey k) (map fst ws)" using assms(2) nd(1) w(3) by (simp add: list_all_iff split_beta)
  then have "filter (\<lambda>(k, _). \<not> isDangerousKey k) ws = ws" by (auto simp: list_all_iff intro!: filter_True)
  then have "decode_plain (decodeValue env) ws = Inr (TObj (map (map_prod id (received env)) kts))"
    using w(2) by (simp add: decode_plain_def decode_members_def)
  moreover have "\<not> is_text (js_get ws tag_key)" using w(4) assms(2) nd(1) by simp
  ultimately have "decodeValue env (TObj ws) = Inr (TObj (map (map_prod id (received env)) kts))"
    by (auto simp: is_text_def split: option.splits tree.splits leaf.splits)
  then show ?thesis using w(1) f by (simp add: nd(1) received_node_def)
qed

lemma keep_related:
  "list_all2 (rel_prod (=) R) xs ys \<Longrightarrow> list_all2 (rel_prod (=) R) (error_properties io xs) (error_properties io ys)"
  by (induction rule: list_all2_induct) (auto simp: error_properties_def)

lemma error_properties_map [simp]: "error_properties io (map (map_prod id r) ps) = map (map_prod id r) (error_properties io ps)"
  by (induction ps) (auto simp: error_properties_def)

lemma key_filter_get: "js_get (filter (\<lambda>(k, _). P k) ps) k = (if P k then js_get ps k else None)"
  by (induction ps) auto

lemma error_properties_get: "js_get (error_properties io ps) ''path'' = js_get ps ''path''" "js_get (error_properties io ps) ''reason'' = js_get ps ''reason''"
  by (simp_all add: error_properties_def key_filter_get isDangerousKey_def DANGEROUS_KEYS_def)

lemma error_properties_safe: "filter (\<lambda>(k, _). \<not> isDangerousKey k) ws = ws" if "map fst ws = map fst (error_properties io ps)"
proof -
  have "\<forall>k \<in> set (map fst ws). \<not> isDangerousKey k" unfolding that by (auto simp: error_properties_def)
  then show ?thesis by (intro filter_True) auto
qed

lemma text_field: "is_text (js_get p k) \<Longrightarrow> \<exists>s. str_field p k = Inr s"
  by (auto simp: str_field_def is_text_def split: option.splits tree.splits leaf.splits)

lemma rebuild_total:
  assumes "name = ''UnsupportedValueError'' \<longrightarrow> is_text (js_get p ''path'') \<and> is_text (js_get p ''reason'')"
    and "name = ''AggregateError'' \<longrightarrow> (\<exists>xs. js_get p ''errors'' = Some (Node (NArr xs)))"
  shows "\<exists>m' errs. rebuild name info m p = Inr (NError (name # fst info) (Some name) m' (map (built_field p) (snd info))
     (if name = ''TransactionCascadingAbortError'' then Some (Leaf LUndef) else None) None errs)"
proof -
  obtain m' where "rebuild_message name m p = Inr m'"
    using assms(1) text_field [of p "''path''"] text_field [of p "''reason''"] by (cases "name = ''UnsupportedValueError''") (auto simp: rebuild_message_def)
  moreover obtain errs where "rebuild_errors name p = Inr errs"
    using assms(2) by (cases "name = ''AggregateError''") (auto simp: rebuild_errors_def)
  ultimately show ?thesis by (simp add: rebuild_def)
qed

lemma received_text: "is_text (map_option (received env) x)" if "is_text x"
  using that by (auto simp: is_text_def received_leaf_def split: option.splits tree.splits leaf.splits)

lemma map_received_get: "js_get (map (map_prod id (received env)) ps) k = map_option (received env) (js_get ps k)"
  by (induction ps) auto

lemma received_error_total:
  assumes "node_ok (NError io name m pts ct stack ets)"
  shows "\<exists>err. received_error io name m (map (map_prod id (received env)) pts) (map (received env) ets) = Inr err"
proof (cases "isKnownThreshError io (case name of Some s \<Rightarrow> s | None \<Rightarrow> ''Error'')")
  case True
  let ?n = "case name of Some s \<Rightarrow> s | None \<Rightarrow> ''Error''"
  let ?p = "carried io (map (map_prod id (received env)) pts) (map (received env) ets)"
  have n: "?n \<in> set io" using True by (simp add: isKnownThreshError_def)
  have get: "js_get ?p ''path'' = map_option (received env) (js_get pts ''path'')" "js_get ?p ''reason'' = map_option (received env) (js_get pts ''reason'')"
    by (simp_all add: carried_def Let_def js_get_set map_received_get error_properties_get)
  have "?n = ''UnsupportedValueError'' \<longrightarrow> is_text (js_get ?p ''path'') \<and> is_text (js_get ?p ''reason'')"
    unfolding get using n assms received_text by (metis node_ok.simps(5))
  moreover have "?n = ''AggregateError'' \<longrightarrow> (\<exists>xs. js_get ?p ''errors'' = Some (Node (NArr xs)))"
    using n by (auto simp: carried_def Let_def js_get_set)
  ultimately show ?thesis using True rebuild_total [of ?n ?p "the (js_get knownErrors ?n)" m] unfolding received_error_def Let_def by auto
qed (simp add: received_error_def Let_def)

lemma cause_trip:
  assumes "rel_option (linked env enc) cause ct"
  shows "\<exists>c. on_some (encodeElement enc path) cause = Inr c \<and> on_some (decodeValue env) c = Inr (map_option (received env) ct)"
proof (cases cause)
  case None
  then show ?thesis using assms by (simp add: on_some_def)
next
  case (Some v)
  then obtain t where "ct = Some t" "linked env enc v t" using assms by (cases ct) auto
  then show ?thesis using Some linked_element [of env enc v t path] by (auto simp: on_some_def)
qed

lemma error_trip:
  assumes "rel_node (linked env enc) (NError io name m props cause stack errs) nd" "node_ok nd"
  shows "\<exists>w. encode_node enc path (NError io name m props cause stack errs) = Inr w
     \<and> decodeValue env w = Inr (Node (received_node (map_node (received env) nd)))"
proof -
  obtain pts ct ets where nd: "nd = NError io name m pts ct stack ets" and rel: "list_all2 (rel_prod (=) (linked env enc)) props pts"
    "rel_option (linked env enc) cause ct" "list_all2 (linked env enc) errs ets" using assms(1) by (cases nd) auto
  let ?n = "case name of Some s \<Rightarrow> s | None \<Rightarrow> ''Error''"
  let ?r = "received env"
  let ?PS = "map (map_prod id ?r) (error_properties io pts)"
  obtain ws where w: "encode_fields enc path (error_properties io props) = Inr ws" "emap (on_value (decodeValue env)) ws = Inr ?PS"
    "map fst ws = map fst (error_properties io pts)" using fields_trip [OF keep_related [OF rel(1)]] by blast
  have mem: "decode_members (decodeValue env) ws = Inr ?PS" using w(2) error_properties_safe [OF w(3)] by (simp add: decode_members_def)
  obtain c where c: "on_some (encodeElement enc (path @ ''.cause'')) cause = Inr c" "on_some (decodeValue env) c = Inr (map_option ?r ct)"
    using cause_trip [OF rel(2)] by blast
  obtain es where e: "encode_elements enc (path @ ''.errors'') errs = Inr es" "emap (decodeValue env) es = Inr (map ?r ets)"
    using elements_trip [OF rel(3)] by blast
  let ?agg = "''AggregateError'' \<in> set io"
  let ?K = "isKnownThreshError io ?n"
  let ?F = "(''name'', TStr ?n) # (''message'', TStr m) # opt_field ''thresh'' (if ?K then Some (TBool True) else None)
        @ opt_field ''properties'' (if ws \<noteq> [] then Some (TObj ws) else None) @ opt_field ''cause'' c
        @ opt_field ''stack'' (map_option (\<lambda>s. TStr (capStack s)) stack) @ opt_field ''errors'' (if ?agg then Some (TArr es) else None)"
  let ?O = "(tag_key, TStr ''error'') # (version_key, TNum (Finite 1)) # ?F"
  have enc: "encode_node enc path (NError io name m props cause stack errs) = Inr (tagged ''error'' ?F)"
    unfolding encode_node.simps w(1) c(1) e(1) Let_def by (cases ?agg) simp_all
  have get: "js_get ?O ''name'' = Some (TStr ?n)" "js_get ?O ''message'' = Some (TStr m)" "js_get ?O ''thresh'' = (if ?K then Some (TBool True) else None)"
    "js_get ?O ''properties'' = (if ws \<noteq> [] then Some (TObj ws) else None)" "js_get ?O ''cause'' = c"
    "js_get ?O ''stack'' = map_option (\<lambda>s. TStr (capStack s)) stack" "js_get ?O ''errors'' = (if ?agg then Some (TArr es) else None)"
    by (simp_all add: tag_key_def version_key_def del: map_of_append)
  have props: "(case js_get ?O ''properties'' of Some (Node (NObj ps)) \<Rightarrow> decode_members (decodeValue env) ps
        | Some (Node _) \<Rightarrow> Inl OutsideModel | _ \<Rightarrow> Inr []) = Inr ?PS"
    unfolding get using mem by (cases "ws = []") (simp_all add: decode_members_def)
  have errors: "(case js_get ?O ''errors'' of Some (Node (NArr xs)) \<Rightarrow> ebind (decode_array (decodeValue env) xs) (\<lambda>ys. Inr (Some ys)) | _ \<Rightarrow> Inr None)
      = Inr (if ?agg then Some (map Some (map ?r ets)) else None)"
    unfolding get using decode_array_some [OF e(2)] by simp
  have known: "(if (if ?K then Some (TBool True) else None) = Some (TBool True) then js_get knownErrors ?n else None)
      = (if ?K then Some (the (js_get knownErrors ?n)) else None)"
    by (auto simp: isKnownThreshError_def)
  have stk: "(case js_get ?O ''stack'' of Some (Leaf (LStr s)) \<Rightarrow> Some (setRemoteStackTrace s) | _ \<Rightarrow> None) = map_option (\<lambda>s. setRemoteStackTrace (capStack s)) stack"
    unfolding get by (cases stack) simp_all
  obtain err where err: "received_error io name m (map (map_prod id ?r) pts) (map ?r ets) = Inr err"
    using received_error_total assms(2) nd by blast
  let ?E = "if ?agg then Some (map Some (map ?r ets)) else None"
  have built: "(case (if ?K then Some (the (js_get knownErrors ?n)) else None) of
        Some info \<Rightarrow> rebuild ?n info m (case ?E of Some es \<Rightarrow> js_set ''errors'' (Node (NArr es)) ?PS | None \<Rightarrow> ?PS)
      | None \<Rightarrow> Inr (fallback ?n m (case ?E of Some es \<Rightarrow> js_set ''errors'' (Node (NArr es)) ?PS | None \<Rightarrow> ?PS) (map_option (map undefined_hole) ?E))) = Inr err"
    using err unfolding received_error_def carried_def Let_def error_properties_map
    by (cases ?K; cases ?agg) (simp_all add: undefined_hole_def comp_def)
  have "decode_error (decodeValue env) ?O = Inr (Node (set_cause_stack (map_option ?r ct) (map_option (\<lambda>s. setRemoteStackTrace (capStack s)) stack) err))"
    unfolding decode_error_def props errors stk unfolding get Let_def ebind_simps option.case tree.case leaf.case known built c(2) ..
  then have "decodeValue env (tagged ''error'' ?F) = Inr (Node (set_cause_stack (map_option ?r ct) (map_option (\<lambda>s. setRemoteStackTrace (capStack s)) stack) err))"
    by (simp add: decode_envelope builtInTags_def decode_tagged_def)
  moreover have "received_node (map_node ?r nd) = set_cause_stack (map_option ?r ct) (map_option (\<lambda>s. setRemoteStackTrace (capStack s)) stack) err"
    unfolding nd node.map received_node_def node.case err sum.case ..
  ultimately show ?thesis using enc by metis
qed

section \<open>The whole value\<close>

lemma denotes_fun: "denotes h v t \<Longrightarrow> denotes h v t' \<Longrightarrow> t = t'"
proof (induction arbitrary: t' rule: denotes.induct)
  case (ref a nd)
  obtain nd' where t': "t' = Node nd'" "rel_node (denotes h) (h ! a) nd'" using ref.prems by (auto simp: denotes_simps)
  have "((rel_node (\<lambda>v x. denotes h v x \<and> (\<forall>t'. denotes h v t' \<longrightarrow> x = t')))\<inverse>\<inverse> OO rel_node (denotes h)) nd nd'"
    by (rule relcomppI, rule conversepI, rule ref.IH, rule t'(2))
  then have "rel_node ((\<lambda>v x. denotes h v x \<and> (\<forall>t'. denotes h v t' \<longrightarrow> x = t'))\<inverse>\<inverse> OO denotes h) nd nd'"
    unfolding node.rel_compp node.rel_conversep .
  then have "rel_node (=) nd nd'" by (rule node.rel_mono_strong) auto
  then show ?case by (simp add: t' node.rel_eq)
qed (simp add: denotes_simps)

lemma size_member: "x \<in> set_node nd \<Longrightarrow> size x < size (Node nd)"
proof -
  have p: "(k, x) \<in> set ps \<Longrightarrow> size x \<le> size_list (size_prod (\<lambda>x. 0) size) ps" for k and ps :: "(string \<times> tree) list" by (induction ps) auto
  have l: "x \<in> set xs \<Longrightarrow> size x \<le> size_list size xs" for xs :: "tree list" by (induction xs) auto
  have o: "Some x \<in> set xs \<Longrightarrow> size x \<le> size_list (size_option size) xs" for xs :: "tree option list" by (induction xs) auto
  have m: "(x, y) \<in> set es \<Longrightarrow> size x \<le> size_list (size_prod size size) es" "(y, x) \<in> set es \<Longrightarrow> size x \<le> size_list (size_prod size size) es"
    for y and es :: "(tree \<times> tree) list" by (induction es) auto
  assume "x \<in> set_node nd"
  then show ?thesis by (cases nd) (fastforce simp: elem_set dest: p l o m)+
qed

lemma clean_members: "clean env (Node nd) \<longleftrightarrow> node_ok nd \<and> (\<forall>t \<in> set_node nd. clean env t)"
  by (simp add: node.set_map)

lemma node_trip:
  assumes "rel_node (linked env enc) nd ndt" "clean env (Node ndt)"
  shows "\<exists>w. encode_node enc path nd = Inr w \<and> decodeValue env w = Inr (received env (Node ndt))"
proof -
  have ok: "node_ok ndt" "\<forall>t \<in> set_node ndt. clean env t" using assms(2) unfolding clean_members by blast+
  show ?thesis
    by (cases nd) (use assms(1) ok array_trip map_trip set_trip object_trip error_trip in \<open>simp_all only: received.simps\<close>)
qed

lemma inner_trip:
  assumes "denotes h v t" "clean env t" "\<forall>s \<in> set seen. \<exists>ts. denotes h (HRef s) ts \<and> size t < size ts"
  shows "\<exists>w. encodeInner h b seen path v = Inr w \<and> decodeValue env w = Inr (received env t) \<and> (\<forall>s. w = TStr s \<longleftrightarrow> t = TStr s)"
  using assms
proof (induction t arbitrary: v seen path rule: tree.induct)
  case (Leaf l)
  then have "v = HLeaf l" by (simp add: denotes_simps)
  then show ?case using leaf_trip [of env l b path] Leaf.prems(2) by simp
next
  case (Node nd)
  obtain a where v: "v = HRef a" "a < length h" "rel_node (denotes h) (h ! a) nd" using Node.prems(1) by (auto simp: denotes_simps)
  have self: "denotes h (HRef a) (Node nd)" using Node.prems(1) v(1) by simp
  have a: "a \<notin> set seen" using Node.prems(3) denotes_fun [OF self] by fastforce
  have "linked env (\<lambda>p v. encodeInner h b (a # seen) p v) u x" if "x \<in> set_node nd" "denotes h u x" for u x
  proof -
    have sz: "size x < size (Node nd)" by (rule size_member [OF that(1)])
    have "\<forall>s \<in> set (a # seen). \<exists>ts. denotes h (HRef s) ts \<and> size x < size ts"
      using self Node.prems(3) sz by (auto intro: less_trans simp del: tree.size)
    moreover have "clean env x" using Node.prems(2) that(1) unfolding clean_members by blast
    ultimately show ?thesis using Node.IH [OF that(1) that(2)] that(2) by (auto simp: linked_def denotes_simps)
  qed
  then have "rel_node (linked env (\<lambda>p v. encodeInner h b (a # seen) p v)) (h ! a) nd" using v(3) by (auto elim!: node.rel_mono_strong)
  from node_trip [OF this Node.prems(2), of path] obtain w
    where w: "encode_node (\<lambda>p v. encodeInner h b (a # seen) p v) path (h ! a) = Inr w" "decodeValue env w = Inr (received env (Node nd))" by blast
  have "encodeInner h b seen path v = Inr w" using v a w(1) by simp
  moreover have "w \<noteq> TStr s" for s using w(2) by auto
  ultimately show ?case using w(2) by blast
qed

section \<open>Cycles\<close>

text \<open>The members of a node that encoding visits, and the references between nodes they make.\<close>

fun visited :: "hval node \<Rightarrow> hval list" where
  "visited (NArr xs) = map the (filter (\<lambda>x. x \<noteq> None) xs)"
| "visited (NMap es) = map fst es @ map snd es"
| "visited (NSet vs) = vs"
| "visited (NObj kvs) = map snd (filter (\<lambda>(k, _). \<not> isDangerousKey k) kvs)"
| "visited (NError io name m props cause stack errs) = map snd (error_properties io props)
     @ (case cause of Some c \<Rightarrow> [c] | None \<Rightarrow> []) @ (if ''AggregateError'' \<in> set io then errs else [])"

definition refers :: "heap \<Rightarrow> nat \<Rightarrow> nat \<Rightarrow> bool" where
  "refers h a c \<longleftrightarrow> a < length h \<and> HRef c \<in> set (visited (h ! a))"

lemma emap_success: "emap f xs = Inr ys \<Longrightarrow> x \<in> set xs \<Longrightarrow> \<exists>y. f x = Inr y"
  by (induction xs arbitrary: ys) (auto simp: ebind_Inr)

lemma element_success: "encodeElement enc p (HRef c) = Inr w \<Longrightarrow> \<exists>p w. enc p (HRef c) = Inr w"
  by (auto simp: encodeElement_def)

lemma enumerate_mem: "v \<in> set vs \<Longrightarrow> \<exists>i. (i, v) \<in> set (enumerate n vs)"
  by (induction vs arbitrary: n) auto

lemma fields_success: "encode_fields enc path kvs = Inr ws \<Longrightarrow> HRef c \<in> snd ` set kvs \<Longrightarrow> \<exists>p w. enc p (HRef c) = Inr w"
  by (auto simp: encode_fields_def ebind_Inr dest!: emap_success) metis

lemma elements_success: "encode_elements enc path vs = Inr ws \<Longrightarrow> HRef c \<in> set vs \<Longrightarrow> \<exists>p w. enc p (HRef c) = Inr w"
  unfolding encode_elements_def using enumerate_mem [of "HRef c" vs 0] by (auto dest!: emap_success element_success)

lemma node_success:
  assumes e: "encode_node enc path nd = Inr w" and c: "HRef c \<in> set (visited nd)"
  shows "\<exists>p w. enc p (HRef c) = Inr w"
proof (cases nd)
  case (NArr xs)
  then have "HRef c \<in> set (map the xs)" using c by force
  then show ?thesis using e NArr by (auto simp: ebind_Inr split: option.splits intro!: elements_success [of enc path "map the xs"])
next
  case (NMap es)
  then obtain k v where "(k, v) \<in> set es" and kv: "HRef c = k \<or> HRef c = v" using c by auto
  then obtain i where i: "(i, k, v) \<in> set (enumerate 0 es)" using enumerate_mem [of "(k, v)" es 0] by auto
  obtain ts where ts: "emap (\<lambda>(i, k, v). ebind (encodeElement enc (path_at path i @ ''.key'') k) (\<lambda>k'.
      ebind (encodeElement enc (path_at path i @ ''.value'') v) (\<lambda>v'. Inr (TArr [k', v'])))) (enumerate 0 es) = Inr ts"
    using e unfolding NMap encode_node.simps ebind_Inr by blast
  from emap_success [OF ts i] kv show ?thesis by (auto simp: ebind_Inr dest!: element_success)
next
  case (NSet vs)
  then show ?thesis using e c by (auto simp: ebind_Inr intro: elements_success)
next
  case (NObj kvs)
  then show ?thesis using e c by (auto simp: ebind_Inr image_iff intro!: fields_success)
next
  case (NError io name m props cause stack errs)
  then consider "HRef c \<in> snd ` set (error_properties io props)" | "cause = Some (HRef c)" | "''AggregateError'' \<in> set io" "HRef c \<in> set errs"
    using c by (auto split: option.splits if_splits)
  then show ?thesis using e unfolding NError
    by cases (auto simp: ebind_Inr on_some_def Let_def dest!: element_success intro: fields_success elements_success)
qed

lemma encode_ref_success:
  "encodeInner h b seen path (HRef a) = Inr w \<longleftrightarrow>
     a < length h \<and> a \<notin> set seen \<and> encode_node (encodeInner h b (a # seen)) path (h ! a) = Inr w"
  by auto

lemma encode_step:
  assumes "encodeInner h b seen path (HRef a) = Inr w" "refers h a c"
  shows "a \<notin> set seen \<and> (\<exists>p w. encodeInner h b (a # seen) p (HRef c) = Inr w)"
  using assms(1) node_success [of _ path "h ! a" w c] assms(2) unfolding encode_ref_success [of h b seen path a w] refers_def by blast

lemma encode_path:
  "(refers h)\<^sup>+\<^sup>+ a c \<Longrightarrow> encodeInner h b seen path (HRef a) = Inr w
    \<Longrightarrow> \<exists>seen' p w. encodeInner h b seen' p (HRef c) = Inr w \<and> insert a (set seen) \<subseteq> set seen'"
proof (induction rule: tranclp_induct)
  case (base c)
  from encode_step [OF base.prems base.hyps] show ?case by (metis list.simps(15) order_refl)
next
  case (step c d)
  then obtain seen' p w where s: "encodeInner h b seen' p (HRef c) = Inr w" "insert a (set seen) \<subseteq> set seen'" by blast
  from encode_step [OF s(1) step.hyps(2)] s(2) show ?case by (metis list.simps(15) subset_insertI2)
qed

lemma encode_acyclic:
  assumes "encodeInner h b seen path (HRef r) = Inr w" "(refers h)\<^sup>*\<^sup>* r a"
  shows "\<not> (refers h)\<^sup>+\<^sup>+ a a"
proof
  assume cyc: "(refers h)\<^sup>+\<^sup>+ a a"
  obtain seen1 p1 w1 where "encodeInner h b seen1 p1 (HRef a) = Inr w1"
    using assms encode_path by (metis rtranclpD)
  from encode_path [OF cyc this] obtain seen' p w where "encodeInner h b seen' p (HRef a) = Inr w" "a \<in> set seen'" by blast
  then show False unfolding encode_ref_success by blast
qed

section \<open>Keys that reach a prototype\<close>

fun own_keys_safe :: "tree node \<Rightarrow> bool" where
  "own_keys_safe (NObj kvs) = list_all (\<lambda>(k, _). \<not> isDangerousKey k) kvs"
| "own_keys_safe (NError io name m props cause stack errs) = list_all (\<lambda>(k, _). \<not> isDangerousKey k) props"
| "own_keys_safe nd = True"

primrec keys_safe :: "tree \<Rightarrow> bool" where
  "keys_safe (Leaf l) = True"
| "keys_safe (Node nd) = (own_keys_safe nd \<and> (\<forall>c \<in> set_node (map_node keys_safe nd). c))"

lemma keys_safe_node: "keys_safe (Node nd) \<longleftrightarrow> own_keys_safe nd \<and> (\<forall>t \<in> set_node nd. keys_safe t)"
  by (simp add: node.set_map)

declare keys_safe.simps(2) [simp del]

definition safe_members :: "(string \<times> tree) list \<Rightarrow> bool" where
  "safe_members ps \<longleftrightarrow> (\<forall>(k, t) \<in> set ps. \<not> isDangerousKey k \<and> keys_safe t)"

lemma safe_object [simp]: "keys_safe (TObj ps) \<longleftrightarrow> safe_members ps"
  by (force simp: keys_safe_node safe_members_def list_all_iff)

lemma safe_error [simp]: "keys_safe (Node (NError io n m ps c s es)) \<longleftrightarrow>
    safe_members ps \<and> (\<forall>t. c = Some t \<longrightarrow> keys_safe t) \<and> (\<forall>t \<in> set es. keys_safe t)"
  by (force simp: keys_safe_node safe_members_def list_all_iff elem_set)

lemma safe_array [simp]: "keys_safe (Node (NArr xs)) \<longleftrightarrow> (\<forall>t. Some t \<in> set xs \<longrightarrow> keys_safe t)"
  by (auto simp: keys_safe_node elem_set)

text \<open>
  Well-typed wire data: primitives, arrays and objects, in which the fields of every built-in envelope have the types
  \<open>encodeValue\<close> writes. Decoding it never leaves the model.
\<close>

definition is_array :: "tree option \<Rightarrow> bool" where
  "is_array x \<longleftrightarrow> (case x of Some (Node (NArr _)) \<Rightarrow> True | _ \<Rightarrow> False)"

definition grain_id_typed :: "(string \<times> tree) list \<Rightarrow> bool" where
  "grain_id_typed obj \<longleftrightarrow> is_text (js_get obj ''grainType'') \<and> is_text (js_get obj ''key'')
     \<and> (case js_get obj ''keyKind'' of Some (Leaf (LStr n)) \<Rightarrow> kind_of_name n \<noteq> None | _ \<Rightarrow> False)"

definition error_typed :: "(string \<times> tree) list \<Rightarrow> bool" where
  "error_typed obj \<longleftrightarrow>
     (case js_get obj ''properties'' of
        Some (Node (NObj ps)) \<Rightarrow> js_get obj ''name'' = Some (TStr ''UnsupportedValueError'') \<longrightarrow> is_text (js_get ps ''path'') \<and> is_text (js_get ps ''reason'')
      | Some (Node _) \<Rightarrow> False
      | _ \<Rightarrow> js_get obj ''name'' \<noteq> Some (TStr ''UnsupportedValueError''))
     \<and> (js_get obj ''name'' = Some (TStr ''AggregateError'') \<longrightarrow> is_array (js_get obj ''errors''))"

fun entry_typed :: "tree option \<Rightarrow> bool" where
  "entry_typed (Some (Node (NArr [Some _, Some _]))) = True"
| "entry_typed _ = False"

definition fields_typed :: "string \<Rightarrow> (string \<times> tree) list \<Rightarrow> bool" where
  "fields_typed tag obj =
     (if tag \<in> {''bigint'', ''bytes'', ''guid''} then is_text (js_get obj ''value'')
      else if tag = ''date'' then (case js_get obj ''value'' of Some (Leaf (LNum _)) \<Rightarrow> True | _ \<Rightarrow> False)
      else if tag = ''grainId'' then grain_id_typed obj
      else if tag = ''cancellationToken'' then is_text (js_get obj ''tokenId'') \<and> (case js_get obj ''cancelled'' of Some (Leaf (LBool _)) \<Rightarrow> True | _ \<Rightarrow> False)
      else if tag = ''typedArray'' then is_text (js_get obj ''kind'')
      else if tag = ''domException'' then is_text (js_get obj ''message'') \<and> is_text (js_get obj ''name'')
      else if tag \<in> {''callAborted'', ''taskCanceled''} then is_text (js_get obj ''message'')
      else if tag = ''error'' then error_typed obj
      else if tag = ''silo'' then is_text (js_get obj ''podName'') \<and> is_text (js_get obj ''podUid'') \<and> is_text (js_get obj ''endpoint'')
      else if tag = ''map'' then (case js_get obj ''entries'' of Some (Node (NArr xs)) \<Rightarrow> list_all entry_typed xs | _ \<Rightarrow> False)
      else if tag = ''set'' then is_array (js_get obj ''values'')
      else if tag = ''grainRef'' then grain_id_typed obj \<and> (case js_get obj ''interfaceId'' of Some (Leaf (LNum _)) \<Rightarrow> True | _ \<Rightarrow> False)
      else True)"

fun node_typed :: "tree node \<Rightarrow> bool" where
  "node_typed (NArr xs) = True"
| "node_typed (NObj obj) = (case js_get obj tag_key of Some (Leaf (LStr tag)) \<Rightarrow> fields_typed tag obj | _ \<Rightarrow> True)"
| "node_typed _ = False"

primrec wire_typed :: "tree \<Rightarrow> bool" where
  "wire_typed (Leaf l) = wire_leaf l"
| "wire_typed (Node nd) = (node_typed nd \<and> (\<forall>c \<in> set_node (map_node wire_typed nd). c))"

lemma wire_typed_node: "wire_typed (Node nd) \<longleftrightarrow> node_typed nd \<and> (\<forall>t \<in> set_node nd. wire_typed t)"
  by (simp add: node.set_map)

declare wire_typed.simps(2) [simp del]

lemma wire_typed_field: "wire_typed (TObj obj) \<Longrightarrow> (k, t) \<in> set obj \<Longrightarrow> wire_typed t"
  by (force simp: wire_typed_node)

lemma wire_typed_item: "wire_typed (Node (NArr xs)) \<Longrightarrow> Some t \<in> set xs \<Longrightarrow> wire_typed t"
  by (force simp: wire_typed_node elem_set)

lemma wire_typed_get: "wire_typed (TObj obj) \<Longrightarrow> js_get obj k = Some t \<Longrightarrow> wire_typed t"
  by (metis wire_typed_field js_get_memD)

text \<open>A decoder that is safe on well-typed data below a size, as the recursive calls are.\<close>

definition safe_below :: "nat \<Rightarrow> (tree \<Rightarrow> codec_error + tree) \<Rightarrow> bool" where
  "safe_below n dec \<longleftrightarrow> (\<forall>x y. wire_typed x \<and> size x < n \<and> dec x = Inr y \<longrightarrow> keys_safe y)"

lemma safe_below_member: "safe_below (size (TObj obj)) dec \<Longrightarrow> js_get obj k = Some t \<Longrightarrow> safe_below (size t) dec"
  unfolding safe_below_def using size_get by (metis less_trans)

lemma emap_origin: "emap f xs = Inr ys \<Longrightarrow> y \<in> set ys \<Longrightarrow> \<exists>x \<in> set xs. f x = Inr y"
  by (induction xs arbitrary: ys) (auto simp: ebind_Inr)

lemma safe_decode_array:
  assumes "safe_below (size (Node (NArr xs))) dec" "decode_array dec xs = Inr ys" "Some y \<in> set ys" "wire_typed (Node (NArr xs))"
  shows "keys_safe y"
proof -
  obtain x where "Some x \<in> set xs" "dec x = Inr y" using emap_origin [OF assms(2) [unfolded decode_array_def] assms(3)]
    by (auto simp: on_some_def ebind_Inr split: option.splits)
  then show ?thesis using assms(1) size_item wire_typed_item [OF assms(4)] unfolding safe_below_def by blast
qed

lemma safe_decode_members:
  assumes "safe_below (size (TObj obj)) dec" "decode_members dec obj = Inr ps" "wire_typed (TObj obj)"
  shows "safe_members ps"
  unfolding safe_members_def
proof (intro ballI, clarify)
  fix k t
  assume "(k, t) \<in> set ps"
  then obtain x where x: "(k, x) \<in> set (filter (\<lambda>(k, _). \<not> isDangerousKey k) obj)" "dec x = Inr t"
    using emap_origin [OF assms(2) [unfolded decode_members_def]] by (fastforce simp: on_value_def ebind_Inr)
  then have "\<not> isDangerousKey k" "size x < size (TObj obj)" "wire_typed x" using wire_typed_field [OF assms(3)] by (auto dest: size_field)
  then show "\<not> isDangerousKey k \<and> keys_safe t" using assms(1) x(2) unfolding safe_below_def by blast
qed

lemma js_set_subset: "set (js_set k v m) \<subseteq> insert (k, v) (set m)"
  by (induction m) auto

lemma safe_js_set: "safe_members m \<Longrightarrow> \<not> isDangerousKey k \<Longrightarrow> keys_safe v \<Longrightarrow> safe_members (js_set k v m)"
  using js_set_subset [of k v m] by (fastforce simp: safe_members_def)

lemma safe_members_simps [simp]: "safe_members []" "safe_members ((k, v) # m) \<longleftrightarrow> \<not> isDangerousKey k \<and> keys_safe v \<and> safe_members m"
  by (simp_all add: safe_members_def)

lemma safe_get: "safe_members m \<Longrightarrow> js_get m k = Some t \<Longrightarrow> keys_safe t"
  by (auto simp: safe_members_def dest!: js_get_memD)

lemma harmless_names: "\<not> isDangerousKey ''errors''" "\<not> isDangerousKey ''errorType''" "\<not> isDangerousKey ''properties''"
    "\<not> isDangerousKey ''grainId''" "\<not> isDangerousKey ''interfaceId''"
  by code_simp+

lemma known_fields_safe: "js_get knownErrors n = Some (anc, fs) \<Longrightarrow> f \<in> set fs \<Longrightarrow> \<not> isDangerousKey f"
proof -
  have "list_all (\<lambda>(n, anc, fs). list_all (\<lambda>f. \<not> isDangerousKey f) fs) knownErrors" by code_simp
  moreover assume "js_get knownErrors n = Some (anc, fs)" "f \<in> set fs"
  ultimately show ?thesis by (auto simp: list_all_iff dest!: js_get_memD)
qed

lemma safe_hole: "(\<forall>t. x = Some t \<longrightarrow> keys_safe t) \<Longrightarrow> keys_safe (undefined_hole x)"
  by (cases x) (simp_all add: undefined_hole_def)

lemma safe_rebuild:
  assumes "rebuild n info m p = Inr nd" "js_get knownErrors n = Some info" "safe_members p"
  shows "keys_safe (Node nd)"
proof -
  have field: "keys_safe (snd (built_field p f))" for f
    using safe_get [OF assms(3)] by (auto simp: built_field_def member_of_def split: option.split)
  have fields: "safe_members (map (built_field p) (snd info))"
    using field known_fields_safe [of n "fst info" "snd info"] assms(2) by (auto simp: safe_members_def) (metis built_field_def prod.inject snd_conv)+
  have "\<forall>t \<in> set errs. keys_safe t" if "rebuild_errors n p = Inr errs" for errs
    using that safe_get [OF assms(3), of "''errors''"] by (fastforce simp: rebuild_errors_def intro!: safe_hole split: if_splits option.splits tree.splits leaf.splits node.splits)
  then show ?thesis using assms(1) fields by (auto simp: rebuild_def ebind_Inr)
qed

lemma safe_fallback:
  assumes "safe_members p" "\<forall>es. errs = Some es \<longrightarrow> (\<forall>t \<in> set es. keys_safe t)"
  shows "keys_safe (Node (fallback n m p errs))"
proof -
  let ?b = "[(''errorType'', TStr n), (''properties'', TObj p), (''errors'', case errs of Some es \<Rightarrow> TArr es | None \<Rightarrow> Leaf LUndef)]"
  let ?ps = "filter (\<lambda>(k, _). k \<notin> set RESERVED_FALLBACK_KEYS) p"
  have b: "safe_members ?b" using assms by (cases errs) (auto simp: harmless_names)
  have fold: "safe_members m \<Longrightarrow> safe_members q \<Longrightarrow> safe_members (foldl (\<lambda>ps (k, v). js_set k v ps) m q)" for m q
  proof (induction q arbitrary: m)
    case (Cons kv q)
    then have "safe_members (js_set (fst kv) (snd kv) m)" "safe_members q" by (cases kv, auto intro!: safe_js_set)+
    then show ?case using Cons.IH by (simp add: split_beta)
  qed simp
  have "safe_members ?ps" using assms(1) unfolding safe_members_def by auto
  then have "safe_members (foldl (\<lambda>ps (k, v). js_set k v ps) ?b ?ps)" by (rule fold [OF b])
  then show ?thesis unfolding fallback_def safe_error using safe_get [OF assms(1)] by (metis empty_iff list.set(1))
qed

lemma safe_cause_stack: "keys_safe (Node nd) \<Longrightarrow> (\<forall>t. c = Some t \<longrightarrow> keys_safe t) \<Longrightarrow> keys_safe (Node (set_cause_stack c s nd))"
  by (cases nd) (auto simp: set_cause_stack_def)

lemma safe_decode_error:
  assumes b: "safe_below (size (TObj obj)) dec" and d: "decode_error dec obj = Inr v" and w: "wire_typed (TObj obj)"
  shows "keys_safe v"
proof -
  let ?n = "case js_get obj ''name'' of Some (Leaf (LStr s)) \<Rightarrow> s | _ \<Rightarrow> ''Error''"
  let ?m = "case js_get obj ''message'' of Some (Leaf (LStr s)) \<Rightarrow> s | _ \<Rightarrow> []"
  obtain ps es err c s where
    ps: "(case js_get obj ''properties'' of Some (Node (NObj ps)) \<Rightarrow> decode_members dec ps | Some (Node _) \<Rightarrow> Inl OutsideModel | _ \<Rightarrow> Inr []) = Inr ps"
    and es: "(case js_get obj ''errors'' of Some (Node (NArr xs)) \<Rightarrow> ebind (decode_array dec xs) (\<lambda>ys. Inr (Some ys)) | _ \<Rightarrow> Inr None) = Inr es"
    and err: "(case (if js_get obj ''thresh'' = Some (TBool True) then js_get knownErrors ?n else None) of
        Some info \<Rightarrow> rebuild ?n info ?m (case es of Some es \<Rightarrow> js_set ''errors'' (Node (NArr es)) ps | None \<Rightarrow> ps)
      | None \<Rightarrow> Inr (fallback ?n ?m (case es of Some es \<Rightarrow> js_set ''errors'' (Node (NArr es)) ps | None \<Rightarrow> ps) (map_option (map undefined_hole) es))) = Inr err"
    and c: "on_some dec (js_get obj ''cause'') = Inr c" and v: "v = Node (set_cause_stack c s err)"
    using d unfolding decode_error_def Let_def ebind_Inr by blast
  have p: "safe_members ps"
    using ps safe_decode_members safe_below_member [OF b, of "''properties''"] wire_typed_get [OF w, of "''properties''"]
    by (auto simp: safe_members_def [of "[]"] split: option.splits tree.splits node.splits)
  have e: "\<forall>xs t. es = Some xs \<and> Some t \<in> set xs \<longrightarrow> keys_safe t"
    using es safe_decode_array safe_below_member [OF b, of "''errors''"] wire_typed_get [OF w, of "''errors''"]
    by (auto simp: ebind_Inr split: option.splits tree.splits node.splits)
  let ?p = "case es of Some es \<Rightarrow> js_set ''errors'' (Node (NArr es)) ps | None \<Rightarrow> ps"
  have p': "safe_members ?p" using p e by (auto intro!: safe_js_set simp: harmless_names split: option.split)
  have h: "\<forall>xs. map_option (map undefined_hole) es = Some xs \<longrightarrow> (\<forall>t \<in> set xs. keys_safe t)" using e by (auto intro!: safe_hole)
  have "keys_safe (Node err)"
    using err safe_rebuild [OF _ _ p'] safe_fallback [OF p' h] by (auto split: option.splits if_splits)
  moreover have "\<forall>t. c = Some t \<longrightarrow> keys_safe t"
    using c b size_get [of obj "''cause''"] wire_typed_get [OF w, of "''cause''"] by (auto simp: on_some_def ebind_Inr safe_below_def split: option.splits)
  ultimately show ?thesis using v safe_cause_stack by simp
qed

lemma safe_map [simp]: "keys_safe (Node (NMap es)) \<longleftrightarrow> list_all (\<lambda>e. keys_safe (fst e) \<and> keys_safe (snd e)) es"
  by (force simp: keys_safe_node list_all_iff)

lemma safe_set [simp]: "keys_safe (Node (NSet vs)) \<longleftrightarrow> list_all keys_safe vs"
  by (simp add: keys_safe_node list_all_iff)

lemma safe_norm_key [simp]: "keys_safe (norm_key t) = keys_safe t"
  by (simp add: norm_key_def)

lemma safe_map_add: "keys_safe (Node (NMap m)) \<Longrightarrow> keys_safe k \<Longrightarrow> keys_safe v \<Longrightarrow> keys_safe (Node (NMap (map_add_entry m (k, v))))"
  by (induction m "(k, v)" rule: map_add_entry.induct) simp_all

lemma safe_newMap: "keys_safe (Node (NMap es)) \<Longrightarrow> keys_safe (Node (NMap (newMap es)))"
proof -
  have "keys_safe (Node (NMap m)) \<Longrightarrow> keys_safe (Node (NMap es)) \<Longrightarrow> keys_safe (Node (NMap (foldl map_add_entry m es)))" for m es
  proof (induction es arbitrary: m)
    case (Cons e es)
    have "keys_safe (Node (NMap (map_add_entry m e)))" using safe_map_add [of m "fst e" "snd e"] Cons.prems by simp
    then show ?case using Cons.IH Cons.prems(2) by simp
  qed simp
  from this [of "[]"] show "keys_safe (Node (NMap es)) \<Longrightarrow> keys_safe (Node (NMap (newMap es)))" by (simp add: newMap_def)
qed

lemma safe_newSet: "keys_safe (Node (NSet vs)) \<Longrightarrow> keys_safe (Node (NSet (newSet vs)))"
proof -
  have "list_all keys_safe m \<Longrightarrow> list_all keys_safe vs \<Longrightarrow> list_all keys_safe (foldl set_add m vs)" for m vs
    by (induction vs arbitrary: m) (simp_all add: set_add_def)
  from this [of "[]"] show "keys_safe (Node (NSet vs)) \<Longrightarrow> keys_safe (Node (NSet (newSet vs)))" by (simp add: newSet_def)
qed

lemma safe_decode_typed:
  assumes "safe_below (size (TObj obj)) dec" "decode_typed env dec obj = Inr v" "wire_typed (TObj obj)"
  shows "keys_safe v"
proof -
  obtain kind where k: "str_field obj ''kind'' = Inr kind" using assms(2) by (auto simp: decode_typed_def ebind_Inr)
  then obtain xs ys where x: "js_get obj ''values'' = Some (Node (NArr xs))" "decode_array dec xs = Inr ys" and v: "v = Node (NArr ys) \<or> (\<exists>l. v = Leaf l)"
    using assms(2) by (auto simp: decode_typed_def ebind_Inr split: if_splits option.splits tree.splits node.splits)
  show ?thesis using v safe_decode_array [OF safe_below_member [OF assms(1) x(1)] x(2)] wire_typed_get [OF assms(3) x(1)] by auto
qed

lemma safe_decode_collections:
  assumes b: "safe_below (size (TObj obj)) dec" and w: "wire_typed (TObj obj)"
  shows "decode_map dec obj = Inr v \<Longrightarrow> keys_safe v" "decode_set dec obj = Inr v \<Longrightarrow> keys_safe v"
proof -
  show "keys_safe v" if m: "decode_map dec obj = Inr v"
  proof -
    obtain xs es where x: "js_get obj ''entries'' = Some (Node (NArr xs))" "emap (decode_entry dec) xs = Inr es" "v = Node (NMap (newMap es))"
      using m by (auto simp: decode_map_def ebind_Inr split: option.splits tree.splits node.splits)
    have "keys_safe k \<and> keys_safe w" if e: "(k, w) \<in> set es" for k w
    proof -
      obtain y where y: "y \<in> set xs" "decode_entry dec y = Inr (k, w)" using emap_origin [OF x(2) e] by blast
      then obtain a c r where a: "y = Some (Node (NArr (Some a # Some c # r)))" "dec a = Inr k" "dec c = Inr w"
        by (cases "(dec, y)" rule: decode_entry.cases) (auto simp: ebind_Inr)
      have "size a < size (Node (NArr xs))" "size c < size (Node (NArr xs))" using size_item [of "Node (NArr (Some a # Some c # r))" xs] y(1) a(1) by auto
      moreover have "wire_typed a" "wire_typed c"
        using wire_typed_item [OF wire_typed_get [OF w x(1)]] y(1) a(1) by (auto intro: wire_typed_item [of "Some a # Some c # r"])
      ultimately show ?thesis using safe_below_member [OF b x(1)] a unfolding safe_below_def by blast
    qed
    then show ?thesis unfolding x(3) by (intro safe_newMap) (auto simp: list_all_iff)
  qed
  show "keys_safe v" if s: "decode_set dec obj = Inr v"
  proof -
    obtain xs ys where x: "js_get obj ''values'' = Some (Node (NArr xs))" "decode_array dec xs = Inr ys" "v = Node (NSet (newSet (map undefined_hole ys)))"
      using s by (auto simp: decode_set_def ebind_Inr split: option.splits tree.splits node.splits)
    show ?thesis unfolding x(3) using safe_decode_array [OF safe_below_member [OF b x(1)] x(2) _ wire_typed_get [OF w x(1)]] by (intro safe_newSet) (auto simp: list_all_iff intro!: safe_hole)
  qed
qed

lemma typed_case_Inr:
  "(case x of Some (Leaf (LBool c)) \<Rightarrow> f c | _ \<Rightarrow> Inl e) = Inr v \<longleftrightarrow> (\<exists>c. x = Some (TBool c) \<and> f c = Inr v)"
  "(case x of Some (Leaf (LNum i)) \<Rightarrow> g i | _ \<Rightarrow> Inl e) = Inr v \<longleftrightarrow> (\<exists>i. x = Some (TNum i) \<and> g i = Inr v)"
  by (auto split: option.split tree.split leaf.split)

definition inside :: "codec_error + 'a \<Rightarrow> bool" where
  "inside r \<longleftrightarrow> r \<noteq> Inl OutsideModel"

lemma inside_simps [simp]: "inside (Inr x)" "inside (Inl e) \<longleftrightarrow> e \<noteq> OutsideModel" "inside (parsed r)"
  by (simp_all add: inside_def parsed_def split: sum.split)

lemma inside_ebind: "inside m \<Longrightarrow> (\<And>x. m = Inr x \<Longrightarrow> inside (f x)) \<Longrightarrow> inside (ebind m f)"
  by (cases m) (simp_all add: inside_def)

lemma inside_emap: "(\<And>x. x \<in> set xs \<Longrightarrow> inside (f x)) \<Longrightarrow> inside (emap f xs)"
  by (induction xs) (auto intro!: inside_ebind)

lemma inside_text: "is_text (js_get obj k) \<Longrightarrow> inside (str_field obj k)"
  using text_field [of obj k] by auto

lemma inside_grain_id: "grain_id_typed obj \<Longrightarrow> inside (grainIdFrom obj)"
  using text_field [of obj "''grainType''"] text_field [of obj "''key''"]
  by (auto simp: grain_id_typed_def grainIdFrom_def str_field_def [of obj "''keyKind''"] split: option.splits tree.splits leaf.splits)

lemma inside_array: "(\<And>t. Some t \<in> set xs \<Longrightarrow> inside (dec t)) \<Longrightarrow> inside (decode_array dec xs)"
  unfolding decode_array_def by (rule inside_emap) (auto simp: on_some_def intro!: inside_ebind split: option.split)

lemma inside_members: "(\<And>k t. (k, t) \<in> set obj \<Longrightarrow> inside (dec t)) \<Longrightarrow> inside (decode_members dec obj)"
  unfolding decode_members_def by (rule inside_emap) (auto simp: on_value_def intro!: inside_ebind)

lemma decoded_member:
  assumes "decode_members dec obj = Inr ps" "\<not> isDangerousKey k" "js_get obj k = Some t"
  shows "\<exists>v. dec t = Inr v \<and> js_get ps k = Some v"
  using assms(1,3) unfolding decode_members_def
proof (induction obj arbitrary: ps)
  case (Cons kv obj)
  then show ?case using assms(2) by (cases kv) (auto simp: ebind_Inr on_value_def split: if_splits)
qed simp

lemma decoded_text:
  assumes "decode_members (decodeValue env) obj = Inr ps" "\<not> isDangerousKey k" "is_text (js_get obj k)"
  shows "is_text (js_get ps k)"
  using decoded_member [OF assms(1,2)] assms(3) by (fastforce simp: is_text_def split: option.splits tree.splits leaf.splits)

lemma inside_error:
  assumes w: "wire_typed (TObj obj)" and e: "error_typed obj"
    and d: "\<And>t. wire_typed t \<Longrightarrow> size t < size (TObj obj) \<Longrightarrow> inside (decodeValue env t)"
  shows "inside (decode_error (decodeValue env) obj)"
proof -
  note t = wire_typed_get [OF w]
  let ?n = "case js_get obj ''name'' of Some (Leaf (LStr s)) \<Rightarrow> s | _ \<Rightarrow> ''Error''"
  have item: "inside (decode_array (decodeValue env) xs)" if "js_get obj k = Some (Node (NArr xs))" for k xs
    using d t [OF that] size_get [OF that] by (intro inside_array) (metis wire_typed_item size_item less_trans)
  have field: "inside (decode_members (decodeValue env) ps)" if "js_get obj k = Some (TObj ps)" for k ps
    using d t [OF that] size_get [OF that] by (intro inside_members) (metis wire_typed_field size_field less_trans)
  have props: "inside (case js_get obj ''properties'' of Some (Node (NObj ps)) \<Rightarrow> decode_members (decodeValue env) ps | Some (Node _) \<Rightarrow> Inl OutsideModel | _ \<Rightarrow> Inr [])"
    using e field by (auto simp: error_typed_def split: option.splits tree.splits node.splits)
  have errs: "inside (case js_get obj ''errors'' of Some (Node (NArr xs)) \<Rightarrow> ebind (decode_array (decodeValue env) xs) (\<lambda>ys. Inr (Some ys)) | _ \<Rightarrow> Inr None)"
    using item by (auto intro!: inside_ebind split: option.splits tree.splits node.splits)
  have cause: "inside (on_some (decodeValue env) (js_get obj ''cause''))"
    using d t size_get by (auto simp: on_some_def intro!: inside_ebind split: option.split)
  have rebuilt: "inside (rebuild ?n info m (case es of Some es \<Rightarrow> js_set ''errors'' (Node (NArr es)) ps | None \<Rightarrow> ps))"
    if ps: "(case js_get obj ''properties'' of Some (Node (NObj ps)) \<Rightarrow> decode_members (decodeValue env) ps | Some (Node _) \<Rightarrow> Inl OutsideModel | _ \<Rightarrow> Inr []) = Inr ps"
      and es: "(case js_get obj ''errors'' of Some (Node (NArr xs)) \<Rightarrow> ebind (decode_array (decodeValue env) xs) (\<lambda>ys. Inr (Some ys)) | _ \<Rightarrow> Inr None) = Inr es"
    for ps es info m
  proof -
    let ?p = "case es of Some es \<Rightarrow> js_set ''errors'' (Node (NArr es)) ps | None \<Rightarrow> ps"
    have "is_text (js_get ?p ''path'') \<and> is_text (js_get ?p ''reason'')" if "?n = ''UnsupportedValueError''"
    proof -
      have "js_get obj ''name'' = Some (TStr ''UnsupportedValueError'')" using that by (auto split: option.splits tree.splits leaf.splits)
      then obtain qs where "js_get obj ''properties'' = Some (TObj qs)" "is_text (js_get qs ''path'')" "is_text (js_get qs ''reason'')"
        using e by (auto simp: error_typed_def split: option.splits tree.splits node.splits)
      with ps have "is_text (js_get ps ''path'')" "is_text (js_get ps ''reason'')" using decoded_text [of env qs ps] by (simp_all add: isDangerousKey_def DANGEROUS_KEYS_def)
      then show ?thesis by (cases es) (simp_all add: js_get_set)
    qed
    moreover have "\<exists>xs. js_get ?p ''errors'' = Some (Node (NArr xs))" if "?n = ''AggregateError''"
    proof -
      have "js_get obj ''name'' = Some (TStr ''AggregateError'')" using that by (auto split: option.splits tree.splits leaf.splits)
      then have "is_array (js_get obj ''errors'')" using e by (simp add: error_typed_def)
      with es have "es \<noteq> None" by (auto simp: is_array_def ebind_Inr split: option.splits tree.splits node.splits)
      then show ?thesis by (cases es) (simp_all add: js_get_set)
    qed
    ultimately obtain nd where "rebuild ?n info m ?p = Inr nd" using rebuild_total [of ?n ?p info m] by blast
    then show ?thesis by simp
  qed
  show ?thesis unfolding decode_error_def Let_def
    by (intro inside_ebind props errs cause) (use rebuilt in \<open>auto split: option.splits if_splits\<close>)
qed

lemma safe_decode_tagged:
  assumes b: "safe_below (size (TObj obj)) dec" and d: "decode_tagged env dec tag obj = Inr v"
    and r: "\<And>f g i. ce_resolve env = Some f \<Longrightarrow> keys_safe i \<Longrightarrow> keys_safe (f g i)"
    and i: "tag \<in> set builtInTags" "fields_typed tag obj" and w: "wire_typed (TObj obj)"
  shows "keys_safe v"
proof -
  have "decode_typed env dec obj = Inr v \<or> decode_error dec obj = Inr v \<or> decode_map dec obj = Inr v \<or> decode_set dec obj = Inr v
      \<or> (\<exists>l. v = Leaf l) \<or> tag = ''grainRef'' \<and> (\<exists>f g. ce_resolve env = Some f \<and> v = f g (member_of obj ''interfaceId''))
      \<or> tag = ''grainRef'' \<and> (\<exists>g. v = TObj [(''grainId'', Leaf (LGrainId g)), (''interfaceId'', member_of obj ''interfaceId'')])"
    using d i(1) unfolding decode_tagged_def builtInTags_def
    by (auto simp: ebind_Inr typed_case_Inr split: if_splits option.splits)
  moreover have "keys_safe (member_of obj ''interfaceId'')" if "tag = ''grainRef''"
    using i(2) that by (auto simp: fields_typed_def member_of_def split: option.splits tree.splits)
  ultimately show ?thesis using safe_decode_typed [OF b _ w] safe_decode_error [OF b _ w] safe_decode_collections [OF b w] r by (auto simp: harmless_names)
qed

lemma inside_tagged:
  assumes w: "wire_typed (TObj obj)" and f: "fields_typed tag obj" "tag \<in> set builtInTags"
    and d: "\<And>t. wire_typed t \<Longrightarrow> size t < size (TObj obj) \<Longrightarrow> inside (decodeValue env t)"
    and c: "\<And>kind ts. inside (ce_typed env kind ts)"
  shows "inside (decode_tagged env (decodeValue env) tag obj)"
proof -
  note t = wire_typed_get [OF w]
  have arr: "inside (decode_array (decodeValue env) xs)" if "js_get obj k = Some (Node (NArr xs))" for k xs
    using d t [OF that] size_get [OF that] by (intro inside_array) (metis wire_typed_item size_item less_trans)
  have typed: "inside (decode_typed env (decodeValue env) obj)" if "tag = ''typedArray''"
    using f(1) that arr c unfolding decode_typed_def
    by (auto simp: fields_typed_def intro!: inside_ebind inside_text split: option.splits tree.splits node.splits)
  have set: "inside (decode_set (decodeValue env) obj)" if "tag = ''set''"
    using f(1) that arr unfolding decode_set_def
    by (auto simp: fields_typed_def is_array_def intro!: inside_ebind split: option.splits tree.splits node.splits)
  have entry: "inside (decode_entry (decodeValue env) x)"
    if x: "js_get obj k = Some (Node (NArr xs))" "x \<in> set xs" "entry_typed x" for k xs x
  proof -
    obtain u v where e: "x = Some (Node (NArr [Some u, Some v]))" using x(3) by (cases x rule: entry_typed.cases) auto
    have "wire_typed (Node (NArr [Some u, Some v]))" using wire_typed_item [OF t [OF x(1)]] x(2) e by simp
    then have "wire_typed u" "wire_typed v" by (auto intro: wire_typed_item)
    moreover have "size (Node (NArr [Some u, Some v])) < size (TObj obj)"
      using size_item [of "Node (NArr [Some u, Some v])" xs] x(2) e size_get [OF x(1)] by (simp del: tree.size node.size)
    then have "size u < size (TObj obj)" "size v < size (TObj obj)" by simp_all
    ultimately show ?thesis using d unfolding e by (auto intro!: inside_ebind)
  qed
  have map: "inside (decode_map (decodeValue env) obj)" if "tag = ''map''"
    using f(1) that entry unfolding decode_map_def
    by (auto simp: fields_typed_def list_all_iff intro!: inside_ebind inside_emap split: option.splits tree.splits node.splits)
  have err: "inside (decode_error (decodeValue env) obj)" if "tag = ''error''"
    using f(1) that by (intro inside_error w d) (simp_all add: fields_typed_def)
  show ?thesis
    using f(2) unfolding builtInTags_def list.set insert_iff empty_iff
    by (elim disjE FalseE; use f(1) typed set map err in \<open>simp add: decode_tagged_def fields_typed_def\<close>)
      (auto intro!: inside_ebind inside_text inside_grain_id split: option.splits tree.splits leaf.splits)
qed

lemma decoded_inside:
  assumes "wire_typed t" "\<And>kind ts. inside (ce_typed env kind ts)"
  shows "inside (decodeValue env t)"
  using assms(1)
proof (induction t rule: measure_induct_rule [of size])
  case (less t)
  show ?case
  proof (cases t)
    case (Node nd)
    then have w: "node_typed nd" "wire_typed (Node nd)" using less.prems by (simp_all add: wire_typed_node)
    have d: "inside (decodeValue env t)" if "wire_typed t" "size t < size (Node nd)" for t using less.IH Node that by blast
    show ?thesis
    proof (cases nd)
      case (NArr xs)
      then show ?thesis using Node w d by (auto intro!: inside_ebind inside_array simp del: tree.size node.size dest: wire_typed_item size_item)
    next
      case (NObj obj)
      have "inside (decode_plain (decodeValue env) obj)"
        unfolding decode_plain_def using w(2) d NObj by (intro inside_ebind inside_members) (auto simp del: tree.size node.size dest: wire_typed_field size_field)
      moreover have "inside (decode_tagged env (decodeValue env) tag obj)" if "js_get obj tag_key = Some (TStr tag)" "tag \<in> set builtInTags" for tag
        using w NObj that d by (intro inside_tagged assms(2)) simp_all
      ultimately show ?thesis using Node NObj by (auto split: option.split tree.split leaf.split)
    qed (use w in simp_all)
  qed (use less.prems in simp)
qed

lemma decoded_safe:
  assumes "decodeValue env t = Inr v" "wire_typed t" "\<And>f g i. ce_resolve env = Some f \<Longrightarrow> keys_safe i \<Longrightarrow> keys_safe (f g i)"
  shows "keys_safe v"
  using assms(1,2)
proof (induction t arbitrary: v rule: measure_induct_rule [of size])
  case (less t)
  show ?case
  proof (cases t)
    case (Node nd)
    have w: "node_typed nd" "wire_typed (Node nd)" using less.prems(2) Node by (simp_all add: wire_typed_node)
    have b: "safe_below (size (Node nd)) (decodeValue env)" using less.IH unfolding Node safe_below_def by blast
    have d: "decode_node env (decodeValue env) nd = Inr v" using less.prems(1) Node by simp
    show ?thesis
    proof (cases nd)
      case (NArr xs)
      then show ?thesis using d b w(2) safe_decode_array by (auto simp: ebind_Inr)
    next
      case (NObj obj)
      then have "decode_tagged env (decodeValue env) tag obj = Inr v \<Longrightarrow> keys_safe v"
        if "js_get obj tag_key = Some (TStr tag)" "tag \<in> set builtInTags" for tag
        using b assms(3) w that by (intro safe_decode_tagged [of obj "decodeValue env" env tag v]) simp_all
      moreover have "decode_plain (decodeValue env) obj = Inr v \<Longrightarrow> keys_safe v"
        using b NObj w(2) safe_decode_members by (auto simp: decode_plain_def ebind_Inr)
      ultimately show ?thesis using d NObj by (auto split: option.splits tree.splits leaf.splits if_splits)
    qed (use d in simp_all)
  qed (use less.prems in \<open>auto split: if_splits\<close>)
qed

section \<open>Through JSON\<close>

text \<open>Values JSON can carry: no NaN, no infinity, and no object member that is undefined.\<close>

fun finite_number :: "js_number \<Rightarrow> bool" where
  "finite_number (Finite _) = True"
| "finite_number NegZero = True"
| "finite_number _ = False"

fun finite_element :: "element \<Rightarrow> bool" where
  "finite_element (ElNum n) = finite_number n"
| "finite_element (ElBig _) = True"

fun json_value_ok :: "hval \<Rightarrow> bool" where
  "json_value_ok (HLeaf (LNum n)) = finite_number n"
| "json_value_ok (HLeaf (LTyped kind es)) = list_all finite_element es"
| "json_value_ok (HLeaf (LDate t)) = (finite_number t \<and> t \<noteq> NegZero)"
| "json_value_ok (HLeaf (LGrainRef g i)) = (finite_number i \<and> i \<noteq> NegZero)"
| "json_value_ok _ = True"

definition json_node_ok :: "hval node \<Rightarrow> bool" where
  "json_node_ok nd \<longleftrightarrow> list_all json_value_ok (visited nd) \<and>
     (case nd of NObj kvs \<Rightarrow> HLeaf LUndef \<notin> snd ` set kvs | NError io n m props c s es \<Rightarrow> HLeaf LUndef \<notin> snd ` set props | _ \<Rightarrow> True)"

definition json_fixed :: "tree \<Rightarrow> bool" where
  "json_fixed t \<longleftrightarrow> json t = t \<and> t \<noteq> Leaf LUndef"

lemma json_fixed_leaf [simp]: "json_fixed (TStr s)" "json_fixed (TBool b)" "json_fixed (TNum (Finite q))"
  by (simp_all add: json_fixed_def)

lemma json_fixed_array: "\<forall>t \<in> set ts. json_fixed t \<Longrightarrow> json_fixed (TArr ts)"
  by (induction ts) (auto simp: json_fixed_def)

lemma json_fixed_object: "\<forall>kt \<in> set kts. json_fixed (snd kt) \<Longrightarrow> json_fixed (TObj kts)"
  by (induction kts) (auto simp: json_fixed_def)

lemma json_fixed_tagged: "\<forall>kt \<in> set flds. json_fixed (snd kt) \<Longrightarrow> json_fixed (tagged tag flds)"
  unfolding tagged_def by (rule json_fixed_object) simp

lemma json_fixed_number [simp]: "finite_number n \<Longrightarrow> json_fixed (encode_number n)" "json_fixed (encode_bigint i)"
  by (cases n) (simp_all add: encode_bigint_def json_fixed_tagged)

lemma json_fixed_element [simp]: "finite_element e \<Longrightarrow> json_fixed (encode_element e)"
  by (cases e) simp_all

lemma json_leaf_fixed:
  assumes "encode_leaf True path l = Inr w" "json_value_ok (HLeaf l)" "l \<noteq> LUndef"
  shows "json_fixed w"
proof (cases l)
  case (LTyped kind es)
  have "json_fixed (TArr (map encode_element es))" using assms(2) by (intro json_fixed_array) (auto simp: LTyped list_all_iff)
  then show ?thesis using assms(1) LTyped json_fixed_tagged by auto
next
  case (LDate t)
  then show ?thesis using assms(1,2) by (cases t) (auto intro!: json_fixed_tagged)
next
  case (LGrainRef g i)
  then show ?thesis using assms(1,2) by (cases i) (auto intro!: json_fixed_tagged simp: grainIdFields_def)
qed (use assms in \<open>auto intro!: json_fixed_tagged simp: grainIdFields_def, auto simp: json_fixed_def\<close>)

definition json_encoder :: "(string \<Rightarrow> hval \<Rightarrow> codec_error + tree) \<Rightarrow> hval \<Rightarrow> bool" where
  "json_encoder enc v \<longleftrightarrow> (\<forall>p w. enc p v = Inr w \<and> v \<noteq> HLeaf LUndef \<longrightarrow> json_fixed w)"

lemma json_element: "json_encoder enc v \<Longrightarrow> encodeElement enc p v = Inr w \<Longrightarrow> json_fixed w"
  by (auto simp: json_encoder_def encodeElement_def json_fixed_tagged split: if_splits)

lemma enumerate_memD: "(i, v) \<in> set (enumerate n vs) \<Longrightarrow> v \<in> set vs"
  by (induction vs arbitrary: n) auto

lemma json_elements:
  assumes "encode_elements enc path vs = Inr ws" "\<forall>v \<in> set vs. json_encoder enc v"
  shows "json_fixed (TArr ws)"
proof (rule json_fixed_array, rule ballI)
  fix w
  assume "w \<in> set ws"
  then obtain i v where "(i, v) \<in> set (enumerate 0 vs)" "encodeElement enc (path_at path i) v = Inr w"
    using emap_origin [OF assms(1) [unfolded encode_elements_def], of w] by auto
  moreover from this(1) have "v \<in> set vs" by (rule enumerate_memD)
  ultimately show "json_fixed w" using assms(2) json_element by blast
qed

lemma json_fields:
  assumes "encode_fields enc path kvs = Inr ws" "\<forall>kv \<in> set kvs. json_encoder enc (snd kv) \<and> snd kv \<noteq> HLeaf LUndef"
  shows "\<forall>kt \<in> set ws. json_fixed (snd kt)"
proof
  fix kt
  assume "kt \<in> set ws"
  then obtain k v where "(k, v) \<in> set kvs" "enc (path @ ''.'' @ k) v = Inr (snd kt)"
    using emap_origin [OF assms(1) [unfolded encode_fields_def], of kt] by (auto simp: ebind_Inr)
  then show "json_fixed (snd kt)" using assms(2) unfolding json_encoder_def by (metis snd_conv)
qed

lemma json_node_fixed:
  assumes e: "encode_node enc path nd = Inr w" and v: "\<forall>v \<in> set (visited nd). json_encoder enc v" and ok: "json_node_ok nd"
  shows "json_fixed w"
proof (cases nd)
  case (NArr xs)
  then obtain ws where ws: "first_hole 0 xs = None" "encode_elements enc path (map the xs) = Inr ws" "w = TArr ws"
    using e by (auto simp: ebind_Inr split: option.splits)
  have "None \<notin> set xs" if "first_hole n xs = None" for n using that by (induction n xs rule: first_hole.induct) auto
  with ws(1) have "filter (\<lambda>x. x \<noteq> None) xs = xs" by (intro filter_True) metis
  then show ?thesis using json_elements [OF ws(2)] v ws(3) NArr by simp
next
  case (NMap es)
  then obtain ts where ts: "emap (\<lambda>(i, k, v). ebind (encodeElement enc (path_at path i @ ''.key'') k) (\<lambda>k'.
      ebind (encodeElement enc (path_at path i @ ''.value'') v) (\<lambda>v'. Inr (TArr [k', v'])))) (enumerate 0 es) = Inr ts"
    "w = tagged ''map'' [(''entries'', TArr ts)]" using e unfolding NMap encode_node.simps ebind_Inr by blast
  have "json_fixed t" if t: "t \<in> set ts" for t
  proof -
    obtain i k x a c where a: "(i, k, x) \<in> set (enumerate 0 es)" "encodeElement enc (path_at path i @ ''.key'') k = Inr a"
      "encodeElement enc (path_at path i @ ''.value'') x = Inr c" "t = TArr [a, c]"
      using emap_origin [OF ts(1) t] by (auto simp: ebind_Inr)
    have "(k, x) \<in> set es" using a(1) by (rule enumerate_memD)
    then have "json_encoder enc k" "json_encoder enc x" using v NMap by force+
    then show ?thesis using a json_element json_fixed_array [of "[a, c]"] by auto
  qed
  then show ?thesis using ts(2) json_fixed_array [of ts] json_fixed_tagged by auto
next
  case (NSet vs)
  then show ?thesis using e v by (auto simp: ebind_Inr intro!: json_fixed_tagged dest: json_elements)
next
  case (NObj kvs)
  then obtain ws where ws: "encode_fields enc path (filter (\<lambda>(k, _). \<not> isDangerousKey k) kvs) = Inr ws" "w = TObj ws" using e by (auto simp: ebind_Inr)
  show ?thesis unfolding ws(2) by (rule json_fixed_object, rule json_fields [OF ws(1)]) (use v ok NObj in \<open>auto simp: json_node_ok_def image_iff\<close>)
next
  case (NError io name m props cause stack errs)
  obtain ps c es where p: "encode_fields enc path (error_properties io props) = Inr ps"
    and c: "on_some (encodeElement enc (path @ ''.cause'')) cause = Inr c"
    and es: "(if ''AggregateError'' \<in> set io then ebind (encode_elements enc (path @ ''.errors'') errs) (\<lambda>es. Inr (Some (TArr es))) else Inr None) = Inr es"
    and w: "\<exists>n. w = tagged ''error'' ((''name'', TStr n) # (''message'', TStr m)
        # opt_field ''thresh'' (if isKnownThreshError io n then Some (TBool True) else None)
        @ opt_field ''properties'' (if ps \<noteq> [] then Some (TObj ps) else None) @ opt_field ''cause'' c
        @ opt_field ''stack'' (map_option (\<lambda>s. TStr (capStack s)) stack) @ opt_field ''errors'' es)"
    using e unfolding NError encode_node.simps ebind_Inr Let_def by blast
  have "\<forall>kv \<in> set (error_properties io props). json_encoder enc (snd kv)" using v NError by simp
  moreover have "\<forall>kv \<in> set (error_properties io props). snd kv \<noteq> HLeaf LUndef"
    using ok NError by (auto simp: json_node_ok_def error_properties_def image_iff)
  ultimately have "\<forall>kt \<in> set ps. json_fixed (snd kt)" by (intro json_fields [OF p]) blast
  then have P: "json_fixed (TObj ps)" by (rule json_fixed_object)
  have C: "json_fixed t" if "c = Some t" for t using c that v NError by (auto simp: on_some_def ebind_Inr intro: json_element split: option.splits)
  have E: "json_fixed t" if "es = Some t" for t using es that v NError by (auto simp: ebind_Inr intro: json_elements split: if_splits)
  have F: "\<forall>kt \<in> set (opt_field k x). json_fixed (snd kt)" if "\<And>t. x = Some t \<Longrightarrow> json_fixed t" for k x
    using that by (cases x) (simp_all add: opt_field_def)
  obtain n where n: "w = tagged ''error'' ((''name'', TStr n) # (''message'', TStr m)
        # opt_field ''thresh'' (if isKnownThreshError io n then Some (TBool True) else None)
        @ opt_field ''properties'' (if ps \<noteq> [] then Some (TObj ps) else None) @ opt_field ''cause'' c
        @ opt_field ''stack'' (map_option (\<lambda>s. TStr (capStack s)) stack) @ opt_field ''errors'' es)" using w by blast
  show ?thesis unfolding n
    by (rule json_fixed_tagged, unfold list.set set_append ball_Un ball_simps, intro conjI F) (use P C E in \<open>auto split: if_splits\<close>)
qed

lemma json_encode:
  "encodeInner h b seen path v = Inr w \<Longrightarrow> b \<Longrightarrow> list_all json_node_ok h \<Longrightarrow> json_value_ok v \<Longrightarrow> v \<noteq> HLeaf LUndef \<Longrightarrow> json_fixed w"
proof (induction h b seen path v arbitrary: w rule: encodeInner.induct)
  case (1 h b seen path l)
  then show ?case using json_leaf_fixed by simp
next
  case (2 h b seen path a)
  have a: "\<not> length h \<le> a" "a \<notin> set seen" "encode_node (encodeInner h b (a # seen)) path (h ! a) = Inr w"
    using "2.prems"(1) unfolding encode_ref_success by auto
  have ok: "json_node_ok (h ! a)" using "2.prems"(3) a(1) by (simp add: list_all_length)
  have "json_encoder (encodeInner h b (a # seen)) u" if "u \<in> set (visited (h ! a))" for u
    unfolding json_encoder_def using "2.IH" [OF a(1,2)] "2.prems"(2,3) ok that by (auto simp: json_node_ok_def list_all_iff)
  then show ?case using json_node_fixed [OF a(3)] ok by blast
qed

section \<open>Properties\<close>

text \<open>Values without errors, live tokens and grain references: nothing in them depends on the receiver.\<close>

primrec self_contained :: "tree \<Rightarrow> bool" where
  "self_contained (Leaf l) = (case l of LToken _ _ _ \<Rightarrow> False | LGrainRef _ _ \<Rightarrow> False | _ \<Rightarrow> True)"
| "self_contained (Node nd) = ((case nd of NError _ _ _ _ _ _ _ \<Rightarrow> False | _ \<Rightarrow> True) \<and> (\<forall>c \<in> set_node (map_node self_contained nd). c))"

lemma received_self_contained: "self_contained t \<Longrightarrow> received env t = t"
proof (induction t rule: tree.induct)
  case (Leaf l)
  then show ?case by (cases l) (simp_all add: received_leaf_def)
next
  case (Node nd)
  have "map_node (received env) nd = map_node id nd" by (rule node.map_cong0) (use Node in \<open>auto simp: node.set_map\<close>)
  then show ?case using Node.prems by (cases nd) (simp_all add: received_node_def node.map_id0 id_def [symmetric])
qed

text \<open>A heap with an array, an object, a map and a set, and the value its first node stands for.\<close>

definition demo_heap :: heap where
  "demo_heap = [NArr [Some (HRef 1), Some (HLeaf LUndef), Some (HLeaf (LNum NegZero))],
     NObj [(''when'', HLeaf (LDate (Finite 5))), (''table'', HRef 2)],
     NMap [(HLeaf (LStr ''k''), HLeaf (LBigInt (-7))), (HRef 3, HLeaf (LBytes [1, 255]))],
     NSet [HLeaf (LStr ''a''), HLeaf LNull]]"

definition demo_tree :: tree where
  "demo_tree = TArr [TObj [(''when'', Leaf (LDate (Finite 5))),
       (''table'', Node (NMap [(TStr ''k'', Leaf (LBigInt (-7))), (Node (NSet [TStr ''a'', Leaf LNull]), Leaf (LBytes [1, 255]))]))],
     Leaf LUndef, TNum NegZero]"

definition demo_env :: codec_env where
  "demo_env = \<lparr> ce_typed = \<lambda>_ ts. Inr (map (\<lambda>t. case t of Leaf (LNum n) \<Rightarrow> ElNum n | Leaf (LBigInt i) \<Rightarrow> ElBig i | _ \<Rightarrow> ElNum NaN) ts),
     ce_resolve = None \<rparr>"

lemma demo_denotes: "denotes demo_heap (HRef 0) demo_tree"
  by (simp add: demo_tree_def denotes_simps) (simp add: demo_heap_def denotes_simps)

lemma demo_clean: "clean demo_env demo_tree" "self_contained demo_tree" "list_all json_node_ok demo_heap"
  by code_simp+

lemma value_trip:
  assumes "denotes h v t" "clean env t"
  shows "\<exists>w. encodeValue h b v = Inr w \<and> decodeValue env w = Inr (received env t)"
proof (cases "v = HLeaf LUndef")
  case True
  then show ?thesis using assms(1) by (auto simp: denotes_simps encodeValue_def envelope_simps received_leaf_def)
next
  case False
  obtain w where "encodeInner h b [] ''$'' v = Inr w" "decodeValue env w = Inr (received env t)" using inner_trip [OF assms, of "[]" b] by auto
  then show ?thesis using False by (auto simp: encodeValue_def)
qed

text \<open>C4: Round trip. A value the codec represents, however it is laid out in memory, is encoded without an error,
  and decoding the result gives the value the receiver is owed; where nothing depends on the receiver, that is
  the value that was sent.\<close>

theorem codec_round_trip:
  assumes "denotes h v t" "clean env t"
  shows "\<exists>w. encodeValue h b v = Inr w \<and> decodeValue env w = Inr (received env t) \<and> (self_contained t \<longrightarrow> received env t = t)"
  using value_trip [OF assms, of b] received_self_contained by blast

theorem codec_round_trip_witness:
  "\<exists>w. encodeValue demo_heap True (HRef 0) = Inr w \<and> decodeValue demo_env w = Inr demo_tree"
  using codec_round_trip [OF demo_denotes demo_clean(1), of True] demo_clean(2) by fastforce

text \<open>C30: The same through the JSON text the durable providers store: a value without NaN, infinities and undefined
  members is read back as the value the receiver is owed.\<close>

theorem codec_json_round_trip:
  assumes "denotes h v t" "clean env t" "list_all json_node_ok h" "json_value_ok v"
  shows "\<exists>w. serializeValue h v = Inr w \<and> deserializeValue env w = Inr (received env t)"
proof (cases "v = HLeaf LUndef")
  case True
  have "json_fixed (tagged ''undefined'' [])" by (rule json_fixed_tagged) simp
  then show ?thesis using True assms(1)
    by (auto simp: denotes_simps serializeValue_def deserializeValue_def encodeValue_def envelope_simps received_leaf_def json_fixed_def)
next
  case False
  obtain w where w: "encodeInner h True [] ''$'' v = Inr w" "decodeValue env w = Inr (received env t)"
    using inner_trip [OF assms(1,2), of "[]" True] by auto
  have "json w = w" using json_encode [OF w(1) TrueI assms(3,4) False] by (simp add: json_fixed_def)
  then show ?thesis using w False by (simp add: serializeValue_def deserializeValue_def encodeValue_def)
qed

theorem codec_json_round_trip_witness:
  "\<exists>w. serializeValue demo_heap (HRef 0) = Inr w \<and> deserializeValue demo_env w = Inr demo_tree"
  using codec_json_round_trip [OF demo_denotes demo_clean(1,3)] received_self_contained [OF demo_clean(2)] by simp

text \<open>C29: Encoding returns on every heap, and never with a value when the value reaches an object that contains itself:
  the unbounded recursion is an error.\<close>

theorem encode_refuses_cycles:
  assumes "(refers h)\<^sup>*\<^sup>* r a" "(refers h)\<^sup>+\<^sup>+ a a"
  shows "\<exists>e. encodeValue h b (HRef r) = Inl e"
  using encode_acyclic [of h b "[]" "''$''" r _ a] assms
  by (cases "encodeInner h b [] ''$'' (HRef r)") (auto simp: encodeValue_def simp del: encodeInner.simps)

theorem encode_refuses_cycles_witness:
  "\<exists>e. encodeValue [NArr [Some (HRef 1)], NObj [(''self'', HRef 1)]] False (HRef 0) = Inl e"
proof -
  let ?h = "[NArr [Some (HRef 1)], NObj [(''self'', HRef 1)]]"
  have r: "refers ?h 0 1" "refers ?h 1 1" by (simp_all add: refers_def isDangerousKey_def DANGEROUS_KEYS_def)
  have "(refers ?h)\<^sup>*\<^sup>* 0 1" "(refers ?h)\<^sup>+\<^sup>+ 1 1" using r by (blast intro: tranclp.r_into_trancl)+
  then show ?thesis by (rule encode_refuses_cycles)
qed

text \<open>C28: Decoding well-typed wire data (primitives, arrays and objects in which the fields of every built-in envelope
  have the types \<open>encodeValue\<close> writes) ends in a value or one of the codec's errors, and no object or error in the value
  has an own property named \<open>__proto__\<close>, \<open>constructor\<close> or \<open>prototype\<close>, at any depth, when the resolver of grain
  references adds none. Ill-typed envelopes are outside the claim: there the code keeps fields as they came, so that
  \<open>forged_interface_id_keeps_proto\<close> holds.\<close>

theorem decoded_keys_safe:
  assumes "wire_typed t" "\<And>f g i. ce_resolve env = Some f \<Longrightarrow> keys_safe i \<Longrightarrow> keys_safe (f g i)"
    and "\<And>kind ts. ce_typed env kind ts \<noteq> Inl OutsideModel"
  shows "decodeValue env t \<noteq> Inl OutsideModel \<and> (\<forall>v. decodeValue env t = Inr v \<longrightarrow> keys_safe v)"
  using decoded_safe [OF _ assms(1)] decoded_inside [OF assms(1)] assms(2,3) unfolding inside_def by blast

definition hostile_wire :: tree where
  "hostile_wire = TArr [TObj [(''__proto__'', TObj []), (''a'', Leaf LNull)],
     tagged ''error'' [(''name'', TStr ''Error''), (''message'', TStr ''m''), (''properties'', TObj [(''constructor'', Leaf LNull), (''code'', TNum (Finite 7))])],
     tagged ''map'' [(''entries'', TArr [TArr [TStr ''k'', TObj [(''prototype'', TObj []), (''b'', TBool True)]]])]]"

lemma hostile_wire_decoded:
  "decodeValue demo_env hostile_wire = Inr (TArr [TObj [(''a'', Leaf LNull)],
     Node (NError [''UnavailableExceptionFallbackException''] (Some ''Error'') ''m''
       [(''errorType'', TStr ''Error''), (''properties'', TObj [(''code'', TNum (Finite 7))]), (''errors'', Leaf LUndef), (''code'', TNum (Finite 7))] None None []),
     Node (NMap [(TStr ''k'', TObj [(''b'', TBool True)])])])"
  by code_simp

theorem decoded_keys_safe_witness:
  "wire_typed hostile_wire \<and> (\<exists>v. decodeValue demo_env hostile_wire = Inr v \<and> keys_safe v)"
proof -
  have w: "wire_typed hostile_wire" by code_simp
  have "decodeValue demo_env hostile_wire \<noteq> Inl OutsideModel \<and> (\<forall>v. decodeValue demo_env hostile_wire = Inr v \<longrightarrow> keys_safe v)"
    by (rule decoded_keys_safe [OF w]) (simp_all add: demo_env_def)
  with w hostile_wire_decoded show ?thesis by blast
qed

text \<open>A forged grain reference: its \<open>interfaceId\<close>, which should be a number, is an object with an own property
  \<open>__proto__\<close>, and the decoded identity carries that object as it came.\<close>

theorem forged_interface_id_keeps_proto:
  "\<exists>g. decodeValue demo_env (tagged ''grainRef'' [(''interfaceId'', TObj [(''__proto__'', TObj [])]),
      (''grainType'', TStr ''g''), (''key'', TStr ''k''), (''keyKind'', TStr ''string'')])
    = Inr (TObj [(''grainId'', Leaf (LGrainId g)), (''interfaceId'', TObj [(''__proto__'', TObj [])])])
  \<and> \<not> keys_safe (TObj [(''interfaceId'', TObj [(''__proto__'', TObj [])])])"
proof -
  have "decodeValue demo_env (tagged ''grainRef'' [(''interfaceId'', TObj [(''__proto__'', TObj [])]),
      (''grainType'', TStr ''g''), (''key'', TStr ''k''), (''keyKind'', TStr ''string'')])
    = Inr (TObj [(''grainId'', Leaf (LGrainId (GrainId ''g'' (KString ''k'')))), (''interfaceId'', TObj [(''__proto__'', TObj [])])])"
    by code_simp
  moreover have "\<not> keys_safe (TObj [(''interfaceId'', TObj [(''__proto__'', TObj [])])])" by code_simp
  ultimately show ?thesis by blast
qed

text \<open>An error crosses the wire as itself or as the fallback: the receiver gets a registered class exactly when the
  sender's error has the registered name and is an instance of that class, so no application error turns into a
  Thresh error; its name arrives unchanged, and so does its message, except that of an \<open>UnsupportedValueError\<close>, which is
  derived again from its fields.\<close>

theorem error_identity:
  assumes "denotes h v (Node (NError io (Some n) m props cause stack errs))" "clean env (Node (NError io (Some n) m props cause stack errs))"
  shows "\<exists>w io' m' props' cause' stack' errs'. encodeValue h b v = Inr w
     \<and> decodeValue env w = Inr (Node (NError io' (Some n) m' props' cause' stack' errs'))
     \<and> io' = (case js_get knownErrors n of Some (ancestors, _) \<Rightarrow> if n \<in> set io then n # ancestors else [''UnavailableExceptionFallbackException'']
              | None \<Rightarrow> [''UnavailableExceptionFallbackException''])
     \<and> (n \<noteq> ''UnsupportedValueError'' \<longrightarrow> m' = m)"
proof -
  let ?e = "Node (NError io (Some n) m props cause stack errs)"
  obtain w where w: "encodeValue h b v = Inr w" "decodeValue env w = Inr (received env ?e)" using value_trip [OF assms] by blast
  obtain err where err: "received_error io (Some n) m (map (map_prod id (received env)) props) (map (received env) errs) = Inr err"
    using received_error_total assms(2) clean_members by blast
  have "\<exists>m' ps c es. err = NError (case js_get knownErrors n of Some (ancestors, _) \<Rightarrow> if n \<in> set io then n # ancestors else [''UnavailableExceptionFallbackException'']
              | None \<Rightarrow> [''UnavailableExceptionFallbackException'']) (Some n) m' ps c None es \<and> (n \<noteq> ''UnsupportedValueError'' \<longrightarrow> m' = m)"
    using err by (auto simp: received_error_def Let_def isKnownThreshError_def rebuild_def rebuild_message_def ebind_Inr fallback_def split: if_splits option.splits)
  moreover have "received env ?e = Node (set_cause_stack (map_option (received env) cause) (map_option (\<lambda>s. setRemoteStackTrace (capStack s)) stack) err)"
    using err by (simp add: received_node_def)
  ultimately show ?thesis using w by (auto simp: set_cause_stack_def simp del: received.simps)
qed

theorem error_identity_witness:
  "\<exists>w m' ps c s es. encodeValue [NError [''TransactionAbortedError''] (Some ''TransactionAbortedError'') ''gone'' [(''transactionId'', HLeaf (LStr ''t1''))] None None []] False (HRef 0) = Inr w
     \<and> decodeValue demo_env w = Inr (Node (NError [''TransactionAbortedError''] (Some ''TransactionAbortedError'') m' ps c s es)) \<and> m' = ''gone''"
proof -
  let ?h = "[NError [''TransactionAbortedError''] (Some ''TransactionAbortedError'') ''gone'' [(''transactionId'', HLeaf (LStr ''t1''))] None None []]"
  let ?e = "NError [''TransactionAbortedError''] (Some ''TransactionAbortedError'') ''gone'' [(''transactionId'', TStr ''t1'')] None None []"
  have d: "denotes ?h (HRef 0) (Node ?e)" by (simp add: denotes_simps)
  have c: "clean demo_env (Node ?e)" by code_simp
  have k: "js_get knownErrors ''TransactionAbortedError'' = Some ([], [''transactionId''])" by code_simp
  from error_identity [OF d c, of False] show ?thesis unfolding k by auto
qed

text \<open>
  What the properties leave out, as facts: a plain object with a string under the tag key is taken for an envelope;
  an error class of the runtime that is not registered arrives as the fallback although its superclass is known;
  NaN becomes null in JSON; an inherited name is accepted as the kind of a typed array.
\<close>

lemma envelope_lookalike:
  "encodeValue [NObj [(''$thresh'', HLeaf (LStr ''negZero''))]] True (HRef 0) = Inr (TObj [(''$thresh'', TStr ''negZero'')])
     \<and> decodeValue demo_env (TObj [(''$thresh'', TStr ''negZero'')]) = Inr (TNum NegZero)"
  by code_simp

lemma already_resolved_unrecognised:
  "(case encodeValue [NError [''TransactionAlreadyResolvedError'', ''TransactionAbortedError''] (Some ''TransactionAlreadyResolvedError'') ''late''
       [(''transactionId'', HLeaf (LStr ''t1'')), (''status'', HLeaf (LStr ''committed''))] None None []] True (HRef 0) of
     Inl e \<Rightarrow> False
   | Inr w \<Rightarrow> (case decodeValue demo_env w of
       Inr (Node (NError io n m ps c s es)) \<Rightarrow> io = [''UnavailableExceptionFallbackException''] | _ \<Rightarrow> False))"
  by code_simp

lemma nan_lost_in_json:
  "serializeValue [] (HLeaf (LNum NaN)) = Inr (Leaf LNull) \<and> deserializeValue demo_env (Leaf LNull) = Inr (Leaf LNull)"
  by code_simp

lemma inherited_array_kind:
  "decodeValue demo_env (tagged ''typedArray'' [(''kind'', TStr ''constructor''), (''values'', TArr [TNum (Finite 1)])]) = Inr (TArr [TNum (Finite 1)])"
  by code_simp

lemma newer_version_refused:
  "js_get obj tag_key = Some (TStr tag) \<Longrightarrow> tag \<in> set builtInTags \<Longrightarrow> 1 < versionOf obj
     \<Longrightarrow> decodeValue env (TObj obj) = Inl (UnsupportedSchemaVersion tag (versionOf obj))"
  by simp

end
