(* ===== verification/Activation.thy ===== *)
theory Activation
  imports Turn_Scheduler Identity
begin

text \<open>
  \<^verbatim>\<open>runtime/src/activation.ts\<close>: the lifecycle of one activation over its turn scheduler. The model keeps the
  fields of \<open>ActivationData\<close> and runs the scheduler of \<open>Turn_Scheduler\<close>. A scheduled closure is an entry of
  \<open>av_turns\<close> with a phase: the scheduler has it queued, it was started (its closure runs one microtask later),
  its body runs, its promise has settled. What a promise chain does after a turn (\<open>invoke\<close>'s \<open>catch\<close> and
  \<open>finally\<close>, the release of a held call) is an entry of \<open>av_cont\<close>, taken up by a later step. Every await is thus a
  point where any other step may come in between. What the grain's own methods do is the environment: it chooses
  how a body ends, and calls the activation's operations at any moment. Answers to callers, the start of a grain
  method, of the \<open>onDeactivate\<close> hook and of the catalog's \<open>onStuck\<close> hook are events.

  Not modelled: logging and spans, the argument and filter pipeline inside one grain method, the registries of
  stream and broadcast handlers and extensions.
\<close>

section \<open>Data\<close>

datatype activation_state = Creating | Activating | Valid | Deactivating | Invalid

record deactivation_reason =
  dr_code :: string
  dr_description :: string

text \<open>The errors a call can be answered with. The two rejections made by the activation for a call it never ran
  are kept apart from an error of the same class thrown by the grain method itself, as the code does by object
  identity.\<close>

datatype call_error =
    ActivationFailure string
  | ActivationUnavailable grain_id
  | RerouteRejection grain_id
  | SchedulerRejection turn_error
  | RequestExpired grain_id
  | MethodError string

text \<open>How a grain method, a timer callback or \<open>onActivate\<close> ends. The flag of a failure says that the error is an
  \<open>InconsistentStateError\<close> still marked with its source activation.\<close>

datatype body_result = BodyOk | BodyFailed string bool

datatype turn_kind =
    ActivateTurn
  | CallTurn nat "int option"
  | HookTurn
  | DehydrateTurn
  | TimerTurn bool
  | StreamTurn

datatype turn_phase = Waiting | Starting | Running | RunningInline | Ended

text \<open>What is left to do for a call after its turn: \<open>HOLD_FOR_REROUTE\<close> was thrown, a hold was released, or the
  result is to be passed on. The flag of a hold says that the call comes from a turn, whose chain ends in
  \<open>finally\<close>; a call held before it was scheduled has no such end.\<close>

datatype continuation = HoldForReroute | Released bool | Settled "call_error + unit"

datatype hook_status = NoHook | HookPending | HookSettled

record activation_options =
  ao_collectionAgeMs :: int
  ao_deactivationTimeoutMs :: "int option"
  ao_maxRequestProcessingTimeMs :: "int option"
  ao_hasOnStuck :: bool

record 'v activation =
  av_id :: grain_id
  av_activationId :: string
  av_options :: activation_options
  av_scheduler :: "'v scheduler"
  av_state :: activation_state
  av_activationFailure :: string
  av_didFailActivation :: bool
  av_neverActivated :: bool
  av_finalizationWaiters :: "(nat \<times> bool) list"
  av_migrationTarget :: "silo_address option"
  av_lastActiveMs :: int
  av_keepAliveUntilMs :: int
  av_deactivateRequested :: bool
  av_pendingDeactivationReason :: "deactivation_reason option"
  av_deactivateRequestedDuringActivation :: bool
  av_migrationRequested :: bool
  av_dehydrated :: bool
  av_timers :: "nat list"
  av_stuckRejection :: "string option"
  av_deactivationStartedAtMs :: "int option"
  av_stuckDeactivationTimer :: "int option"
  av_abandonedAsStuck :: bool
  av_turns :: "(nat, turn_kind \<times> turn_phase) js_map"
  av_cont :: "(nat \<times> continuation) list"
  av_hook :: hook_status
  av_nextCall :: nat

datatype activation_event =
    Answered nat "call_error + unit"
  | MethodStarted nat
  | HookStarted
  | OnStuck
  | DehydrateRejected turn_error

section \<open>Operations\<close>

definition stuckMessage :: "grain_id \<Rightarrow> string" where
  "stuckMessage i = ''activation '' @ grain_id_toString i @ '' is stuck and has been deactivated''"

definition newActivation ::
  "grain_id \<Rightarrow> string \<Rightarrow> int \<Rightarrow> bool \<Rightarrow> nat option \<Rightarrow> activation_options \<Rightarrow> 'v activation" where
  "newActivation i activationId now reentrant hardLimit opts =
     \<lparr> av_id = i, av_activationId = activationId, av_options = opts,
       av_scheduler = newScheduler \<lparr> so_reentrant = reentrant, so_barrierFirstTurn = True, so_hardLimit = hardLimit,
         so_maxRequestProcessingTimeMs = ao_maxRequestProcessingTimeMs opts,
         so_onStuck = (if ao_maxRequestProcessingTimeMs opts = None then None else Some (\<lambda>_. stuckMessage i)) \<rparr> None,
       av_state = Creating, av_activationFailure = '''', av_didFailActivation = False, av_neverActivated = False,
       av_finalizationWaiters = [], av_migrationTarget = None, av_lastActiveMs = now, av_keepAliveUntilMs = 0,
       av_deactivateRequested = False, av_pendingDeactivationReason = None,
       av_deactivateRequestedDuringActivation = False, av_migrationRequested = False, av_dehydrated = False,
       av_timers = [], av_stuckRejection = None, av_deactivationStartedAtMs = None, av_stuckDeactivationTimer = None,
       av_abandonedAsStuck = False, av_turns = [], av_cont = [], av_hook = NoHook, av_nextCall = 0 \<rparr>"

definition touch :: "int \<Rightarrow> 'v activation \<Rightarrow> 'v activation" where
  "touch now a = a\<lparr> av_lastActiveMs := now \<rparr>"

definition clearStuckDeactivationTimer :: "'v activation \<Rightarrow> 'v activation" where
  "clearStuckDeactivationTimer a = a\<lparr> av_stuckDeactivationTimer := None \<rparr>"

text \<open>Releasing the waiters resolves their promises; each then goes on in its own continuation.\<close>

definition releaseFinalizationWaiters :: "'v activation \<Rightarrow> 'v activation" where
  "releaseFinalizationWaiters a =
     a\<lparr> av_finalizationWaiters := [], av_cont := av_cont a @ map (\<lambda>(c, f). (c, Released f)) (av_finalizationWaiters a) \<rparr>"

definition on_stuck_hook :: "'v activation \<Rightarrow> activation_event list" where
  "on_stuck_hook a = (if ao_hasOnStuck (av_options a) then [OnStuck] else [])"

definition handleStuckTurn :: "'v activation \<Rightarrow> 'v activation \<times> activation_event list" where
  "handleStuckTurn a =
     (releaseFinalizationWaiters (clearStuckDeactivationTimer
        (a\<lparr> av_state := Invalid, av_timers := [], av_stuckRejection := Some (stuckMessage (av_id a)),
            av_abandonedAsStuck := True \<rparr>)),
      on_stuck_hook a)"

definition abandonStuckDeactivation :: "'v activation \<Rightarrow> 'v activation \<times> activation_event list" where
  "abandonStuckDeactivation a =
     (releaseFinalizationWaiters (clearStuckDeactivationTimer (a\<lparr> av_state := Invalid, av_abandonedAsStuck := True \<rparr>)),
      on_stuck_hook a)"

definition watchForStuckDeactivation :: "int \<Rightarrow> 'v activation \<Rightarrow> 'v activation \<times> activation_event list" where
  "watchForStuckDeactivation now a =
     (case ao_maxRequestProcessingTimeMs (av_options a) of
        None \<Rightarrow> (a, [])
      | Some limit \<Rightarrow>
          if \<not> ao_hasOnStuck (av_options a) then (a, [])
          else (case av_deactivationStartedAtMs a of
                  None \<Rightarrow> (a, [])
                | Some startedAt \<Rightarrow>
                    if av_state a \<noteq> Deactivating then (a, [])
                    else if av_stuckDeactivationTimer a \<noteq> None then (a, [])
                    else if startedAt + limit - now \<le> 0 then abandonStuckDeactivation a
                    else (a\<lparr> av_stuckDeactivationTimer := Some (startedAt + limit) \<rparr>, [])))"

text \<open>The callback of the stuck-deactivation timer, once its time has come.\<close>

definition stuckDeactivationTimerFires :: "int \<Rightarrow> 'v activation \<Rightarrow> 'v activation \<times> activation_event list" where
  "stuckDeactivationTimerFires now a =
     (case av_stuckDeactivationTimer a of
        None \<Rightarrow> (a, [])
      | Some due \<Rightarrow>
          if now < due then (a, [])
          else (let b = a\<lparr> av_stuckDeactivationTimer := None \<rparr> in
                if av_state b = Deactivating \<and> 0 < length (av_finalizationWaiters b)
                then abandonStuckDeactivation b else (b, [])))"

definition isStuckRejection :: "'v activation \<Rightarrow> call_error \<Rightarrow> bool" where
  "isStuckRejection a e \<longleftrightarrow>
     (case av_stuckRejection a of None \<Rightarrow> False | Some m \<Rightarrow> e = SchedulerRejection (StuckRejection m))"

definition isRerouteRejection :: "'v activation \<Rightarrow> call_error \<Rightarrow> bool" where
  "isRerouteRejection a e \<longleftrightarrow> isStuckRejection a e \<or> e = RerouteRejection (av_id a)"

definition awaitFinalized :: "int \<Rightarrow> nat \<Rightarrow> bool \<Rightarrow> 'v activation \<Rightarrow> 'v activation \<times> activation_event list" where
  "awaitFinalized now c f a =
     (if av_state a = Invalid then (a\<lparr> av_cont := av_cont a @ [(c, Released f)] \<rparr>, [])
      else watchForStuckDeactivation now (a\<lparr> av_finalizationWaiters := av_finalizationWaiters a @ [(c, f)] \<rparr>))"

definition rerouteOrReject :: "int \<Rightarrow> nat \<Rightarrow> bool \<Rightarrow> 'v activation \<Rightarrow> 'v activation \<times> activation_event list" where
  "rerouteOrReject now c f a =
     (if av_didFailActivation a then (a, [Answered c (Inl (ActivationFailure (av_activationFailure a)))])
      else if av_neverActivated a then (a, [Answered c (Inl (ActivationUnavailable (av_id a)))])
      else awaitFinalized now c f a)"

text \<open>The end of \<open>invoke\<close>'s promise chain: the \<open>catch\<close> that turns a thrown \<open>HOLD_FOR_REROUTE\<close> into a hold, the
  \<open>then\<close> of a released hold, and the \<open>finally\<close>.\<close>

definition continueCall :: "int \<Rightarrow> nat \<Rightarrow> continuation \<Rightarrow> 'v activation \<Rightarrow> 'v activation \<times> activation_event list" where
  "continueCall now c k a = (case k of
      HoldForReroute \<Rightarrow>
        (let r = rerouteOrReject now c True a
         in (if av_didFailActivation a \<or> av_neverActivated a then touch now (fst r) else fst r, snd r))
    | Released f \<Rightarrow> (if f then touch now a else a, [Answered c (Inl (RerouteRejection (av_id a)))])
    | Settled r \<Rightarrow> (touch now a, [Answered c r]))"

text \<open>What the activation does about a turn the scheduler starts or rejects: a started closure runs one microtask
  later; a rejected one ends its promise chain.\<close>

definition turnEvent :: "'v activation \<Rightarrow> turn_event \<Rightarrow> 'v activation \<times> activation_event list" where
  "turnEvent a ev = (case ev of
      Started t \<Rightarrow>
        (case js_get (av_turns a) t of
           None \<Rightarrow> (a, [])
         | Some (k, p) \<Rightarrow> (a\<lparr> av_turns := js_set t (k, Starting) (av_turns a) \<rparr>, []))
    | RejectedTurn t e \<Rightarrow>
        (case js_get (av_turns a) t of
           None \<Rightarrow> (a, [])
         | Some (k, p) \<Rightarrow>
             (let b = a\<lparr> av_turns := js_delete t (av_turns a) \<rparr> in
              case k of
                CallTurn c _ \<Rightarrow> (b\<lparr> av_cont := av_cont b @ [(c, Settled (Inl (SchedulerRejection e)))] \<rparr>, [])
              | HookTurn \<Rightarrow> (b\<lparr> av_hook := HookSettled \<rparr>, [])
              | DehydrateTurn \<Rightarrow> (b, [DehydrateRejected e])
              | _ \<Rightarrow> (b, []))))"

fun turnEvents :: "'v activation \<Rightarrow> turn_event list \<Rightarrow> 'v activation \<times> activation_event list" where
  "turnEvents a [] = (a, [])"
| "turnEvents a (ev # evs) =
     (case turnEvent a ev of (b, out) \<Rightarrow> case turnEvents b evs of (c, out') \<Rightarrow> (c, out @ out'))"

declare turnEvents.simps(2) [simp del]

lemma turnEvents_Cons [simp]: "turnEvents a (ev # evs) =
    (fst (turnEvents (fst (turnEvent a ev)) evs), snd (turnEvent a ev) @ snd (turnEvents (fst (turnEvent a ev)) evs))"
  by (simp add: turnEvents.simps(2) case_prod_unfold)

text \<open>An operation of the scheduler as the activation sees it: its \<open>onStuck\<close> callback is \<open>handleStuckTurn\<close>.\<close>

definition runScheduler :: "'v sched_op \<Rightarrow> 'v activation \<Rightarrow> 'v activation \<times> activation_event list" where
  "runScheduler op a =
     (let step = sched_step (av_scheduler a) op;
          b = a\<lparr> av_scheduler := fst step \<rparr>;
          c = (if sc_stuck (av_scheduler a) = None \<and> sc_stuck (fst step) \<noteq> None then handleStuckTurn b else (b, []));
          d = turnEvents (fst c) (snd step)
      in (fst d, snd c @ snd d))"

definition scheduleTurn :: "turn_kind \<Rightarrow> 'v turn \<Rightarrow> 'v activation \<Rightarrow> 'v activation \<times> activation_event list" where
  "scheduleTurn k turn a =
     runScheduler (OpSchedule turn) (a\<lparr> av_turns := js_set (sc_next (av_scheduler a)) (k, Waiting) (av_turns a) \<rparr>)"

definition exclusiveTurn :: "'v turn" where
  "exclusiveTurn = \<lparr> tu_alwaysInterleave = False, tu_readOnly = False, tu_reentrancyId = None, tu_method = None,
     tu_args = None \<rparr>"

definition beginActivate :: "'v activation \<Rightarrow> 'v activation \<times> activation_event list" where
  "beginActivate a = scheduleTurn ActivateTurn exclusiveTurn (a\<lparr> av_state := Activating \<rparr>)"

definition out_of_service :: "'v activation \<Rightarrow> bool" where
  "out_of_service a \<longleftrightarrow> av_state a = Invalid \<or> av_state a = Deactivating \<or> av_dehydrated a"

text \<open>A call of a grain method; the call is named by \<open>av_nextCall\<close>.\<close>

definition invoke :: "int \<Rightarrow> 'v turn \<Rightarrow> int option \<Rightarrow> 'v activation \<Rightarrow> 'v activation \<times> activation_event list" where
  "invoke now turn expiresAt a0 =
     (let c = av_nextCall a0; a = touch now (a0\<lparr> av_nextCall := Suc c \<rparr>) in
      if out_of_service a then rerouteOrReject now c False a
      else scheduleTurn (CallTurn c expiresAt) turn a)"

definition requestDeactivation :: "deactivation_reason option \<Rightarrow> 'v activation \<Rightarrow> 'v activation" where
  "requestDeactivation reason a =
     a\<lparr> av_pendingDeactivationReason :=
          (if reason \<noteq> None \<and> av_pendingDeactivationReason a = None then reason else av_pendingDeactivationReason a),
        av_deactivateRequested := True,
        av_deactivateRequestedDuringActivation :=
          (av_deactivateRequestedDuringActivation a \<or> av_state a = Activating) \<rparr>"

definition delayDeactivation :: "int \<Rightarrow> int \<Rightarrow> 'v activation \<Rightarrow> 'v activation" where
  "delayDeactivation now byMs a = a\<lparr> av_keepAliveUntilMs := (if byMs \<le> 0 then 0 else now + byMs) \<rparr>"

definition requestMigration :: "silo_address option \<Rightarrow> 'v activation \<Rightarrow> 'v activation" where
  "requestMigration target a = a\<lparr> av_migrationRequested := True, av_migrationTarget := target \<rparr>"

definition deactivateOnInconsistentState :: "body_result \<Rightarrow> 'v activation \<Rightarrow> 'v activation" where
  "deactivateOnInconsistentState r a = (case r of
      BodyFailed message True \<Rightarrow>
        requestDeactivation (Some \<lparr> dr_code = ''application-error'', dr_description = message \<rparr>) a
    | _ \<Rightarrow> a)"

text \<open>The closure of a started turn runs: its part before the first await.\<close>

definition setPhase :: "nat \<Rightarrow> turn_kind \<Rightarrow> turn_phase \<Rightarrow> 'v activation \<Rightarrow> 'v activation" where
  "setPhase t k p a = a\<lparr> av_turns := js_set t (k, p) (av_turns a) \<rparr>"

definition settleCall :: "nat \<Rightarrow> continuation \<Rightarrow> 'v activation \<Rightarrow> 'v activation" where
  "settleCall c k a = a\<lparr> av_cont := av_cont a @ [(c, k)] \<rparr>"

definition callTurn :: "int \<Rightarrow> nat \<Rightarrow> nat \<Rightarrow> int option \<Rightarrow> 'v activation \<Rightarrow> 'v activation \<times> activation_event list" where
  "callTurn now t c expiresAt a =
     (let ended = (\<lambda>k. (settleCall c k (setPhase t (CallTurn c expiresAt) Ended a), [])) in
      if (case expiresAt of None \<Rightarrow> False | Some e \<Rightarrow> e \<le> now)
      then ended (Settled (Inl (RequestExpired (av_id a))))
      else if out_of_service a then
        (if av_didFailActivation a then ended (Settled (Inl (ActivationFailure (av_activationFailure a))))
         else if av_neverActivated a then ended (Settled (Inl (ActivationUnavailable (av_id a))))
         else ended HoldForReroute)
      else (setPhase t (CallTurn c expiresAt) Running a, [MethodStarted c]))"

definition runTurn :: "int \<Rightarrow> nat \<Rightarrow> 'v activation \<Rightarrow> 'v activation \<times> activation_event list" where
  "runTurn now t a = (case js_get (av_turns a) t of
      Some (k, Starting) \<Rightarrow>
        (case k of
           CallTurn c e \<Rightarrow> callTurn now t c e a
         | HookTurn \<Rightarrow> (setPhase t k Running a, [HookStarted])
         | DehydrateTurn \<Rightarrow> (setPhase t k Ended (a\<lparr> av_dehydrated := True \<rparr>), [])
         | _ \<Rightarrow> (setPhase t k Running a, []))
    | _ \<Rightarrow> (a, []))"

text \<open>The body of a running turn ends.\<close>

definition endActivate :: "nat \<Rightarrow> body_result \<Rightarrow> 'v activation \<Rightarrow> 'v activation" where
  "endActivate t r a = (case r of
      BodyFailed message _ \<Rightarrow>
        setPhase t ActivateTurn Ended
          (a\<lparr> av_state := Invalid, av_activationFailure := message, av_didFailActivation := True \<rparr>)
    | BodyOk \<Rightarrow>
        if av_deactivateRequestedDuringActivation a then
          setPhase t ActivateTurn RunningInline
            (a\<lparr> av_neverActivated := True, av_state := Deactivating, av_timers := [] \<rparr>)
        else setPhase t ActivateTurn Ended (a\<lparr> av_state := Valid \<rparr>))"

definition body_answer :: "body_result \<Rightarrow> call_error + unit" where
  "body_answer r = (case r of BodyOk \<Rightarrow> Inr () | BodyFailed message _ \<Rightarrow> Inl (MethodError message))"

definition endTurn :: "int \<Rightarrow> nat \<Rightarrow> body_result \<Rightarrow> 'v activation \<Rightarrow> 'v activation" where
  "endTurn now t r a = (case js_get (av_turns a) t of
      Some (k, Running) \<Rightarrow>
        (case k of
           ActivateTurn \<Rightarrow> endActivate t r a
         | CallTurn c e \<Rightarrow>
             settleCall c (Settled (body_answer r)) (setPhase t k Ended (deactivateOnInconsistentState r a))
         | HookTurn \<Rightarrow> setPhase t k Ended (a\<lparr> av_hook := HookSettled \<rparr>)
         | TimerTurn keepAlive \<Rightarrow>
             (let b = setPhase t k Ended (deactivateOnInconsistentState r a) in if keepAlive then touch now b else b)
         | _ \<Rightarrow> setPhase t k Ended a)
    | Some (ActivateTurn, RunningInline) \<Rightarrow> setPhase t ActivateTurn Ended (a\<lparr> av_state := Invalid \<rparr>)
    | _ \<Rightarrow> a)"

text \<open>The \<open>finally\<close> of the scheduler for a turn whose promise has settled.\<close>

definition completeTurn :: "nat \<Rightarrow> 'v activation \<Rightarrow> 'v activation \<times> activation_event list" where
  "completeTurn t a = (case js_get (av_turns a) t of
      Some (k, Ended) \<Rightarrow> runScheduler (OpComplete t) (a\<lparr> av_turns := js_delete t (av_turns a) \<rparr>)
    | _ \<Rightarrow> (a, []))"

text \<open>\<open>runDeactivateHook\<close> up to its await; the flag says that the caller waits for the hook.\<close>

definition runDeactivateHook :: "int \<Rightarrow> 'v activation \<Rightarrow> 'v activation \<times> activation_event list \<times> bool" where
  "runDeactivateHook now a =
     (if av_state a = Invalid \<or> av_state a = Deactivating then (a, [], False)
      else
        (let b = a\<lparr> av_state := Deactivating, av_deactivationStartedAtMs := Some now \<rparr>;
             w = (if 0 < length (av_finalizationWaiters b) then watchForStuckDeactivation now b else (b, []));
             s = scheduleTurn HookTurn exclusiveTurn ((fst w)\<lparr> av_timers := [], av_hook := HookPending \<rparr>)
         in (fst s, snd w @ snd s, True)))"

text \<open>\<open>awaitWithDeactivationTimeout\<close>: the await is over when the hook's turn has settled or its time is up.\<close>

definition hookOver :: "int \<Rightarrow> 'v activation \<Rightarrow> bool" where
  "hookOver now a \<longleftrightarrow> av_hook a = HookSettled
     \<or> (case (ao_deactivationTimeoutMs (av_options a), av_deactivationStartedAtMs a) of
          (Some limit, Some startedAt) \<Rightarrow> startedAt + limit \<le> now | _ \<Rightarrow> False)"

definition finalizeDeactivation :: "'v activation \<Rightarrow> 'v activation" where
  "finalizeDeactivation a = releaseFinalizationWaiters (clearStuckDeactivationTimer (a\<lparr> av_state := Invalid \<rparr>))"

definition dehydrate :: "'v activation \<Rightarrow> 'v activation \<times> activation_event list" where
  "dehydrate a = scheduleTurn DehydrateTurn exclusiveTurn a"

definition runStreamTurn :: "'v activation \<Rightarrow> ('v activation \<times> activation_event list) option" where
  "runStreamTurn a = (if av_state a = Invalid \<or> av_state a = Deactivating then None
     else Some (scheduleTurn StreamTurn exclusiveTurn a))"

definition registerTimer :: "nat \<Rightarrow> 'v activation \<Rightarrow> 'v activation" where
  "registerTimer timer a = a\<lparr> av_timers := av_timers a @ [timer] \<rparr>"

text \<open>A registered timer fires; a disposed one does not.\<close>

definition timerTick :: "nat \<Rightarrow> bool \<Rightarrow> bool \<Rightarrow> 'v activation \<Rightarrow> 'v activation \<times> activation_event list" where
  "timerTick timer interleave keepAlive a =
     (if timer \<in> set (av_timers a)
      then scheduleTurn (TimerTurn keepAlive) (exclusiveTurn\<lparr> tu_alwaysInterleave := interleave \<rparr>) a else (a, []))"

definition isStale :: "int \<Rightarrow> int option \<Rightarrow> 'v activation \<Rightarrow> bool" where
  "isStale now ageLimitOverrideMs a =
     (if av_state a \<noteq> Valid then False
      else if sc_busy (av_scheduler a) then False
      else if now < av_keepAliveUntilMs a then False
      else if av_deactivateRequested a then True
      else (case ageLimitOverrideMs of Some l \<Rightarrow> l | None \<Rightarrow> ao_collectionAgeMs (av_options a)) \<le> now - av_lastActiveMs a)"

definition deactivationRequestedAndIdle :: "'v activation \<Rightarrow> bool" where
  "deactivationRequestedAndIdle a \<longleftrightarrow> av_state a = Valid \<and> \<not> sc_busy (av_scheduler a) \<and> av_deactivateRequested a"

section \<open>Runs\<close>

text \<open>What can happen to an activation once \<open>beginActivate\<close> was called. A number is a ticket of the scheduler, the
  position of a continuation, or a timer.\<close>

datatype 'v activation_op =
    DoInvoke int "'v turn" "int option"
  | DoRun int nat
  | DoEnd int nat body_result
  | DoComplete nat
  | DoContinue int nat
  | DoWatchdog nat
  | DoInterleave "(string \<Rightarrow> 'v list \<Rightarrow> bool) option"
  | DoEnter string
  | DoExit string
  | DoAbort nat
  | DoStuckTimer int
  | DoRequestDeactivation "deactivation_reason option"
  | DoDelay int int
  | DoRequestMigration "silo_address option"
  | DoDehydrate
  | DoStream
  | DoRegisterTimer nat
  | DoTimerTick nat bool bool
  | DoRunHook int
  | DoFinalize

definition takeContinuation :: "int \<Rightarrow> nat \<Rightarrow> 'v activation \<Rightarrow> 'v activation \<times> activation_event list" where
  "takeContinuation now i a =
     (if i < length (av_cont a)
      then continueCall now (fst (av_cont a ! i)) (snd (av_cont a ! i))
             (a\<lparr> av_cont := take i (av_cont a) @ drop (Suc i) (av_cont a) \<rparr>)
      else (a, []))"

fun activation_step :: "'v activation \<Rightarrow> 'v activation_op \<Rightarrow> 'v activation \<times> activation_event list" where
  "activation_step a (DoInvoke now turn e) = invoke now turn e a"
| "activation_step a (DoRun now t) = runTurn now t a"
| "activation_step a (DoEnd now t r) = (endTurn now t r a, [])"
| "activation_step a (DoComplete t) = completeTurn t a"
| "activation_step a (DoContinue now i) = takeContinuation now i a"
| "activation_step a (DoWatchdog t) = runScheduler (OpWatchdog t) a"
| "activation_step a (DoInterleave p) = runScheduler (OpSetMayInterleave p) a"
| "activation_step a (DoEnter rid) = runScheduler (OpEnter rid) a"
| "activation_step a (DoExit rid) = runScheduler (OpExit rid) a"
| "activation_step a (DoAbort t) = runScheduler (OpFire t) a"
| "activation_step a (DoStuckTimer now) = stuckDeactivationTimerFires now a"
| "activation_step a (DoRequestDeactivation reason) = (requestDeactivation reason a, [])"
| "activation_step a (DoDelay now byMs) = (delayDeactivation now byMs a, [])"
| "activation_step a (DoRequestMigration target) = (requestMigration target a, [])"
| "activation_step a DoDehydrate = dehydrate a"
| "activation_step a DoStream = (case runStreamTurn a of None \<Rightarrow> (a, []) | Some r \<Rightarrow> r)"
| "activation_step a (DoRegisterTimer timer) = (registerTimer timer a, [])"
| "activation_step a (DoTimerTick timer interleave keepAlive) = timerTick timer interleave keepAlive a"
| "activation_step a (DoRunHook now) = (case runDeactivateHook now a of (b, evs, _) \<Rightarrow> (b, evs))"
| "activation_step a DoFinalize = (finalizeDeactivation a, [])"

text \<open>A run: the steps since \<open>beginActivate\<close>, the activation they lead to and the events so far. A hard limit of zero
  would make the scheduler reject the activation turn itself, and is left out.\<close>

inductive activation_run :: "'v activation_op list \<Rightarrow> 'v activation \<Rightarrow> activation_event list \<Rightarrow> bool" where
  created: "hardLimit \<noteq> Some 0 \<Longrightarrow> beginActivate (newActivation i activationId now reentrant hardLimit opts) = (a, evs) \<Longrightarrow>
    activation_run [] a evs"
| step: "activation_run ops a log \<Longrightarrow> activation_step a op = (b, evs) \<Longrightarrow> activation_run (ops @ [op]) b (log @ evs)"

end
