(* ===== verification/Activation_Calls.thy ===== *)
theory Activation_Calls
  imports Activation_Lifecycle "HOL-Library.Multiset"
begin

text \<open>
  The accounting of calls on one activation. Every call is at any time in exactly one place: in a closure that has
  not ended, in a continuation, held for a reroute, or answered. From this follow the properties of the lifecycle
  that a caller relies on.
\<close>

section \<open>Where the calls are\<close>

lemma distinct_by_count: "(\<And>x. count (mset xs) x \<le> 1) \<Longrightarrow> distinct xs"
proof (induction xs)
  case (Cons y ys)
  have "y \<notin> set ys" using Cons.prems [of y] by (auto simp: not_in_iff count_eq_zero_iff [symmetric])
  moreover have "count (mset ys) x \<le> 1" for x
    by (rule order_trans [OF _ Cons.prems [of x]]) simp
  ultimately show ?case using Cons.IH by simp
qed simp


fun answers :: "activation_event list \<Rightarrow> (nat \<times> (call_error + unit)) list" where
  "answers [] = []"
| "answers (Answered c r # evs) = (c, r) # answers evs"
| "answers (ev # evs) = answers evs"

fun method_runs :: "activation_event list \<Rightarrow> nat list" where
  "method_runs [] = []"
| "method_runs (MethodStarted c # evs) = c # method_runs evs"
| "method_runs (ev # evs) = method_runs evs"

lemma answers_append [simp]: "answers (xs @ ys) = answers xs @ answers ys"
  by (induction xs rule: answers.induct) auto

lemma method_runs_append [simp]: "method_runs (xs @ ys) = method_runs xs @ method_runs ys"
  by (induction xs rule: method_runs.induct) auto

definition silent :: "activation_event list \<Rightarrow> bool" where
  "silent evs \<longleftrightarrow> answers evs = [] \<and> method_runs evs = []"

lemma silent_simps [simp]: "silent []" "silent [OnStuck]" "silent [HookStarted]" "silent [DehydrateRejected e]"
  "silent (xs @ ys) \<longleftrightarrow> silent xs \<and> silent ys" "silent (on_stuck_hook a)"
  by (auto simp: silent_def on_stuck_hook_def)

fun turn_call :: "turn_kind \<times> turn_phase \<Rightarrow> nat multiset" where
  "turn_call (CallTurn c e, p) = (if p = Ended then {#} else {#c#})"
| "turn_call _ = {#}"

definition calls_in :: "(nat, turn_kind \<times> turn_phase) js_map \<Rightarrow> nat multiset" where
  "calls_in m = sum_list (map (\<lambda>x. turn_call (snd x)) m)"

lemma calls_in_fresh: "js_get m t = None \<Longrightarrow> calls_in (js_set t v m) = calls_in m + turn_call v"
  by (simp add: calls_in_def js_set_fresh)

lemma calls_in_set: "js_get m t = Some v \<Longrightarrow> calls_in (js_set t w m) + turn_call v = calls_in m + turn_call w"
  by (induction m) (auto simp: calls_in_def ac_simps split: if_splits)

lemma calls_in_delete:
  assumes "js_wf m" "js_get m t = Some v"
  shows "calls_in m = calls_in (js_delete t m) + turn_call v"
  using assms
proof (induction m)
  case (Cons x m)
  have same: "js_delete t m = m" if "t \<notin> fst ` set m" using that by (simp add: AList.delete_eq filter_id_conv) force
  show ?case
  proof (cases "fst x = t")
    case True
    with Cons.prems have "t \<notin> fst ` set m" "snd x = v" by (auto simp: js_wf_def)
    with True same show ?thesis by (cases x) (auto simp: calls_in_def AList.delete_eq)
  next
    case False
    with Cons show ?thesis by (cases x) (auto simp: calls_in_def js_wf_def AList.delete_eq)
  qed
qed simp

definition calls_ok :: "'v activation \<Rightarrow> activation_event list \<Rightarrow> bool" where
  "calls_ok a log \<longleftrightarrow>
     calls_in (av_turns a) + mset (map fst (av_cont a)) + mset (map fst (av_finalizationWaiters a)) + mset (map fst (answers log))
       = mset [0..<av_nextCall a]
   \<and> (\<forall>t c e p. js_get (av_turns a) t = Some (CallTurn c e, p) \<and> (p = Waiting \<or> p = Starting) \<longrightarrow> c \<notin> set (method_runs log))
   \<and> (\<forall>c k. (c, k) \<in> set (av_cont a) \<and> c \<in> set (method_runs log) \<longrightarrow> from_method k)
   \<and> (\<forall>c f. (c, f) \<in> set (av_finalizationWaiters a) \<longrightarrow> c \<notin> set (method_runs log))
   \<and> (\<forall>c r. (c, r) \<in> set (answers log) \<and> c \<in> set (method_runs log) \<longrightarrow> method_answer r)
   \<and> distinct (method_runs log) \<and> (\<forall>c \<in> set (method_runs log). c < av_nextCall a)"

lemma calls_ok_frame:
  assumes "calls_ok a log" "av_turns b = av_turns a" "av_cont b = av_cont a" "silent evs"
    "av_finalizationWaiters b = av_finalizationWaiters a" "av_nextCall b = av_nextCall a"
  shows "calls_ok b (log @ evs)"
  using assms by (simp add: calls_ok_def silent_def)

lemmas calls_ok_same = calls_ok_frame [where evs = "[]", simplified]

text \<open>A call in hand is kept as one more continuation; the order of continuations does not matter.\<close>

lemma calls_ok_move:
  assumes "calls_ok a log" "av_turns b = av_turns a" "mset (av_cont b) = mset (av_cont a)"
    "av_finalizationWaiters b = av_finalizationWaiters a" "av_nextCall b = av_nextCall a"
  shows "calls_ok b log"
proof -
  have "set (av_cont b) = set (av_cont a)" "mset (map fst (av_cont b)) = mset (map fst (av_cont a))"
    using assms(3) by (metis set_mset_mset) (simp add: assms(3))
  with assms show ?thesis by (simp add: calls_ok_def)
qed

lemma release_calls: "calls_ok a log \<Longrightarrow> calls_ok (releaseFinalizationWaiters a) log"
  by (auto simp: calls_ok_def releaseFinalizationWaiters_def comp_def case_prod_unfold ac_simps)

lemma stuck_calls: "calls_ok a log \<Longrightarrow> calls_ok (fst (handleStuckTurn a)) (log @ snd (handleStuckTurn a))"
  unfolding handleStuckTurn_def clearStuckDeactivationTimer_def fst_conv snd_conv
  by (rule calls_ok_frame [OF release_calls]) (auto intro: calls_ok_same)

lemma abandon_calls: "calls_ok a log \<Longrightarrow> calls_ok (fst (abandonStuckDeactivation a)) (log @ snd (abandonStuckDeactivation a))"
  unfolding abandonStuckDeactivation_def clearStuckDeactivationTimer_def fst_conv snd_conv
  by (rule calls_ok_frame [OF release_calls]) (auto intro: calls_ok_same)

lemma watch_calls:
  assumes "calls_ok a log"
  shows "calls_ok (fst (watchForStuckDeactivation now a)) (log @ snd (watchForStuckDeactivation now a))"
proof -
  have "calls_ok (a\<lparr> av_stuckDeactivationTimer := x \<rparr>) log" for x by (rule calls_ok_same [OF assms]) auto
  with assms abandon_calls [OF assms] show ?thesis
    by (auto simp: watchForStuckDeactivation_def split: option.splits)
qed

lemma not_run: "calls_ok a log \<Longrightarrow> (c, k) \<in> set (av_cont a) \<Longrightarrow> \<not> from_method k \<Longrightarrow> c \<notin> set (method_runs log)"
  unfolding calls_ok_def by blast

text \<open>A call that has not run and is in hand is held or answered with an error of the activation.\<close>

lemma reroute_calls:
  assumes "calls_ok (a\<lparr> av_cont := av_cont a @ [(c, k)] \<rparr>) log" "\<not> from_method k"
  shows "calls_ok (fst (rerouteOrReject now c f a)) (log @ snd (rerouteOrReject now c f a))"
proof -
  have c: "c \<notin> set (method_runs log)" using not_run [OF assms(1) _ assms(2)] by simp
  have answer: "calls_ok a (log @ [Answered c (Inl e)])" if "\<not> method_answer (Inl e)" for e
    using assms(1) c by (auto simp: calls_ok_def ac_simps)
  have "calls_ok (a\<lparr> av_cont := av_cont a @ [(c, Released f)] \<rparr>) log" using assms(1) c by (auto simp: calls_ok_def)
  moreover have "calls_ok (a\<lparr> av_finalizationWaiters := av_finalizationWaiters a @ [(c, f)] \<rparr>) log"
    using assms(1) c by (auto simp: calls_ok_def ac_simps)
  ultimately show ?thesis using answer watch_calls by (auto simp: rerouteOrReject_def awaitFinalized_def)
qed

lemma continue_calls:
  assumes "calls_ok (a\<lparr> av_cont := av_cont a @ [(c, k)] \<rparr>) log"
  shows "calls_ok (fst (continueCall now c k a)) (log @ snd (continueCall now c k a))"
proof -
  have touched: "calls_ok (touch now b) l \<longleftrightarrow> calls_ok b l" for b :: "'a activation" and l
    by (simp add: touch_def calls_ok_def)
  show ?thesis
  proof (cases k)
    case HoldForReroute
    with reroute_calls [of a c k log now True] assms show ?thesis by (auto simp: continueCall_def Let_def touched)
  next
    case (Released f)
    have "c \<notin> set (method_runs log)" using not_run [OF assms, of c k] Released by simp
    with assms Released have "calls_ok a (log @ [Answered c (Inl (RerouteRejection (av_id a)))])" by (auto simp: calls_ok_def ac_simps)
    with Released show ?thesis by (auto simp: continueCall_def touched)
  next
    case (Settled r)
    have "method_answer r" if "c \<in> set (method_runs log)" using not_run [OF assms, of c k] Settled that by auto
    with assms Settled have "calls_ok a (log @ [Answered c r])" by (auto simp: calls_ok_def ac_simps)
    with Settled show ?thesis by (simp add: continueCall_def touched)
  qed
qed

lemma take_calls:
  assumes "calls_ok a log"
  shows "calls_ok (fst (takeContinuation now i a)) (log @ snd (takeContinuation now i a))"
proof (cases "i < length (av_cont a)")
  case True
  let ?rest = "take i (av_cont a) @ drop (Suc i) (av_cont a)" and ?b = "a\<lparr> av_cont := take i (av_cont a) @ drop (Suc i) (av_cont a) \<rparr>"
  have "mset (av_cont a) = mset (take i (av_cont a) @ av_cont a ! i # drop (Suc i) (av_cont a))"
    using id_take_nth_drop [OF True] by simp
  then have "calls_ok (?b\<lparr> av_cont := av_cont ?b @ [(fst (av_cont a ! i), snd (av_cont a ! i))] \<rparr>) log"
    by (intro calls_ok_move [OF assms]) simp_all
  from continue_calls [OF this] True show ?thesis by (simp add: takeContinuation_def)
qed (use assms in \<open>simp add: takeContinuation_def\<close>)

section \<open>Turns\<close>

text \<open>A call whose closure has not ended is nowhere else.\<close>

lemma only_place:
  assumes "calls_ok a log" "js_wf (av_turns a)" "js_get (av_turns a) t = Some (CallTurn c e, p)" "p \<noteq> Ended"
  shows "c \<notin> fst ` set (av_cont a)" "c \<notin> fst ` set (av_finalizationWaiters a)" "c \<notin> fst ` set (answers log)"
    "c < av_nextCall a" "js_get (av_turns a) t' = Some (CallTurn c e', p') \<Longrightarrow> t' \<noteq> t \<Longrightarrow> p' = Ended"
proof -
  let ?rest = "calls_in (js_delete t (av_turns a))"
  have del: "calls_in (av_turns a) = ?rest + {#c#}" using calls_in_delete [OF assms(2,3)] assms(4) by simp
  then have sum: "?rest + {#c#} + mset (map fst (av_cont a)) + mset (map fst (av_finalizationWaiters a)) + mset (map fst (answers log))
      = mset [0..<av_nextCall a]" using assms(1) by (simp add: calls_ok_def)
  have once: "count (mset [0..<av_nextCall a]) c \<le> 1" by (simp add: count_mset_set')
  from arg_cong [OF sum, of "\<lambda>m. count m c"] once
  have zero: "count ?rest c = 0" "count (mset (map fst (av_cont a))) c = 0"
    "count (mset (map fst (av_finalizationWaiters a))) c = 0" "count (mset (map fst (answers log))) c = 0" by auto
  then show "c \<notin> fst ` set (av_cont a)" "c \<notin> fst ` set (av_finalizationWaiters a)" "c \<notin> fst ` set (answers log)"
    by (auto simp: count_eq_zero_iff)
  have "c \<in># mset [0..<av_nextCall a]" unfolding sum [symmetric] by simp
  then show "c < av_nextCall a" by simp
  assume t': "js_get (av_turns a) t' = Some (CallTurn c e', p')" "t' \<noteq> t"
  then have "js_get (js_delete t (av_turns a)) t' = Some (CallTurn c e', p')" by (simp add: js_get_delete)
  from calls_in_delete [OF _ this] assms(2) zero(1) show "p' = Ended" by (auto split: if_splits)
qed

lemma start_calls:
  assumes "calls_ok a log" "js_get (av_turns a) t = Some (k, p)" "p = Waiting \<or> p = Starting"
  shows "calls_ok (a\<lparr> av_turns := js_set t (k, Starting) (av_turns a) \<rparr>) log"
proof -
  have "turn_call (k, Starting) = turn_call (k, p)" using assms(3) by (cases k) auto
  with calls_in_set [OF assms(2), of "(k, Starting)"] have "calls_in (js_set t (k, Starting) (av_turns a)) = calls_in (av_turns a)"
    by simp
  with assms show ?thesis by (auto simp: calls_ok_def js_get_set split: if_splits)
qed

text \<open>A closure is dropped; its call, if it is one, goes on in a continuation.\<close>

lemma drop_calls:
  assumes "calls_ok a log" "js_wf (av_turns a)" "js_get (av_turns a) t = Some (k, p)" "turn_call (k, p) = {#}"
  shows "calls_ok (a\<lparr> av_turns := js_delete t (av_turns a) \<rparr>) log"
  using assms calls_in_delete [OF assms(2,3)] by (auto simp: calls_ok_def js_get_delete split: if_splits)

lemma reject_calls:
  assumes "calls_ok a log" "js_wf (av_turns a)" "js_get (av_turns a) t = Some (CallTurn c e, Waiting)"
  shows "calls_ok (a\<lparr> av_turns := js_delete t (av_turns a), av_cont := av_cont a @ [(c, k)] \<rparr>) log"
proof -
  have "c \<notin> set (method_runs log)" using assms(1,3) by (auto simp: calls_ok_def)
  with assms calls_in_delete [OF assms(2,3)] show ?thesis by (auto simp: calls_ok_def js_get_delete ac_simps split: if_splits)
qed

fun event_ready :: "'v activation \<Rightarrow> turn_event \<Rightarrow> bool" where
  "event_ready a (Started t) = (case js_get (av_turns a) t of None \<Rightarrow> True | Some (k, p) \<Rightarrow> p = Waiting \<or> p = Starting)"
| "event_ready a (RejectedTurn t e) = (case js_get (av_turns a) t of None \<Rightarrow> True | Some (k, p) \<Rightarrow> p = Waiting)"

lemma turnEvent_calls:
  assumes "calls_ok a log" "js_wf (av_turns a)" "event_ready a ev"
  shows "calls_ok (fst (turnEvent a ev)) (log @ snd (turnEvent a ev))"
proof (cases ev)
  case (Started t)
  then show ?thesis
    using assms start_calls [OF assms(1), of t] by (auto simp: turnEvent_started split: option.splits)
next
  case (RejectedTurn t e)
  show ?thesis
  proof (cases "js_get (av_turns a) t")
    case None
    with RejectedTurn assms(1) show ?thesis by (simp add: turnEvent_unknown)
  next
    case (Some kp)
    then obtain k where k: "js_get (av_turns a) t = Some (k, Waiting)" using assms(3) RejectedTurn by (cases kp) auto
    let ?b = "a\<lparr> av_turns := js_delete t (av_turns a) \<rparr>"
    have drop: "calls_ok ?b log" if "turn_call (k, Waiting) = {#}" using drop_calls [OF assms(1,2) k that] .
    then have hook: "calls_ok (?b\<lparr> av_hook := HookSettled \<rparr>) log" if "turn_call (k, Waiting) = {#}"
      using that by (auto intro: calls_ok_same)
    have dehyd: "calls_ok ?b (log @ [DehydrateRejected e])" if "turn_call (k, Waiting) = {#}"
      using drop [OF that] by (auto intro: calls_ok_frame)
    show ?thesis
      using k RejectedTurn drop hook dehyd reject_calls [OF assms(1,2)]
      by (cases k) (simp_all add: turnEvent_rejected Let_def)
  qed
qed

lemma started_mem: "Started t \<in> set evs \<Longrightarrow> t \<in> set (started evs)"
  by (induction evs rule: started.induct) auto

lemma rejected_mem: "RejectedTurn t e \<in> set evs \<Longrightarrow> t \<in> set (rejected evs)"
  by (induction evs rule: rejected.induct) auto

lemma event_ready_keep:
  "event_ready a x \<Longrightarrow> (\<And>t e. x = RejectedTurn t e \<Longrightarrow> ev \<noteq> Started t) \<Longrightarrow> event_ready (fst (turnEvent a ev)) x"
  by (cases ev; cases x) (auto simp: turnEvent_get split: option.splits)

lemma turnEvents_calls:
  assumes "calls_ok a log" "js_wf (av_turns a)" "list_all (event_ready a) evs" "set (started evs) \<inter> set (rejected evs) = {}"
  shows "calls_ok (fst (turnEvents a evs)) (log @ snd (turnEvents a evs))"
  using assms
proof (induction evs arbitrary: a log)
  case (Cons ev evs)
  let ?b = "fst (turnEvent a ev)"
  have "calls_ok ?b (log @ snd (turnEvent a ev))" using Cons.prems by (intro turnEvent_calls) auto
  moreover have "js_wf (av_turns ?b)" using turnEvents_wf [OF Cons.prems(2), of "[ev]"] by simp
  moreover have "event_ready ?b x" if "x \<in> set evs" for x
  proof (rule event_ready_keep)
    show "event_ready a x" using Cons.prems(3) that by (simp add: list_all_iff)
    show "ev \<noteq> Started t" if "x = RejectedTurn t e" for t e
      using that \<open>x \<in> set evs\<close> rejected_mem [of t e evs] Cons.prems(4) by auto
  qed
  then have "list_all (event_ready ?b) evs" by (simp add: list_all_iff)
  moreover have "set (started evs) \<inter> set (rejected evs) = {}" using Cons.prems(4) by (cases ev) auto
  ultimately show ?case using Cons.IH [of ?b "log @ snd (turnEvent a ev)"] by simp
qed simp

lemma runScheduler_calls:
  assumes "calls_ok a log" "sched_ok a"
    and "waiting_turns a = queued_tickets (av_scheduler a) \<union> new_tickets (av_scheduler a) op"
    and "started_turns a = running_tickets (av_scheduler a) - done_tickets op"
  shows "calls_ok (fst (runScheduler op a)) (log @ snd (runScheduler op a))"
proof -
  let ?evs = "snd (sched_step (av_scheduler a) op)"
  let ?b = "a\<lparr> av_scheduler := fst (sched_step (av_scheduler a) op) \<rparr>"
  let ?c = "if sc_stuck (av_scheduler a) = None \<and> sc_stuck (fst (sched_step (av_scheduler a) op)) \<noteq> None
    then handleStuckTurn ?b else (?b, [])"
  have wf: "js_wf (av_turns a)" "sc_core (av_scheduler a)" using assms(2) by (simp_all add: sched_ok_def)
  have m: "set (started ?evs) \<union> set (rejected ?evs) \<subseteq> waiting_turns a" "set (started ?evs) \<inter> set (rejected ?evs) = {}"
    using moves_step [OF wf(2), of op] assms(3,4) by (simp_all add: moves_def)
  have t: "av_turns (fst ?c) = av_turns a" by simp
  have "calls_ok ?b log" by (rule calls_ok_same [OF assms(1)]) auto
  then have "calls_ok (fst ?c) (log @ snd ?c)" using stuck_calls by auto
  moreover have "event_ready (fst ?c) ev" if "ev \<in> set ?evs" for ev
  proof -
    have "\<exists>k. js_get (av_turns a) t = Some (k, Waiting)" if "ev = Started t \<or> ev = RejectedTurn t e" for t e
      using that \<open>ev \<in> set ?evs\<close> m(1) started_mem rejected_mem unfolding waiting_turns_def by blast
    then show ?thesis by (cases ev) (auto simp: t)
  qed
  then have "list_all (event_ready (fst ?c)) ?evs" by (simp add: list_all_iff)
  ultimately have "calls_ok (fst (turnEvents (fst ?c) ?evs)) ((log @ snd ?c) @ snd (turnEvents (fst ?c) ?evs))"
    using wf(1) m(2) t by (intro turnEvents_calls) simp_all
  then show ?thesis by (simp add: runScheduler_def Let_def)
qed

text \<open>A new closure is registered and handed to the scheduler; a call it carries was in hand.\<close>

lemma schedule_calls:
  assumes "turns_ok a" "k \<noteq> ActivateTurn"
    and "calls_ok (a\<lparr> av_turns := js_set (sc_next (av_scheduler a)) (k, Waiting) (av_turns a) \<rparr>) log"
  shows "calls_ok (fst (scheduleTurn k turn a)) (log @ snd (scheduleTurn k turn a))"
  unfolding scheduleTurn_def using registered [OF assms(1,2)] assms(3) by (intro runScheduler_calls) auto

lemma schedule_other_calls:
  assumes "turns_ok a" "calls_ok a log" "k \<noteq> ActivateTurn" "turn_call (k, Waiting) = {#}"
  shows "calls_ok (fst (scheduleTurn k turn a)) (log @ snd (scheduleTurn k turn a))"
proof (rule schedule_calls [OF assms(1,3)])
  have "k \<noteq> CallTurn c e" for c e using assms(4) by auto
  then show "calls_ok (a\<lparr> av_turns := js_set (sc_next (av_scheduler a)) (k, Waiting) (av_turns a) \<rparr>) log"
    using assms(2,4) calls_in_fresh [OF registered(1) [OF assms(1,3)], of "(k, Waiting)"]
    by (auto simp: calls_ok_def js_get_set split: if_splits)
qed

lemma invoke_calls:
  assumes "turns_ok a" "calls_ok a log"
  shows "calls_ok (fst (invoke now turn e a)) (log @ snd (invoke now turn e a))"
proof -
  let ?c = "av_nextCall a" and ?b = "touch now (a\<lparr> av_nextCall := Suc (av_nextCall a) \<rparr>)"
  have new: "?c \<notin> set (method_runs log)" using assms(2) by (auto simp: calls_ok_def)
  have range: "mset [0..<Suc ?c] = add_mset ?c (mset [0..<?c])" by simp
  have b: "turns_ok ?b" using assms(1) by (rule turns_ok_frame) (auto simp: touch_def)
  have sel: "av_turns ?b = av_turns a" "av_cont ?b = av_cont a" "av_finalizationWaiters ?b = av_finalizationWaiters a"
    "av_nextCall ?b = Suc ?c" "av_scheduler ?b = av_scheduler a" by (simp_all add: touch_def)
  have "calls_ok (?b\<lparr> av_cont := av_cont ?b @ [(?c, Released False)] \<rparr>) log"
    using assms(2) new range by (auto simp: calls_ok_def sel)
  from reroute_calls [OF this, of now False]
  have hold: "calls_ok (fst (rerouteOrReject now ?c False ?b)) (log @ snd (rerouteOrReject now ?c False ?b))" by simp
  have "calls_ok (?b\<lparr> av_turns := js_set (sc_next (av_scheduler ?b)) (CallTurn ?c e, Waiting) (av_turns ?b) \<rparr>) log"
    using assms(2) new range calls_in_fresh [OF registered(1) [OF assms(1), of "CallTurn ?c e"], of "(CallTurn ?c e, Waiting)"]
    by (auto simp: calls_ok_def sel js_get_set split: if_splits)
  from schedule_calls [OF b _ this, of turn] hold show ?thesis by (simp add: invoke_def Let_def)
qed

text \<open>A method starts: from now on the call has run, and it is nowhere else.\<close>

lemma runs_calls:
  assumes "calls_ok a log" "js_wf (av_turns a)" "js_get (av_turns a) t = Some (CallTurn c e, Starting)"
  shows "calls_ok (setPhase t (CallTurn c e) Running a) (log @ [MethodStarted c])"
proof -
  note only = only_place [OF assms]
  have "c \<notin> set (method_runs log)" using assms(1,3) by (auto simp: calls_ok_def)
  moreover have "calls_in (js_set t (CallTurn c e, Running) (av_turns a)) = calls_in (av_turns a)"
    using calls_in_set [OF assms(3), of "(CallTurn c e, Running)"] by simp
  moreover have "x \<noteq> c" if "js_get (av_turns a) t' = Some (CallTurn x e', p)" "p = Waiting \<or> p = Starting" "t' \<noteq> t" for x e' p t'
    using only(5) [of t' e' p] that by auto
  ultimately show ?thesis
    using assms(1) only(1-4) by (auto simp: calls_ok_def setPhase_def js_get_set image_iff split: if_splits)
qed

lemma settle_calls:
  assumes "calls_ok a log" "js_get (av_turns a) t = Some (CallTurn c e, p)" "p \<noteq> Ended" "p = Starting \<or> from_method k"
  shows "calls_ok (settleCall c k (setPhase t (CallTurn c e) Ended a)) log"
proof -
  have "c \<in> set (method_runs log) \<Longrightarrow> from_method k" using assms by (auto simp: calls_ok_def)
  moreover have "calls_in (av_turns a) = calls_in (js_set t (CallTurn c e, Ended) (av_turns a)) + {#c#}"
    using calls_in_set [OF assms(2), of "(CallTurn c e, Ended)"] assms(3) by simp
  ultimately show ?thesis
    using assms(1) by (auto simp: calls_ok_def settleCall_def setPhase_def js_get_set ac_simps split: if_splits)
qed

lemma phase_calls:
  assumes "calls_ok a log" "js_get (av_turns a) t = Some (k, p)" "turn_call (k, p) = {#}" "turn_call (k, q) = {#}"
    and "av_turns b = av_turns a" "av_cont b = av_cont a" "av_finalizationWaiters b = av_finalizationWaiters a"
    and "av_nextCall b = av_nextCall a" "silent evs" "\<And>c e. k \<noteq> CallTurn c e"
  shows "calls_ok (setPhase t k q b) (log @ evs)"
proof -
  have "calls_in (js_set t (k, q) (av_turns a)) = calls_in (av_turns a)"
    using calls_in_set [OF assms(2), of "(k, q)"] assms(3,4) by simp
  then show ?thesis
    using assms by (auto simp: calls_ok_def setPhase_def silent_def js_get_set split: if_splits)
qed

lemma runTurn_calls:
  assumes "turns_ok a" "calls_ok a log"
  shows "calls_ok (fst (runTurn now t a)) (log @ snd (runTurn now t a))"
proof (cases "\<exists>k. js_get (av_turns a) t = Some (k, Starting)")
  case True
  then obtain k where k: "js_get (av_turns a) t = Some (k, Starting)" by blast
  have wf: "js_wf (av_turns a)" using assms(1) by (simp add: turns_ok_def sched_ok_def)
  have call: "calls_ok (fst (callTurn now t c e a)) (log @ snd (callTurn now t c e a))" if "k = CallTurn c e" for c e
  proof (cases rule: callTurn_cases [of now t c e a])
    case (refused x)
    with settle_calls [OF assms(2)] k that show ?thesis by simp
  next
    case runs
    with runs_calls [OF assms(2) wf] k that show ?thesis by simp
  qed
  show ?thesis
  proof (cases "\<exists>c e. k = CallTurn c e")
    case True
    with k call show ?thesis by (auto simp: runTurn_def)
  next
    case False
    then have other: "turn_call (k, q) = {#}" "\<And>c e. k \<noteq> CallTurn c e" for q by (cases k; auto)+
    note phase = phase_calls [OF assms(2) k other(1) other(1) _ _ _ _ _ other(2)]
    have "calls_ok (setPhase t k Running a) (log @ [])" "calls_ok (setPhase t k Running a) (log @ [HookStarted])"
      "calls_ok (setPhase t k Ended (a\<lparr> av_dehydrated := True \<rparr>)) (log @ [])"
      by (rule phase; simp)+
    with False k show ?thesis by (cases k) (simp_all add: runTurn_def)
  qed
next
  case False
  then have "runTurn now t a = (a, [])"
    by (auto simp: runTurn_def split: option.splits prod.splits turn_phase.splits)
  with assms(2) show ?thesis by simp
qed

lemma inconsistent_calls [simp]:
  "av_cont (deactivateOnInconsistentState r a) = av_cont a" "av_nextCall (deactivateOnInconsistentState r a) = av_nextCall a"
  "av_finalizationWaiters (deactivateOnInconsistentState r a) = av_finalizationWaiters a"
  by (auto simp: deactivateOnInconsistentState_def requestDeactivation_def split: body_result.splits bool.splits)

lemma endTurn_calls:
  assumes "calls_ok a log"
  shows "calls_ok (endTurn now t r a) log"
proof (cases "js_get (av_turns a) t")
  case (Some kp)
  obtain k p where k: "js_get (av_turns a) t = Some (k, p)" using Some by (cases kp) auto
  have answer: "from_method (Settled (body_answer r))" by (cases r) (simp_all add: body_answer_def)
  have call: "calls_ok (settleCall c (Settled (body_answer r)) (setPhase t k Ended (deactivateOnInconsistentState r a))) log"
    if "k = CallTurn c e" "p = Running" for c e
  proof -
    have "calls_ok (deactivateOnInconsistentState r a) log" by (rule calls_ok_same [OF assms]) (simp_all add: inconsistent_frame)
    from settle_calls [OF this] k answer that show ?thesis by (simp add: inconsistent_frame)
  qed
  have touched: "calls_ok (touch now b) log \<longleftrightarrow> calls_ok b log" for b :: "'a activation" by (simp add: touch_def calls_ok_def)
  have phase: "calls_ok (setPhase t k q b) log" if "turn_call (k, p) = {#}" "turn_call (k, q) = {#}" "av_turns b = av_turns a"
      "av_cont b = av_cont a" "av_finalizationWaiters b = av_finalizationWaiters a" "av_nextCall b = av_nextCall a"
      "\<And>c e. k \<noteq> CallTurn c e" for q and b :: "'a activation"
    using phase_calls [OF assms k that(1-6) _ that(7), of "[]"] by simp
  have "calls_ok (endActivate t r a) log" if "k = ActivateTurn" "p = Running"
    using phase that by (cases r) (auto simp: endActivate_def)
  moreover have "calls_ok (endTurn now t r a) log" if "k = TimerTurn b" "p = Running" for b
    using phase [of Ended "deactivateOnInconsistentState r a"] that k touched
    by (cases b) (simp_all add: endTurn_def Let_def inconsistent_frame)
  ultimately show ?thesis
    using assms k call phase by (cases p; cases k) (simp_all add: endTurn_def inconsistent_frame)
qed (use assms in \<open>simp add: endTurn_def\<close>)

lemma complete_calls:
  assumes "turns_ok a" "calls_ok a log"
  shows "calls_ok (fst (completeTurn t a)) (log @ snd (completeTurn t a))"
proof (cases rule: completeTurn_cases [of t a])
  case (ended k)
  have wf: "js_wf (av_turns a)" using assms(1) by (simp add: turns_ok_def sched_ok_def)
  have "turn_call (k, Ended) = {#}" by (cases k) auto
  from runScheduler_calls [OF drop_calls [OF assms(2) wf ended(1) this] unregistered(1,4,5) [OF assms(1) ended(1)]] ended(2)
  show ?thesis by simp
qed (use assms in simp)

lemma sched_calls:
  assumes "turns_ok a" "calls_ok a log" "new_tickets (av_scheduler a) op = {}" "done_tickets op = {}"
  shows "calls_ok (fst (runScheduler op a)) (log @ snd (runScheduler op a))"
  using assms by (intro runScheduler_calls) (auto simp: turns_ok_def)

lemma hook_calls:
  assumes "turns_ok a" "calls_ok a log"
  shows "calls_ok (fst (runDeactivateHook now a)) (log @ fst (snd (runDeactivateHook now a)))"
proof -
  let ?b = "a\<lparr> av_state := Deactivating, av_deactivationStartedAtMs := Some now \<rparr>"
  let ?w = "if 0 < length (av_finalizationWaiters ?b) then watchForStuckDeactivation now ?b else (?b, [])"
  let ?c = "(fst ?w)\<lparr> av_timers := [], av_hook := HookPending \<rparr>"
  have b: "turns_ok ?b" "calls_ok ?b log"
    using assms by (auto intro: turns_ok_frame calls_ok_same)
  have "turns_ok (fst (watchForStuckDeactivation now ?b))"
    using watch_frame [of now ?b] by (intro turns_ok_frame [OF b(1)]) auto
  then have "turns_ok (fst ?w)" "calls_ok (fst ?w) (log @ snd ?w)" using b watch_calls [OF b(2), of now] by simp_all
  then have "turns_ok ?c" "calls_ok ?c (log @ snd ?w)"
    by (auto intro: turns_ok_frame [of "fst ?w"] calls_ok_same [of "fst ?w"])
  from schedule_other_calls [OF this, of HookTurn exclusiveTurn] assms(2) show ?thesis
    by (simp add: runDeactivateHook_def Let_def)
qed

section \<open>Every step\<close>

lemma activation_step_calls:
  assumes "turns_ok a" "calls_ok a log"
  shows "calls_ok (fst (activation_step a op)) (log @ snd (activation_step a op))"
proof -
  have same: "calls_ok (requestDeactivation reason a) log" "calls_ok (delayDeactivation now byMs a) log"
    "calls_ok (requestMigration target a) log" "calls_ok (registerTimer timer a) log" for reason now byMs target timer
    by (rule calls_ok_same [OF assms(2)];
        simp add: requestDeactivation_def delayDeactivation_def requestMigration_def registerTimer_def)+
  have "calls_ok (clearStuckDeactivationTimer (a\<lparr> av_state := Invalid \<rparr>)) log"
    by (rule calls_ok_same [OF assms(2)]) (simp_all add: clearStuckDeactivationTimer_def)
  then have fin: "calls_ok (finalizeDeactivation a) log" unfolding finalizeDeactivation_def by (rule release_calls)
  have "calls_ok (a\<lparr> av_stuckDeactivationTimer := None \<rparr>) log" by (rule calls_ok_same [OF assms(2)]) simp_all
  then have timer: "calls_ok (fst (stuckDeactivationTimerFires now a)) (log @ snd (stuckDeactivationTimerFires now a))" for now
    using assms(2) abandon_calls by (auto simp: stuckDeactivationTimerFires_def Let_def split: option.splits)
  show ?thesis
    using assms same fin timer
    by (cases op) (simp_all add: invoke_calls runTurn_calls endTurn_calls complete_calls take_calls sched_calls
        schedule_other_calls dehydrate_def runStreamTurn_def timerTick_def hook_calls case_prod_unfold)
qed

lemma created_calls:
  assumes "hardLimit \<noteq> Some 0" "beginActivate (newActivation i activationId now reentrant hardLimit opts) = (a, evs)"
  shows "calls_ok a evs"
proof -
  have limit: "(case hardLimit of None \<Rightarrow> False | Some h \<Rightarrow> h \<le> length (sc_queue s)) = False"
    if "sc_queue s = []" for s :: "'a scheduler" using assms(1) that by (cases hardLimit) auto
  have "calls_ok (fst (beginActivate (newActivation i activationId now reentrant hardLimit opts :: 'a activation)))
      (snd (beginActivate (newActivation i activationId now reentrant hardLimit opts :: 'a activation)))"
    by (auto simp: beginActivate_def scheduleTurn_def runScheduler_def newActivation_def newScheduler_def sched_step_def
        schedule_def limit mayAdmit_def sc_start_def Let_def turnEvent_def exclusiveTurn_def calls_ok_def calls_in_def
        split: if_splits)
  then show ?thesis using assms(2) by simp
qed

lemma activation_run_calls: "activation_run ops a log \<Longrightarrow> calls_ok a log"
proof (induction rule: activation_run.induct)
  case (created hardLimit i activationId now reentrant opts a evs)
  then show ?case by (rule created_calls)
next
  case (step ops a log op b evs)
  then show ?case using activation_step_calls [OF activation_run_ok, of ops a log log op] by simp
qed

section \<open>No method starts on an activation that is going away\<close>

lemma silent_frame:
  "method_runs (snd (turnEvents a evs)) = []" "method_runs (snd (handleStuckTurn a)) = []"
  "method_runs (snd (abandonStuckDeactivation a)) = []" "method_runs (snd (watchForStuckDeactivation now a)) = []"
proof -
  have ev: "method_runs (snd (turnEvent a ev)) = []" for a :: "'a activation" and ev
    by (auto simp: turnEvent_def Let_def split: turn_event.splits option.splits turn_kind.splits)
  show "method_runs (snd (turnEvents a evs)) = []" by (induction evs arbitrary: a) (simp_all add: ev)
  show "method_runs (snd (handleStuckTurn a)) = []" "method_runs (snd (abandonStuckDeactivation a)) = []"
    "method_runs (snd (watchForStuckDeactivation now a)) = []"
    by (auto simp: handleStuckTurn_def abandonStuckDeactivation_def watchForStuckDeactivation_def on_stuck_hook_def
        split: option.splits)
qed

lemma silent_ops:
  "method_runs (snd (runScheduler op a)) = []" "method_runs (snd (scheduleTurn k turn a)) = []"
  "method_runs (snd (rerouteOrReject now c f a)) = []" "method_runs (snd (continueCall now c x a)) = []"
  by (auto simp: runScheduler_def scheduleTurn_def rerouteOrReject_def awaitFinalized_def continueCall_def Let_def silent_frame
      split: continuation.splits)

text \<open>Only the closure of a call starts a method, and only on an activation in service.\<close>

lemma method_start_cases:
  assumes "MethodStarted c \<in> set (snd (activation_step a op))"
  obtains now t e where "op = DoRun now t" "js_get (av_turns a) t = Some (CallTurn c e, Starting)" "\<not> out_of_service a"
proof -
  have runs: "c \<in> set (method_runs evs)" if "MethodStarted c \<in> set evs" for evs
    using that by (induction evs rule: method_runs.induct) auto
  from runs [OF assms] obtain now t where op: "op = DoRun now t"
    by (cases op) (auto simp: invoke_def Let_def takeContinuation_def completeTurn_def stuckDeactivationTimerFires_def
        dehydrate_def runStreamTurn_def timerTick_def runDeactivateHook_def case_prod_unfold silent_ops silent_frame
        split: if_splits option.splits prod.splits turn_phase.splits)
  then obtain k where k: "js_get (av_turns a) t = Some (k, Starting)"
    using assms by (auto simp: runTurn_def split: option.splits prod.splits turn_phase.splits)
  then obtain x e where call: "k = CallTurn x e" using assms op by (cases k) (simp_all add: runTurn_def)
  have "x = c \<and> \<not> out_of_service a"
    using assms op k call by (cases rule: callTurn_cases [of now t x e a]) (simp_all add: runTurn_def)
  with that [OF op, of e] k call show thesis by simp
qed

text \<open>The activation turn has completed before any other closure is started.\<close>

lemma started_after_activation:
  assumes "turns_ok a" "js_get (av_turns a) t = Some (k, p)" "p \<noteq> Waiting" "k \<noteq> ActivateTurn"
  shows "js_get (av_turns a) 0 = None"
proof (rule ccontr)
  assume zero: "js_get (av_turns a) 0 \<noteq> None"
  let ?s = "av_scheduler a"
  have core: "sc_core ?s" and f: "first_ok a" and s: "started_turns a = running_tickets ?s"
    using assms(1) by (simp_all add: turns_ok_def sched_ok_def)
  have seen: "sc_firstTurnSeen ?s" "\<not> sc_firstTurnSettled ?s" "so_barrierFirstTurn (sc_options ?s)"
    using f zero by (simp_all add: first_ok_def)
  then obtain r where r: "r \<in> set (sc_running ?s)" "rt_isFirst r" using core by (auto simp: sc_core_def)
  then have "rt_ticket r = 0" using f by (simp add: first_ok_def)
  moreover have "t \<noteq> 0" using f assms(2,4) by (auto simp: first_ok_def)
  moreover have "t \<in> running_tickets ?s" using assms(2,3) s unfolding started_turns_def by auto
  ultimately obtain r' where "r' \<in> set (sc_running ?s)" "r' \<noteq> r" using r(1) by force
  moreover have "length (sc_running ?s) \<le> 1" using core seen by (simp add: sc_core_def)
  ultimately show False using r(1) by (cases "sc_running ?s") auto
qed

text \<open>C13: When a grain method may start. In every run, and whatever interleaving of calls, timers, deactivation and
  migration led there, a grain method is started only on an activation that is valid and whose state was not
  handed over to another silo, after the activation turn with \<open>onActivate\<close> has completed.\<close>

theorem method_starts_when_valid:
  assumes "activation_run ops a log" "MethodStarted c \<in> set (snd (activation_step a op))"
  shows "av_state a = Valid \<and> \<not> av_dehydrated a \<and> \<not> js_has (av_turns a) 0"
proof -
  from method_start_cases [OF assms(2)] obtain t e
    where t: "js_get (av_turns a) t = Some (CallTurn c e, Starting)" and out: "\<not> out_of_service a" by metis
  note ok = activation_run_ok [OF assms(1)]
  have "js_get (av_turns a) 0 = None" using started_after_activation [OF ok t] by simp
  moreover have "av_state a \<noteq> Creating" "av_state a \<noteq> Activating" using ok calculation by (auto simp: turns_ok_def state_ok_def)
  ultimately show ?thesis using out by (cases "av_state a") (auto simp: out_of_service_def)
qed

text \<open>C7: What a caller may conclude from an answer. In every run each call is in exactly one place: in a closure that
  has not ended, in a continuation, held for a reroute, or answered, so no call is lost or answered twice. A grain
  method is started at most once for a call, and never for a call that is answered with anything else than the result
  or error of the method; in particular a call answered with a rejection that makes the dispatcher send it again
  (\<open>isRerouteRejection\<close>) has not run.\<close>

theorem rerouted_call_never_ran:
  assumes "activation_run ops a log"
  shows "calls_in (av_turns a) + mset (map fst (av_cont a)) + mset (map fst (av_finalizationWaiters a)) + mset (map fst (answers log))
      = mset [0..<av_nextCall a]
    \<and> distinct (map fst (answers log)) \<and> distinct (method_runs log)
    \<and> (\<forall>c e. (c, Inl e) \<in> set (answers log) \<and> isRerouteRejection a e \<longrightarrow> c \<notin> set (method_runs log))"
proof (intro conjI allI impI)
  have ok: "calls_ok a log" using activation_run_calls [OF assms] .
  then show sum: "calls_in (av_turns a) + mset (map fst (av_cont a)) + mset (map fst (av_finalizationWaiters a)) + mset (map fst (answers log))
      = mset [0..<av_nextCall a]" by (simp add: calls_ok_def)
  have "mset (map fst (answers log)) \<subseteq># mset [0..<av_nextCall a]" using sum by (metis mset_subset_eq_add_right)
  then have "count (mset (map fst (answers log))) x \<le> 1" for x
    by (rule order_trans [OF mset_subset_eq_count]) (simp add: count_mset_set')
  then show "distinct (map fst (answers log))" by (rule distinct_by_count)
  show "distinct (method_runs log)" using ok by (simp add: calls_ok_def)
  fix c e assume e: "(c, Inl e) \<in> set (answers log) \<and> isRerouteRejection a e"
  then have "\<not> method_answer (Inl e)"
    by (auto simp: isRerouteRejection_def isStuckRejection_def split: option.splits)
  with ok e show "c \<notin> set (method_runs log)" unfolding calls_ok_def by blast
qed

section \<open>Out of service for good\<close>

text \<open>The activation turn is over.\<close>

definition activated :: "'v activation \<Rightarrow> bool" where
  "activated a \<longleftrightarrow> (case js_get (av_turns a) 0 of None \<Rightarrow> True | Some (k, p) \<Rightarrow> p = Ended)"

definition retired :: "'v activation \<Rightarrow> bool" where
  "retired a \<longleftrightarrow> av_dehydrated a \<or> activated a \<and> (av_state a = Deactivating \<or> av_state a = Invalid)"

definition onward :: "'v activation \<Rightarrow> 'v activation \<Rightarrow> bool" where
  "onward a b \<longleftrightarrow> (av_dehydrated a \<longrightarrow> av_dehydrated b) \<and>
     (activated a \<longrightarrow> activated b \<and> (av_state a = Deactivating \<or> av_state a = Invalid \<longrightarrow> av_state b = Deactivating \<or> av_state b = Invalid))"

lemma onward_trans: "onward a b \<Longrightarrow> onward b c \<Longrightarrow> onward a c"
  by (auto simp: onward_def)

lemma onward_retired: "onward a b \<Longrightarrow> retired a \<Longrightarrow> retired b"
  by (auto simp: onward_def retired_def)

lemma onward_frame:
  "av_turns b = av_turns a \<Longrightarrow> av_dehydrated b = av_dehydrated a \<or> av_dehydrated b \<Longrightarrow>
   av_state b = av_state a \<or> av_state b = Deactivating \<or> av_state b = Invalid \<Longrightarrow> onward a b"
  by (auto simp: onward_def activated_def)

lemma onward_phase:
  assumes "first_ok a" "js_get (av_turns a) t = Some (k, p)" "p \<noteq> Ended"
  shows "onward a (setPhase t k q a)"
proof -
  have "t \<noteq> 0" if "activated a" using that assms by (cases "t = 0") (auto simp: activated_def)
  then show ?thesis by (auto simp: onward_def activated_def setPhase_def js_get_set)
qed

lemma onward_scheduler:
  assumes "sched_ok a"
    and "waiting_turns a = queued_tickets (av_scheduler a) \<union> new_tickets (av_scheduler a) op"
    and "started_turns a = running_tickets (av_scheduler a) - done_tickets op"
  shows "onward a (fst (runScheduler op a))"
proof -
  let ?evs = "snd (sched_step (av_scheduler a) op)"
  have m: "set (started ?evs) \<union> set (rejected ?evs) \<subseteq> waiting_turns a" "set (started ?evs) \<inter> set (rejected ?evs) = {}"
    using moves_step [of "av_scheduler a" op] assms by (simp_all add: moves_def sched_ok_def)
  note get = runScheduler_get [OF m(2) refl]
  have "activated (fst (runScheduler op a))" if "activated a"
    using that m(1) by (auto simp: activated_def get waiting_turns_def split: option.splits)
  then show ?thesis using runScheduler_parts(2,3) [of op a] by (auto simp: onward_def)
qed

lemma onward_schedule:
  assumes "turns_ok a" "k \<noteq> ActivateTurn"
  shows "onward a (fst (scheduleTurn k turn a))"
proof -
  let ?b = "a\<lparr> av_turns := js_set (sc_next (av_scheduler a)) (k, Waiting) (av_turns a) \<rparr>"
  have "sc_next (av_scheduler a) \<noteq> 0" using assms(1) by (simp add: turns_ok_def first_ok_def)
  then have "onward a ?b" by (auto simp: onward_def activated_def js_get_set)
  moreover have "onward ?b (fst (scheduleTurn k turn a))"
    unfolding scheduleTurn_def by (rule onward_scheduler) (use registered [OF assms] in auto)
  ultimately show ?thesis by (rule onward_trans)
qed

lemma onward_sched:
  "turns_ok a \<Longrightarrow> new_tickets (av_scheduler a) op = {} \<Longrightarrow> done_tickets op = {} \<Longrightarrow> onward a (fst (runScheduler op a))"
  by (rule onward_scheduler) (auto simp: turns_ok_def)

lemma onward_complete:
  assumes "turns_ok a"
  shows "onward a (fst (completeTurn t a))"
proof (cases rule: completeTurn_cases [of t a])
  case none
  then show ?thesis by (simp add: onward_def)
next
  case (ended k)
  let ?b = "a\<lparr> av_turns := js_delete t (av_turns a) \<rparr>"
  have "onward a ?b" by (auto simp: onward_def activated_def js_get_delete)
  moreover have "onward ?b (fst (runScheduler (OpComplete t) ?b))"
    by (rule onward_scheduler) (use unregistered [OF assms ended(1)] in auto)
  ultimately show ?thesis unfolding ended(2) by (rule onward_trans)
qed

lemma onward_run:
  assumes "turns_ok a"
  shows "onward a (fst (runTurn now t a))"
proof (cases "\<exists>k. js_get (av_turns a) t = Some (k, Starting)")
  case True
  then obtain k where k: "js_get (av_turns a) t = Some (k, Starting)" by blast
  have f: "first_ok a" using assms by (simp add: turns_ok_def)
  note ph = onward_phase [OF f k]
  have settle: "onward b (settleCall c x b)" for c x and b :: "'a activation"
    by (rule onward_frame) (simp_all add: settleCall_def)
  have call: "onward a (fst (callTurn now t c e a))" if "k = CallTurn c e" for c e
    using ph that onward_trans [OF ph settle] by (cases rule: callTurn_cases [of now t c e a]) auto
  have "onward a (setPhase t k Ended (a\<lparr> av_dehydrated := True \<rparr>))"
    using ph [of Ended] by (auto simp: onward_def setPhase_def activated_def)
  with k call ph show ?thesis by (cases k) (simp_all add: runTurn_def)
next
  case False
  then have "runTurn now t a = (a, [])"
    by (auto simp: runTurn_def split: option.splits prod.splits turn_phase.splits)
  then show ?thesis by (simp add: onward_def)
qed

lemma onward_end:
  assumes "turns_ok a"
  shows "onward a (endTurn now t r a)"
proof (cases "js_get (av_turns a) t")
  case (Some kp)
  obtain k p where k: "js_get (av_turns a) t = Some (k, p)" using Some by (cases kp) auto
  have f: "first_ok a" using assms by (simp add: turns_ok_def)
  show ?thesis
  proof (cases "k = ActivateTurn")
    case True
    then have "t = 0" using f k unfolding first_ok_def by blast
    with k have "endTurn now t r a = a \<or> \<not> activated a \<and> av_dehydrated (endTurn now t r a) = av_dehydrated a"
      using True by (cases p) (auto simp: endTurn_def endActivate_def setPhase_def activated_def split: body_result.splits)
    then show ?thesis by (auto simp: onward_def)
  next
    case False
    have "endTurn now t r a = a \<or> p = Running" using k False by (cases p; cases k) (simp_all add: endTurn_def)
    moreover have "onward a (endTurn now t r a)" if "p = Running"
    proof -
      have "onward a (setPhase t k Ended a)" using onward_phase [OF f k] that by simp
      moreover have "onward (setPhase t k Ended a) (endTurn now t r a)"
        using k that False
        by (intro onward_frame; cases k)
          (auto simp: endTurn_def Let_def setPhase_def settleCall_def touch_def inconsistent_frame)
      ultimately show ?thesis by (rule onward_trans)
    qed
    ultimately show ?thesis by (auto simp: onward_def)
  qed
qed (simp add: endTurn_def onward_def)

lemma onward_hook:
  assumes "turns_ok a"
  shows "onward a (fst (runDeactivateHook now a))"
proof -
  let ?b = "a\<lparr> av_state := Deactivating, av_deactivationStartedAtMs := Some now \<rparr>"
  let ?w = "if 0 < length (av_finalizationWaiters ?b) then watchForStuckDeactivation now ?b else (?b, [])"
  let ?c = "(fst ?w)\<lparr> av_timers := [], av_hook := HookPending \<rparr>"
  have "turns_ok ?b" using assms by (rule turns_ok_frame) auto
  then have c: "turns_ok ?c" by (rule turns_ok_frame) (use watch_frame [of now ?b] in auto)
  have "onward a ?c" using watch_frame [of now ?b] by (intro onward_frame) auto
  from onward_trans [OF this onward_schedule [OF c, of HookTurn exclusiveTurn]] show ?thesis
    by (auto simp: runDeactivateHook_def Let_def onward_def)
qed

lemma onward_step:
  assumes "turns_ok a"
  shows "onward a (fst (activation_step a op))"
proof -
  have quiet: "onward a (requestDeactivation reason a)" "onward a (delayDeactivation now byMs a)"
    "onward a (requestMigration target a)" "onward a (registerTimer timer a)" "onward a (finalizeDeactivation a)"
    "onward a (fst (stuckDeactivationTimerFires now a))" "onward a a" for reason now byMs target timer
    by (rule onward_frame; auto simp: requestDeactivation_def delayDeactivation_def requestMigration_def registerTimer_def
        finalizeDeactivation_def releaseFinalizationWaiters_def clearStuckDeactivationTimer_def
        stuckDeactivationTimerFires_def abandonStuckDeactivation_def Let_def split: option.splits)+
  have cont: "onward a (fst (takeContinuation now i a))" for now i
  proof -
    let ?b = "a\<lparr> av_cont := take i (av_cont a) @ drop (Suc i) (av_cont a) \<rparr>"
    have "onward a (fst (continueCall now c k ?b))" for c k
      using continueCall_frame [of now c k ?b] by (intro onward_frame) auto
    with quiet(7) show ?thesis by (simp add: takeContinuation_def)
  qed
  have inv: "onward a (fst (invoke now turn e a))" for now turn e
  proof -
    let ?b = "touch now (a\<lparr> av_nextCall := Suc (av_nextCall a) \<rparr>)"
    have b: "turns_ok ?b" using assms by (rule turns_ok_frame) (auto simp: touch_def)
    have ab: "onward a ?b" by (rule onward_frame) (simp_all add: touch_def)
    have "onward ?b (fst (rerouteOrReject now c False ?b))" for c
      using reroute_frame [of now c False ?b] by (intro onward_frame) auto
    with onward_schedule [OF b] onward_trans [OF ab] show ?thesis by (simp add: invoke_def Let_def)
  qed
  show ?thesis
    using assms quiet cont inv
    by (cases op) (simp_all add: onward_run onward_end onward_complete onward_sched onward_schedule dehydrate_def
        runStreamTurn_def timerTick_def onward_hook case_prod_unfold)
qed

fun run_from :: "'v activation \<Rightarrow> 'v activation_op list \<Rightarrow> 'v activation \<times> activation_event list" where
  "run_from a [] = (a, [])"
| "run_from a (op # ops) =
     (case activation_step a op of (b, evs) \<Rightarrow> case run_from b ops of (c, evs') \<Rightarrow> (c, evs @ evs'))"

declare run_from.simps(2) [simp del]

lemma run_from_Cons [simp]:
  "run_from a (op # ops) = (fst (run_from (fst (activation_step a op)) ops),
      snd (activation_step a op) @ snd (run_from (fst (activation_step a op)) ops))"
  by (simp add: run_from.simps(2) case_prod_unfold)

lemma retired_step: "retired a \<Longrightarrow> turns_ok a \<Longrightarrow> method_runs (snd (activation_step a op)) = []"
proof (rule ccontr)
  assume a: "retired a" "turns_ok a" "method_runs (snd (activation_step a op)) \<noteq> []"
  have "\<exists>c. MethodStarted c \<in> set evs" if "method_runs evs \<noteq> []" for evs
    using that by (induction evs rule: method_runs.induct) auto
  from this [OF a(3)] obtain c where "MethodStarted c \<in> set (snd (activation_step a op))" by blast
  then have "\<not> out_of_service a" by (rule method_start_cases)
  with a(1) show False by (auto simp: retired_def out_of_service_def)
qed

lemma run_from_ok: "turns_ok a \<Longrightarrow> turns_ok (fst (run_from a ops))"
  by (induction ops arbitrary: a) (simp_all add: activation_step_ok)

text \<open>C14: Out of service for good. Once the state of an activation was handed over for a migration, or once its
  deactivation has begun or finished after its activation turn was over, it stays out of service and starts no
  grain method any more, whatever happens to it: no call can change state that has already been passed on.\<close>

theorem retired_for_good:
  assumes "activation_run ops a log" "retired a"
  shows "retired (fst (run_from a ops')) \<and> method_runs (snd (run_from a ops')) = []"
  using activation_run_ok [OF assms(1)] assms(2)
proof (induction ops' arbitrary: a)
  case (Cons op ops')
  then show ?case
    using Cons.IH [OF activation_step_ok onward_retired [OF onward_step], of a op] retired_step [of a op] by simp
qed simp

lemma activation_run_from: "activation_run ops a log \<Longrightarrow> activation_run (ops @ ops') (fst (run_from a ops')) (log @ snd (run_from a ops'))"
proof (induction ops' arbitrary: ops a log)
  case (Cons op ops')
  have "activation_run (ops @ [op]) (fst (activation_step a op)) (log @ snd (activation_step a op))"
    using Cons.prems by (rule activation_run.step) simp
  from Cons.IH [OF this] show ?case by simp
qed simp

section \<open>Concrete runs\<close>

definition demo_activation_options :: activation_options where
  "demo_activation_options = \<lparr> ao_collectionAgeMs = 1000, ao_deactivationTimeoutMs = None,
     ao_maxRequestProcessingTimeMs = Some 100, ao_hasOnStuck = True \<rparr>"

definition demo_activation :: "unit activation" where
  "demo_activation = fst (beginActivate (newActivation (GrainId ''counter'' (KString ''a'')) ''act-1'' 0 False None
     demo_activation_options))"

lemma demo_activation_run: "activation_run [] demo_activation []"
proof -
  have "beginActivate (newActivation (GrainId ''counter'' (KString ''a'')) ''act-1'' 0 False None demo_activation_options)
      = (demo_activation, [])"
    by (simp add: demo_activation_def prod_eq_iff) code_simp
  then show ?thesis by (rule activation_run.created [rotated]) simp
qed

lemmas demo_run = activation_run_from [OF demo_activation_run, simplified]

text \<open>A call waits for \<open>onActivate\<close> and is then about to run.\<close>

definition demo_ready :: "unit activation" where
  "demo_ready = fst (run_from demo_activation
     [DoInvoke 1 plain_turn None, DoRun 1 0, DoEnd 2 0 BodyOk, DoComplete 0])"

theorem method_starts_when_valid_witness:
  "MethodStarted 0 \<in> set (snd (activation_step demo_ready (DoRun 3 1))) \<and> av_state demo_ready = Valid"
proof -
  have m: "MethodStarted 0 \<in> set (snd (activation_step demo_ready (DoRun 3 1)))" by code_simp
  from method_starts_when_valid [OF demo_run [where ops' = "[DoInvoke 1 plain_turn None, DoRun 1 0, DoEnd 2 0 BodyOk, DoComplete 0]",
        folded demo_ready_def] m] m
  show ?thesis by simp
qed

text \<open>A call is held because the activation deactivates; it is released by the finalization and answered with the
  reroute rejection.\<close>

definition demo_reroute :: "unit activation_op list" where
  "demo_reroute = [DoRun 1 0, DoEnd 2 0 BodyOk, DoComplete 0, DoRunHook 5, DoInvoke 6 plain_turn None, DoRun 7 1,
     DoEnd 8 1 BodyOk, DoFinalize, DoContinue 9 0]"

theorem rerouted_call_never_ran_witness:
  "answers (snd (run_from demo_activation demo_reroute)) = [(0, Inl (RerouteRejection (GrainId ''counter'' (KString ''a''))))]
   \<and> 0 \<notin> set (method_runs (snd (run_from demo_activation demo_reroute)))"
proof -
  have a: "answers (snd (run_from demo_activation demo_reroute)) = [(0, Inl (RerouteRejection (GrainId ''counter'' (KString ''a''))))]"
    and i: "isRerouteRejection (fst (run_from demo_activation demo_reroute)) (RerouteRejection (GrainId ''counter'' (KString ''a'')))"
    by code_simp+
  from rerouted_call_never_ran [OF demo_run [where ops' = demo_reroute]] a i show ?thesis by auto
qed

theorem retired_for_good_witness:
  "method_runs (snd (run_from (fst (run_from demo_activation demo_reroute)) [DoInvoke 10 plain_turn None, DoContinue 11 0])) = []"
proof -
  have "retired (fst (run_from demo_activation demo_reroute))" by code_simp
  from retired_for_good [OF demo_run this] show ?thesis by blast
qed

text \<open>An activation that is deactivated while it is still activating. \<open>runDeactivateHook\<close> sets the state to
  deactivating while \<open>onActivate\<close> is running; when that ends, the activation turn sets the state to valid without
  looking, so a call that arrives while \<open>onDeactivate\<close> runs is queued behind it and its method is started after
  the hook has finished.\<close>

definition revive_ops :: "unit activation_op list" where
  "revive_ops = [DoRun 1 0, DoRunHook 2, DoEnd 3 0 BodyOk, DoComplete 0, DoRun 4 1, DoInvoke 5 plain_turn None,
     DoEnd 6 1 BodyOk, DoComplete 1, DoRun 7 2]"

theorem activating_deactivation_revived:
  "\<exists>a. activation_run revive_ops a [HookStarted, MethodStarted 0] \<and> av_hook a = HookSettled"
proof -
  have log: "snd (run_from demo_activation revive_ops) = [HookStarted, MethodStarted 0]" by code_simp
  have hook: "av_hook (fst (run_from demo_activation revive_ops)) = HookSettled" by code_simp
  from demo_run [of revive_ops] have "activation_run revive_ops (fst (run_from demo_activation revive_ops)) [HookStarted, MethodStarted 0]"
    unfolding log .
  with hook show ?thesis by blast
qed

end
