(* ===== verification/Activation_Contract.thy ===== *)
theory Activation_Contract
  imports Activation_Calls
begin

text \<open>
  What a registry of activations relies on. The locale \<open>mortal_objects\<close> states it for any kind of object: a step
  keeps the name, a good object that is no longer alive stays so, and an object that reports itself stuck is not
  alive. Every object stays fair; it stays good only as long as its steps are allowed. Its lemmas keep a registry that
  holds, under its name, every live object outside a set of objects that took a step that was not allowed. The
  activation of \<open>Activation\<close> is such an object; the step not allowed is to finish a deactivation before the
  activation turn is over.
\<close>

section \<open>The interface\<close>

locale mortal_objects =
  fixes fair :: "'a \<Rightarrow> bool" and good :: "'a \<Rightarrow> bool" and alive :: "'a \<Rightarrow> bool" and name :: "'a \<Rightarrow> 'k" and settled :: "'a \<Rightarrow> bool"
    and stuck :: "'e list \<Rightarrow> bool" and allowed :: "'a \<Rightarrow> 'o \<Rightarrow> bool" and step :: "'a \<Rightarrow> 'o \<Rightarrow> 'a \<times> 'e list"
  assumes good_fair: "good a \<Longrightarrow> fair a"
    and step_fair: "fair a \<Longrightarrow> fair (fst (step a op))"
    and step_good: "good a \<Longrightarrow> allowed a op \<Longrightarrow> good (fst (step a op))"
    and step_name: "fair a \<Longrightarrow> name (fst (step a op)) = name a"
    and step_dead: "good a \<Longrightarrow> \<not> alive a \<Longrightarrow> \<not> alive (fst (step a op))"
    and step_settled: "fair a \<Longrightarrow> settled a \<Longrightarrow> settled (fst (step a op))"
    and step_stuck: "fair a \<Longrightarrow> stuck (snd (step a op)) \<Longrightarrow> \<not> alive (fst (step a op))"
begin

text \<open>Every object is fair; outside \<open>X\<close> every object is good and every live one is where the registry says.\<close>

definition registered_objects :: "nat set \<Rightarrow> ('k \<Rightarrow> nat \<Rightarrow> bool) \<Rightarrow> 'a list \<Rightarrow> bool" where
  "registered_objects X at xs \<longleftrightarrow> (\<forall>i < length xs. fair (xs ! i)
     \<and> (i \<notin> X \<longrightarrow> good (xs ! i) \<and> (alive (xs ! i) \<longrightarrow> at (name (xs ! i)) i)))"

lemma registered_mono: "registered_objects X at xs \<Longrightarrow> X \<subseteq> Y \<Longrightarrow> registered_objects Y at xs"
  unfolding registered_objects_def by blast

lemma registered_step:
  assumes "registered_objects X at xs" "i < length xs" "i \<notin> X \<Longrightarrow> allowed (xs ! i) op"
  shows "registered_objects X at (xs[i := fst (step (xs ! i) op)])"
  unfolding registered_objects_def
proof (intro allI impI)
  fix j assume j: "j < length (xs[i := fst (step (xs ! i) op)])"
  have old: "fair (xs ! j)" "j \<notin> X \<longrightarrow> good (xs ! j) \<and> (alive (xs ! j) \<longrightarrow> at (name (xs ! j)) j)"
    using assms(1) j by (simp_all add: registered_objects_def)
  show "fair (xs[i := fst (step (xs ! i) op)] ! j) \<and> (j \<notin> X \<longrightarrow> good (xs[i := fst (step (xs ! i) op)] ! j)
      \<and> (alive (xs[i := fst (step (xs ! i) op)] ! j) \<longrightarrow> at (name (xs[i := fst (step (xs ! i) op)] ! j)) j))"
  proof (cases "j = i")
    case True
    then show ?thesis using old assms(2,3) step_fair step_good step_dead step_name by auto
  next
    case False
    then show ?thesis using old by simp
  qed
qed

text \<open>An entry of an object that is not alive may go; a new object takes its place.\<close>

lemma registered_drop:
  assumes "registered_objects X at xs" "\<And>k i. at k i \<Longrightarrow> \<not> at' k i \<Longrightarrow> i < length xs \<Longrightarrow> \<not> alive (xs ! i)"
  shows "registered_objects X at' xs"
  using assms unfolding registered_objects_def by blast

lemma registered_new:
  assumes "registered_objects X at xs" "good x" "at' (name x) (length xs)"
    and "\<And>k i. at k i \<Longrightarrow> \<not> at' k i \<Longrightarrow> i < length xs \<Longrightarrow> \<not> alive (xs ! i)"
  shows "registered_objects X at' (xs @ [x])"
  using assms good_fair unfolding registered_objects_def by (fastforce simp: nth_append less_Suc_eq)

end

section \<open>Steps of an activation\<close>

definition keeps :: "'v activation \<Rightarrow> 'v activation \<times> activation_event list \<Rightarrow> bool" where
  "keeps a r \<longleftrightarrow> av_id (fst r) = av_id a \<and> (av_abandonedAsStuck a \<longrightarrow> av_abandonedAsStuck (fst r))
     \<and> (av_state (fst r) = av_state a \<or> av_state (fst r) = Invalid \<and> av_abandonedAsStuck (fst r))
     \<and> (OnStuck \<in> set (snd r) \<longrightarrow> av_abandonedAsStuck (fst r) \<and> av_state (fst r) = Invalid)"

lemma keeps_trans: "keeps a (b, evs) \<Longrightarrow> keeps b (c, evs') \<Longrightarrow> keeps a (c, evs @ evs')"
  by (auto simp: keeps_def)

lemma keeps_frame:
  "av_id b = av_id a \<Longrightarrow> av_abandonedAsStuck b = av_abandonedAsStuck a \<Longrightarrow> av_state b = av_state a \<Longrightarrow> OnStuck \<notin> set evs \<Longrightarrow>
   keeps a (b, evs)"
  by (simp add: keeps_def)

lemma keeps_stuck:
  "keeps a (handleStuckTurn a)" "keeps a (abandonStuckDeactivation a)"
  by (auto simp: keeps_def handleStuckTurn_def abandonStuckDeactivation_def releaseFinalizationWaiters_def
      clearStuckDeactivationTimer_def)

lemma keeps_watch: "keeps a (watchForStuckDeactivation now a)"
  using keeps_stuck(2) [of a] by (auto simp: watchForStuckDeactivation_def keeps_def split: option.splits)

lemma turnEvents_quiet: "OnStuck \<notin> set (snd (turnEvents a evs))"
proof (induction evs arbitrary: a)
  case (Cons ev evs)
  have "OnStuck \<notin> set (snd (turnEvent a ev))"
    by (auto simp: turnEvent_def Let_def split: turn_event.splits option.splits turn_kind.splits)
  with Cons show ?case by simp
qed simp

lemma keeps_scheduler: "keeps a (runScheduler op a)"
proof -
  let ?b = "a\<lparr> av_scheduler := fst (sched_step (av_scheduler a) op) \<rparr>"
  let ?c = "if sc_stuck (av_scheduler a) = None \<and> sc_stuck (fst (sched_step (av_scheduler a) op)) \<noteq> None
    then handleStuckTurn ?b else (?b, [])"
  let ?d = "turnEvents (fst ?c) (snd (sched_step (av_scheduler a) op))"
  have "keeps a ?c" using keeps_stuck(1) [of ?b] by (auto simp: keeps_def)
  then have "keeps a (fst ?c, snd ?c)" by simp
  moreover have "keeps (fst ?c) (fst ?d, snd ?d)" by (rule keeps_frame) (simp_all add: turnEvents_frame turnEvents_quiet)
  ultimately have "keeps a (fst ?d, snd ?c @ snd ?d)" by (rule keeps_trans)
  then show ?thesis by (simp add: runScheduler_def Let_def)
qed

lemma keeps_schedule: "keeps a (scheduleTurn k turn a)"
  using keeps_scheduler [of "a\<lparr> av_turns := js_set (sc_next (av_scheduler a)) (k, Waiting) (av_turns a) \<rparr>"]
  by (simp add: scheduleTurn_def keeps_def)

lemma keeps_reroute: "keeps a (rerouteOrReject now c f a)"
  using keeps_watch [of "a\<lparr> av_finalizationWaiters := av_finalizationWaiters a @ [(c, f)] \<rparr>" now]
  by (auto simp: rerouteOrReject_def awaitFinalized_def keeps_def)

lemma keeps_continue: "keeps a (takeContinuation now i a)"
proof -
  let ?b = "a\<lparr> av_cont := take i (av_cont a) @ drop (Suc i) (av_cont a) \<rparr>"
  have "keeps ?b (continueCall now c k ?b)" for c k
    using keeps_reroute [of ?b now c True] by (cases k) (auto simp: continueCall_def keeps_def touch_def Let_def)
  then show ?thesis by (simp add: takeContinuation_def keeps_def)
qed

lemma keeps_invoke: "keeps a (invoke now turn e a)"
proof -
  let ?b = "touch now (a\<lparr> av_nextCall := Suc (av_nextCall a) \<rparr>)"
  show ?thesis
    using keeps_reroute [of ?b now "av_nextCall a" False] keeps_schedule [of ?b "CallTurn (av_nextCall a) e" turn]
    by (auto simp: invoke_def Let_def keeps_def touch_def)
qed

lemma keeps_run: "keeps a (runTurn now t a)"
proof -
  have "keeps a (callTurn now t c e a)" for c e
    by (cases rule: callTurn_cases [of now t c e a]) (auto simp: keeps_def settleCall_def setPhase_def)
  then show ?thesis
    by (auto simp: runTurn_def keeps_def setPhase_def split: option.splits prod.splits turn_phase.splits turn_kind.splits)
qed

lemma keeps_complete: "keeps a (completeTurn t a)"
  using keeps_scheduler [of "a\<lparr> av_turns := js_delete t (av_turns a) \<rparr>" "OpComplete t"]
  by (cases rule: completeTurn_cases [of t a]) (auto simp: keeps_def)

lemma keeps_timer: "keeps a (stuckDeactivationTimerFires now a)"
  using keeps_stuck(2) [of "a\<lparr> av_stuckDeactivationTimer := None \<rparr>"]
  by (auto simp: stuckDeactivationTimerFires_def keeps_def Let_def split: option.splits)

text \<open>The steps that change the state otherwise: the end of the activation turn, the start of a deactivation and its
  end.\<close>

lemma end_contract:
  assumes "turns_ok a"
  shows "av_id (endTurn now t r a) = av_id a \<and> av_abandonedAsStuck (endTurn now t r a) = av_abandonedAsStuck a
    \<and> (av_state (endTurn now t r a) = av_state a \<or> \<not> activated a \<and>
         (activated (endTurn now t r a) \<or> av_state (endTurn now t r a) = Deactivating))"
proof (cases "js_get (av_turns a) t")
  case (Some kp)
  obtain k p where k: "js_get (av_turns a) t = Some (k, p)" using Some by (cases kp) auto
  have inc: "av_id (deactivateOnInconsistentState r a) = av_id a"
    "av_abandonedAsStuck (deactivateOnInconsistentState r a) = av_abandonedAsStuck a"
    by (auto simp: deactivateOnInconsistentState_def requestDeactivation_def split: body_result.splits bool.splits)
  show ?thesis
  proof (cases "k = ActivateTurn")
    case True
    then have t: "t = 0" using assms k unfolding turns_ok_def first_ok_def by blast
    show ?thesis
      using k True t by (cases p) (auto simp: endTurn_def endActivate_def setPhase_def activated_def js_get_set split: body_result.splits)
  next
    case False
    then show ?thesis
      using k by (cases p; cases k) (simp_all add: endTurn_def Let_def setPhase_def settleCall_def touch_def inc inconsistent_frame)
  qed
qed (simp add: endTurn_def)

lemma hook_contract:
  "av_id (fst (runDeactivateHook now a)) = av_id a"
  "av_abandonedAsStuck a \<Longrightarrow> av_abandonedAsStuck (fst (runDeactivateHook now a))"
  "av_state a = Invalid \<Longrightarrow> runDeactivateHook now a = (a, [], False)"
  "av_state (fst (runDeactivateHook now a)) = Invalid \<Longrightarrow> av_state a = Invalid \<or> av_abandonedAsStuck (fst (runDeactivateHook now a))"
  "OnStuck \<in> set (fst (snd (runDeactivateHook now a))) \<Longrightarrow> av_abandonedAsStuck (fst (runDeactivateHook now a))"
  "av_state (fst (runDeactivateHook now a)) \<noteq> Valid"
proof -
  let ?b = "a\<lparr> av_state := Deactivating, av_deactivationStartedAtMs := Some now \<rparr>"
  let ?w = "if 0 < length (av_finalizationWaiters ?b) then watchForStuckDeactivation now ?b else (?b, [])"
  let ?c = "(fst ?w)\<lparr> av_timers := [], av_hook := HookPending \<rparr>"
  let ?s = "scheduleTurn HookTurn exclusiveTurn ?c"
  have "keeps ?b ?w" using keeps_watch [of ?b now] by (auto simp: keeps_def)
  then have "keeps ?b (?c, snd ?w)" by (auto simp: keeps_def)
  moreover have "keeps ?c (fst ?s, snd ?s)" using keeps_schedule [of ?c HookTurn exclusiveTurn] by simp
  ultimately have k: "keeps ?b (fst ?s, snd ?w @ snd ?s)" by (rule keeps_trans)
  have hook: "runDeactivateHook now a = (if av_state a = Invalid \<or> av_state a = Deactivating then (a, [], False)
      else (fst ?s, snd ?w @ snd ?s, True))" by (simp only: runDeactivateHook_def Let_def)
  show "av_id (fst (runDeactivateHook now a)) = av_id a"
    "av_abandonedAsStuck a \<Longrightarrow> av_abandonedAsStuck (fst (runDeactivateHook now a))"
    "av_state a = Invalid \<Longrightarrow> runDeactivateHook now a = (a, [], False)"
    "av_state (fst (runDeactivateHook now a)) = Invalid \<Longrightarrow> av_state a = Invalid \<or> av_abandonedAsStuck (fst (runDeactivateHook now a))"
    "OnStuck \<in> set (fst (snd (runDeactivateHook now a))) \<Longrightarrow> av_abandonedAsStuck (fst (runDeactivateHook now a))"
    "av_state (fst (runDeactivateHook now a)) \<noteq> Valid"
    using k unfolding hook by (auto simp: keeps_def split: if_splits)
qed

lemma keeps_step:
  assumes "\<And>now t r. op \<noteq> DoEnd now t r" "\<And>now. op \<noteq> DoRunHook now" "op \<noteq> DoFinalize"
  shows "keeps a (activation_step a op)"
proof -
  have quiet: "keeps a (requestDeactivation reason a, [])" "keeps a (delayDeactivation now byMs a, [])"
    "keeps a (requestMigration target a, [])" "keeps a (registerTimer timer a, [])" "keeps a (a, [])" for reason now byMs target timer
    by (simp_all add: keeps_def requestDeactivation_def delayDeactivation_def requestMigration_def registerTimer_def)
  show ?thesis
  proof (cases op)
    case (DoEnd now t r)
    with assms(1) show ?thesis by blast
  next
    case (DoRunHook now)
    with assms(2) show ?thesis by blast
  qed (use assms(3) quiet in \<open>simp_all add: keeps_invoke keeps_run keeps_complete keeps_continue keeps_scheduler
      keeps_timer keeps_schedule dehydrate_def runStreamTurn_def timerTick_def\<close>)
qed

section \<open>The contract\<close>

definition good_activation :: "'v activation \<Rightarrow> bool" where
  "good_activation a \<longleftrightarrow> turns_ok a \<and> (av_state a = Invalid \<and> \<not> activated a \<longrightarrow> av_abandonedAsStuck a)
     \<and> (av_state a = Valid \<longrightarrow> activated a)"

definition alive :: "'v activation \<Rightarrow> bool" where
  "alive a \<longleftrightarrow> av_state a \<noteq> Invalid \<and> \<not> av_abandonedAsStuck a"

definition key_of :: "'v activation \<Rightarrow> string" where
  "key_of a = grain_id_toString (av_id a)"

definition finish_allowed :: "'v activation \<Rightarrow> 'v activation_op \<Rightarrow> bool" where
  "finish_allowed a op \<longleftrightarrow> (op = DoFinalize \<longrightarrow> activated a)"

lemma finalize_sel [simp]:
  "av_state (finalizeDeactivation a) = Invalid" "av_id (finalizeDeactivation a) = av_id a"
  "av_abandonedAsStuck (finalizeDeactivation a) = av_abandonedAsStuck a" "av_turns (finalizeDeactivation a) = av_turns a"
  by (simp_all add: finalizeDeactivation_def releaseFinalizationWaiters_def clearStuckDeactivationTimer_def)

lemma step_facts:
  fixes op :: "'v activation_op"
  assumes "turns_ok a"
  defines "b \<equiv> fst (activation_step a op)"
  shows "av_id b = av_id a" "av_abandonedAsStuck a \<Longrightarrow> av_abandonedAsStuck b"
    "activated a \<Longrightarrow> av_state a = Invalid \<Longrightarrow> av_state b = Invalid"
    "av_state b = Invalid \<Longrightarrow> av_state a = Invalid \<or> av_abandonedAsStuck b \<or> activated b \<or> op = DoFinalize"
    "OnStuck \<in> set (snd (activation_step a op)) \<Longrightarrow> av_abandonedAsStuck b"
    "av_state b = Valid \<Longrightarrow> av_state a = Valid \<or> activated b"
proof -
  have "av_id b = av_id a \<and> (av_abandonedAsStuck a \<longrightarrow> av_abandonedAsStuck b)
    \<and> (activated a \<and> av_state a = Invalid \<longrightarrow> av_state b = Invalid)
    \<and> (av_state b = Invalid \<longrightarrow> av_state a = Invalid \<or> av_abandonedAsStuck b \<or> activated b \<or> op = DoFinalize)
    \<and> (OnStuck \<in> set (snd (activation_step a op)) \<longrightarrow> av_abandonedAsStuck b)
    \<and> (av_state b = Valid \<longrightarrow> av_state a = Valid \<or> activated b)"
  proof (cases "(\<exists>now t r. op = DoEnd now t r) \<or> (\<exists>now. op = DoRunHook now) \<or> op = DoFinalize")
    case False
    then have "keeps a (activation_step a op)" by (intro keeps_step) auto
    then show ?thesis by (auto simp: keeps_def b_def)
  next
    case True
    then consider (ends) now t r where "op = DoEnd now t r" | (hook) now where "op = DoRunHook now" | (fin) "op = DoFinalize" by blast
    then show ?thesis
    proof cases
      case ends
      then show ?thesis using end_contract [OF assms(1), of now t r] by (auto simp: b_def)
    next
      case hook
      then show ?thesis using hook_contract [where now = now and a = a] by (auto simp: b_def case_prod_unfold)
    next
      case fin
      then show ?thesis by (simp add: b_def)
    qed
  qed
  then show "av_id b = av_id a" "av_abandonedAsStuck a \<Longrightarrow> av_abandonedAsStuck b"
    "activated a \<Longrightarrow> av_state a = Invalid \<Longrightarrow> av_state b = Invalid"
    "av_state b = Invalid \<Longrightarrow> av_state a = Invalid \<or> av_abandonedAsStuck b \<or> activated b \<or> op = DoFinalize"
    "OnStuck \<in> set (snd (activation_step a op)) \<Longrightarrow> av_abandonedAsStuck b"
    "av_state b = Valid \<Longrightarrow> av_state a = Valid \<or> activated b" by blast+
qed

lemma step_activated: "turns_ok a \<Longrightarrow> activated a \<Longrightarrow> activated (fst (activation_step a op))"
  using onward_step [of a op] by (simp add: onward_def)

interpretation activations: mortal_objects turns_ok good_activation alive key_of activated "\<lambda>evs. OnStuck \<in> set evs" finish_allowed
  activation_step
proof
  fix a :: "'a activation" and op
  show "turns_ok a" if "good_activation a" using that by (simp add: good_activation_def)
  show "turns_ok (fst (activation_step a op))" if "turns_ok a" using activation_step_ok [OF that, of op] by simp
  show "key_of (fst (activation_step a op)) = key_of a" if "turns_ok a"
    using step_facts(1) [OF that, of op] by (simp add: key_of_def)
  show "\<not> alive (fst (activation_step a op))" if "turns_ok a" "OnStuck \<in> set (snd (activation_step a op))"
    using step_facts(5) [OF that] by (simp add: alive_def)
  show "activated (fst (activation_step a op))" if "turns_ok a" "activated a" using step_activated [OF that] .
  assume a: "good_activation a"
  then have ok: "turns_ok a" by (simp add: good_activation_def)
  note f = step_facts [OF ok, of op]
  show "\<not> alive (fst (activation_step a op))" if "\<not> alive a"
    using that a f(2,3) by (auto simp: alive_def good_activation_def)
  show "good_activation (fst (activation_step a op))" if "finish_allowed a op"
    using that a f(2,4,6) step_activated [OF ok] activation_step_ok [OF ok, of op]
    by (auto simp: good_activation_def finish_allowed_def)
qed

end
