(* ===== verification/Catalog.thy ===== *)
theory Catalog
  imports Activation_Contract
begin

text \<open>
  \<^verbatim>\<open>runtime/src/catalog.ts\<close>: the activations of one silo. An activation object is its index in \<open>ct_objects\<close>; the
  two maps of the class refer to these indices, and the arrays of stateless workers, which the code mutates and
  replaces, are themselves objects. An asynchronous method is a process: it runs to its next await, leaves the rest
  as an entry of \<open>ct_procs\<close>, and is taken up again by \<open>resume\<close> once what it waits for is there. The iterator of a
  JavaScript map visits what is added behind it and skips what is deleted; it is kept as the keys it has passed, from
  which a deletion removes its key. What happens inside the activations in between is a step of \<open>Activation\<close>.

  Left out: the construction of the grain instance and its runtime facade, extensions, and logging. The application
  hooks \<open>disposeInstance\<close>, \<open>deactivateState\<close>, \<open>onDeactivated\<close> and \<open>migrate\<close> are events; the ones that are awaited
  end by a step that says whether they failed.
\<close>

section \<open>Data\<close>

record registered_grain =
  rg_reentrant :: bool
  rg_stateless :: bool
  rg_maxLocalWorkers :: "nat option"
  rg_collectionAgeSeconds :: "int option"

record catalog_options =
  co_grainTypes :: "(string, registered_grain) js_map"
  co_defaultCollectionAgeSeconds :: int
  co_classSpecificCollectionAgeSeconds :: "(string, int) js_map"
  co_hasDisposeInstance :: bool
  co_hasMigrate :: bool
  co_cpus :: nat
  co_hardLimit :: "nat option"
  co_deactivationTimeoutMs :: "int option"
  co_maxRequestProcessingTimeMs :: "int option"

datatype catalog_error =
    SiloStopping grain_id
  | NoGrainType string
  | NotStatelessWorker string
  | SetupLeaked grain_id
  | UndefinedWorker
  | DisposeFailed
  | MigrateFailed

text \<open>What \<open>getOrActivate\<close> and \<open>resolveLive\<close> do after \<open>finalizeStale\<close>.\<close>

datatype after_finalize = ThenCreate grain_id string | ThenNothing

text \<open>Where a sweep is: at an entry of \<open>activations\<close>, or at a position of an array of workers.\<close>

datatype sweep_place = AtEntry string | AtItem string nat nat

datatype sweep_stage =
    NextEntry
  | CollectHook sweep_place nat bool bool
  | CollectMigrate sweep_place nat
  | CollectDone sweep_place nat
  | DisposeEntry nat
  | NextWorkers
  | DisposeWorkers "nat list"
  | DisposeWorker nat "nat list"

datatype process =
    FinalizeHook string nat bool after_finalize
  | FinalizeDispose string nat after_finalize
  | Sweep "int option" "string list" "string list" sweep_stage
  | DeactivateOne nat bool
  | StopWait "nat list" "nat list" "int option"
  | StopDispose "nat list"
  | StopDisposing nat "nat list"

record 'v catalog =
  ct_options :: catalog_options
  ct_stopping :: bool
  ct_setupDepth :: nat
  ct_objects :: "'v activation list"
  ct_activations :: "(string, nat) js_map"
  ct_workerActivations :: "(string, nat) js_map"
  ct_arrays :: "nat list list"
  ct_procs :: "(nat, process) js_map"
  ct_nextProc :: nat

datatype catalog_event =
    Act nat activation_event
  | DisposeInstance nat
  | DeactivateState nat
  | OnDeactivated nat
  | MigrateCalled nat
  | Resolved nat "catalog_error + nat option"

definition newCatalog :: "catalog_options \<Rightarrow> 'v catalog" where
  "newCatalog opts = \<lparr> ct_options = opts, ct_stopping = False, ct_setupDepth = 0, ct_objects = [], ct_activations = [],
     ct_workerActivations = [], ct_arrays = [], ct_procs = [], ct_nextProc = 0 \<rparr>"

abbreviation obj :: "'v catalog \<Rightarrow> nat \<Rightarrow> 'v activation" where
  "obj c i \<equiv> ct_objects c ! i"

definition worker_list :: "'v catalog \<Rightarrow> string \<Rightarrow> nat list" where
  "worker_list c key = (case js_get (ct_workerActivations c) key of None \<Rightarrow> [] | Some arr \<Rightarrow> ct_arrays c ! arr)"

section \<open>The maps and their iterators\<close>

fun forget_entry :: "(string \<Rightarrow> bool) \<Rightarrow> process \<Rightarrow> process" where
  "forget_entry P (Sweep age passed passedWorkers s) = Sweep age (filter (\<lambda>k. \<not> P k) passed) passedWorkers s"
| "forget_entry P p = p"

fun forget_workers :: "(string \<Rightarrow> bool) \<Rightarrow> process \<Rightarrow> process" where
  "forget_workers P (Sweep age passed passedWorkers s) = Sweep age passed (filter (\<lambda>k. \<not> P k) passedWorkers) s"
| "forget_workers P p = p"

definition activations_delete :: "string \<Rightarrow> 'v catalog \<Rightarrow> 'v catalog" where
  "activations_delete key c = c\<lparr> ct_activations := js_delete key (ct_activations c),
     ct_procs := map (map_prod id (forget_entry (\<lambda>k. k = key))) (ct_procs c) \<rparr>"

definition workers_delete :: "string \<Rightarrow> 'v catalog \<Rightarrow> 'v catalog" where
  "workers_delete key c = c\<lparr> ct_workerActivations := js_delete key (ct_workerActivations c),
     ct_procs := map (map_prod id (forget_workers (\<lambda>k. k = key))) (ct_procs c) \<rparr>"

definition workers_set :: "string \<Rightarrow> nat list \<Rightarrow> 'v catalog \<Rightarrow> 'v catalog" where
  "workers_set key xs c = c\<lparr> ct_workerActivations := js_set key (length (ct_arrays c)) (ct_workerActivations c),
     ct_arrays := ct_arrays c @ [xs] \<rparr>"

definition store_remaining :: "string \<Rightarrow> nat list \<Rightarrow> 'v catalog \<Rightarrow> 'v catalog" where
  "store_remaining key remaining c = (if remaining = [] then workers_delete key c else workers_set key remaining c)"

definition maps_clear :: "'v catalog \<Rightarrow> 'v catalog" where
  "maps_clear c = c\<lparr> ct_activations := [], ct_workerActivations := [],
     ct_procs := map (map_prod id (forget_entry (\<lambda>k. True) \<circ> forget_workers (\<lambda>k. True))) (ct_procs c) \<rparr>"

section \<open>Steps of an activation\<close>

definition handleStuckActivation :: "nat \<Rightarrow> 'v catalog \<Rightarrow> 'v catalog \<times> catalog_event list" where
  "handleStuckActivation i c =
     (let key = key_of (obj c i) in
      (if js_get (ct_activations c) key = Some i then activations_delete key c
       else (case js_get (ct_workerActivations c) key of
               None \<Rightarrow> c
             | Some arr \<Rightarrow> store_remaining key (filter (\<lambda>j. j \<noteq> i) (ct_arrays c ! arr)) c),
       [OnDeactivated i]))"

text \<open>An operation on one activation object; the \<open>onStuck\<close> hook runs in the midst of it and touches only the maps.\<close>

definition act :: "nat \<Rightarrow> ('v activation \<times> activation_event list) \<Rightarrow> 'v catalog \<Rightarrow> 'v catalog \<times> catalog_event list" where
  "act i r c =
     (let c1 = c\<lparr> ct_objects := (ct_objects c)[i := fst r] \<rparr>;
          stuck = (if OnStuck \<in> set (snd r) then handleStuckActivation i c1 else (c1, []))
      in (fst stuck, map (Act i) (snd r) @ snd stuck))"

definition startHook :: "int \<Rightarrow> nat \<Rightarrow> 'v catalog \<Rightarrow> 'v catalog \<times> catalog_event list \<times> bool" where
  "startHook now i c =
     (case runDeactivateHook now (obj c i) of
        (a, evs, waits) \<Rightarrow> case act i (a, evs) c of (c', out) \<Rightarrow> (c', out, waits))"

definition finalizeObject :: "nat \<Rightarrow> 'v catalog \<Rightarrow> 'v catalog" where
  "finalizeObject i c = c\<lparr> ct_objects := (ct_objects c)[i := finalizeDeactivation (obj c i)] \<rparr>"

section \<open>Creating activations\<close>

definition collectionAge :: "catalog_options \<Rightarrow> string \<Rightarrow> registered_grain \<Rightarrow> int" where
  "collectionAge opts type reg = (case rg_collectionAgeSeconds reg of
      Some s \<Rightarrow> s
    | None \<Rightarrow> (case js_get (co_classSpecificCollectionAgeSeconds opts) type of
        Some s \<Rightarrow> s | None \<Rightarrow> co_defaultCollectionAgeSeconds opts))"

definition create :: "int \<Rightarrow> grain_id \<Rightarrow> string \<Rightarrow> 'v catalog \<Rightarrow> catalog_error + 'v catalog \<times> nat" where
  "create now i activationId c =
     (if ct_setupDepth c \<noteq> 0 then Inl (SetupLeaked i)
      else (case js_get (co_grainTypes (ct_options c)) (gtype i) of
              None \<Rightarrow> Inl (NoGrainType (gtype i))
            | Some reg \<Rightarrow>
                (let opts = ct_options c;
                     a = newActivation i activationId now (rg_reentrant reg) (co_hardLimit opts)
                       \<lparr> ao_collectionAgeMs = collectionAge opts (gtype i) reg * 1000,
                         ao_deactivationTimeoutMs = co_deactivationTimeoutMs opts,
                         ao_maxRequestProcessingTimeMs = co_maxRequestProcessingTimeMs opts, ao_hasOnStuck = True \<rparr>
                 in Inr (c\<lparr> ct_objects := ct_objects c @ [fst (beginActivate a)] \<rparr>, length (ct_objects c)))))"

definition createAndStore :: "int \<Rightarrow> string \<Rightarrow> grain_id \<Rightarrow> string \<Rightarrow> 'v catalog \<Rightarrow> 'v catalog \<times> (catalog_error + nat option)" where
  "createAndStore now key i activationId c =
     (if ct_stopping c then (c, Inl (SiloStopping i))
      else (case create now i activationId c of
              Inl e \<Rightarrow> (c, Inl e)
            | Inr (c', n) \<Rightarrow> (c'\<lparr> ct_activations := js_set key n (ct_activations c') \<rparr>, Inr (Some n))))"

definition spawn :: "process \<Rightarrow> 'v catalog \<Rightarrow> 'v catalog" where
  "spawn p c = c\<lparr> ct_procs := js_set (ct_nextProc c) p (ct_procs c), ct_nextProc := Suc (ct_nextProc c) \<rparr>"

definition answer :: "catalog_error + nat option \<Rightarrow> 'v catalog \<Rightarrow> 'v catalog \<times> catalog_event list" where
  "answer r c = (c\<lparr> ct_nextProc := Suc (ct_nextProc c) \<rparr>, [Resolved (ct_nextProc c) r])"

text \<open>\<open>finalizeStale\<close> up to its first await.\<close>

definition finalizeStale :: "int \<Rightarrow> string \<Rightarrow> nat \<Rightarrow> after_finalize \<Rightarrow> 'v catalog \<Rightarrow> 'v catalog \<times> catalog_event list" where
  "finalizeStale now key existing cont c =
     (case startHook now existing c of (c', out, waits) \<Rightarrow> (spawn (FinalizeHook key existing waits cont) c', out))"

definition getOrActivate :: "int \<Rightarrow> grain_id \<Rightarrow> string \<Rightarrow> 'v catalog \<Rightarrow> 'v catalog \<times> catalog_event list" where
  "getOrActivate now i activationId c =
     (let key = grain_id_toString i; fresh = (case createAndStore now key i activationId c of (c', r) \<Rightarrow> answer r c') in
      case js_get (ct_activations c) key of
        None \<Rightarrow> fresh
      | Some existing \<Rightarrow>
          if av_state (obj c existing) = Invalid then fresh
          else if \<not> deactivationRequestedAndIdle (obj c existing) then answer (Inr (Some existing)) c
          else finalizeStale now key existing (ThenCreate i activationId) c)"

definition resolveLive :: "int \<Rightarrow> grain_id \<Rightarrow> 'v catalog \<Rightarrow> 'v catalog \<times> catalog_event list" where
  "resolveLive now i c =
     (let key = grain_id_toString i in
      case js_get (ct_activations c) key of
        None \<Rightarrow> answer (Inr None) c
      | Some existing \<Rightarrow>
          if av_state (obj c existing) = Invalid then answer (Inr None) c
          else if \<not> deactivationRequestedAndIdle (obj c existing) then answer (Inr (Some existing)) c
          else finalizeStale now key existing ThenNothing c)"

section \<open>Queries\<close>

definition ct_get :: "grain_id \<Rightarrow> 'v catalog \<Rightarrow> nat option" where
  "ct_get i c = (let key = grain_id_toString i in
     case js_get (ct_activations c) key of
       Some single \<Rightarrow> Some single
     | None \<Rightarrow> find (\<lambda>a. av_state (obj c a) \<noteq> Invalid) (worker_list c key))"

definition isActive :: "grain_id \<Rightarrow> 'v catalog \<Rightarrow> bool" where
  "isActive i c = (let key = grain_id_toString i in
     (case js_get (ct_activations c) key of Some a \<Rightarrow> av_state (obj c a) = Valid | None \<Rightarrow> False)
     \<or> list_ex (\<lambda>a. av_state (obj c a) = Valid) (worker_list c key))"

definition countFor :: "grain_id \<Rightarrow> 'v catalog \<Rightarrow> nat" where
  "countFor i c = (let key = grain_id_toString i in
     case js_get (ct_activations c) key of
       Some single \<Rightarrow> if av_state (obj c single) = Invalid then 0 else 1
     | None \<Rightarrow> length (filter (\<lambda>a. av_state (obj c a) \<noteq> Invalid) (worker_list c key)))"

definition all_stored :: "'v catalog \<Rightarrow> nat list" where
  "all_stored c = js_values (ct_activations c) @ concat (map (\<lambda>arr. ct_arrays c ! arr) (js_values (ct_workerActivations c)))"

definition ct_count :: "'v catalog \<Rightarrow> nat" where
  "ct_count c = length (filter (\<lambda>a. av_state (obj c a) \<noteq> Invalid) (all_stored c))"

definition grainTypeCounts :: "'v catalog \<Rightarrow> (string, nat) js_map" where
  "grainTypeCounts c = foldl (\<lambda>counts a.
     if av_state (obj c a) = Invalid then counts
     else (let type = gtype (av_id (obj c a)) in
           js_set type ((case js_get counts type of Some n \<Rightarrow> n | None \<Rightarrow> 0) + 1) counts)) [] (all_stored c)"

definition liveActivations :: "'v catalog \<Rightarrow> nat list" where
  "liveActivations c = filter (\<lambda>a. av_state (obj c a) = Valid) (all_stored c)"

definition isStatelessWorkerType :: "string \<Rightarrow> 'v catalog \<Rightarrow> bool" where
  "isStatelessWorkerType type c =
     (case js_get (co_grainTypes (ct_options c)) type of None \<Rightarrow> False | Some reg \<Rightarrow> rg_stateless reg)"

definition maxLocalWorkersFor :: "catalog_options \<Rightarrow> string \<Rightarrow> nat option" where
  "maxLocalWorkersFor opts type = (case js_get (co_grainTypes opts) type of
      None \<Rightarrow> None
    | Some reg \<Rightarrow>
        if \<not> rg_stateless reg then None
        else Some (case rg_maxLocalWorkers reg of Some n \<Rightarrow> n | None \<Rightarrow> if co_cpus opts \<noteq> 0 then co_cpus opts else 4))"

section \<open>Stateless workers\<close>

fun least_loaded :: "'v catalog \<Rightarrow> nat \<Rightarrow> nat list \<Rightarrow> nat" where
  "least_loaded c best [] = best"
| "least_loaded c best (i # is) =
     least_loaded c (if sc_load (av_scheduler (obj c i)) < sc_load (av_scheduler (obj c best)) then i else best) is"

definition with_array :: "nat \<Rightarrow> nat list \<Rightarrow> 'v catalog \<Rightarrow> 'v catalog" where
  "with_array arr xs c = c\<lparr> ct_arrays := (ct_arrays c)[arr := xs] \<rparr>"

text \<open>The array of a key, made when it is missing and pruned of the activations that are gone.\<close>

definition prunedWorkers :: "string \<Rightarrow> 'v catalog \<Rightarrow> 'v catalog \<times> nat \<times> nat list" where
  "prunedWorkers key c =
     (let c1 = (if js_has (ct_workerActivations c) key then c else workers_set key [] c);
          arr = the (js_get (ct_workerActivations c1) key);
          list = filter (\<lambda>a. av_state (obj c1 a) \<noteq> Invalid) (ct_arrays c1 ! arr)
      in (with_array arr list c1, arr, list))"

definition pickOrScaleWorker :: "int \<Rightarrow> grain_id \<Rightarrow> string \<Rightarrow> 'v catalog \<Rightarrow> 'v catalog \<times> (catalog_error + nat)" where
  "pickOrScaleWorker now i activationId c =
     (case maxLocalWorkersFor (ct_options c) (gtype i) of
        None \<Rightarrow> (c, Inl (NotStatelessWorker (gtype i)))
      | Some maxLocalWorkers \<Rightarrow>
          (case prunedWorkers (grain_id_toString i) c of (c2, arr, list) \<Rightarrow>
             (case find (\<lambda>a. \<not> sc_busy (av_scheduler (obj c2 a))) list of
                Some a \<Rightarrow> (c2, Inr a)
              | None \<Rightarrow>
                  if length list < maxLocalWorkers then
                    (if ct_stopping c2 then (c2, Inl (SiloStopping i))
                     else (case create now i activationId c2 of
                             Inl e \<Rightarrow> (c2, Inl e)
                           | Inr (c3, n) \<Rightarrow> (with_array arr (list @ [n]) c3, Inr n)))
                  else (case list of
                          [] \<Rightarrow> (c2, Inl UndefinedWorker)
                        | w # ws \<Rightarrow> (c2, Inr (least_loaded c2 w ws))))))"

section \<open>Processes\<close>

definition go :: "nat \<Rightarrow> process \<Rightarrow> 'v catalog \<Rightarrow> 'v catalog" where
  "go pid p c = c\<lparr> ct_procs := js_set pid p (ct_procs c) \<rparr>"

definition finish :: "nat \<Rightarrow> (catalog_error + nat option) \<Rightarrow> 'v catalog \<Rightarrow> 'v catalog \<times> catalog_event list" where
  "finish pid r c = (c\<lparr> ct_procs := js_delete pid (ct_procs c) \<rparr>, [Resolved pid r])"

definition unbind :: "nat \<Rightarrow> catalog_event list" where
  "unbind i = [DeactivateState i, OnDeactivated i]"

text \<open>What waits for a hook started on object \<open>i\<close> may go on.\<close>

definition hook_ready :: "int \<Rightarrow> nat \<Rightarrow> bool \<Rightarrow> 'v catalog \<Rightarrow> bool" where
  "hook_ready now i waits c \<longleftrightarrow> \<not> waits \<or> hookOver now (obj c i)"

definition afterFinalize :: "int \<Rightarrow> nat \<Rightarrow> string \<Rightarrow> after_finalize \<Rightarrow> 'v catalog \<Rightarrow> 'v catalog \<times> catalog_event list" where
  "afterFinalize now pid key cont c = (case cont of
      ThenNothing \<Rightarrow> finish pid (Inr None) c
    | ThenCreate i activationId \<Rightarrow>
        (let fresh = (case createAndStore now key i activationId c of (c', r) \<Rightarrow> finish pid r c') in
         case js_get (ct_activations c) key of
           None \<Rightarrow> fresh
         | Some replacement \<Rightarrow>
             if av_state (obj c replacement) \<noteq> Invalid then finish pid (Inr (Some replacement)) c else fresh))"

definition finalizeResume :: "int \<Rightarrow> nat \<Rightarrow> string \<Rightarrow> nat \<Rightarrow> after_finalize \<Rightarrow> 'v catalog \<Rightarrow> 'v catalog \<times> catalog_event list" where
  "finalizeResume now pid key existing cont c =
     (let c1 = finalizeObject existing c in
      if js_get (ct_activations c1) key \<noteq> Some existing then afterFinalize now pid key cont c1
      else (let c2 = activations_delete key c1 in
            if co_hasDisposeInstance (ct_options c2)
            then (go pid (FinalizeDispose key existing cont) c2, [DisposeInstance existing])
            else (case afterFinalize now pid key cont c2 of (c3, out) \<Rightarrow> (c3, unbind existing @ out))))"

text \<open>\<open>collectOne\<close> up to its first await, at one place of a sweep.\<close>

definition collectOne ::
  "int \<Rightarrow> nat \<Rightarrow> int option \<Rightarrow> string list \<Rightarrow> string list \<Rightarrow> sweep_place \<Rightarrow> nat \<Rightarrow> 'v catalog \<Rightarrow> 'v catalog \<times> catalog_event list" where
  "collectOne now pid age passed passedWorkers place i c =
     (if \<not> isStale now age (obj c i) then (go pid (Sweep age passed passedWorkers (CollectDone place i)) c, [])
      else (let migrating = av_migrationRequested (obj c i) \<and> co_hasMigrate (ct_options c) in
            case startHook now i c of (c', out, waits) \<Rightarrow>
              (go pid (Sweep age passed passedWorkers (CollectHook place i migrating waits)) c', out)))"

text \<open>\<open>disposeCollected\<close>, after which the sweep goes on with \<open>next\<close>.\<close>

definition disposeCollected :: "nat \<Rightarrow> nat \<Rightarrow> process \<Rightarrow> process \<Rightarrow> 'v catalog \<Rightarrow> 'v catalog \<times> catalog_event list" where
  "disposeCollected pid i waiting next c =
     (if co_hasDisposeInstance (ct_options c) then (go pid waiting c, [DisposeInstance i])
      else (go pid next c, unbind i))"

fun sweepResume ::
  "int \<Rightarrow> nat \<Rightarrow> bool \<Rightarrow> int option \<Rightarrow> string list \<Rightarrow> string list \<Rightarrow> sweep_stage \<Rightarrow> 'v catalog \<Rightarrow> 'v catalog \<times> catalog_event list" where
  "sweepResume now pid ok age passed pw NextEntry c =
     (case find (\<lambda>(key, i). key \<notin> set passed) (ct_activations c) of
        None \<Rightarrow> (go pid (Sweep age passed pw NextWorkers) c, [])
      | Some (key, i) \<Rightarrow> collectOne now pid age (key # passed) pw (AtEntry key) i c)"
| "sweepResume now pid ok age passed pw (CollectHook place i migrating waits) c =
     (if \<not> hook_ready now i waits c then (c, [])
      else if migrating \<or> av_migrationRequested (obj c i) \<and> co_hasMigrate (ct_options c)
      then (go pid (Sweep age passed pw (CollectMigrate place i)) c, [MigrateCalled i])
      else (go pid (Sweep age passed pw (CollectDone place i)) (finalizeObject i c), []))"
| "sweepResume now pid ok age passed pw (CollectMigrate place i) c =
     (if ok then (go pid (Sweep age passed pw (CollectDone place i)) (finalizeObject i c), [])
      else finish pid (Inl MigrateFailed) c)"
| "sweepResume now pid ok age passed pw (CollectDone (AtEntry key) i) c =
     (if av_state (obj c i) \<noteq> Invalid then (go pid (Sweep age passed pw NextEntry) c, [])
      else (let c1 = (if js_get (ct_activations c) key = Some i then activations_delete key c else c);
                passed1 = (if js_get (ct_activations c) key = Some i then filter (\<lambda>k. k \<noteq> key) passed else passed) in
            if av_abandonedAsStuck (obj c1 i) then (go pid (Sweep age passed1 pw NextEntry) c1, [])
            else disposeCollected pid i (Sweep age passed1 pw (DisposeEntry i)) (Sweep age passed1 pw NextEntry) c1))"
| "sweepResume now pid ok age passed pw (CollectDone (AtItem key arr n) i) c =
     (let n' = Suc n in
      if n' < length (ct_arrays c ! arr)
      then collectOne now pid age passed pw (AtItem key arr n') (ct_arrays c ! arr ! n') c
      else (let current = worker_list c key;
                collected = filter (\<lambda>a. av_state (obj c a) = Invalid) current;
                remaining = filter (\<lambda>a. av_state (obj c a) \<noteq> Invalid) current;
                pw1 = (if remaining = [] then filter (\<lambda>k. k \<noteq> key) pw else pw)
            in (go pid (Sweep age passed pw1 (DisposeWorkers collected)) (store_remaining key remaining c), [])))"
| "sweepResume now pid ok age passed pw (DisposeEntry i) c =
     (go pid (Sweep age passed pw NextEntry) c, if ok then unbind i else [])"
| "sweepResume now pid ok age passed pw NextWorkers c =
     (case find (\<lambda>(key, arr). key \<notin> set pw) (ct_workerActivations c) of
        None \<Rightarrow> finish pid (Inr None) c
      | Some (key, arr) \<Rightarrow>
          (case ct_arrays c ! arr of
             [] \<Rightarrow> (go pid (Sweep age passed pw (DisposeWorkers [])) (workers_delete key c), [])
           | i # _ \<Rightarrow> collectOne now pid age passed (key # pw) (AtItem key arr 0) i c))"
| "sweepResume now pid ok age passed pw (DisposeWorkers []) c = (go pid (Sweep age passed pw NextWorkers) c, [])"
| "sweepResume now pid ok age passed pw (DisposeWorkers (i # is)) c =
     disposeCollected pid i (Sweep age passed pw (DisposeWorker i is)) (Sweep age passed pw (DisposeWorkers is)) c"
| "sweepResume now pid ok age passed pw (DisposeWorker i is) c =
     (go pid (Sweep age passed pw (DisposeWorkers is)) c, if ok then unbind i else [])"

definition collectIdle :: "int option \<Rightarrow> 'v catalog \<Rightarrow> 'v catalog \<times> catalog_event list" where
  "collectIdle age c = (spawn (Sweep age [] [] NextEntry) c, [])"

text \<open>\<open>ActivationData.deactivate\<close> as a process of its own.\<close>

definition deactivateObject :: "int \<Rightarrow> nat \<Rightarrow> 'v catalog \<Rightarrow> 'v catalog \<times> catalog_event list" where
  "deactivateObject now i c = (case startHook now i c of (c', out, waits) \<Rightarrow> (spawn (DeactivateOne i waits) c', out))"

fun deactivateEach :: "int \<Rightarrow> nat list \<Rightarrow> 'v catalog \<Rightarrow> 'v catalog \<times> catalog_event list" where
  "deactivateEach now [] c = (c, [])"
| "deactivateEach now (i # is) c =
     (case deactivateObject now i c of (c1, out) \<Rightarrow> case deactivateEach now is c1 of (c2, out') \<Rightarrow> (c2, out @ out'))"

definition deactivateAll :: "int \<Rightarrow> int option \<Rightarrow> 'v catalog \<Rightarrow> 'v catalog \<times> catalog_event list" where
  "deactivateAll now deadlineMs c0 =
     (let c = c0\<lparr> ct_stopping := True \<rparr>; all = all_stored c; first = ct_nextProc c in
      case deactivateEach now all c of (c1, out) \<Rightarrow>
        (spawn (StopWait [first..<ct_nextProc c1] all (map_option (\<lambda>d. now + d) deadlineMs)) c1, out))"

definition stopResume :: "nat \<Rightarrow> nat list \<Rightarrow> 'v catalog \<Rightarrow> 'v catalog \<times> catalog_event list" where
  "stopResume pid all c = (case all of
      [] \<Rightarrow> finish pid (Inr None) c
    | i # is \<Rightarrow>
        if av_state (obj c i) \<noteq> Invalid \<or> av_abandonedAsStuck (obj c i) then (go pid (StopDispose is) c, [])
        else if co_hasDisposeInstance (ct_options c) then (go pid (StopDisposing i is) c, [DisposeInstance i])
        else (go pid (StopDispose is) c, unbind i))"

definition resume :: "int \<Rightarrow> nat \<Rightarrow> bool \<Rightarrow> 'v catalog \<Rightarrow> 'v catalog \<times> catalog_event list" where
  "resume now pid ok c = (case js_get (ct_procs c) pid of
      None \<Rightarrow> (c, [])
    | Some (FinalizeHook key i waits cont) \<Rightarrow>
        if hook_ready now i waits c then finalizeResume now pid key i cont c else (c, [])
    | Some (FinalizeDispose key i cont) \<Rightarrow>
        if ok then (case afterFinalize now pid key cont c of (c', out) \<Rightarrow> (c', unbind i @ out))
        else finish pid (Inl DisposeFailed) c
    | Some (Sweep age passed pw stage) \<Rightarrow> sweepResume now pid ok age passed pw stage c
    | Some (DeactivateOne i waits) \<Rightarrow>
        if hook_ready now i waits c then finish pid (Inr None) (finalizeObject i c) else (c, [])
    | Some (StopWait children all deadline) \<Rightarrow>
        if list_all (\<lambda>p. \<not> js_has (ct_procs c) p) children \<or> (case deadline of None \<Rightarrow> False | Some d \<Rightarrow> d \<le> now)
        then (go pid (StopDispose all) (maps_clear c), []) else (c, [])
    | Some (StopDispose all) \<Rightarrow> stopResume pid all c
    | Some (StopDisposing i is) \<Rightarrow>
        if ok then (go pid (StopDispose is) c, unbind i) else finish pid (Inl DisposeFailed) c)"

section \<open>Runs\<close>

datatype 'v catalog_op =
    GetOrActivate int grain_id string
  | ResolveLive int grain_id
  | PickWorker int grain_id string
  | CollectIdle "int option"
  | DeactivateAll int "int option"
  | Deactivate int nat
  | Resume int nat bool
  | ActivationStep nat "'v activation_op"
  | SetupDepth nat

definition catalog_step :: "'v catalog \<Rightarrow> 'v catalog_op \<Rightarrow> 'v catalog \<times> catalog_event list" where
  "catalog_step c op = (case op of
      GetOrActivate now i activationId \<Rightarrow> getOrActivate now i activationId c
    | ResolveLive now i \<Rightarrow> resolveLive now i c
    | PickWorker now i activationId \<Rightarrow> (case pickOrScaleWorker now i activationId c of (c', r) \<Rightarrow> answer (map_sum id Some r) c')
    | CollectIdle age \<Rightarrow> collectIdle age c
    | DeactivateAll now deadline \<Rightarrow> deactivateAll now deadline c
    | Deactivate now i \<Rightarrow> if i < length (ct_objects c) then deactivateObject now i c else (c, [])
    | Resume now pid ok \<Rightarrow> resume now pid ok c
    | ActivationStep i aop \<Rightarrow> if i < length (ct_objects c) then act i (activation_step (obj c i) aop) c else (c, [])
    | SetupDepth n \<Rightarrow> (c\<lparr> ct_setupDepth := n \<rparr>, []))"

end
