(* ===== verification/Catalog_Safety.thy ===== *)
theory Catalog_Safety
  imports Catalog
begin

text \<open>
  The invariant of the catalog and what it gives: while the silo runs, every live activation that was not deactivated
  before its activation turn was over is the entry of its key, so a grain has at most one such activation here; the
  workers of a stateless grain never exceed their limit; a stopping silo creates nothing. The invariant rests on the
  contract of \<open>Activation_Contract\<close> and is kept by every segment of every asynchronous method between two awaits. It
  carries the set of activations deactivated early; the bound on the workers is stated for runs in which that set is
  empty. The last section shows on concrete runs where the code does less than its comments say.
\<close>

section \<open>The invariant\<close>

definition stored_at :: "'v catalog \<Rightarrow> string \<Rightarrow> nat \<Rightarrow> bool" where
  "stored_at c k i \<longleftrightarrow> js_get (ct_activations c) k = Some i \<or> i \<in> set (worker_list c k)"

text \<open>The grain type of a key, for types without a slash.\<close>

definition type_part :: "string \<Rightarrow> string" where
  "type_part k = takeWhile (\<lambda>x. x \<noteq> CHR ''/'') k"

definition options_ok :: "catalog_options \<Rightarrow> bool" where
  "options_ok opts \<longleftrightarrow> (\<forall>t \<in> set (js_keys (co_grainTypes opts)). CHR ''/'' \<notin> set t) \<and> co_hardLimit opts \<noteq> Some 0"

definition maps_ok :: "'v catalog \<Rightarrow> bool" where
  "maps_ok c \<longleftrightarrow>
     (\<forall>k i. js_get (ct_activations c) k = Some i \<longrightarrow> i < length (ct_objects c) \<and> key_of (obj c i) = k)
   \<and> (\<forall>k arr. js_get (ct_workerActivations c) k = Some arr \<longrightarrow> arr < length (ct_arrays c)
        \<and> (\<exists>m. maxLocalWorkersFor (ct_options c) (type_part k) = Some m \<and> length (ct_arrays c ! arr) \<le> m))
   \<and> (\<forall>k k' arr. js_get (ct_workerActivations c) k = Some arr \<and> js_get (ct_workerActivations c) k' = Some arr \<longrightarrow> k = k')
   \<and> (\<forall>xs \<in> set (ct_arrays c). \<forall>i \<in> set xs. i < length (ct_objects c))
   \<and> js_wf (ct_activations c) \<and> js_wf (ct_workerActivations c)"

definition object_ready :: "nat set \<Rightarrow> 'v catalog \<Rightarrow> nat \<Rightarrow> bool" where
  "object_ready X c i \<longleftrightarrow> i < length (ct_objects c) \<and> (i \<in> X \<or> activated (obj c i))"

fun place_ok :: "'v catalog \<Rightarrow> sweep_place \<Rightarrow> bool" where
  "place_ok c (AtItem key arr n) = (arr < length (ct_arrays c))"
| "place_ok c (AtEntry key) = True"

fun cont_ok :: "string \<Rightarrow> after_finalize \<Rightarrow> bool" where
  "cont_ok key (ThenCreate i activationId) = (key = grain_id_toString i)"
| "cont_ok key ThenNothing = True"

fun proc_ok :: "nat set \<Rightarrow> 'v catalog \<Rightarrow> process \<Rightarrow> bool" where
  "proc_ok X c (FinalizeHook key i waits cont) = (object_ready X c i \<and> cont_ok key cont)"
| "proc_ok X c (FinalizeDispose key i cont) = cont_ok key cont"
| "proc_ok X c (Sweep age passed pw (CollectHook place i migrating waits)) = (object_ready X c i \<and> place_ok c place)"
| "proc_ok X c (Sweep age passed pw (CollectMigrate place i)) = (object_ready X c i \<and> place_ok c place)"
| "proc_ok X c (Sweep age passed pw (CollectDone place i)) = place_ok c place"
| "proc_ok X c (DeactivateOne i waits) = object_ready X c i"
| "proc_ok X c (StopWait children all deadline) = ct_stopping c"
| "proc_ok X c (StopDispose all) = ct_stopping c"
| "proc_ok X c (StopDisposing i all) = ct_stopping c"
| "proc_ok X c p = True"

definition procs_ok :: "nat set \<Rightarrow> 'v catalog \<Rightarrow> bool" where
  "procs_ok X c \<longleftrightarrow> (\<forall>pid p. js_get (ct_procs c) pid = Some p \<longrightarrow> proc_ok X c p)"

definition cat_ok :: "nat set \<Rightarrow> 'v catalog \<Rightarrow> bool" where
  "cat_ok X c \<longleftrightarrow> options_ok (ct_options c) \<and> (ct_stopping c \<or>
     activations.registered_objects X (stored_at c) (ct_objects c) \<and> maps_ok c \<and> procs_ok X c)"

lemma cat_okI:
  assumes "options_ok (ct_options c)" "\<not> ct_stopping c \<Longrightarrow> activations.registered_objects X (stored_at c) (ct_objects c)"
    "\<not> ct_stopping c \<Longrightarrow> maps_ok c" "\<not> ct_stopping c \<Longrightarrow> procs_ok X c"
  shows "cat_ok X c"
  using assms by (auto simp: cat_ok_def)

lemma type_part_key:
  assumes "options_ok opts" "js_has (co_grainTypes opts) (gtype i)"
  shows "type_part (grain_id_toString i) = gtype i"
proof -
  have "gtype i \<in> set (js_keys (co_grainTypes opts))" using assms(2) by (auto simp: map_of_eq_None_iff)
  then have "CHR ''/'' \<notin> set (gtype i)" using assms(1) unfolding options_ok_def by blast
  then show ?thesis unfolding type_part_def grain_id_toString_def by (subst takeWhile_append2) auto
qed

section \<open>Changes of the processes\<close>

lemma proc_ok_cong:
  "length (ct_objects c') = length (ct_objects c) \<Longrightarrow> (\<And>i. i < length (ct_objects c) \<Longrightarrow> activated (obj c i) \<Longrightarrow> activated (obj c' i)) \<Longrightarrow>
   length (ct_arrays c) \<le> length (ct_arrays c') \<Longrightarrow> ct_stopping c' = ct_stopping c \<Longrightarrow> proc_ok X c p \<Longrightarrow> proc_ok X c' p"
  by (induction X c p rule: proc_ok.induct) (auto simp: object_ready_def elim!: place_ok.elims)

lemma forget_ok [simp]: "proc_ok X c (forget_entry P p) = proc_ok X c p" "proc_ok X c (forget_workers P p) = proc_ok X c p"
proof -
  have "proc_ok X c (Sweep age passed pw s) = proc_ok X c (Sweep age passed' pw' s)" for age passed pw passed' pw' s
    by (cases s) auto
  then show "proc_ok X c (forget_entry P p) = proc_ok X c p" "proc_ok X c (forget_workers P p) = proc_ok X c p"
    by (cases p; auto)+
qed

lemma js_get_map_snd: "js_get (map (map_prod id f) m) k = map_option f (js_get m k)"
  by (induction m) auto

text \<open>Only the processes change.\<close>

lemma cat_ok_procs:
  assumes "cat_ok X c" "ct_options c' = ct_options c" "ct_stopping c' = ct_stopping c" "ct_objects c' = ct_objects c"
    "ct_activations c' = ct_activations c" "ct_workerActivations c' = ct_workerActivations c" "ct_arrays c' = ct_arrays c"
    and "\<not> ct_stopping c \<Longrightarrow> procs_ok X c \<Longrightarrow> procs_ok X c'"
  shows "cat_ok X c'"
proof (rule cat_okI)
  show "options_ok (ct_options c')" using assms(1,2) by (simp add: cat_ok_def)
  assume run: "\<not> ct_stopping c'"
  have "stored_at c' = stored_at c" by (intro ext) (simp add: stored_at_def worker_list_def assms)
  then show "activations.registered_objects X (stored_at c') (ct_objects c')" using assms run by (simp add: cat_ok_def)
  show "maps_ok c'" using assms run by (simp add: cat_ok_def maps_ok_def)
  show "procs_ok X c'" using assms run by (simp add: cat_ok_def)
qed

lemma proc_ok_same:
  "ct_objects c' = ct_objects c \<Longrightarrow> ct_arrays c' = ct_arrays c \<Longrightarrow> ct_stopping c' = ct_stopping c \<Longrightarrow> proc_ok X c' p = proc_ok X c p"
  using proc_ok_cong [of c' c X p] proc_ok_cong [of c c' X p] by auto

lemma procs_ok_update:
  assumes "procs_ok X c" "ct_objects c' = ct_objects c" "ct_arrays c' = ct_arrays c" "ct_stopping c' = ct_stopping c"
    and "\<And>k q. js_get (ct_procs c') k = Some q \<Longrightarrow> js_get (ct_procs c) k = Some q \<or> proc_ok X c q"
  shows "procs_ok X c'"
  unfolding procs_ok_def
proof (intro allI impI)
  fix k q assume "js_get (ct_procs c') k = Some q"
  then have "proc_ok X c q" using assms(1,5) unfolding procs_ok_def by blast
  then show "proc_ok X c' q" using proc_ok_same [OF assms(2-4)] by simp
qed

lemma go_ok: "cat_ok X c \<Longrightarrow> (\<not> ct_stopping c \<Longrightarrow> proc_ok X c p) \<Longrightarrow> cat_ok X (go pid p c)"
  by (rule cat_ok_procs, assumption)
    (auto simp: go_def js_get_set split: if_splits intro!: procs_ok_update [of X c])

lemma spawn_ok: "cat_ok X c \<Longrightarrow> (\<not> ct_stopping c \<Longrightarrow> proc_ok X c p) \<Longrightarrow> cat_ok X (spawn p c)"
  by (rule cat_ok_procs, assumption)
    (auto simp: spawn_def js_get_set split: if_splits intro!: procs_ok_update [of X c])

lemma finish_ok: "cat_ok X c \<Longrightarrow> cat_ok X (fst (finish pid r c))"
  by (rule cat_ok_procs, assumption)
    (auto simp: finish_def js_get_delete split: if_splits intro!: procs_ok_update [of X c])

lemma answer_ok: "cat_ok X c \<Longrightarrow> cat_ok X (fst (answer r c))"
  by (rule cat_ok_procs, assumption) (auto simp: answer_def intro!: procs_ok_update [of X c])

section \<open>Changes of the maps\<close>

lemma activations_delete_ok:
  assumes "cat_ok X c" "js_get (ct_activations c) k = Some i" "\<not> alive (obj c i)"
  shows "cat_ok X (activations_delete k c)"
proof (rule cat_okI)
  let ?c = "activations_delete k c"
  have sel: "ct_options ?c = ct_options c" "ct_stopping ?c = ct_stopping c" "ct_objects ?c = ct_objects c"
    "ct_workerActivations ?c = ct_workerActivations c" "ct_arrays ?c = ct_arrays c"
    "js_wf (ct_activations c) \<Longrightarrow> js_wf (ct_activations ?c)"
    "js_get (ct_activations ?c) k' = (if k' = k then None else js_get (ct_activations c) k')"
    "js_get (ct_procs ?c) pid = map_option (forget_entry (\<lambda>x. x = k)) (js_get (ct_procs c) pid)" for k' pid
    by (simp_all add: activations_delete_def js_get_delete js_get_map_snd)
  show "options_ok (ct_options ?c)" using assms(1) by (simp add: cat_ok_def sel)
  assume "\<not> ct_stopping ?c"
  then have inv: "activations.registered_objects X (stored_at c) (ct_objects c)" "maps_ok c" "procs_ok X c"
    using assms(1) by (simp_all add: cat_ok_def sel)
  have "\<not> alive (obj c j)" if "stored_at c k' j" "\<not> stored_at ?c k' j" for k' j
    using that assms(2,3) by (auto simp: stored_at_def worker_list_def sel split: if_splits)
  then show "activations.registered_objects X (stored_at ?c) (ct_objects ?c)"
    using activations.registered_drop [OF inv(1), of "stored_at ?c"] by (simp add: sel)
  show "maps_ok ?c" using inv(2) by (auto simp: maps_ok_def sel)
  have "proc_ok X ?c p = proc_ok X c p" for p by (rule proc_ok_same) (simp_all add: sel)
  then show "procs_ok X ?c" using inv(3) by (auto simp: procs_ok_def sel)
qed

lemma array_in_range: "maps_ok c \<Longrightarrow> arr < length (ct_arrays c) \<Longrightarrow> i \<in> set (ct_arrays c ! arr) \<Longrightarrow> i < length (ct_objects c)"
  unfolding maps_ok_def by (meson nth_mem)

lemma worker_in_range:
  assumes "maps_ok c" "i \<in> set (worker_list c k)"
  shows "i < length (ct_objects c)"
proof -
  obtain arr where arr: "js_get (ct_workerActivations c) k = Some arr" "i \<in> set (ct_arrays c ! arr)"
    using assms(2) by (cases "js_get (ct_workerActivations c) k") (auto simp: worker_list_def)
  then have "arr < length (ct_arrays c)" using assms(1) by (auto simp: maps_ok_def)
  then show ?thesis using array_in_range [OF assms(1)] arr(2) by blast
qed

text \<open>The array of a key is replaced by one that keeps its live workers.\<close>

lemma store_remaining_ok:
  assumes "cat_ok X c" "set remaining \<subseteq> set (worker_list c k)" "length remaining \<le> length (worker_list c k)"
    and "\<And>i. i \<in> set (worker_list c k) \<Longrightarrow> i \<notin> set remaining \<Longrightarrow> \<not> alive (obj c i)"
  shows "cat_ok X (store_remaining k remaining c)"
proof (rule cat_okI)
  let ?c = "store_remaining k remaining c"
  have sel: "ct_options ?c = ct_options c" "ct_stopping ?c = ct_stopping c" "ct_objects ?c = ct_objects c"
    "ct_activations ?c = ct_activations c"
    by (simp_all add: store_remaining_def workers_delete_def workers_set_def)
  show "options_ok (ct_options ?c)" using assms(1) by (simp add: cat_ok_def sel)
  assume "\<not> ct_stopping ?c"
  then have inv: "activations.registered_objects X (stored_at c) (ct_objects c)" "maps_ok c" "procs_ok X c"
    using assms(1) by (simp_all add: cat_ok_def sel)
  have wl: "worker_list ?c k' = (if k' = k then remaining else worker_list c k')" for k'
    using inv(2) by (auto simp: store_remaining_def workers_delete_def workers_set_def worker_list_def js_get_delete js_get_set
        nth_append maps_ok_def split: option.splits)
  have "\<not> alive (obj c j)" if "stored_at c k' j" "\<not> stored_at ?c k' j" for k' j
    using that assms(4) by (auto simp: stored_at_def wl sel split: if_splits)
  then show "activations.registered_objects X (stored_at ?c) (ct_objects ?c)"
    using activations.registered_drop [OF inv(1), of "stored_at ?c"] by (simp add: sel)
  have arrays: "ct_arrays ?c = ct_arrays c \<or> remaining \<noteq> [] \<and> ct_arrays ?c = ct_arrays c @ [remaining]"
    by (simp add: store_remaining_def workers_delete_def workers_set_def)
  have in_range: "\<forall>i \<in> set remaining. i < length (ct_objects c)"
    using assms(2) worker_in_range [OF inv(2)] by blast
  have key: "\<exists>arr. js_get (ct_workerActivations c) k = Some arr \<and> length remaining \<le> length (ct_arrays c ! arr)" if "remaining \<noteq> []"
    using assms(2,3) that by (auto simp: worker_list_def split: option.splits)
  show "maps_ok ?c"
  proof (cases "remaining = []")
    case True
    then show ?thesis
      using inv(2) by (auto simp: maps_ok_def store_remaining_def workers_delete_def js_get_delete split: if_splits)
  next
    case False
    with key obtain arr where arr: "js_get (ct_workerActivations c) k = Some arr" "length remaining \<le> length (ct_arrays c ! arr)" by blast
    have "arr' \<noteq> length (ct_arrays c)" if "js_get (ct_workerActivations c) k' = Some arr'" for k' arr'
      using inv(2) that by (auto simp: maps_ok_def)
    with False arr inv(2) in_range show ?thesis
      unfolding maps_ok_def store_remaining_def workers_set_def
      by (auto simp: js_get_set nth_append less_Suc_eq split: if_splits) (meson le_trans)+
  qed
  have "proc_ok X ?c p" if "proc_ok X c p" for p
    by (rule proc_ok_cong [OF _ _ _ _ that]) (use arrays in \<open>auto simp: sel\<close>)
  moreover have "js_get (ct_procs ?c) pid = Some p \<Longrightarrow> \<exists>q. js_get (ct_procs c) pid = Some q \<and> proc_ok X c p = proc_ok X c q" for pid p
    by (auto simp: store_remaining_def workers_delete_def workers_set_def js_get_map_snd split: if_splits)
  ultimately show "procs_ok X ?c" using inv(3) unfolding procs_ok_def by blast
qed

section \<open>Steps of an activation\<close>

lemma objects_ok:
  assumes "cat_ok X c" "i < length (ct_objects c)" "\<not> ct_stopping c \<Longrightarrow> i \<notin> X \<Longrightarrow> finish_allowed (obj c i) op"
  shows "cat_ok X (c\<lparr> ct_objects := (ct_objects c)[i := fst (activation_step (obj c i) op)] \<rparr>)" (is "cat_ok X ?c")
proof (rule cat_okI)
  show "options_ok (ct_options ?c)" using assms(1) by (simp add: cat_ok_def)
  assume "\<not> ct_stopping ?c"
  then have inv: "activations.registered_objects X (stored_at c) (ct_objects c)" "maps_ok c" "procs_ok X c"
    and allowed: "i \<notin> X \<Longrightarrow> finish_allowed (obj c i) op" using assms(1,3) by (simp_all add: cat_ok_def)
  have good: "turns_ok (obj c j)" if "j < length (ct_objects c)" for j
    using inv(1) that by (simp add: activations.registered_objects_def)
  have "stored_at ?c = stored_at c" by (intro ext) (simp add: stored_at_def worker_list_def)
  then show "activations.registered_objects X (stored_at ?c) (ct_objects ?c)"
    using activations.registered_step [OF inv(1) assms(2) allowed] by simp
  have name: "key_of (obj ?c j) = key_of (obj c j)" for j
    using activations.step_name [OF good [OF assms(2)]] assms(2) by (cases "j = i") auto
  show "maps_ok ?c" using inv(2) unfolding maps_ok_def name by auto
  have "activated (obj ?c j)" if "j < length (ct_objects c)" "activated (obj c j)" for j
    using activations.step_settled [OF good [OF assms(2)]] assms(2) that by (cases "j = i") auto
  then have "proc_ok X ?c p" if "proc_ok X c p" for p
    by (intro proc_ok_cong [OF _ _ _ _ that]) auto
  then show "procs_ok X ?c" using inv(3) by (auto simp: procs_ok_def)
qed

lemma stuck_ok:
  assumes "cat_ok X c" "i < length (ct_objects c)" "\<not> ct_stopping c \<Longrightarrow> \<not> alive (obj c i)"
  shows "cat_ok X (fst (handleStuckActivation i c))"
proof (cases "ct_stopping c")
  case True
  moreover have "ct_options (fst (handleStuckActivation i c)) = ct_options c" "ct_stopping (fst (handleStuckActivation i c)) = ct_stopping c"
    by (auto simp: handleStuckActivation_def Let_def activations_delete_def store_remaining_def workers_delete_def workers_set_def
        split: option.splits)
  ultimately show ?thesis using assms(1) by (simp add: cat_ok_def)
next
  case False
  let ?k = "key_of (obj c i)"
  have dead: "\<not> alive (obj c i)" using assms(3) False .
  have "cat_ok X (store_remaining ?k (filter (\<lambda>j. j \<noteq> i) (ct_arrays c ! arr)) c)" if "js_get (ct_workerActivations c) ?k = Some arr" for arr
    using that dead by (intro store_remaining_ok [OF assms(1)]) (auto simp: worker_list_def)
  with assms(1) dead activations_delete_ok [OF assms(1)] show ?thesis
    by (auto simp: handleStuckActivation_def Let_def split: option.splits)
qed

lemma act_ok:
  assumes "cat_ok X c" "i < length (ct_objects c)" "\<not> ct_stopping c \<Longrightarrow> i \<notin> X \<Longrightarrow> finish_allowed (obj c i) op"
  shows "cat_ok X (fst (act i (activation_step (obj c i) op) c))"
proof -
  let ?c = "c\<lparr> ct_objects := (ct_objects c)[i := fst (activation_step (obj c i) op)] \<rparr>"
  have c: "cat_ok X ?c" by (rule objects_ok [OF assms])
  have "\<not> alive (obj ?c i)" if "\<not> ct_stopping ?c" "OnStuck \<in> set (snd (activation_step (obj c i) op))"
  proof -
    have "turns_ok (obj c i)"
      using assms(1,2) that(1) by (simp add: cat_ok_def activations.registered_objects_def)
    from activations.step_stuck [OF this that(2)] assms(2) show ?thesis by simp
  qed
  then have "cat_ok X (fst (handleStuckActivation i ?c))" if "OnStuck \<in> set (snd (activation_step (obj c i) op))"
    using assms(2) that by (intro stuck_ok [OF c]) auto
  with c show ?thesis by (simp add: act_def Let_def)
qed

lemma act_sel:
  "ct_stopping (fst (act i r c)) = ct_stopping c" "ct_options (fst (act i r c)) = ct_options c"
  "ct_objects (fst (act i r c)) = (ct_objects c)[i := fst r]" "length (ct_arrays c) \<le> length (ct_arrays (fst (act i r c)))"
  by (auto simp: act_def Let_def handleStuckActivation_def activations_delete_def store_remaining_def workers_delete_def
      workers_set_def split: option.splits)

lemma startHook_act:
  "fst (startHook now i c) = fst (act i (activation_step (obj c i) (DoRunHook now)) c)"
  by (simp add: startHook_def case_prod_unfold)

lemma startHook_ok:
  assumes "cat_ok X c" "i < length (ct_objects c)"
  shows "cat_ok X (fst (startHook now i c))"
  unfolding startHook_act by (rule act_ok [OF assms]) (simp add: finish_allowed_def)

lemma startHook_ready:
  assumes "cat_ok X c" "\<not> ct_stopping c" "object_ready X c i"
  shows "object_ready X (fst (startHook now i c)) i"
proof -
  have "turns_ok (obj c i)" using assms by (simp add: cat_ok_def activations.registered_objects_def object_ready_def)
  from activations.step_settled [OF this, of "DoRunHook now"] assms(3) show ?thesis
    by (auto simp: startHook_act object_ready_def act_sel)
qed

lemma finalize_ok:
  assumes "cat_ok X c" "\<not> ct_stopping c \<Longrightarrow> object_ready X c i"
  shows "cat_ok X (finalizeObject i c)"
proof (cases "i < length (ct_objects c)")
  case True
  have "cat_ok X (c\<lparr> ct_objects := (ct_objects c)[i := fst (activation_step (obj c i) DoFinalize)] \<rparr>)"
    using assms by (intro objects_ok [OF assms(1) True]) (simp add: finish_allowed_def object_ready_def)
  then show ?thesis by (simp add: finalizeObject_def)
next
  case False
  then have "finalizeObject i c = c" by (simp add: finalizeObject_def list_update_beyond)
  with assms(1) show ?thesis by simp
qed

section \<open>Creating activations\<close>

lemma created_good:
  fixes a :: "'v activation"
  assumes "hardLimit \<noteq> Some 0" "fst (beginActivate (newActivation i activationId now reentrant hardLimit opts)) = a"
  shows "good_activation a" "key_of a = grain_id_toString i" "av_state a = Activating"
proof -
  let ?a = "newActivation i activationId now reentrant hardLimit opts :: 'v activation"
  have ok: "turns_ok a" using created_ok [OF assms(1), of i activationId now reentrant opts a "snd (beginActivate ?a)"] assms(2)
    by (simp add: prod_eq_iff)
  have none: "av_abandonedAsStuck ?a = False" "av_id ?a = i" by (simp_all add: newActivation_def)
  have k: "keeps (?a\<lparr> av_state := Activating \<rparr>) (beginActivate ?a)" unfolding beginActivate_def by (rule keeps_schedule)
  have limit: "(case hardLimit of None \<Rightarrow> False | Some h \<Rightarrow> h \<le> length (sc_queue s)) = False"
    if "sc_queue s = []" for s :: "'v scheduler" using assms(1) that by (cases hardLimit) auto
  show st: "av_state a = Activating"
    unfolding assms(2) [symmetric]
    by (simp add: beginActivate_def scheduleTurn_def runScheduler_def newActivation_def newScheduler_def sched_step_def
        schedule_def limit mayAdmit_def sc_start_def Let_def turnEvent_def exclusiveTurn_def)
  show "key_of a = grain_id_toString i" using k none assms(2) by (simp add: keeps_def key_of_def)
  show "good_activation a" using ok st by (simp add: good_activation_def)
qed

text \<open>What \<open>create\<close> adds.\<close>

lemma create_shape:
  assumes "create now i activationId c = Inr (c', n)" "options_ok (ct_options c)"
  obtains a where "c' = c\<lparr> ct_objects := ct_objects c @ [a] \<rparr>" "n = length (ct_objects c)" "good_activation a"
    "key_of a = grain_id_toString i" "av_state a = Activating" "type_part (grain_id_toString i) = gtype i"
proof -
  obtain reg where reg: "js_get (co_grainTypes (ct_options c)) (gtype i) = Some reg" "ct_setupDepth c = 0"
    using assms(1) by (auto simp: create_def split: if_splits option.splits)
  have "co_hardLimit (ct_options c) \<noteq> Some 0" using assms(2) by (simp add: options_ok_def)
  note g = created_good [OF this]
  from reg assms(1) that [OF _ _ g] type_part_key [OF assms(2), of i] show thesis
    by (auto simp: create_def Let_def)
qed

lemma object_added_procs:
  assumes "procs_ok X c" "ct_objects c' = ct_objects c @ [a]" "ct_procs c' = ct_procs c"
    "length (ct_arrays c) \<le> length (ct_arrays c')" "ct_stopping c' = ct_stopping c"
  shows "procs_ok X c'"
proof -
  have "proc_ok X c' p" if "proc_ok X c p" for p
    using that assms(2,4,5)
    by (induction X c p rule: proc_ok.induct) (auto simp: object_ready_def nth_append elim!: place_ok.elims)
  then show ?thesis using assms(1,3) by (auto simp: procs_ok_def)
qed

lemma createAndStore_ok:
  assumes "cat_ok X c" "key = grain_id_toString i" "\<And>j. js_get (ct_activations c) key = Some j \<Longrightarrow> \<not> alive (obj c j)"
  shows "cat_ok X (fst (createAndStore now key i activationId c))"
proof (cases "ct_stopping c \<or> (\<exists>e. create now i activationId c = Inl e)")
  case True
  with assms(1) show ?thesis by (auto simp: createAndStore_def)
next
  case False
  then obtain c' n where cr: "create now i activationId c = Inr (c', n)" by (cases "create now i activationId c") auto
  have opts: "options_ok (ct_options c)" using assms(1) by (simp add: cat_ok_def)
  obtain a where a: "c' = c\<lparr> ct_objects := ct_objects c @ [a] \<rparr>" "n = length (ct_objects c)" "good_activation a"
    "key_of a = grain_id_toString i"
    using create_shape [OF cr opts] by metis
  let ?c = "c\<lparr> ct_objects := ct_objects c @ [a], ct_activations := js_set key (length (ct_objects c)) (ct_activations c) \<rparr>"
  have inv: "activations.registered_objects X (stored_at c) (ct_objects c)" "maps_ok c" "procs_ok X c"
    using assms(1) False by (simp_all add: cat_ok_def)
  have "cat_ok X ?c"
  proof (rule cat_okI)
    show "options_ok (ct_options ?c)" using opts by simp
    have "\<not> alive (obj c j)" if "stored_at c k j" "\<not> stored_at ?c k j" for k j
      using that assms(3) by (auto simp: stored_at_def worker_list_def js_get_set split: if_splits)
    moreover have "stored_at ?c (key_of a) (length (ct_objects c))"
      using a(4) assms(2) by (simp add: stored_at_def js_get_set)
    ultimately show "activations.registered_objects X (stored_at ?c) (ct_objects ?c)"
      using activations.registered_new [OF inv(1) a(3)] by simp
    show "maps_ok ?c"
      using inv(2) a(4) assms(2) by (auto simp: maps_ok_def js_get_set nth_append split: if_splits) (meson less_SucI)+
    show "procs_ok X ?c" by (rule object_added_procs [OF inv(3)]) auto
  qed
  with False cr a(1,2) show ?thesis by (simp add: createAndStore_def)
qed

lemma not_alive_invalid: "av_state a = Invalid \<Longrightarrow> \<not> alive a"
  by (simp add: alive_def)

lemma valid_ready:
  assumes "cat_ok X c" "\<not> ct_stopping c" "i < length (ct_objects c)" "av_state (obj c i) = Valid"
  shows "object_ready X c i"
  using assms by (auto simp: cat_ok_def activations.registered_objects_def good_activation_def object_ready_def)

lemma mapped_in_range: "cat_ok X c \<Longrightarrow> \<not> ct_stopping c \<Longrightarrow> js_get (ct_activations c) k = Some i \<Longrightarrow> i < length (ct_objects c)"
  by (simp add: cat_ok_def maps_ok_def)

text \<open>Once the silo stops the invariant asks for nothing but the options, which never change.\<close>

lemma cat_ok_stopping: "options_ok (ct_options c) \<Longrightarrow> ct_stopping c \<Longrightarrow> cat_ok X c"
  by (simp add: cat_ok_def)

section \<open>Every operation\<close>

definition same_silo :: "'v catalog \<Rightarrow> 'v catalog \<Rightarrow> bool" where
  "same_silo c c' \<longleftrightarrow> ct_options c' = ct_options c \<and> ct_stopping c' = ct_stopping c
     \<and> (ct_stopping c \<longrightarrow> length (ct_objects c') = length (ct_objects c))"

lemma same_silo_basic [simp]:
  "same_silo c c" "same_silo c (go pid p c') = same_silo c c'" "same_silo c (spawn p c') = same_silo c c'"
  "same_silo c (fst (finish pid r c')) = same_silo c c'" "same_silo c (fst (answer r c')) = same_silo c c'"
  "same_silo c (activations_delete k c') = same_silo c c'" "same_silo c (store_remaining k xs c') = same_silo c c'"
  "same_silo c (workers_delete k c') = same_silo c c'" "same_silo c (maps_clear c') = same_silo c c'"
  "same_silo c (finalizeObject i c') = same_silo c c'" "same_silo c (fst (act i x c')) = same_silo c c'"
  "same_silo c (fst (startHook now i c')) = same_silo c c'"
  by (simp_all add: same_silo_def go_def spawn_def finish_def answer_def activations_delete_def store_remaining_def
      workers_delete_def workers_set_def maps_clear_def finalizeObject_def act_sel startHook_act)

lemma same_silo_create: "create now i activationId c = Inr (c', n) \<Longrightarrow> \<not> ct_stopping c \<Longrightarrow> same_silo c c'"
  by (auto simp: create_def Let_def same_silo_def split: if_splits option.splits)

lemma same_silo_store [simp]: "same_silo c (fst (createAndStore now k i activationId c))"
proof (cases "create now i activationId c")
  case (Inr r)
  then show ?thesis
    using same_silo_create [of now i activationId c "fst r" "snd r"]
    by (cases r; cases "ct_stopping c") (simp_all add: createAndStore_def same_silo_def)
qed (simp add: createAndStore_def same_silo_def)

lemma finalizeStale_eq: "finalizeStale now k i cont c =
    (spawn (FinalizeHook k i (snd (snd (startHook now i c))) cont) (fst (startHook now i c)), fst (snd (startHook now i c)))"
  by (simp add: finalizeStale_def case_prod_unfold)

lemma finalizeStale_ok:
  assumes "cat_ok X c" "\<not> ct_stopping c" "js_get (ct_activations c) k = Some i" "deactivationRequestedAndIdle (obj c i)" "cont_ok k cont"
  shows "cat_ok X (fst (finalizeStale now k i cont c))"
proof -
  have i: "i < length (ct_objects c)" using mapped_in_range assms(1-3) by blast
  have "object_ready X c i" using valid_ready [OF assms(1,2) i] assms(4) by (simp add: deactivationRequestedAndIdle_def)
  with startHook_ready [OF assms(1,2)] show ?thesis
    unfolding finalizeStale_eq fst_conv by (intro spawn_ok startHook_ok [OF assms(1) i]) (simp add: assms(5))
qed

lemma getOrActivate_ok:
  assumes "cat_ok X c" "\<not> ct_stopping c"
  shows "cat_ok X (fst (getOrActivate now i activationId c))"
proof -
  let ?k = "grain_id_toString i"
  have fresh: "cat_ok X (fst (case createAndStore now ?k i activationId c of (c', r) \<Rightarrow> answer r c'))"
    if "\<And>j. js_get (ct_activations c) ?k = Some j \<Longrightarrow> av_state (obj c j) = Invalid"
    using createAndStore_ok [OF assms(1) refl not_alive_invalid [OF that], where now = now and activationId = activationId]
    by (simp add: case_prod_unfold answer_ok)
  show ?thesis
    using assms finalizeStale_ok [OF assms] answer_ok [OF assms(1)] fresh
    by (auto simp: getOrActivate_def Let_def split: option.splits)
qed

lemma resolveLive_ok:
  assumes "cat_ok X c" "\<not> ct_stopping c"
  shows "cat_ok X (fst (resolveLive now i c))"
  using assms finalizeStale_ok [OF assms] answer_ok [OF assms(1)]
  by (auto simp: resolveLive_def Let_def split: option.splits)

lemma afterFinalize_ok:
  assumes "cat_ok X c" "cont_ok key cont"
  shows "cat_ok X (fst (afterFinalize now pid key cont c))"
proof (cases cont)
  case (ThenCreate i activationId)
  have fresh: "cat_ok X (fst (case createAndStore now key i activationId c of (c', r) \<Rightarrow> finish pid r c'))"
    if "\<And>j. js_get (ct_activations c) key = Some j \<Longrightarrow> av_state (obj c j) = Invalid"
    using createAndStore_ok [OF assms(1) _ not_alive_invalid [OF that], where now = now and activationId = activationId and i = i] assms(2) ThenCreate
    by (simp add: case_prod_unfold finish_ok)
  then show ?thesis
    using ThenCreate finish_ok [OF assms(1)]
    by (auto simp: afterFinalize_def Let_def split: option.splits)
qed (simp add: afterFinalize_def finish_ok [OF assms(1)])

lemma finalizeResume_ok:
  assumes "cat_ok X c" "\<not> ct_stopping c" "object_ready X c i" "cont_ok key cont"
  shows "cat_ok X (fst (finalizeResume now pid key i cont c))"
proof -
  let ?c = "finalizeObject i c" and ?d = "activations_delete key (finalizeObject i c)"
  have c: "cat_ok X ?c" using assms(3) by (intro finalize_ok [OF assms(1)]) simp
  have "\<not> alive (obj ?c i)" using assms(3) by (simp add: finalizeObject_def object_ready_def not_alive_invalid)
  then have d: "cat_ok X ?d" if "js_get (ct_activations ?c) key = Some i" using activations_delete_ok [OF c that] by simp
  show ?thesis
    using afterFinalize_ok [OF c assms(4)] afterFinalize_ok [OF d assms(4)] go_ok [OF d] assms(4)
    by (simp add: finalizeResume_def Let_def case_prod_unfold)
qed

lemma collectOne_ok:
  assumes "cat_ok X c" "\<not> ct_stopping c" "i < length (ct_objects c)" "place_ok c place"
  shows "cat_ok X (fst (collectOne now pid age passed pw place i c))"
proof (cases "isStale now age (obj c i)")
  case False
  then show ?thesis using assms(4) by (simp add: collectOne_def go_ok [OF assms(1)])
next
  case True
  then have "object_ready X c i" using valid_ready [OF assms(1-3)] by (auto simp: isStale_def split: if_splits)
  then have ready: "object_ready X (fst (startHook now i c)) i" by (rule startHook_ready [OF assms(1,2)])
  have "place_ok (fst (startHook now i c)) place"
    using assms(4) act_sel(4) [of c i "activation_step (obj c i) (DoRunHook now)"]
    by (cases place) (simp_all add: startHook_act del: activation_step.simps)
  with ready True show ?thesis
    by (simp add: collectOne_def Let_def case_prod_unfold go_ok [OF startHook_ok [OF assms(1,3)]])
qed

lemma workers_delete_empty_ok:
  assumes "cat_ok X c" "worker_list c k = []"
  shows "cat_ok X (workers_delete k c)"
  using store_remaining_ok [OF assms(1), of "[]" k] assms(2) by (simp add: store_remaining_def)

lemma disposeCollected_ok:
  "cat_ok X c \<Longrightarrow> (\<not> ct_stopping c \<Longrightarrow> proc_ok X c p \<and> proc_ok X c q) \<Longrightarrow> cat_ok X (fst (disposeCollected pid i p q c))"
  by (simp add: disposeCollected_def go_ok)

lemma sweepResume_ok:
  assumes "cat_ok X c" "\<not> ct_stopping c" "proc_ok X c (Sweep age passed pw stage)"
  shows "cat_ok X (fst (sweepResume now pid ok age passed pw stage c))"
proof -
  have maps: "maps_ok c" using assms(1,2) by (simp add: cat_ok_def)
  then have wf: "js_wf (ct_activations c)" "js_wf (ct_workerActivations c)" by (simp_all add: maps_ok_def)
  show ?thesis
  proof (cases stage)
    case NextEntry
    show ?thesis
    proof (cases "find (\<lambda>(key, i). key \<notin> set passed) (ct_activations c)")
      case None
      with NextEntry show ?thesis by (simp add: go_ok [OF assms(1)])
    next
      case (Some e)
      obtain k i where e: "e = (k, i)" by (cases e)
      then have "js_get (ct_activations c) k = Some i" using find_mem [OF Some] js_get_mem [OF wf(1)] by auto
      then have "i < length (ct_objects c)" using mapped_in_range [OF assms(1,2)] by blast
      with NextEntry Some e show ?thesis by (simp add: collectOne_ok [OF assms(1,2)])
    qed
  next
    case (CollectHook place i migrating waits)
    with assms(3) have r: "object_ready X c i" "place_ok c place" by simp_all
    moreover have "place_ok (finalizeObject i c) place" using r(2) by (cases place) (simp_all add: finalizeObject_def)
    ultimately show ?thesis
      using CollectHook assms(1) go_ok [OF assms(1)] go_ok [OF finalize_ok [OF assms(1)]] by simp
  next
    case (CollectMigrate place i)
    with assms(3) have r: "object_ready X c i" "place_ok c place" by simp_all
    moreover have "place_ok (finalizeObject i c) place" using r(2) by (cases place) (simp_all add: finalizeObject_def)
    ultimately show ?thesis
      using CollectMigrate finish_ok [OF assms(1)] go_ok [OF finalize_ok [OF assms(1)]] by simp
  next
    case (CollectDone place i)
    show ?thesis
    proof (cases place)
      case (AtEntry key)
      let ?c = "if js_get (ct_activations c) key = Some i then activations_delete key c else c"
      have "cat_ok X ?c" if "av_state (obj c i) = Invalid"
        using activations_delete_ok [OF assms(1)] assms(1) not_alive_invalid [OF that] by auto
      then show ?thesis
        using CollectDone AtEntry go_ok [OF assms(1)] by (auto simp: Let_def intro!: go_ok disposeCollected_ok)
    next
      case (AtItem key arr n)
      have arr: "arr < length (ct_arrays c)" using assms(3) CollectDone AtItem by simp
      have item: "ct_arrays c ! arr ! Suc n < length (ct_objects c)" if "Suc n < length (ct_arrays c ! arr)"
        using array_in_range [OF maps arr] that by simp
      let ?remaining = "filter (\<lambda>a. av_state (obj c a) \<noteq> Invalid) (worker_list c key)"
      have "cat_ok X (store_remaining key ?remaining c)"
        by (rule store_remaining_ok [OF assms(1)]) (auto simp: not_alive_invalid)
      then show ?thesis
        using CollectDone AtItem item arr collectOne_ok [OF assms(1,2)] by (simp add: Let_def go_ok)
    qed
  next
    case NextWorkers
    show ?thesis
    proof (cases "find (\<lambda>(key, arr). key \<notin> set pw) (ct_workerActivations c)")
      case None
      with NextWorkers show ?thesis by (simp add: finish_ok [OF assms(1)])
    next
      case (Some e)
      obtain k arr where e: "e = (k, arr)" by (cases e)
      then have get: "js_get (ct_workerActivations c) k = Some arr" using find_mem [OF Some] js_get_mem [OF wf(2)] by auto
      then have arr: "arr < length (ct_arrays c)" using maps by (simp add: maps_ok_def)
      show ?thesis
      proof (cases "ct_arrays c ! arr")
        case Nil
        then have "cat_ok X (workers_delete k c)" using get by (intro workers_delete_empty_ok [OF assms(1)]) (simp add: worker_list_def)
        with NextWorkers Some e Nil show ?thesis by (simp add: go_ok)
      next
        case (Cons i rest)
        then have "i < length (ct_objects c)" using array_in_range [OF maps arr] by simp
        with NextWorkers Some e Cons arr show ?thesis by (simp add: collectOne_ok [OF assms(1,2)])
      qed
    qed
  next
    case (DisposeWorkers xs)
    then show ?thesis by (cases xs) (simp_all add: go_ok [OF assms(1)] disposeCollected_ok [OF assms(1)])
  qed (simp_all add: go_ok [OF assms(1)])
qed

text \<open>Stateless workers.\<close>

lemma with_array_ok:
  assumes "cat_ok X c" "\<not> ct_stopping c" "js_get (ct_workerActivations c) k = Some arr"
    and "set xs \<subseteq> set (ct_arrays c ! arr)" "length xs \<le> length (ct_arrays c ! arr)"
    and "\<And>i. i \<in> set (ct_arrays c ! arr) \<Longrightarrow> i \<notin> set xs \<Longrightarrow> \<not> alive (obj c i)"
  shows "cat_ok X (with_array arr xs c)"
proof (rule cat_okI)
  let ?c = "with_array arr xs c"
  have inv: "options_ok (ct_options c)" "activations.registered_objects X (stored_at c) (ct_objects c)" "maps_ok c" "procs_ok X c"
    using assms(1,2) by (simp_all add: cat_ok_def)
  have arr: "arr < length (ct_arrays c)" using inv(3) assms(3) by (simp add: maps_ok_def)
  have sel: "ct_options ?c = ct_options c" "ct_objects ?c = ct_objects c" "ct_activations ?c = ct_activations c"
    "ct_workerActivations ?c = ct_workerActivations c" "ct_arrays ?c = (ct_arrays c)[arr := xs]" "ct_procs ?c = ct_procs c"
    "ct_stopping ?c = ct_stopping c" by (simp_all add: with_array_def)
  show "options_ok (ct_options ?c)" using inv(1) by (simp add: sel)
  have wl: "worker_list ?c k' = (if k' = k then xs else worker_list c k')" for k'
    using inv(3) assms(3) arr by (auto simp: worker_list_def sel nth_list_update maps_ok_def split: option.splits)
  have "worker_list c k = ct_arrays c ! arr" using assms(3) by (simp add: worker_list_def)
  then have "\<not> alive (obj c j)" if "stored_at c k' j" "\<not> stored_at ?c k' j" for k' j
    using that assms(6) by (auto simp: stored_at_def wl sel split: if_splits)
  then show "activations.registered_objects X (stored_at ?c) (ct_objects ?c)"
    using activations.registered_drop [OF inv(2), of "stored_at ?c"] by (simp add: sel)
  have range: "\<forall>i \<in> set xs. i < length (ct_objects c)" using array_in_range [OF inv(3) arr] assms(4) by blast
  have range': "i < length (ct_objects c)" if "ys \<in> set ((ct_arrays c)[arr := xs])" "i \<in> set ys" for ys i
    using that set_update_subset_insert [of "ct_arrays c" arr xs] range inv(3) unfolding maps_ok_def by blast
  have len: "length ((ct_arrays c)[arr := xs] ! a) \<le> length (ct_arrays c ! a)" for a
    using assms(5) arr by (cases "a = arr") auto
  have workers: "arr' < length (ct_arrays c) \<and> (\<exists>m. maxLocalWorkersFor (ct_options c) (type_part k') = Some m
      \<and> length ((ct_arrays c)[arr := xs] ! arr') \<le> m)" if "js_get (ct_workerActivations c) k' = Some arr'" for k' arr'
    using inv(3) that order_trans [OF len [of arr']] unfolding maps_ok_def by blast
  show "maps_ok ?c"
    using inv(3) range' workers unfolding maps_ok_def sel by auto
  show "procs_ok X ?c"
    unfolding procs_ok_def
  proof (intro allI impI)
    fix pid p assume "js_get (ct_procs ?c) pid = Some p"
    then have "proc_ok X c p" using inv(4) by (simp add: procs_ok_def sel)
    then show "proc_ok X ?c p" by (rule proc_ok_cong [rotated -1]) (auto simp: sel)
  qed
qed

lemma workers_set_empty_ok:
  assumes "cat_ok X c" "js_get (ct_workerActivations c) k = None" "maxLocalWorkersFor (ct_options c) (type_part k) = Some m"
  shows "cat_ok X (workers_set k [] c)"
proof (rule cat_okI)
  let ?c = "workers_set k [] c"
  show "options_ok (ct_options ?c)" using assms(1) by (simp add: cat_ok_def workers_set_def)
  assume "\<not> ct_stopping ?c"
  then have inv: "activations.registered_objects X (stored_at c) (ct_objects c)" "maps_ok c" "procs_ok X c"
    using assms(1) by (simp_all add: cat_ok_def workers_set_def)
  have "worker_list ?c k' = worker_list c k'" for k'
    using inv(2) assms(2) by (auto simp: worker_list_def workers_set_def js_get_set nth_append maps_ok_def split: option.splits)
  then have "stored_at ?c = stored_at c" by (intro ext) (simp add: stored_at_def workers_set_def)
  then show "activations.registered_objects X (stored_at ?c) (ct_objects ?c)" using inv(1) by (simp add: workers_set_def)
  have "arr' \<noteq> length (ct_arrays c)" if "js_get (ct_workerActivations c) k' = Some arr'" for k' arr'
    using inv(2) that by (auto simp: maps_ok_def)
  with inv(2) assms(3) show "maps_ok ?c"
    unfolding maps_ok_def workers_set_def by (auto simp: js_get_set nth_append less_Suc_eq split: if_splits)
  show "procs_ok X ?c"
    unfolding procs_ok_def
  proof (intro allI impI)
    fix pid p assume "js_get (ct_procs ?c) pid = Some p"
    then have "proc_ok X c p" using inv(3) by (simp add: procs_ok_def workers_set_def)
    then show "proc_ok X ?c p" by (rule proc_ok_cong [rotated -1]) (auto simp: workers_set_def)
  qed
qed

text \<open>A worker is created and pushed on the array of its key.\<close>

lemma push_worker_ok:
  assumes "cat_ok X c" "\<not> ct_stopping c" "create now i activationId c = Inr (c', n)" "k = grain_id_toString i"
    and "js_get (ct_workerActivations c) k = Some arr" "length (ct_arrays c ! arr) < m"
    and "maxLocalWorkersFor (ct_options c) (gtype i) = Some m"
  shows "cat_ok X (with_array arr (ct_arrays c ! arr @ [n]) c')"
proof (rule cat_okI)
  let ?c = "with_array arr (ct_arrays c ! arr @ [n]) c'"
  have inv: "options_ok (ct_options c)" "activations.registered_objects X (stored_at c) (ct_objects c)" "maps_ok c" "procs_ok X c"
    using assms(1,2) by (simp_all add: cat_ok_def)
  obtain a where a: "c' = c\<lparr> ct_objects := ct_objects c @ [a] \<rparr>" "n = length (ct_objects c)" "good_activation a"
    "key_of a = grain_id_toString i" "type_part (grain_id_toString i) = gtype i"
    using create_shape [OF assms(3) inv(1)] by metis
  have arr: "arr < length (ct_arrays c)" using inv(3) assms(5) by (simp add: maps_ok_def)
  have sel: "ct_options ?c = ct_options c" "ct_objects ?c = ct_objects c @ [a]" "ct_activations ?c = ct_activations c"
    "ct_workerActivations ?c = ct_workerActivations c" "ct_arrays ?c = (ct_arrays c)[arr := ct_arrays c ! arr @ [n]]"
    "ct_procs ?c = ct_procs c" "ct_stopping ?c = ct_stopping c" by (simp_all add: with_array_def a(1))
  show "options_ok (ct_options ?c)" using inv(1) by (simp add: sel)
  have wl: "worker_list ?c k' = (if k' = k then worker_list c k @ [n] else worker_list c k')" for k'
    using inv(3) assms(5) arr by (auto simp: worker_list_def sel nth_list_update maps_ok_def split: option.splits)
  have "stored_at ?c k n" by (simp add: stored_at_def wl)
  then have "stored_at ?c (key_of a) (length (ct_objects c))" unfolding a(4) assms(4) [symmetric] a(2) [symmetric] .
  moreover have "\<not> alive (obj c j)" if "stored_at c k' j" "\<not> stored_at ?c k' j" for k' j
    using that by (auto simp: stored_at_def wl sel split: if_splits)
  ultimately show "activations.registered_objects X (stored_at ?c) (ct_objects ?c)"
    using activations.registered_new [OF inv(2) a(3)] by (simp add: sel)
  have range: "\<forall>j \<in> set (ct_arrays c ! arr @ [n]). j < Suc (length (ct_objects c))"
    using array_in_range [OF inv(3) arr] a(2) by (auto intro: less_SucI)
  have range': "j < Suc (length (ct_objects c))" if "ys \<in> set ((ct_arrays c)[arr := ct_arrays c ! arr @ [n]])" "j \<in> set ys" for ys j
  proof -
    have "ys = ct_arrays c ! arr @ [n] \<or> ys \<in> set (ct_arrays c)"
      using that(1) set_update_subset_insert [of "ct_arrays c" arr "ct_arrays c ! arr @ [n]"] by blast
    then show ?thesis
    proof
      assume "ys = ct_arrays c ! arr @ [n]"
      then show ?thesis using range that(2) by blast
    next
      assume "ys \<in> set (ct_arrays c)"
      then have "j < length (ct_objects c)" using inv(3) that(2) unfolding maps_ok_def by blast
      then show ?thesis by simp
    qed
  qed
  have own: "k' = k" if "js_get (ct_workerActivations c) k' = Some arr" for k'
    using inv(3) that assms(5) unfolding maps_ok_def by blast
  have workers: "arr' < length (ct_arrays c) \<and> (\<exists>m. maxLocalWorkersFor (ct_options c) (type_part k') = Some m
      \<and> length ((ct_arrays c)[arr := ct_arrays c ! arr @ [n]] ! arr') \<le> m)" if "js_get (ct_workerActivations c) k' = Some arr'" for k' arr'
  proof (cases "arr' = arr")
    case True
    with own [of k'] that assms(4,6,7) a(5) arr show ?thesis by auto
  next
    case False
    with inv(3) that show ?thesis by (simp add: maps_ok_def)
  qed
  have acts: "j < Suc (length (ct_objects c)) \<and> key_of ((ct_objects c @ [a]) ! j) = k'"
    if "js_get (ct_activations c) k' = Some j" for k' j
  proof -
    have "j < length (ct_objects c) \<and> key_of (obj c j) = k'" using inv(3) that unfolding maps_ok_def by blast
    then show ?thesis by (simp add: nth_append)
  qed
  have wf: "js_wf (ct_activations c)" "js_wf (ct_workerActivations c)"
    and inj: "\<forall>k k' arr. js_get (ct_workerActivations c) k = Some arr \<and> js_get (ct_workerActivations c) k' = Some arr \<longrightarrow> k = k'"
    using inv(3) by (simp_all add: maps_ok_def)
  show "maps_ok ?c"
    unfolding maps_ok_def sel length_list_update length_append
    using acts workers inj range' wf by simp
  show "procs_ok X ?c" by (rule object_added_procs [OF inv(4)]) (simp_all add: sel)
qed

text \<open>\<open>pickOrScaleWorker\<close> leaves the pruned catalog or adds one worker to it.\<close>

lemma pick_cases:
  assumes "maxLocalWorkersFor (ct_options c) (gtype i) = Some m" "prunedWorkers (grain_id_toString i) c = (c2, arr, xs)"
  obtains (same) "fst (pickOrScaleWorker now i activationId c) = c2"
    | (grown) c3 n where "fst (pickOrScaleWorker now i activationId c) = with_array arr (xs @ [n]) c3"
        "create now i activationId c2 = Inr (c3, n)" "length xs < m" "\<not> ct_stopping c2"
proof (cases "find (\<lambda>a. \<not> sc_busy (av_scheduler (obj c2 a))) xs = None \<and> length xs < m \<and> \<not> ct_stopping c2
    \<and> (\<exists>r. create now i activationId c2 = Inr r)")
  case True
  then obtain c3 n where "create now i activationId c2 = Inr (c3, n)" by auto
  with True assms show thesis by (intro grown [of n c3]) (simp_all add: pickOrScaleWorker_def)
next
  case False
  then show thesis
    using assms by (intro same) (auto simp: pickOrScaleWorker_def split: option.splits sum.splits list.splits)
qed

lemma pruned_ok:
  assumes "cat_ok X c" "\<not> ct_stopping c" "maxLocalWorkersFor (ct_options c) (type_part k) = Some m" "prunedWorkers k c = (c2, arr, xs)"
  shows "cat_ok X c2" "\<not> ct_stopping c2" "ct_options c2 = ct_options c" "js_get (ct_workerActivations c2) k = Some arr"
    "ct_arrays c2 ! arr = xs"
proof -
  define c1 where "c1 = (if js_has (ct_workerActivations c) k then c else workers_set k [] c)"
  have arr: "arr = the (js_get (ct_workerActivations c1) k)"
    and xs: "xs = filter (\<lambda>a. av_state (obj c1 a) \<noteq> Invalid) (ct_arrays c1 ! arr)" and c2: "c2 = with_array arr xs c1"
    using assms(4) by (auto simp: prunedWorkers_def Let_def c1_def)
  have c1: "cat_ok X c1" "\<not> ct_stopping c1" "ct_options c1 = ct_options c"
    using assms workers_set_empty_ok [OF assms(1) _ assms(3)] by (auto simp: c1_def workers_set_def)
  have get1: "js_get (ct_workerActivations c1) k = Some arr" by (auto simp: c1_def arr workers_set_def js_get_set)
  have len: "arr < length (ct_arrays c1)" using c1(1,2) get1 by (simp add: cat_ok_def maps_ok_def)
  show "cat_ok X c2"
    unfolding c2 by (rule with_array_ok [OF c1(1,2) get1]) (auto simp: xs not_alive_invalid)
  show "\<not> ct_stopping c2" "ct_options c2 = ct_options c" "js_get (ct_workerActivations c2) k = Some arr" "ct_arrays c2 ! arr = xs"
    using c1(2,3) get1 len by (simp_all add: c2 with_array_def)
qed

lemma pickOrScaleWorker_ok:
  assumes "cat_ok X c" "\<not> ct_stopping c"
  shows "cat_ok X (fst (pickOrScaleWorker now i activationId c))"
proof (cases "maxLocalWorkersFor (ct_options c) (gtype i)")
  case None
  with assms(1) show ?thesis by (simp add: pickOrScaleWorker_def)
next
  case (Some m)
  obtain c2 arr xs where pr: "prunedWorkers (grain_id_toString i) c = (c2, arr, xs)" by (cases "prunedWorkers (grain_id_toString i) c") auto
  have "js_has (co_grainTypes (ct_options c)) (gtype i)" using Some by (auto simp: maxLocalWorkersFor_def split: option.splits)
  moreover have "options_ok (ct_options c)" using assms(1) by (simp add: cat_ok_def)
  ultimately have "type_part (grain_id_toString i) = gtype i" by (intro type_part_key)
  with Some have m: "maxLocalWorkersFor (ct_options c) (type_part (grain_id_toString i)) = Some m" by simp
  note ok = pruned_ok [OF assms m pr]
  show ?thesis
  proof (cases rule: pick_cases [OF Some pr, of now activationId, case_names same grown])
    case same
    with ok(1) show ?thesis by simp
  next
    case (grown c3 n)
    then show ?thesis using push_worker_ok [OF ok(1,2) grown(2) refl ok(4), of m] ok(3,5) Some by simp
  qed
qed

lemma deactivateObject_eq: "deactivateObject now i c =
    (spawn (DeactivateOne i (snd (snd (startHook now i c)))) (fst (startHook now i c)), fst (snd (startHook now i c)))"
  by (simp add: deactivateObject_def case_prod_unfold)

lemma deactivateObject_ok:
  assumes "cat_ok X c" "\<not> ct_stopping c" "object_ready X c i"
  shows "cat_ok X (fst (deactivateObject now i c))"
proof -
  have "i < length (ct_objects c)" using assms(3) by (simp add: object_ready_def)
  with startHook_ready [OF assms] show ?thesis
    unfolding deactivateObject_eq fst_conv by (intro spawn_ok startHook_ok [OF assms(1)]) simp_all
qed

lemma resume_ok:
  assumes "cat_ok X c" "\<not> ct_stopping c"
  shows "cat_ok X (fst (resume now pid ok c))"
proof (cases "js_get (ct_procs c) pid")
  case None
  with assms(1) show ?thesis by (simp add: resume_def)
next
  case (Some p)
  then have p: "proc_ok X c p" using assms by (simp add: cat_ok_def procs_ok_def)
  show ?thesis
  proof (cases p)
    case (FinalizeHook key i waits cont)
    with Some p assms show ?thesis by (simp add: resume_def finalizeResume_ok)
  next
    case (FinalizeDispose key i cont)
    with Some p assms(1) show ?thesis by (simp add: resume_def afterFinalize_ok finish_ok case_prod_unfold)
  next
    case (Sweep age passed pw stage)
    with Some p assms show ?thesis by (simp add: resume_def sweepResume_ok)
  next
    case (DeactivateOne i waits)
    with Some p assms(1) show ?thesis by (simp add: resume_def finish_ok finalize_ok)
  qed (use p assms(2) in simp_all)
qed

section \<open>Runs\<close>

text \<open>A deactivation can be started from outside the catalog, by the loser of a migration or after one. On an
  activation whose activation turn is not over it is early: the activation may be finalized and then revived by the
  end of that turn. \<open>silo_run\<close> takes every operation and keeps the activations that were deactivated early;
  \<open>catalog_run\<close> has none.\<close>

fun early :: "'v catalog \<Rightarrow> 'v catalog_op \<Rightarrow> nat set" where
  "early c (Deactivate now i) = (if i < length (ct_objects c) \<and> \<not> activated (obj c i) then {i} else {})"
| "early c (ActivationStep i DoFinalize) = (if i < length (ct_objects c) \<and> \<not> activated (obj c i) then {i} else {})"
| "early c op = {}"

inductive silo_run :: "catalog_options \<Rightarrow> 'v catalog \<Rightarrow> nat set \<Rightarrow> catalog_event list \<Rightarrow> bool" for opts where
  start: "silo_run opts (newCatalog opts) {} []"
| step: "silo_run opts c X log \<Longrightarrow> catalog_step c op = (c', evs) \<Longrightarrow> silo_run opts c' (X \<union> early c op) (log @ evs)"

fun orderly :: "'v catalog \<Rightarrow> 'v catalog_op \<Rightarrow> bool" where
  "orderly c (Deactivate now i) = (ct_stopping c \<or> object_ready {} c i)"
| "orderly c (ActivationStep i DoFinalize) = False"
| "orderly c op = True"

inductive catalog_run :: "catalog_options \<Rightarrow> 'v catalog \<Rightarrow> catalog_event list \<Rightarrow> bool" for opts where
  start: "catalog_run opts (newCatalog opts) []"
| step: "catalog_run opts c log \<Longrightarrow> orderly c op \<Longrightarrow> catalog_step c op = (c', evs) \<Longrightarrow> catalog_run opts c' (log @ evs)"

lemma same_silo_trans: "same_silo c c' \<Longrightarrow> same_silo c' c'' \<Longrightarrow> same_silo c c''"
  by (simp add: same_silo_def)

lemma same_silo_pick: "same_silo c (fst (pickOrScaleWorker now i activationId c))"
proof (cases "maxLocalWorkersFor (ct_options c) (gtype i)")
  case None
  then show ?thesis by (simp add: pickOrScaleWorker_def)
next
  case (Some m)
  obtain c2 arr xs where pr: "prunedWorkers (grain_id_toString i) c = (c2, arr, xs)" by (cases "prunedWorkers (grain_id_toString i) c") auto
  then have c2: "same_silo c c2"
    by (cases "js_has (ct_workerActivations c) (grain_id_toString i)")
       (auto simp: prunedWorkers_def Let_def same_silo_def with_array_def workers_set_def)
  show ?thesis
  proof (cases rule: pick_cases [OF Some pr, of now activationId, case_names same grown])
    case same
    with c2 show ?thesis by simp
  next
    case (grown c3 n)
    then show ?thesis using same_silo_trans [OF c2 same_silo_create [OF grown(2,4)]] by (simp add: same_silo_def with_array_def)
  qed
qed

lemma same_silo_after: "same_silo c (fst (afterFinalize now pid key cont c'))" if "same_silo c c'"
proof -
  have "same_silo c (fst (createAndStore now key i activationId c'))" for i activationId
    using same_silo_trans [OF that same_silo_store] .
  then show ?thesis
    using that by (cases cont) (auto simp: afterFinalize_def Let_def case_prod_unfold split: option.splits)
qed

lemma same_silo_collect [simp]: "same_silo c (fst (collectOne now pid age passed pw place i c'))" if "same_silo c c'"
  using that by (simp add: collectOne_def Let_def case_prod_unfold)

lemma same_silo_sweep: "same_silo c (fst (sweepResume now pid ok age passed pw stage c))"
proof (cases stage)
  case (CollectDone place i)
  then show ?thesis by (cases place) (auto simp: Let_def disposeCollected_def)
next
  case (DisposeWorkers xs)
  then show ?thesis by (cases xs) (auto simp: disposeCollected_def)
qed (auto simp: case_prod_unfold split: option.splits list.splits)

lemma same_silo_resume: "same_silo c (fst (resume now pid ok c))"
proof (cases "js_get (ct_procs c) pid")
  case (Some p)
  have fin: "same_silo c (fst (finalizeResume now pid key i cont c))" for key i cont
    by (simp add: finalizeResume_def Let_def case_prod_unfold same_silo_after)
  have stop: "same_silo c (fst (stopResume pid all c))" for all
    by (cases all) (simp_all add: stopResume_def)
  show ?thesis
    using Some fin stop by (cases p) (simp_all add: resume_def same_silo_sweep same_silo_after case_prod_unfold)
qed (simp add: resume_def)

lemma same_silo_each: "same_silo c (fst (deactivateEach now is c))"
proof (induction "is" arbitrary: c)
  case (Cons i "is")
  have "same_silo c (fst (deactivateObject now i c))" by (simp add: deactivateObject_eq)
  from same_silo_trans [OF this Cons.IH] show ?case by (simp add: case_prod_unfold)
qed simp

lemma catalog_step_same:
  "same_silo c (fst (catalog_step c op)) \<or> (\<exists>now d. op = DeactivateAll now d)"
  using same_silo_resume [of c] same_silo_pick [of c] same_silo_trans [of c, OF same_silo_store]
  by (cases op) (auto simp: catalog_step_def getOrActivate_def resolveLive_def finalizeStale_eq Let_def case_prod_unfold
      collectIdle_def deactivateObject_eq same_silo_def [of c "c\<lparr> ct_setupDepth := _ \<rparr>"] split: option.splits)

lemma deactivateAll_same: "same_silo (c\<lparr> ct_stopping := True \<rparr>) (fst (deactivateAll now d c))"
  using same_silo_each [of "c\<lparr> ct_stopping := True \<rparr>" now] by (simp add: deactivateAll_def Let_def case_prod_unfold)

lemma stopping_stays:
  "ct_options (fst (catalog_step c op)) = ct_options c" "ct_stopping c \<Longrightarrow> ct_stopping (fst (catalog_step c op))"
  "ct_stopping c \<Longrightarrow> length (ct_objects (fst (catalog_step c op))) = length (ct_objects c)"
  using catalog_step_same [of c op] deactivateAll_same [of c] by (auto simp: same_silo_def catalog_step_def)

lemma proc_ok_mono: "proc_ok X c p \<Longrightarrow> X \<subseteq> Y \<Longrightarrow> proc_ok Y c p"
  by (induction X c p rule: proc_ok.induct) (auto simp: object_ready_def)

lemma cat_ok_mono: "cat_ok X c \<Longrightarrow> X \<subseteq> Y \<Longrightarrow> cat_ok Y c"
  using activations.registered_mono [of X "stored_at c" "ct_objects c" Y] proc_ok_mono [of X c _ Y]
  by (auto simp: cat_ok_def procs_ok_def)

lemma catalog_step_ok:
  assumes "cat_ok X c" "ct_stopping c \<or> early c op \<subseteq> X"
  shows "cat_ok X (fst (catalog_step c op))"
proof (cases "ct_stopping c \<or> (\<exists>now d. op = DeactivateAll now d)")
  case True
  have "ct_stopping (fst (deactivateAll now d c))" for now d
    using deactivateAll_same [of c now d] by (simp add: same_silo_def)
  then have "ct_stopping (fst (catalog_step c op))" using True stopping_stays(2) [of c op] by (auto simp: catalog_step_def)
  with assms(1) show ?thesis by (intro cat_ok_stopping) (simp_all add: stopping_stays(1) cat_ok_def)
next
  case False
  then have run: "\<not> ct_stopping c" by simp
  have depth: "cat_ok X (c\<lparr> ct_setupDepth := n \<rparr>)" for n
    by (rule cat_ok_procs [OF assms(1)]) (auto intro!: procs_ok_update [of X c])
  have step: "cat_ok X (fst (act i (activation_step (obj c i) aop) c))"
    if "i < length (ct_objects c)" "op = ActivationStep i aop" for i aop
    using that assms(2) run by (intro act_ok [OF assms(1)]) (auto simp: finish_allowed_def split: if_splits)
  have out: "object_ready X c i" if "i < length (ct_objects c)" "op = Deactivate now i" for now i
    using that assms(2) run by (auto simp: object_ready_def split: if_splits)
  from False assms(1) run depth step out show ?thesis
    by (cases op) (simp_all add: catalog_step_def getOrActivate_ok resolveLive_ok pickOrScaleWorker_ok answer_ok
        case_prod_unfold collectIdle_def spawn_ok deactivateObject_ok resume_ok)
qed

lemma new_ok: "options_ok opts \<Longrightarrow> cat_ok X (newCatalog opts)"
  by (simp add: cat_ok_def newCatalog_def activations.registered_objects_def maps_ok_def procs_ok_def)

lemma silo_run_ok: "silo_run opts c X log \<Longrightarrow> options_ok opts \<Longrightarrow> cat_ok X c \<and> ct_options c = opts"
proof (induction rule: silo_run.induct)
  case start
  then show ?case by (intro conjI new_ok) (simp_all add: newCatalog_def)
next
  case (step c X log op c' evs)
  then have "cat_ok (X \<union> early c op) c" "ct_options c = opts" using cat_ok_mono [of X c] by auto
  with step.hyps(2) show ?case
    using catalog_step_ok [of "X \<union> early c op" c op] stopping_stays(1) [of c op] by simp
qed



section \<open>What the invariant gives\<close>

fun run_catalog :: "'v catalog \<Rightarrow> 'v catalog_op list \<Rightarrow> 'v catalog \<times> catalog_event list" where
  "run_catalog c [] = (c, [])"
| "run_catalog c (op # ops) =
     (case catalog_step c op of (c', evs) \<Rightarrow> case run_catalog c' ops of (c'', evs') \<Rightarrow> (c'', evs @ evs'))"

lemma live_stored:
  "cat_ok X c \<Longrightarrow> \<not> ct_stopping c \<Longrightarrow> i < length (ct_objects c) \<Longrightarrow> i \<notin> X \<Longrightarrow> alive (obj c i) \<Longrightarrow> stored_at c (key_of (obj c i)) i"
  by (simp add: cat_ok_def activations.registered_objects_def)

lemma worker_list_bound:
  assumes "cat_ok X c" "\<not> ct_stopping c"
  shows "worker_list c k = [] \<or> (\<exists>m. maxLocalWorkersFor (ct_options c) (type_part k) = Some m \<and> length (worker_list c k) \<le> m)"
proof (cases "js_get (ct_workerActivations c) k")
  case (Some arr)
  moreover have "maps_ok c" using assms by (simp add: cat_ok_def)
  ultimately show ?thesis unfolding maps_ok_def by (simp add: worker_list_def)
qed (simp add: worker_list_def)

text \<open>C2: Single activation. While the silo runs, in every run of the catalog (lookups, sweeps, stuck removals and
  deactivations interleaved anyhow, the deactivation of an incoming migration that lost its registration included),
  a live activation of a grain that is not a stateless worker, unless it was deactivated from outside before its own
  activation turn was over, is the entry of its key in \<open>activations\<close>, and every other live activation of that key was
  deactivated in that way. The exception is real: such an activation can be finalized, replaced, and set valid again
  when its activation turn ends (\<open>finalized_activation_revived\<close> below).\<close>

theorem single_activation:
  assumes "silo_run opts c X log" "options_ok opts" "\<not> ct_stopping c" "i < length (ct_objects c)" "alive (obj c i)" "i \<notin> X"
    and "maxLocalWorkersFor opts (type_part (key_of (obj c i))) = None"
  shows "js_get (ct_activations c) (key_of (obj c i)) = Some i
    \<and> (\<forall>j < length (ct_objects c). alive (obj c j) \<and> key_of (obj c j) = key_of (obj c i) \<longrightarrow> j = i \<or> j \<in> X)"
proof -
  have ok: "cat_ok X c" "ct_options c = opts" using silo_run_ok [OF assms(1,2)] by auto
  let ?k = "key_of (obj c i)"
  have none: "worker_list c ?k = []"
    using worker_list_bound [OF ok(1) assms(3), of ?k] assms(7) ok(2) by auto
  have entry: "js_get (ct_activations c) ?k = Some j"
    if "j < length (ct_objects c)" "alive (obj c j)" "key_of (obj c j) = ?k" "j \<notin> X" for j
    using live_stored [OF ok(1) assms(3) that(1,4,2)] none that(3) by (simp add: stored_at_def)
  note this [OF assms(4,5) refl assms(6)]
  moreover have "j = i" if "j < length (ct_objects c)" "alive (obj c j)" "key_of (obj c j) = ?k" "j \<notin> X" for j
    using entry [OF that] calculation by simp
  ultimately show ?thesis by blast
qed


text \<open>C27: a stopping silo creates nothing and stays stopping, whatever is called and whatever still runs.\<close>

theorem stopping_creates_nothing:
  assumes "ct_stopping c"
  shows "ct_stopping (fst (run_catalog c ops)) \<and> length (ct_objects (fst (run_catalog c ops))) = length (ct_objects c)"
  using assms by (induction ops arbitrary: c) (simp_all add: case_prod_unfold stopping_stays)

section \<open>Concrete runs\<close>

fun orderly_run :: "'v catalog \<Rightarrow> 'v catalog_op list \<Rightarrow> bool" where
  "orderly_run c [] = True"
| "orderly_run c (op # ops) = (orderly c op \<and> orderly_run (fst (catalog_step c op)) ops)"

lemma catalog_run_from:
  "catalog_run opts c log \<Longrightarrow> orderly_run c ops \<Longrightarrow> catalog_run opts (fst (run_catalog c ops)) (log @ snd (run_catalog c ops))"
proof (induction ops arbitrary: c log)
  case (Cons op ops)
  have "catalog_run opts (fst (catalog_step c op)) (log @ snd (catalog_step c op))"
    using Cons.prems by (intro catalog_run.step [of opts c log op]) simp_all
  from Cons.IH [OF this] Cons.prems(2) show ?case by (simp add: case_prod_unfold)
qed simp

definition demo_catalog_options :: catalog_options where
  "demo_catalog_options = \<lparr>
     co_grainTypes = [(''counter'', \<lparr> rg_reentrant = False, rg_stateless = False, rg_maxLocalWorkers = None,
                         rg_collectionAgeSeconds = Some 60 \<rparr>),
                      (''resize'', \<lparr> rg_reentrant = False, rg_stateless = True, rg_maxLocalWorkers = Some 1,
                         rg_collectionAgeSeconds = None \<rparr>)],
     co_defaultCollectionAgeSeconds = 900, co_classSpecificCollectionAgeSeconds = [(''counter'', 5)],
     co_hasDisposeInstance = True, co_hasMigrate = False, co_cpus = 4, co_hardLimit = None,
     co_deactivationTimeoutMs = Some 50, co_maxRequestProcessingTimeMs = None \<rparr>"

abbreviation demo_catalog :: "unit catalog" where
  "demo_catalog \<equiv> newCatalog demo_catalog_options"

abbreviation demo_counter :: grain_id where
  "demo_counter \<equiv> GrainId ''counter'' (KString ''a'')"

abbreviation demo_worker :: grain_id where
  "demo_worker \<equiv> GrainId ''resize'' (KString ''a'')"

definition activate_ops :: "nat \<Rightarrow> unit catalog_op list" where
  "activate_ops i = [ActivationStep i (DoRun 1 0), ActivationStep i (DoEnd 1 0 BodyOk), ActivationStep i (DoComplete 0)]"

lemma demo_options_ok: "options_ok demo_catalog_options"
  by code_simp

text \<open>The activations that a sequence of operations deactivates early.\<close>

fun early_in :: "'v catalog \<Rightarrow> 'v catalog_op list \<Rightarrow> nat set" where
  "early_in c [] = {}"
| "early_in c (op # ops) = early c op \<union> early_in (fst (catalog_step c op)) ops"

lemma silo_run_from:
  "silo_run opts c X log \<Longrightarrow>
   silo_run opts (fst (run_catalog c ops)) (X \<union> early_in c ops) (log @ snd (run_catalog c ops))"
proof (induction ops arbitrary: c X log)
  case (Cons op ops)
  have "silo_run opts (fst (catalog_step c op)) (X \<union> early c op) (log @ snd (catalog_step c op))"
    using Cons.prems by (intro silo_run.step [of opts c X log op]) simp_all
  from Cons.IH [OF this] show ?case by (simp add: case_prod_unfold Un_assoc)
qed simp

text \<open>An activation is deactivated from outside while its \<open>onActivate\<close> still runs, and its deactivation times out: it is
  finalized, a lookup replaces it, and then its activation turn ends and sets it valid again. The replacement is the
  entry of the key; the revived one is the exception.\<close>

definition duplicate_ops :: "unit catalog_op list" where
  "duplicate_ops = [GetOrActivate 0 demo_counter ''a1'', ActivationStep 0 (DoRun 1 0), Deactivate 2 0, Resume 60 1 True,
     GetOrActivate 61 demo_counter ''a2'', ActivationStep 1 (DoRun 62 0), ActivationStep 1 (DoEnd 63 0 BodyOk),
     ActivationStep 0 (DoEnd 64 0 BodyOk)]"

theorem single_activation_witness:
  "early_in demo_catalog duplicate_ops = {0}
   \<and> js_get (ct_activations (fst (run_catalog demo_catalog duplicate_ops))) ''counter/a'' = Some 1"
proof
  let ?c = "fst (run_catalog demo_catalog duplicate_ops)"
  show e: "early_in demo_catalog duplicate_ops = {0}" by code_simp
  have run: "silo_run demo_catalog_options ?c {0} (snd (run_catalog demo_catalog duplicate_ops))"
    using silo_run_from [OF silo_run.start [of demo_catalog_options], of duplicate_ops] e by simp
  have "\<not> ct_stopping ?c" "1 < length (ct_objects ?c)" "alive (obj ?c 1)" "1 \<notin> {0 :: nat}"
    "maxLocalWorkersFor demo_catalog_options (type_part (key_of (obj ?c 1))) = None" by code_simp+
  from single_activation [OF run demo_options_ok this] have "js_get (ct_activations ?c) (key_of (obj ?c 1)) = Some 1" by blast
  moreover have "key_of (obj ?c 1) = ''counter/a''" by code_simp
  ultimately show "js_get (ct_activations ?c) ''counter/a'' = Some 1" by simp
qed



definition stop_ops :: "unit catalog_op list" where
  "stop_ops = [GetOrActivate 0 demo_counter ''a1''] @ activate_ops 0 @ [DeactivateAll 2 None]"

theorem stopping_creates_nothing_witness:
  "length (ct_objects (fst (run_catalog (fst (run_catalog demo_catalog stop_ops))
     [PickWorker 3 demo_worker ''w1'', GetOrActivate 4 demo_counter ''a2'', ActivationStep 0 (DoRun 4 1)]))) = 1"
proof -
  have "ct_stopping (fst (run_catalog demo_catalog stop_ops))" by code_simp
  moreover have "length (ct_objects (fst (run_catalog demo_catalog stop_ops))) = 1" by code_simp
  ultimately show ?thesis using stopping_creates_nothing by metis
qed

section \<open>Where the code does less than its comments say\<close>

text \<open>A sweep waits for the hook of an activation when the silo starts to stop. The sweep finalizes it; \<open>deactivateAll\<close>,
  whose snapshot holds it too, disposes of it, and then the sweep disposes of it a second time: \<open>deactivateState\<close> runs
  twice for one activation.\<close>

definition double_ops :: "unit catalog_op list" where
  "double_ops = [GetOrActivate 0 demo_counter ''a1''] @ activate_ops 0 @ [CollectIdle (Some 0), Resume 5 1 True,
     DeactivateAll 6 None, ActivationStep 0 (DoRun 7 1), ActivationStep 0 (DoEnd 8 1 BodyOk), Resume 9 2 True,
     Resume 9 3 True, Resume 9 3 True, Resume 9 3 True, Resume 10 1 True, Resume 10 1 True, Resume 10 1 True]"

theorem deactivateState_twice:
  "\<exists>c. catalog_run demo_catalog_options (c :: unit catalog)
     [Resolved 0 (Inr (Some 0)), Act 0 HookStarted, Resolved 2 (Inr None), DisposeInstance 0, DeactivateState 0, OnDeactivated 0,
      DisposeInstance 0, DeactivateState 0, OnDeactivated 0]"
proof -
  have "orderly_run demo_catalog double_ops" by code_simp
  from catalog_run_from [OF catalog_run.start this]
  have run: "catalog_run demo_catalog_options (fst (run_catalog demo_catalog double_ops)) (snd (run_catalog demo_catalog double_ops))"
    by simp
  have "snd (run_catalog demo_catalog double_ops) = [Resolved 0 (Inr (Some 0)), Act 0 HookStarted, Resolved 2 (Inr None), DisposeInstance 0,
      DeactivateState 0, OnDeactivated 0, DisposeInstance 0, DeactivateState 0, OnDeactivated 0]" by code_simp
  with run show ?thesis by metis
qed

text \<open>The run above leaves two activations of one grain in service.\<close>

theorem finalized_activation_revived:
  "av_state (obj (fst (run_catalog demo_catalog duplicate_ops)) 0) = Valid
   \<and> av_state (obj (fst (run_catalog demo_catalog duplicate_ops)) 1) = Valid
   \<and> key_of (obj (fst (run_catalog demo_catalog duplicate_ops)) 0) = key_of (obj (fst (run_catalog demo_catalog duplicate_ops)) 1)"
  by (intro conjI) code_simp+

text \<open>The age declared by the grain class wins over the per-silo entry of its type.\<close>

theorem class_age_wins:
  "rg_collectionAgeSeconds reg = Some s \<Longrightarrow> collectionAge opts type reg = s"
  by (simp add: collectionAge_def)

end
