(* ===== verification/Durations.thy ===== *)
theory Durations
  imports Main
begin

text \<open>\<^verbatim>\<open>core/src/duration.ts\<close>: spans of time.\<close>

record duration =
  du_ms :: "int option"
  du_seconds :: "int option"
  du_minutes :: "int option"
  du_hours :: "int option"
  du_days :: "int option"

definition or_else :: "'a option \<Rightarrow> 'a \<Rightarrow> 'a" where
  "or_else v d = (case v of None \<Rightarrow> d | Some x \<Rightarrow> x)"

definition durationToMs :: "duration \<Rightarrow> int" where
  "durationToMs d = or_else (du_ms d) 0 + or_else (du_seconds d) 0 * 1000 + or_else (du_minutes d) 0 * 60000
     + or_else (du_hours d) 0 * 3600000 + or_else (du_days d) 0 * 86400000"

text \<open>A span given in milliseconds, as the model of a policy or a default writes it.\<close>

definition of_ms :: "int \<Rightarrow> duration" where
  "of_ms n = \<lparr> du_ms = Some n, du_seconds = None, du_minutes = None, du_hours = None, du_days = None \<rparr>"

lemma durationToMs_of_ms [simp]: "durationToMs (of_ms n) = n"
  by (simp add: durationToMs_def of_ms_def or_else_def)

end
