(* ===== verification/Durable_Jobs.thy ===== *)
theory Durable_Jobs
  imports Identity Durations Complex_Main
begin

text \<open>
  \<^verbatim>\<open>durable-jobs/src\<close>: jobs that run once at a due time, sharded by time, retried, and taken over by another silo when
  their owner fails. The model has the due-time queue (\<^verbatim>\<open>job-model.ts\<close>), the in-memory store with its table of shard
  owners (\<^verbatim>\<open>memory-job-shard-store.ts\<close>), the executor of a shard (\<^verbatim>\<open>shard-executor.ts\<close>) and the per-silo manager
  (\<^verbatim>\<open>local-durable-job-manager.ts\<close>). Several silos share the store.

  A call of the store takes effect when it is made, as the in-memory store does; the code that awaits it goes on in a
  later step. An asynchronous method is a process in \<open>jm_procs\<close>, named by a number; the number of a run stands for its
  promise in \<open>ex_inFlight\<close>. Executors are objects, named by their index in \<open>jm_objects\<close>: an executor that is being drained
  and its successor for the same shard can exist at the same time. A fresh GUID is the next value of a counter. The
  factor of the slow start and the interpolation of the claim budget are exact rationals where the code computes in
  floating point. Metrics are left out.
\<close>

section \<open>Jobs and the due-time queue\<close>

record 'm durable_job =
  dj_id :: nat
  dj_name :: string
  dj_dueTime :: int
  dj_target :: grain_id
  dj_shardKey :: int
  dj_metadata :: 'm

datatype run_result = Completed | PollAfter int | Failed string

type_synonym should_retry = "nat \<Rightarrow> string \<Rightarrow> int option"

definition shardKeyFor :: "int \<Rightarrow> int \<Rightarrow> string + int" where
  "shardKeyFor dueTimeMs shardDurationMs =
     (if shardDurationMs \<le> 0 then Inl ''shardDuration must be positive'' else Inr (dueTimeMs div shardDurationMs))"

definition shardStartMs :: "int \<Rightarrow> int \<Rightarrow> int" where
  "shardStartMs shardKey shardDurationMs = shardKey * shardDurationMs"

definition defaultShouldRetry :: should_retry where
  "defaultShouldRetry dequeueCount error = (if 5 \<le> dequeueCount then None else Some (2 ^ dequeueCount * 1000))"

definition claimBudget :: "int \<Rightarrow> int \<Rightarrow> int" where
  "claimBudget pendingUnclaimed budget = (if budget \<le> 0 then 0 else min (max 0 pendingUnclaimed) budget)"

record 'm queued_job =
  qj_id :: nat
  qj_dueMs :: int
  qj_dequeueCount :: nat
  qj_payload :: "'m durable_job"

record 'm job_queue =
  jq_jobs :: "(nat, 'm queued_job) js_map"
  jq_liveIds :: "nat list"

definition jq_add :: "'m queued_job \<Rightarrow> 'm job_queue \<Rightarrow> 'm job_queue" where
  "jq_add job q = q\<lparr> jq_jobs := js_set (qj_id job) job (jq_jobs q), jq_liveIds := List.insert (qj_id job) (jq_liveIds q) \<rparr>"

definition jq_cancel :: "nat \<Rightarrow> 'm job_queue \<Rightarrow> 'm job_queue \<times> bool" where
  "jq_cancel i q = (q\<lparr> jq_jobs := js_delete i (jq_jobs q), jq_liveIds := removeAll i (jq_liveIds q) \<rparr>, js_has (jq_jobs q) i)"

definition nextDueMs :: "'m job_queue \<Rightarrow> int option" where
  "nextDueMs q = foldl (\<lambda>earliest job. case earliest of None \<Rightarrow> Some (qj_dueMs job)
     | Some e \<Rightarrow> if qj_dueMs job < e then Some (qj_dueMs job) else Some e) None (js_values (jq_jobs q))"

definition dequeueDue :: "int \<Rightarrow> 'm job_queue \<Rightarrow> 'm job_queue \<times> 'm queued_job list" where
  "dequeueDue nowMs q =
     (let due = js_sort (\<lambda>a b. qj_dueMs a \<le> qj_dueMs b) (filter (\<lambda>j. qj_dueMs j \<le> nowMs) (js_values (jq_jobs q)))
      in (q\<lparr> jq_jobs := foldl (\<lambda>m j. js_delete (qj_id j) m) (jq_jobs q) due \<rparr>, due))"

definition retryLater :: "'m queued_job \<Rightarrow> int \<Rightarrow> int \<Rightarrow> 'm job_queue \<Rightarrow> 'm job_queue" where
  "retryLater job delay nowMs q =
     (if qj_id job \<notin> set (jq_liveIds q) then q
      else q\<lparr> jq_jobs := js_set (qj_id job) (job\<lparr> qj_dueMs := nowMs + delay \<rparr>) (jq_jobs q) \<rparr>)"

section \<open>The store\<close>

record 'm job_entry =
  je_job :: "'m durable_job"
  je_dequeueCount :: nat
  je_dueTime :: int
  je_runId :: "nat option"
  je_completed :: "bool option"

record shard_record =
  sr_shardKey :: int
  sr_owner :: "string option"
  sr_adoptedCount :: nat
  sr_poisoned :: bool

record 'm shard_state =
  ss_record :: shard_record
  ss_jobs :: "(nat, 'm job_entry) js_map"

type_synonym 'm job_store = "(int, 'm shard_state) js_map"

definition newShard :: "int \<Rightarrow> 'm shard_state" where
  "newShard k = \<lparr> ss_record = \<lparr> sr_shardKey = k, sr_owner = None, sr_adoptedCount = 0, sr_poisoned = False \<rparr>, ss_jobs = [] \<rparr>"

definition shard :: "int \<Rightarrow> 'm job_store \<Rightarrow> 'm shard_state" where
  "shard k s = (case js_get s k of Some st \<Rightarrow> st | None \<Rightarrow> newShard k)"

definition persistAdd :: "'m durable_job \<Rightarrow> 'm job_store \<Rightarrow> 'm job_store" where
  "persistAdd job s =
     (let k = dj_shardKey job; st = shard k s;
          entry = \<lparr> je_job = job, je_dequeueCount = 0, je_dueTime = dj_dueTime job, je_runId = None, je_completed = None \<rparr>
      in js_set k (st\<lparr> ss_jobs := js_set (dj_id job) entry (ss_jobs st) \<rparr>) s)"

definition persistRemove :: "int \<Rightarrow> nat \<Rightarrow> 'm job_store \<Rightarrow> 'm job_store" where
  "persistRemove k i s = (case js_get s k of None \<Rightarrow> s
     | Some st \<Rightarrow> js_set k (st\<lparr> ss_jobs := js_delete i (ss_jobs st) \<rparr>) s)"

text \<open>The entry of a job, if it is there, is changed in place.\<close>

definition on_entry :: "int \<Rightarrow> nat \<Rightarrow> ('m job_entry \<Rightarrow> 'm job_entry) \<Rightarrow> 'm job_store \<Rightarrow> 'm job_store" where
  "on_entry k i f s = (case js_get s k of None \<Rightarrow> s
     | Some st \<Rightarrow> (case js_get (ss_jobs st) i of None \<Rightarrow> s
         | Some e \<Rightarrow> js_set k (st\<lparr> ss_jobs := js_set i (f e) (ss_jobs st) \<rparr>) s))"

definition persistRetry :: "int \<Rightarrow> nat \<Rightarrow> int \<Rightarrow> nat \<Rightarrow> 'm job_store \<Rightarrow> 'm job_store" where
  "persistRetry k i dueTime dequeueCount = on_entry k i (\<lambda>e. e\<lparr> je_dueTime := dueTime, je_dequeueCount := dequeueCount \<rparr>)"

definition persistRunStart :: "int \<Rightarrow> nat \<Rightarrow> nat \<Rightarrow> 'm job_store \<Rightarrow> 'm job_store" where
  "persistRunStart k i runId = on_entry k i (\<lambda>e. e\<lparr> je_runId := Some runId, je_completed := Some False \<rparr>)"

definition persistRunComplete :: "int \<Rightarrow> nat \<Rightarrow> nat \<Rightarrow> 'm job_store \<Rightarrow> 'm job_store" where
  "persistRunComplete k i runId = on_entry k i (\<lambda>e. if je_runId e = Some runId then e\<lparr> je_completed := Some True \<rparr> else e)"

definition readJobs :: "int \<Rightarrow> 'm job_store \<Rightarrow> 'm job_entry list" where
  "readJobs k s = (case js_get s k of None \<Rightarrow> [] | Some st \<Rightarrow> js_values (ss_jobs st))"

definition listShards :: "'m job_store \<Rightarrow> shard_record list" where
  "listShards s = map ss_record (filter (\<lambda>st. 0 < length (ss_jobs st)) (js_values s))"

definition claimShard :: "int \<Rightarrow> string \<Rightarrow> string list \<Rightarrow> nat \<Rightarrow> 'm job_store \<Rightarrow> 'm job_store \<times> shard_record option" where
  "claimShard k owner adoptFromDead maxAdoptedCount s =
     (let st = shard k s; r = ss_record st; s1 = js_set k st s;
          ownerDead = (case sr_owner r of None \<Rightarrow> False | Some w \<Rightarrow> w \<in> set adoptFromDead) in
      if sr_poisoned r then (s1, None)
      else if sr_owner r = Some owner then (s1, Some r)
      else if sr_owner r \<noteq> None \<and> \<not> ownerDead then (s1, None)
      else if ownerDead \<and> maxAdoptedCount < Suc (sr_adoptedCount r) then
        (js_set k (st\<lparr> ss_record := r\<lparr> sr_adoptedCount := Suc (sr_adoptedCount r), sr_poisoned := True, sr_owner := None \<rparr> \<rparr>) s1, None)
      else
        (let r' = r\<lparr> sr_adoptedCount := (if ownerDead then Suc (sr_adoptedCount r) else sr_adoptedCount r), sr_owner := Some owner \<rparr>
         in (js_set k (st\<lparr> ss_record := r' \<rparr>) s1, Some r')))"

definition releaseShard :: "int \<Rightarrow> string \<Rightarrow> 'm job_store \<Rightarrow> 'm job_store" where
  "releaseShard k owner s = (case js_get s k of None \<Rightarrow> s
     | Some st \<Rightarrow> if sr_owner (ss_record st) = Some owner
         then js_set k (st\<lparr> ss_record := (ss_record st)\<lparr> sr_owner := None \<rparr> \<rparr>) s else s)"

section \<open>The executor of a shard\<close>

record job_options =
  jo_shardDurationMs :: int
  jo_maxConcurrentJobsPerSilo :: nat
  jo_slowStartInitialConcurrency :: nat
  jo_slowStartGrowthFactor :: rat
  jo_slowStartIntervalMs :: int
  jo_overloadBackoffMs :: int
  jo_shouldRetry :: should_retry
  jo_maxAdoptedCount :: nat
  jo_claimRampUpBudget :: int
  jo_shardClaimInitialBudget :: int
  jo_shardClaimMaxBudget :: int
  jo_shardClaimRampUpDurationMs :: int
  jo_periodicShardCheckMs :: int

record 'm executor =
  ex_shardKey :: int
  ex_queue :: "'m job_queue"
  ex_jobs :: "(nat, 'm durable_job) js_map"
  ex_concurrency :: nat
  ex_pollHandle :: "int option"
  ex_stopped :: bool
  ex_running :: nat
  ex_inFlight :: "nat list"
  ex_startedAtMs :: int

definition newExecutor :: "job_options \<Rightarrow> int \<Rightarrow> int \<Rightarrow> 'm executor" where
  "newExecutor opts now k = \<lparr> ex_shardKey = k, ex_queue = \<lparr> jq_jobs = [], jq_liveIds = [] \<rparr>, ex_jobs = [],
     ex_concurrency = max 1 (jo_slowStartInitialConcurrency opts), ex_pollHandle = None, ex_stopped = False, ex_running = 0,
     ex_inFlight = [], ex_startedAtMs = now \<rparr>"

definition clearPoll :: "'m executor \<Rightarrow> 'm executor" where
  "clearPoll e = e\<lparr> ex_pollHandle := None \<rparr>"

definition schedulePoll :: "int \<Rightarrow> 'm executor \<Rightarrow> 'm executor" where
  "schedulePoll now e =
     (if ex_stopped e then e
      else (case nextDueMs (ex_queue e) of
              None \<Rightarrow> clearPoll e
            | Some next \<Rightarrow> (clearPoll e)\<lparr> ex_pollHandle := Some (now + max 0 (next - now)) \<rparr>))"

definition addJob :: "'m durable_job \<Rightarrow> int \<Rightarrow> nat \<Rightarrow> 'm executor \<Rightarrow> 'm executor" where
  "addJob job dueMs dequeueCount e = e\<lparr> ex_jobs := js_set (dj_id job) job (ex_jobs e),
     ex_queue := jq_add \<lparr> qj_id = dj_id job, qj_dueMs = dueMs, qj_dequeueCount = dequeueCount, qj_payload = job \<rparr> (ex_queue e) \<rparr>"

definition ex_enqueue :: "int \<Rightarrow> 'm durable_job \<Rightarrow> 'm executor \<Rightarrow> 'm executor" where
  "ex_enqueue now job e = schedulePoll now (addJob job (dj_dueTime job) 0 e)"

definition ex_cancel :: "nat \<Rightarrow> 'm executor \<Rightarrow> 'm executor \<times> bool" where
  "ex_cancel i e = (case jq_cancel i (ex_queue e) of (q, removed) \<Rightarrow>
     (e\<lparr> ex_queue := q, ex_jobs := js_delete i (ex_jobs e) \<rparr>, removed))"

definition elapsedIntervals :: "job_options \<Rightarrow> int \<Rightarrow> 'm executor \<Rightarrow> nat" where
  "elapsedIntervals opts now e = nat (max 0 ((now - ex_startedAtMs e) div jo_slowStartIntervalMs opts))"

definition slowStartCeiling :: "job_options \<Rightarrow> int \<Rightarrow> 'm executor \<Rightarrow> nat" where
  "slowStartCeiling opts now e =
     (if jo_slowStartIntervalMs opts \<le> 0 then jo_maxConcurrentJobsPerSilo opts
      else (let grown = of_nat (jo_slowStartInitialConcurrency opts) * jo_slowStartGrowthFactor opts ^ elapsedIntervals opts now e
            in nat (min (int (jo_maxConcurrentJobsPerSilo opts)) (max 1 \<lceil>grown\<rceil>))))"

definition scheduleSaturatedPoll :: "job_options \<Rightarrow> int \<Rightarrow> 'm executor \<Rightarrow> 'm executor" where
  "scheduleSaturatedPoll opts now e =
     (if ex_stopped e then e
      else (let delay =
              (if ex_concurrency e < jo_maxConcurrentJobsPerSilo opts \<and> 0 < jo_slowStartIntervalMs opts then
                 max 1 (ex_startedAtMs e + (int (elapsedIntervals opts now e) + 1) * jo_slowStartIntervalMs opts - now)
               else max 1 (jo_overloadBackoffMs opts))
            in e\<lparr> ex_pollHandle := Some (now + delay) \<rparr>))"

section \<open>The manager\<close>

record ownership =
  ow_localRingKey :: string
  ow_activeRingKeys :: "string list"

text \<open>What is left to do once the executor of a shard is there or was not to be had.\<close>

datatype 'm owned_cont =
    ThenSchedule "'m durable_job"
  | ThenReceive "'m durable_job"
  | ThenResume ownership "shard_record list" "shard_record list"
  | ThenClaimed ownership "shard_record list"

datatype 'm job_process =
    RunStarting nat "'m queued_job" "'m durable_job" nat
  | RunHandler nat "'m queued_job" nat
  | RunCompleting nat "'m queued_job"
  | RunEnding nat
  | Persisted "'m durable_job"
  | Claimed int "shard_record option" "'m owned_cont"
  | Handing "'m owned_cont"
  | Loading nat "'m job_entry list" "'m owned_cont"
  | OwnedBy "nat option" "'m owned_cont"
  | Forwarding "'m durable_job" "shard_record list"
  | Forwarded "'m durable_job"
  | ReconcileListed ownership "shard_record list"
  | ReconcileOwned "int list"
  | Dropping nat "int list" "int list"
  | StopWait nat
  | StopDraining "nat option" int "int list"
  | StopReleased "int list"

record 'm job_silo =
  jm_options :: job_options
  jm_hasOverload :: bool
  jm_canForward :: bool
  jm_store :: "'m job_store"
  jm_guid :: nat
  jm_ownership :: ownership
  jm_inUse :: nat
  jm_executors :: "(int, nat) js_map"
  jm_objects :: "'m executor list"
  jm_joinedAtMs :: int
  jm_claimedSinceJoin :: nat
  jm_checkHandle :: "int option"
  jm_enqueued :: nat
  jm_done :: nat
  jm_active :: bool
  jm_stopped :: bool
  jm_procs :: "(nat, 'm job_process) js_map"
  jm_nextProc :: nat

text \<open>A run that starts, the answers of the manager's methods and the messages it sends.\<close>

datatype 'm job_event =
    RunJob int nat nat nat
  | ScheduledJob nat
  | ReceivedJob nat bool
  | ForwardJob string "'m durable_job"
  | InvalidShardDuration string

abbreviation jex :: "'m job_silo \<Rightarrow> nat \<Rightarrow> 'm executor" where
  "jex s x \<equiv> jm_objects s ! x"

definition on_ex :: "nat \<Rightarrow> ('m executor \<Rightarrow> 'm executor) \<Rightarrow> 'm job_silo \<Rightarrow> 'm job_silo" where
  "on_ex x f s = s\<lparr> jm_objects := (jm_objects s)[x := f (jex s x)] \<rparr>"

definition on_store :: "('m job_store \<Rightarrow> 'm job_store) \<Rightarrow> 'm job_silo \<Rightarrow> 'm job_silo" where
  "on_store f s = s\<lparr> jm_store := f (jm_store s) \<rparr>"

definition jgo :: "nat \<Rightarrow> 'm job_process \<Rightarrow> 'm job_silo \<Rightarrow> 'm job_silo" where
  "jgo pid p s = s\<lparr> jm_procs := js_set pid p (jm_procs s) \<rparr>"

definition jfinish :: "nat \<Rightarrow> 'm job_silo \<Rightarrow> 'm job_silo" where
  "jfinish pid s = s\<lparr> jm_procs := js_delete pid (jm_procs s) \<rparr>"

definition jspawn :: "'m job_process \<Rightarrow> 'm job_silo \<Rightarrow> 'm job_silo" where
  "jspawn p s = s\<lparr> jm_procs := js_set (jm_nextProc s) p (jm_procs s), jm_nextProc := Suc (jm_nextProc s) \<rparr>"

subsection \<open>Runs\<close>

definition tryAcquire :: "'m job_silo \<Rightarrow> 'm job_silo \<times> bool" where
  "tryAcquire s = (if jo_maxConcurrentJobsPerSilo (jm_options s) \<le> jm_inUse s then (s, False)
     else (s\<lparr> jm_inUse := jm_inUse s + 1 \<rparr>, True))"

definition lm_release :: "'m job_silo \<Rightarrow> 'm job_silo" where
  "lm_release s = s\<lparr> jm_inUse := jm_inUse s - 1 \<rparr>"

definition saturated :: "'m job_silo \<Rightarrow> bool" where
  "saturated s \<longleftrightarrow> int (jo_maxConcurrentJobsPerSilo (jm_options s)) - int (jm_inUse s) \<le> 0"

text \<open>The \<open>finally\<close> of \<open>runOne\<close>.\<close>

definition runFinally :: "int \<Rightarrow> nat \<Rightarrow> 'm job_silo \<Rightarrow> 'm job_silo" where
  "runFinally now x s = on_ex x (schedulePoll now) (lm_release (on_ex x (\<lambda>e. e\<lparr> ex_running := ex_running e - 1 \<rparr>) s))"

definition runOne :: "int \<Rightarrow> nat \<Rightarrow> 'm queued_job \<Rightarrow> 'm job_silo \<Rightarrow> 'm job_silo" where
  "runOne now x job s =
     (let s1 = on_ex x (\<lambda>e. e\<lparr> ex_running := ex_running e + 1 \<rparr>) s in
      case js_get (ex_jobs (jex s1 x)) (qj_id job) of
        None \<Rightarrow> runFinally now x s1
      | Some durable \<Rightarrow>
          (let runId = jm_guid s1;
               s2 = on_store (persistRunStart (ex_shardKey (jex s1 x)) (dj_id durable) runId) (s1\<lparr> jm_guid := Suc runId \<rparr>)
           in jspawn (RunStarting x job durable runId)
                (on_ex x (\<lambda>e. e\<lparr> ex_inFlight := jm_nextProc s2 # ex_inFlight e \<rparr>) s2)))"

fun pollEach :: "int \<Rightarrow> nat \<Rightarrow> 'm queued_job list \<Rightarrow> 'm job_silo \<Rightarrow> 'm job_silo \<times> nat \<times> bool" where
  "pollEach now x [] s = (s, 0, False)"
| "pollEach now x (job # due) s =
     (if ex_concurrency (jex s x) \<le> ex_running (jex s x) \<or> \<not> snd (tryAcquire s) then
        (case pollEach now x due (on_ex x (\<lambda>e. e\<lparr> ex_queue := jq_add (job\<lparr> qj_dueMs := now \<rparr>) (ex_queue e) \<rparr>) s) of
           (s', admitted, blocked) \<Rightarrow> (s', admitted, True))
      else
        (case pollEach now x due (runOne now x job (fst (tryAcquire s))) of
           (s', admitted, blocked) \<Rightarrow> (s', Suc admitted, blocked)))"

definition poll :: "int \<Rightarrow> nat \<Rightarrow> bool \<Rightarrow> 'm job_silo \<Rightarrow> 'm job_silo" where
  "poll now x overload s =
     (let opts = jm_options s in
      if ex_stopped (jex s x) then s
      else if (if jm_hasOverload s then overload else saturated s) then
        on_ex x (\<lambda>e. e\<lparr> ex_pollHandle := Some (now + jo_overloadBackoffMs opts) \<rparr>) s
      else
        (let e1 = (jex s x)\<lparr> ex_concurrency := max (ex_concurrency (jex s x)) (slowStartCeiling opts now (jex s x)) \<rparr> in
         case dequeueDue now (ex_queue e1) of (q, due) \<Rightarrow>
         case pollEach now x due (on_ex x (\<lambda>_. e1\<lparr> ex_queue := q \<rparr>) s) of (s2, admitted, blocked) \<Rightarrow>
           if admitted = 0 \<and> blocked then on_ex x (scheduleSaturatedPoll opts now) s2
           else on_ex x (schedulePoll now) s2))"

text \<open>The poll timer of an executor, once its time has come.\<close>

definition pollFires :: "int \<Rightarrow> nat \<Rightarrow> bool \<Rightarrow> 'm job_silo \<Rightarrow> 'm job_silo" where
  "pollFires now x overload s =
     (if x < length (jm_objects s) then
        (case ex_pollHandle (jex s x) of
           Some due \<Rightarrow> if due \<le> now then poll now x overload (on_ex x clearPoll s) else s
         | None \<Rightarrow> s)
      else s)"

definition reschedule :: "int \<Rightarrow> nat \<Rightarrow> 'm queued_job \<Rightarrow> int \<Rightarrow> 'm job_silo \<Rightarrow> 'm job_silo" where
  "reschedule now x job delay s =
     on_store (persistRetry (ex_shardKey (jex s x)) (qj_id job) (now + delay) (qj_dequeueCount job))
       (on_ex x (\<lambda>e. schedulePoll now (e\<lparr> ex_queue := retryLater job delay now (ex_queue e) \<rparr>)) s)"

definition dropJob :: "nat \<Rightarrow> nat \<Rightarrow> 'm job_silo \<Rightarrow> 'm job_silo" where
  "dropJob x i s = on_store (persistRemove (ex_shardKey (jex s x)) i)
     (on_ex x (\<lambda>e. e\<lparr> ex_jobs := js_delete i (ex_jobs e) \<rparr>) s)"

definition applyResult :: "int \<Rightarrow> nat \<Rightarrow> nat \<Rightarrow> 'm queued_job \<Rightarrow> run_result \<Rightarrow> nat \<Rightarrow> nat \<Rightarrow> 'm job_silo \<Rightarrow> 'm job_silo" where
  "applyResult now pid x job result attempt runId s = (case result of
      Completed \<Rightarrow>
        jgo pid (RunCompleting x job) (on_store (persistRunComplete (ex_shardKey (jex s x)) (qj_id job) runId) s)
    | PollAfter delay \<Rightarrow> jgo pid (RunEnding x) (reschedule now x job delay s)
    | Failed error \<Rightarrow>
        (case jo_shouldRetry (jm_options s) attempt error of
           None \<Rightarrow> jgo pid (RunEnding x) (dropJob x (qj_id job) s)
         | Some backoff \<Rightarrow> jgo pid (RunEnding x) (reschedule now x (job\<lparr> qj_dequeueCount := attempt \<rparr>) backoff s)))"

subsection \<open>Owning shards\<close>

definition UNLIMITED_CLAIM_BUDGET :: int where
  "UNLIMITED_CLAIM_BUDGET = 9007199254740991"

text \<open>\<open>Math.trunc\<close> of a rational.\<close>

definition trunc :: "rat \<Rightarrow> int" where
  "trunc r = (if 0 \<le> r then \<lfloor>r\<rfloor> else \<lceil>r\<rceil>)"

definition computeClaimBudget :: "int \<Rightarrow> int \<Rightarrow> int \<Rightarrow> int \<Rightarrow> int \<Rightarrow> int" where
  "computeClaimBudget rampUpDurationMs initialBudget maxBudget elapsedMs totalClaimedShards =
     (if rampUpDurationMs \<le> 0 then UNLIMITED_CLAIM_BUDGET
      else if rampUpDurationMs \<le> elapsedMs then UNLIMITED_CLAIM_BUDGET
      else (let fraction = of_int elapsedMs / of_int rampUpDurationMs;
                budget = initialBudget + trunc (fraction * of_int (maxBudget - initialBudget))
            in max 0 (budget - totalClaimedShards)))"

definition claimBudgetForThisStep :: "int \<Rightarrow> int \<Rightarrow> 'm job_silo \<Rightarrow> int" where
  "claimBudgetForThisStep now claimableCount s =
     (let opts = jm_options s in
      if jo_shardClaimRampUpDurationMs opts \<le> 0 then claimBudget claimableCount (jo_claimRampUpBudget opts)
      else (let budget = computeClaimBudget (jo_shardClaimRampUpDurationMs opts) (jo_shardClaimInitialBudget opts)
                  (jo_shardClaimMaxBudget opts) (now - jm_joinedAtMs s) (int (jm_claimedSinceJoin s))
            in if budget = UNLIMITED_CLAIM_BUDGET then claimableCount else min claimableCount budget))"

text \<open>\<open>startExecutor\<close> when the shard has none: the executor is stored and starts to load.\<close>

definition startExecutor :: "int \<Rightarrow> nat \<Rightarrow> int \<Rightarrow> 'm owned_cont \<Rightarrow> 'm job_silo \<Rightarrow> 'm job_silo" where
  "startExecutor now pid k cont s = (case js_get (jm_executors s) k of
      Some x \<Rightarrow> jgo pid (OwnedBy (Some x) cont) s
    | None \<Rightarrow>
        if jm_stopped s then jgo pid (OwnedBy None cont) s
        else (let x = length (jm_objects s) in
              jgo pid (Loading x (readJobs k (jm_store s)) cont)
                (s\<lparr> jm_objects := jm_objects s @ [newExecutor (jm_options s) now k],
                    jm_executors := js_set k x (jm_executors s) \<rparr>)))"

definition claimAndStart :: "nat \<Rightarrow> int \<Rightarrow> string list \<Rightarrow> 'm owned_cont \<Rightarrow> 'm job_silo \<Rightarrow> 'm job_silo" where
  "claimAndStart pid k deadOwners cont s =
     (case claimShard k (ow_localRingKey (jm_ownership s)) deadOwners (jo_maxAdoptedCount (jm_options s)) (jm_store s) of
        (st, claimed) \<Rightarrow> jgo pid (Claimed k claimed cont) (s\<lparr> jm_store := st \<rparr>))"

text \<open>\<open>claimAndStart\<close> after the claim.\<close>

definition claimedResume :: "int \<Rightarrow> nat \<Rightarrow> int \<Rightarrow> shard_record option \<Rightarrow> 'm owned_cont \<Rightarrow> 'm job_silo \<Rightarrow> 'm job_silo" where
  "claimedResume now pid k claimed cont s = (case claimed of
      None \<Rightarrow> jgo pid (OwnedBy None cont) s
    | Some r \<Rightarrow>
        if jm_stopped s then jgo pid (Handing cont) (on_store (releaseShard k (ow_localRingKey (jm_ownership s))) s)
        else startExecutor now pid k cont s)"

definition ensureOwned :: "nat \<Rightarrow> int \<Rightarrow> 'm owned_cont \<Rightarrow> 'm job_silo \<Rightarrow> 'm job_silo" where
  "ensureOwned pid k cont s = (case js_get (jm_executors s) k of
      Some x \<Rightarrow> jgo pid (OwnedBy (Some x) cont) s
    | None \<Rightarrow> if jm_stopped s then jgo pid (OwnedBy None cont) s else claimAndStart pid k [] cont s)"

text \<open>The loop of \<open>load\<close>: a completed entry is removed and awaited, the others join the working set.\<close>

fun loadEach :: "int \<Rightarrow> nat \<Rightarrow> nat \<Rightarrow> 'm job_entry list \<Rightarrow> 'm owned_cont \<Rightarrow> 'm job_silo \<Rightarrow> 'm job_silo" where
  "loadEach now pid x [] cont s = jgo pid (OwnedBy (Some x) cont) (on_ex x (schedulePoll now) s)"
| "loadEach now pid x (p # ps) cont s =
     (if je_completed p = Some True then
        jgo pid (Loading x ps cont) (on_store (persistRemove (ex_shardKey (jex s x)) (dj_id (je_job p))) s)
      else loadEach now pid x ps cont (on_ex x (addJob (je_job p) (je_dueTime p) (je_dequeueCount p)) s))"

subsection \<open>Reconciliation\<close>

definition scheduleCheck :: "int \<Rightarrow> 'm job_silo \<Rightarrow> 'm job_silo" where
  "scheduleCheck now s = s\<lparr> jm_checkHandle :=
     (if jm_stopped s \<or> jo_periodicShardCheckMs (jm_options s) \<le> 0 then None
      else Some (now + jo_periodicShardCheckMs (jm_options s))) \<rparr>"

definition endReconcile :: "nat \<Rightarrow> 'm job_silo \<Rightarrow> 'm job_silo" where
  "endReconcile pid s = jfinish pid (s\<lparr> jm_done := Suc (jm_done s), jm_active := False \<rparr>)"

fun claimShards :: "int \<Rightarrow> nat \<Rightarrow> ownership \<Rightarrow> shard_record list \<Rightarrow> 'm job_silo \<Rightarrow> 'm job_silo" where
  "claimShards now pid own [] s =
     jgo pid (ReconcileOwned (map sr_shardKey (filter (\<lambda>r. sr_owner r = Some (ow_localRingKey own)) (listShards (jm_store s))))) s"
| "claimShards now pid own (r # rs) s =
     (if jm_stopped s then endReconcile pid (scheduleCheck now s)
      else claimAndStart pid (sr_shardKey r)
             (case sr_owner r of None \<Rightarrow> [] | Some w \<Rightarrow> if w \<notin> set (ow_activeRingKeys own) then [w] else [])
             (ThenClaimed own rs) s)"

definition claimableShards :: "ownership \<Rightarrow> shard_record list \<Rightarrow> shard_record list" where
  "claimableShards own shards = filter (\<lambda>r. \<not> sr_poisoned r \<and> sr_owner r \<noteq> Some (ow_localRingKey own)
     \<and> (case sr_owner r of None \<Rightarrow> True | Some w \<Rightarrow> w \<notin> set (ow_activeRingKeys own))) shards"

fun resumeShards :: "int \<Rightarrow> nat \<Rightarrow> ownership \<Rightarrow> shard_record list \<Rightarrow> shard_record list \<Rightarrow> 'm job_silo \<Rightarrow> 'm job_silo" where
  "resumeShards now pid own shards [] s =
     (let claimable = claimableShards own shards; toClaim = claimBudgetForThisStep now (int (length claimable)) s
      in claimShards now pid own (take (nat toClaim) claimable) s)"
| "resumeShards now pid own shards (r # rs) s =
     (if jm_stopped s then endReconcile pid (scheduleCheck now s)
      else if sr_owner r = Some (ow_localRingKey own) \<and> \<not> js_has (jm_executors s) (sr_shardKey r)
      then startExecutor now pid (sr_shardKey r) (ThenResume own shards rs) s
      else resumeShards now pid own shards rs s)"

definition stopExecutor :: "int \<Rightarrow> nat \<Rightarrow> 'm job_silo \<Rightarrow> 'm job_silo" where
  "stopExecutor k x s =
     on_ex x (\<lambda>e. clearPoll (e\<lparr> ex_stopped := True \<rparr>)) (s\<lparr> jm_executors := js_delete k (jm_executors s) \<rparr>)"

fun dropExecutors :: "int \<Rightarrow> nat \<Rightarrow> int list \<Rightarrow> int list \<Rightarrow> 'm job_silo \<Rightarrow> 'm job_silo" where
  "dropExecutors now pid ownedNow [] s = endReconcile pid (scheduleCheck now s)"
| "dropExecutors now pid ownedNow (k # ks) s =
     (if k \<in> set ownedNow then dropExecutors now pid ownedNow ks s
      else (case js_get (jm_executors s) k of
              None \<Rightarrow> dropExecutors now pid ownedNow ks s
            | Some x \<Rightarrow> jgo pid (Dropping x ownedNow ks) (stopExecutor k x s)))"

definition enqueueReconcile :: "'m job_silo \<Rightarrow> 'm job_silo" where
  "enqueueReconcile s = s\<lparr> jm_enqueued := Suc (jm_enqueued s) \<rparr>"

definition refreshOwnership :: "ownership \<Rightarrow> 'm job_silo \<Rightarrow> 'm job_silo" where
  "refreshOwnership own s = enqueueReconcile (if jm_stopped s then s else s\<lparr> jm_ownership := own \<rparr>)"

text \<open>The next queued run of \<open>reconcileNow\<close> begins.\<close>

definition reconcileNow :: "'m job_silo \<Rightarrow> 'm job_silo" where
  "reconcileNow s =
     (if jm_active s \<or> jm_enqueued s \<le> jm_done s then s
      else if jm_stopped s then s\<lparr> jm_done := Suc (jm_done s) \<rparr>
      else jspawn (ReconcileListed (jm_ownership s) (listShards (jm_store s))) (s\<lparr> jm_active := True \<rparr>))"

definition checkFires :: "int \<Rightarrow> 'm job_silo \<Rightarrow> 'm job_silo" where
  "checkFires now s = (case jm_checkHandle s of
      Some due \<Rightarrow> if due \<le> now then enqueueReconcile (s\<lparr> jm_checkHandle := None \<rparr>) else s
    | None \<Rightarrow> s)"

subsection \<open>The methods of the manager\<close>

definition scheduleJob :: "string \<Rightarrow> int \<Rightarrow> grain_id \<Rightarrow> 'm \<Rightarrow> 'm job_silo \<Rightarrow> 'm job_silo \<times> 'm job_event list" where
  "scheduleJob name dueTime target metadata s = (case shardKeyFor dueTime (jo_shardDurationMs (jm_options s)) of
      Inl e \<Rightarrow> (s, [InvalidShardDuration e])
    | Inr k \<Rightarrow>
        (let job = \<lparr> dj_id = jm_guid s, dj_name = name, dj_dueTime = dueTime, dj_target = target, dj_shardKey = k,
                     dj_metadata = metadata \<rparr>
         in (jspawn (Persisted job) (on_store (persistAdd job) (s\<lparr> jm_guid := Suc (jm_guid s) \<rparr>)), [])))"

definition receiveForwardedJob :: "'m durable_job \<Rightarrow> 'm job_silo \<Rightarrow> 'm job_silo" where
  "receiveForwardedJob job s =
     ensureOwned (jm_nextProc s) (dj_shardKey job) (ThenReceive job) (s\<lparr> jm_nextProc := Suc (jm_nextProc s) \<rparr>)"

definition cancelJob :: "nat \<Rightarrow> int \<Rightarrow> 'm job_silo \<Rightarrow> 'm job_silo" where
  "cancelJob i k s = (case js_get (jm_executors s) k of
      Some x \<Rightarrow> on_store (persistRemove (ex_shardKey (jex s x)) i) (on_ex x (\<lambda>e. fst (ex_cancel i e)) s)
    | None \<Rightarrow> on_store (persistRemove k i) s)"

definition jm_stop :: "'m job_silo \<Rightarrow> 'm job_silo" where
  "jm_stop s = jspawn (StopWait (jm_enqueued s)) (s\<lparr> jm_stopped := True, jm_checkHandle := None \<rparr>)"

text \<open>The loop of \<open>stop\<close>, up to the await of the drain.\<close>

definition stopEach :: "nat \<Rightarrow> int list \<Rightarrow> 'm job_silo \<Rightarrow> 'm job_silo" where
  "stopEach pid ks s = (case ks of
      [] \<Rightarrow> jfinish pid s
    | k # ks' \<Rightarrow>
        (case js_get (jm_executors s) k of
           None \<Rightarrow> jgo pid (StopDraining None k ks') s
         | Some x \<Rightarrow> jgo pid (StopDraining (Some x) k ks') (stopExecutor k x s)))"

text \<open>\<open>forwardToShardOwner\<close> up to its first await.\<close>

definition forwardToShardOwner :: "nat \<Rightarrow> 'm durable_job \<Rightarrow> 'm job_silo \<Rightarrow> 'm job_silo" where
  "forwardToShardOwner pid job s =
     (if \<not> jm_canForward s then jgo pid (Forwarded job) s else jgo pid (Forwarding job (listShards (jm_store s))) s)"

fun ownedResume :: "int \<Rightarrow> nat \<Rightarrow> nat option \<Rightarrow> 'm owned_cont \<Rightarrow> 'm job_silo \<Rightarrow> 'm job_silo \<times> 'm job_event list" where
  "ownedResume now pid (Some x) (ThenSchedule job) s = (jfinish pid (on_ex x (ex_enqueue now job) s), [ScheduledJob (dj_id job)])"
| "ownedResume now pid None (ThenSchedule job) s = (forwardToShardOwner pid job s, [])"
| "ownedResume now pid (Some x) (ThenReceive job) s = (jfinish pid (on_ex x (ex_enqueue now job) s), [ReceivedJob (dj_id job) True])"
| "ownedResume now pid None (ThenReceive job) s = (jfinish pid s, [ReceivedJob (dj_id job) False])"
| "ownedResume now pid _ (ThenResume own shards rs) s = (resumeShards now pid own shards rs s, [])"
| "ownedResume now pid xo (ThenClaimed own rs) s =
     (claimShards now pid own rs (if xo = None then s else s\<lparr> jm_claimedSinceJoin := Suc (jm_claimedSinceJoin s) \<rparr>), [])"

definition drained :: "nat option \<Rightarrow> 'm job_silo \<Rightarrow> bool" where
  "drained xo s \<longleftrightarrow> (case xo of None \<Rightarrow> True | Some x \<Rightarrow> ex_inFlight (jex s x) = [])"

text \<open>A process goes on; \<open>result\<close> is what the handler answers when it is its turn.\<close>

definition jresume :: "int \<Rightarrow> nat \<Rightarrow> run_result \<Rightarrow> 'm job_silo \<Rightarrow> 'm job_silo \<times> 'm job_event list" where
  "jresume now pid result s = (case js_get (jm_procs s) pid of
      None \<Rightarrow> (s, [])
    | Some (RunStarting x job durable runId) \<Rightarrow>
        (jgo pid (RunHandler x job runId) s, [RunJob (ex_shardKey (jex s x)) (dj_id durable) (qj_dequeueCount job + 1) runId])
    | Some (RunHandler x job runId) \<Rightarrow> (applyResult now pid x job result (qj_dequeueCount job + 1) runId s, [])
    | Some (RunCompleting x job) \<Rightarrow> (jgo pid (RunEnding x) (dropJob x (qj_id job) s), [])
    | Some (RunEnding x) \<Rightarrow>
        (jfinish pid (on_ex x (\<lambda>e. e\<lparr> ex_inFlight := removeAll pid (ex_inFlight e) \<rparr>) (runFinally now x s)), [])
    | Some (Persisted job) \<Rightarrow> (ensureOwned pid (dj_shardKey job) (ThenSchedule job) s, [])
    | Some (Claimed k claimed cont) \<Rightarrow> (claimedResume now pid k claimed cont s, [])
    | Some (Handing cont) \<Rightarrow> (jgo pid (OwnedBy None cont) s, [])
    | Some (Loading x ps cont) \<Rightarrow> (loadEach now pid x ps cont s, [])
    | Some (OwnedBy xo cont) \<Rightarrow> ownedResume now pid xo cont s
    | Some (Forwarding job shards) \<Rightarrow>
        (jgo pid (Forwarded job) s,
         (case find (\<lambda>r. sr_shardKey r = dj_shardKey job) shards of
            None \<Rightarrow> []
          | Some r \<Rightarrow> (case sr_owner r of None \<Rightarrow> []
              | Some w \<Rightarrow> if w = ow_localRingKey (jm_ownership s) then [] else [ForwardJob w job])))
    | Some (Forwarded job) \<Rightarrow> (jfinish pid s, [ScheduledJob (dj_id job)])
    | Some (ReconcileListed own shards) \<Rightarrow> (resumeShards now pid own shards shards s, [])
    | Some (ReconcileOwned ownedNow) \<Rightarrow> (dropExecutors now pid ownedNow (js_keys (jm_executors s)) s, [])
    | Some (Dropping x ownedNow ks) \<Rightarrow> (if drained (Some x) s then dropExecutors now pid ownedNow ks s else s, [])
    | Some (StopWait n) \<Rightarrow> (if n \<le> jm_done s then stopEach pid (js_keys (jm_executors s)) s else s, [])
    | Some (StopDraining xo k ks) \<Rightarrow>
        (if drained xo s then jgo pid (StopReleased ks) (on_store (releaseShard k (ow_localRingKey (jm_ownership s))) s) else s, [])
    | Some (StopReleased ks) \<Rightarrow> (stopEach pid ks s, []))"

section \<open>Silos and their store\<close>

definition newJobManager :: "job_options \<Rightarrow> bool \<Rightarrow> bool \<Rightarrow> ownership \<Rightarrow> int \<Rightarrow> 'm job_silo" where
  "newJobManager opts hasOverload canForward own now =
     \<lparr> jm_options = opts, jm_hasOverload = hasOverload, jm_canForward = canForward, jm_store = [], jm_guid = 0, jm_ownership = own,
       jm_inUse = 0, jm_executors = [], jm_objects = [], jm_joinedAtMs = now, jm_claimedSinceJoin = 0, jm_checkHandle = None,
       jm_enqueued = 0, jm_done = 0, jm_active = False, jm_stopped = False, jm_procs = [], jm_nextProc = 0 \<rparr>"

datatype 'm job_op =
    ScheduleJob string int grain_id 'm
  | ReceiveJob "'m durable_job"
  | CancelJob nat int
  | Refresh ownership
  | CheckFires int
  | Reconcile
  | StopSilo
  | PollFires int nat bool
  | JResume int nat run_result

definition job_step :: "'m job_op \<Rightarrow> 'm job_silo \<Rightarrow> 'm job_silo \<times> 'm job_event list" where
  "job_step op s = (case op of
      ScheduleJob name dueTime target metadata \<Rightarrow> scheduleJob name dueTime target metadata s
    | ReceiveJob job \<Rightarrow> (receiveForwardedJob job s, [])
    | CancelJob i k \<Rightarrow> (cancelJob i k s, [])
    | Refresh own \<Rightarrow> (refreshOwnership own s, [])
    | CheckFires now \<Rightarrow> (checkFires now s, [])
    | Reconcile \<Rightarrow> (reconcileNow s, [])
    | StopSilo \<Rightarrow> (jm_stop s, [])
    | PollFires now x overload \<Rightarrow> (pollFires now x overload s, [])
    | JResume now pid result \<Rightarrow> jresume now pid result s)"

text \<open>The silos of a cluster over one store. The store and the source of GUIDs are shared; a silo that crashed takes no
  further step.\<close>

record 'm job_world =
  jw_store :: "'m job_store"
  jw_guid :: nat
  jw_silos :: "'m job_silo list"
  jw_down :: "nat list"

datatype 'm world_op = At nat "'m job_op" | Crash nat | Join job_options bool bool ownership int

definition at_silo :: "'m job_world \<Rightarrow> nat \<Rightarrow> 'm job_silo" where
  "at_silo w i = (jw_silos w ! i)\<lparr> jm_store := jw_store w, jm_guid := jw_guid w \<rparr>"

fun world_step :: "'m job_world \<Rightarrow> 'm world_op \<Rightarrow> 'm job_world \<times> (nat \<times> 'm job_event) list" where
  "world_step w (At i op) =
     (if i < length (jw_silos w) \<and> i \<notin> set (jw_down w) then
        (case job_step op (at_silo w i) of (s, evs) \<Rightarrow>
           (w\<lparr> jw_store := jm_store s, jw_guid := jm_guid s, jw_silos := (jw_silos w)[i := s] \<rparr>, map (Pair i) evs))
      else (w, []))"
| "world_step w (Crash i) = (w\<lparr> jw_down := i # jw_down w \<rparr>, [])"
| "world_step w (Join opts hasOverload canForward own now) =
     (w\<lparr> jw_silos := jw_silos w @ [newJobManager opts hasOverload canForward own now] \<rparr>, [])"

fun run_world :: "'m job_world \<Rightarrow> 'm world_op list \<Rightarrow> 'm job_world \<times> (nat \<times> 'm job_event) list" where
  "run_world w [] = (w, [])"
| "run_world w (op # ops) =
     (case world_step w op of (w', evs) \<Rightarrow> case run_world w' ops of (w'', evs') \<Rightarrow> (w'', evs @ evs'))"

definition emptyWorld :: "'m job_world" where
  "emptyWorld = \<lparr> jw_store = [], jw_guid = 0, jw_silos = [], jw_down = [] \<rparr>"

section \<open>Options\<close>

record durable_jobs_options =
  do_shardDuration :: "duration option"
  do_maxConcurrentJobsPerSilo :: "nat option"
  do_slowStartInitialConcurrency :: "nat option"
  do_slowStartGrowthFactor :: "rat option"
  do_slowStartInterval :: "duration option"
  do_overloadBackoff :: "duration option"
  do_shouldRetry :: "should_retry option"
  do_maxAdoptedCount :: "nat option"
  do_claimRampUpBudget :: "int option"
  do_shardClaimInitialBudget :: "int option"
  do_shardClaimMaxBudget :: "int option"
  do_shardClaimRampUpDuration :: "duration option"
  do_periodicShardCheckInterval :: "duration option"

definition DAY :: int where
  "DAY = 86400000"

definition resolveOptions :: "durable_jobs_options \<Rightarrow> job_options" where
  "resolveOptions o' =
     (let ms = \<lambda>d default. or_else (map_option durationToMs d) default;
          shardDurationMs = ms (do_shardDuration o') 3600000
      in \<lparr> jo_shardDurationMs = (if shardDurationMs > 0 then shardDurationMs else DAY),
           jo_maxConcurrentJobsPerSilo = or_else (do_maxConcurrentJobsPerSilo o') 100,
           jo_slowStartInitialConcurrency = or_else (do_slowStartInitialConcurrency o') 1,
           jo_slowStartGrowthFactor = or_else (do_slowStartGrowthFactor o') 2,
           jo_slowStartIntervalMs = ms (do_slowStartInterval o') 10000,
           jo_overloadBackoffMs = ms (do_overloadBackoff o') 1000,
           jo_shouldRetry = or_else (do_shouldRetry o') defaultShouldRetry,
           jo_maxAdoptedCount = or_else (do_maxAdoptedCount o') 3,
           jo_claimRampUpBudget = or_else (do_claimRampUpBudget o') 4,
           jo_shardClaimInitialBudget = or_else (do_shardClaimInitialBudget o') 2,
           jo_shardClaimMaxBudget = or_else (do_shardClaimMaxBudget o') 20,
           jo_shardClaimRampUpDurationMs = ms (do_shardClaimRampUpDuration o') 0,
           jo_periodicShardCheckMs = ms (do_periodicShardCheckInterval o') 600000 \<rparr>)"

text \<open>The configuration errors carry the values the message prints.\<close>

datatype config_error = NegativeInitialBudget int | MaxBelowInitial int int | NegativeRampUp int

definition validateConfiguration :: "durable_jobs_options \<Rightarrow> config_error + unit" where
  "validateConfiguration o' =
     (let initialBudget = or_else (do_shardClaimInitialBudget o') 2;
          maxBudget = or_else (do_shardClaimMaxBudget o') 20;
          rampUpDurationMs = or_else (map_option durationToMs (do_shardClaimRampUpDuration o')) 300000
      in if initialBudget < 0 then Inl (NegativeInitialBudget initialBudget)
         else if maxBudget < initialBudget then Inl (MaxBelowInitial maxBudget initialBudget)
         else if rampUpDurationMs < 0 then Inl (NegativeRampUp rampUpDurationMs)
         else Inr ())"

text \<open>Resolved options never make \<open>scheduleJob\<close> throw, and a job's due time lies in its shard.\<close>

lemma resolved_shard:
  "\<exists>k. shardKeyFor due (jo_shardDurationMs (resolveOptions o')) = Inr k
     \<and> shardStartMs k (jo_shardDurationMs (resolveOptions o')) \<le> due \<and> due < shardStartMs (k + 1) (jo_shardDurationMs (resolveOptions o'))"
proof -
  let ?d = "jo_shardDurationMs (resolveOptions o')"
  have d: "0 < ?d" by (simp add: resolveOptions_def Let_def DAY_def)
  have "?d * (due div ?d) + due mod ?d = due" "due mod ?d < ?d" "0 \<le> due mod ?d" using d by simp_all
  then have "?d * (due div ?d) \<le> due" "due < ?d * (due div ?d + 1)" unfolding distrib_left by linarith+
  with d show ?thesis by (simp add: shardKeyFor_def shardStartMs_def mult.commute)
qed

text \<open>A validated claim budget stays between zero and the configured maximum until the ramp-up ends.\<close>

lemma ramp_up_budget:
  assumes "0 \<le> initialBudget" "initialBudget \<le> maxBudget" "0 \<le> elapsedMs" "elapsedMs < rampUpDurationMs" "0 \<le> claimed"
  shows "0 \<le> computeClaimBudget rampUpDurationMs initialBudget maxBudget elapsedMs claimed
    \<and> computeClaimBudget rampUpDurationMs initialBudget maxBudget elapsedMs claimed \<le> maxBudget"
proof -
  let ?f = "of_int elapsedMs / of_int rampUpDurationMs * of_int (maxBudget - initialBudget) :: rat"
  have pos: "0 \<le> ?f" using assms by simp
  have "of_int elapsedMs / of_int rampUpDurationMs \<le> (1 :: rat)" using assms by simp
  then have "?f \<le> 1 * of_int (maxBudget - initialBudget)" using assms by (intro mult_right_mono) simp_all
  then have "\<lfloor>?f\<rfloor> \<le> maxBudget - initialBudget" by (simp add: floor_le_iff)
  with pos assms show ?thesis by (simp add: computeClaimBudget_def Let_def trunc_def)
qed

end
