(* ===== verification/Durable_Jobs_Safety.thy ===== *)
theory Durable_Jobs_Safety
  imports Durable_Jobs
begin

text \<open>
  The bookkeeping of the durable-jobs manager of one silo: the slots of the concurrency limiter are exactly the runs in
  flight, and every job of an executor's working set is queued behind an armed timer or being run.
\<close>

section \<open>Runs\<close>

fun run_at :: "'m job_process \<Rightarrow> nat option" where
  "run_at (RunStarting x job durable runId) = Some x"
| "run_at (RunHandler x job runId) = Some x"
| "run_at (RunCompleting x job) = Some x"
| "run_at (RunEnding x) = Some x"
| "run_at p = None"

definition run_of :: "'m job_silo \<Rightarrow> nat \<Rightarrow> nat option" where
  "run_of s pid = Option.bind (js_get (jm_procs s) pid) run_at"

definition load_of :: "'m executor \<Rightarrow> nat \<times> nat list \<times> nat" where
  "load_of e = (ex_running e, ex_inFlight e, ex_concurrency e)"

definition loads :: "'m job_silo \<Rightarrow> (nat \<times> nat list \<times> nat) list" where
  "loads s = map load_of (jm_objects s)"

text \<open>The runs of an executor are the processes in flight, within its ceiling; the limiter counts them all.\<close>

definition runs_ok :: "'m job_silo \<Rightarrow> bool" where
  "runs_ok s \<longleftrightarrow> (\<forall>pid. js_has (jm_procs s) pid \<longrightarrow> pid < jm_nextProc s)
     \<and> (\<forall>e \<in> set (jm_objects s). distinct (ex_inFlight e) \<and> ex_running e = length (ex_inFlight e) \<and> ex_running e \<le> ex_concurrency e)
     \<and> (\<forall>pid x. run_of s pid = Some x \<longleftrightarrow> x < length (jm_objects s) \<and> pid \<in> set (ex_inFlight (jex s x)))
     \<and> jm_inUse s = sum_list (map ex_running (jm_objects s)) \<and> jm_inUse s \<le> jo_maxConcurrentJobsPerSilo (jm_options s)"

text \<open>A step that starts and ends no run.\<close>

definition quiet :: "'m job_silo \<Rightarrow> 'm job_silo \<Rightarrow> bool" where
  "quiet s s' \<longleftrightarrow> (\<exists>es. loads s' = loads s @ es \<and> (\<forall>e \<in> set es. fst e = 0 \<and> fst (snd e) = []))
     \<and> jm_inUse s' = jm_inUse s \<and> jm_options s' = jm_options s \<and> jm_nextProc s \<le> jm_nextProc s' \<and> run_of s' = run_of s
     \<and> (\<forall>pid. js_has (jm_procs s') pid \<longrightarrow> js_has (jm_procs s) pid \<or> pid < jm_nextProc s')"

lemma quiet_refl [simp]: "quiet s s"
  by (auto simp: quiet_def intro!: exI [of _ "[]"])

lemma quiet_trans: "quiet s s' \<Longrightarrow> quiet s' s'' \<Longrightarrow> quiet s s''"
proof -
  assume a: "quiet s s'" and b: "quiet s' s''"
  from a obtain es where es: "loads s' = loads s @ es" "\<forall>e \<in> set es. fst e = 0 \<and> fst (snd e) = []" by (auto simp: quiet_def)
  from b obtain es' where es': "loads s'' = loads s' @ es'" "\<forall>e \<in> set es'. fst e = 0 \<and> fst (snd e) = []" by (auto simp: quiet_def)
  have "loads s'' = loads s @ (es @ es') \<and> (\<forall>e \<in> set (es @ es'). fst e = 0 \<and> fst (snd e) = [])" using es es' by auto
  moreover have "\<forall>pid. js_has (jm_procs s'') pid \<longrightarrow> js_has (jm_procs s) pid \<or> pid < jm_nextProc s''"
    using a b unfolding quiet_def by (metis order_less_le_trans)
  moreover have "jm_nextProc s \<le> jm_nextProc s''" using a b by (simp add: quiet_def)
  ultimately show ?thesis using a b by (auto simp: quiet_def)
qed

lemma loads_sel:
  "length (loads s) = length (jm_objects s)"
  "x < length (jm_objects s) \<Longrightarrow> loads s ! x = (ex_running (jex s x), ex_inFlight (jex s x), ex_concurrency (jex s x))"
  "map ex_running (jm_objects s) = map fst (loads s)"
  by (simp_all add: loads_def load_of_def)

lemma runs_ok_loads:
  "runs_ok s \<longleftrightarrow> (\<forall>pid. js_has (jm_procs s) pid \<longrightarrow> pid < jm_nextProc s)
     \<and> (\<forall>(n, ps, m) \<in> set (loads s). distinct ps \<and> n = length ps \<and> n \<le> m)
     \<and> (\<forall>pid x. run_of s pid = Some x \<longleftrightarrow> x < length (loads s) \<and> pid \<in> set (fst (snd (loads s ! x))))
     \<and> jm_inUse s = sum_list (map fst (loads s)) \<and> jm_inUse s \<le> jo_maxConcurrentJobsPerSilo (jm_options s)"
  unfolding runs_ok_def loads_sel(3) by (auto simp: loads_def load_of_def)

lemma quiet_runs_ok:
  assumes "runs_ok s" "quiet s s'"
  shows "runs_ok s'"
proof -
  obtain es where es: "loads s' = loads s @ es" "\<forall>e \<in> set es. fst e = 0 \<and> fst (snd e) = []" using assms(2) by (auto simp: quiet_def)
  have sum: "sum_list (map fst es) = 0" using es(2) by (induction es) auto
  have "run_of s' pid = Some x \<longleftrightarrow> x < length (loads s') \<and> pid \<in> set (fst (snd (loads s' ! x)))" for pid x
  proof -
    have "fst (snd (loads s' ! x)) = []" if "length (loads s) \<le> x" "x < length (loads s')"
      using that es nth_mem [of "x - length (loads s)" es] by (auto simp: nth_append)
    then show ?thesis using assms es(1) unfolding runs_ok_loads quiet_def by (auto simp: nth_append)
  qed
  moreover have "\<forall>pid. js_has (jm_procs s') pid \<longrightarrow> pid < jm_nextProc s'"
    using assms unfolding runs_ok_loads quiet_def by (metis order_less_le_trans)
  moreover have "\<forall>(n, ps, m) \<in> set (loads s'). distinct ps \<and> n = length ps \<and> n \<le> m"
    using assms(1) es unfolding runs_ok_loads by fastforce
  ultimately show ?thesis using assms es(1) sum unfolding runs_ok_loads [of s'] by (simp add: quiet_def runs_ok_loads)
qed

text \<open>A process that is no run and goes on.\<close>

definition idle_pid :: "'m job_silo \<Rightarrow> nat \<Rightarrow> bool" where
  "idle_pid s pid \<longleftrightarrow> run_of s pid = None \<and> pid < jm_nextProc s"

lemma quiet_idle: "quiet s s' \<Longrightarrow> idle_pid s pid \<Longrightarrow> idle_pid s' pid"
  by (auto simp: quiet_def idle_pid_def)

lemma loads_on_ex: "(\<And>e. load_of (f e) = load_of e) \<Longrightarrow> loads (on_ex x f s) = loads s"
  by (cases "x < length (jm_objects s)") (simp_all add: loads_def on_ex_def map_update list_update_same_conv list_update_beyond)

lemma quiet_frame:
  assumes "loads s' = loads s" "jm_inUse s' = jm_inUse s" "jm_options s' = jm_options s" "jm_nextProc s' = jm_nextProc s"
    "jm_procs s' = jm_procs s"
  shows "quiet s s'"
  using assms by (auto simp: quiet_def run_of_def intro!: exI [of _ "[]"])

lemma quiet_jgo: "idle_pid s pid \<Longrightarrow> run_at p = None \<Longrightarrow> quiet s (jgo pid p s)"
  by (auto simp: quiet_def jgo_def loads_def run_of_def idle_pid_def js_get_set fun_eq_iff intro!: exI [of _ "[]"])

lemma quiet_jfinish: "idle_pid s pid \<Longrightarrow> quiet s (jfinish pid s)"
  by (auto simp: quiet_def jfinish_def loads_def run_of_def idle_pid_def js_get_delete fun_eq_iff intro!: exI [of _ "[]"])

lemma quiet_jspawn: "runs_ok s \<Longrightarrow> run_at p = None \<Longrightarrow> quiet s (jspawn p s)"
  by (auto simp: quiet_def jspawn_def loads_def run_of_def js_get_set runs_ok_def fun_eq_iff intro!: exI [of _ "[]"] split: bind_split)

lemma load_of_simps [simp]:
  "load_of (schedulePoll now e) = load_of e" "load_of (clearPoll e) = load_of e" "load_of (addJob job due n e) = load_of e"
  "load_of (ex_enqueue now job e) = load_of e" "load_of (fst (ex_cancel i e)) = load_of e"
  "load_of (scheduleSaturatedPoll opts now e) = load_of e"
  "load_of (e\<lparr> ex_queue := q \<rparr>) = load_of e" "load_of (e\<lparr> ex_jobs := js \<rparr>) = load_of e" "load_of (e\<lparr> ex_stopped := b \<rparr>) = load_of e"
  "load_of (e\<lparr> ex_pollHandle := h \<rparr>) = load_of e"
  by (simp_all add: load_of_def schedulePoll_def clearPoll_def addJob_def ex_enqueue_def ex_cancel_def scheduleSaturatedPoll_def
      Let_def case_prod_unfold split: option.splits)

lemma quiet_on_ex: "(\<And>e. load_of (f e) = load_of e) \<Longrightarrow> quiet s (on_ex x f s)"
  by (rule quiet_frame) (simp_all add: loads_on_ex, simp_all add: on_ex_def)

lemma quiet_on_store [simp]: "quiet s (on_store f s)"
  by (rule quiet_frame) (simp_all add: on_store_def loads_def)

text \<open>Two quiet steps in a row, where the second needs the process to be idle still.\<close>

lemma quiet_then_jgo: "quiet s s' \<Longrightarrow> idle_pid s pid \<Longrightarrow> run_at p = None \<Longrightarrow> quiet s (jgo pid p s')"
  using quiet_trans quiet_jgo quiet_idle by metis

lemma quiet_then_jfinish: "quiet s s' \<Longrightarrow> idle_pid s pid \<Longrightarrow> quiet s (jfinish pid s')"
  using quiet_trans quiet_jfinish quiet_idle by metis

lemma quiet_then_store: "quiet s s' \<Longrightarrow> quiet s (on_store f s')"
  using quiet_trans quiet_on_store by metis

lemma quiet_then_ex: "quiet s s' \<Longrightarrow> (\<And>e. load_of (f e) = load_of e) \<Longrightarrow> quiet s (on_ex x f s')"
  using quiet_trans quiet_on_ex by metis

lemmas quiet_intros = quiet_then_jgo quiet_then_jfinish quiet_then_store quiet_then_ex quiet_refl

subsection \<open>Quiet operations\<close>

lemma quiet_startExecutor:
  assumes "idle_pid s pid"
  shows "quiet s (startExecutor now pid k cont s)"
proof -
  let ?s = "s\<lparr> jm_objects := jm_objects s @ [newExecutor (jm_options s) now k], jm_executors := js_set k (length (jm_objects s)) (jm_executors s) \<rparr>"
  have "quiet s ?s"
    by (auto simp: quiet_def loads_def run_of_def load_of_def newExecutor_def intro!: exI [of _ "[(0, [], _)]"])
  with assms show ?thesis
    by (auto simp: startExecutor_def Let_def intro!: quiet_intros split: option.splits)
qed

lemma quiet_claimAndStart:
  assumes "idle_pid s pid"
  shows "quiet s (claimAndStart pid k dead cont s)"
proof -
  have "quiet s (s\<lparr> jm_store := st \<rparr>)" for st by (rule quiet_frame) (simp_all add: loads_def)
  with assms show ?thesis by (auto simp: claimAndStart_def case_prod_unfold intro!: quiet_intros)
qed

lemma quiet_claimedResume: "idle_pid s pid \<Longrightarrow> quiet s (claimedResume now pid k claimed cont s)"
  by (auto simp: claimedResume_def quiet_startExecutor intro!: quiet_intros split: option.splits)

lemma quiet_ensureOwned: "idle_pid s pid \<Longrightarrow> quiet s (ensureOwned pid k cont s)"
  by (auto simp: ensureOwned_def quiet_claimAndStart intro!: quiet_intros split: option.splits)

lemma quiet_loadEach: "idle_pid s pid \<Longrightarrow> quiet s (loadEach now pid x ps cont s)"
proof (induction ps arbitrary: s)
  case Nil
  then show ?case by (auto intro!: quiet_intros)
next
  case (Cons p ps)
  let ?s = "on_ex x (addJob (je_job p) (je_dueTime p) (je_dequeueCount p)) s"
  have "quiet s ?s" by (rule quiet_on_ex) simp
  moreover from Cons.IH [OF quiet_idle [OF this Cons.prems]] have "quiet ?s (loadEach now pid x ps cont ?s)" .
  ultimately have "quiet s (loadEach now pid x ps cont ?s)" by (rule quiet_trans)
  with Cons.prems show ?case by (auto intro!: quiet_intros)
qed

lemma quiet_endReconcile:
  assumes "idle_pid s pid"
  shows "quiet s (endReconcile pid (scheduleCheck now s))"
proof -
  have "quiet s (scheduleCheck now s\<lparr> jm_done := Suc (jm_done (scheduleCheck now s)), jm_active := False \<rparr>)"
    by (rule quiet_frame) (simp_all add: scheduleCheck_def loads_def)
  with assms show ?thesis unfolding endReconcile_def by (intro quiet_intros)
qed

lemma quiet_claimShards: "idle_pid s pid \<Longrightarrow> quiet s (claimShards now pid own rs s)"
  by (cases rs) (auto simp: quiet_endReconcile quiet_claimAndStart intro!: quiet_intros)

lemma quiet_resumeShards: "idle_pid s pid \<Longrightarrow> quiet s (resumeShards now pid own shards rs s)"
  by (induction rs) (auto simp: Let_def quiet_claimShards quiet_endReconcile quiet_startExecutor)

lemma quiet_stopExecutor: "quiet s (stopExecutor k x s)"
proof -
  have "quiet s (s\<lparr> jm_executors := m \<rparr>)" for m by (rule quiet_frame) (simp_all add: loads_def)
  then show ?thesis unfolding stopExecutor_def by (rule quiet_then_ex) simp
qed

lemma quiet_dropExecutors: "idle_pid s pid \<Longrightarrow> quiet s (dropExecutors now pid ownedNow ks s)"
  by (induction ks) (auto simp: quiet_endReconcile quiet_then_jgo [OF quiet_stopExecutor] split: option.splits)

lemma quiet_stopEach: "idle_pid s pid \<Longrightarrow> quiet s (stopEach pid ks s)"
  by (auto simp: stopEach_def quiet_then_jgo [OF quiet_stopExecutor] intro!: quiet_intros split: list.splits option.splits)

lemma quiet_ownedResume:
  assumes "idle_pid s pid"
  shows "quiet s (fst (ownedResume now pid xo cont s))"
proof -
  have "quiet s (s\<lparr> jm_claimedSinceJoin := n \<rparr>)" for n by (rule quiet_frame) (simp_all add: loads_def)
  then have "quiet s (claimShards now pid own rs (s\<lparr> jm_claimedSinceJoin := n \<rparr>))" for own rs n
    using quiet_trans quiet_claimShards quiet_idle [OF _ assms] by metis
  with assms show ?thesis
    by (cases "(now, pid, xo, cont, s)" rule: ownedResume.cases)
       (auto simp: forwardToShardOwner_def quiet_resumeShards quiet_claimShards intro!: quiet_intros)
qed

subsection \<open>Runs start and end\<close>

lemma sum_list_update_load:
  fixes ls :: "(nat \<times> 'b) list"
  shows "x < length ls \<Longrightarrow> sum_list (map fst (ls[x := l])) + fst (ls ! x) = sum_list (map fst ls) + fst l"
  by (induction ls arbitrary: x) (auto split: nat.split simp: nth_Cons')

lemma list_update_all: "P v \<Longrightarrow> \<forall>l \<in> set ls. P l \<Longrightarrow> \<forall>l \<in> set (ls[x := v]). P l"
  using set_update_subset_insert [of ls x v] by auto

lemma start_run:
  assumes "runs_ok s" "x < length (loads s)" "loads s ! x = (n, ps, m)" "n < m" "jm_inUse s < jo_maxConcurrentJobsPerSilo (jm_options s)"
    and "loads s' = (loads s)[x := (Suc n, jm_nextProc s # ps, m)]" "jm_inUse s' = Suc (jm_inUse s)" "jm_options s' = jm_options s"
    "jm_nextProc s' = Suc (jm_nextProc s)" "jm_procs s' = js_set (jm_nextProc s) p (jm_procs s)" "run_at p = Some x"
  shows "runs_ok s'"
proof -
  have fresh: "\<not> js_has (jm_procs s) (jm_nextProc s)" using assms(1) by (auto simp: runs_ok_def)
  then have "run_of s (jm_nextProc s) = None" by (simp add: run_of_def)
  then have notin: "jm_nextProc s \<notin> set (fst (snd (loads s ! y)))" if "y < length (loads s)" for y
    using assms(1) that unfolding runs_ok_loads by (metis option.distinct(1))
  have "run_of s' = (run_of s)(jm_nextProc s := Some x)" using assms(10,11) by (auto simp: run_of_def js_get_set)
  moreover have "sum_list (map fst (loads s')) = Suc (sum_list (map fst (loads s)))"
    using sum_list_update_load [OF assms(2), of "(Suc n, jm_nextProc s # ps, m)"] assms(3,6) by simp
  moreover have "\<forall>(n, ps, m) \<in> set (loads s'). distinct ps \<and> n = length ps \<and> n \<le> m"
  proof -
    have "(n, ps, m) \<in> set (loads s)" using assms(2,3) nth_mem by fastforce
    then have "distinct ps" "n = length ps" using assms(1) unfolding runs_ok_loads by auto
    then have "(case (Suc n, jm_nextProc s # ps, m) of (n, ps, m) \<Rightarrow> distinct ps \<and> n = length ps \<and> n \<le> m)"
      using notin [OF assms(2)] assms(3,4) by simp
    moreover have "\<forall>l \<in> set (loads s). (case l of (n, ps, m) \<Rightarrow> distinct ps \<and> n = length ps \<and> n \<le> m)"
      using assms(1) unfolding runs_ok_loads by fastforce
    ultimately show ?thesis unfolding assms(6) by (intro list_update_all)
  qed
  moreover have "run_of s' pid = Some y \<longleftrightarrow> y < length (loads s') \<and> pid \<in> set (fst (snd (loads s' ! y)))" for pid y
  proof (cases "pid = jm_nextProc s")
    case True
    then show ?thesis using calculation(1) notin [of y] assms(2,6) by (auto simp: nth_list_update)
  next
    case False
    then have "run_of s' pid = run_of s pid" using calculation(1) by simp
    moreover have "pid \<in> set (fst (snd (loads s' ! y))) \<longleftrightarrow> pid \<in> set (fst (snd (loads s ! y)))" if "y < length (loads s)"
      using that False assms(2,3,6) by (cases "y = x") simp_all
    ultimately show ?thesis using assms(1,6) unfolding runs_ok_loads [of s] by auto
  qed
  moreover have "\<forall>pid. js_has (jm_procs s') pid \<longrightarrow> pid < jm_nextProc s'"
    using assms(1) unfolding runs_ok_def assms(9,10) by (simp add: js_get_set less_Suc_eq)
  ultimately show ?thesis using assms(1,5,7,8) unfolding runs_ok_loads [of s'] runs_ok_loads [of s] by simp
qed

lemma end_run:
  assumes "runs_ok s" "run_of s pid = Some x" "loads s ! x = (n, ps, m)"
    and "loads s' = (loads s)[x := (n - 1, removeAll pid ps, m)]" "jm_inUse s' = jm_inUse s - 1" "jm_options s' = jm_options s"
    "jm_nextProc s' = jm_nextProc s" "jm_procs s' = js_delete pid (jm_procs s)"
  shows "runs_ok s'"
proof -
  have x: "x < length (loads s)" "pid \<in> set ps" using assms(1-3) unfolding runs_ok_loads by auto
  have "(n, ps, m) \<in> set (loads s)" using assms(3) x(1) nth_mem by fastforce
  then have ps: "distinct ps" "n = length ps" "n \<le> m" using assms(1) unfolding runs_ok_loads by auto
  then have n: "0 < n" using x(2) by (cases ps) auto
  have "run_of s' = (run_of s)(pid := None)" using assms(8) by (auto simp: run_of_def js_get_delete)
  moreover have "sum_list (map fst (loads s')) = sum_list (map fst (loads s)) - 1"
    using sum_list_update_load [OF x(1), of "(n - 1, removeAll pid ps, m)"] assms(3,4) n by simp
  moreover have "\<forall>(n, ps, m) \<in> set (loads s'). distinct ps \<and> n = length ps \<and> n \<le> m"
  proof -
    have "(case (n - 1, removeAll pid ps, m) of (n, ps, m) \<Rightarrow> distinct ps \<and> n = length ps \<and> n \<le> m)"
      using ps x(2) by (simp add: distinct_remove1_removeAll [symmetric] length_remove1 le_diff_conv)
    moreover have "\<forall>l \<in> set (loads s). (case l of (n, ps, m) \<Rightarrow> distinct ps \<and> n = length ps \<and> n \<le> m)"
      using assms(1) unfolding runs_ok_loads by fastforce
    ultimately show ?thesis unfolding assms(4) by (intro list_update_all)
  qed
  moreover have "pid \<notin> set (fst (snd (loads s ! y)))" if "y < length (loads s)" "y \<noteq> x" for y
    using assms(1,2) that unfolding runs_ok_loads by (metis option.inject)
  ultimately show ?thesis
    using assms x unfolding runs_ok_loads [of s'] runs_ok_loads [of s] by (auto simp: js_get_delete nth_list_update split: if_splits)
qed

lemma loads_on_ex_at: "x < length (jm_objects s) \<Longrightarrow> loads (on_ex x f s) = (loads s)[x := load_of (f (jex s x))]"
  by (simp add: loads_def on_ex_def map_update)

lemma on_ex_sel [simp]:
  "jm_inUse (on_ex x f s) = jm_inUse s" "jm_options (on_ex x f s) = jm_options s" "jm_nextProc (on_ex x f s) = jm_nextProc s"
  "jm_procs (on_ex x f s) = jm_procs s" "jm_store (on_ex x f s) = jm_store s" "jm_executors (on_ex x f s) = jm_executors s"
  "length (jm_objects (on_ex x f s)) = length (jm_objects s)" "jm_stopped (on_ex x f s) = jm_stopped s"
  "jm_guid (on_ex x f s) = jm_guid s" "jm_active (on_ex x f s) = jm_active s" "jm_done (on_ex x f s) = jm_done s"
  "jm_enqueued (on_ex x f s) = jm_enqueued s" "jm_ownership (on_ex x f s) = jm_ownership s"
  "jm_hasOverload (on_ex x f s) = jm_hasOverload s"
  by (simp_all add: on_ex_def)

lemma on_ex_jex: "y < length (jm_objects s) \<Longrightarrow> jex (on_ex x f s) y = (if y = x then f (jex s x) else jex s y)"
  by (simp add: on_ex_def nth_list_update)

lemma on_store_sel [simp]:
  "jm_inUse (on_store f s) = jm_inUse s" "jm_options (on_store f s) = jm_options s" "jm_nextProc (on_store f s) = jm_nextProc s"
  "jm_procs (on_store f s) = jm_procs s" "jm_store (on_store f s) = f (jm_store s)" "jm_executors (on_store f s) = jm_executors s"
  "jm_objects (on_store f s) = jm_objects s" "jm_stopped (on_store f s) = jm_stopped s" "loads (on_store f s) = loads s"
  "jm_guid (on_store f s) = jm_guid s" "jm_active (on_store f s) = jm_active s" "jm_done (on_store f s) = jm_done s"
  "jm_enqueued (on_store f s) = jm_enqueued s" "jm_ownership (on_store f s) = jm_ownership s"
  by (simp_all add: on_store_def loads_def)

text \<open>\<open>runOne\<close> with the slot just acquired.\<close>

lemma runOne_none:
  assumes "x < length (jm_objects s)" "js_get (ex_jobs (jex s x)) (qj_id job) = None"
  shows "runOne now x job s = on_ex x (schedulePoll now) (lm_release s)"
  using assms by (simp add: runOne_def runFinally_def Let_def on_ex_def lm_release_def)

lemma runOne_some:
  assumes "x < length (jm_objects s)" "js_get (ex_jobs (jex s x)) (qj_id job) = Some d"
  shows "runOne now x job s = jspawn (RunStarting x job d (jm_guid s))
    (on_store (persistRunStart (ex_shardKey (jex s x)) (dj_id d) (jm_guid s))
      (on_ex x (\<lambda>e. e\<lparr> ex_running := ex_running e + 1, ex_inFlight := jm_nextProc s # ex_inFlight e \<rparr>) (s\<lparr> jm_guid := Suc (jm_guid s) \<rparr>)))"
  using assms by (simp add: runOne_def Let_def on_ex_def on_store_def jspawn_def)

lemma runOne_runs_ok:
  assumes "runs_ok s" "x < length (jm_objects s)" "ex_running (jex s x) < ex_concurrency (jex s x)"
    "jm_inUse s < jo_maxConcurrentJobsPerSilo (jm_options s)"
  shows "runs_ok (runOne now x job (s\<lparr> jm_inUse := jm_inUse s + 1 \<rparr>))"
proof (cases "js_get (ex_jobs (jex s x)) (qj_id job)")
  case None
  have "quiet s (on_ex x (schedulePoll now) (lm_release (s\<lparr> jm_inUse := jm_inUse s + 1 \<rparr>)))"
    by (rule quiet_frame) (simp_all add: loads_on_ex, simp_all add: lm_release_def loads_def)
  with None assms(1,2) show ?thesis by (simp add: runOne_none quiet_runs_ok)
next
  case (Some d)
  let ?s = "s\<lparr> jm_inUse := jm_inUse s + 1, jm_guid := Suc (jm_guid s) \<rparr>"
  have loads: "loads ?s = loads s" by (simp add: loads_def)
  show ?thesis
    using assms Some loads
    by (intro start_run [OF assms(1), of x "ex_running (jex s x)" "ex_inFlight (jex s x)" "ex_concurrency (jex s x)" _ "RunStarting x job d (jm_guid s)"])
       (simp_all add: runOne_some jspawn_def loads_sel loads_on_ex_at load_of_def, simp_all add: loads_def on_ex_def on_store_def map_update load_of_def)
qed

lemma tryAcquire_runs: "snd (tryAcquire s) \<Longrightarrow> fst (tryAcquire s) = s\<lparr> jm_inUse := jm_inUse s + 1 \<rparr> \<and>
    jm_inUse s < jo_maxConcurrentJobsPerSilo (jm_options s)"
  by (simp add: tryAcquire_def split: if_splits)

lemma runOne_length: "length (jm_objects (runOne now x job s)) = length (jm_objects s)"
  by (simp add: runOne_def runFinally_def Let_def lm_release_def jspawn_def split: option.splits)

lemma pollEach_runs_ok:
  "runs_ok s \<Longrightarrow> x < length (jm_objects s) \<Longrightarrow>
   runs_ok (fst (pollEach now x due s)) \<and> length (jm_objects (fst (pollEach now x due s))) = length (jm_objects s)"
proof (induction due arbitrary: s)
  case (Cons job due)
  let ?b = "on_ex x (\<lambda>e. e\<lparr> ex_queue := jq_add (job\<lparr> qj_dueMs := now \<rparr>) (ex_queue e) \<rparr>) s"
  let ?r = "runOne now x job (fst (tryAcquire s))"
  show ?case
  proof (cases "ex_concurrency (jex s x) \<le> ex_running (jex s x) \<or> \<not> snd (tryAcquire s)")
    case True
    have "runs_ok ?b" by (rule quiet_runs_ok [OF Cons.prems(1)]) (rule quiet_on_ex, simp)
    with Cons.IH [of ?b] Cons.prems(2) True show ?thesis by (simp add: case_prod_unfold)
  next
    case False
    then have "runs_ok ?r" "length (jm_objects ?r) = length (jm_objects s)"
      using runOne_runs_ok [OF Cons.prems, of now job] tryAcquire_runs [of s] by (auto simp: runOne_length)
    with Cons.IH [of ?r] Cons.prems(2) False show ?thesis by (simp add: case_prod_unfold)
  qed
qed simp

lemma raise_runs_ok:
  assumes "runs_ok s" "x < length (jm_objects s)" "ex_concurrency (jex s x) \<le> c"
  shows "runs_ok (on_ex x (\<lambda>e. e\<lparr> ex_concurrency := c \<rparr>) s)"
proof -
  let ?s = "on_ex x (\<lambda>e. e\<lparr> ex_concurrency := c \<rparr>) s"
  have ex: "\<forall>e \<in> set (jm_objects s). distinct (ex_inFlight e) \<and> ex_running e = length (ex_inFlight e) \<and> ex_running e \<le> ex_concurrency e"
    and x: "jex s x \<in> set (jm_objects s)" using assms by (auto simp: runs_ok_def)
  have "map ex_running (jm_objects ?s) = map ex_running (jm_objects s)"
    using assms(2) by (simp add: on_ex_def map_update list_update_same_conv)
  moreover have "\<forall>e \<in> set (jm_objects ?s). distinct (ex_inFlight e) \<and> ex_running e = length (ex_inFlight e) \<and> ex_running e \<le> ex_concurrency e"
    using ex x assms(3) by (auto simp: on_ex_def dest!: subsetD [OF set_update_subset_insert])
  moreover have "ex_inFlight (jex ?s y) = ex_inFlight (jex s y)" if "y < length (jm_objects s)" for y
    using that by (simp add: on_ex_jex)
  ultimately show ?thesis using assms(1) unfolding runs_ok_def by (auto simp: run_of_def)
qed

lemma poll_runs_ok:
  assumes "runs_ok s" "x < length (jm_objects s)"
  shows "runs_ok (poll now x overload s)"
proof -
  let ?c = "max (ex_concurrency (jex s x)) (slowStartCeiling (jm_options s) now (jex s x))"
  let ?e = "(jex s x)\<lparr> ex_concurrency := ?c \<rparr>"
  let ?q = "fst (dequeueDue now (ex_queue (jex s x)))"
  let ?s = "on_ex x (\<lambda>_. ?e\<lparr> ex_queue := ?q \<rparr>) s"
  have tail: "runs_ok (on_ex x f s')" if "runs_ok s'" "\<And>e. load_of (f e) = load_of e" for f s'
    using quiet_runs_ok [OF that(1) quiet_on_ex [OF that(2)]] .
  have "?s = on_ex x (\<lambda>e. e\<lparr> ex_queue := ?q \<rparr>) (on_ex x (\<lambda>e. e\<lparr> ex_concurrency := ?c \<rparr>) s)"
    using assms(2) by (simp add: on_ex_def)
  moreover have "runs_ok (on_ex x (\<lambda>e. e\<lparr> ex_queue := ?q \<rparr>) (on_ex x (\<lambda>e. e\<lparr> ex_concurrency := ?c \<rparr>) s))"
    by (intro tail raise_runs_ok assms) simp_all
  ultimately have "runs_ok ?s" by simp
  from pollEach_runs_ok [OF this, of x now] assms(2)
  have each: "runs_ok (fst (pollEach now x due ?s))" for due by simp
  show ?thesis
    using assms(1) each [of "snd (dequeueDue now (ex_queue (jex s x)))"] by (simp add: poll_def Let_def case_prod_unfold tail)
qed

section \<open>Every step\<close>

lemma quiet_jgo_run: "run_of s pid = run_at p \<Longrightarrow> pid < jm_nextProc s \<Longrightarrow> quiet s (jgo pid p s)"
  by (auto simp: quiet_def jgo_def loads_def run_of_def js_get_set fun_eq_iff intro!: exI [of _ "[]"])

lemma quiet_then_run: "quiet s s' \<Longrightarrow> run_of s pid = run_at p \<Longrightarrow> pid < jm_nextProc s \<Longrightarrow> quiet s (jgo pid p s')"
  by (rule quiet_trans, assumption, rule quiet_jgo_run) (auto simp: quiet_def)

lemma quiet_reschedule: "quiet s (reschedule now x job delay s)"
  unfolding reschedule_def by (intro quiet_intros) simp

lemma quiet_dropJob: "quiet s (dropJob x i s)"
  unfolding dropJob_def by (intro quiet_intros) simp

lemma quiet_applyResult:
  assumes "run_of s pid = Some x" "pid < jm_nextProc s"
  shows "quiet s (applyResult now pid x job result attempt runId s)"
  using assms by (auto simp: applyResult_def quiet_then_run quiet_reschedule quiet_dropJob quiet_then_store split: run_result.splits option.splits)

lemma runs_ok_pid: "runs_ok s \<Longrightarrow> js_get (jm_procs s) pid = Some p \<Longrightarrow> pid < jm_nextProc s"
  unfolding runs_ok_def by (metis option.distinct(1))

lemma ending_runs_ok:
  assumes "runs_ok s" "js_get (jm_procs s) pid = Some (RunEnding x)"
  shows "runs_ok (jfinish pid (on_ex x (\<lambda>e. e\<lparr> ex_inFlight := removeAll pid (ex_inFlight e) \<rparr>) (runFinally now x s)))"
proof -
  have r: "run_of s pid = Some x" using assms(2) by (simp add: run_of_def)
  then have x: "x < length (jm_objects s)" using assms(1) by (simp add: runs_ok_def)
  have sel: "ex_running (schedulePoll now e) = ex_running e" "ex_inFlight (schedulePoll now e) = ex_inFlight e"
    "ex_concurrency (schedulePoll now e) = ex_concurrency e" for e :: "'a executor"
    using load_of_simps(1) [of now e] by (simp_all add: load_of_def)
  show ?thesis
    using x by (intro end_run [OF assms(1) r, of "ex_running (jex s x)" "ex_inFlight (jex s x)" "ex_concurrency (jex s x)"])
      (simp_all add: loads_sel jfinish_def runFinally_def lm_release_def,
       simp add: loads_def on_ex_def map_update load_of_def sel)
qed

lemma jresume_runs_ok:
  assumes "runs_ok s"
  shows "runs_ok (fst (jresume now pid result s))"
proof (cases "js_get (jm_procs s) pid")
  case None
  with assms show ?thesis by (simp add: jresume_def)
next
  case (Some p)
  have pid: "pid < jm_nextProc s" by (rule runs_ok_pid [OF assms Some])
  have run: "run_of s pid = run_at p" using Some by (simp add: run_of_def)
  note go = quiet_runs_ok [OF assms]
  show ?thesis
  proof (cases "run_at p")
    case None
    with run pid have idle: "idle_pid s pid" by (simp add: idle_pid_def)
    then show ?thesis
      using Some None by (cases p) (auto simp: jresume_def intro!: go quiet_ensureOwned quiet_claimedResume quiet_loadEach quiet_ownedResume
          quiet_resumeShards quiet_dropExecutors quiet_stopEach quiet_intros)
  next
    case (Some x)
    with run pid \<open>js_get (jm_procs s) pid = Some p\<close> show ?thesis
      by (cases p) (auto simp: jresume_def ending_runs_ok [OF assms] intro!: go quiet_applyResult quiet_then_run quiet_dropJob quiet_refl)
  qed
qed

lemma job_step_runs_ok:
  assumes "runs_ok s"
  shows "runs_ok (fst (job_step op s))"
proof -
  note go = quiet_runs_ok [OF assms]
  have frame: "quiet s (s\<lparr> jm_guid := g \<rparr>)" "quiet s (s\<lparr> jm_ownership := own \<rparr>)" "quiet s (s\<lparr> jm_enqueued := n \<rparr>)"
    "quiet s (s\<lparr> jm_ownership := own, jm_enqueued := n \<rparr>)" "quiet s (s\<lparr> jm_checkHandle := h, jm_enqueued := n \<rparr>)"
    "quiet s (s\<lparr> jm_done := n \<rparr>)" "quiet s (s\<lparr> jm_active := b \<rparr>)" "quiet s (s\<lparr> jm_stopped := b, jm_checkHandle := h \<rparr>)" for g own n h b
    by (rule quiet_frame; simp add: loads_def)+
  have spawn: "runs_ok (jspawn p s')" if "quiet s s'" "run_at p = None" for p s'
    using quiet_runs_ok [OF go [OF that(1)] quiet_jspawn [OF go [OF that(1)] that(2)]] .
  have recv: "runs_ok (receiveForwardedJob job s)" for job
  proof -
    let ?s = "s\<lparr> jm_nextProc := Suc (jm_nextProc s) \<rparr>"
    have q: "quiet s ?s" by (auto simp: quiet_def loads_def run_of_def intro!: exI [of _ "[]"])
    have "run_of ?s (jm_nextProc s) = None" using assms by (auto simp: run_of_def runs_ok_def split: bind_split)
    then have "idle_pid ?s (jm_nextProc s)" by (simp add: idle_pid_def)
    from quiet_runs_ok [OF go [OF q] quiet_ensureOwned [OF this]] show ?thesis by (simp add: receiveForwardedJob_def)
  qed
  have fires: "runs_ok (pollFires now x overload s)" for now x overload
    using poll_runs_ok [OF go [OF quiet_on_ex [of clearPoll]]] assms by (auto simp: pollFires_def split: option.splits)
  show ?thesis
  proof (cases op)
    case (ScheduleJob name due target m)
    have "quiet s (on_store f (s\<lparr> jm_guid := Suc (jm_guid s) \<rparr>))" for f using quiet_then_store [OF frame(1)] .
    with ScheduleJob assms show ?thesis by (auto simp: job_step_def scheduleJob_def Let_def intro!: spawn split: sum.splits)
  next
    case (CancelJob i k)
    show ?thesis by (auto simp: CancelJob job_step_def cancelJob_def intro!: go quiet_intros split: option.splits)
  next
    case (Refresh own)
    show ?thesis by (auto simp: Refresh job_step_def refreshOwnership_def enqueueReconcile_def intro!: go frame)
  next
    case (CheckFires now)
    show ?thesis using assms by (auto simp: CheckFires job_step_def checkFires_def enqueueReconcile_def intro!: go frame split: option.splits)
  next
    case Reconcile
    show ?thesis using assms go [OF frame(6)] spawn [OF frame(7)] by (simp add: Reconcile job_step_def reconcileNow_def)
  qed (use recv fires spawn frame jresume_runs_ok [OF assms] in \<open>simp_all add: job_step_def jm_stop_def\<close>)
qed

end
