(* ===== verification/Durable_Jobs_Work.thy ===== *)
theory Durable_Jobs_Work
  imports Durable_Jobs_Safety
begin

text \<open>
  No job is forgotten: every job in the working set of an executor is in its queue or being run, and an executor with a
  queue that is neither stopped nor still loading has its poll timer armed. Kept by every step of the manager.
\<close>

section \<open>One executor\<close>

definition queue_ok :: "'m job_queue \<Rightarrow> bool" where
  "queue_ok q \<longleftrightarrow> js_wf (jq_jobs q) \<and> (\<forall>i j. js_get (jq_jobs q) i = Some j \<longrightarrow> qj_id j = i \<and> i \<in> set (jq_liveIds q))"

text \<open>\<open>H\<close> are the jobs of the executor that a run holds.\<close>

definition kept :: "(nat \<Rightarrow> bool) \<Rightarrow> 'm executor \<Rightarrow> bool" where
  "kept H e \<longleftrightarrow> queue_ok (ex_queue e)
     \<and> (\<forall>i. js_has (ex_jobs e) i \<longrightarrow> i \<in> set (jq_liveIds (ex_queue e)) \<and> (js_has (jq_jobs (ex_queue e)) i \<or> H i))"

definition armed :: "'m executor \<Rightarrow> bool" where
  "armed e \<longleftrightarrow> (\<not> ex_stopped e \<and> jq_jobs (ex_queue e) \<noteq> [] \<longrightarrow> ex_pollHandle e \<noteq> None)"

lemma nextDueMs_none: "nextDueMs q = None \<longleftrightarrow> jq_jobs q = []"
proof -
  let ?f = "\<lambda>earliest job. case earliest of None \<Rightarrow> Some (qj_dueMs job) | Some e \<Rightarrow> if qj_dueMs job < e then Some (qj_dueMs job) else Some e"
  have "foldl ?f (Some d) js \<noteq> None" for d and js :: "'a queued_job list"
    by (induction js arbitrary: d) simp_all
  then show ?thesis by (cases "jq_jobs q") (simp_all add: nextDueMs_def)
qed

lemma schedulePoll_sel [simp]:
  "ex_queue (schedulePoll now e) = ex_queue e" "ex_jobs (schedulePoll now e) = ex_jobs e"
  "ex_stopped (schedulePoll now e) = ex_stopped e" "ex_shardKey (schedulePoll now e) = ex_shardKey e"
  "ex_inFlight (schedulePoll now e) = ex_inFlight e"
  by (simp_all add: schedulePoll_def clearPoll_def split: option.splits)

lemma schedulePoll_kept [simp]: "kept H (schedulePoll now e) = kept H e"
  by (simp add: kept_def)

lemma schedulePoll_armed [simp]: "armed (schedulePoll now e)"
  unfolding armed_def by (auto simp: schedulePoll_def clearPoll_def nextDueMs_none split: option.splits)

lemma kept_mono: "kept H e \<Longrightarrow> (\<And>i. H i \<Longrightarrow> H' i) \<Longrightarrow> kept H' e"
  by (auto simp: kept_def)

lemma kept_frame: "ex_queue e' = ex_queue e \<Longrightarrow> ex_jobs e' = ex_jobs e \<Longrightarrow> kept H e' = kept H e"
  by (simp add: kept_def)

lemma queue_ok_add: "queue_ok q \<Longrightarrow> queue_ok (jq_add j q)"
  by (auto simp: queue_ok_def jq_add_def js_get_set)

lemma jq_add_sel [simp]:
  "js_has (jq_jobs (jq_add j q)) i \<longleftrightarrow> i = qj_id j \<or> js_has (jq_jobs q) i"
  "set (jq_liveIds (jq_add j q)) = insert (qj_id j) (set (jq_liveIds q))"
  by (auto simp: jq_add_def js_get_set)

lemma addJob_kept: "kept H e \<Longrightarrow> kept H (addJob job due n e)"
  by (auto simp: kept_def addJob_def jq_add_def js_get_set queue_ok_def)

lemma cancel_kept: "kept H e \<Longrightarrow> kept H (fst (ex_cancel i e))"
  by (auto simp: kept_def ex_cancel_def jq_cancel_def queue_ok_def js_get_delete)

lemma cancel_armed: "armed e \<Longrightarrow> armed (fst (ex_cancel i e))"
  by (auto simp: armed_def ex_cancel_def jq_cancel_def)

lemma drop_kept: "kept H e \<Longrightarrow> (\<And>j. H j \<Longrightarrow> j \<noteq> i \<Longrightarrow> H' j) \<Longrightarrow> kept H' (e\<lparr> ex_jobs := js_delete i (ex_jobs e) \<rparr>)"
  by (auto simp: kept_def js_get_delete)

lemma retry_kept:
  assumes "kept H e" "\<And>j. H j \<Longrightarrow> j \<noteq> qj_id job \<Longrightarrow> H' j"
  shows "kept H' (e\<lparr> ex_queue := retryLater job delay now (ex_queue e) \<rparr>)"
proof (cases "qj_id job \<in> set (jq_liveIds (ex_queue e))")
  case True
  with assms show ?thesis by (auto simp: kept_def retryLater_def queue_ok_def js_get_set)
next
  case False
  then have "j \<noteq> qj_id job" if "js_has (ex_jobs e) j" for j using assms(1) that by (auto simp: kept_def)
  with False assms show ?thesis unfolding kept_def retryLater_def by auto
qed

lemma delete_all: "js_get (foldl (\<lambda>m j. js_delete (qj_id j) m) m js) i = (if i \<in> qj_id ` set js then None else js_get m i)"
  by (induction js arbitrary: m) (auto simp: js_get_delete)

lemma delete_all_wf: "js_wf m \<Longrightarrow> js_wf (foldl (\<lambda>m j. js_delete (qj_id j) m) m js)"
  by (induction js arbitrary: m) simp_all

lemma dequeue_kept:
  assumes "kept H e" "dequeueDue now (ex_queue e) = (q, due)"
  shows "kept (\<lambda>i. H i \<or> i \<in> qj_id ` set due) (e\<lparr> ex_queue := q \<rparr>)" "\<forall>j \<in> set due. qj_id j \<in> set (jq_liveIds q)"
proof -
  have q: "jq_liveIds q = jq_liveIds (ex_queue e)"
    "jq_jobs q = foldl (\<lambda>m j. js_delete (qj_id j) m) (jq_jobs (ex_queue e)) due"
    and due: "set due \<subseteq> set (js_values (jq_jobs (ex_queue e)))"
    using assms(2) by (auto simp: dequeueDue_def Let_def)
  have live: "qj_id j \<in> set (jq_liveIds (ex_queue e))" if j: "j \<in> set (js_values (jq_jobs (ex_queue e)))" for j
  proof -
    from j obtain i where "(i, j) \<in> set (jq_jobs (ex_queue e))" by auto
    then show ?thesis using assms(1) js_get_mem [of "jq_jobs (ex_queue e)" i j] by (auto simp: kept_def queue_ok_def)
  qed
  with due show "\<forall>j \<in> set due. qj_id j \<in> set (jq_liveIds q)" unfolding q(1) by blast
  show "kept (\<lambda>i. H i \<or> i \<in> qj_id ` set due) (e\<lparr> ex_queue := q \<rparr>)"
    using assms(1) by (auto simp: kept_def queue_ok_def q delete_all delete_all_wf)
qed

section \<open>The executors of a silo\<close>

fun held :: "'m job_process \<Rightarrow> (nat \<times> nat) option" where
  "held (RunStarting x job durable runId) = Some (x, qj_id job)"
| "held (RunHandler x job runId) = Some (x, qj_id job)"
| "held (RunCompleting x job) = Some (x, qj_id job)"
| "held p = None"

fun loading_at :: "'m job_process \<Rightarrow> nat option" where
  "loading_at (Loading x ps cont) = Some x"
| "loading_at p = None"

definition holds_run :: "'m job_silo \<Rightarrow> nat \<Rightarrow> nat \<Rightarrow> bool" where
  "holds_run s x i \<longleftrightarrow> (\<exists>pid p. js_get (jm_procs s) pid = Some p \<and> held p = Some (x, i))"

definition is_loading :: "'m job_silo \<Rightarrow> nat \<Rightarrow> bool" where
  "is_loading s x \<longleftrightarrow> (\<exists>pid p. js_get (jm_procs s) pid = Some p \<and> loading_at p = Some x)"

definition ex_work :: "'m job_silo \<Rightarrow> nat \<Rightarrow> 'm executor \<Rightarrow> bool" where
  "ex_work s x e \<longleftrightarrow> kept (holds_run s x) e \<and> (armed e \<or> is_loading s x)"

definition work_ok :: "'m job_silo \<Rightarrow> bool" where
  "work_ok s \<longleftrightarrow> (\<forall>x < length (jm_objects s). ex_work s x (jex s x))"

lemma keep_proc:
  assumes "\<exists>pid' q. js_get m pid' = Some q \<and> Q q" "\<And>p. js_get m pid = Some p \<Longrightarrow> Q p \<Longrightarrow> Q p'"
  shows "\<exists>pid' q. js_get (js_set pid p' m) pid' = Some q \<and> Q q"
proof -
  from assms(1) obtain pid' q where q: "js_get m pid' = Some q" "Q q" by blast
  show ?thesis
  proof (cases "pid' = pid")
    case True
    with q assms(2) show ?thesis by (intro exI [of _ pid] exI [of _ p']) (simp add: js_get_set)
  next
    case False
    with q show ?thesis by (intro exI [of _ pid'] exI [of _ q]) (simp add: js_get_set)
  qed
qed

lemma holds_procs [simp]:
  "holds_run (on_ex x f s) = holds_run s" "holds_run (on_store g s) = holds_run s" "holds_run (s\<lparr> jm_inUse := n \<rparr>) = holds_run s"
  "is_loading (on_ex x f s) = is_loading s" "is_loading (on_store g s) = is_loading s"
  by (simp_all add: holds_run_def is_loading_def fun_eq_iff)

text \<open>The processes only gain: nothing that was held or loading is let go of.\<close>

definition gains :: "'m job_silo \<Rightarrow> 'm job_silo \<Rightarrow> bool" where
  "gains s s' \<longleftrightarrow> (\<forall>x i. holds_run s x i \<longrightarrow> holds_run s' x i) \<and> (\<forall>x. is_loading s x \<longrightarrow> is_loading s' x)"

lemma gains_refl [simp]: "gains s s"
  by (simp add: gains_def)

lemma gains_trans: "gains s s' \<Longrightarrow> gains s' s'' \<Longrightarrow> gains s s''"
  by (simp add: gains_def)

lemma ex_work_gains: "ex_work s x e \<Longrightarrow> gains s s' \<Longrightarrow> ex_work s' x e"
  by (auto simp: ex_work_def gains_def intro: kept_mono)

lemma gains_procs: "jm_procs s' = jm_procs s \<Longrightarrow> gains s s'"
  by (simp add: gains_def holds_run_def is_loading_def)

text \<open>A process of no consequence for the work goes on.\<close>

definition light_pid :: "'m job_silo \<Rightarrow> nat \<Rightarrow> bool" where
  "light_pid s pid \<longleftrightarrow> (\<forall>p. js_get (jm_procs s) pid = Some p \<longrightarrow> held p = None \<and> loading_at p = None)"

lemma light_procs: "jm_procs s' = jm_procs s \<Longrightarrow> light_pid s' pid = light_pid s pid"
  by (simp add: light_pid_def)

lemma gains_jgo: "light_pid s pid \<Longrightarrow> gains s (jgo pid p s)"
  unfolding gains_def holds_run_def is_loading_def light_pid_def jgo_def by (auto simp: js_get_set) (metis option.distinct(1))+

lemma gains_jfinish: "light_pid s pid \<Longrightarrow> gains s (jfinish pid s)"
  unfolding gains_def holds_run_def is_loading_def light_pid_def jfinish_def by (auto simp: js_get_delete) (metis option.distinct(1))+

lemma jgo_sel [simp]:
  "jm_objects (jgo pid p s) = jm_objects s" "jm_executors (jgo pid p s) = jm_executors s" "jm_store (jgo pid p s) = jm_store s"
  "jm_stopped (jgo pid p s) = jm_stopped s" "jm_options (jgo pid p s) = jm_options s" "jm_ownership (jgo pid p s) = jm_ownership s"
  "jm_active (jgo pid p s) = jm_active s" "jm_done (jgo pid p s) = jm_done s" "jm_enqueued (jgo pid p s) = jm_enqueued s"
  "jm_nextProc (jgo pid p s) = jm_nextProc s"
  by (simp_all add: jgo_def)

lemma jfinish_sel [simp]:
  "jm_objects (jfinish pid s) = jm_objects s" "jm_executors (jfinish pid s) = jm_executors s" "jm_store (jfinish pid s) = jm_store s"
  "jm_stopped (jfinish pid s) = jm_stopped s" "jm_options (jfinish pid s) = jm_options s" "jm_ownership (jfinish pid s) = jm_ownership s"
  "jm_active (jfinish pid s) = jm_active s" "jm_done (jfinish pid s) = jm_done s" "jm_enqueued (jfinish pid s) = jm_enqueued s"
  "jm_nextProc (jfinish pid s) = jm_nextProc s"
  by (simp_all add: jfinish_def)

lemma work_gains: "work_ok s \<Longrightarrow> gains s s' \<Longrightarrow> jm_objects s' = jm_objects s \<Longrightarrow> work_ok s'"
  by (auto simp: work_ok_def intro: ex_work_gains)

lemma work_frame: "work_ok s \<Longrightarrow> jm_procs s' = jm_procs s \<Longrightarrow> jm_objects s' = jm_objects s \<Longrightarrow> work_ok s'"
  using work_gains gains_procs by metis

lemma work_jgo: "work_ok s \<Longrightarrow> light_pid s pid \<Longrightarrow> work_ok (jgo pid p s)"
  by (rule work_gains [OF _ gains_jgo]) simp_all

lemma work_jfinish: "work_ok s \<Longrightarrow> light_pid s pid \<Longrightarrow> work_ok (jfinish pid s)"
  by (rule work_gains [OF _ gains_jfinish]) simp_all

lemma work_store [simp]: "work_ok (on_store f s) = work_ok s"
  using work_frame [of s "on_store f s"] work_frame [of "on_store f s" s] by auto

lemma work_on_ex:
  assumes "work_ok s" "\<And>e. ex_work s x e \<Longrightarrow> ex_work s x (f e)"
  shows "work_ok (on_ex x f s)"
proof -
  have "gains s (on_ex x f s)" by (rule gains_procs) simp
  then show ?thesis using assms by (auto simp: work_ok_def on_ex_jex intro: ex_work_gains)
qed

lemma work_then:
  "ex_work s x e \<Longrightarrow> ex_work s x (schedulePoll now e)"
  "ex_work s x e \<Longrightarrow> ex_work s x (ex_enqueue now job e)"
  "ex_work s x e \<Longrightarrow> ex_work s x (fst (ex_cancel i e))"
  "ex_work s x e \<Longrightarrow> ex_work s x (clearPoll (e\<lparr> ex_stopped := True \<rparr>))"
  by (auto simp: ex_work_def ex_enqueue_def addJob_kept cancel_kept cancel_armed clearPoll_def kept_frame [of "_\<lparr> ex_stopped := True, ex_pollHandle := None \<rparr>"] armed_def [of "_\<lparr> ex_stopped := True, ex_pollHandle := None \<rparr>"])

subsection \<open>Operations that hold no run\<close>

lemma work_startExecutor:
  assumes "work_ok s" "light_pid s pid"
  shows "work_ok (startExecutor now pid k cont s)"
proof -
  let ?e = "newExecutor (jm_options s) now k"
  let ?s = "s\<lparr> jm_objects := jm_objects s @ [?e], jm_executors := js_set k (length (jm_objects s)) (jm_executors s) \<rparr>"
  have g: "gains s ?s" by (rule gains_procs) simp
  have "ex_work ?s y ?e" for y by (simp add: ex_work_def kept_def armed_def newExecutor_def queue_ok_def)
  then have "work_ok ?s" using assms(1) ex_work_gains [OF _ g] by (auto simp: work_ok_def nth_append less_Suc_eq)
  with assms show ?thesis
    by (auto simp: startExecutor_def Let_def work_jgo light_procs [of ?s s] split: option.splits)
qed

lemma work_claimAndStart: "work_ok s \<Longrightarrow> light_pid s pid \<Longrightarrow> work_ok (claimAndStart pid k dead cont s)"
  by (auto simp: claimAndStart_def case_prod_unfold light_procs [of "s\<lparr> jm_store := _ \<rparr>" s] intro!: work_jgo intro: work_frame)

lemma work_claimedResume: "work_ok s \<Longrightarrow> light_pid s pid \<Longrightarrow> work_ok (claimedResume now pid k claimed cont s)"
  by (auto simp: claimedResume_def work_startExecutor light_procs [of "on_store _ s" s] intro!: work_jgo split: option.splits)

lemma work_ensureOwned: "work_ok s \<Longrightarrow> light_pid s pid \<Longrightarrow> work_ok (ensureOwned pid k cont s)"
  by (auto simp: ensureOwned_def work_claimAndStart work_jgo split: option.splits)

lemma work_endReconcile:
  assumes "work_ok s" "light_pid s pid"
  shows "work_ok (endReconcile pid (scheduleCheck now s))"
proof -
  let ?s = "scheduleCheck now s\<lparr> jm_done := Suc (jm_done (scheduleCheck now s)), jm_active := False \<rparr>"
  have "work_ok ?s" "light_pid ?s pid"
    using work_frame [OF assms(1), of ?s] light_procs [of ?s s] assms(2) by (simp_all add: scheduleCheck_def)
  then show ?thesis unfolding endReconcile_def by (rule work_jfinish)
qed

lemma work_claimShards: "work_ok s \<Longrightarrow> light_pid s pid \<Longrightarrow> work_ok (claimShards now pid own rs s)"
  by (cases rs) (auto simp: work_endReconcile work_claimAndStart work_jgo)

lemma work_resumeShards: "work_ok s \<Longrightarrow> light_pid s pid \<Longrightarrow> work_ok (resumeShards now pid own shards rs s)"
  by (induction rs) (auto simp: Let_def work_claimShards work_endReconcile work_startExecutor)

lemma work_stopExecutor: "work_ok s \<Longrightarrow> work_ok (stopExecutor k x s)"
  unfolding stopExecutor_def by (rule work_on_ex, erule work_frame) (auto intro: work_then(4) ex_work_gains [OF _ gains_procs])

lemma light_stopExecutor [simp]: "light_pid (stopExecutor k x s) pid = light_pid s pid"
  by (rule light_procs) (simp add: stopExecutor_def)

lemma work_dropExecutors: "work_ok s \<Longrightarrow> light_pid s pid \<Longrightarrow> work_ok (dropExecutors now pid ownedNow ks s)"
  by (induction ks) (auto simp: work_endReconcile work_stopExecutor work_jgo split: option.splits)

lemma work_stopEach: "work_ok s \<Longrightarrow> light_pid s pid \<Longrightarrow> work_ok (stopEach pid ks s)"
  by (auto simp: stopEach_def work_stopExecutor work_jgo work_jfinish split: list.splits option.splits)

lemma light_on_ex [simp]: "light_pid (on_ex x f s) pid = light_pid s pid"
  by (rule light_procs) simp

lemma light_on_store [simp]: "light_pid (on_store f s) pid = light_pid s pid"
  by (rule light_procs) simp

lemma work_ownedResume:
  assumes "work_ok s" "light_pid s pid"
  shows "work_ok (fst (ownedResume now pid xo cont s))"
proof -
  have "work_ok (claimShards now pid own rs (s\<lparr> jm_claimedSinceJoin := n \<rparr>))" for own rs n
    using assms by (intro work_claimShards work_frame [OF assms(1)]) (simp_all add: light_procs [of "s\<lparr> jm_claimedSinceJoin := n \<rparr>" s])
  with assms show ?thesis
    by (cases "(now, pid, xo, cont, s)" rule: ownedResume.cases)
       (auto simp: forwardToShardOwner_def work_resumeShards work_claimShards intro!: work_jgo work_jfinish work_on_ex work_then(2))
qed

subsection \<open>Loading\<close>

lemma work_loaded:
  assumes "work_ok s" "js_get (jm_procs s) pid = Some p" "held p = None" "loading_at p = Some x"
    "x < length (jm_objects s) \<Longrightarrow> armed (jex s x)"
  shows "work_ok (jgo pid p' s)"
proof -
  have holds: "holds_run s y i \<Longrightarrow> holds_run (jgo pid p' s) y i" for y i
    using assms(2,3) unfolding holds_run_def jgo_def by (simp, intro keep_proc) auto
  have "is_loading s y \<Longrightarrow> y \<noteq> x \<Longrightarrow> is_loading (jgo pid p' s) y" for y
    using assms(2,4) unfolding is_loading_def jgo_def by (simp, intro keep_proc) auto
  with assms(1,5) holds show ?thesis
    unfolding work_ok_def ex_work_def by (auto intro: kept_mono)
qed

lemma work_loadEach:
  assumes "work_ok s" "js_get (jm_procs s) pid = Some (Loading x ps' cont')"
  shows "work_ok (loadEach now pid x ps cont s)"
  using assms
proof (induction ps arbitrary: s)
  case Nil
  have "work_ok (on_ex x (schedulePoll now) s)" by (rule work_on_ex [OF Nil.prems(1)]) (rule work_then(1))
  with Nil.prems(2) show ?case by (auto simp: on_ex_jex intro!: work_loaded [where p = "Loading x ps' cont'"])
next
  case (Cons p ps)
  let ?s = "on_ex x (addJob (je_job p) (je_dueTime p) (je_dequeueCount p)) s"
  have "is_loading s x" using Cons.prems(2) unfolding is_loading_def by (intro exI [of _ pid] exI [of _ "Loading x ps' cont'"]) simp
  then have "work_ok ?s" by (intro work_on_ex [OF Cons.prems(1)]) (simp add: ex_work_def addJob_kept)
  then have "work_ok (loadEach now pid x ps cont ?s)" using Cons.prems(2) by (intro Cons.IH) simp_all
  moreover have "gains s (jgo pid (Loading x ps cont) (on_store f s))" for f
    using Cons.prems(2) unfolding gains_def holds_run_def is_loading_def jgo_def by (intro conjI allI impI, simp_all) (intro keep_proc, auto)+
  then have "work_ok (jgo pid (Loading x ps cont) (on_store f s))" for f using work_gains [OF Cons.prems(1)] by simp
  ultimately show ?case by simp
qed

subsection \<open>Runs\<close>

lemma gains_jgo_same:
  assumes "js_get (jm_procs s) pid = Some p" "held p' = held p" "loading_at p = None"
  shows "gains s (jgo pid p' s)"
  using assms unfolding gains_def holds_run_def is_loading_def jgo_def by (intro conjI allI impI, simp_all) (intro keep_proc, auto)+

lemma work_release:
  assumes "work_ok s" "js_get (jm_procs s) pid = Some p" "held p = Some (x, i)" "jm_procs s' = js_set pid p' (jm_procs s)"
    "jm_objects s' = (jm_objects s)[x := f (jex s x)]"
    and "\<And>e H H'. kept H e \<Longrightarrow> (\<And>j. H j \<Longrightarrow> j \<noteq> i \<Longrightarrow> H' j) \<Longrightarrow> kept H' (f e)" "\<And>e. armed e \<Longrightarrow> armed (f e)"
  shows "work_ok s'"
proof -
  have none: "loading_at p = None" using assms(3) by (cases p) auto
  have holds: "holds_run s' y j" if "holds_run s y j" "y = x \<Longrightarrow> j \<noteq> i" for y j
  proof -
    from that(1) obtain pid' q where q: "js_get (jm_procs s) pid' = Some q" "held q = Some (y, j)" by (auto simp: holds_run_def)
    then have "pid' \<noteq> pid" using assms(2,3) that(2) by auto
    with q assms(4) show ?thesis by (auto simp: holds_run_def js_get_set)
  qed
  have loading: "is_loading s' y" if "is_loading s y" for y
  proof -
    from that obtain pid' q where q: "js_get (jm_procs s) pid' = Some q" "loading_at q = Some y" by (auto simp: is_loading_def)
    then have "pid' \<noteq> pid" using assms(2) none by auto
    with q assms(4) show ?thesis by (auto simp: is_loading_def js_get_set)
  qed
  show ?thesis
    unfolding work_ok_def
  proof (intro allI impI)
    fix y assume y: "y < length (jm_objects s')"
    have old: "kept (holds_run s y) (jex s y)" "armed (jex s y) \<or> is_loading s y"
      using assms(1,5) y by (simp_all add: work_ok_def ex_work_def)
    show "ex_work s' y (jex s' y)"
    proof (cases "y = x")
      case True
      then show ?thesis using old assms(5,6,7) holds loading y unfolding ex_work_def by (auto simp: nth_list_update)
    next
      case False
      then show ?thesis using old assms(5) holds loading unfolding ex_work_def by (auto intro: kept_mono)
    qed
  qed
qed

lemma work_applyResult:
  assumes "work_ok s" "js_get (jm_procs s) pid = Some (RunHandler x job runId')"
  shows "work_ok (applyResult now pid x job result attempt runId s)"
proof -
  have later: "work_ok (jgo pid (RunEnding x) (reschedule now x (job\<lparr> qj_dequeueCount := n \<rparr>) delay s))" for n delay
    by (rule work_release [OF assms, where f = "\<lambda>e. schedulePoll now (e\<lparr> ex_queue := retryLater (job\<lparr> qj_dequeueCount := n \<rparr>) delay now (ex_queue e) \<rparr>)"])
       (auto simp: reschedule_def jgo_def on_ex_def on_store_def intro: retry_kept)
  have job: "job\<lparr> qj_dequeueCount := qj_dequeueCount job \<rparr> = job" by simp
  have drop: "work_ok (jgo pid (RunEnding x) (dropJob x (qj_id job) s))"
    by (rule work_release [OF assms, where f = "\<lambda>e. e\<lparr> ex_jobs := js_delete (qj_id job) (ex_jobs e) \<rparr>"])
       (simp_all add: dropJob_def jgo_def, simp_all add: on_ex_def drop_kept armed_def)
  have "gains s (jgo pid (RunCompleting x job) (on_store f s))" for f
    using gains_jgo_same [OF assms(2), of "RunCompleting x job"] by (simp add: gains_def holds_run_def is_loading_def jgo_def)
  then have "work_ok (jgo pid (RunCompleting x job) (on_store f s))" for f using work_gains [OF assms(1)] by simp
  with later later [of "qj_dequeueCount job", unfolded job] drop show ?thesis
    by (simp add: applyResult_def split: run_result.splits option.splits)
qed

lemma jspawn_gains:
  assumes "runs_ok s"
  shows "gains s (jspawn p s)"
proof -
  have "js_get (jm_procs s) (jm_nextProc s) = None" using assms unfolding runs_ok_def by (metis less_irrefl)
  then show ?thesis unfolding gains_def holds_run_def is_loading_def jspawn_def by (auto simp: js_get_set) (metis option.distinct(1))+
qed

lemma work_jspawn: "work_ok s \<Longrightarrow> runs_ok s \<Longrightarrow> work_ok (jspawn p s)"
  by (rule work_gains [OF _ jspawn_gains]) (simp_all add: jspawn_def)

subsection \<open>A poll\<close>

text \<open>In the midst of a poll of \<open>x\<close>: the jobs \<open>D\<close> have been taken from its queue and are yet to be dealt with.\<close>

definition polling :: "nat \<Rightarrow> nat set \<Rightarrow> 'm job_silo \<Rightarrow> bool" where
  "polling x D s \<longleftrightarrow> (\<forall>y < length (jm_objects s). y \<noteq> x \<longrightarrow> ex_work s y (jex s y)) \<and> kept (\<lambda>i. holds_run s x i \<or> i \<in> D) (jex s x)"

lemma polling_done:
  assumes "polling x {} s" "x < length (jm_objects s)" "\<And>e H. kept H (f e) = kept H e" "\<And>e. armed (f e)"
  shows "work_ok (on_ex x f s)"
proof -
  have g: "gains s (on_ex x f s)" by (rule gains_procs) simp
  show ?thesis
    using assms ex_work_gains [OF _ g] unfolding work_ok_def polling_def ex_work_def [of "on_ex x f s"]
    by (auto simp: on_ex_jex ex_work_def)
qed

lemma polling_blocked:
  assumes "polling x (insert (qj_id job) D) s" "x < length (jm_objects s)"
  shows "polling x D (on_ex x (\<lambda>e. e\<lparr> ex_queue := jq_add (job\<lparr> qj_dueMs := now \<rparr>) (ex_queue e) \<rparr>) s)"
proof -
  let ?s = "on_ex x (\<lambda>e. e\<lparr> ex_queue := jq_add (job\<lparr> qj_dueMs := now \<rparr>) (ex_queue e) \<rparr>) s"
  have g: "gains s ?s" by (rule gains_procs) simp
  have "kept (\<lambda>i. holds_run s x i \<or> i \<in> D) (jex ?s x)"
    using assms by (auto simp: polling_def kept_def on_ex_jex jq_add_def js_get_set queue_ok_def)
  then show ?thesis using assms ex_work_gains [OF _ g] by (auto simp: polling_def on_ex_jex)
qed

lemma polling_run:
  assumes "polling x (insert (qj_id job) D) s" "x < length (jm_objects s)" "runs_ok s"
  shows "polling x D (runOne now x job (s\<lparr> jm_inUse := n \<rparr>))"
proof (cases "js_get (ex_jobs (jex s x)) (qj_id job)")
  case None
  let ?s = "on_ex x (schedulePoll now) (lm_release (s\<lparr> jm_inUse := n \<rparr>))"
  have g: "gains s ?s" by (rule gains_procs) (simp add: lm_release_def)
  have "kept (\<lambda>i. holds_run s x i \<or> i \<in> D) (jex s x)"
    using assms(1) None unfolding polling_def kept_def by (metis insert_iff option.distinct(1))
  then have "polling x D ?s"
    using assms(1,2) ex_work_gains [OF _ g] by (auto simp: polling_def on_ex_jex lm_release_def)
  with None assms(2) show ?thesis by (simp add: runOne_none)
next
  case (Some d)
  let ?f = "\<lambda>e. e\<lparr> ex_running := ex_running e + 1, ex_inFlight := jm_nextProc s # ex_inFlight e \<rparr>"
  let ?t = "on_store (persistRunStart (ex_shardKey (jex s x)) (dj_id d) (jm_guid s)) (on_ex x ?f (s\<lparr> jm_inUse := n, jm_guid := Suc (jm_guid s) \<rparr>))"
  let ?s = "jspawn (RunStarting x job d (jm_guid s)) ?t"
  have "gains s (jspawn (RunStarting x job d (jm_guid s)) s)" by (rule jspawn_gains [OF assms(3)])
  then have g: "gains s ?s" by (simp add: gains_def holds_run_def is_loading_def jspawn_def)
  have "holds_run ?s x (qj_id job)"
    unfolding holds_run_def by (intro exI [of _ "jm_nextProc s"] exI [of _ "RunStarting x job d (jm_guid s)"]) (simp add: jspawn_def js_get_set)
  then have "holds_run s x i \<or> i \<in> insert (qj_id job) D \<Longrightarrow> holds_run ?s x i \<or> i \<in> D" for i using g by (auto simp: gains_def)
  moreover have "kept (\<lambda>i. holds_run s x i \<or> i \<in> insert (qj_id job) D) (?f (jex s x))"
    using assms(1) by (simp add: polling_def kept_def)
  ultimately have "kept (\<lambda>i. holds_run ?s x i \<or> i \<in> D) (?f (jex s x))" by (rule kept_mono [rotated])
  then have "polling x D ?s"
    using assms(1,2) ex_work_gains [OF _ g] by (auto simp: polling_def jspawn_def on_ex_jex)
  with Some assms(2) show ?thesis by (simp add: runOne_some)
qed

lemma polling_each:
  "polling x (qj_id ` set due) s \<Longrightarrow> x < length (jm_objects s) \<Longrightarrow> runs_ok s \<Longrightarrow> polling x {} (fst (pollEach now x due s))"
proof (induction due arbitrary: s)
  case (Cons job due)
  let ?b = "on_ex x (\<lambda>e. e\<lparr> ex_queue := jq_add (job\<lparr> qj_dueMs := now \<rparr>) (ex_queue e) \<rparr>) s"
  let ?r = "runOne now x job (s\<lparr> jm_inUse := jm_inUse s + 1 \<rparr>)"
  have p: "polling x (insert (qj_id job) (qj_id ` set due)) s" using Cons.prems(1) by simp
  show ?case
  proof (cases "ex_concurrency (jex s x) \<le> ex_running (jex s x) \<or> \<not> snd (tryAcquire s)")
    case True
    have "runs_ok ?b" by (rule quiet_runs_ok [OF Cons.prems(3)]) (rule quiet_on_ex, simp)
    with Cons.IH [OF polling_blocked [OF p Cons.prems(2), of now]] Cons.prems(2) True show ?thesis by (simp add: case_prod_unfold)
  next
    case False
    then have "runs_ok ?r" using runOne_runs_ok [OF Cons.prems(3,2), of now job] tryAcquire_runs [of s] by auto
    with Cons.IH [OF polling_run [OF p Cons.prems(2,3), of now "jm_inUse s + 1"]] Cons.prems(2) False tryAcquire_runs [of s]
    show ?thesis by (simp add: case_prod_unfold runOne_length)
  qed
qed simp

lemma saturated_kept [simp]: "kept H (scheduleSaturatedPoll opts now e) = kept H e" "armed (scheduleSaturatedPoll opts now e)"
  by (simp_all add: scheduleSaturatedPoll_def Let_def armed_def kept_def)

lemma work_poll:
  assumes "work_ok s" "runs_ok s" "x < length (jm_objects s)"
  shows "work_ok (poll now x overload (on_ex x clearPoll s))"
proof -
  let ?s = "on_ex x clearPoll s"
  have ok: "runs_ok ?s" by (rule quiet_runs_ok [OF assms(2)]) (rule quiet_on_ex, simp)
  have g: "gains s ?s" by (rule gains_procs) simp
  have k: "kept (holds_run ?s x) (jex ?s x)"
    using assms(1,3) kept_frame [of "clearPoll (jex s x)" "jex s x"] by (simp add: work_ok_def ex_work_def on_ex_jex clearPoll_def)
  have others: "ex_work ?s y (jex ?s y)" if "y < length (jm_objects s)" "y \<noteq> x" for y
    using assms(1) that ex_work_gains [OF _ g] by (simp add: work_ok_def on_ex_jex)
  show ?thesis
  proof (cases "ex_stopped (jex ?s x) \<or> (if jm_hasOverload ?s then overload else saturated ?s)")
    case True
    have p: "polling x {} ?s" using k others by (simp add: polling_def)
    have stopped: "work_ok ?s" if "ex_stopped (jex ?s x)"
      using k others that unfolding work_ok_def ex_work_def armed_def by (metis on_ex_sel(7))
    have "work_ok (on_ex x (\<lambda>e. e\<lparr> ex_pollHandle := Some t \<rparr>) ?s)" for t
      by (rule polling_done [OF p]) (simp_all add: assms(3) kept_def armed_def)
    with True stopped show ?thesis by (auto simp: poll_def Let_def)
  next
    case False
    define e1 where "e1 = (jex ?s x)\<lparr> ex_concurrency := max (ex_concurrency (jex ?s x)) (slowStartCeiling (jm_options ?s) now (jex ?s x)) \<rparr>"
    obtain q due where d: "dequeueDue now (ex_queue e1) = (q, due)" by (cases "dequeueDue now (ex_queue e1)")
    let ?t = "on_ex x (\<lambda>_. e1\<lparr> ex_queue := q \<rparr>) ?s"
    have "kept (holds_run ?s x) e1" using k by (simp add: e1_def kept_def)
    from dequeue_kept(1) [OF this d] have "kept (\<lambda>i. holds_run ?t x i \<or> i \<in> qj_id ` set due) (e1\<lparr> ex_queue := q \<rparr>)"
      by (simp add: holds_run_def)
    moreover have "gains ?s ?t" by (rule gains_procs) simp
    ultimately have p: "polling x (qj_id ` set due) ?t"
      using others assms(3) ex_work_gains [of ?s _ _ ?t] by (auto simp: polling_def on_ex_jex)
    have okt: "runs_ok ?t"
    proof -
      let ?u = "on_ex x (\<lambda>e. e\<lparr> ex_concurrency := ex_concurrency e1 \<rparr>) ?s"
      have "runs_ok ?u"
        using raise_runs_ok [OF ok, of x "ex_concurrency e1"] assms(3) by (simp add: e1_def)
      moreover have "?t = on_ex x (\<lambda>e. e\<lparr> ex_queue := q \<rparr>) ?u" using assms(3) by (simp add: on_ex_def e1_def)
      ultimately show ?thesis using quiet_runs_ok [OF _ quiet_on_ex [of "\<lambda>e. e\<lparr> ex_queue := q \<rparr>"]] by simp
    qed
    have len: "length (jm_objects (fst (pollEach now x due ?t))) = length (jm_objects s)"
      using pollEach_runs_ok [OF okt, of x now due] assms(3) by simp
    from polling_each [OF p _ okt, of now] assms(3) have "polling x {} (fst (pollEach now x due ?t))" by simp
    from polling_done [OF this, of "schedulePoll now"] polling_done [OF this, of "scheduleSaturatedPoll (jm_options s) now"] len assms(3)
    have "work_ok (on_ex x (schedulePoll now) (fst (pollEach now x due ?t)))"
      "work_ok (on_ex x (scheduleSaturatedPoll (jm_options ?s) now) (fst (pollEach now x due ?t)))" by simp_all
    with False show ?thesis unfolding poll_def Let_def e1_def [symmetric] d prod.case by (simp add: case_prod_unfold split del: if_split) simp
  qed
qed

section \<open>Every step\<close>

lemma work_jresume:
  assumes "work_ok s" "runs_ok s"
  shows "work_ok (fst (jresume now pid result s))"
proof (cases "js_get (jm_procs s) pid")
  case None
  with assms(1) show ?thesis by (simp add: jresume_def)
next
  case (Some p)
  consider (run) x i where "held p = Some (x, i)" | (load) x where "loading_at p = Some x" | (light) "held p = None" "loading_at p = None"
    by fastforce
  then show ?thesis
  proof cases
    case run
    have start: "work_ok (jgo pid (RunHandler x job runId) s)" if "p = RunStarting x job d runId" for x job d runId
      using work_gains [OF assms(1) gains_jgo_same [OF Some]] that by simp
    have "work_ok (jgo pid (RunEnding x) (dropJob x (qj_id job) s))" if "p = RunCompleting x job" for x job
      using Some that
      by (intro work_release [OF assms(1) Some, where f = "\<lambda>e. e\<lparr> ex_jobs := js_delete (qj_id job) (ex_jobs e) \<rparr>"])
         (auto simp: dropJob_def jgo_def on_ex_def on_store_def drop_kept armed_def)
    with run Some assms(1) start show ?thesis by (cases p) (auto simp: jresume_def work_applyResult)
  next
    case load
    then obtain ps cont where p: "p = Loading x ps cont" by (cases p) auto
    with p Some assms(1) show ?thesis by (simp add: jresume_def work_loadEach)
  next
    case light
    then have l: "light_pid s pid" using Some by (simp add: light_pid_def)
    have "work_ok (runFinally now x s)" "jm_procs (runFinally now x s) = jm_procs s" for x
    proof -
      let ?t = "lm_release (on_ex x (\<lambda>e. e\<lparr> ex_running := ex_running e - 1 \<rparr>) s)"
      have "work_ok (on_ex x (\<lambda>e. e\<lparr> ex_running := ex_running e - 1 \<rparr>) s)"
        by (rule work_on_ex [OF assms(1)]) (simp add: ex_work_def kept_def armed_def)
      then have "work_ok ?t" by (rule work_frame) (simp_all add: lm_release_def)
      then show "work_ok (runFinally now x s)" unfolding runFinally_def by (rule work_on_ex) (rule work_then(1))
      show "jm_procs (runFinally now x s) = jm_procs s" by (simp add: runFinally_def lm_release_def)
    qed
    then have "work_ok (jfinish pid (on_ex x (\<lambda>e. e\<lparr> ex_inFlight := removeAll pid (ex_inFlight e) \<rparr>) (runFinally now x s)))" for x
      by (intro work_jfinish work_on_ex) (simp_all add: l light_procs ex_work_def kept_def armed_def)
    with light Some l assms(1) show ?thesis
      by (cases p) (auto simp: jresume_def work_ensureOwned work_claimedResume work_ownedResume work_resumeShards work_dropExecutors work_stopEach
          intro!: work_jgo work_jfinish)
  qed
qed

lemma work_job_step:
  assumes "work_ok s" "runs_ok s"
  shows "work_ok (fst (job_step op s))"
proof -
  have spawn: "work_ok (jspawn p s')"
    if "jm_procs s' = jm_procs s" "jm_objects s' = jm_objects s" "jm_nextProc s' = jm_nextProc s" for p s'
  proof -
    have "gains s (jspawn p s)" by (rule jspawn_gains [OF assms(2)])
    then have "gains s (jspawn p s')" using that by (simp add: gains_def holds_run_def is_loading_def jspawn_def)
    then show ?thesis using work_gains [OF assms(1)] that by (simp add: jspawn_def)
  qed
  have recv: "work_ok (receiveForwardedJob job s)" for job
  proof -
    let ?s = "s\<lparr> jm_nextProc := Suc (jm_nextProc s) \<rparr>"
    have "js_get (jm_procs s) (jm_nextProc s) = None" using assms(2) unfolding runs_ok_def by (metis less_irrefl)
    then have "light_pid ?s (jm_nextProc s)" by (simp add: light_pid_def)
    moreover have "work_ok ?s" by (rule work_frame [OF assms(1)]) simp_all
    ultimately show ?thesis unfolding receiveForwardedJob_def by (intro work_ensureOwned)
  qed
  have cancel: "work_ok (cancelJob i k s)" for i k
    using assms(1) by (auto simp: cancelJob_def intro!: work_on_ex work_then(3) split: option.splits)
  have "work_ok (pollFires now x overload s)" for now x overload
    using assms by (auto simp: pollFires_def work_poll split: option.splits)
  with cancel recv work_jresume [OF assms] show ?thesis
    using assms(1) work_frame [OF assms(1)]
    by (cases op) (auto simp: job_step_def scheduleJob_def Let_def refreshOwnership_def enqueueReconcile_def checkFires_def reconcileNow_def
        jm_stop_def intro!: spawn split: sum.splits option.splits)
qed

end
