(* ===== verification/Durable_Jobs_Cluster.thy ===== *)
theory Durable_Jobs_Cluster
  imports Durable_Jobs_Work
begin

text \<open>
  Durable jobs over the silos of a cluster: the bookkeeping of every silo in every run and a bound on the attempts of a
  job.
\<close>

section \<open>Runs of the cluster\<close>

text \<open>The runs whose steps satisfy a condition on the environment.\<close>

inductive job_run :: "('m job_world \<Rightarrow> 'm world_op \<Rightarrow> bool) \<Rightarrow> 'm job_world \<Rightarrow> (nat \<times> 'm job_event) list \<Rightarrow> bool" for ok where
  start: "job_run ok emptyWorld []"
| step: "job_run ok w hist \<Longrightarrow> ok w op \<Longrightarrow> world_step w op = (w', evs) \<Longrightarrow> job_run ok w' (hist @ evs)"

text \<open>A property of the silos that is kept by their own steps holds in every run.\<close>

lemma job_run_silos:
  assumes "job_run ok w hist" "i < length (jw_silos w)"
    and "\<And>opts hasOverload canForward own now. P (newJobManager opts hasOverload canForward own now)"
    and "\<And>s op. P s \<Longrightarrow> P (fst (job_step op s))" "\<And>s st g. P s \<Longrightarrow> P (s\<lparr> jm_store := st, jm_guid := g \<rparr>)"
  shows "P (jw_silos w ! i)"
  using assms(1,2)
proof (induction arbitrary: i rule: job_run.induct)
  case start
  then show ?case by (simp add: emptyWorld_def)
next
  case (step w hist op w' evs)
  show ?case
  proof (cases op)
    case (At j jop)
    have "P (fst (job_step jop (at_silo w j)))" if "j < length (jw_silos w)"
      unfolding at_silo_def by (intro assms(4,5) step.IH that)
    with step At show ?thesis by (auto simp: nth_list_update split: if_splits prod.splits)
  next
    case (Join opts hasOverload canForward own now)
    with step assms(3) show ?thesis by (auto simp: nth_append less_Suc_eq)
  qed (use step in auto)
qed

definition silo_ok :: "'m job_silo \<Rightarrow> bool" where
  "silo_ok s \<longleftrightarrow> runs_ok s \<and> work_ok s"

lemma job_run_ok:
  assumes "job_run ok w hist" "i < length (jw_silos w)"
  shows "runs_ok (jw_silos w ! i)" "work_ok (jw_silos w ! i)"
proof -
  have "silo_ok (jw_silos w ! i)"
  proof (rule job_run_silos [OF assms])
    show "silo_ok (newJobManager opts hasOverload canForward own now)" for opts hasOverload canForward own now
      by (simp add: silo_ok_def runs_ok_def work_ok_def newJobManager_def run_of_def)
    show "silo_ok (fst (job_step op s))" if "silo_ok s" for s :: "'a job_silo" and op
      using that job_step_runs_ok work_job_step by (auto simp: silo_ok_def)
    show "silo_ok (s\<lparr> jm_store := st, jm_guid := g \<rparr>)" if "silo_ok s" for s :: "'a job_silo" and st g
      using that quiet_runs_ok [OF _ quiet_frame, of s "s\<lparr> jm_store := st, jm_guid := g \<rparr>"] work_frame [of s "s\<lparr> jm_store := st, jm_guid := g \<rparr>"]
      by (simp add: silo_ok_def loads_def)
  qed
  then show "runs_ok (jw_silos w ! i)" "work_ok (jw_silos w ! i)" by (simp_all add: silo_ok_def)
qed

lemma runs_card:
  assumes "runs_ok s"
  shows "x < length (jm_objects s) \<Longrightarrow> card {pid. run_of s pid = Some x} = ex_running (jex s x)"
    and "card {pid. run_of s pid \<noteq> None} = jm_inUse s"
proof -
  have at: "{pid. run_of s pid = Some x} = set (ex_inFlight (jex s x))" if "x < length (jm_objects s)" for x
    using assms that by (auto simp: runs_ok_def)
  have ex: "distinct (ex_inFlight (jex s x))" "ex_running (jex s x) = length (ex_inFlight (jex s x))" if "x < length (jm_objects s)" for x
    using assms that by (simp_all add: runs_ok_def)
  show one: "card {pid. run_of s pid = Some x} = ex_running (jex s x)" if "x < length (jm_objects s)" for x
    using at [OF that] ex [OF that] by (simp add: distinct_card)
  have "{pid. run_of s pid \<noteq> None} = (\<Union>x \<in> {..<length (jm_objects s)}. {pid. run_of s pid = Some x})"
    using assms by (auto simp: runs_ok_def)
  also have "card \<dots> = (\<Sum>x < length (jm_objects s). card {pid. run_of s pid = Some x})"
  proof (rule card_UN_disjoint)
    show "\<forall>x \<in> {..<length (jm_objects s)}. finite {pid. run_of s pid = Some x}" using at by simp
  qed auto
  also have "\<dots> = sum_list (map ex_running (jm_objects s))"
    using one by (simp add: sum_list_sum_nth atLeast0LessThan)
  finally show "card {pid. run_of s pid \<noteq> None} = jm_inUse s" using assms by (simp add: runs_ok_def)
qed

subsection \<open>A small cluster\<close>

definition demo_job_options :: job_options where
  "demo_job_options = \<lparr> jo_shardDurationMs = 1000, jo_maxConcurrentJobsPerSilo = 2, jo_slowStartInitialConcurrency = 2,
     jo_slowStartGrowthFactor = 2, jo_slowStartIntervalMs = 0, jo_overloadBackoffMs = 5, jo_shouldRetry = defaultShouldRetry,
     jo_maxAdoptedCount = 1, jo_claimRampUpBudget = 4, jo_shardClaimInitialBudget = 2, jo_shardClaimMaxBudget = 20,
     jo_shardClaimRampUpDurationMs = 0, jo_periodicShardCheckMs = 100 \<rparr>"

definition demo_own :: "string \<Rightarrow> ownership" where
  "demo_own key = \<lparr> ow_localRingKey = key, ow_activeRingKeys = [''a'', ''b''] \<rparr>"

definition demo_join :: "string \<Rightarrow> unit world_op" where
  "demo_join key = Join demo_job_options False False (demo_own key) 0"

definition demo_schedule :: "nat \<Rightarrow> int \<Rightarrow> unit world_op" where
  "demo_schedule i due = At i (ScheduleJob ''j'' due (GrainId ''t'' (KString ''a'')) ())"

text \<open>A process goes on \<open>n\<close> times.\<close>

definition demo_go :: "nat \<Rightarrow> nat \<Rightarrow> int \<Rightarrow> nat \<Rightarrow> unit world_op list" where
  "demo_go n i now pid = replicate n (At i (JResume now pid Completed))"

text \<open>Two jobs of one shard are scheduled; the first runs, fails, and is due again two seconds later; the second is running.\<close>

definition demo_jobs :: "unit world_op list" where
  "demo_jobs = demo_join ''a'' # demo_schedule 0 1500 # demo_go 4 0 0 0 @ demo_schedule 0 1600 # demo_go 2 0 0 1
     @ At 0 (PollFires 1500 0 False) # demo_go 1 0 1500 2 @ At 0 (JResume 1510 2 (Failed ''no'')) # demo_go 1 0 1510 2
     @ At 0 (PollFires 1600 0 False) # demo_go 1 0 1600 3"

abbreviation demo_world :: "unit world_op list \<Rightarrow> unit job_world" where
  "demo_world ops \<equiv> fst (run_world emptyWorld ops)"

definition demo_ok :: "unit job_world \<Rightarrow> unit world_op \<Rightarrow> bool" where
  "demo_ok w op \<longleftrightarrow> (case op of Join opts a b own now \<Rightarrow> opts = demo_job_options | _ \<Rightarrow> True)"

lemma job_run_append:
  assumes "job_run ok w hist" "\<forall>op \<in> set ops. \<forall>w. ok w op"
  shows "job_run ok (fst (run_world w ops)) (hist @ snd (run_world w ops))"
  using assms
proof (induction ops arbitrary: w hist)
  case (Cons op ops)
  obtain w1 e1 where 1: "world_step w op = (w1, e1)" by fastforce
  obtain w2 e2 where 2: "run_world w1 ops = (w2, e2)" by fastforce
  have "job_run ok w1 (hist @ e1)" using Cons.prems 1 by (auto intro: job_run.step)
  from Cons.IH [OF this] Cons.prems(2) 2 have "job_run ok w2 ((hist @ e1) @ e2)" by simp
  with 1 2 show ?case by simp
qed simp

lemma demo_run:
  assumes "list_all (demo_ok emptyWorld) ops"
  shows "job_run demo_ok (demo_world ops) (snd (run_world emptyWorld ops))"
proof -
  have "\<forall>op \<in> set ops. \<forall>w. demo_ok w op" using assms by (auto simp: list_all_iff demo_ok_def)
  from job_run_append [OF job_run.start this] show ?thesis by simp
qed

lemma demo_join_ok: "demo_ok w (Join opts a b own now) \<Longrightarrow> opts = demo_job_options"
  by (simp add: demo_ok_def)

lemma demo_jobs_ok: "list_all (demo_ok emptyWorld) demo_jobs"
  by (simp add: demo_jobs_def demo_go_def demo_join_def demo_schedule_def demo_ok_def list_all_iff)

lemma demo_jobs_world:
  "length (jw_silos (demo_world demo_jobs)) = 1" "length (jm_objects (jw_silos (demo_world demo_jobs) ! 0)) = 1"
  "jm_inUse (jw_silos (demo_world demo_jobs) ! 0) = 1" "ex_stopped (jex (jw_silos (demo_world demo_jobs) ! 0) 0) = False"
  "js_has (ex_jobs (jex (jw_silos (demo_world demo_jobs) ! 0) 0)) 0" "js_has (jq_jobs (ex_queue (jex (jw_silos (demo_world demo_jobs) ! 0) 0))) 0"
  by code_simp+

text \<open>C18: Handler executions in flight at once on a silo never exceed \<open>maxConcurrentJobsPerSilo\<close>, and those of one shard
  never exceed its slow-start ceiling, in every run. Only executions are counted: a job that answered \<open>pollAfter\<close> and
  waits out its delay in the queue is not executing, and the claim says nothing about the slot it holds or gives up
  meanwhile.\<close>

theorem job_concurrency_bounded:
  assumes "job_run ok w hist" "i < length (jw_silos w)"
  shows "card {pid. run_of (jw_silos w ! i) pid \<noteq> None} \<le> jo_maxConcurrentJobsPerSilo (jm_options (jw_silos w ! i))
    \<and> (\<forall>x < length (jm_objects (jw_silos w ! i)).
         card {pid. run_of (jw_silos w ! i) pid = Some x} \<le> ex_concurrency (jex (jw_silos w ! i) x))"
proof -
  have ok: "runs_ok (jw_silos w ! i)" by (rule job_run_ok(1) [OF assms])
  then have "jm_inUse (jw_silos w ! i) \<le> jo_maxConcurrentJobsPerSilo (jm_options (jw_silos w ! i))"
    "\<forall>e \<in> set (jm_objects (jw_silos w ! i)). ex_running e \<le> ex_concurrency e" unfolding runs_ok_def by blast+
  with runs_card [OF ok] show ?thesis by auto
qed

theorem job_concurrency_bounded_witness:
  "card {pid. run_of (jw_silos (demo_world demo_jobs) ! 0) pid \<noteq> None}
     \<le> jo_maxConcurrentJobsPerSilo (jm_options (jw_silos (demo_world demo_jobs) ! 0))"
  using job_concurrency_bounded [OF demo_run [OF demo_jobs_ok], of 0] demo_jobs_world(1) by simp

text \<open>C15: No job is forgotten: in every run, a job in the working set of an executor is being run or is in its queue, and
  an executor with a queue has its poll timer armed unless it was stopped or is still loading.\<close>

theorem no_job_forgotten:
  assumes "job_run ok w hist" "i < length (jw_silos w)" "x < length (jm_objects (jw_silos w ! i))"
    and "e = jex (jw_silos w ! i) x"
  shows "(\<forall>id. js_has (ex_jobs e) id \<longrightarrow> js_has (jq_jobs (ex_queue e)) id \<or> holds_run (jw_silos w ! i) x id)
    \<and> (jq_jobs (ex_queue e) \<noteq> [] \<and> \<not> ex_stopped e \<and> \<not> is_loading (jw_silos w ! i) x \<longrightarrow> ex_pollHandle e \<noteq> None)"
  using job_run_ok(2) [OF assms(1,2)] assms(3,4) unfolding work_ok_def ex_work_def kept_def armed_def by blast

theorem no_job_forgotten_witness:
  "(let s = jw_silos (demo_world demo_jobs) ! 0 in
     js_has (ex_jobs (jex s 0)) 0 \<and> (js_has (jq_jobs (ex_queue (jex s 0))) 0 \<or> holds_run s 0 0))"
  using no_job_forgotten [OF demo_run [OF demo_jobs_ok], of 0 0] demo_jobs_world by (simp add: Let_def)

section \<open>Attempts\<close>

text \<open>Under a policy that gives up after \<open>m\<close> attempts, every record of a job counts fewer than \<open>m\<close> attempts made.\<close>

definition all_values :: "('v \<Rightarrow> bool) \<Rightarrow> ('k, 'v) js_map \<Rightarrow> bool" where
  "all_values P m \<longleftrightarrow> (\<forall>v \<in> snd ` set m. P v)"

lemma all_values_simps [simp]: "all_values P []"
  by (simp add: all_values_def)

lemma all_set [simp]: "all_values P m \<Longrightarrow> P v \<Longrightarrow> all_values P (js_set k v m)"
  using js_values_set [of k v m] unfolding all_values_def by blast

lemma all_delete [simp]: "all_values P m \<Longrightarrow> all_values P (js_delete k m)"
  using js_values_delete [of k m] unfolding all_values_def by blast

lemma all_get: "all_values P m \<Longrightarrow> js_get m k = Some v \<Longrightarrow> P v"
  unfolding all_values_def using js_get_memD by force

lemma all_list: "all_values P m \<longleftrightarrow> (\<forall>v \<in> set (js_values m). P v)"
  by (simp add: all_values_def)

definition shard_att :: "nat \<Rightarrow> 'm shard_state \<Rightarrow> bool" where
  "shard_att m st \<longleftrightarrow> all_values (\<lambda>e. je_dequeueCount e < m) (ss_jobs st)"

abbreviation store_att :: "nat \<Rightarrow> 'm job_store \<Rightarrow> bool" where
  "store_att m s \<equiv> all_values (shard_att m) s"

definition ex_att :: "nat \<Rightarrow> 'm executor \<Rightarrow> bool" where
  "ex_att m e \<longleftrightarrow> all_values (\<lambda>j. qj_dequeueCount j < m) (jq_jobs (ex_queue e))"

fun proc_att :: "nat \<Rightarrow> 'm job_process \<Rightarrow> bool" where
  "proc_att m (RunStarting x job durable runId) = (qj_dequeueCount job < m)"
| "proc_att m (RunHandler x job runId) = (qj_dequeueCount job < m)"
| "proc_att m (Loading x ps cont) = (\<forall>p \<in> set ps. je_dequeueCount p < m)"
| "proc_att m p = True"

definition gives_up :: "nat \<Rightarrow> job_options \<Rightarrow> bool" where
  "gives_up m opts \<longleftrightarrow> (\<forall>n error. m \<le> n \<longrightarrow> jo_shouldRetry opts n error = None)"

definition silo_att :: "nat \<Rightarrow> 'm job_silo \<Rightarrow> bool" where
  "silo_att m s \<longleftrightarrow> gives_up m (jm_options s) \<and> 0 < m \<and> store_att m (jm_store s) \<and> (\<forall>e \<in> set (jm_objects s). ex_att m e)
     \<and> all_values (proc_att m) (jm_procs s)"

lemma shard_att_get: "store_att m s \<Longrightarrow> shard_att m (shard k s)"
  by (cases "js_get s k") (auto simp: shard_def newShard_def shard_att_def dest!: all_get)

lemma store_att_entry:
  assumes "store_att m s" "\<And>e. je_dequeueCount e < m \<Longrightarrow> je_dequeueCount (f e) < m"
  shows "store_att m (on_entry k i f s)"
proof (cases "\<exists>st e. js_get s k = Some st \<and> js_get (ss_jobs st) i = Some e")
  case True
  then obtain st e where g: "js_get s k = Some st" "js_get (ss_jobs st) i = Some e" by blast
  have st: "shard_att m st" by (rule all_get [OF assms(1) g(1)])
  then have "je_dequeueCount (f e) < m" unfolding shard_att_def by (intro assms(2)) (rule all_get [OF _ g(2)])
  with st g assms(1) show ?thesis by (simp add: on_entry_def shard_att_def)
qed (use assms(1) in \<open>auto simp: on_entry_def split: option.splits\<close>)

lemma store_att_ops:
  "store_att m s \<Longrightarrow> 0 < m \<Longrightarrow> store_att m (persistAdd job s)"
  "store_att m s \<Longrightarrow> store_att m (persistRemove k i s)"
  "store_att m s \<Longrightarrow> n < m \<Longrightarrow> store_att m (persistRetry k i due n s)"
  "store_att m s \<Longrightarrow> store_att m (persistRunStart k i runId s)"
  "store_att m s \<Longrightarrow> store_att m (persistRunComplete k i runId s)"
  "store_att m s \<Longrightarrow> store_att m (releaseShard k owner s)"
proof -
  assume s: "store_att m s"
  have st: "shard_att m st" if "js_get s k = Some st" for st k using all_get [OF s that] .
  show "0 < m \<Longrightarrow> store_att m (persistAdd job s)"
    using s shard_att_get [OF s] by (simp add: persistAdd_def Let_def shard_att_def)
  show "store_att m (persistRemove k i s)" "store_att m (releaseShard k owner s)"
    using s st by (auto simp: persistRemove_def releaseShard_def shard_att_def split: option.splits intro!: all_set)
  show "n < m \<Longrightarrow> store_att m (persistRetry k i due n s)" "store_att m (persistRunStart k i runId s)"
    "store_att m (persistRunComplete k i runId s)"
    using s by (simp_all add: persistRetry_def persistRunStart_def persistRunComplete_def store_att_entry)
qed

lemma store_att_claim: "store_att m s \<Longrightarrow> store_att m (fst (claimShard k owner dead n s))"
  using shard_att_get [of m s k] by (simp add: claimShard_def Let_def shard_att_def)

lemma store_att_read: "store_att m s \<Longrightarrow> \<forall>p \<in> set (readJobs k s). je_dequeueCount p < m"
proof (cases "js_get s k")
  case (Some st)
  then show "store_att m s \<Longrightarrow> ?thesis" using all_get [of "shard_att m" s k st] by (auto simp: readJobs_def shard_att_def all_values_def)
qed (simp add: readJobs_def)

lemma ex_att_ops:
  "ex_att m e \<Longrightarrow> ex_att m (schedulePoll now e)"
  "ex_att m e \<Longrightarrow> n < m \<Longrightarrow> ex_att m (addJob job due n e)"
  "ex_att m e \<Longrightarrow> ex_att m (fst (ex_cancel i e))"
  "ex_att m e \<Longrightarrow> qj_dequeueCount q < m \<Longrightarrow> ex_att m (e\<lparr> ex_queue := retryLater q delay now (ex_queue e) \<rparr>)"
  "ex_att m e \<Longrightarrow> qj_dequeueCount q < m \<Longrightarrow> ex_att m (e\<lparr> ex_queue := jq_add q (ex_queue e) \<rparr>)"
  "ex_att m e \<Longrightarrow> ex_att m (scheduleSaturatedPoll opts now e)"
  "ex_att m (newExecutor opts now k)"
  by (auto simp: ex_att_def addJob_def jq_add_def ex_cancel_def jq_cancel_def retryLater_def scheduleSaturatedPoll_def Let_def newExecutor_def
      case_prod_unfold)

lemma ex_att_frame: "ex_queue e' = ex_queue e \<Longrightarrow> ex_att m e' = ex_att m e"
  by (simp add: ex_att_def)

lemma att_on_ex: "silo_att m s \<Longrightarrow> (\<And>e. ex_att m e \<Longrightarrow> ex_att m (f e)) \<Longrightarrow> silo_att m (on_ex x f s)"
  by (cases "x < length (jm_objects s)")
     (auto simp: silo_att_def on_ex_def list_update_beyond dest!: subsetD [OF set_update_subset_insert])

lemma att_on_store: "silo_att m s \<Longrightarrow> (\<And>st. store_att m st \<Longrightarrow> store_att m (f st)) \<Longrightarrow> silo_att m (on_store f s)"
  by (simp add: silo_att_def)

lemma att_jgo: "silo_att m s \<Longrightarrow> proc_att m p \<Longrightarrow> silo_att m (jgo pid p s)"
  by (simp add: silo_att_def jgo_def)

lemma att_jfinish: "silo_att m s \<Longrightarrow> silo_att m (jfinish pid s)"
  by (simp add: silo_att_def jfinish_def)

lemma att_jspawn: "silo_att m s \<Longrightarrow> proc_att m p \<Longrightarrow> silo_att m (jspawn p s)"
  by (simp add: silo_att_def jspawn_def)

lemma att_frame:
  "silo_att m s \<Longrightarrow> jm_options s' = jm_options s \<Longrightarrow> jm_store s' = jm_store s \<Longrightarrow> jm_objects s' = jm_objects s \<Longrightarrow> jm_procs s' = jm_procs s \<Longrightarrow>
   silo_att m s'"
  by (simp add: silo_att_def)

lemma att_fields [simp]:
  "silo_att m (s\<lparr> jm_guid := g \<rparr>) = silo_att m s" "silo_att m (s\<lparr> jm_claimedSinceJoin := n \<rparr>) = silo_att m s"
  "silo_att m (s\<lparr> jm_inUse := n \<rparr>) = silo_att m s" "silo_att m (s\<lparr> jm_nextProc := n \<rparr>) = silo_att m s"
  by (simp_all add: silo_att_def)

lemmas att_intros = att_on_ex att_on_store att_jgo att_jfinish att_jspawn ex_att_ops store_att_ops

subsection \<open>Every operation\<close>

lemma att_startExecutor: "silo_att m s \<Longrightarrow> silo_att m (startExecutor now pid k cont s)"
  by (auto simp: startExecutor_def Let_def silo_att_def jgo_def store_att_read ex_att_ops(7) split: option.splits)

lemma att_claimAndStart: "silo_att m s \<Longrightarrow> silo_att m (claimAndStart pid k dead cont s)"
  by (auto simp: claimAndStart_def case_prod_unfold silo_att_def jgo_def store_att_claim)

lemma att_claimedResume: "silo_att m s \<Longrightarrow> silo_att m (claimedResume now pid k claimed cont s)"
  by (auto simp: claimedResume_def intro!: att_intros att_startExecutor split: option.splits)

lemma att_ensureOwned: "silo_att m s \<Longrightarrow> silo_att m (ensureOwned pid k cont s)"
  by (auto simp: ensureOwned_def intro!: att_intros att_claimAndStart split: option.splits)

lemma att_loadEach: "silo_att m s \<Longrightarrow> \<forall>p \<in> set ps. je_dequeueCount p < m \<Longrightarrow> silo_att m (loadEach now pid x ps cont s)"
proof (induction ps arbitrary: s)
  case (Cons p ps)
  then show ?case using Cons.IH [OF att_on_ex [OF Cons.prems(1) ex_att_ops(2)]] by (auto intro!: att_intros)
qed (auto intro!: att_intros)

lemma att_endReconcile: "silo_att m s \<Longrightarrow> silo_att m (endReconcile pid (scheduleCheck now s))"
  by (simp add: endReconcile_def scheduleCheck_def silo_att_def jfinish_def)

lemma att_claimShards: "silo_att m s \<Longrightarrow> silo_att m (claimShards now pid own rs s)"
  by (cases rs) (auto intro!: att_intros att_endReconcile att_claimAndStart)

lemma att_resumeShards: "silo_att m s \<Longrightarrow> silo_att m (resumeShards now pid own shards rs s)"
  by (induction rs) (auto simp: Let_def att_claimShards att_endReconcile att_startExecutor)

lemma att_stopExecutor: "silo_att m s \<Longrightarrow> silo_att m (stopExecutor k x s)"
  unfolding stopExecutor_def by (rule att_on_ex, erule att_frame) (simp_all add: clearPoll_def ex_att_def)

lemma att_dropExecutors: "silo_att m s \<Longrightarrow> silo_att m (dropExecutors now pid ownedNow ks s)"
  by (induction ks) (auto intro!: att_jgo att_endReconcile att_stopExecutor split: option.splits)

lemma att_stopEach: "silo_att m s \<Longrightarrow> silo_att m (stopEach pid ks s)"
  by (auto simp: stopEach_def intro!: att_jgo att_jfinish att_stopExecutor split: list.splits option.splits)

lemma att_ownedResume: "silo_att m s \<Longrightarrow> silo_att m (fst (ownedResume now pid xo cont s))"
  by (cases "(now, pid, xo, cont, s)" rule: ownedResume.cases)
     (auto simp: forwardToShardOwner_def ex_enqueue_def silo_att_def [of m s]
       intro!: att_intros att_resumeShards att_claimShards)

lemma att_applyResult:
  assumes "silo_att m s" "qj_dequeueCount job < m"
  shows "silo_att m (applyResult now pid x job result attempt runId s)"
proof -
  have "attempt < m" if "jo_shouldRetry (jm_options s) attempt error = Some backoff" for attempt error backoff
    using assms(1) that unfolding silo_att_def gives_up_def by (metis not_less option.distinct(1))
  with assms show ?thesis
    by (auto simp: applyResult_def reschedule_def dropJob_def ex_att_frame [of "_\<lparr> ex_jobs := _ \<rparr>"] intro!: att_intros
        split: run_result.splits option.splits)
qed

lemma att_runFinally: "silo_att m s \<Longrightarrow> silo_att m (runFinally now x s)"
  unfolding runFinally_def lm_release_def
  by (intro att_on_ex ex_att_ops, rule att_frame, erule att_on_ex) (simp_all add: ex_att_def)

lemma att_runOne: "silo_att m s \<Longrightarrow> qj_dequeueCount job < m \<Longrightarrow> silo_att m (runOne now x job s)"
  unfolding runOne_def Let_def
  by (auto simp: ex_att_def intro!: att_intros att_runFinally split: option.splits)

lemma att_pollEach:
  "silo_att m s \<Longrightarrow> \<forall>j \<in> set due. qj_dequeueCount j < m \<Longrightarrow> silo_att m (fst (pollEach now x due s))"
proof (induction due arbitrary: s)
  case (Cons job due)
  have "silo_att m (fst (tryAcquire s))" using Cons.prems(1) by (simp add: tryAcquire_def)
  then have "silo_att m (runOne now x job (fst (tryAcquire s)))" using Cons.prems(2) by (simp add: att_runOne)
  moreover have "silo_att m (on_ex x (\<lambda>e. e\<lparr> ex_queue := jq_add (job\<lparr> qj_dueMs := now \<rparr>) (ex_queue e) \<rparr>) s)"
    using Cons.prems by (intro att_intros) simp_all
  ultimately show ?case using Cons.IH Cons.prems(2) by (simp add: case_prod_unfold)
qed simp

lemma dequeue_att:
  assumes "all_values (\<lambda>j. qj_dequeueCount j < m) (jq_jobs q)"
  shows "all_values (\<lambda>j. qj_dequeueCount j < m) (jq_jobs (fst (dequeueDue now q)))"
    "\<forall>j \<in> set (snd (dequeueDue now q)). qj_dequeueCount j < m"
proof -
  have "all_values P m' \<Longrightarrow> all_values P (foldl (\<lambda>m j. js_delete (qj_id j) m) m' js)" for P m' and js :: "'a queued_job list"
    by (induction js arbitrary: m') simp_all
  then show "all_values (\<lambda>j. qj_dequeueCount j < m) (jq_jobs (fst (dequeueDue now q)))"
    using assms by (simp add: dequeueDue_def Let_def)
  show "\<forall>j \<in> set (snd (dequeueDue now q)). qj_dequeueCount j < m"
    using assms by (auto simp: dequeueDue_def Let_def all_values_def)
qed

lemma att_poll:
  assumes "silo_att m s" "x < length (jm_objects s)"
  shows "silo_att m (poll now x overload s)"
proof -
  let ?e = "(jex s x)\<lparr> ex_concurrency := max (ex_concurrency (jex s x)) (slowStartCeiling (jm_options s) now (jex s x)) \<rparr>"
  let ?q = "dequeueDue now (ex_queue (jex s x))"
  have e: "all_values (\<lambda>j. qj_dequeueCount j < m) (jq_jobs (ex_queue (jex s x)))" using assms by (simp add: silo_att_def ex_att_def)
  have "silo_att m (on_ex x (\<lambda>_. ?e\<lparr> ex_queue := fst ?q \<rparr>) s)"
    by (rule att_on_ex [OF assms(1)]) (simp add: ex_att_def dequeue_att(1) [OF e])
  then have "silo_att m (fst (pollEach now x (snd ?q) (on_ex x (\<lambda>_. ?e\<lparr> ex_queue := fst ?q \<rparr>) s)))"
    using dequeue_att(2) [OF e] by (rule att_pollEach)
  then show ?thesis
    using assms(1) by (auto simp: poll_def Let_def case_prod_unfold ex_att_frame [of "_\<lparr> ex_pollHandle := _ \<rparr>"] intro!: att_on_ex ex_att_ops)
qed

lemma att_jresume:
  assumes "silo_att m s"
  shows "silo_att m (fst (jresume now pid result s))" "RunJob k i attempt runId \<in> set (snd (jresume now pid result s)) \<Longrightarrow> attempt \<le> m"
proof -
  have p: "proc_att m p" if "js_get (jm_procs s) pid = Some p" for p
    using assms all_get [OF _ that, of "proc_att m"] by (simp add: silo_att_def)
  have ending: "silo_att m (jfinish pid (on_ex x (\<lambda>e. e\<lparr> ex_inFlight := removeAll pid (ex_inFlight e) \<rparr>) (runFinally now x s)))" for x
    using assms by (intro att_jfinish att_on_ex att_runFinally) (simp_all add: ex_att_def)
  show "silo_att m (fst (jresume now pid result s))"
  proof (cases "js_get (jm_procs s) pid")
    case (Some q)
    with p assms ending show ?thesis
      by (cases q) (auto simp: jresume_def dropJob_def ex_att_frame [of "_\<lparr> ex_jobs := _ \<rparr>"] att_applyResult att_ensureOwned att_claimedResume
          att_loadEach att_ownedResume att_resumeShards att_dropExecutors att_stopEach intro!: att_intros)
  qed (simp add: jresume_def assms)
  have owned: "RunJob k i attempt runId \<notin> set (snd (ownedResume now pid xo cont s))" for xo cont
    by (cases "(now, pid, xo, cont, s)" rule: ownedResume.cases) auto
  show "attempt \<le> m" if "RunJob k i attempt runId \<in> set (snd (jresume now pid result s))"
    using that p owned by (auto simp: jresume_def split: option.splits job_process.splits if_splits)
qed

lemma att_job_step:
  assumes "silo_att m s"
  shows "silo_att m (fst (job_step op s))" "RunJob k i attempt runId \<in> set (snd (job_step op s)) \<Longrightarrow> attempt \<le> m"
proof -
  have fires: "silo_att m (pollFires now x overload s)" for now x overload
    using assms by (auto simp: pollFires_def clearPoll_def ex_att_frame [of "_\<lparr> ex_pollHandle := _ \<rparr>"] intro!: att_poll att_on_ex split: option.splits)
  have "0 < m" using assms by (simp add: silo_att_def)
  with fires att_jresume(1) [OF assms] assms show "silo_att m (fst (job_step op s))"
    by (cases op) (auto simp: job_step_def scheduleJob_def Let_def receiveForwardedJob_def cancelJob_def refreshOwnership_def enqueueReconcile_def
        checkFires_def reconcileNow_def jm_stop_def intro!: att_intros att_ensureOwned split: sum.splits option.splits intro: att_frame)
  show "attempt \<le> m" if "RunJob k i attempt runId \<in> set (snd (job_step op s))"
    using that att_jresume(2) [OF assms] by (cases op) (auto simp: job_step_def scheduleJob_def Let_def split: sum.splits)
qed

definition world_att :: "nat \<Rightarrow> 'm job_world \<Rightarrow> bool" where
  "world_att m w \<longleftrightarrow> store_att m (jw_store w) \<and> (\<forall>i < length (jw_silos w). silo_att m (at_silo w i))"

lemma att_store: "silo_att m s \<Longrightarrow> store_att m st \<Longrightarrow> silo_att m (s\<lparr> jm_store := st, jm_guid := g \<rparr>)"
  by (simp add: silo_att_def)

lemma att_world_step:
  assumes "world_att m w" "0 < m" "\<And>opts a b own now. op = Join opts a b own now \<Longrightarrow> gives_up m opts" "world_step w op = (w', evs)"
  shows "world_att m w'" "(j, RunJob k i attempt runId) \<in> set evs \<Longrightarrow> attempt \<le> m"
proof -
  have store: "store_att m (jw_store w)" and silos: "i < length (jw_silos w) \<Longrightarrow> silo_att m (at_silo w i)" for i
    using assms(1) by (auto simp: world_att_def)
  show "world_att m w'"
  proof (cases op)
    case (At j jop)
    show ?thesis
    proof (cases "j < length (jw_silos w) \<and> j \<notin> set (jw_down w)")
      case True
      let ?s = "fst (job_step jop (at_silo w j))"
      have s: "silo_att m ?s" using True by (intro att_job_step(1) silos) simp
      then have st: "store_att m (jm_store ?s)" by (simp add: silo_att_def)
      have w': "w' = w\<lparr> jw_store := jm_store ?s, jw_guid := jm_guid ?s, jw_silos := (jw_silos w)[j := ?s] \<rparr>"
        using assms(4) At True by (auto split: prod.splits)
      have "silo_att m (at_silo w' i)" if "i < length (jw_silos w)" for i
      proof (cases "i = j")
        case True
        then show ?thesis using s that by (simp add: w' at_silo_def silo_att_def)
      next
        case False
        then show ?thesis using silos [OF that] st by (simp add: w' at_silo_def silo_att_def)
      qed
      with st show ?thesis by (simp add: world_att_def w')
    next
      case False
      with assms(1,4) At show ?thesis by auto
    qed
  next
    case (Crash i)
    with assms(1,4) show ?thesis by (auto simp: world_att_def at_silo_def)
  next
    case (Join opts a b own now)
    with assms(1,2,3,4) show ?thesis
      by (auto simp: world_att_def at_silo_def nth_append less_Suc_eq silo_att_def newJobManager_def)
  qed
  show "attempt \<le> m" if e: "(j, RunJob k i attempt runId) \<in> set evs"
  proof (cases op)
    case (At j' jop)
    then have "j' < length (jw_silos w)" "evs = map (Pair j') (snd (job_step jop (at_silo w j')))"
      using e assms(4) by (auto split: if_splits prod.splits)
    with e att_job_step(2) [OF silos, of j' k i attempt runId jop] show ?thesis by auto
  qed (use e assms(4) in auto)
qed

text \<open>C16: When every silo's retry policy gives up after \<open>m\<close> attempts, no job is ever run with an attempt number above \<open>m\<close>,
  whichever silos run it and however often its shard changes hands.\<close>

theorem attempts_bounded:
  assumes "job_run ok w hist" "0 < m" "\<And>w opts a b own now. ok w (Join opts a b own now) \<Longrightarrow> gives_up m opts"
    and "(j, RunJob k i attempt runId) \<in> set hist"
  shows "attempt \<le> m"
proof -
  from assms(1) have "world_att m w \<and> (\<forall>j k i attempt runId. (j, RunJob k i attempt runId) \<in> set hist \<longrightarrow> attempt \<le> m)"
  proof (induction rule: job_run.induct)
    case start
    then show ?case by (simp add: world_att_def emptyWorld_def)
  next
    case (step w hist op w' evs)
    then have w: "world_att m w" and g: "\<And>opts a b own now. op = Join opts a b own now \<Longrightarrow> gives_up m opts" using assms(3) by blast+
    from step att_world_step [OF w assms(2) g step.hyps(3)] show ?case by auto
  qed
  with assms(4) show ?thesis by blast
qed

theorem attempts_bounded_witness:
  "(0, RunJob 1 0 1 2) \<in> set (snd (run_world emptyWorld demo_jobs)) \<and> (1::nat) \<le> 5"
proof -
  have "\<And>w opts a b own now. demo_ok w (Join opts a b own now) \<Longrightarrow> gives_up 5 opts"
    by (auto dest: demo_join_ok simp: demo_job_options_def gives_up_def defaultShouldRetry_def)
  moreover have e: "(0, RunJob 1 0 1 2) \<in> set (snd (run_world emptyWorld demo_jobs))" by code_simp
  ultimately show ?thesis using attempts_bounded [OF demo_run [OF demo_jobs_ok], of 5 0 1 0 1 2] by simp
qed

end
