(* ===== verification/Durable_Jobs_Store.thy ===== *)
theory Durable_Jobs_Store
  imports Durable_Jobs_Cluster
begin

text \<open>
  What every run keeps of the store of durable jobs. The interface \<open>job_store_law\<close> is met by a property that each
  operation of the store keeps; such a property holds throughout every run of every cluster. Two instances bound the
  adoptions of a shard and show that a poisoned shard is never taken up again. The last section has runs in which one
  job is executed twice at the same time.
\<close>

section \<open>Laws of the store\<close>

lemma store_frame [simp]:
  "jm_store (jgo pid p s) = jm_store s" "jm_store (jfinish pid s) = jm_store s" "jm_store (jspawn p s) = jm_store s"
  "jm_store (on_ex x f s) = jm_store s" "jm_store (on_store g s) = g (jm_store s)" "jm_store (lm_release s) = jm_store s"
  "jm_store (fst (tryAcquire s)) = jm_store s"
  by (simp_all add: jgo_def jfinish_def jspawn_def on_ex_def on_store_def lm_release_def tryAcquire_def)

lemma options_frame [simp]:
  "jm_options (jgo pid p s) = jm_options s" "jm_options (jfinish pid s) = jm_options s" "jm_options (jspawn p s) = jm_options s"
  "jm_options (on_ex x f s) = jm_options s" "jm_options (on_store g s) = jm_options s" "jm_options (lm_release s) = jm_options s"
  "jm_options (fst (tryAcquire s)) = jm_options s"
  by (simp_all add: jgo_def jfinish_def jspawn_def on_ex_def on_store_def lm_release_def tryAcquire_def)

locale job_store_law =
  fixes law :: "nat \<Rightarrow> 'm job_store \<Rightarrow> bool"
  assumes add: "law n s \<Longrightarrow> law n (persistAdd job s)"
    and remove: "law n s \<Longrightarrow> law n (persistRemove k i s)"
    and entry: "law n s \<Longrightarrow> law n (on_entry k i f s)"
    and claim: "law n s \<Longrightarrow> law n (fst (claimShard k owner dead n s))"
    and release: "law n s \<Longrightarrow> law n (releaseShard k owner s)"
begin

definition lawful :: "nat \<Rightarrow> 'm job_silo \<Rightarrow> bool" where
  "lawful n s \<longleftrightarrow> jo_maxAdoptedCount (jm_options s) = n \<and> law n (jm_store s)"

lemma entry_ops:
  "law n s \<Longrightarrow> law n (persistRetry k i due c s)" "law n s \<Longrightarrow> law n (persistRunStart k i runId s)"
  "law n s \<Longrightarrow> law n (persistRunComplete k i runId s)"
  by (simp_all add: persistRetry_def persistRunStart_def persistRunComplete_def entry)

lemma frame:
  "lawful n (jgo pid p s) = lawful n s" "lawful n (jfinish pid s) = lawful n s" "lawful n (jspawn p s) = lawful n s"
  "lawful n (on_ex x f s) = lawful n s" "lawful n (lm_release s) = lawful n s" "lawful n (fst (tryAcquire s)) = lawful n s"
  "lawful n (s\<lparr> jm_guid := g \<rparr>) = lawful n s" "lawful n (s\<lparr> jm_nextProc := c \<rparr>) = lawful n s"
  "lawful n (s\<lparr> jm_claimedSinceJoin := c \<rparr>) = lawful n s" "lawful n (scheduleCheck now s) = lawful n s"
  "lawful n (endReconcile pid s) = lawful n s" "lawful n (stopExecutor k x s) = lawful n s" "lawful n (enqueueReconcile s) = lawful n s"
  by (simp_all add: lawful_def scheduleCheck_def endReconcile_def stopExecutor_def enqueueReconcile_def)

lemma store_ops:
  assumes "lawful n s"
  shows "lawful n (on_store (persistAdd job) s)" "lawful n (on_store (persistRemove k i) s)"
    "lawful n (on_store (persistRetry k i due c) s)" "lawful n (on_store (persistRunStart k i runId) s)"
    "lawful n (on_store (persistRunComplete k i runId) s)" "lawful n (on_store (releaseShard k owner) s)"
  using assms by (simp_all add: lawful_def add remove entry_ops release)

lemma starting:
  assumes "lawful n s"
  shows "lawful n (startExecutor now pid k cont s)" "lawful n (claimAndStart pid k dead cont s)"
    "lawful n (claimedResume now pid k claimed cont s)" "lawful n (ensureOwned pid k cont s)"
proof -
  show st: "lawful n (startExecutor now pid k cont s)"
    using assms by (auto simp: startExecutor_def Let_def lawful_def split: option.splits)
  show cl: "lawful n (claimAndStart pid k dead cont s)" for dead
    using assms claim [of n "jm_store s"] by (auto simp: claimAndStart_def case_prod_unfold lawful_def)
  show "lawful n (claimedResume now pid k claimed cont s)"
    using assms st by (auto simp: claimedResume_def frame intro: store_ops split: option.splits)
  show "lawful n (ensureOwned pid k cont s)"
    using assms cl by (auto simp: ensureOwned_def frame split: option.splits)
qed

lemma loading: "lawful n s \<Longrightarrow> lawful n (loadEach now pid x ps cont s)"
  by (induction ps arbitrary: s) (simp_all add: frame store_ops)

lemma claiming: "lawful n s \<Longrightarrow> lawful n (claimShards now pid own rs s)"
  by (cases rs) (simp_all add: frame starting)

lemma resuming: "lawful n s \<Longrightarrow> lawful n (resumeShards now pid own shards rs s)"
  by (induction rs) (simp_all add: Let_def frame claiming starting)

lemma dropping: "lawful n s \<Longrightarrow> lawful n (dropExecutors now pid ownedNow ks s)"
  by (induction ks) (simp_all add: frame split: option.splits)

lemma stopping: "lawful n s \<Longrightarrow> lawful n (stopEach pid ks s)"
  by (simp add: stopEach_def frame split: list.splits option.splits)

lemma owned: "lawful n s \<Longrightarrow> lawful n (fst (ownedResume now pid xo cont s))"
  by (cases "(now, pid, xo, cont, s)" rule: ownedResume.cases) (simp_all add: forwardToShardOwner_def frame resuming claiming)

lemma applying: "lawful n s \<Longrightarrow> lawful n (applyResult now pid x job result attempt runId s)"
  by (simp add: applyResult_def reschedule_def dropJob_def frame store_ops split: run_result.splits option.splits)

lemma running: "lawful n s \<Longrightarrow> lawful n (runFinally now x s)" "lawful n s \<Longrightarrow> lawful n (runOne now x job s)"
  by (simp_all add: runFinally_def runOne_def Let_def frame store_ops split: option.splits)

lemma polled_each: "lawful n s \<Longrightarrow> lawful n (fst (pollEach now x due s))"
  by (induction due arbitrary: s) (simp_all add: case_prod_unfold frame running)

lemma polling: "lawful n s \<Longrightarrow> lawful n (pollFires now x overload s)"
  by (auto simp: pollFires_def poll_def Let_def case_prod_unfold frame polled_each split: option.splits)

lemma resumed: "lawful n s \<Longrightarrow> lawful n (fst (jresume now pid result s))"
  by (simp add: jresume_def dropJob_def frame applying running store_ops starting loading owned resuming dropping stopping
      split: option.splits job_process.splits)

lemma stepped: "lawful n s \<Longrightarrow> lawful n (fst (job_step op s))"
proof (cases op)
  case (Refresh own)
  then show "lawful n s \<Longrightarrow> ?thesis" by (simp add: job_step_def refreshOwnership_def frame) (simp add: lawful_def)
next
  case (CheckFires now)
  then show "lawful n s \<Longrightarrow> ?thesis" by (simp add: job_step_def checkFires_def frame split: option.splits) (simp add: lawful_def)
next
  case Reconcile
  then show "lawful n s \<Longrightarrow> ?thesis" by (simp add: job_step_def reconcileNow_def frame) (simp add: lawful_def)
next
  case StopSilo
  then show "lawful n s \<Longrightarrow> ?thesis" by (simp add: job_step_def jm_stop_def frame) (simp add: lawful_def)
qed (simp_all add: job_step_def scheduleJob_def Let_def receiveForwardedJob_def cancelJob_def frame store_ops starting polling resumed
    split: sum.splits option.splits)

text \<open>The silos of a cluster that agree on \<open>maxAdoptedCount\<close>.\<close>

definition lawful_world :: "nat \<Rightarrow> 'm job_world \<Rightarrow> bool" where
  "lawful_world n w \<longleftrightarrow> law n (jw_store w) \<and> (\<forall>i < length (jw_silos w). jo_maxAdoptedCount (jm_options (jw_silos w ! i)) = n)"

lemma world_stepped:
  assumes "lawful_world n w" "\<And>opts a b own now. op = Join opts a b own now \<Longrightarrow> jo_maxAdoptedCount opts = n"
  shows "lawful_world n (fst (world_step w op))"
proof (cases op)
  case (At i jop)
  have "lawful n (fst (job_step jop (at_silo w i)))" if "i < length (jw_silos w)"
    using assms(1) that by (intro stepped) (simp add: lawful_def lawful_world_def at_silo_def)
  with assms(1) At show ?thesis by (auto simp: lawful_world_def lawful_def case_prod_unfold nth_list_update)
next
  case (Join opts a b own now)
  with assms show ?thesis by (auto simp: lawful_world_def newJobManager_def nth_append less_Suc_eq)
qed (use assms in \<open>simp add: lawful_world_def\<close>)

lemma lawful_run:
  assumes "job_run ok w hist" "\<And>w opts a b own now. ok w (Join opts a b own now) \<Longrightarrow> jo_maxAdoptedCount opts = n" "law n []"
  shows "lawful_world n w"
  using assms(1)
proof (induction rule: job_run.induct)
  case start
  then show ?case using assms(3) by (simp add: lawful_world_def emptyWorld_def)
next
  case (step w hist op w' evs)
  then have "lawful_world n (fst (world_step w op))" using assms(2) by (intro world_stepped) auto
  with step show ?case by simp
qed

lemma lawful_steps:
  assumes "lawful_world n w" "\<And>opts a b own now. Join opts a b own now \<in> set ops \<Longrightarrow> jo_maxAdoptedCount opts = n"
  shows "lawful_world n (fst (run_world w ops))"
  using assms
proof (induction ops arbitrary: w)
  case Nil
  then show ?case by simp
next
  case (Cons op ops)
  have w: "lawful_world n (fst (world_step w op))"
  proof (rule world_stepped [OF Cons.prems(1)])
    show "jo_maxAdoptedCount opts = n" if "op = Join opts a b own now" for opts a b own now
      by (rule Cons.prems(2) [of opts a b own now]) (simp add: that)
  qed
  have "lawful_world n (fst (run_world (fst (world_step w op)) ops))"
  proof (rule Cons.IH [OF w])
    show "jo_maxAdoptedCount opts = n" if "Join opts a b own now \<in> set ops" for opts a b own now
      by (rule Cons.prems(2) [of opts a b own now]) (simp add: that)
  qed
  then show ?case by (simp only: run_world.simps case_prod_unfold fst_conv)
qed

end

section \<open>Adoption and poison\<close>

text \<open>The bookkeeping of \<open>claimShard\<close>: a shard is poisoned exactly when it was adopted once too often, and is then unowned.\<close>

definition adopt_ok :: "nat \<Rightarrow> 'm shard_state \<Rightarrow> bool" where
  "adopt_ok n st \<longleftrightarrow> sr_adoptedCount (ss_record st) \<le> Suc n
     \<and> (sr_poisoned (ss_record st) \<longleftrightarrow> sr_adoptedCount (ss_record st) = Suc n)
     \<and> (sr_poisoned (ss_record st) \<longrightarrow> sr_owner (ss_record st) = None)"

definition retired :: "int \<Rightarrow> nat \<Rightarrow> 'm job_store \<Rightarrow> bool" where
  "retired k n s \<longleftrightarrow> (\<exists>st. js_get s k = Some st \<and> sr_poisoned (ss_record st))"

lemma adopt_shard: "all_values (adopt_ok n) s \<Longrightarrow> adopt_ok n (shard k s)"
  by (cases "js_get s k") (auto simp: shard_def newShard_def adopt_ok_def dest!: all_get)

lemma retired_shard: "retired k n s \<Longrightarrow> js_get s k = Some (shard k s) \<and> sr_poisoned (ss_record (shard k s))"
  by (auto simp: retired_def shard_def)

interpretation adoption: job_store_law "\<lambda>n. all_values (adopt_ok n)"
proof
  fix n :: nat and s :: "'a job_store" and job k i f owner dead
  assume s: "all_values (adopt_ok n) s"
  have st: "adopt_ok n st" if "js_get s k = Some st" for st k using all_get [OF s that] .
  show "all_values (adopt_ok n) (persistAdd job s)"
    using s adopt_shard [OF s] by (simp add: persistAdd_def Let_def adopt_ok_def)
  show "all_values (adopt_ok n) (persistRemove k i s)" "all_values (adopt_ok n) (on_entry k i f s)"
    "all_values (adopt_ok n) (releaseShard k owner s)"
    using s st by (auto simp: persistRemove_def on_entry_def releaseShard_def adopt_ok_def split: option.splits intro!: all_set)
  show "all_values (adopt_ok n) (fst (claimShard k owner dead n s))"
    using s adopt_shard [OF s, of k] by (auto simp: claimShard_def Let_def adopt_ok_def intro!: all_set)
qed

interpretation poisoned: job_store_law "retired k" for k
proof
  fix n :: nat and s :: "'a job_store" and job k' i f owner dead
  assume s: "retired k n s"
  note p = retired_shard [OF s]
  show "retired k n (persistAdd job s)" "retired k n (persistRemove k' i s)" "retired k n (on_entry k' i f s)"
    "retired k n (releaseShard k' owner s)"
    using s p by (auto simp: retired_def persistAdd_def Let_def persistRemove_def on_entry_def releaseShard_def js_get_set split: option.splits)
  show "retired k n (fst (claimShard k' owner dead n s))"
    using s p by (auto simp: claimShard_def Let_def retired_def js_get_set)
qed

text \<open>C17: A shard is adopted from silos that died at most \<open>maxAdoptedCount\<close> times. The next adoption poisons it instead,
  which leaves it without an owner, and it stays poisoned whatever the cluster does afterwards.\<close>

theorem shard_adoption_bounded:
  assumes "job_run ok w hist" "\<And>w opts a b own now. ok w (Join opts a b own now) \<Longrightarrow> jo_maxAdoptedCount opts = n"
    and "js_get (jw_store w) k = Some st"
  shows "sr_adoptedCount (ss_record st) \<le> Suc n
    \<and> (sr_poisoned (ss_record st) \<longleftrightarrow> sr_adoptedCount (ss_record st) = Suc n)
    \<and> (sr_poisoned (ss_record st) \<longrightarrow> sr_owner (ss_record st) = None
         \<and> (\<forall>ops. (\<forall>opts a b own now. Join opts a b own now \<in> set ops \<longrightarrow> jo_maxAdoptedCount opts = n) \<longrightarrow>
              retired k n (jw_store (fst (run_world w ops)))))"
proof -
  have w: "adoption.lawful_world n w" by (rule adoption.lawful_run [OF assms(1,2)]) simp_all
  then have ok: "adopt_ok n st" using assms(3) all_get by (fastforce simp: adoption.lawful_world_def)
  have "retired k n (jw_store (fst (run_world w ops)))"
    if "sr_poisoned (ss_record st)" "\<forall>opts a b own now. Join opts a b own now \<in> set ops \<longrightarrow> jo_maxAdoptedCount opts = n" for ops
  proof -
    have "poisoned.lawful_world k n w"
      using w that(1) assms(3) by (auto simp: poisoned.lawful_world_def adoption.lawful_world_def retired_def)
    from poisoned.lawful_steps [OF this, of ops] that(2) show ?thesis by (simp add: poisoned.lawful_world_def)
  qed
  with ok show ?thesis by (simp add: adopt_ok_def)
qed

text \<open>Silo a claims a shard and crashes; silo b sees only itself active and adopts the shard.\<close>

definition demo_adopt :: "unit world_op list" where
  "demo_adopt = demo_join ''a'' # demo_schedule 0 1500 # demo_go 4 0 0 0 @ Crash 0
     # Join demo_job_options False False \<lparr> ow_localRingKey = ''b'', ow_activeRingKeys = [''b''] \<rparr> 0
     # At 1 (Refresh \<lparr> ow_localRingKey = ''b'', ow_activeRingKeys = [''b''] \<rparr>) # At 1 Reconcile # demo_go 1 1 0 0"

lemma demo_adopt_ok: "list_all (demo_ok emptyWorld) demo_adopt"
  by (simp add: demo_adopt_def demo_go_def demo_join_def demo_schedule_def demo_ok_def list_all_iff)

lemma demo_adopt_record:
  "map_option ss_record (js_get (jw_store (demo_world demo_adopt)) 1) =
     Some \<lparr> sr_shardKey = 1, sr_owner = Some ''b'', sr_adoptedCount = 1, sr_poisoned = False \<rparr>"
  by code_simp

theorem shard_adoption_bounded_witness:
  "map_option (sr_adoptedCount \<circ> ss_record) (js_get (jw_store (demo_world demo_adopt)) 1) = Some 1 \<and> (1::nat) \<le> 2"
proof -
  from demo_adopt_record obtain st where st: "js_get (jw_store (demo_world demo_adopt)) 1 = Some st"
    "ss_record st = \<lparr> sr_shardKey = 1, sr_owner = Some ''b'', sr_adoptedCount = 1, sr_poisoned = False \<rparr>" by auto
  have "\<And>w opts a b own now. demo_ok w (Join opts a b own now) \<Longrightarrow> jo_maxAdoptedCount opts = 1"
    by (auto dest: demo_join_ok simp: demo_job_options_def)
  from shard_adoption_bounded [OF demo_run [OF demo_adopt_ok] this st(1)] st show ?thesis by simp
qed

section \<open>Jobs that run twice at once\<close>

text \<open>The jobs, with the silo and the executor, whose handlers are being awaited.\<close>

definition handling :: "'m job_world \<Rightarrow> (nat \<times> nat \<times> nat) list" where
  "handling w = concat (map (\<lambda>i. List.map_filter (\<lambda>p. case p of RunHandler x job runId \<Rightarrow> Some (i, x, qj_id job) | _ \<Rightarrow> None)
     (js_values (jm_procs (jw_silos w ! i)))) [0..<length (jw_silos w)])"

text \<open>Reconciliation drops the executors of the shards that were not listed as owned. The list was read before the first
  executor was drained; shards without jobs are not listed. While the executor of shard 1 drains, shard 2 gets a job and
  runs it; then its executor, which the stale list condemns, is dropped, and the next job for shard 2 starts a second
  executor, which loads the job in flight and runs it again.\<close>

definition demo_stale :: "unit world_op list" where
  "demo_stale = demo_join ''a'' # demo_schedule 0 1500 # demo_go 4 0 0 0 @ demo_schedule 0 2500 # demo_go 4 0 0 1
     @ At 0 (PollFires 1500 0 False) # demo_go 1 0 1500 2 @ At 0 (CancelJob 0 1) # At 0 (CancelJob 1 2)
     # At 0 (Refresh (demo_own ''a'')) # At 0 Reconcile # demo_go 2 0 1600 3
     @ demo_schedule 0 2600 # demo_go 2 0 1700 4 @ At 0 (PollFires 2600 1 False) # demo_go 1 0 2600 5
     @ demo_go 3 0 2610 2 @ demo_go 1 0 2620 3
     @ demo_schedule 0 2700 # demo_go 4 0 2630 6 @ At 0 (PollFires 2640 2 False) # demo_go 1 0 2640 7"

lemma stale_snapshot_runs_twice: "handling (demo_world demo_stale) = [(0, 1, 3), (0, 2, 3)]"
  by code_simp

text \<open>Two jobs of a shard are scheduled at once and both claim it. One claim starts the executor, which runs the first job.
  Then the silo is stopped; the other claim finds it stopped and hands the shard back while the job still runs. Silo b
  takes the shard, loads the job and runs it too.\<close>

definition demo_handback :: "unit world_op list" where
  "demo_handback = demo_join ''a'' # demo_join ''b'' # demo_schedule 0 1500 # demo_schedule 0 1600 # demo_go 1 0 0 0
     @ demo_go 1 0 0 1 @ demo_go 3 0 0 0 @ At 0 (PollFires 1500 0 False) # demo_go 1 0 1500 2 @ At 0 StopSilo # demo_go 1 0 1510 1
     @ demo_schedule 1 1700 # demo_go 4 1 1520 0 @ At 1 (PollFires 1520 0 False) # demo_go 1 1 1520 1"

lemma handed_back_while_running: "handling (demo_world demo_handback) = [(0, 0, 0), (1, 0, 0)]"
  by code_simp

end
