(* ===== verification/Reminders.thy ===== *)
theory Reminders
  imports Identity Durations
begin

text \<open>
  \<^verbatim>\<open>reminders/src\<close>: durable reminders. The model has the in-memory table (\<^verbatim>\<open>memory-reminder-table.ts\<close>) and the
  reminder service of one silo (\<^verbatim>\<open>local-reminder-service.ts\<close>). The table is shared: other silos' operations on it are
  steps of the environment. A call of the table takes effect when it is made and the caller goes on in a later step; an
  asynchronous method is a process in \<open>rs_procs\<close>. A timer is the time at which it is due. Etags are the numbers the table
  prints. Logging and metrics are left out.
\<close>

section \<open>The table\<close>

record reminder_entry =
  re_grainId :: grain_id
  re_name :: string
  re_startAt :: int
  re_period :: duration
  re_etag :: nat
  re_lastFiredAt :: "int option"

record reminder_table =
  rt_entries :: "(string, reminder_entry) js_map"
  rt_etagCounter :: nat

definition rt_key :: "grain_id \<Rightarrow> string \<Rightarrow> string" where
  "rt_key grainId name = grain_id_toString grainId @ name"

definition rt_upsert :: "grain_id \<Rightarrow> string \<Rightarrow> int \<Rightarrow> duration \<Rightarrow> reminder_table \<Rightarrow> reminder_table \<times> nat" where
  "rt_upsert grainId name startAt period t =
     (let etag = Suc (rt_etagCounter t);
          entry = \<lparr> re_grainId = grainId, re_name = name, re_startAt = startAt, re_period = period, re_etag = etag, re_lastFiredAt = None \<rparr>
      in (\<lparr> rt_entries = js_set (rt_key grainId name) entry (rt_entries t), rt_etagCounter = etag \<rparr>, etag))"

definition rt_remove :: "grain_id \<Rightarrow> string \<Rightarrow> nat \<Rightarrow> reminder_table \<Rightarrow> reminder_table \<times> bool" where
  "rt_remove grainId name etag t = (case js_get (rt_entries t) (rt_key grainId name) of
      None \<Rightarrow> (t, False)
    | Some existing \<Rightarrow> if re_etag existing \<noteq> etag then (t, False)
        else (t\<lparr> rt_entries := js_delete (rt_key grainId name) (rt_entries t) \<rparr>, True))"

definition rt_read :: "grain_id \<Rightarrow> string \<Rightarrow> reminder_table \<Rightarrow> reminder_entry option" where
  "rt_read grainId name t = js_get (rt_entries t) (rt_key grainId name)"

definition rt_readForGrain :: "grain_id \<Rightarrow> reminder_table \<Rightarrow> reminder_entry list" where
  "rt_readForGrain grainId t = filter (\<lambda>e. grain_id_equals (re_grainId e) grainId) (js_values (rt_entries t))"

definition rt_readRange :: "int \<Rightarrow> int \<Rightarrow> reminder_table \<Rightarrow> reminder_entry list" where
  "rt_readRange hashBegin hashEnd t =
     filter (\<lambda>e. isHashInRange (getUniformHashCode (re_grainId e)) hashBegin hashEnd) (js_values (rt_entries t))"

definition rt_recordFired :: "grain_id \<Rightarrow> string \<Rightarrow> nat \<Rightarrow> int \<Rightarrow> reminder_table \<Rightarrow> reminder_table \<times> nat option" where
  "rt_recordFired grainId name etag firedAt t = (case js_get (rt_entries t) (rt_key grainId name) of
      None \<Rightarrow> (t, None)
    | Some existing \<Rightarrow> if re_etag existing \<noteq> etag then (t, None)
        else (t\<lparr> rt_entries := js_set (rt_key grainId name) (existing\<lparr> re_lastFiredAt := Some firedAt \<rparr>) (rt_entries t) \<rparr>, Some etag))"

section \<open>The service\<close>

record scheduled =
  sc_entry :: reminder_entry
  sc_due :: int
  sc_sequence :: nat

datatype reminder_error = NegativeDue string | NegativePeriod string | BelowMinimum string int int

datatype reminder_process =
    Registering reminder_entry
  | UnregisterRead grain_id string "reminder_entry option"
  | UnregisterRemoved grain_id string
  | Reconciling nat "(string, reminder_entry) js_map" "reminder_entry list" "hash_range list" bool
  | Reconciled bool

record reminder_silo =
  rs_table :: reminder_table
  rs_ranges :: "hash_range list"
  rs_refreshIntervalMs :: int
  rs_minimumPeriodMs :: int
  rs_scheduled :: "(string, scheduled) js_map"
  rs_refreshDue :: "int option"
  rs_localSequence :: nat
  rs_procs :: "(nat, reminder_process) js_map"
  rs_nextProc :: nat

datatype reminder_event = RegisterFailed reminder_error | Tick reminder_entry int

definition DEFAULT_MINIMUM_PERIOD_MS :: int where
  "DEFAULT_MINIMUM_PERIOD_MS = 60000"

definition newReminderService :: "reminder_table \<Rightarrow> hash_range list \<Rightarrow> int \<Rightarrow> duration option \<Rightarrow> reminder_silo" where
  "newReminderService table ranges refreshIntervalMs minimumPeriod =
     \<lparr> rs_table = table, rs_ranges = ranges, rs_refreshIntervalMs = refreshIntervalMs,
       rs_minimumPeriodMs = or_else (map_option durationToMs minimumPeriod) DEFAULT_MINIMUM_PERIOD_MS, rs_scheduled = [],
       rs_refreshDue = None, rs_localSequence = 0, rs_procs = [], rs_nextProc = 0 \<rparr>"

definition rs_key :: "grain_id \<Rightarrow> string \<Rightarrow> string" where
  "rs_key grainId name = grain_id_toString grainId @ '' '' @ name"

abbreviation entry_key :: "reminder_entry \<Rightarrow> string" where
  "entry_key e \<equiv> rs_key (re_grainId e) (re_name e)"

definition rgo :: "nat \<Rightarrow> reminder_process \<Rightarrow> reminder_silo \<Rightarrow> reminder_silo" where
  "rgo pid p s = s\<lparr> rs_procs := js_set pid p (rs_procs s) \<rparr>"

definition rfinish :: "nat \<Rightarrow> reminder_silo \<Rightarrow> reminder_silo" where
  "rfinish pid s = s\<lparr> rs_procs := js_delete pid (rs_procs s) \<rparr>"

definition rspawn :: "reminder_process \<Rightarrow> reminder_silo \<Rightarrow> reminder_silo" where
  "rspawn p s = s\<lparr> rs_procs := js_set (rs_nextProc s) p (rs_procs s), rs_nextProc := Suc (rs_nextProc s) \<rparr>"

definition owns :: "grain_id \<Rightarrow> reminder_silo \<Rightarrow> bool" where
  "owns grainId s \<longleftrightarrow> isHashInRanges (getUniformHashCode grainId) (rs_ranges s)"

text \<open>\<open>Math.ceil\<close> of a quotient with a positive divisor.\<close>

definition ceil_div :: "int \<Rightarrow> int \<Rightarrow> int" where
  "ceil_div a b = - ((- a) div b)"

definition nextDueAt :: "int \<Rightarrow> reminder_entry \<Rightarrow> int" where
  "nextDueAt now entry =
     (let periodMs = durationToMs (re_period entry) in
      if periodMs \<le> 0 then re_startAt entry
      else (let startMs = re_startAt entry; periods = max 0 (ceil_div (now - startMs) periodMs);
                periods' = (case re_lastFiredAt entry of None \<Rightarrow> periods
                  | Some l \<Rightarrow> max periods ((l - startMs) div periodMs + 1))
            in startMs + periods' * periodMs))"

definition rs_cancel :: "string \<Rightarrow> reminder_silo \<Rightarrow> reminder_silo" where
  "rs_cancel key s = s\<lparr> rs_scheduled := js_delete key (rs_scheduled s) \<rparr>"

definition scheduleEntry :: "int \<Rightarrow> reminder_entry \<Rightarrow> int \<Rightarrow> reminder_silo \<Rightarrow> reminder_silo" where
  "scheduleEntry now entry firstDueAt s =
     (let s1 = rs_cancel (entry_key entry) s; n = Suc (rs_localSequence s1)
      in s1\<lparr> rs_scheduled := js_set (entry_key entry) \<lparr> sc_entry = entry, sc_due = now + max 0 (firstDueAt - now), sc_sequence = n \<rparr>
               (rs_scheduled s1), rs_localSequence := n \<rparr>)"

definition register :: "int \<Rightarrow> grain_id \<Rightarrow> string \<Rightarrow> duration \<Rightarrow> duration \<Rightarrow> reminder_silo \<Rightarrow> reminder_silo \<times> reminder_event list" where
  "register now grainId name due period s =
     (let dueMs = durationToMs due; periodMs = durationToMs period in
      if dueMs < 0 then (s, [RegisterFailed (NegativeDue name)])
      else if periodMs < 0 then (s, [RegisterFailed (NegativePeriod name)])
      else if periodMs < rs_minimumPeriodMs s then (s, [RegisterFailed (BelowMinimum name periodMs (rs_minimumPeriodMs s))])
      else (let startAt = now + dueMs in
            case rt_upsert grainId name startAt period (rs_table s) of (table, etag) \<Rightarrow>
              (rspawn (Registering \<lparr> re_grainId = grainId, re_name = name, re_startAt = startAt, re_period = period,
                                     re_etag = etag, re_lastFiredAt = None \<rparr>) (s\<lparr> rs_table := table \<rparr>), [])))"

definition unregister :: "grain_id \<Rightarrow> string \<Rightarrow> reminder_silo \<Rightarrow> reminder_silo" where
  "unregister grainId name s = rspawn (UnregisterRead grainId name (rt_read grainId name (rs_table s))) s"

definition getReminder :: "grain_id \<Rightarrow> string \<Rightarrow> reminder_silo \<Rightarrow> reminder_entry option" where
  "getReminder grainId name s = rt_read grainId name (rs_table s)"

definition getReminders :: "grain_id \<Rightarrow> reminder_silo \<Rightarrow> reminder_entry list" where
  "getReminders grainId s = rt_readForGrain grainId (rs_table s)"

definition rs_stop :: "reminder_silo \<Rightarrow> reminder_silo" where
  "rs_stop s = s\<lparr> rs_refreshDue := None, rs_scheduled := [] \<rparr>"

definition scheduleRefresh :: "int \<Rightarrow> reminder_silo \<Rightarrow> reminder_silo" where
  "scheduleRefresh now s =
     (if rs_refreshIntervalMs s \<le> 0 then s else s\<lparr> rs_refreshDue := Some (now + rs_refreshIntervalMs s) \<rparr>)"

text \<open>What the table no longer has is cancelled unless it was scheduled after the read began.\<close>

definition cancelStale :: "nat \<Rightarrow> (string, reminder_entry) js_map \<Rightarrow> reminder_silo \<Rightarrow> reminder_silo" where
  "cancelStale readSequence owned s =
     foldl (\<lambda>s (key, current). if \<not> js_has owned key \<and> sc_sequence current < readSequence then rs_cancel key s else s) s (rs_scheduled s)"

definition adoptOne :: "int \<Rightarrow> nat \<Rightarrow> reminder_silo \<Rightarrow> string \<times> reminder_entry \<Rightarrow> reminder_silo" where
  "adoptOne now readSequence s = (\<lambda>(key, entry). case js_get (rs_scheduled s) key of
      None \<Rightarrow> scheduleEntry now entry (nextDueAt now entry) s
    | Some current \<Rightarrow> if re_etag (sc_entry current) \<noteq> re_etag entry \<and> sc_sequence current < readSequence
        then scheduleEntry now entry (nextDueAt now entry) s else s)"

definition applyReconcile :: "int \<Rightarrow> nat \<Rightarrow> (string, reminder_entry) js_map \<Rightarrow> reminder_silo \<Rightarrow> reminder_silo" where
  "applyReconcile now readSequence owned s = foldl (adoptOne now readSequence) (cancelStale readSequence owned s) owned"

text \<open>The loop over the ranges, up to the next read; the refresh timer follows a reconcile of \<open>refreshOwnership\<close>.\<close>

definition readRanges :: "int \<Rightarrow> nat \<Rightarrow> nat \<Rightarrow> (string, reminder_entry) js_map \<Rightarrow> hash_range list \<Rightarrow> bool \<Rightarrow> reminder_silo \<Rightarrow> reminder_silo" where
  "readRanges now pid readSequence owned ranges refresh s = (case ranges of
      [] \<Rightarrow> rgo pid (Reconciled refresh) (applyReconcile now readSequence owned s)
    | (b, e) # rest \<Rightarrow> rgo pid (Reconciling readSequence owned (rt_readRange b e (rs_table s)) rest refresh) s)"

definition collect :: "(string, reminder_entry) js_map \<Rightarrow> reminder_entry list \<Rightarrow> (string, reminder_entry) js_map" where
  "collect owned entries = foldl (\<lambda>m e. js_set (entry_key e) e m) owned entries"

definition reconcile :: "int \<Rightarrow> bool \<Rightarrow> reminder_silo \<Rightarrow> reminder_silo" where
  "reconcile now refresh s =
     (let n = Suc (rs_localSequence s)
      in readRanges now (rs_nextProc s) n [] (rs_ranges s) refresh (s\<lparr> rs_localSequence := n, rs_nextProc := Suc (rs_nextProc s) \<rparr>))"

definition rs_refreshOwnership :: "int \<Rightarrow> hash_range list \<Rightarrow> reminder_silo \<Rightarrow> reminder_silo" where
  "rs_refreshOwnership now ranges s = reconcile now True (s\<lparr> rs_ranges := ranges \<rparr>)"

definition refreshFires :: "int \<Rightarrow> reminder_silo \<Rightarrow> reminder_silo" where
  "refreshFires now s = (case rs_refreshDue s of
      Some due \<Rightarrow> if due \<le> now then reconcile now False (scheduleRefresh now (s\<lparr> rs_refreshDue := None \<rparr>)) else s
    | None \<Rightarrow> s)"

definition fire :: "int \<Rightarrow> reminder_entry \<Rightarrow> reminder_silo \<Rightarrow> reminder_silo \<times> reminder_event list" where
  "fire now entry s = (case js_get (rs_scheduled s) (entry_key entry) of
      None \<Rightarrow> (s, [])
    | Some current \<Rightarrow>
        (if durationToMs (re_period entry) > 0 then
           (let ticked = entry\<lparr> re_lastFiredAt := Some now \<rparr>;
                due = now + max 0 (nextDueAt now ticked - now)
            in s\<lparr> rs_scheduled := js_set (entry_key entry) \<lparr> sc_entry = ticked, sc_due = due, sc_sequence = sc_sequence current \<rparr> (rs_scheduled s),
                  rs_table := fst (rt_recordFired (re_grainId entry) (re_name entry) (re_etag entry) now (rs_table s)) \<rparr>)
         else s\<lparr> rs_scheduled := js_delete (entry_key entry) (rs_scheduled s),
                 rs_table := fst (rt_remove (re_grainId entry) (re_name entry) (re_etag entry) (rs_table s)) \<rparr>,
         [Tick entry now]))"

text \<open>The timer of a schedule, once its time has come.\<close>

definition timerFires :: "int \<Rightarrow> string \<Rightarrow> reminder_silo \<Rightarrow> reminder_silo \<times> reminder_event list" where
  "timerFires now key s = (case js_get (rs_scheduled s) key of
      Some current \<Rightarrow> if sc_due current \<le> now then fire now (sc_entry current) s else (s, [])
    | None \<Rightarrow> (s, []))"

definition rresume :: "int \<Rightarrow> nat \<Rightarrow> reminder_silo \<Rightarrow> reminder_silo" where
  "rresume now pid s = (case js_get (rs_procs s) pid of
      None \<Rightarrow> s
    | Some (Registering entry) \<Rightarrow>
        rfinish pid (if owns (re_grainId entry) s then scheduleEntry now entry (re_startAt entry) s else s)
    | Some (UnregisterRead grainId name r) \<Rightarrow>
        (case r of
           Some entry \<Rightarrow> rgo pid (UnregisterRemoved grainId name) (s\<lparr> rs_table := fst (rt_remove grainId name (re_etag entry) (rs_table s)) \<rparr>)
         | None \<Rightarrow> rfinish pid (rs_cancel (rs_key grainId name) s))
    | Some (UnregisterRemoved grainId name) \<Rightarrow> rfinish pid (rs_cancel (rs_key grainId name) s)
    | Some (Reconciling readSequence owned entries ranges refresh) \<Rightarrow>
        readRanges now pid readSequence (collect owned entries) ranges refresh s
    | Some (Reconciled refresh) \<Rightarrow> rfinish pid (if refresh then scheduleRefresh now s else s))"

text \<open>The steps of a silo and what other silos do to the table.\<close>

datatype reminder_op =
    Register int grain_id string duration duration
  | Unregister grain_id string
  | RefreshOwnership int "hash_range list"
  | RefreshFires int
  | TimerFires int string
  | StopReminders
  | RResume int nat
  | OtherUpsert grain_id string int duration
  | OtherRemove grain_id string nat
  | OtherFired grain_id string nat int

definition reminder_step :: "reminder_op \<Rightarrow> reminder_silo \<Rightarrow> reminder_silo \<times> reminder_event list" where
  "reminder_step op s = (case op of
      Register now grainId name due period \<Rightarrow> register now grainId name due period s
    | Unregister grainId name \<Rightarrow> (unregister grainId name s, [])
    | RefreshOwnership now ranges \<Rightarrow> (rs_refreshOwnership now ranges s, [])
    | RefreshFires now \<Rightarrow> (refreshFires now s, [])
    | TimerFires now key \<Rightarrow> timerFires now key s
    | StopReminders \<Rightarrow> (rs_stop s, [])
    | RResume now pid \<Rightarrow> (rresume now pid s, [])
    | OtherUpsert grainId name startAt period \<Rightarrow> (s\<lparr> rs_table := fst (rt_upsert grainId name startAt period (rs_table s)) \<rparr>, [])
    | OtherRemove grainId name etag \<Rightarrow> (s\<lparr> rs_table := fst (rt_remove grainId name etag (rs_table s)) \<rparr>, [])
    | OtherFired grainId name etag firedAt \<Rightarrow> (s\<lparr> rs_table := fst (rt_recordFired grainId name etag firedAt (rs_table s)) \<rparr>, []))"

fun reminder_steps :: "reminder_silo \<Rightarrow> reminder_op list \<Rightarrow> reminder_silo \<times> reminder_event list" where
  "reminder_steps s [] = (s, [])"
| "reminder_steps s (op # ops) =
     (case reminder_step op s of (s', evs) \<Rightarrow> case reminder_steps s' ops of (s'', evs') \<Rightarrow> (s'', evs @ evs'))"

end
