(* ===== verification/Reminders_Safety.thy ===== *)
theory Reminders_Safety
  imports Reminders
begin

text \<open>
  What the reminder service guarantees: when the next tick is due, that no tick comes early or repeats a period already
  recorded, and that reconciliation brings the schedule in line with the table. The last section has runs in which a
  reminder ticks after it was unregistered, twice, or after the service was stopped, and two reminders that share a row.
\<close>

section \<open>The next tick\<close>

lemma le_div_iff:
  assumes "0 < (p::int)"
  shows "m \<le> a div p \<longleftrightarrow> m * p \<le> a"
proof
  assume "m \<le> a div p"
  then have "m * p \<le> (a div p) * p" using assms by simp
  also have "\<dots> \<le> a" using assms by (simp add: minus_mod_eq_div_mult [symmetric])
  finally show "m * p \<le> a" .
next
  assume "m * p \<le> a"
  then have "(m * p) div p \<le> a div p" using assms by (intro zdiv_mono1)
  then show "m \<le> a div p" using assms by simp
qed

lemma ceil_div_le: "0 < p \<Longrightarrow> ceil_div a p \<le> m \<longleftrightarrow> a \<le> m * p"
  using le_div_iff [of p "- m" "- a"] by (auto simp: ceil_div_def)

lemma div_less_iff: "0 < (p::int) \<Longrightarrow> a div p < m \<longleftrightarrow> a < m * p"
  using le_div_iff [of p m a] by (metis not_less)

abbreviation period_of :: "reminder_entry \<Rightarrow> int" where
  "period_of e \<equiv> durationToMs (re_period e)"

text \<open>The instants at which a periodic reminder may tick: from its start on, not before now, after the last tick.\<close>

definition tick_at :: "int \<Rightarrow> reminder_entry \<Rightarrow> int \<Rightarrow> bool" where
  "tick_at now e n \<longleftrightarrow> 0 \<le> n \<and> now \<le> re_startAt e + n * period_of e
     \<and> (\<forall>l. re_lastFiredAt e = Some l \<longrightarrow> l < re_startAt e + n * period_of e)"

lemma nextDueAt_iff:
  assumes "0 < period_of e" "0 \<le> n"
  shows "tick_at now e n \<longleftrightarrow> nextDueAt now e \<le> re_startAt e + n * period_of e"
proof -
  let ?p = "period_of e" and ?s = "re_startAt e"
  define m where "m = (case re_lastFiredAt e of None \<Rightarrow> max 0 (ceil_div (now - ?s) ?p)
    | Some l \<Rightarrow> max (max 0 (ceil_div (now - ?s) ?p)) ((l - ?s) div ?p + 1))"
  have due: "nextDueAt now e = ?s + m * ?p" using assms(1) by (simp add: nextDueAt_def Let_def m_def)
  have "nextDueAt now e \<le> ?s + n * ?p \<longleftrightarrow> m \<le> n" unfolding due using assms(1) by simp
  also have "\<dots> \<longleftrightarrow> ceil_div (now - ?s) ?p \<le> n \<and> (\<forall>l. re_lastFiredAt e = Some l \<longrightarrow> (l - ?s) div ?p < n)"
    using assms(2) by (auto simp: m_def split: option.splits)
  also have "\<dots> \<longleftrightarrow> tick_at now e n"
    using assms by (auto simp: tick_at_def ceil_div_le div_less_iff algebra_simps)
  finally show ?thesis by simp
qed

lemma nextDueAt_grid:
  assumes "0 < period_of e"
  shows "\<exists>n \<ge> 0. nextDueAt now e = re_startAt e + n * period_of e"
  using assms by (auto simp: nextDueAt_def Let_def split: option.splits)

lemma next_tick_least:
  assumes "0 < period_of e"
  shows "\<exists>n. tick_at now e n \<and> nextDueAt now e = re_startAt e + n * period_of e
    \<and> (\<forall>m. tick_at now e m \<longrightarrow> n \<le> m)"
proof -
  obtain n where n: "0 \<le> n" "nextDueAt now e = re_startAt e + n * period_of e" using nextDueAt_grid [OF assms] by blast
  have "n \<le> m" if "tick_at now e m" for m
  proof -
    have "0 \<le> m" using that by (simp add: tick_at_def)
    from nextDueAt_iff [OF assms this, of now] that n(2) assms show ?thesis by simp
  qed
  with n nextDueAt_iff [OF assms n(1), of now] show ?thesis by auto
qed

text \<open>C24: The next tick of a periodic reminder is the earliest point of the grid \<open>startAt + n * period\<close> that is not past and
  comes after the last recorded tick: missed ticks are skipped, late ticks do not shift the grid.\<close>

theorem next_tick_on_grid:
  assumes "0 < period_of e"
  shows "\<exists>n. tick_at now e n \<and> nextDueAt now e = re_startAt e + n * period_of e
    \<and> (\<forall>m. tick_at now e m \<longrightarrow> n \<le> m)"
  by (rule next_tick_least [OF assms])

section \<open>The schedule\<close>

definition not_early :: "reminder_entry \<Rightarrow> int \<Rightarrow> bool" where
  "not_early e due \<longleftrightarrow> re_startAt e \<le> due
     \<and> (0 < period_of e \<longrightarrow> (\<forall>l. re_lastFiredAt e = Some l \<longrightarrow> (l - re_startAt e) div period_of e < (due - re_startAt e) div period_of e))"

lemma not_early_later:
  assumes "not_early e due" "due \<le> due'"
  shows "not_early e due'"
proof -
  have "(due - re_startAt e) div period_of e \<le> (due' - re_startAt e) div period_of e" if "0 < period_of e"
    using assms(2) that by (intro zdiv_mono1) simp_all
  with assms show ?thesis by (fastforce simp: not_early_def)
qed

lemma not_early_next: "not_early e (nextDueAt now e)"
proof (cases "0 < period_of e")
  case True
  then obtain n where n: "tick_at now e n" "nextDueAt now e = re_startAt e + n * period_of e"
    using next_tick_least [OF True, of now] by blast
  have "(nextDueAt now e - re_startAt e) div period_of e = n" using n(2) True by simp
  moreover have "(l - re_startAt e) div period_of e < n" if "re_lastFiredAt e = Some l" for l
    using n(1) that True by (auto simp: div_less_iff tick_at_def)
  moreover have "re_startAt e \<le> nextDueAt now e" using n True by (simp add: tick_at_def)
  ultimately show ?thesis by (simp add: not_early_def)
qed (simp add: not_early_def nextDueAt_def Let_def)

definition sc_ok :: "nat \<Rightarrow> string \<Rightarrow> scheduled \<Rightarrow> bool" where
  "sc_ok n key sc \<longleftrightarrow> entry_key (sc_entry sc) = key \<and> not_early (sc_entry sc) (sc_due sc) \<and> sc_sequence sc \<le> n"

fun rproc_ok :: "nat \<Rightarrow> reminder_process \<Rightarrow> bool" where
  "rproc_ok n (Registering e) = (re_lastFiredAt e = None)"
| "rproc_ok n (Reconciling readSequence owned entries ranges refresh) =
     (readSequence \<le> n \<and> js_wf owned \<and> (\<forall>(key, e) \<in> set owned. entry_key e = key))"
| "rproc_ok n p = True"

definition reminders_ok :: "reminder_silo \<Rightarrow> bool" where
  "reminders_ok s \<longleftrightarrow> js_wf (rs_scheduled s) \<and> (\<forall>key sc. js_get (rs_scheduled s) key = Some sc \<longrightarrow> sc_ok (rs_localSequence s) key sc)
     \<and> (\<forall>pid p. js_get (rs_procs s) pid = Some p \<longrightarrow> rproc_ok (rs_localSequence s) p)"

lemma rproc_ok_mono: "rproc_ok n p \<Longrightarrow> n \<le> n' \<Longrightarrow> rproc_ok n' p"
  by (cases p) auto

lemma ok_frame:
  "reminders_ok s \<Longrightarrow> rs_scheduled s' = rs_scheduled s \<Longrightarrow> rs_localSequence s' = rs_localSequence s \<Longrightarrow> rs_procs s' = rs_procs s \<Longrightarrow> reminders_ok s'"
  by (simp add: reminders_ok_def)

lemma ok_rgo: "reminders_ok s \<Longrightarrow> rproc_ok (rs_localSequence s) p \<Longrightarrow> reminders_ok (rgo pid p s)"
  by (auto simp: reminders_ok_def rgo_def js_get_set split: if_splits)

lemma ok_rfinish: "reminders_ok s \<Longrightarrow> reminders_ok (rfinish pid s)"
  by (auto simp: reminders_ok_def rfinish_def js_get_delete split: if_splits)

lemma ok_rspawn: "reminders_ok s \<Longrightarrow> rproc_ok (rs_localSequence s) p \<Longrightarrow> reminders_ok (rspawn p s)"
  by (auto simp: reminders_ok_def rspawn_def js_get_set split: if_splits)

lemma ok_cancel: "reminders_ok s \<Longrightarrow> reminders_ok (rs_cancel key s)"
  by (auto simp: reminders_ok_def rs_cancel_def js_get_delete split: if_splits)

lemma ok_schedule:
  assumes "reminders_ok s" "not_early e first"
  shows "reminders_ok (scheduleEntry now e first s)"
proof -
  have "sc_ok n key sc \<Longrightarrow> sc_ok (Suc n) key sc" for n key sc by (simp add: sc_ok_def)
  moreover have "not_early e (now + max 0 (first - now))" by (rule not_early_later [OF assms(2)]) simp
  moreover have "rproc_ok n p \<Longrightarrow> rproc_ok (Suc n) p" for n p by (erule rproc_ok_mono) simp
  ultimately show ?thesis using assms(1)
    by (auto simp: reminders_ok_def scheduleEntry_def rs_cancel_def Let_def js_get_set js_get_delete sc_ok_def split: if_splits intro: le_SucI)
qed

lemma ok_cancelStale: "reminders_ok s \<Longrightarrow> reminders_ok (cancelStale n owned s)"
proof -
  have "reminders_ok s \<Longrightarrow> reminders_ok (foldl (\<lambda>s (key, current). if \<not> js_has owned key \<and> sc_sequence current < n then rs_cancel key s else s) s xs)"
    for s xs by (induction xs arbitrary: s) (auto simp: ok_cancel)
  then show "reminders_ok s \<Longrightarrow> ?thesis" by (simp add: cancelStale_def)
qed

lemma ok_adopt: "reminders_ok s \<Longrightarrow> reminders_ok (adoptOne now n s p)"
  by (cases p) (simp add: adoptOne_def ok_schedule not_early_next split: option.splits)

lemma ok_apply: "reminders_ok s \<Longrightarrow> reminders_ok (applyReconcile now n owned s)"
proof -
  have "reminders_ok s \<Longrightarrow> reminders_ok (foldl (adoptOne now n) s xs)" for s xs by (induction xs arbitrary: s) (simp_all add: ok_adopt)
  then show "reminders_ok s \<Longrightarrow> ?thesis" by (simp add: applyReconcile_def ok_cancelStale)
qed

definition owned_ok :: "(string, reminder_entry) js_map \<Rightarrow> bool" where
  "owned_ok owned \<longleftrightarrow> js_wf owned \<and> (\<forall>(key, e) \<in> set owned. entry_key e = key)"

lemma owned_collect: "owned_ok owned \<Longrightarrow> owned_ok (collect owned es)"
  unfolding collect_def
proof (induction es arbitrary: owned)
  case (Cons e es)
  have "owned_ok (js_set (entry_key e) e owned)" using Cons.prems by (auto simp: owned_ok_def js_set_mem)
  from Cons.IH [OF this] show ?case by simp
qed simp

lemma ok_readRanges:
  "reminders_ok s \<Longrightarrow> n \<le> rs_localSequence s \<Longrightarrow> owned_ok owned \<Longrightarrow> reminders_ok (readRanges now pid n owned ranges refresh s)"
  by (auto simp: readRanges_def owned_ok_def ok_apply intro!: ok_rgo split: list.splits prod.splits)

lemma ok_reconcile: "reminders_ok s \<Longrightarrow> reminders_ok (reconcile now refresh s)"
proof -
  assume s: "reminders_ok s"
  have "sc_ok n key sc \<Longrightarrow> sc_ok (Suc n) key sc" "rproc_ok n p \<Longrightarrow> rproc_ok (Suc n) p" for n key sc p
    by (simp add: sc_ok_def) (erule rproc_ok_mono, simp)
  with s have "reminders_ok (s\<lparr> rs_localSequence := Suc (rs_localSequence s), rs_nextProc := Suc (rs_nextProc s) \<rparr>)"
    by (auto simp: reminders_ok_def)
  then show ?thesis unfolding reconcile_def Let_def by (intro ok_readRanges) (simp_all add: owned_ok_def)
qed

lemma ok_fire:
  assumes "reminders_ok s"
  shows "reminders_ok (fst (timerFires now key s))"
    "Tick e t \<in> set (snd (timerFires now key s)) \<Longrightarrow> not_early e t"
proof -
  have sc: "sc_ok (rs_localSequence s) key sc" if "js_get (rs_scheduled s) key = Some sc" for sc
    using assms that by (simp add: reminders_ok_def)
  have ticked: "not_early (e\<lparr> re_lastFiredAt := Some now \<rparr>) (now + max 0 (nextDueAt now (e\<lparr> re_lastFiredAt := Some now \<rparr>) - now))" for e
    by (rule not_early_later [OF not_early_next [of _ now]]) simp
  show "reminders_ok (fst (timerFires now key s))"
    using assms sc ticked
    by (auto simp: timerFires_def fire_def Let_def reminders_ok_def sc_ok_def js_get_set js_get_delete split: option.splits if_splits)
  show "Tick e t \<in> set (snd (timerFires now key s)) \<Longrightarrow> not_early e t"
    using sc by (auto simp: timerFires_def fire_def sc_ok_def not_early_later split: option.splits if_splits)
qed

lemma ok_resume:
  assumes "reminders_ok s"
  shows "reminders_ok (rresume now pid s)"
proof (cases "js_get (rs_procs s) pid")
  case (Some p)
  then have p: "rproc_ok (rs_localSequence s) p" using assms by (simp add: reminders_ok_def)
  have first: "not_early e (re_startAt e)" if "re_lastFiredAt e = None" for e using that by (simp add: not_early_def)
  have table: "reminders_ok (s\<lparr> rs_table := t \<rparr>)" "reminders_ok (scheduleRefresh now s)" for t
    using ok_frame [OF assms] by (simp_all add: scheduleRefresh_def)
  show ?thesis
  proof (cases p)
    case (Reconciling n owned es ranges refresh)
    then have "owned_ok (collect owned es)" "n \<le> rs_localSequence s" using p by (auto intro!: owned_collect simp: owned_ok_def [of owned])
    with Some Reconciling show ?thesis by (simp add: rresume_def ok_readRanges assms)
  qed (use Some p assms first table in \<open>auto simp: rresume_def ok_schedule ok_cancel intro!: ok_rfinish ok_rgo split: option.splits\<close>)
qed (simp add: rresume_def assms)

lemma ok_step:
  assumes "reminders_ok s"
  shows "reminders_ok (fst (reminder_step op s))" "Tick e t \<in> set (snd (reminder_step op s)) \<Longrightarrow> not_early e t"
proof -
  have refresh: "reminders_ok (scheduleRefresh now s)" "reminders_ok (scheduleRefresh now (s\<lparr> rs_refreshDue := None \<rparr>))" for now
    using ok_frame [OF assms] by (simp_all add: scheduleRefresh_def)
  have table: "reminders_ok (s\<lparr> rs_table := t \<rparr>)" "reminders_ok (s\<lparr> rs_ranges := r \<rparr>)" for t r using ok_frame [OF assms] by simp_all
  show "reminders_ok (fst (reminder_step op s))"
    using assms refresh table ok_fire(1) [OF assms] ok_resume [OF assms]
    by (cases op) (auto simp: reminder_step_def register_def Let_def case_prod_unfold unregister_def rs_refreshOwnership_def refreshFires_def rs_stop_def
        intro!: ok_rspawn ok_reconcile split: option.splits, simp add: reminders_ok_def)
  show "Tick e t \<in> set (snd (reminder_step op s)) \<Longrightarrow> not_early e t"
    using ok_fire(2) [OF assms] by (cases op) (auto simp: reminder_step_def register_def Let_def case_prod_unfold split: if_splits)
qed

lemma ok_steps:
  "reminders_ok s \<Longrightarrow> reminders_ok (fst (reminder_steps s ops)) \<and> (\<forall>e t. Tick e t \<in> set (snd (reminder_steps s ops)) \<longrightarrow> not_early e t)"
proof (induction ops arbitrary: s)
  case (Cons op ops)
  then have "reminders_ok (fst (reminder_step op s))" by (simp add: ok_step)
  from Cons.IH [OF this] ok_step(2) [OF Cons.prems, of _ _ op] show ?case by (auto simp: case_prod_unfold)
qed simp

lemma ok_new: "reminders_ok (newReminderService table ranges interval minimum)"
  by (simp add: reminders_ok_def newReminderService_def)

text \<open>C20: In every run, whatever other silos do to the table and however the service's own operations interleave, no tick
  comes before the reminder's start, and no tick falls in the same period as the last tick its entry records.\<close>

theorem no_early_or_repeated_tick:
  assumes "Tick e t \<in> set (snd (reminder_steps (newReminderService table ranges interval minimum) ops))"
  shows "re_startAt e \<le> t
    \<and> (0 < period_of e \<longrightarrow> (\<forall>l. re_lastFiredAt e = Some l \<longrightarrow>
         (l - re_startAt e) div period_of e < (t - re_startAt e) div period_of e))"
  using ok_steps [OF ok_new [of table ranges interval minimum], of ops] assms unfolding not_early_def by blast

section \<open>Reconciliation\<close>

text \<open>The schedule has nothing newer than the read.\<close>

definition older :: "nat \<Rightarrow> reminder_silo \<Rightarrow> bool" where
  "older n s \<longleftrightarrow> js_wf (rs_scheduled s) \<and> (\<forall>key sc. js_get (rs_scheduled s) key = Some sc \<longrightarrow> sc_sequence sc < n)"

lemma cancelStale_get:
  assumes "older n s"
  shows "js_get (rs_scheduled (cancelStale n owned s)) key = (if js_has owned key then js_get (rs_scheduled s) key else None)"
proof -
  let ?f = "\<lambda>s (key, current). if \<not> js_has owned key \<and> sc_sequence current < n then rs_cancel key s else s"
  have fold: "js_get (rs_scheduled (foldl ?f s' xs)) key =
      (if \<exists>sc. (key, sc) \<in> set xs \<and> \<not> js_has owned key \<and> sc_sequence sc < n then None else js_get (rs_scheduled s') key)" for s' xs
  proof (induction xs arbitrary: s')
    case (Cons p xs)
    obtain k sc where p: "p = (k, sc)" by (cases p)
    show ?case unfolding foldl_Cons Cons.IH p by (auto simp: rs_cancel_def js_get_delete)
  qed simp
  have "sc_sequence sc < n" if "(key, sc) \<in> set (rs_scheduled s)" for sc
    using assms that by (auto simp: older_def js_get_mem)
  moreover have "js_get (rs_scheduled s) key = None" if "\<nexists>sc. (key, sc) \<in> set (rs_scheduled s)"
    using that by (metis js_get_memD not_None_eq)
  ultimately show ?thesis unfolding cancelStale_def fold by auto
qed

lemma adopt_get:
  assumes "entry_key e = k" "\<And>sc. js_get (rs_scheduled s) k = Some sc \<Longrightarrow> sc_sequence sc < n"
  shows "k' \<noteq> k \<Longrightarrow> js_get (rs_scheduled (adoptOne now n s (k, e))) k' = js_get (rs_scheduled s) k'"
    "\<exists>sc'. js_get (rs_scheduled (adoptOne now n s (k, e))) k = Some sc' \<and> re_etag (sc_entry sc') = re_etag e"
  using assms by (auto simp: adoptOne_def scheduleEntry_def rs_cancel_def Let_def js_get_set js_get_delete split: option.splits)

lemma adopt_all:
  assumes "owned_ok owned" "\<And>k sc. js_get (rs_scheduled s) k = Some sc \<Longrightarrow> js_has owned k \<Longrightarrow> sc_sequence sc < n"
  shows "map_option (\<lambda>sc. re_etag (sc_entry sc)) (js_get (rs_scheduled (foldl (adoptOne now n) s owned)) key) =
    (case js_get owned key of Some e \<Rightarrow> Some (re_etag e) | None \<Rightarrow> map_option (\<lambda>sc. re_etag (sc_entry sc)) (js_get (rs_scheduled s) key))"
  using assms
proof (induction owned arbitrary: s)
  case (Cons p owned)
  obtain k e where p: "p = (k, e)" by (cases p)
  have ok: "owned_ok owned" "entry_key e = k" "js_get owned k = None" using Cons.prems(1) by (auto simp: p owned_ok_def js_wf_def map_of_eq_None_iff)
  let ?s = "adoptOne now n s (k, e)"
  have seq: "js_get (rs_scheduled s) k = Some sc \<Longrightarrow> sc_sequence sc < n" for sc using Cons.prems(2) p by simp
  have a1: "js_get (rs_scheduled ?s) k' = js_get (rs_scheduled s) k'" if "k' \<noteq> k" for k'
    using adopt_get(1) [OF ok(2) _ that] seq by blast
  have a2: "\<exists>sc'. js_get (rs_scheduled ?s) k = Some sc' \<and> re_etag (sc_entry sc') = re_etag e"
    using adopt_get(2) [OF ok(2)] seq by blast
  have "sc_sequence sc < n" if "js_get (rs_scheduled ?s) k' = Some sc" "js_has owned k'" for k' sc
  proof -
    have "k' \<noteq> k" using that(2) ok(3) by auto
    then have "js_get (rs_scheduled s) k' = Some sc" "js_has (p # owned) k'" using that a1 by (simp_all add: p)
    then show ?thesis by (rule Cons.prems(2))
  qed
  then have "map_option (\<lambda>sc. re_etag (sc_entry sc)) (js_get (rs_scheduled (foldl (adoptOne now n) ?s owned)) key) =
      (case js_get owned key of Some e \<Rightarrow> Some (re_etag e) | None \<Rightarrow> map_option (\<lambda>sc. re_etag (sc_entry sc)) (js_get (rs_scheduled ?s) key))"
    by (rule Cons.IH [OF ok(1)])
  then show ?case using a1 [of key] a2 ok(3) by (cases "key = k") (auto simp: p split: option.splits)
qed simp

lemma applied_etags:
  assumes "older n s" "owned_ok owned"
  shows "map_option (\<lambda>sc. re_etag (sc_entry sc)) (js_get (rs_scheduled (applyReconcile now n owned s)) key) = map_option re_etag (js_get owned key)"
proof -
  have seq: "sc_sequence sc < n" if "js_get (rs_scheduled (cancelStale n owned s)) k = Some sc" "js_has owned k" for k sc
    using that assms(1) unfolding cancelStale_get [OF assms(1)] by (auto simp: older_def split: if_splits)
  have "map_option (\<lambda>sc. re_etag (sc_entry sc)) (js_get (rs_scheduled (applyReconcile now n owned s)) key) =
      (case js_get owned key of Some e \<Rightarrow> Some (re_etag e)
        | None \<Rightarrow> map_option (\<lambda>sc. re_etag (sc_entry sc)) (js_get (rs_scheduled (cancelStale n owned s)) key))"
    unfolding applyReconcile_def by (rule adopt_all [OF assms(2) seq])
  then show ?thesis by (simp add: cancelStale_get [OF assms(1)] split: option.splits)
qed

text \<open>What the reads of all ranges collect.\<close>

definition gather :: "reminder_table \<Rightarrow> (string, reminder_entry) js_map \<Rightarrow> hash_range list \<Rightarrow> (string, reminder_entry) js_map" where
  "gather t = foldl (\<lambda>m (b, e). collect m (rt_readRange b e t))"

lemma collect_get: "js_get (collect owned es) key = Some e \<Longrightarrow> js_get owned key = Some e \<or> e \<in> set es \<and> entry_key e = key"
  unfolding collect_def by (induction es arbitrary: owned) (fastforce simp: js_get_set split: if_splits)+

lemma collect_has: "js_has (collect owned es) key \<longleftrightarrow> js_has owned key \<or> (\<exists>e \<in> set es. entry_key e = key)"
  unfolding collect_def by (induction es arbitrary: owned) (auto simp: js_get_set)

abbreviation in_ranges :: "reminder_entry \<Rightarrow> hash_range list \<Rightarrow> bool" where
  "in_ranges e ranges \<equiv> isHashInRanges (getUniformHashCode (re_grainId e)) ranges"

lemma gather_get:
  "js_get (gather t owned ranges) key = Some e \<Longrightarrow>
     js_get owned key = Some e \<or> e \<in> set (js_values (rt_entries t)) \<and> entry_key e = key \<and> in_ranges e ranges"
proof (induction ranges arbitrary: owned)
  case (Cons r ranges)
  then have "js_get (gather t (collect owned (rt_readRange (fst r) (snd r) t)) ranges) key = Some e" by (simp add: gather_def case_prod_unfold)
  from Cons.IH [OF this] collect_get [of owned _ key e] show ?case
    by (fastforce simp: isHashInRanges_def rt_readRange_def case_prod_unfold)
qed (simp add: gather_def)

lemma gather_has:
  "js_has (gather t owned ranges) key \<longleftrightarrow>
     js_has owned key \<or> (\<exists>e \<in> set (js_values (rt_entries t)). entry_key e = key \<and> in_ranges e ranges)"
proof (induction ranges arbitrary: owned)
  case (Cons r ranges)
  have "js_has (gather t owned (r # ranges)) key \<longleftrightarrow> js_has (gather t (collect owned (rt_readRange (fst r) (snd r) t)) ranges) key"
    by (simp add: gather_def case_prod_unfold)
  then show ?case unfolding Cons.IH collect_has by (auto simp: isHashInRanges_def rt_readRange_def case_prod_unfold)
qed (simp add: gather_def isHashInRanges_def)

lemma owned_gather: "owned_ok owned \<Longrightarrow> owned_ok (gather t owned ranges)"
  unfolding gather_def by (induction ranges arbitrary: owned) (auto simp: owned_collect)

text \<open>The reads and the final pass, with nothing in between.\<close>

lemma reads_then_apply:
  assumes "js_get (rs_procs s) pid = Some (Reconciling n owned es ranges refresh)"
  shows "\<exists>s'. rs_scheduled s' = rs_scheduled s \<and> rs_localSequence s' = rs_localSequence s \<and>
     rs_scheduled (fst (reminder_steps s (replicate (Suc (length ranges)) (RResume now pid)))) =
       rs_scheduled (applyReconcile now n (gather (rs_table s) (collect owned es) ranges) s')"
  using assms
proof (induction ranges arbitrary: s owned es)
  case Nil
  then show ?case by (auto simp: reminder_step_def rresume_def readRanges_def rgo_def gather_def)
next
  case (Cons r ranges)
  let ?es = "rt_readRange (fst r) (snd r) (rs_table s)"
  let ?s = "rgo pid (Reconciling n (collect owned es) ?es ranges refresh) s"
  have step: "reminder_step (RResume now pid) s = (?s, [])"
    using Cons.prems by (simp add: reminder_step_def rresume_def readRanges_def case_prod_unfold)
  have "js_get (rs_procs ?s) pid = Some (Reconciling n (collect owned es) ?es ranges refresh)" by (simp add: rgo_def js_get_set)
  from Cons.IH [OF this] show ?case by (simp add: step gather_def case_prod_unfold rgo_def)
qed

text \<open>C22: A reconciliation that is not interrupted brings the schedule in line with the table: exactly the reminders of the
  owned ranges are scheduled, each under the registration the table has now.\<close>

theorem reconcile_matches_table:
  fixes table ranges0 interval minimum ops now ranges key
  defines "s \<equiv> fst (reminder_steps (newReminderService table ranges0 interval minimum) ops)"
  defines "s' \<equiv> fst (reminder_steps s (RefreshOwnership now ranges # replicate (length ranges) (RResume now (rs_nextProc s))))"
  shows "(\<forall>sc. js_get (rs_scheduled s') key = Some sc \<longrightarrow>
            (\<exists>e \<in> set (js_values (rt_entries (rs_table s))). entry_key e = key \<and> in_ranges e ranges \<and> re_etag (sc_entry sc) = re_etag e))
       \<and> (\<forall>e \<in> set (js_values (rt_entries (rs_table s))). in_ranges e ranges \<longrightarrow> js_has (rs_scheduled s') (entry_key e))"
proof -
  define s1 where "s1 = s\<lparr> rs_ranges := ranges, rs_localSequence := Suc (rs_localSequence s), rs_nextProc := Suc (rs_nextProc s) \<rparr>"
  define G where "G = gather (rs_table s) [] ranges"
  have s: "reminders_ok s" using ok_steps [OF ok_new] by (simp add: s_def)
  obtain s2 where s2: "rs_scheduled s2 = rs_scheduled s" "rs_localSequence s2 = Suc (rs_localSequence s)"
    and res: "rs_scheduled s' = rs_scheduled (applyReconcile now (Suc (rs_localSequence s)) G s2)"
  proof (cases ranges)
    case Nil
    then have "rs_scheduled s' = rs_scheduled (applyReconcile now (Suc (rs_localSequence s)) G s1)"
      by (simp add: s'_def reminder_step_def rs_refreshOwnership_def reconcile_def Let_def readRanges_def rgo_def G_def gather_def s1_def)
    with that [of s1] show ?thesis by (simp add: s1_def)
  next
    case (Cons r rs)
    let ?es = "rt_readRange (fst r) (snd r) (rs_table s)"
    let ?s = "rgo (rs_nextProc s) (Reconciling (Suc (rs_localSequence s)) [] ?es rs True) s1"
    have step: "reminder_step (RefreshOwnership now ranges) s = (?s, [])"
      by (simp add: reminder_step_def rs_refreshOwnership_def reconcile_def Let_def readRanges_def case_prod_unfold Cons s1_def)
    have "js_get (rs_procs ?s) (rs_nextProc s) = Some (Reconciling (Suc (rs_localSequence s)) [] ?es rs True)" by (simp add: rgo_def js_get_set)
    from reads_then_apply [OF this, of now] obtain s3 where s3: "rs_scheduled s3 = rs_scheduled ?s" "rs_localSequence s3 = rs_localSequence ?s"
      "rs_scheduled (fst (reminder_steps ?s (replicate (Suc (length rs)) (RResume now (rs_nextProc s))))) =
         rs_scheduled (applyReconcile now (Suc (rs_localSequence s)) (gather (rs_table ?s) (collect [] ?es) rs) s3)" by blast
    have "gather (rs_table ?s) (collect [] ?es) rs = G" by (simp add: G_def gather_def Cons case_prod_unfold rgo_def s1_def)
    moreover have "rs_scheduled s' = rs_scheduled (fst (reminder_steps ?s (replicate (Suc (length rs)) (RResume now (rs_nextProc s)))))"
      unfolding s'_def reminder_steps.simps step by (simp add: Cons case_prod_unfold)
    ultimately have "rs_scheduled s' = rs_scheduled (applyReconcile now (Suc (rs_localSequence s)) G s3)" using s3(3) by simp
    with s3(1,2) that [of s3] show ?thesis by (simp add: rgo_def s1_def)
  qed
  have "older (Suc (rs_localSequence s)) s2" using s s2 by (auto simp: older_def reminders_ok_def sc_ok_def less_Suc_eq_le)
  moreover have "owned_ok G" unfolding G_def by (rule owned_gather) (simp add: owned_ok_def)
  ultimately have etags: "map_option (\<lambda>sc. re_etag (sc_entry sc)) (js_get (rs_scheduled s') k) = map_option re_etag (js_get G k)" for k
    unfolding res by (rule applied_etags)
  have "js_has (rs_scheduled s') k \<longleftrightarrow> js_has G k" for k using etags [of k] by (auto simp: map_option_case split: option.splits)
  then have "js_has (rs_scheduled s') (entry_key e)" if "e \<in> set (js_values (rt_entries (rs_table s)))" "in_ranges e ranges" for e
    using that gather_has [of "rs_table s" "[]" ranges "entry_key e"] by (auto simp: G_def)
  moreover have "\<exists>e \<in> set (js_values (rt_entries (rs_table s))). entry_key e = key \<and> in_ranges e ranges \<and> re_etag (sc_entry sc) = re_etag e"
    if "js_get (rs_scheduled s') key = Some sc" for sc
  proof -
    from etags [of key, symmetric] that obtain e where e: "js_get G key = Some e" "re_etag e = re_etag (sc_entry sc)" by auto
    with gather_get [of "rs_table s" "[]" ranges key e] show ?thesis by (auto simp: G_def)
  qed
  ultimately show ?thesis by blast
qed

section \<open>Concrete runs\<close>

definition demo_grain :: grain_id where
  "demo_grain = GrainId ''t'' (KString ''a'')"

definition demo_service :: reminder_silo where
  "demo_service = newReminderService \<lparr> rt_entries = [], rt_etagCounter = 0 \<rparr> [(0, 0x100000000)] 100 (Some (of_ms 0))"

definition demo_entry :: "int \<Rightarrow> int option \<Rightarrow> reminder_entry" where
  "demo_entry period l = \<lparr> re_grainId = demo_grain, re_name = ''r'', re_startAt = 10, re_period = of_ms period, re_etag = 1, re_lastFiredAt = l \<rparr>"

text \<open>A reminder is registered, due in ten milliseconds.\<close>

definition demo_registered :: "int \<Rightarrow> reminder_op list" where
  "demo_registered period = [Register 0 demo_grain ''r'' (of_ms 10) (of_ms period), RResume 0 0]"

definition demo_ticks :: "reminder_op list" where
  "demo_ticks = demo_registered 5 @ [TimerFires 10 ''t/a r'', TimerFires 17 ''t/a r'']"

lemma demo_ticks_events: "snd (reminder_steps demo_service demo_ticks) = [Tick (demo_entry 5 None) 10, Tick (demo_entry 5 (Some 10)) 17]"
  by code_simp

theorem next_tick_on_grid_witness: "nextDueAt 17 (demo_entry 5 (Some 16)) = 20"
proof -
  have "0 < period_of (demo_entry 5 (Some 16))" by (simp add: demo_entry_def)
  from next_tick_on_grid [OF this, of 17] obtain n where n: "tick_at 17 (demo_entry 5 (Some 16)) n"
    "nextDueAt 17 (demo_entry 5 (Some 16)) = 10 + n * 5" "\<And>m. tick_at 17 (demo_entry 5 (Some 16)) m \<Longrightarrow> n \<le> m"
    by (auto simp: demo_entry_def)
  have "n \<le> 2" by (rule n(3)) (simp add: tick_at_def demo_entry_def)
  moreover have "2 \<le> n" using n(1) by (simp add: tick_at_def demo_entry_def)
  ultimately show ?thesis using n(2) by simp
qed

theorem no_early_or_repeated_tick_witness:
  "Tick (demo_entry 5 (Some 10)) 17 \<in> set (snd (reminder_steps demo_service demo_ticks)) \<and> (10 - 10) div 5 < (17 - 10) div (5::int)"
proof -
  have "Tick (demo_entry 5 (Some 10)) 17 \<in> set (snd (reminder_steps demo_service demo_ticks))" by (simp add: demo_ticks_events)
  with no_early_or_repeated_tick [of "demo_entry 5 (Some 10)" 17] show ?thesis
    by (fastforce simp: demo_service_def demo_entry_def)
qed

lemma demo_table: "js_values (rt_entries (rs_table (fst (reminder_steps demo_service (demo_registered 5))))) = [demo_entry 5 None]"
  by code_simp

lemma demo_owned: "in_ranges (demo_entry 5 None) [(0, 0x100000000)]"
  using stableHash32_bound [of "grain_id_toString demo_grain"]
  by (simp add: isHashInRanges_def isHashInRange_def getUniformHashCode_def demo_entry_def)

theorem reconcile_matches_table_witness:
  "js_has (rs_scheduled (fst (reminder_steps (fst (reminder_steps demo_service (demo_registered 5)))
     [RefreshOwnership 3 [(0, 0x100000000)], RResume 3 (rs_nextProc (fst (reminder_steps demo_service (demo_registered 5))))]))) ''t/a r''"
proof -
  have "entry_key (demo_entry 5 None) = ''t/a r''" by (simp add: demo_entry_def rs_key_def demo_grain_def grain_id_toString_def)
  then show ?thesis
    using reconcile_matches_table [where table = "\<lparr> rt_entries = [], rt_etagCounter = 0 \<rparr>" and ?ranges0.0 = "[(0, 0x100000000)]" and interval = 100
        and minimum = "Some (of_ms 0)" and ops = "demo_registered 5" and key = "''t/a r''" and now = 3 and ranges = "[(0, 0x100000000)]"] demo_owned
    unfolding demo_service_def [symmetric] demo_table by (simp only: list.set ball_simps length_Cons list.size replicate.simps) simp
qed

text \<open>A reconciliation reads the table, then the reminder is unregistered, then the reconciliation goes on: it schedules the
  reminder again, which ticks although the table no longer has it.\<close>

definition demo_zombie :: "reminder_op list" where
  "demo_zombie = demo_registered 5 @ [RefreshOwnership 1 [(0, 0x100000000)], Unregister demo_grain ''r'', RResume 2 2, RResume 2 2, RResume 3 1,
     TimerFires 10 ''t/a r'']"

lemma unregistered_reminder_ticks:
  "rt_entries (rs_table (fst (reminder_steps demo_service demo_zombie))) = []
   \<and> snd (reminder_steps demo_service demo_zombie) = [Tick (demo_entry 5 None) 10]"
  by code_simp

text \<open>In the same way a reminder without a period ticks twice.\<close>

definition demo_one_shot :: "reminder_op list" where
  "demo_one_shot = demo_registered 0 @ [RefreshOwnership 9 [(0, 0x100000000)], TimerFires 10 ''t/a r'', RResume 11 1, TimerFires 11 ''t/a r'']"

lemma one_shot_ticks_twice:
  "snd (reminder_steps demo_service demo_one_shot) = [Tick (demo_entry 0 None) 10, Tick (demo_entry 0 None) 11]"
  by code_simp

text \<open>The service is stopped while a reconciliation awaits its read: it schedules the reminder and arms the refresh timer.\<close>

definition demo_stop :: "reminder_op list" where
  "demo_stop = demo_registered 5 @ [RefreshOwnership 1 [(0, 0x100000000)], StopReminders, RResume 2 1, RResume 2 1, TimerFires 10 ''t/a r'']"

lemma stopped_service_ticks:
  "snd (reminder_steps demo_service demo_stop) = [Tick (demo_entry 5 None) 10]
   \<and> rs_refreshDue (fst (reminder_steps demo_service demo_stop)) = Some 102"
  by code_simp

text \<open>Two reminders of different grains share the row of the table: the second registration replaces the first.\<close>

lemma reminder_rows_collide:
  "rt_key (GrainId ''t'' (KString ''a'')) ''bc'' = rt_key (GrainId ''t'' (KString ''ab'')) ''c''"
  "rt_read (GrainId ''t'' (KString ''a'')) ''bc''
     (fst (rt_upsert (GrainId ''t'' (KString ''ab'')) ''c'' 20 (of_ms 5)
       (fst (rt_upsert (GrainId ''t'' (KString ''a'')) ''bc'' 10 (of_ms 5) \<lparr> rt_entries = [], rt_etagCounter = 0 \<rparr>))))
     = Some \<lparr> re_grainId = GrainId ''t'' (KString ''ab''), re_name = ''c'', re_startAt = 20, re_period = of_ms 5, re_etag = 2, re_lastFiredAt = None \<rparr>"
  by code_simp+

end
