(* ===== verification/Pulling_Streams.thy ===== *)
theory Pulling_Streams
  imports Hash_Ring
begin

text \<open>
  \<^verbatim>\<open>streams/src\<close>: streams whose events are pulled from physical queues. The model has the delivery of one event to its
  subscribers (\<^verbatim>\<open>fan-out-delivery.ts\<close> over \<^verbatim>\<open>core/src/async-executor-with-retries.ts\<close>), the agent that pulls a queue
  (\<^verbatim>\<open>queue-pulling-agent.ts\<close>), the part of a provider that runs agents for the owned queues
  (\<^verbatim>\<open>pulling-stream-provider-core.ts\<close>, \<^verbatim>\<open>queue-ownership.ts\<close>, \<^verbatim>\<open>implicit-subscriptions.ts\<close>), the in-memory cursor store
  and the generated queue (\<^verbatim>\<open>stream-cursor-store.ts\<close>, \<^verbatim>\<open>generator-stream-queue.ts\<close>).

  A queue is an argument: a record of its four operations. A call of a queue may be rejected, with or without having
  taken effect; the step that makes the call is told which. What the attempts to deliver to a subscriber come to, and
  how long they take, is an input of the step in which the delivery settles. An agent is an object, named by its index; the agents of all silos
  share the queues.
\<close>

section \<open>Delivery to subscribers\<close>

definition INFINITE_RETRIES :: int where
  "INFINITE_RETRIES = -1"

text \<open>The loop of \<open>executeWithRetries\<close> on the attempts as they settle, from the time \<open>now\<close> at which the first one starts:
  the outcome it stops with, the calls made and the time then. Each element is the outcome of an attempt, how long the
  attempt took, and by how much the sleep after it, if there is one, exceeds the delay it was asked for. Without a result
  the loop is still retrying.\<close>

fun executeWithRetries ::
  "int \<Rightarrow> (nat \<Rightarrow> 'a \<Rightarrow> int \<Rightarrow> bool) \<Rightarrow> (nat \<Rightarrow> int option) \<Rightarrow> nat \<Rightarrow> int \<Rightarrow> ('a \<times> int \<times> int) list \<Rightarrow> ('a \<times> nat \<times> int) option" where
  "executeWithRetries maxRetries shouldRetry backoff attempt now [] = None"
| "executeWithRetries maxRetries shouldRetry backoff attempt now ((outcome, took, overrun) # rest) =
     (let settled = now + took; callsMade = attempt + 1;
          withinBudget = (maxRetries = INFINITE_RETRIES \<or> int callsMade < maxRetries)
      in if withinBudget \<and> shouldRetry attempt outcome settled then
           (let slept = (case backoff attempt of None \<Rightarrow> 0 | Some delayMs \<Rightarrow> if 0 < delayMs then delayMs + overrun else 0)
            in executeWithRetries maxRetries shouldRetry backoff (attempt + 1) (settled + slept) rest)
         else Some (outcome, callsMade, settled))"

text \<open>An attempt to deliver: how it ended, how long it took, whether the signal had been aborted by then, and the overrun of
  the sleep that may follow. An abort ends a sleep early, so an overrun can be negative.\<close>

datatype attempt_outcome = AttemptOk | AttemptRecoverable int | AttemptFailed string

record delivery_attempt =
  da_outcome :: attempt_outcome
  da_tookMs :: int
  da_aborted :: bool
  da_overrunMs :: int

datatype one_result = DeliveredOne | SkippedOne string nat | RethrownOne int | AbortedOne

definition defaultBackoff :: "nat \<Rightarrow> int" where
  "defaultBackoff attempt = min (50 * 2 ^ attempt) 5000"

definition deliverToOne :: "(nat \<Rightarrow> int) \<Rightarrow> int \<Rightarrow> int \<Rightarrow> delivery_attempt list \<Rightarrow> one_result option" where
  "deliverToOne retryBackoffMs start maxEventDeliveryTimeMs attempts =
     (let deadline = start + maxEventDeliveryTimeMs;
          retry = (\<lambda>_ (outcome, aborted) now. case outcome of AttemptFailed e \<Rightarrow> \<not> aborted \<and> now < deadline | _ \<Rightarrow> False)
      in case executeWithRetries INFINITE_RETRIES retry (\<lambda>attempt. Some (retryBackoffMs (attempt + 1))) 0 start
                (map (\<lambda>a. ((da_outcome a, da_aborted a), da_tookMs a, da_overrunMs a)) attempts) of
           None \<Rightarrow> None
         | Some ((outcome, aborted), attemptsMade, _) \<Rightarrow> Some
             (case outcome of
                AttemptOk \<Rightarrow> DeliveredOne
              | AttemptRecoverable resumeToken \<Rightarrow> RethrownOne resumeToken
              | AttemptFailed e \<Rightarrow> if aborted then AbortedOne else SkippedOne e attemptsMade))"

datatype all_result = ResolvedAll | RecoverableAll int | AbortedAll

definition deliverToAll :: "bool \<Rightarrow> one_result list \<Rightarrow> all_result" where
  "deliverToAll aborted results =
     (if aborted then AbortedAll
      else (let earliest = foldl (\<lambda>earliest r. case r of
                RethrownOne token \<Rightarrow> (case earliest of None \<Rightarrow> Some token | Some t \<Rightarrow> if token < t then Some token else Some t)
              | _ \<Rightarrow> earliest) None results
            in case earliest of Some token \<Rightarrow> RecoverableAll token | None \<Rightarrow> ResolvedAll))"

definition implicitSubscriberIds :: "string \<Rightarrow> (string \<Rightarrow> string list) \<Rightarrow> grain_id list" where
  "implicitSubscriberIds streamKey typesFor = (case index_of (CHR ''/'') streamKey of
      None \<Rightarrow> []
    | Some slash \<Rightarrow> map (\<lambda>type. GrainId type (KString (drop (slash + 1) streamKey))) (typesFor (take slash streamKey)))"

text \<open>The subscribers of an event: the registered and the implicit ones, each once.\<close>

fun addSubscriber :: "string list \<times> grain_id list \<Rightarrow> grain_id \<Rightarrow> string list \<times> grain_id list" where
  "addSubscriber (seen, subscribers) subscriber =
     (let i = grain_id_toString subscriber
      in if i \<in> set seen then (seen, subscribers) else (i # seen, subscribers @ [subscriber]))"

definition fanOutSubscribers :: "grain_id list \<Rightarrow> string \<Rightarrow> (string \<Rightarrow> string list) \<Rightarrow> grain_id list" where
  "fanOutSubscribers explicit streamKey typesFor =
     snd (foldl addSubscriber ([], []) (explicit @ implicitSubscriberIds streamKey typesFor))"

section \<open>Queues\<close>

record 'e queue_entry =
  qe_token :: int
  qe_streamKey :: string
  qe_event :: 'e

record ('q, 'e) pullable_queue =
  pq_getCursor :: "'q \<Rightarrow> int"
  pq_readAfter :: "int \<Rightarrow> int \<Rightarrow> 'q \<Rightarrow> 'q \<times> 'e queue_entry list"
  pq_commit :: "int \<Rightarrow> 'q \<Rightarrow> 'q"
  pq_seek :: "int \<Rightarrow> 'q \<Rightarrow> 'q"

datatype fate = Applied | AppliedRejected | Rejected

definition queue_call :: "fate \<Rightarrow> ('q \<Rightarrow> 'q) \<Rightarrow> 'q \<Rightarrow> 'q" where
  "queue_call fate f q = (if fate = Rejected then q else f q)"

subsection \<open>The in-memory cursor store\<close>

type_synonym cursor_store = "(string, int) js_map"

definition cs_key :: "string \<Rightarrow> nat \<Rightarrow> string" where
  "cs_key provider queueIdx = provider @ ''/'' @ show_nat queueIdx"

definition cs_getCursor :: "string \<Rightarrow> nat \<Rightarrow> cursor_store \<Rightarrow> int" where
  "cs_getCursor provider queueIdx s = (case js_get s (cs_key provider queueIdx) of None \<Rightarrow> 0 | Some c \<Rightarrow> c)"

definition cs_commit :: "string \<Rightarrow> nat \<Rightarrow> int \<Rightarrow> cursor_store \<Rightarrow> cursor_store" where
  "cs_commit provider queueIdx cursor s =
     (if cs_getCursor provider queueIdx s < cursor then js_set (cs_key provider queueIdx) cursor s else s)"

definition cs_seek :: "string \<Rightarrow> nat \<Rightarrow> int \<Rightarrow> cursor_store \<Rightarrow> cursor_store" where
  "cs_seek provider queueIdx cursor s = js_set (cs_key provider queueIdx) cursor s"

subsection \<open>The generated queue\<close>

datatype generated_event = Fill | Report

record generator_config =
  gc_streamNamespace :: string
  gc_eventsInStream :: int

text \<open>\<open>gq_uuids\<close> is the supply of random stream ids.\<close>

record generator_queue =
  gq_config :: generator_config
  gq_streamKey :: "string option"
  gq_committed :: int
  gq_uuids :: "nat \<Rightarrow> string"
  gq_minted :: nat

definition gq_reconfigure :: "generator_config \<Rightarrow> generator_queue \<Rightarrow> generator_queue" where
  "gq_reconfigure config q = q\<lparr> gq_config := config, gq_streamKey := None, gq_committed := 0 \<rparr>"

definition gq_mint :: "generator_queue \<Rightarrow> generator_queue" where
  "gq_mint q = (case gq_streamKey q of
      Some k \<Rightarrow> q
    | None \<Rightarrow> q\<lparr> gq_streamKey := Some (gc_streamNamespace (gq_config q) @ ''/'' @ gq_uuids q (gq_minted q)), gq_minted := Suc (gq_minted q) \<rparr>)"

definition gq_entry :: "generator_queue \<Rightarrow> int \<Rightarrow> generated_event queue_entry" where
  "gq_entry q token = \<lparr> qe_token = token, qe_streamKey = the (gq_streamKey (gq_mint q)),
     qe_event = (if token = gc_eventsInStream (gq_config q) then Report else Fill) \<rparr>"

definition gq_readAfter :: "int \<Rightarrow> int \<Rightarrow> generator_queue \<Rightarrow> generator_queue \<times> generated_event queue_entry list" where
  "gq_readAfter cursor n q =
     (let q' = gq_mint q; last = min (cursor + n) (gc_eventsInStream (gq_config q'))
      in (q', map (gq_entry q') [cursor + 1..last]))"

definition generatorQueue :: "(generator_queue, generated_event) pullable_queue" where
  "generatorQueue = \<lparr> pq_getCursor = gq_committed, pq_readAfter = gq_readAfter,
     pq_commit = (\<lambda>cursor q. q\<lparr> gq_committed := cursor \<rparr>), pq_seek = (\<lambda>cursor q. q\<lparr> gq_committed := cursor \<rparr>) \<rparr>"

section \<open>The pulling agent\<close>

datatype 'e pump_stage =
    PumpCursor "int option"
  | PumpRead "'e queue_entry list option"
  | PumpDelivering "'e queue_entry" "'e queue_entry list" bool
  | PumpCommitting bool "'e queue_entry list"
  | PumpSeeking bool

record 'e pulling_agent =
  ag_queue :: nat
  ag_pollIntervalMs :: int
  ag_batchSize :: int
  ag_timer :: "int option"
  ag_cursor :: "int option"
  ag_pumping :: bool
  ag_running :: bool
  ag_pump :: "'e pump_stage option"

datatype 'e stream_event =
    Deliver nat "'e queue_entry"
  | Handled nat int "one_result list"
  | PumpError nat

definition newAgent :: "nat \<Rightarrow> int \<Rightarrow> 'e pulling_agent" where
  "newAgent i pollIntervalMs = \<lparr> ag_queue = i, ag_pollIntervalMs = pollIntervalMs, ag_batchSize = 128, ag_timer = None,
     ag_cursor = None, ag_pumping = False, ag_running = False, ag_pump = None \<rparr>"

definition ag_schedule :: "int \<Rightarrow> int \<Rightarrow> 'e pulling_agent \<Rightarrow> 'e pulling_agent" where
  "ag_schedule now delayMs a = (if \<not> ag_running a then a else a\<lparr> ag_timer := Some (now + delayMs) \<rparr>)"

definition ag_start :: "int \<Rightarrow> 'e pulling_agent \<Rightarrow> 'e pulling_agent" where
  "ag_start now a = (if ag_running a then a else ag_schedule now 0 (a\<lparr> ag_running := True \<rparr>))"

text \<open>\<open>stop\<close> aborts the signal of the delivery in flight.\<close>

definition ag_stop :: "'e pulling_agent \<Rightarrow> 'e pulling_agent" where
  "ag_stop a = a\<lparr> ag_running := False, ag_timer := None,
     ag_pump := (case ag_pump a of Some (PumpDelivering e rest aborted) \<Rightarrow> Some (PumpDelivering e rest True) | p \<Rightarrow> p) \<rparr>"

definition resetCursor :: "'e pulling_agent \<Rightarrow> 'e pulling_agent" where
  "resetCursor a = a\<lparr> ag_cursor := None \<rparr>"

text \<open>The \<open>finally\<close> of \<open>pump\<close>.\<close>

definition pump_end :: "int \<Rightarrow> 'e pulling_agent \<Rightarrow> 'e pulling_agent" where
  "pump_end now a =
     (let a1 = a\<lparr> ag_pumping := False, ag_pump := None \<rparr>
      in if ag_running a1 then ag_schedule now (ag_pollIntervalMs a1) a1 else a1)"

definition pump_read :: "('q, 'e) pullable_queue \<Rightarrow> fate \<Rightarrow> int \<Rightarrow> 'q \<times> 'e pulling_agent \<Rightarrow> 'q \<times> 'e pulling_agent" where
  "pump_read Q fate cursor = (\<lambda>(q, a).
     (queue_call fate (\<lambda>q. fst (pq_readAfter Q cursor (ag_batchSize a) q)) q,
      a\<lparr> ag_pump := Some (PumpRead (if fate = Applied then Some (snd (pq_readAfter Q cursor (ag_batchSize a) q)) else None)) \<rparr>))"

text \<open>The loop over the entries, up to the next delivery.\<close>

definition pump_next :: "int \<Rightarrow> 'e queue_entry list \<Rightarrow> 'e pulling_agent \<Rightarrow> 'e pulling_agent \<times> 'e stream_event list" where
  "pump_next now es a = (case es of
      [] \<Rightarrow> (pump_end now a, [])
    | e # rest \<Rightarrow> if \<not> ag_running a then (pump_end now a, [])
        else (a\<lparr> ag_pump := Some (PumpDelivering e rest False) \<rparr>, [Deliver (ag_queue a) e]))"

text \<open>The poll timer.\<close>

definition pump_start :: "('q, 'e) pullable_queue \<Rightarrow> int \<Rightarrow> fate \<Rightarrow> 'q \<times> 'e pulling_agent \<Rightarrow> 'q \<times> 'e pulling_agent" where
  "pump_start Q now fate = (\<lambda>(q, a). case ag_timer a of
      None \<Rightarrow> (q, a)
    | Some due \<Rightarrow> if now < due then (q, a)
        else (let a1 = a\<lparr> ag_timer := None \<rparr> in
              if ag_pumping a1 \<or> \<not> ag_running a1 then (q, a1)
              else (let a2 = a1\<lparr> ag_pumping := True \<rparr> in
                    case ag_cursor a2 of
                      None \<Rightarrow> (q, a2\<lparr> ag_pump := Some (PumpCursor (if fate = Applied then Some (pq_getCursor Q q) else None)) \<rparr>)
                    | Some c \<Rightarrow> pump_read Q fate c (q, a2))))"

text \<open>\<open>tryDeliver\<close> once the delivery settled: \<open>None\<close> stands for a failure before the subscribers were known.\<close>

definition pump_delivered ::
  "('q, 'e) pullable_queue \<Rightarrow> int \<Rightarrow> fate \<Rightarrow> 'e queue_entry \<Rightarrow> 'e queue_entry list \<Rightarrow> bool \<Rightarrow> one_result list option \<Rightarrow>
     'q \<times> 'e pulling_agent \<Rightarrow> ('q \<times> 'e pulling_agent) \<times> 'e stream_event list" where
  "pump_delivered Q now fate e rest aborted results = (\<lambda>(q, a).
     case map_option (deliverToAll aborted) results of
       Some ResolvedAll \<Rightarrow>
         ((queue_call fate (pq_commit Q (qe_token e)) q,
           a\<lparr> ag_cursor := Some (qe_token e), ag_pump := Some (PumpCommitting (fate = Applied) rest) \<rparr>),
          [Handled (ag_queue a) (qe_token e) (the results)])
     | failure \<Rightarrow>
         if \<not> ag_running a then ((q, pump_end now a), [])
         else (case failure of
                 Some (RecoverableAll resumeToken) \<Rightarrow>
                   ((queue_call fate (pq_seek Q resumeToken) q, a\<lparr> ag_pump := Some (PumpSeeking (fate = Applied)) \<rparr>), [])
               | _ \<Rightarrow> ((q, pump_end now a), [PumpError (ag_queue a)])))"

definition pump_resume ::
  "('q, 'e) pullable_queue \<Rightarrow> int \<Rightarrow> fate \<Rightarrow> one_result list option \<Rightarrow> 'q \<times> 'e pulling_agent \<Rightarrow> ('q \<times> 'e pulling_agent) \<times> 'e stream_event list" where
  "pump_resume Q now fate results = (\<lambda>(q, a). case ag_pump a of
      None \<Rightarrow> ((q, a), [])
    | Some (PumpCursor None) \<Rightarrow> ((q, pump_end now a), [PumpError (ag_queue a)])
    | Some (PumpCursor (Some c)) \<Rightarrow> (pump_read Q fate c (q, a\<lparr> ag_cursor := Some c \<rparr>), [])
    | Some (PumpRead None) \<Rightarrow> ((q, pump_end now a), [PumpError (ag_queue a)])
    | Some (PumpRead (Some es)) \<Rightarrow> (case pump_next now es a of (a', evs) \<Rightarrow> ((q, a'), evs))
    | Some (PumpDelivering e rest aborted) \<Rightarrow> pump_delivered Q now fate e rest aborted results (q, a)
    | Some (PumpCommitting ok rest) \<Rightarrow>
        (if ok then (case pump_next now rest a of (a', evs) \<Rightarrow> ((q, a'), evs)) else ((q, pump_end now a), [PumpError (ag_queue a)]))
    | Some (PumpSeeking ok) \<Rightarrow>
        (if ok then ((q, pump_end now (resetCursor a)), []) else ((q, pump_end now a), [PumpError (ag_queue a)])))"

section \<open>Providers\<close>

record stream_provider =
  pv_name :: string
  pv_pollIntervalMs :: int
  pv_agents :: "(nat, nat) js_map"
  pv_stopped :: bool

record ('q, 'e) stream_world =
  sw_queues :: "'q list"
  sw_agents :: "'e pulling_agent list"
  sw_providers :: "stream_provider list"

definition queueRingHash :: "string \<Rightarrow> nat \<Rightarrow> int" where
  "queueRingHash providerName index = stableHash32 (providerName @ '':queue:'' @ show_nat index)"

definition ownedQueueIndices :: "string \<Rightarrow> nat \<Rightarrow> hash_range list \<Rightarrow> nat list" where
  "ownedQueueIndices providerName queueCount ranges =
     filter (\<lambda>i. isHashInRanges (queueRingHash providerName i) ranges) [0..<queueCount]"

text \<open>The queue a stream is published to.\<close>

definition queueFor :: "nat \<Rightarrow> string \<Rightarrow> nat" where
  "queueFor queueCount streamKey = nat (stableHash32 streamKey mod int queueCount)"

definition on_agent :: "nat \<Rightarrow> ('e pulling_agent \<Rightarrow> 'e pulling_agent) \<Rightarrow> ('q, 'e) stream_world \<Rightarrow> ('q, 'e) stream_world" where
  "on_agent x f w = w\<lparr> sw_agents := (sw_agents w)[x := f (sw_agents w ! x)] \<rparr>"

definition on_provider :: "nat \<Rightarrow> (stream_provider \<Rightarrow> stream_provider) \<Rightarrow> ('q, 'e) stream_world \<Rightarrow> ('q, 'e) stream_world" where
  "on_provider p f w = w\<lparr> sw_providers := (sw_providers w)[p := f (sw_providers w ! p)] \<rparr>"

definition dropAgent :: "nat \<Rightarrow> nat list \<Rightarrow> ('q, 'e) stream_world \<Rightarrow> nat \<times> nat \<Rightarrow> ('q, 'e) stream_world" where
  "dropAgent p wanted w = (\<lambda>(i, x). if i \<in> set wanted then w
     else on_provider p (\<lambda>v. v\<lparr> pv_agents := js_delete i (pv_agents v) \<rparr>) (on_agent x ag_stop w))"

definition addAgent :: "int \<Rightarrow> nat \<Rightarrow> ('q, 'e) stream_world \<Rightarrow> nat \<Rightarrow> ('q, 'e) stream_world" where
  "addAgent now p w i =
     (let v = sw_providers w ! p in
      if js_has (pv_agents v) i then w
      else (let x = length (sw_agents w) in
            on_provider p (\<lambda>v. v\<lparr> pv_agents := js_set i x (pv_agents v) \<rparr>)
              (w\<lparr> sw_agents := sw_agents w @ [ag_start now (newAgent i (pv_pollIntervalMs v))] \<rparr>)))"

definition startAgentsFor :: "int \<Rightarrow> nat \<Rightarrow> nat list \<Rightarrow> ('q, 'e) stream_world \<Rightarrow> ('q, 'e) stream_world" where
  "startAgentsFor now p indices w =
     (if pv_stopped (sw_providers w ! p) then w
      else (let wanted = remdups indices;
                w1 = foldl (dropAgent p wanted) w (pv_agents (sw_providers w ! p))
            in foldl (addAgent now p) w1 wanted))"

definition sp_refreshOwnership :: "int \<Rightarrow> nat \<Rightarrow> hash_range list \<Rightarrow> ('q, 'e) stream_world \<Rightarrow> ('q, 'e) stream_world" where
  "sp_refreshOwnership now p ranges w =
     startAgentsFor now p (ownedQueueIndices (pv_name (sw_providers w ! p)) (length (sw_queues w)) ranges) w"

definition sp_stop :: "nat \<Rightarrow> ('q, 'e) stream_world \<Rightarrow> ('q, 'e) stream_world" where
  "sp_stop p w = on_provider p (\<lambda>v. v\<lparr> pv_stopped := True, pv_agents := [] \<rparr>)
     (foldl (\<lambda>w x. on_agent x ag_stop w) w (js_values (pv_agents (sw_providers w ! p))))"

datatype stream_op =
    RefreshQueues int nat "hash_range list"
  | StopProvider nat
  | ResetCursor nat
  | PollTimer int nat fate
  | PumpResume int nat fate "one_result list option"

definition on_queue_agent ::
  "nat \<Rightarrow> ('q \<times> 'e pulling_agent \<Rightarrow> ('q \<times> 'e pulling_agent) \<times> 'e stream_event list) \<Rightarrow>
     ('q, 'e) stream_world \<Rightarrow> ('q, 'e) stream_world \<times> 'e stream_event list" where
  "on_queue_agent x f w =
     (let i = ag_queue (sw_agents w ! x) in
      if x < length (sw_agents w) \<and> i < length (sw_queues w) then
        (case f (sw_queues w ! i, sw_agents w ! x) of ((q, a), evs) \<Rightarrow>
           (w\<lparr> sw_queues := (sw_queues w)[i := q], sw_agents := (sw_agents w)[x := a] \<rparr>, evs))
      else (w, []))"

definition stream_step :: "('q, 'e) pullable_queue \<Rightarrow> stream_op \<Rightarrow> ('q, 'e) stream_world \<Rightarrow> ('q, 'e) stream_world \<times> 'e stream_event list" where
  "stream_step Q op w = (case op of
      RefreshQueues now p ranges \<Rightarrow> (if p < length (sw_providers w) then sp_refreshOwnership now p ranges w else w, [])
    | StopProvider p \<Rightarrow> (if p < length (sw_providers w) then sp_stop p w else w, [])
    | ResetCursor x \<Rightarrow> (on_agent x resetCursor w, [])
    | PollTimer now x fate \<Rightarrow> on_queue_agent x (\<lambda>qa. (pump_start Q now fate qa, [])) w
    | PumpResume now x fate results \<Rightarrow> on_queue_agent x (pump_resume Q now fate results) w)"

fun stream_steps :: "('q, 'e) pullable_queue \<Rightarrow> ('q, 'e) stream_world \<Rightarrow> stream_op list \<Rightarrow> ('q, 'e) stream_world \<times> 'e stream_event list" where
  "stream_steps Q w [] = (w, [])"
| "stream_steps Q w (op # ops) =
     (case stream_step Q op w of (w', evs) \<Rightarrow> case stream_steps Q w' ops of (w'', evs') \<Rightarrow> (w'', evs @ evs'))"

end
