(* ===== verification/Pulling_Streams_Safety.thy ===== *)
theory Pulling_Streams_Safety
  imports Pulling_Streams
begin

text \<open>
  What pulled streams guarantee. The interface \<open>pullable\<close> is what an agent relies on in a queue; the generated queue is an
  instance. Over any such queue the agents of all silos together deliver at least once: what the committed cursor has
  passed was delivered to every subscriber or reported as undeliverable.
\<close>

section \<open>Delivery to one subscriber\<close>

text \<open>When attempt \<open>i\<close> settles, and that a retry loop ends with an attempt of the list, after the retries it counts.\<close>

fun settles_at :: "(nat \<Rightarrow> int option) \<Rightarrow> nat \<Rightarrow> int \<Rightarrow> ('a \<times> int \<times> int) list \<Rightarrow> nat \<Rightarrow> int" where
  "settles_at backoff attempt now [] i = now"
| "settles_at backoff attempt now ((outcome, took, overrun) # rest) 0 = now + took"
| "settles_at backoff attempt now ((outcome, took, overrun) # rest) (Suc i) = settles_at backoff (attempt + 1)
     (now + took + (case backoff attempt of None \<Rightarrow> 0 | Some delayMs \<Rightarrow> if 0 < delayMs then delayMs + overrun else 0)) rest i"

lemma retries_end:
  assumes "executeWithRetries m r b n now xs = Some (x, k, t)"
  shows "n < k \<and> k \<le> n + length xs \<and> fst (xs ! (k - n - 1)) = x \<and> t = settles_at b n now xs (k - n - 1)"
  using assms
proof (induction m r b n now xs rule: executeWithRetries.induct)
  case (2 m r b n now y took overrun ys)
  let ?slept = "case b n of None \<Rightarrow> 0 | Some d \<Rightarrow> if 0 < d then d + overrun else 0"
  show ?case
  proof (cases "(m = INFINITE_RETRIES \<or> int (n + 1) < m) \<and> r n y (now + took)")
    case True
    with 2(2) have "executeWithRetries m r b (n + 1) (now + took + ?slept) ys = Some (x, k, t)" by (simp add: Let_def)
    from 2(1) [OF refl refl refl _ refl this] True have
      IH: "n + 1 < k \<and> k \<le> n + 1 + length ys \<and> fst (ys ! (k - (n + 1) - 1)) = x
        \<and> t = settles_at b (n + 1) (now + took + ?slept) ys (k - (n + 1) - 1)" by simp
    then obtain j where j: "k = Suc (Suc n) + j" by (metis add_Suc_right add.commute less_iff_Suc_add plus_1_eq_Suc add_Suc)
    from IH show ?thesis unfolding j by simp
  next
    case False
    with 2(2) have "k = n + 1" "x = y" "t = now + took" by (simp_all add: Let_def del: add_Suc add_Suc_right split: if_splits)
    then show ?thesis by simp
  qed
qed simp

lemma retries_declined:
  "executeWithRetries INFINITE_RETRIES r b n now xs = Some (x, k, t) \<Longrightarrow> \<exists>a. \<not> r a x t"
  by (induction INFINITE_RETRIES r b n now xs rule: executeWithRetries.induct) (auto simp: Let_def split: if_splits)

text \<open>With sleeps of at least \<open>d\<close> ms between the attempts the deadline comes within so many attempts. A sleep may be cut
  short only when the attempt after it is not retried.\<close>

lemma retries_stop:
  assumes "\<And>a y t. deadline \<le> t \<Longrightarrow> \<not> r a y t" "\<And>a. \<exists>e. b a = Some e \<and> d \<le> e" "0 < d"
    and "deadline \<le> now + int k * d" "k < length xs" "\<forall>x \<in> set xs. 0 \<le> fst (snd x)"
    and "\<forall>i. Suc i < length xs \<longrightarrow> 0 \<le> snd (snd (xs ! i)) \<or> (\<forall>a t. \<not> r a (fst (xs ! Suc i)) t)"
  shows "executeWithRetries m r b n now xs \<noteq> None"
  using assms(4-7)
proof (induction k arbitrary: n now xs)
  case 0
  then obtain y took overrun ys where xs: "xs = (y, took, overrun) # ys" by (cases xs) auto
  then have "\<not> r n y (now + took)" using 0 by (intro assms(1)) simp
  with xs show ?case by (simp add: Let_def)
next
  case (Suc k)
  obtain y took overrun ys where xs: "xs = (y, took, overrun) # ys" using Suc.prems(2) by (cases xs) auto
  then obtain z zs where ys: "ys = z # zs" using Suc.prems(2) by (cases ys) auto
  obtain e where e: "b n = Some e" "d \<le> e" using assms(2) by blast
  have took: "0 \<le> took" using Suc.prems(3) xs by simp
  let ?next = "executeWithRetries m r b (n + 1) (now + took + (e + overrun)) ys"
  have "?next \<noteq> None"
  proof (cases "0 \<le> overrun")
    case True
    have "deadline \<le> now + took + (e + overrun) + int k * d" using Suc.prems(1) took True e(2) by (simp add: algebra_simps)
    moreover have "\<forall>i. Suc i < length ys \<longrightarrow> 0 \<le> snd (snd (ys ! i)) \<or> (\<forall>a t. \<not> r a (fst (ys ! Suc i)) t)"
      using Suc.prems(4) xs by (metis Suc_less_eq length_Cons nth_Cons_Suc)
    ultimately show ?thesis using Suc.prems(2,3) xs by (intro Suc.IH) auto
  next
    case False
    with Suc.prems(4) xs ys have "\<not> r a (fst z) t" for a t by (metis fst_conv length_Cons lessI less_Suc_eq_0_disj not_less_eq nth_Cons_0 nth_Cons_Suc snd_conv)
    then show ?thesis unfolding ys by (cases z) (simp add: Let_def)
  qed
  with xs e assms(3) show ?case by (simp add: Let_def)
qed

text \<open>C25: The delivery to one subscriber comes to an end. When every backoff delay is at least \<open>b > 0\<close> ms (the default one
  is), no attempt takes negative time and a sleep lasts at least its delay unless the signal is aborted by the next
  attempt, then \<open>maxEventDeliveryTimeMs div b + 2\<close> attempts always give a result. A subscriber is given up, and the
  failure reported with the number of attempts, only when the last of them failed and settled after the deadline. A
  configured backoff of 0 ms is outside the claim: it allows any number of attempts before the deadline.\<close>

theorem delivery_ends:
  assumes "0 \<le> maxMs" "0 < b" "\<And>k. 0 < k \<Longrightarrow> b \<le> backoff k" "length attempts = nat (maxMs div b) + 2"
    and "\<And>a. a \<in> set attempts \<Longrightarrow> 0 \<le> da_tookMs a"
    and "\<And>i. Suc i < length attempts \<Longrightarrow> 0 \<le> da_overrunMs (attempts ! i) \<or> da_aborted (attempts ! Suc i)"
  shows "\<exists>r. deliverToOne backoff start maxMs attempts = Some r
    \<and> (\<forall>e n. r = SkippedOne e n \<longrightarrow> 0 < n \<and> n \<le> length attempts \<and> da_outcome (attempts ! (n - 1)) = AttemptFailed e
          \<and> start + maxMs \<le> settles_at (\<lambda>attempt. Some (backoff (attempt + 1))) 0 start
              (map (\<lambda>a. ((da_outcome a, da_aborted a), da_tookMs a, da_overrunMs a)) attempts) (n - 1))"
proof -
  let ?retry = "\<lambda>_ (outcome, aborted) now. case outcome of AttemptFailed e \<Rightarrow> \<not> aborted \<and> now < start + maxMs | _ \<Rightarrow> False"
  let ?b = "\<lambda>attempt. Some (backoff (attempt + 1))"
  let ?xs = "map (\<lambda>a. ((da_outcome a, da_aborted a), da_tookMs a, da_overrunMs a)) attempts"
  let ?k = "nat (maxMs div b) + 1"
  have "0 \<le> maxMs div b" using assms(1,2) by (simp add: pos_imp_zdiv_nonneg_iff)
  moreover have "maxMs = maxMs div b * b + maxMs mod b" "maxMs mod b < b" using assms(2) by simp_all
  then have "maxMs < (1 + maxMs div b) * b" unfolding distrib_right by linarith
  ultimately have k: "start + maxMs \<le> start + int ?k * b" by simp
  have "executeWithRetries INFINITE_RETRIES ?retry ?b 0 start ?xs \<noteq> None"
  proof (rule retries_stop [OF _ _ assms(2) k])
    show "\<not> ?retry a x t" if "start + maxMs \<le> t" for a :: nat and x t
      using that by (cases x; cases "fst x") auto
    show "\<exists>e. ?b a = Some e \<and> b \<le> e" for a using assms(3) by simp
    show "?k < length ?xs" using assms(4) by simp
    show "\<forall>x \<in> set ?xs. 0 \<le> fst (snd x)" using assms(5) by auto
    show "\<forall>i. Suc i < length ?xs \<longrightarrow> 0 \<le> snd (snd (?xs ! i)) \<or> (\<forall>a t. \<not> ?retry (a :: nat) (fst (?xs ! Suc i)) t)"
      using assms(6) by (auto split: attempt_outcome.splits)
  qed
  then obtain x n t where x: "executeWithRetries INFINITE_RETRIES ?retry ?b 0 start ?xs = Some (x, n, t)" by auto
  obtain outcome aborted where xo: "x = (outcome, aborted)" by (cases x)
  note E = retries_end [OF x]
  have n: "0 < n" "n \<le> length attempts" using E by simp_all
  then have "n - Suc 0 < length attempts" by simp
  then have at: "da_outcome (attempts ! (n - 1)) = outcome" using E xo by simp
  have "start + maxMs \<le> t" if "outcome = AttemptFailed e" "\<not> aborted" for e
    using retries_declined [OF x] that xo by auto
  with x xo n at E show ?thesis
    by (auto simp: deliverToOne_def Let_def split: attempt_outcome.splits if_splits)
qed

lemma aborted_result:
  assumes "deliverToOne backoff start maxMs attempts = Some AbortedOne"
  shows "\<exists>a \<in> set attempts. da_aborted a"
proof -
  let ?xs = "map (\<lambda>a. ((da_outcome a, da_aborted a), da_tookMs a, da_overrunMs a)) attempts"
  obtain r b outcome n t where x: "executeWithRetries INFINITE_RETRIES r b 0 start ?xs = Some ((outcome, True), n, t)"
    using assms by (auto simp: deliverToOne_def Let_def split: option.splits attempt_outcome.splits if_splits)
  note E = retries_end [OF x]
  have lt: "n - 1 < length attempts" using E by auto
  with E have "da_aborted (attempts ! (n - 1))" by simp
  with lt show ?thesis using nth_mem by blast
qed

lemma deliverToAll_cases:
  "deliverToAll aborted results = ResolvedAll \<longleftrightarrow> \<not> aborted \<and> (\<forall>r \<in> set results. \<forall>t. r \<noteq> RethrownOne t)"
  "deliverToAll aborted results = RecoverableAll t \<Longrightarrow>
     \<not> aborted \<and> RethrownOne t \<in> set results \<and> (\<forall>t'. RethrownOne t' \<in> set results \<longrightarrow> t \<le> t')"
proof -
  let ?f = "\<lambda>earliest r. case r of RethrownOne token \<Rightarrow> (case earliest of None \<Rightarrow> Some token | Some t \<Rightarrow> if token < t then Some token else Some t)
              | _ \<Rightarrow> earliest"
  have none: "foldl ?f acc rs = None \<longleftrightarrow> acc = None \<and> (\<forall>r \<in> set rs. \<forall>t. r \<noteq> RethrownOne t)" for acc rs
    by (induction rs arbitrary: acc) (auto split: one_result.splits option.splits)
  have some: "foldl ?f acc rs = Some t \<Longrightarrow> (acc = Some t \<or> RethrownOne t \<in> set rs)
      \<and> (\<forall>t'. (acc = Some t' \<or> RethrownOne t' \<in> set rs) \<longrightarrow> t \<le> t')" for acc rs t
  proof (induction rs arbitrary: acc)
    case (Cons r rs)
    have ih: "?f acc r = Some t \<or> RethrownOne t \<in> set rs" "\<And>t'. ?f acc r = Some t' \<or> RethrownOne t' \<in> set rs \<Longrightarrow> t \<le> t'"
      using Cons.IH [of "?f acc r"] Cons.prems by auto
    show ?case
    proof (cases "\<exists>token. r = RethrownOne token")
      case False
      then have "?f acc r = acc" by (cases r) auto
      with ih False show ?thesis by auto
    next
      case True
      then obtain token where r: "r = RethrownOne token" by blast
      show ?thesis
      proof (cases acc)
        case None
        with ih r show ?thesis by auto
      next
        case (Some u)
        have f: "?f acc r = Some (min token u)" using r Some by (simp add: min_def)
        have "t \<le> min token u" by (rule ih(2)) (simp add: f)
        then have "t \<le> token" "t \<le> u" by simp_all
        with ih f r Some show ?thesis by (auto simp: min_def split: if_splits)
      qed
    qed
  qed simp
  show "deliverToAll aborted results = ResolvedAll \<longleftrightarrow> \<not> aborted \<and> (\<forall>r \<in> set results. \<forall>t. r \<noteq> RethrownOne t)"
    using none [of None results] by (auto simp: deliverToAll_def Let_def split: option.splits)
  show "deliverToAll aborted results = RecoverableAll t \<Longrightarrow>
     \<not> aborted \<and> RethrownOne t \<in> set results \<and> (\<forall>t'. RethrownOne t' \<in> set results \<longrightarrow> t \<le> t')"
    using some [of None results t] by (auto simp: deliverToAll_def Let_def split: if_splits option.splits)
qed

section \<open>What is covered\<close>

text \<open>For the content \<open>C\<close> of a queue whose cursor started at \<open>b\<close>, and the tokens \<open>H\<close> delivered since: everything up to a cursor
  was delivered; a list of entries to deliver leaves nothing out.\<close>

definition covered :: "'e queue_entry list \<Rightarrow> int \<Rightarrow> int set \<Rightarrow> int \<Rightarrow> bool" where
  "covered C b H c \<longleftrightarrow> 0 \<le> c \<and> (c \<le> b \<or> (\<exists>e \<in> set C. c \<le> qe_token e))
     \<and> (\<forall>e \<in> set C. qe_token e \<le> c \<longrightarrow> qe_token e \<in> H \<or> qe_token e \<le> b)"

fun gapfree :: "'e queue_entry list \<Rightarrow> int \<Rightarrow> int set \<Rightarrow> 'e queue_entry list \<Rightarrow> bool" where
  "gapfree C b H [] = True"
| "gapfree C b H (x # xs) \<longleftrightarrow> x \<in> set C \<and> 0 \<le> qe_token x
     \<and> (\<forall>e \<in> set C. qe_token e < qe_token x \<longrightarrow> qe_token e \<in> H \<or> qe_token e \<le> b) \<and> gapfree C b (insert (qe_token x) H) xs"

fun stage_ok :: "'e queue_entry list \<Rightarrow> int \<Rightarrow> int set \<Rightarrow> 'e pump_stage \<Rightarrow> bool" where
  "stage_ok C b H (PumpCursor r) = (case r of None \<Rightarrow> True | Some c \<Rightarrow> covered C b H c)"
| "stage_ok C b H (PumpRead r) = (case r of None \<Rightarrow> True | Some es \<Rightarrow> gapfree C b H es)"
| "stage_ok C b H (PumpDelivering e rest aborted) = gapfree C b H (e # rest)"
| "stage_ok C b H (PumpCommitting ok rest) = gapfree C b H rest"
| "stage_ok C b H (PumpSeeking ok) = True"

definition agent_ok :: "'e queue_entry list \<Rightarrow> int \<Rightarrow> int set \<Rightarrow> 'e pulling_agent \<Rightarrow> bool" where
  "agent_ok C b H a \<longleftrightarrow> (\<forall>c. ag_cursor a = Some c \<longrightarrow> covered C b H c) \<and> (\<forall>p. ag_pump a = Some p \<longrightarrow> stage_ok C b H p)"

lemma covered_mono: "covered C b H c \<Longrightarrow> H \<subseteq> H' \<Longrightarrow> covered C b H' c"
  by (auto simp: covered_def)

lemma gapfree_mono: "gapfree C b H es \<Longrightarrow> H \<subseteq> H' \<Longrightarrow> gapfree C b H' es"
proof (induction es arbitrary: H H')
  case (Cons e es)
  have "gapfree C b (insert (qe_token e) H) es" using Cons.prems(1) by simp
  then have "gapfree C b (insert (qe_token e) H') es" by (rule Cons.IH) (rule insert_mono [OF Cons.prems(2)])
  moreover have "\<forall>x \<in> set C. qe_token x < qe_token e \<longrightarrow> qe_token x \<in> H' \<or> qe_token x \<le> b" "e \<in> set C" "0 \<le> qe_token e"
    using Cons.prems(1) subsetD [OF Cons.prems(2)] unfolding gapfree.simps by blast+
  ultimately show ?case unfolding gapfree.simps by blast
qed simp

lemma stage_step:
  assumes "stage_ok C b H p" "\<And>c. covered C b H c \<Longrightarrow> covered C' b H' c" "\<And>es. gapfree C b H es \<Longrightarrow> gapfree C' b H' es"
  shows "stage_ok C' b H' p"
proof (cases p)
  case (PumpDelivering e rest aborted)
  then show ?thesis using assms(1) assms(3) [of "e # rest"] by simp
qed (use assms in \<open>simp_all split: option.splits\<close>)

lemma stage_mono: "stage_ok C b H p \<Longrightarrow> H \<subseteq> H' \<Longrightarrow> stage_ok C b H' p"
  by (erule stage_step) (blast intro: covered_mono gapfree_mono)+

lemma agent_mono: "agent_ok C b H a \<Longrightarrow> H \<subseteq> H' \<Longrightarrow> agent_ok C b H' a"
  by (auto simp: agent_ok_def intro: covered_mono stage_mono)

text \<open>New entries have larger tokens.\<close>

definition later :: "'e queue_entry list \<Rightarrow> 'e queue_entry list \<Rightarrow> bool" where
  "later C new \<longleftrightarrow> (\<forall>e \<in> set C. \<forall>n \<in> set new. qe_token e < qe_token n)"

lemma covered_grow: "covered C b H c \<Longrightarrow> later C new \<Longrightarrow> covered (C @ new) b H c"
  by (fastforce simp: covered_def later_def)

lemma gapfree_grow: "gapfree C b H es \<Longrightarrow> later C new \<Longrightarrow> gapfree (C @ new) b H es"
  by (induction es arbitrary: H) (fastforce simp: later_def)+

lemma agent_grow: "agent_ok C b H a \<Longrightarrow> later C new \<Longrightarrow> agent_ok (C @ new) b H a"
  unfolding agent_ok_def using stage_step [of C b H _ "C @ new" H] covered_grow [of C b H _ new] gapfree_grow [of C b H _ new] by blast

text \<open>Reading from a covered cursor leaves no gap.\<close>

lemma gapfree_read:
  assumes "covered C b H c" "sorted_wrt (<) (map qe_token C)"
  shows "gapfree C b H (take n (filter (\<lambda>e. c < qe_token e) C))"
proof -
  have sub: "gapfree C b H' (take n xs)"
    if "\<forall>x \<in> set xs. x \<in> set C \<and> 0 \<le> qe_token x" "sorted_wrt (<) (map qe_token xs)"
      "\<forall>e \<in> set C. (\<forall>x \<in> set xs. qe_token e < qe_token x) \<longrightarrow> qe_token e \<in> H' \<or> qe_token e \<le> b"
      "\<forall>e \<in> set C. e \<in> set xs \<or> (\<forall>x \<in> set xs. qe_token e < qe_token x)" for xs H' n
    using that
  proof (induction xs arbitrary: H' n)
    case (Cons x xs)
    show ?case
    proof (cases n)
      case (Suc m)
      have le: "\<forall>e \<in> set C. qe_token e < qe_token x \<longrightarrow> (\<forall>y \<in> set (x # xs). qe_token e < qe_token y)"
        using Cons.prems(2) by (force dest: less_trans)
      have "gapfree C b (insert (qe_token x) H') (take m xs)"
      proof (rule Cons.IH)
        show "\<forall>e \<in> set C. (\<forall>y \<in> set xs. qe_token e < qe_token y) \<longrightarrow> qe_token e \<in> insert (qe_token x) H' \<or> qe_token e \<le> b"
          using Cons.prems(2-4) by (metis insert_iff list.simps(15) order_less_irrefl)
        show "\<forall>e \<in> set C. e \<in> set xs \<or> (\<forall>y \<in> set xs. qe_token e < qe_token y)" using Cons.prems(2,4) by auto
      qed (use Cons.prems in auto)
      with Suc Cons.prems le show ?thesis by auto
    qed simp
  qed simp
  have s: "sorted_wrt (<) (map qe_token (filter (\<lambda>e. c < qe_token e) C))"
    using assms(2) by (induction C) auto
  show ?thesis
  proof (rule sub [OF _ s])
    show "\<forall>x \<in> set (filter (\<lambda>e. c < qe_token e) C). x \<in> set C \<and> 0 \<le> qe_token x" using assms(1) by (auto simp: covered_def)
    show "\<forall>e \<in> set C. e \<in> set (filter (\<lambda>e. c < qe_token e) C) \<or> (\<forall>x \<in> set (filter (\<lambda>e. c < qe_token e) C). qe_token e < qe_token x)"
      by auto
    show "\<forall>e \<in> set C. (\<forall>x \<in> set (filter (\<lambda>e. c < qe_token e) C). qe_token e < qe_token x) \<longrightarrow> qe_token e \<in> H \<or> qe_token e \<le> b"
      using assms(1) by (force simp: covered_def)
  qed
qed

text \<open>After the first entry of a list is delivered, the cursor may move to it; a checkpoint behind it is covered as well.\<close>

lemma covered_delivered: "gapfree C b H (e # es) \<Longrightarrow> sorted_wrt (<) (map qe_token C) \<Longrightarrow> covered C b (insert (qe_token e) H) (qe_token e)"
  by (auto simp: covered_def)

lemma covered_checkpoint: "gapfree C b H (e # es) \<Longrightarrow> 0 \<le> r \<Longrightarrow> r < qe_token e \<Longrightarrow> covered C b H r"
  unfolding covered_def by force

section \<open>Runs\<close>

text \<open>The tokens of queue \<open>i\<close> whose delivery was settled for every subscriber.\<close>

definition settled :: "one_result list \<Rightarrow> bool" where
  "settled results \<longleftrightarrow> (\<forall>r \<in> set results. r = DeliveredOne \<or> (\<exists>e n. r = SkippedOne e n))"

definition handled :: "nat \<Rightarrow> 'e stream_event list \<Rightarrow> int set" where
  "handled i hist = {t. \<exists>results. Handled i t results \<in> set hist \<and> settled results}"

lemma handled_append [simp]: "handled i (h @ h') = handled i h \<union> handled i h'"
  by (auto simp: handled_def)

lemma handled_simps [simp]:
  "handled i [] = {}" "handled i [PumpError j] = {}" "handled i [Deliver j e] = {}"
  "handled i [Handled j t rs] = (if i = j \<and> settled rs then {t} else {})"
  by (auto simp: handled_def)

text \<open>What the subscribers answer: each result is that of a delivery to one subscriber which saw an aborted signal only if
  the agent's signal is aborted, and a consumer asks to resume from a checkpoint before the event it failed on.\<close>

definition answers_ok :: "int \<Rightarrow> bool \<Rightarrow> one_result list \<Rightarrow> bool" where
  "answers_ok token aborted results \<longleftrightarrow>
     (\<forall>r \<in> set results. (\<exists>backoff start maxMs attempts. deliverToOne backoff start maxMs attempts = Some r \<and> (\<forall>a \<in> set attempts. da_aborted a \<longrightarrow> aborted))
        \<and> (\<forall>t. r = RethrownOne t \<longrightarrow> 0 \<le> t \<and> t < token))"

definition pump_answers_ok :: "'e pulling_agent \<Rightarrow> one_result list option \<Rightarrow> bool" where
  "pump_answers_ok a results \<longleftrightarrow>
     (\<forall>e rest aborted rs. ag_pump a = Some (PumpDelivering e rest aborted) \<and> results = Some rs \<longrightarrow> answers_ok (qe_token e) aborted rs)"

definition op_ok :: "('q, 'e) stream_world \<Rightarrow> stream_op \<Rightarrow> bool" where
  "op_ok w op \<longleftrightarrow> (\<forall>now x fate results. op = PumpResume now x fate results \<and> x < length (sw_agents w) \<longrightarrow>
     pump_answers_ok (sw_agents w ! x) results)"

inductive stream_run ::
  "('q, 'e) pullable_queue \<Rightarrow> ('q \<Rightarrow> 'e queue_entry list) \<Rightarrow> ('q, 'e) stream_world \<Rightarrow> ('q, 'e) stream_world \<Rightarrow> 'e stream_event list \<Rightarrow> bool"
  for Q content w0 where
  start: "sw_agents w0 = [] \<Longrightarrow> \<forall>v \<in> set (sw_providers w0). pv_agents v = [] \<Longrightarrow> \<forall>q \<in> set (sw_queues w0). 0 \<le> pq_getCursor Q q \<Longrightarrow>
    stream_run Q content w0 w0 []"
| step: "stream_run Q content w0 w hist \<Longrightarrow> op_ok w op \<Longrightarrow> stream_step Q op w = (w', evs) \<Longrightarrow> stream_run Q content w0 w' (hist @ evs)"
| append: "stream_run Q content w0 w hist \<Longrightarrow> i < length (sw_queues w) \<Longrightarrow> content q = content (sw_queues w ! i) @ new \<Longrightarrow>
    pq_getCursor Q q = pq_getCursor Q (sw_queues w ! i) \<Longrightarrow> stream_run Q content w0 (w\<lparr> sw_queues := (sw_queues w)[i := q] \<rparr>) hist"

lemma settled_answers:
  assumes "answers_ok token aborted rs" "deliverToAll aborted rs = ResolvedAll"
  shows "settled rs"
  unfolding settled_def
proof
  fix r assume r: "r \<in> set rs"
  have "\<not> aborted" "\<forall>t. r \<noteq> RethrownOne t" using assms(2) r by (auto simp: deliverToAll_cases(1))
  moreover have "r \<noteq> AbortedOne" using assms(1) r \<open>\<not> aborted\<close> aborted_result by (fastforce simp: answers_ok_def)
  ultimately show "r = DeliveredOne \<or> (\<exists>e n. r = SkippedOne e n)" by (cases r) auto
qed

section \<open>Providers and agents\<close>

text \<open>A property of agents that starting and stopping keep is kept by the operations of providers.\<close>

definition all_agents :: "('e pulling_agent \<Rightarrow> bool) \<Rightarrow> ('q, 'e) stream_world \<Rightarrow> bool" where
  "all_agents P w \<longleftrightarrow> (\<forall>a \<in> set (sw_agents w). P a)"

lemma all_on_agent: "all_agents P w \<Longrightarrow> (\<And>a. P a \<Longrightarrow> P (f a)) \<Longrightarrow> all_agents P (on_agent x f w)"
  by (cases "x < length (sw_agents w)")
     (auto simp: all_agents_def on_agent_def list_update_beyond dest!: subsetD [OF set_update_subset_insert])

lemma queues_frame [simp]:
  "sw_queues (on_agent x f w) = sw_queues w" "sw_queues (on_provider p g w) = sw_queues w"
  "sw_agents (on_provider p g w) = sw_agents w" "sw_providers (on_agent x f w) = sw_providers w"
  by (simp_all add: on_agent_def on_provider_def)

lemma all_on_provider [simp]: "all_agents P (on_provider p g w) = all_agents P w"
  by (simp add: all_agents_def)

lemma all_startAgents:
  fixes w :: "('q, 'e) stream_world"
  assumes "all_agents P w" "\<And>a. P a \<Longrightarrow> P (ag_stop a)" "\<And>now i ms. P (ag_start now (newAgent i ms))"
  shows "all_agents P (startAgentsFor now p is w)" "sw_queues (startAgentsFor now p is w) = sw_queues w"
proof -
  have drop: "all_agents P (foldl (dropAgent p wanted) w xs) \<and> sw_queues (foldl (dropAgent p wanted) w xs) = sw_queues w"
    if "all_agents P w" for w :: "('q, 'e) stream_world" and xs wanted using that
  proof (induction xs arbitrary: w)
    case (Cons x xs)
    have "all_agents P (dropAgent p wanted w x)" "sw_queues (dropAgent p wanted w x) = sw_queues w"
      using Cons.prems assms(2) by (auto simp: dropAgent_def all_on_agent split: prod.splits)
    with Cons.IH show ?case by simp
  qed simp
  have add: "all_agents P (foldl (addAgent now p) w is) \<and> sw_queues (foldl (addAgent now p) w is) = sw_queues w"
    if "all_agents P w" for w :: "('q, 'e) stream_world" and "is" using that
  proof (induction "is" arbitrary: w)
    case (Cons i js)
    have "all_agents P (addAgent now p w i)" "sw_queues (addAgent now p w i) = sw_queues w"
      using Cons.prems assms(3) by (auto simp: addAgent_def Let_def all_agents_def)
    with Cons.IH show ?case by simp
  qed simp
  show "all_agents P (startAgentsFor now p is w)" "sw_queues (startAgentsFor now p is w) = sw_queues w"
    using assms(1) drop add by (simp_all add: startAgentsFor_def Let_def)
qed

lemma all_sp_stop:
  fixes w :: "('q, 'e) stream_world"
  assumes "all_agents P w" "\<And>a. P a \<Longrightarrow> P (ag_stop a)"
  shows "all_agents P (sp_stop p w)" "sw_queues (sp_stop p w) = sw_queues w"
proof -
  have "all_agents P (foldl (\<lambda>w x. on_agent x ag_stop w) w xs) \<and> sw_queues (foldl (\<lambda>w x. on_agent x ag_stop w) w xs) = sw_queues w"
    if "all_agents P w" for w :: "('q, 'e) stream_world" and xs
    using that by (induction xs arbitrary: w) (simp_all add: all_on_agent assms(2))
  with assms(1) show "all_agents P (sp_stop p w)" "sw_queues (sp_stop p w) = sw_queues w" by (simp_all add: sp_stop_def)
qed

lemma all_step:
  assumes "all_agents P w" "\<And>a. P a \<Longrightarrow> P (ag_stop a)" "\<And>now i ms. P (ag_start now (newAgent i ms))" "\<And>a. P a \<Longrightarrow> P (resetCursor a)"
    and "\<And>now x fate. op \<noteq> PollTimer now x fate" "\<And>now x fate rs. op \<noteq> PumpResume now x fate rs"
  shows "all_agents P (fst (stream_step Q op w))" "sw_queues (fst (stream_step Q op w)) = sw_queues w" "snd (stream_step Q op w) = []"
  using assms(5,6)
  by (cases op; simp add: stream_step_def sp_refreshOwnership_def all_startAgents [OF assms(1-3)] all_sp_stop [OF assms(1,2)] all_on_agent [OF assms(1,4)] assms(1))+

section \<open>The contract of a queue\<close>

locale pullable =
  fixes Q :: "('q, 'e) pullable_queue" and content :: "'q \<Rightarrow> 'e queue_entry list"
  assumes read: "0 \<le> c \<Longrightarrow> content (fst (pq_readAfter Q c n q)) = content q \<and> pq_getCursor Q (fst (pq_readAfter Q c n q)) = pq_getCursor Q q
      \<and> snd (pq_readAfter Q c n q) = take (nat n) (filter (\<lambda>e. c < qe_token e) (content q))"
    and commit: "content (pq_commit Q c q) = content q \<and> (pq_getCursor Q (pq_commit Q c q) = c \<or> pq_getCursor Q (pq_commit Q c q) = pq_getCursor Q q)"
    and seek: "content (pq_seek Q c q) = content q \<and> pq_getCursor Q (pq_seek Q c q) = c"
    and ordered: "sorted_wrt (<) (map qe_token (content q))"
begin

text \<open>A step of an agent on its queue keeps the queue's content, covers what it commits, and emits only settled deliveries.\<close>

definition agent_step :: "int \<Rightarrow> int set \<Rightarrow> 'q \<times> 'e pulling_agent \<Rightarrow> ('q \<times> 'e pulling_agent) \<times> 'e stream_event list \<Rightarrow> bool" where
  "agent_step b H = (\<lambda>(q, a) ((q', a'), evs). content q' = content q \<and> ag_queue a' = ag_queue a
     \<and> (\<forall>i. i \<noteq> ag_queue a \<longrightarrow> handled i evs = {})
     \<and> covered (content q) b (H \<union> handled (ag_queue a) evs) (pq_getCursor Q q')
     \<and> agent_ok (content q) b (H \<union> handled (ag_queue a) evs) a')"

lemma end_ok: "agent_ok C b H a \<Longrightarrow> agent_ok C b H (pump_end now a)" "ag_queue (pump_end now a) = ag_queue a"
  by (simp_all add: agent_ok_def pump_end_def ag_schedule_def Let_def)

lemma read_step:
  assumes "covered (content q) b H (pq_getCursor Q q)" "covered (content q) b H c" "agent_ok (content q) b H a"
  shows "agent_step b H (q, a) (pump_read Q fate c (q, a), [])"
proof -
  have "0 \<le> c" using assms(2) by (simp add: covered_def)
  note r = read [OF this, of "ag_batchSize a" q]
  have "gapfree (content q) b H (snd (pq_readAfter Q c (ag_batchSize a) q))" using r gapfree_read [OF assms(2) ordered] by simp
  with r assms show ?thesis by (auto simp: agent_step_def pump_read_def queue_call_def agent_ok_def)
qed

lemma next_step:
  assumes "covered (content q) b H (pq_getCursor Q q)" "gapfree (content q) b H es" "agent_ok (content q) b H a"
  shows "agent_step b H (q, a) (case pump_next now es a of (a', evs) \<Rightarrow> ((q, a'), evs))"
  using assms end_ok(1) [OF assms(3)] by (auto simp: agent_step_def pump_next_def end_ok(2) agent_ok_def split: list.splits)

lemma start_step:
  assumes "covered (content q) b H (pq_getCursor Q q)" "agent_ok (content q) b H a"
  shows "agent_step b H (q, a) (pump_start Q now fate (q, a), [])"
proof -
  have idle: "agent_step b H (q, a) ((q, a'), [])" if "ag_cursor a' = ag_cursor a" "ag_pump a' = ag_pump a" "ag_queue a' = ag_queue a" for a'
    using assms that by (simp add: agent_step_def agent_ok_def)
  let ?a = "a\<lparr> ag_timer := None, ag_pumping := True \<rparr>"
  have a: "agent_ok (content q) b H ?a" using assms(2) by (simp add: agent_ok_def)
  have "agent_step b H (q, a) (pump_read Q fate c (q, ?a), [])" if "ag_cursor a = Some c" for c
    using read_step [OF assms(1) _ a, of c] assms(2) that by (simp add: agent_ok_def agent_step_def)
  with idle assms show ?thesis by (auto simp: pump_start_def Let_def split: option.splits) (simp add: agent_step_def agent_ok_def)+
qed

lemma delivered_step:
  assumes "covered (content q) b H (pq_getCursor Q q)" "agent_ok (content q) b H a" "ag_pump a = Some (PumpDelivering e rest aborted)"
    and "pump_answers_ok a results"
  shows "agent_step b H (q, a) (pump_delivered Q now fate e rest aborted results (q, a))"
proof -
  have gap: "gapfree (content q) b H (e # rest)" using assms(2,3) by (simp add: agent_ok_def)
  have ended: "agent_step b H (q, a) ((q, pump_end now a), [])" "agent_step b H (q, a) ((q, pump_end now a), [PumpError j])" for j
    using assms(1) end_ok(1) [OF assms(2)] by (simp_all add: agent_step_def end_ok(2))
  have answers: "answers_ok (qe_token e) aborted rs" if "results = Some rs" for rs using assms(3,4) that by (simp add: pump_answers_ok_def)
  consider (resolved) rs where "results = Some rs" "deliverToAll aborted rs = ResolvedAll"
    | (recover) rs t where "results = Some rs" "deliverToAll aborted rs = RecoverableAll t"
    | (failed) "\<forall>rs. results = Some rs \<longrightarrow> deliverToAll aborted rs = AbortedAll"
    by (cases results; cases "deliverToAll aborted (the results)") simp_all
  then show ?thesis
  proof cases
    case resolved
    have settled: "settled rs" using settled_answers [OF answers resolved(2)] resolved(1) by simp
    have "covered (content q) b (insert (qe_token e) H) (qe_token e)" by (rule covered_delivered [OF gap ordered])
    moreover have "covered (content q) b (insert (qe_token e) H) (pq_getCursor Q q)" by (rule covered_mono [OF assms(1)]) blast
    moreover have "gapfree (content q) b (insert (qe_token e) H) rest" using gap by simp
    moreover define q' where "q' = queue_call fate (pq_commit Q (qe_token e)) q"
    moreover have "content q' = content q" "pq_getCursor Q q' = qe_token e \<or> pq_getCursor Q q' = pq_getCursor Q q"
      using commit [of "qe_token e" q] by (auto simp: q'_def queue_call_def)
    moreover have "pump_delivered Q now fate e rest aborted results (q, a) =
      ((q', a\<lparr> ag_cursor := Some (qe_token e), ag_pump := Some (PumpCommitting (fate = Applied) rest) \<rparr>), [Handled (ag_queue a) (qe_token e) rs])"
      using resolved by (simp add: pump_delivered_def q'_def)
    ultimately show ?thesis using settled by (auto simp: agent_step_def agent_ok_def)
  next
    case recover
    have "RethrownOne t \<in> set rs" using deliverToAll_cases(2) [OF recover(2)] by blast
    then have "0 \<le> t" "t < qe_token e" using answers [OF recover(1)] by (auto simp: answers_ok_def)
    then have "covered (content q) b H t" by (rule covered_checkpoint [OF gap])
    moreover define q' where "q' = queue_call fate (pq_seek Q t) q"
    moreover have "content q' = content q" "pq_getCursor Q q' = t \<or> pq_getCursor Q q' = pq_getCursor Q q"
      using seek [of t q] by (auto simp: q'_def queue_call_def)
    moreover have "pump_delivered Q now fate e rest aborted results (q, a) =
      (if ag_running a then ((q', a\<lparr> ag_pump := Some (PumpSeeking (fate = Applied)) \<rparr>), []) else ((q, pump_end now a), []))"
      using recover by (simp add: pump_delivered_def q'_def)
    ultimately show ?thesis using ended(1) assms(1,2) by (auto simp: agent_step_def agent_ok_def)
  next
    case failed
    with ended show ?thesis by (cases results) (auto simp: pump_delivered_def)
  qed
qed

lemma resume_step:
  assumes "covered (content q) b H (pq_getCursor Q q)" "agent_ok (content q) b H a" "pump_answers_ok a results"
  shows "agent_step b H (q, a) (pump_resume Q now fate results (q, a))"
proof (cases "ag_pump a")
  case None
  with assms show ?thesis by (simp add: pump_resume_def agent_step_def)
next
  case (Some p)
  then have p: "stage_ok (content q) b H p" using assms(2) by (simp add: agent_ok_def)
  have reset: "agent_ok (content q) b H (resetCursor a)" using assms(2) by (simp add: agent_ok_def resetCursor_def)
  have ended: "agent_step b H (q, a) ((q, pump_end now a), [PumpError j])" "agent_step b H (q, a) ((q, pump_end now (resetCursor a)), [])" for j
    using assms(1) end_ok(1) [OF assms(2)] end_ok(1) [OF reset] by (simp_all add: agent_step_def end_ok(2)) (simp add: resetCursor_def)
  have cursor: "agent_step b H (q, a) (pump_read Q fate c (q, a\<lparr> ag_cursor := Some c \<rparr>), [])" if "covered (content q) b H c" for c
    using read_step [OF assms(1) that, of "a\<lparr> ag_cursor := Some c \<rparr>" fate] assms(2) that by (simp add: agent_ok_def agent_step_def)
  show ?thesis
  proof (cases p)
    case (PumpDelivering e rest aborted)
    with Some delivered_step [OF assms(1,2) _ assms(3), of e rest aborted] show ?thesis by (simp add: pump_resume_def)
  qed (use Some p ended cursor next_step [OF assms(1) _ assms(2)] in \<open>simp_all add: pump_resume_def split: option.splits\<close>)
qed

text \<open>The state of all queues and agents.\<close>

definition streams_ok :: "('q, 'e) stream_world \<Rightarrow> 'e stream_event list \<Rightarrow> ('q, 'e) stream_world \<Rightarrow> bool" where
  "streams_ok w0 hist w \<longleftrightarrow> length (sw_queues w) = length (sw_queues w0)
     \<and> (\<forall>i < length (sw_queues w). covered (content (sw_queues w ! i)) (pq_getCursor Q (sw_queues w0 ! i)) (handled i hist) (pq_getCursor Q (sw_queues w ! i)))
     \<and> (\<forall>a \<in> set (sw_agents w). ag_queue a < length (sw_queues w) \<longrightarrow>
          agent_ok (content (sw_queues w ! ag_queue a)) (pq_getCursor Q (sw_queues w0 ! ag_queue a)) (handled (ag_queue a) hist) a)"

lemma on_queue_agent_ok:
  assumes "streams_ok w0 hist w"
    and f: "\<And>b H q a. q = sw_queues w ! ag_queue (sw_agents w ! x) \<Longrightarrow> a = sw_agents w ! x \<Longrightarrow> x < length (sw_agents w) \<Longrightarrow>
       covered (content q) b H (pq_getCursor Q q) \<Longrightarrow> agent_ok (content q) b H a \<Longrightarrow> agent_step b H (q, a) (f (q, a))"
    and "on_queue_agent x f w = (w', evs)"
  shows "streams_ok w0 (hist @ evs) w'"
proof (cases "x < length (sw_agents w) \<and> ag_queue (sw_agents w ! x) < length (sw_queues w)")
  case False
  with assms(1,3) show ?thesis by (auto simp: on_queue_agent_def)
next
  case True
  define a where "a = sw_agents w ! x"
  define i where "i = ag_queue a"
  define q where "q = sw_queues w ! i"
  define b where "b = pq_getCursor Q (sw_queues w0 ! i)"
  have x: "x < length (sw_agents w)" "i < length (sw_queues w)" using True by (simp_all add: a_def i_def)
  obtain q' a' where qa: "f (q, a) = ((q', a'), evs)" and w': "sw_queues w' = (sw_queues w)[i := q']" "sw_agents w' = (sw_agents w)[x := a']"
  proof (cases "f (q, a)")
    case (Pair qa evs')
    obtain q' a' where "qa = (q', a')" by (cases qa)
    with Pair assms(3) x that [of q' a'] show ?thesis by (auto simp: on_queue_agent_def a_def i_def q_def)
  qed
  have ok: "covered (content q) b (handled i hist) (pq_getCursor Q q)" "agent_ok (content q) b (handled i hist) a"
    using assms(1) x unfolding streams_ok_def q_def b_def i_def a_def by simp_all
  have "agent_step b (handled i hist) (q, a) (f (q, a))"
    by (rule f [OF _ _ x(1) ok]) (simp_all add: q_def i_def a_def)
  then have st: "content q' = content q" "ag_queue a' = i" "\<And>j. j \<noteq> i \<Longrightarrow> handled j evs = {}"
    "covered (content q) b (handled i (hist @ evs)) (pq_getCursor Q q')" "agent_ok (content q) b (handled i (hist @ evs)) a'"
    unfolding qa agent_step_def by (simp_all add: i_def)
  have content: "content (sw_queues w' ! j) = content (sw_queues w ! j)" for j
    using st(1) x(2) by (cases "j = i") (simp_all add: w' q_def)
  have cursors: "covered (content (sw_queues w' ! j)) (pq_getCursor Q (sw_queues w0 ! j)) (handled j (hist @ evs)) (pq_getCursor Q (sw_queues w' ! j))"
    if "j < length (sw_queues w)" for j
  proof (cases "j = i")
    case True
    with st(4) x(2) st(1) show ?thesis by (simp add: w' b_def)
  next
    case False
    with assms(1) that st(3) [OF False] show ?thesis by (simp add: streams_ok_def w')
  qed
  have agents: "agent_ok (content (sw_queues w' ! ag_queue c)) (pq_getCursor Q (sw_queues w0 ! ag_queue c)) (handled (ag_queue c) (hist @ evs)) c"
    if "c \<in> set (sw_agents w')" "ag_queue c < length (sw_queues w)" for c
  proof (cases "c = a'")
    case True
    with st(2,5) show ?thesis by (simp add: content b_def q_def)
  next
    case False
    have "c \<in> set (sw_agents w)" using that(1) False subsetD [OF set_update_subset_insert, of c "sw_agents w" x a'] by (simp add: w')
    then have "agent_ok (content (sw_queues w ! ag_queue c)) (pq_getCursor Q (sw_queues w0 ! ag_queue c)) (handled (ag_queue c) hist) c"
      using assms(1) that(2) by (simp add: streams_ok_def)
    then show ?thesis unfolding content by (rule agent_mono) simp
  qed
  show ?thesis using assms(1) cursors agents by (simp add: streams_ok_def w'(1))
qed

lemma streams_ok_step:
  assumes "streams_ok w0 hist w" "op_ok w op" "stream_step Q op w = (w', evs)"
  shows "streams_ok w0 (hist @ evs) w'"
proof -
  consider (timer) now x fate where "op = PollTimer now x fate" | (resume) now x fate rs where "op = PumpResume now x fate rs"
    | (other) "\<And>now x fate. op \<noteq> PollTimer now x fate" "\<And>now x fate rs. op \<noteq> PumpResume now x fate rs" by (cases op) auto
  then show ?thesis
  proof cases
    case timer
    show ?thesis
      by (rule on_queue_agent_ok [OF assms(1)]) (use assms(3) timer start_step in \<open>auto simp: stream_step_def\<close>)
  next
    case resume
    have "pump_answers_ok (sw_agents w ! x) rs" if "x < length (sw_agents w)" using assms(2) resume that by (auto simp: op_ok_def)
    with assms(3) resume resume_step show ?thesis
      by (intro on_queue_agent_ok [OF assms(1), of x "pump_resume Q now fate rs"]) (auto simp: stream_step_def)
  next
    case other
    let ?P = "\<lambda>a. ag_queue a < length (sw_queues w) \<longrightarrow>
      agent_ok (content (sw_queues w ! ag_queue a)) (pq_getCursor Q (sw_queues w0 ! ag_queue a)) (handled (ag_queue a) hist) a"
    have P: "all_agents ?P w" using assms(1) by (simp add: streams_ok_def all_agents_def)
    have stop: "?P a \<Longrightarrow> ?P (ag_stop a)" for a
      by (auto simp: agent_ok_def ag_stop_def split: option.splits pump_stage.splits)
    have new: "?P (ag_start now (newAgent i ms))" "?P a \<Longrightarrow> ?P (resetCursor a)" for now i ms a
      by (simp_all add: agent_ok_def ag_start_def ag_schedule_def newAgent_def resetCursor_def)
    from all_step [where P = ?P, OF P stop new other, of Q] assms(1,3) show ?thesis by (simp add: streams_ok_def all_agents_def)
  qed
qed

lemma streams_ok_run:
  assumes "stream_run Q content w0 w hist"
  shows "streams_ok w0 hist w"
  using assms
proof (induction rule: stream_run.induct)
  case start
  then show ?case by (auto simp: streams_ok_def covered_def)
next
  case (step w hist op w' evs)
  then show ?case by (blast intro: streams_ok_step)
next
  case (append w hist i q new)
  have "sorted_wrt (<) (map qe_token (content q))" by (rule ordered)
  then have later: "later (content (sw_queues w ! i)) new" by (auto simp: append.hyps(3) sorted_wrt_append later_def)
  have c: "content ((sw_queues w)[i := q] ! j) = (if j = i then content (sw_queues w ! i) @ new else content (sw_queues w ! j))"
    "pq_getCursor Q ((sw_queues w)[i := q] ! j) = pq_getCursor Q (sw_queues w ! j)" for j
    using append.hyps by (simp_all add: nth_list_update)
  from append.IH later show ?case
    by (auto simp: streams_ok_def c intro: covered_grow agent_grow)
qed

end

text \<open>C19: At-least-once delivery: whatever the interleaving of the agents of all silos over the queues, of stops, handovers,
  failed queue calls, rewinds and appended events, every event at or below a queue's committed cursor, from where
  the cursor started, has been delivered to each of its subscribers or was reported undeliverable for that
  subscriber.\<close>

theorem stream_at_least_once:
  assumes "pullable Q content" "stream_run Q content w0 w hist" "i < length (sw_queues w)" "e \<in> set (content (sw_queues w ! i))"
    and "pq_getCursor Q (sw_queues w0 ! i) < qe_token e" "qe_token e \<le> pq_getCursor Q (sw_queues w ! i)"
  shows "\<exists>results. Handled i (qe_token e) results \<in> set hist \<and> (\<forall>r \<in> set results. r = DeliveredOne \<or> (\<exists>err n. r = SkippedOne err n))"
proof -
  have "pullable.streams_ok Q content w0 hist w" by (rule pullable.streams_ok_run [OF assms(1,2)])
  with assms(3-6) have "qe_token e \<in> handled i hist" by (force simp: pullable.streams_ok_def [OF assms(1)] covered_def)
  then show ?thesis by (auto simp: handled_def settled_def)
qed

section \<open>The generated queue\<close>

definition gq_content :: "generator_queue \<Rightarrow> generated_event queue_entry list" where
  "gq_content q = map (gq_entry q) [1..gc_eventsInStream (gq_config q)]"

lemma take_upto: "take n [i..j] = [i..min (i + int n - 1) j]"
proof (rule nth_equalityI)
  show "length (take n [i..j]) = length [i..min (i + int n - 1) j]" by (cases "i + int n - 1 \<le> j") (auto simp: min_def nat_le_iff)
next
  fix k assume "k < length (take n [i..j])"
  then have "i + int k \<le> j" "int k < int n" by auto
  then show "take n [i..j] ! k = [i..min (i + int n - 1) j] ! k" by (simp add: nth_upto)
qed

lemma gq_mint_simps [simp]:
  "gq_config (gq_mint q) = gq_config q" "gq_committed (gq_mint q) = gq_committed q" "gq_mint (gq_mint q) = gq_mint q"
  by (simp_all add: gq_mint_def split: option.splits)

lemma gq_entry_frame [simp]: "gq_entry (gq_mint q) = gq_entry q" "gq_entry (q\<lparr> gq_committed := c \<rparr>) = gq_entry q"
  by (simp_all add: gq_entry_def fun_eq_iff) (simp add: gq_mint_def split: option.splits)

lemma filter_upto: "0 \<le> c \<Longrightarrow> filter (\<lambda>t. c < t) [1..j] = [c + 1..j]"
proof (cases "c < j")
  case True
  assume c: "0 \<le> c"
  have "[1..j] = [1..c] @ [c + 1..j]" using upto_split1 [of 1 "c + 1" j] c True by simp
  then show ?thesis using c by (simp add: filter_empty_conv)
qed (simp add: filter_empty_conv)

interpretation generated: pullable generatorQueue gq_content
proof
  fix c n :: int and q :: generator_queue
  show "0 \<le> c \<Longrightarrow> gq_content (fst (pq_readAfter generatorQueue c n q)) = gq_content q
    \<and> pq_getCursor generatorQueue (fst (pq_readAfter generatorQueue c n q)) = pq_getCursor generatorQueue q
    \<and> snd (pq_readAfter generatorQueue c n q) = take (nat n) (filter (\<lambda>e. c < qe_token e) (gq_content q))"
  proof -
    assume c: "0 \<le> c"
    have token: "qe_token (gq_entry q t) = t" for t by (simp add: gq_entry_def)
    have "filter (\<lambda>e. c < qe_token e) (gq_content q) = map (gq_entry q) [c + 1..gc_eventsInStream (gq_config q)]"
      using filter_upto [OF c] by (simp add: gq_content_def filter_map o_def token)
    moreover have "min (c + 1 + int (nat n) - 1) j = min (c + n) j \<or> n < 0" for j by auto
    ultimately show ?thesis
      by (cases "n < 0") (auto simp: generatorQueue_def gq_readAfter_def Let_def gq_content_def take_map take_upto)
  qed
  show "gq_content (pq_commit generatorQueue c q) = gq_content q \<and>
    (pq_getCursor generatorQueue (pq_commit generatorQueue c q) = c \<or> pq_getCursor generatorQueue (pq_commit generatorQueue c q) = pq_getCursor generatorQueue q)"
    "gq_content (pq_seek generatorQueue c q) = gq_content q \<and> pq_getCursor generatorQueue (pq_seek generatorQueue c q) = c"
    by (simp_all add: generatorQueue_def gq_content_def)
  show "sorted_wrt (<) (map qe_token (gq_content q))"
    by (simp add: gq_content_def o_def gq_entry_def)
qed

text \<open>The in-memory cursor store never moves back on a commit.\<close>

lemma commit_monotone:
  "cs_getCursor p i (cs_commit p i c s) = max c (cs_getCursor p i s)"
  "(p', i') \<noteq> (p, i) \<Longrightarrow> cs_key p' i' \<noteq> cs_key p i \<Longrightarrow> cs_getCursor p' i' (cs_commit p i c s) = cs_getCursor p' i' s"
  by (auto simp: cs_commit_def cs_getCursor_def js_get_set max_def split: option.splits)

section \<open>The poll loop\<close>

definition alive :: "'e pulling_agent \<Rightarrow> bool" where
  "alive a \<longleftrightarrow> (ag_pumping a \<longleftrightarrow> ag_pump a \<noteq> None) \<and> (ag_running a \<longrightarrow> ag_timer a \<noteq> None \<or> ag_pump a \<noteq> None)"

lemma alive_end: "alive (pump_end now a)"
  by (simp add: alive_def pump_end_def ag_schedule_def Let_def)

lemma alive_pump:
  assumes "alive a"
  shows "alive (snd (pump_start Q now fate (q, a)))" "alive (snd (fst (pump_resume Q now fate results (q, a))))"
proof -
  show "alive (snd (pump_start Q now fate (q, a)))"
    using assms by (auto simp: pump_start_def pump_read_def alive_def Let_def split: option.splits)
  have next_alive: "alive (fst (pump_next now es a))" if "ag_pump a \<noteq> None" for es
    using assms that alive_end by (auto simp: pump_next_def alive_def split: list.splits)
  have delivered: "alive (snd (fst (pump_delivered Q now fate e rest aborted results (q, a))))" if "ag_pump a \<noteq> None" for e rest aborted
    using assms that alive_end by (auto simp: pump_delivered_def alive_def split: option.splits all_result.splits)
  show "alive (snd (fst (pump_resume Q now fate results (q, a))))"
    using assms alive_end next_alive delivered
    by (auto simp: pump_resume_def case_prod_unfold pump_read_def split: option.splits pump_stage.splits) (simp_all add: alive_def)
qed

lemma alive_step:
  assumes "all_agents alive w"
  shows "all_agents alive (fst (stream_step Q op w))"
proof -
  have on: "all_agents alive (fst (on_queue_agent x f w))" if "\<And>q a. alive a \<Longrightarrow> alive (snd (fst (f (q, a))))" for x f
    using assms that unfolding on_queue_agent_def Let_def
    by (auto simp: all_agents_def case_prod_unfold dest!: subsetD [OF set_update_subset_insert])
  have stop: "alive a \<Longrightarrow> alive (ag_stop a)" "alive (ag_start now (newAgent i ms))" "alive a \<Longrightarrow> alive (resetCursor a)" for a now i ms
    by (auto simp: alive_def ag_stop_def ag_start_def ag_schedule_def newAgent_def resetCursor_def split: option.splits pump_stage.splits)
  consider (timer) now x fate where "op = PollTimer now x fate" | (resume) now x fate rs where "op = PumpResume now x fate rs"
    | (other) "\<And>now x fate. op \<noteq> PollTimer now x fate" "\<And>now x fate rs. op \<noteq> PumpResume now x fate rs" by (cases op) auto
  then show ?thesis
  proof cases
    case other
    show ?thesis by (rule all_step(1) [OF assms stop other])
  qed (simp_all add: stream_step_def on alive_pump)
qed

text \<open>C23: The poll loop of an agent never dies: in every run, with failing reads, commits and deliveries, an agent that runs
  has its poll timer armed or a pump in flight.\<close>

theorem poll_loop_alive:
  assumes "stream_run Q content w0 w hist" "a \<in> set (sw_agents w)" "ag_running a"
  shows "ag_timer a \<noteq> None \<or> ag_pump a \<noteq> None"
proof -
  from assms(1) have "all_agents alive w"
  proof (induction rule: stream_run.induct)
    case (step w hist op w' evs)
    then show ?case using alive_step [of w Q op] by simp
  qed (simp_all add: all_agents_def)
  with assms(2,3) show ?thesis by (auto simp: all_agents_def alive_def)
qed

end
