(* ===== verification/Stream_Ownership.thy ===== *)
theory Stream_Ownership
  imports Pulling_Streams_Safety
begin

text \<open>
  Which agents pull which queues. An agent runs exactly while the provider that started it keeps it; once the providers
  of all silos have taken over the arcs of one ring, every queue is pulled by exactly one agent of the cluster. The last
  section has concrete runs.
\<close>

section \<open>Agents and their providers\<close>

abbreviation held :: "('q, 'e) stream_world \<Rightarrow> nat \<Rightarrow> nat \<Rightarrow> nat option" where
  "held w p \<equiv> map_of (pv_agents (sw_providers w ! p))"

definition providers_ok :: "('q, 'e) stream_world \<Rightarrow> bool" where
  "providers_ok w \<longleftrightarrow>
     (\<forall>p < length (sw_providers w). \<forall>i x. held w p i = Some x \<longrightarrow>
        x < length (sw_agents w) \<and> ag_queue (sw_agents w ! x) = i \<and> ag_running (sw_agents w ! x)
        \<and> (\<forall>p' < length (sw_providers w). \<forall>i'. held w p' i' = Some x \<longrightarrow> p' = p))
   \<and> (\<forall>p < length (sw_providers w). js_wf (pv_agents (sw_providers w ! p)))
   \<and> (\<forall>x < length (sw_agents w). ag_running (sw_agents w ! x) \<longrightarrow> (\<exists>p < length (sw_providers w). \<exists>i. held w p i = Some x))"

lemma held_on_provider:
  "p < length (sw_providers w) \<Longrightarrow> held (on_provider p g w) p' = (if p' = p then map_of (pv_agents (g (sw_providers w ! p))) else held w p')"
  by (simp add: on_provider_def nth_list_update)

lemma providers_length [simp]: "length (sw_providers (on_provider p g w)) = length (sw_providers w)"
  by (simp add: on_provider_def)

lemma providers_frame:
  assumes "providers_ok w" "sw_providers w' = sw_providers w" "length (sw_agents w') = length (sw_agents w)"
    "\<And>x. x < length (sw_agents w) \<Longrightarrow> ag_queue (sw_agents w' ! x) = ag_queue (sw_agents w ! x) \<and> ag_running (sw_agents w' ! x) = ag_running (sw_agents w ! x)"
  shows "providers_ok w'"
  using assms by (simp add: providers_ok_def)

lemma held_agent:
  assumes "providers_ok w" "p < length (sw_providers w)" "held w p i = Some x"
  shows "x < length (sw_agents w)" "ag_queue (sw_agents w ! x) = i" "ag_running (sw_agents w ! x)"
    "p' < length (sw_providers w) \<Longrightarrow> held w p' i' = Some x \<Longrightarrow> p' = p"
  using assms unfolding providers_ok_def by blast+

lemma running_held:
  assumes "providers_ok w" "x < length (sw_agents w)" "ag_running (sw_agents w ! x)"
  obtains p i where "p < length (sw_providers w)" "held w p i = Some x"
  using assms unfolding providers_ok_def by blast

text \<open>An agent is let go and stopped.\<close>

lemma providers_drop:
  assumes "providers_ok w" "p < length (sw_providers w)" "held w p i = Some x"
  shows "providers_ok (on_provider p (\<lambda>v. v\<lparr> pv_agents := js_delete i (pv_agents v) \<rparr>) (on_agent x ag_stop w))"
proof -
  let ?w = "on_provider p (\<lambda>v. v\<lparr> pv_agents := js_delete i (pv_agents v) \<rparr>) (on_agent x ag_stop w)"
  have x: "x < length (sw_agents w)" "ag_queue (sw_agents w ! x) = i" by (rule held_agent [OF assms])+
  have other: "p' = p \<and> i' = i" if "p' < length (sw_providers w)" "held w p' i' = Some x" for p' i'
    using held_agent(4) [OF assms that] held_agent(2) [OF assms(1) that] x(2) by simp
  have held: "held ?w p' i' = (if p' = p \<and> i' = i then None else held w p' i')" for p' i'
    using assms(2) by (auto simp: held_on_provider js_get_delete)
  have agents: "sw_agents ?w ! y = (if y = x then ag_stop (sw_agents w ! x) else sw_agents w ! y)" "length (sw_agents ?w) = length (sw_agents w)" for y
    using x(1) by (simp_all add: on_agent_def)
  have wf: "js_wf (pv_agents (sw_providers ?w ! p'))" if "p' < length (sw_providers w)" for p'
    using assms(1,2) that by (cases "p' = p") (simp_all add: providers_ok_def on_provider_def)
  show ?thesis
    unfolding providers_ok_def held
  proof (intro conjI allI impI)
    fix p' i' y
    assume p': "p' < length (sw_providers ?w)" and h: "(if p' = p \<and> i' = i then None else held w p' i') = Some y"
    then have y: "held w p' i' = Some y" "p' < length (sw_providers w)" "y \<noteq> x" using other [of p' i'] by (auto split: if_splits)
    show "y < length (sw_agents ?w)" "ag_queue (sw_agents ?w ! y) = i'" "ag_running (sw_agents ?w ! y)"
      using held_agent(1-3) [OF assms(1) y(2,1)] y(3) x(1) by (simp_all add: on_agent_def)
    fix p2 i2 assume "p2 < length (sw_providers ?w)" "(if p2 = p \<and> i2 = i then None else held w p2 i2) = Some y"
    then show "p2 = p'" using held_agent(4) [OF assms(1) y(2,1), of p2 i2] by (simp split: if_splits)
  next
    fix y assume y: "y < length (sw_agents ?w)" "ag_running (sw_agents ?w ! y)"
    then have "y \<noteq> x" "y < length (sw_agents w)" "ag_running (sw_agents w ! y)" using x(1) by (auto simp: on_agent_def ag_stop_def nth_list_update split: if_splits)
    then obtain p' i' where "p' < length (sw_providers w)" "held w p' i' = Some y" using running_held [OF assms(1)] by blast
    then show "\<exists>p' < length (sw_providers ?w). \<exists>i'. (if p' = p \<and> i' = i then None else held w p' i') = Some y"
      using \<open>y \<noteq> x\<close> assms(3) by (intro exI [of _ p'] conjI exI [of _ i']) auto
  qed (use wf in simp_all)
qed

lemma providers_add:
  assumes "providers_ok w" "p < length (sw_providers w)" "held w p i = None" "ag_queue a = i" "ag_running a"
  shows "providers_ok (on_provider p (\<lambda>v. v\<lparr> pv_agents := js_set i (length (sw_agents w)) (pv_agents v) \<rparr>) (w\<lparr> sw_agents := sw_agents w @ [a] \<rparr>))"
proof -
  let ?w = "on_provider p (\<lambda>v. v\<lparr> pv_agents := js_set i (length (sw_agents w)) (pv_agents v) \<rparr>) (w\<lparr> sw_agents := sw_agents w @ [a] \<rparr>)"
  have held: "held ?w p' i' = (if p' = p \<and> i' = i then Some (length (sw_agents w)) else held w p' i')" for p' i'
    using assms(2) by (auto simp: held_on_provider js_get_set)
  have agents: "sw_agents ?w = sw_agents w @ [a]" by simp
  have wf: "js_wf (pv_agents (sw_providers ?w ! p'))" if "p' < length (sw_providers w)" for p'
    using assms(1,2) that by (cases "p' = p") (simp_all add: providers_ok_def on_provider_def)
  show ?thesis
    unfolding providers_ok_def agents held
  proof (intro conjI allI impI)
    fix p' i' x
    assume "p' < length (sw_providers ?w)" and h: "(if p' = p \<and> i' = i then Some (length (sw_agents w)) else held w p' i') = Some x"
    then have p': "p' < length (sw_providers w)" by simp
    show "x < length (sw_agents w @ [a])" "ag_queue ((sw_agents w @ [a]) ! x) = i'" "ag_running ((sw_agents w @ [a]) ! x)"
      using h assms(4,5) held_agent(1-3) [OF assms(1) p', of i' x] by (auto simp: nth_append split: if_splits)
    fix p2 i2 assume "p2 < length (sw_providers ?w)" and h2: "(if p2 = p \<and> i2 = i then Some (length (sw_agents w)) else held w p2 i2) = Some x"
    then show "p2 = p'"
      using h held_agent(1,4) [OF assms(1) p', of i' x] held_agent(1) [OF assms(1), of p2 i2 x] by (simp split: if_splits)
  next
    fix x assume "x < length (sw_agents w @ [a])" "ag_running ((sw_agents w @ [a]) ! x)"
    then have "x = length (sw_agents w) \<or> x < length (sw_agents w) \<and> ag_running (sw_agents w ! x)" by (auto simp: nth_append less_Suc_eq)
    then consider "x = length (sw_agents w)" | p' i' where "p' < length (sw_providers w)" "held w p' i' = Some x"
      using running_held [OF assms(1)] by blast
    then show "\<exists>p' < length (sw_providers ?w). \<exists>i'. (if p' = p \<and> i' = i then Some (length (sw_agents w)) else held w p' i') = Some x"
    proof cases
      case 1
      then show ?thesis using assms(2) by (intro exI [of _ p] conjI exI [of _ i]) simp_all
    next
      case 2
      then show ?thesis using assms(3) by (intro exI [of _ p'] conjI exI [of _ i']) auto
    qed
  qed (use wf in simp_all)
qed

section \<open>Operations of providers\<close>

text \<open>What the two loops of \<open>startAgentsFor\<close> leave of the other providers and of the provider's own fields.\<close>

definition others :: "nat \<Rightarrow> ('q, 'e) stream_world \<Rightarrow> ('q, 'e) stream_world \<Rightarrow> bool" where
  "others p w w' \<longleftrightarrow> sw_queues w' = sw_queues w \<and> length (sw_providers w') = length (sw_providers w)
     \<and> (\<forall>p'. p' \<noteq> p \<longrightarrow> sw_providers w' ! p' = sw_providers w ! p')
     \<and> pv_name (sw_providers w' ! p) = pv_name (sw_providers w ! p) \<and> pv_stopped (sw_providers w' ! p) = pv_stopped (sw_providers w ! p)"

lemma others_refl [simp]: "others p w w"
  by (simp add: others_def)

lemma others_trans: "others p w w' \<Longrightarrow> others p w' w'' \<Longrightarrow> others p w w''"
  by (simp add: others_def)

lemma drop_loop:
  assumes "providers_ok w" "p < length (sw_providers w)" "distinct (map fst xs)" "\<forall>(i, x) \<in> set xs. held w p i = Some x"
  shows "providers_ok (foldl (dropAgent p wanted) w xs) \<and> others p w (foldl (dropAgent p wanted) w xs)
    \<and> (\<forall>i. held (foldl (dropAgent p wanted) w xs) p i = (if i \<in> set wanted \<or> i \<notin> fst ` set xs then held w p i else None))"
  using assms
proof (induction xs arbitrary: w)
  case (Cons ix xs)
  obtain i x where ix: "ix = (i, x)" by (cases ix)
  let ?w = "dropAgent p wanted w ix"
  have w: "providers_ok ?w" "others p w ?w" "p < length (sw_providers ?w)"
    "held ?w p j = (if i \<notin> set wanted \<and> j = i then None else held w p j)" for j
    using Cons.prems providers_drop [OF Cons.prems(1,2), of i x]
    by (auto simp: ix dropAgent_def others_def on_provider_def nth_list_update js_get_delete)
  moreover have "\<forall>(j, y) \<in> set xs. held ?w p j = Some y" using Cons.prems(3,4) w(4) by (force simp: ix)
  ultimately have "providers_ok (foldl (dropAgent p wanted) ?w xs) \<and> others p ?w (foldl (dropAgent p wanted) ?w xs)
    \<and> (\<forall>j. held (foldl (dropAgent p wanted) ?w xs) p j = (if j \<in> set wanted \<or> j \<notin> fst ` set xs then held ?w p j else None))"
    using Cons.prems(3) by (intro Cons.IH) simp_all
  with others_trans [OF w(2)] w(4) show ?case by (auto simp: ix)
qed simp

lemma add_loop:
  assumes "providers_ok w" "p < length (sw_providers w)"
  shows "providers_ok (foldl (addAgent now p) w is) \<and> others p w (foldl (addAgent now p) w is)
    \<and> (\<forall>i. held (foldl (addAgent now p) w is) p i \<noteq> None \<longleftrightarrow> held w p i \<noteq> None \<or> i \<in> set is)"
  using assms
proof (induction "is" arbitrary: w)
  case (Cons i js)
  let ?w = "addAgent now p w i"
  have new: "ag_queue (ag_start now (newAgent i ms)) = i" "ag_running (ag_start now (newAgent i ms))" for ms
    by (simp_all add: ag_start_def ag_schedule_def newAgent_def)
  have w: "providers_ok ?w" "others p w ?w" "p < length (sw_providers ?w)" "held ?w p j \<noteq> None \<longleftrightarrow> held w p j \<noteq> None \<or> j = i" for j
    using Cons.prems providers_add [OF Cons.prems _ new]
    by (auto simp: addAgent_def Let_def others_def on_provider_def nth_list_update js_get_set)
  from Cons.IH [OF w(1,3)] others_trans [OF w(2)] w(4) show ?case by auto
qed simp

lemma refresh_providers:
  assumes "providers_ok w" "p < length (sw_providers w)" "\<not> pv_stopped (sw_providers w ! p)"
  shows "providers_ok (sp_refreshOwnership now p ranges w) \<and> others p w (sp_refreshOwnership now p ranges w)
    \<and> (\<forall>i. held (sp_refreshOwnership now p ranges w) p i \<noteq> None \<longleftrightarrow>
          i \<in> set (ownedQueueIndices (pv_name (sw_providers w ! p)) (length (sw_queues w)) ranges))"
proof -
  define owned where "owned = ownedQueueIndices (pv_name (sw_providers w ! p)) (length (sw_queues w)) ranges"
  let ?xs = "pv_agents (sw_providers w ! p)"
  let ?w = "foldl (dropAgent p (remdups owned)) w ?xs"
  have wf: "js_wf ?xs" using assms(1,2) by (simp add: providers_ok_def)
  then have "distinct (map fst ?xs)" "\<forall>(i, x) \<in> set ?xs. held w p i = Some x" by (auto simp: js_wf_def)
  from drop_loop [OF assms(1,2) this, of "remdups owned"]
  have d: "providers_ok ?w" "others p w ?w" "\<And>i. held ?w p i = (if i \<in> set owned \<or> i \<notin> fst ` set ?xs then held w p i else None)" by simp_all
  have none: "held w p i = None" if "i \<notin> fst ` set ?xs" for i using that by (simp add: map_of_eq_None_iff)
  have "p < length (sw_providers ?w)" using d(2) assms(2) by (simp add: others_def)
  from add_loop [OF d(1) this, of now "remdups owned"] others_trans [OF d(2)] d(3) none assms(3) show ?thesis
    by (auto simp: sp_refreshOwnership_def startAgentsFor_def Let_def owned_def [symmetric])
qed

lemma stop_one:
  "length (sw_agents (on_agent x ag_stop w)) = length (sw_agents w)"
  "y < length (sw_agents w) \<Longrightarrow> ag_queue (sw_agents (on_agent x ag_stop w) ! y) = ag_queue (sw_agents w ! y)
     \<and> ag_running (sw_agents (on_agent x ag_stop w) ! y) = (ag_running (sw_agents w ! y) \<and> y \<noteq> x)"
  by (simp add: on_agent_def) (cases "x = y", simp_all add: on_agent_def ag_stop_def)

lemma stop_all:
  "sw_providers (foldl (\<lambda>w x. on_agent x ag_stop w) w xs) = sw_providers w"
  "length (sw_agents (foldl (\<lambda>w x. on_agent x ag_stop w) w xs)) = length (sw_agents w)"
  "y < length (sw_agents w) \<Longrightarrow> ag_queue (sw_agents (foldl (\<lambda>w x. on_agent x ag_stop w) w xs) ! y) = ag_queue (sw_agents w ! y)
     \<and> ag_running (sw_agents (foldl (\<lambda>w x. on_agent x ag_stop w) w xs) ! y) = (ag_running (sw_agents w ! y) \<and> y \<notin> set xs)"
  by (induction xs arbitrary: w) (simp_all add: stop_one)

lemma stop_providers:
  assumes "providers_ok w" "p < length (sw_providers w)"
  shows "providers_ok (sp_stop p w)"
proof -
  let ?xs = "js_values (pv_agents (sw_providers w ! p))"
  define w1 where "w1 = foldl (\<lambda>w x. on_agent x ag_stop w) w ?xs"
  have w1: "sw_providers w1 = sw_providers w" "length (sw_agents w1) = length (sw_agents w)"
    "y < length (sw_agents w) \<Longrightarrow> ag_queue (sw_agents w1 ! y) = ag_queue (sw_agents w ! y) \<and>
       ag_running (sw_agents w1 ! y) = (ag_running (sw_agents w ! y) \<and> y \<notin> set ?xs)" for y
    unfolding w1_def by (rule stop_all)+
  have mine: "y \<in> set ?xs \<longleftrightarrow> (\<exists>i. held w p i = Some y)" for y
  proof -
    have "js_wf (pv_agents (sw_providers w ! p))" using assms by (simp add: providers_ok_def)
    then show ?thesis by (simp add: js_get_mem) (metis (no_types, lifting) image_iff prod.collapse snd_conv)
  qed
  have "providers_ok (on_provider p (\<lambda>v. v\<lparr> pv_stopped := True, pv_agents := [] \<rparr>) w1)" (is "providers_ok ?w")
  proof -
    have held: "held ?w p' i' = (if p' = p then None else held w p' i')" for p' i'
      using assms(2) by (simp add: held_on_provider w1(1))
    have wf: "js_wf (pv_agents (sw_providers ?w ! p'))" if "p' < length (sw_providers w)" for p'
      using assms(1,2) that by (cases "p' = p") (simp_all add: providers_ok_def on_provider_def w1(1))
    show ?thesis
      unfolding providers_ok_def held
    proof (intro conjI allI impI)
      fix p' i' y
      assume "p' < length (sw_providers ?w)" and h: "(if p' = p then None else held w p' i') = Some y"
      then have y: "p' < length (sw_providers w)" "held w p' i' = Some y" "p' \<noteq> p" by (simp_all add: w1(1) split: if_splits)
      have "y \<notin> set ?xs" using mine held_agent(4) [OF assms(1) y(1,2) assms(2)] y(3) by blast
      then show "y < length (sw_agents ?w)" "ag_queue (sw_agents ?w ! y) = i'" "ag_running (sw_agents ?w ! y)"
        using held_agent(1-3) [OF assms(1) y(1,2)] w1(2) w1(3) [of y] by simp_all
      fix p2 i2 assume "p2 < length (sw_providers ?w)" "(if p2 = p then None else held w p2 i2) = Some y"
      then show "p2 = p'" using held_agent(4) [OF assms(1) y(1,2), of p2 i2] by (simp add: w1(1) split: if_splits)
    next
      fix y assume "y < length (sw_agents ?w)" "ag_running (sw_agents ?w ! y)"
      then have y: "y < length (sw_agents w)" "ag_running (sw_agents w ! y)" "y \<notin> set ?xs" using w1(2) w1(3) [of y] by simp_all
      then obtain p' i' where "p' < length (sw_providers w)" "held w p' i' = Some y" using running_held [OF assms(1)] by blast
      moreover then have "p' \<noteq> p" using mine y(3) by blast
      ultimately show "\<exists>p' < length (sw_providers ?w). \<exists>i'. (if p' = p then None else held w p' i') = Some y"
        by (intro exI [of _ p'] conjI exI [of _ i']) (simp_all add: w1(1))
    qed (use wf w1(1) in simp_all)
  qed
  then show ?thesis by (simp add: sp_stop_def w1_def)
qed

lemma pump_frame:
  "ag_queue (snd (pump_start Q now fate (q, a))) = ag_queue a" "ag_running (snd (pump_start Q now fate (q, a))) = ag_running a"
  "ag_queue (snd (fst (pump_resume Q now fate rs (q, a)))) = ag_queue a"
  "ag_running (snd (fst (pump_resume Q now fate rs (q, a)))) = ag_running a"
  by (auto simp: pump_start_def pump_resume_def pump_read_def pump_next_def pump_delivered_def pump_end_def ag_schedule_def resetCursor_def Let_def
      case_prod_unfold split: option.splits pump_stage.splits list.splits all_result.splits)

lemma providers_step:
  assumes "providers_ok w"
  shows "providers_ok (fst (stream_step Q op w))"
proof -
  have on: "providers_ok (fst (on_queue_agent x f w))"
    if "\<And>q a. ag_queue (snd (fst (f (q, a)))) = ag_queue a \<and> ag_running (snd (fst (f (q, a)))) = ag_running a" for x f
    using that by (auto simp: on_queue_agent_def Let_def case_prod_unfold assms nth_list_update split: if_splits intro!: providers_frame [OF assms])
  show ?thesis
  proof (cases op)
    case (RefreshQueues now p ranges)
    have "sp_refreshOwnership now p ranges w = w" if "pv_stopped (sw_providers w ! p)" using that by (simp add: sp_refreshOwnership_def startAgentsFor_def)
    with RefreshQueues refresh_providers [OF assms, of p now ranges] assms show ?thesis
      by (cases "pv_stopped (sw_providers w ! p)") (auto simp: stream_step_def)
  next
    case (StopProvider p)
    with stop_providers [OF assms] assms show ?thesis by (auto simp: stream_step_def)
  next
    case (ResetCursor x)
    have "ag_queue (sw_agents (on_agent x resetCursor w) ! y) = ag_queue (sw_agents w ! y)
        \<and> ag_running (sw_agents (on_agent x resetCursor w) ! y) = ag_running (sw_agents w ! y)" if "y < length (sw_agents w)" for y
      using that by (cases "y = x") (simp_all add: on_agent_def resetCursor_def)
    then have "providers_ok (on_agent x resetCursor w)"
      by (intro providers_frame [OF assms]) (simp_all add: on_agent_def)
    with ResetCursor show ?thesis by (simp add: stream_step_def)
  qed (simp_all add: stream_step_def on pump_frame)
qed

lemma providers_run: "stream_run Q content w0 w hist \<Longrightarrow> providers_ok w"
proof (induction rule: stream_run.induct)
  case (step w hist op w' evs)
  then show ?case using providers_step [of w Q op] by simp
next
  case (append w hist i q new)
  then show ?case by (rule_tac providers_frame) simp_all
qed (simp add: providers_ok_def)

section \<open>One agent per queue\<close>

lemma steps_append: "stream_steps Q w (ops @ ops') = (let (w1, e1) = stream_steps Q w ops; (w2, e2) = stream_steps Q w1 ops' in (w2, e1 @ e2))"
  by (induction ops arbitrary: w) (auto simp: Let_def case_prod_unfold)

lemma refresh_all:
  assumes "providers_ok w" "n \<le> length (sw_providers w)" "\<forall>p < length (sw_providers w). \<not> pv_stopped (sw_providers w ! p)"
    and "w' = fst (stream_steps Q w (map (\<lambda>p. RefreshQueues now p (ranges p)) [0..<n]))"
  shows "providers_ok w' \<and> sw_queues w' = sw_queues w \<and> length (sw_providers w') = length (sw_providers w)
    \<and> (\<forall>p < length (sw_providers w). \<not> pv_stopped (sw_providers w' ! p) \<and> pv_name (sw_providers w' ! p) = pv_name (sw_providers w ! p))
    \<and> (\<forall>p < n. \<forall>i. held w' p i \<noteq> None \<longleftrightarrow> i \<in> set (ownedQueueIndices (pv_name (sw_providers w ! p)) (length (sw_queues w)) (ranges p)))"
  using assms(2,4)
proof (induction n arbitrary: w')
  case 0
  with assms(1,3) show ?case by simp
next
  case (Suc n)
  let ?w = "fst (stream_steps Q w (map (\<lambda>p. RefreshQueues now p (ranges p)) [0..<n]))"
  have ih: "providers_ok ?w" "sw_queues ?w = sw_queues w" "length (sw_providers ?w) = length (sw_providers w)"
    "\<And>p. p < length (sw_providers w) \<Longrightarrow> \<not> pv_stopped (sw_providers ?w ! p) \<and> pv_name (sw_providers ?w ! p) = pv_name (sw_providers w ! p)"
    "\<And>p i. p < n \<Longrightarrow> held ?w p i \<noteq> None \<longleftrightarrow> i \<in> set (ownedQueueIndices (pv_name (sw_providers w ! p)) (length (sw_queues w)) (ranges p))"
    using Suc.IH [OF _ refl] Suc.prems(1) by (blast dest: Suc_leD)+
  have n: "n < length (sw_providers ?w)" using Suc.prems(1) ih(3) by simp
  have w': "w' = sp_refreshOwnership now n (ranges n) ?w"
    using n by (simp add: Suc.prems(2) steps_append Let_def case_prod_unfold stream_step_def)
  have r: "providers_ok w'" "others n ?w w'"
    "held w' n i \<noteq> None \<longleftrightarrow> i \<in> set (ownedQueueIndices (pv_name (sw_providers w ! n)) (length (sw_queues w)) (ranges n))" for i
    using refresh_providers [OF ih(1) n, of now "ranges n"] ih(2,3) ih(4) [of n] n unfolding w' by simp_all
  have q: "sw_queues w' = sw_queues w" "length (sw_providers w') = length (sw_providers w)" using r(2) ih(2,3) by (simp_all add: others_def)
  have f: "\<not> pv_stopped (sw_providers w' ! p) \<and> pv_name (sw_providers w' ! p) = pv_name (sw_providers w ! p)" if "p < length (sw_providers w)" for p
    using r(2) ih(4) [OF that] by (cases "p = n") (simp_all add: others_def)
  have h: "held w' p i \<noteq> None \<longleftrightarrow> i \<in> set (ownedQueueIndices (pv_name (sw_providers w ! p)) (length (sw_queues w)) (ranges p))" if "p < Suc n" for p i
  proof (cases "p = n")
    case True
    show ?thesis unfolding True by (rule r(3))
  next
    case False
    then have "held w' p i = held ?w p i" using r(2) by (simp add: others_def)
    then show ?thesis using ih(5) [of p i] that False by simp
  qed
  show ?case by (intro conjI allI impI r(1) q f h)
qed

text \<open>C21: Once the provider of every silo has taken over the arcs the ring assigns to its silo, every queue is pulled by
  exactly one running agent of the cluster, whatever happened before.\<close>

theorem one_agent_per_queue:
  assumes "stream_run Q content w0 w hist" "distinct silos" "length (sw_providers w) = length silos"
    and "\<forall>p < length silos. \<not> pv_stopped (sw_providers w ! p) \<and> pv_name (sw_providers w ! p) = name"
    and "two_hashes (hr_nodes (newRing silos vnodes))" "i < length (sw_queues w)"
    and "w' = fst (stream_steps Q w (map (\<lambda>p. RefreshQueues now p (rangesFor (newRing silos vnodes) (silos ! p))) [0..<length silos]))"
  shows "\<exists>!x. x < length (sw_agents w') \<and> ag_running (sw_agents w' ! x) \<and> ag_queue (sw_agents w' ! x) = i"
proof -
  let ?N = "hr_nodes (newRing silos vnodes)"
  let ?owner = "rn_silo (?N ! arc_index ?N (queueRingHash name i))"
  have ok: "providers_ok w" by (rule providers_run [OF assms(1)])
  note r = refresh_all [OF ok _ _ assms(7)]
  have w': "providers_ok w'" "length (sw_providers w') = length silos"
    "p < length silos \<Longrightarrow> held w' p j \<noteq> None \<longleftrightarrow> j \<in> set (ownedQueueIndices name (length (sw_queues w)) (rangesFor (newRing silos vnodes) (silos ! p)))" for p j
    using r assms(3,4) by simp_all
  have iff: "held w' p i \<noteq> None \<longleftrightarrow> silos ! p = ?owner" if "p < length silos" for p
    unfolding w'(3) [OF that] using rangesFor_holds_iff [OF newRing_sorted assms(5)] assms(6) by (auto simp: ownedQueueIndices_def)
  have "?N \<noteq> []" using assms(5) by (simp add: two_hashes_def)
  then have "?owner \<in> set silos" by (intro newRing_members [where v = vnodes]) (simp add: arc_index_lt)
  then obtain p where p: "p < length silos" "silos ! p = ?owner" by (metis in_set_conv_nth)
  then obtain x where x: "held w' p i = Some x" using iff by blast
  have P: "p < length (sw_providers w')" using p(1) w'(2) by simp
  show ?thesis
  proof (rule ex1I)
    show "x < length (sw_agents w') \<and> ag_running (sw_agents w' ! x) \<and> ag_queue (sw_agents w' ! x) = i"
      using held_agent(1-3) [OF w'(1) P x] by simp
    fix y assume y: "y < length (sw_agents w') \<and> ag_running (sw_agents w' ! y) \<and> ag_queue (sw_agents w' ! y) = i"
    then obtain p' i' where p': "p' < length (sw_providers w')" "held w' p' i' = Some y" using running_held [OF w'(1)] by blast
    then have "i' = i" using held_agent(2) [OF w'(1) p'] y by simp
    then have "silos ! p' = ?owner" using p' iff [of p'] w'(2) by simp
    then have "silos ! p' = silos ! p" using p(2) by simp
    then have "p' = p" using nth_eq_iff_index_eq [OF assms(2)] p(1) p'(1) w'(2) by simp
    then show "y = x" using p'(2) x \<open>i' = i\<close> by simp
  qed
qed

section \<open>Concrete runs\<close>

lemma stream_run_steps:
  fixes Q :: "('q, 'e) pullable_queue"
  assumes "stream_run Q content w0 w hist" "\<forall>op \<in> set ops. \<forall>w :: ('q, 'e) stream_world. op_ok w op"
  shows "stream_run Q content w0 (fst (stream_steps Q w ops)) (hist @ snd (stream_steps Q w ops))"
  using assms
proof (induction ops arbitrary: w hist)
  case (Cons op ops)
  have "stream_run Q content w0 (fst (stream_step Q op w)) (hist @ snd (stream_step Q op w))"
    by (rule stream_run.step [OF Cons.prems(1)]) (use Cons.prems(2) in simp_all)
  from Cons.IH [OF this] Cons.prems(2) show ?case by (simp add: case_prod_unfold)
qed simp

text \<open>A generated queue of two events and the providers of two silos.\<close>

definition demo_queue :: "int \<Rightarrow> generator_queue" where
  "demo_queue n = \<lparr> gq_config = \<lparr> gc_streamNamespace = ''n'', gc_eventsInStream = n \<rparr>, gq_streamKey = None, gq_committed = 0,
     gq_uuids = (\<lambda>_. ''u''), gq_minted = 0 \<rparr>"

definition demo_provider :: stream_provider where
  "demo_provider = \<lparr> pv_name = ''p'', pv_pollIntervalMs = 50, pv_agents = [], pv_stopped = False \<rparr>"

definition demo_streams :: "int \<Rightarrow> (generator_queue, generated_event) stream_world" where
  "demo_streams n = \<lparr> sw_queues = [demo_queue n], sw_agents = [], sw_providers = [demo_provider, demo_provider] \<rparr>"

definition demo_pump :: "stream_op list" where
  "demo_pump = [RefreshQueues 0 0 [(0, 0x100000000)], PollTimer 0 0 Applied, PumpResume 0 0 Applied None, PumpResume 0 0 Applied None,
     PumpResume 1 0 Applied (Some [DeliveredOne]), PumpResume 1 0 Applied None, PumpResume 2 0 Applied (Some [DeliveredOne])]"

lemma demo_start: "stream_run generatorQueue gq_content (demo_streams n) (demo_streams n) []"
  by (rule stream_run.start) (simp_all add: demo_streams_def demo_queue_def demo_provider_def generatorQueue_def)

lemma demo_answers: "\<forall>op \<in> set demo_pump. op_ok w op"
proof -
  have "deliverToOne defaultBackoff 0 0 [\<lparr> da_outcome = AttemptOk, da_tookMs = 0, da_aborted = False, da_overrunMs = 0 \<rparr>] =
      Some DeliveredOne" by code_simp
  then have "answers_ok t aborted [DeliveredOne]" for t aborted by (fastforce simp: answers_ok_def)
  then show ?thesis by (auto simp: demo_pump_def op_ok_def pump_answers_ok_def)
qed

lemma demo_pumped: "stream_run generatorQueue gq_content (demo_streams 2) (fst (stream_steps generatorQueue (demo_streams 2) demo_pump))
    (snd (stream_steps generatorQueue (demo_streams 2) demo_pump))"
  using stream_run_steps [OF demo_start [of 2], of demo_pump] demo_answers by auto

lemma demo_pumped_facts:
  "map gq_committed (sw_queues (fst (stream_steps generatorQueue (demo_streams 2) demo_pump))) = [2]"
  "map qe_token (gq_content (sw_queues (fst (stream_steps generatorQueue (demo_streams 2) demo_pump)) ! 0)) = [1, 2]"
  "map ag_running (sw_agents (fst (stream_steps generatorQueue (demo_streams 2) demo_pump))) = [True]"
  by code_simp+

lemma default_backoff_positive: "0 < k \<Longrightarrow> 100 \<le> defaultBackoff k"
proof -
  assume "0 < k"
  then have "(2 :: int) ^ 1 \<le> 2 ^ k" by (intro power_increasing) simp_all
  then show ?thesis by (simp add: defaultBackoff_def)
qed

definition demo_attempts :: "delivery_attempt list" where
  "demo_attempts = replicate 3 \<lparr> da_outcome = AttemptFailed ''no'', da_tookMs = 20, da_aborted = False, da_overrunMs = 1 \<rparr>"

theorem delivery_ends_witness: "deliverToOne defaultBackoff 0 150 demo_attempts \<noteq> None"
proof -
  have "\<exists>r. deliverToOne defaultBackoff 0 150 demo_attempts = Some r \<and> (\<forall>e n. r = SkippedOne e n \<longrightarrow> 0 < n \<and> n \<le> length demo_attempts
      \<and> da_outcome (demo_attempts ! (n - 1)) = AttemptFailed e
      \<and> 0 + 150 \<le> settles_at (\<lambda>attempt. Some (defaultBackoff (attempt + 1))) 0 0
          (map (\<lambda>a. ((da_outcome a, da_aborted a), da_tookMs a, da_overrunMs a)) demo_attempts) (n - 1))"
    by (rule delivery_ends [where b = 100])
       (simp_all add: default_backoff_positive demo_attempts_def nth_replicate)
  then show ?thesis by blast
qed

theorem stream_at_least_once_witness:
  "\<exists>results. Handled 0 1 results \<in> set (snd (stream_steps generatorQueue (demo_streams 2) demo_pump))"
proof -
  let ?w = "fst (stream_steps generatorQueue (demo_streams 2) demo_pump)"
  have "1 \<in> set (map qe_token (gq_content (sw_queues ?w ! 0)))" by (simp add: demo_pumped_facts)
  then obtain e where e: "e \<in> set (gq_content (sw_queues ?w ! 0))" "qe_token e = 1" by auto
  have q: "length (sw_queues ?w) = 1" "gq_committed (sw_queues ?w ! 0) = 2"
    using demo_pumped_facts(1) by (cases "sw_queues ?w"; simp)+
  have "pullable generatorQueue gq_content" by unfold_locales
  moreover have "pq_getCursor generatorQueue (sw_queues (demo_streams 2) ! 0) < qe_token e" "qe_token e \<le> pq_getCursor generatorQueue (sw_queues ?w ! 0)"
    using e(2) q(2) by (simp_all add: generatorQueue_def) (simp add: demo_streams_def demo_queue_def)
  ultimately obtain results where "Handled 0 (qe_token e) results \<in> set (snd (stream_steps generatorQueue (demo_streams 2) demo_pump))"
    using stream_at_least_once [of generatorQueue gq_content, OF _ demo_pumped _ e(1)] q(1) by auto
  with e(2) show ?thesis by auto
qed

theorem poll_loop_alive_witness:
  "(ag_timer (sw_agents (fst (stream_steps generatorQueue (demo_streams 2) demo_pump)) ! 0),
    ag_pump (sw_agents (fst (stream_steps generatorQueue (demo_streams 2) demo_pump)) ! 0)) \<noteq> (None, None)"
proof -
  let ?as = "sw_agents (fst (stream_steps generatorQueue (demo_streams 2) demo_pump))"
  have l: "length ?as = 1" using arg_cong [OF demo_pumped_facts(3), of length] by simp
  then have "ag_running (?as ! 0)" using arg_cong [OF demo_pumped_facts(3), of hd] by (cases ?as) simp_all
  moreover have "?as ! 0 \<in> set ?as" using l by simp
  ultimately show ?thesis using poll_loop_alive [OF demo_pumped] by blast
qed

theorem one_agent_per_queue_witness:
  "\<exists>!x. x < length (sw_agents (fst (stream_steps generatorQueue (demo_streams 2) (map (\<lambda>p. RefreshQueues 0 p (rangesFor
       (newRing [SiloAddress ''a'' ''1'' ''e'', SiloAddress ''b'' ''2'' ''f''] 1) ([SiloAddress ''a'' ''1'' ''e'', SiloAddress ''b'' ''2'' ''f''] ! p)))
       [0..<length [SiloAddress ''a'' ''1'' ''e'', SiloAddress ''b'' ''2'' ''f'']]))))
     \<and> ag_running (sw_agents (fst (stream_steps generatorQueue (demo_streams 2) (map (\<lambda>p. RefreshQueues 0 p (rangesFor
       (newRing [SiloAddress ''a'' ''1'' ''e'', SiloAddress ''b'' ''2'' ''f''] 1) ([SiloAddress ''a'' ''1'' ''e'', SiloAddress ''b'' ''2'' ''f''] ! p)))
       [0..<length [SiloAddress ''a'' ''1'' ''e'', SiloAddress ''b'' ''2'' ''f'']]))) ! x)
     \<and> ag_queue (sw_agents (fst (stream_steps generatorQueue (demo_streams 2) (map (\<lambda>p. RefreshQueues 0 p (rangesFor
       (newRing [SiloAddress ''a'' ''1'' ''e'', SiloAddress ''b'' ''2'' ''f''] 1) ([SiloAddress ''a'' ''1'' ''e'', SiloAddress ''b'' ''2'' ''f''] ! p)))
       [0..<length [SiloAddress ''a'' ''1'' ''e'', SiloAddress ''b'' ''2'' ''f'']]))) ! x) = 0"
proof (rule one_agent_per_queue [OF demo_start [of 2] _ _ _ _ _ refl])
  show "two_hashes (hr_nodes (newRing [SiloAddress ''a'' ''1'' ''e'', SiloAddress ''b'' ''2'' ''f''] 1))" by code_simp
  show "\<forall>p < length [SiloAddress ''a'' ''1'' ''e'', SiloAddress ''b'' ''2'' ''f''].
      \<not> pv_stopped (sw_providers (demo_streams 2) ! p) \<and> pv_name (sw_providers (demo_streams 2) ! p) = ''p''"
    by (auto simp: demo_streams_def demo_provider_def less_Suc_eq)
qed (simp_all add: demo_streams_def)

text \<open>The generators are reconfigured while an event of the old stream is being delivered. The delivery then sets the
  agent's cursor and the queue's committed cursor to the old stream's token: the new stream, not even named yet, has
  lost its first events.\<close>

definition demo_reconfigured :: "(generator_queue, generated_event) stream_world" where
  "demo_reconfigured =
     (let w = fst (stream_steps generatorQueue (demo_streams 5) (take 6 demo_pump));
          w1 = w\<lparr> sw_queues := map (gq_reconfigure \<lparr> gc_streamNamespace = ''m'', gc_eventsInStream = 4 \<rparr>) (sw_queues w) \<rparr>
      in fst (stream_steps generatorQueue w1 [ResetCursor 0, PumpResume 2 0 Applied (Some [DeliveredOne])]))"

lemma reconfigured_stream_skipped:
  "map gq_committed (sw_queues demo_reconfigured) = [2] \<and> map gq_streamKey (sw_queues demo_reconfigured) = [None]
   \<and> map ag_cursor (sw_agents demo_reconfigured) = [Some 2]"
  by code_simp

end
