(* ===== verification/Spec2Isabelle.thy ===== *)
theory Spec2Isabelle
  imports Grain_Directory Transaction_Atomicity Turn_Scheduler Journaled_Grain Log_View Repartitioner Anchored_Filter
    Codec_Round_Trip Catalog_Safety Durable_Jobs_Store Reminders_Safety Stream_Ownership
begin

text \<open>
  Thresh is a virtual-actor runtime in TypeScript. A cluster is a set of silos; a grain is an actor named by a type and
  a key and activated on some silo when it is called. The parts modelled here, and how they meet:

  \<^item> A caller's silo finds a grain by the directory: the grain id is hashed (\<open>Hashing\<close>, \<open>Identity\<close>), the consistent-hash
    ring names the silo whose partition holds the entry (\<open>Hash_Ring\<close>), and the partition registers one activation per
    grain by compare-and-set (\<open>Grain_Directory\<close>).
  \<^item> On the silo that hosts it, the catalog holds the activations (\<open>Catalog\<close>). Each is a state machine (\<open>Activation\<close>)
    over a scheduler that runs its turns one at a time (\<open>Turn_Scheduler\<close>).
  \<^item> A grain keeps state that is transactional (\<open>Transactional_State\<close> under \<open>RW_Lock\<close>, stored by \<open>Transactional_Storage\<close>,
    committed over several grains by \<open>Transaction_Agent\<close>), journalled (\<open>Journaling\<close>, \<open>Durable_Structures\<close>), or a fold of
    its events (\<open>Log_View\<close>).
  \<^item> Values cross the wire and reach storage through one codec (\<open>Value_Codec\<close>).
  \<^item> Jobs due at a time are kept in shards of a shared store; the silos divide the shards among them and run the due
    jobs (\<open>Durable_Jobs\<close>). Reminders are rows of a shared table: every silo arms timers for the rows of its own arc of
    the ring and fires them on a fixed grid of times (\<open>Reminders\<close>).
  \<^item> Streams that come from external queues are pulled: the ring gives each queue to one silo, whose agent reads the
    queue in batches and delivers every batch to the stream's subscribers (\<open>Pulling_Streams\<close>).
  \<^item> Silos observe which grains talk to which and exchange activations (\<open>Quaternary_Heap\<close>, \<open>Max_Heap\<close>, \<open>Frequent_Items\<close>,
    \<open>Anchored_Filter\<close>, \<open>Repartitioner\<close>).

  \<^bold>\<open>Conventions.\<close> \<open>Thresh_Prelude\<close> has the JavaScript containers (a \<open>Map\<close> is an association list in insertion order, a
  stable sort) and their lemmas. Errors are \<open>Inl\<close> values. A promise is a ticket, and settling it is an event. An
  asynchronous method is cut at each await; what happens in between is any interleaving of steps, which the
  theorems quantify over through an inductive run relation. Hashes, ring positions and filter words are \<open>32 word\<close>;
  counters and times are unbounded where the code's numbers are and cannot wrap in practice.

  \<^bold>\<open>Theories and sources.\<close> Each theory names its sources in its first block; paths are under \<^verbatim>\<open>src/packages\<close>.

  \<^item> \<open>Hashing\<close>: \<^verbatim>\<open>core/src/hash.ts\<close>, \<^verbatim>\<open>core/src/hash-ring.ts\<close>. The finalizer and the step of the hash are
    injective.
  \<^item> \<open>Identity\<close>: keys, grain ids, silo addresses, membership (\<^verbatim>\<open>core/src\<close>). Keys and ids survive printing and parsing.
  \<^item> \<open>Hash_Ring\<close>: \<^verbatim>\<open>directory/src/consistent-hash-ring.ts\<close>. The binary search finds the clockwise successor, the
    arcs tile the circle, a departure moves only what the departed silo owned.
  \<^item> \<open>Grain_Directory\<close>: the other files of \<^verbatim>\<open>directory/src\<close>. The locale \<open>cas_directory\<close> states the register contract; the
    partition is an instance. Lookups are sound, handoffs lose nothing, routing accepts only at the owner.
  \<^item> \<open>RW_Lock\<close>: \<^verbatim>\<open>transactions/src/reader-writer-lock.ts\<close>. Exclusion, no lost wakeup, wait-die at entry.
  \<^item> \<open>Transactional_Storage\<close>, \<open>Transactional_State\<close>, \<open>Transaction_Agent\<close>, \<open>Transaction_Atomicity\<close>: the rest of
    \<^verbatim>\<open>transactions/src\<close> with \<^verbatim>\<open>runtime/src/transaction-agent.ts\<close>. The locale \<open>two_phase_resources\<close> is what the agent
    asks of a participant; atomicity is proved in it and holds of the transactional states by interpretation. Each
    call of the protocol has a fate of its own: answered, lost, or in effect with its reply lost.
  \<^item> \<open>Turn_Scheduler\<close>: \<^verbatim>\<open>runtime/src/turn-scheduler.ts\<close>. No admissible turn waits, a plain grain runs its turns in order
    and one at a time, the shortcut of the pump equals the full scan, the bounds of the queue.
  \<^item> \<open>Activation\<close>, \<open>Activation_Lifecycle\<close>, \<open>Activation_Calls\<close>, \<open>Activation_Contract\<close>: \<^verbatim>\<open>runtime/src/activation.ts\<close>.
    The correspondence of closures and scheduler tickets, the accounting of calls, and the locale \<open>mortal_objects\<close>: what a
    registry may rely on, for objects that were not deactivated from outside before their activation turn was over.
  \<^item> \<open>Catalog\<close>, \<open>Catalog_Safety\<close>: \<^verbatim>\<open>runtime/src/catalog.ts\<close>. The invariant over all processes between their awaits;
    single activation in every run of the silo, bounded workers, no creation while stopping.
  \<^item> \<open>Journaling\<close>, \<open>Durable_Structures\<close>, \<open>Journaled_Grain\<close>, \<open>Log_View\<close>: \<^verbatim>\<open>journaling/src\<close>. The locale
    \<open>durable_machine\<close> is the interface of a journalled structure, interpreted for the five structures and their sum;
    payloads pass through a codec that is an argument, and what it carries unchanged is replayed exactly. Fencing of
    stale activations, recovery by replay, exact tentative views, atomic conditional appends.
  \<^item> \<open>Value_Codec\<close>, \<open>Codec_Round_Trip\<close>: \<^verbatim>\<open>core/src/value-codec.ts\<close>, \<^verbatim>\<open>core/src/errors.ts\<close>. Round trips, directly and
    through JSON, refusal of cycles, identity of known errors, safety of the keys decoded from well-typed data.
  \<^item> \<open>Durable_Jobs\<close>, \<open>Durable_Jobs_Safety\<close>, \<open>Durable_Jobs_Work\<close>, \<open>Durable_Jobs_Cluster\<close>, \<open>Durable_Jobs_Store\<close>:
    \<^verbatim>\<open>durable-jobs/src\<close>. Slots and ceilings of concurrent runs, no job forgotten, bounded attempts, and the locale
    \<open>job_store_law\<close>: what every operation of the store keeps, every run of the cluster keeps.
  \<^item> \<open>Durations\<close>, \<open>Reminders\<close>, \<open>Reminders_Safety\<close>: \<^verbatim>\<open>core/src/duration.ts\<close>, \<^verbatim>\<open>reminders/src\<close>. Ticks fall on the
    grid of the row, never early and never twice, and reconciling arms exactly the rows the silo owns.
  \<^item> \<open>Pulling_Streams\<close>, \<open>Pulling_Streams_Safety\<close>, \<open>Stream_Ownership\<close>: \<^verbatim>\<open>streams/src\<close>. The locale \<open>pullable\<close> is what the
    agent asks of a queue receiver, interpreted for the generator queue. With a positive backoff delivery ends, no event is skipped, the poll
    loop survives failures, a stable ring gives every queue one agent.
  \<^item> \<open>Quaternary_Heap\<close>, \<open>Max_Heap\<close>, \<open>Frequent_Items\<close>, \<open>Anchored_Filter\<close>, \<open>Repartitioner\<close>:
    \<^verbatim>\<open>runtime/src/placement/repartitioning\<close>. The locale \<open>heap_order\<close> carries both heaps.

  \<^bold>\<open>Bounds and fuel.\<close> The loops of the model terminate by structure or by a measure proved with \<open>termination\<close>: the
  pump of the lock shrinks the waiters, the pump of the scheduler shrinks the queue, the binary search shrinks its
  interval. The confirm loop of the log view and the routing loop of the directory take the number of attempts the
  code itself bounds them by. Encoding follows a heap that may be cyclic and carries the objects on its path: it
  terminates because the path never repeats, and is proved to refuse a cycle and to succeed on every finite value.
  No definition takes fuel of its own.

  \<^bold>\<open>Not modelled.\<close> Providers over Redis, Postgres, Kafka, Kubernetes and WebSockets are adapters of external services.
  The silo host and builder, the client node and the cluster node wire the parts together and are mostly I/O.
  Logging, tracing spans and metrics have no effect on the modelled state. What a grain's own methods do is the
  environment of the activation. The operations of one transactional state are atomic steps, and so are the re-reads,
  withdrawals, clears and conditional appends of a log view: calls of several turns that overlap inside them are left
  out, and the claims say so. Floating-point formulas (the block count of the filter, resource statistics) are
  parameters.
\<close>

end
